(* ===== verification/Prelude.thy ===== *)
theory Prelude
  imports Main "HOL-Library.Word"
begin

text \<open>
  Shared base of the development.  It fixes the machine types of the target (a little-endian
  64-bit Linux machine: 8-bit \<open>char\<close>, 32-bit \<open>int\<close>), the conversions C makes between them, the
  truncating division of C, the collections of automation rules, and the generic interfaces
  (locales) that several components share.
\<close>

unbundle bit_operations_syntax

type_synonym u8 = "8 word"
type_synonym u16 = "16 word"
type_synonym u32 = "32 word"

named_theorems wire_simps \<open>rewriting of the byte codecs\<close>
named_theorems frame_simps \<open>fields that an operation leaves alone\<close>
named_theorems inv_intros \<open>one rule per operation: the invariant is kept\<close>

section \<open>C integers\<close>

text \<open>
  An \<open>int\<close> of the code is an \<open>int\<close> of the model inside \<open>[-2^31, 2^31)\<close>; \<open>i32\<close> is the cast of an
  unsigned 32-bit value to \<open>int\<close>, \<open>wrap32\<close> reduces an exact result to the 32-bit range.
\<close>

abbreviation i32 :: "u32 \<Rightarrow> int" where
  "i32 w \<equiv> sint w"

definition u32 :: "int \<Rightarrow> u32" where
  "u32 x = word_of_int x"

definition wrap32 :: "int \<Rightarrow> int" where
  "wrap32 x = sint (word_of_int x :: u32)"

definition cdiv :: "int \<Rightarrow> int \<Rightarrow> int" where
  "cdiv a b = sgn a * sgn b * (\<bar>a\<bar> div \<bar>b\<bar>)"

definition int_range :: "int \<Rightarrow> bool" where
  "int_range x \<longleftrightarrow> - (2 ^ 31) \<le> x \<and> x < 2 ^ 31"

lemma cdiv_nonneg: "0 \<le> a \<Longrightarrow> 0 < b \<Longrightarrow> cdiv a b = a div b"
  by (cases "a = 0") (simp_all add: cdiv_def)

lemma wrap32_eq_signed_take_bit: "wrap32 x = signed_take_bit 31 x"
  by (simp add: wrap32_def sint_sbintrunc')

lemma wrap32_id: "int_range x \<Longrightarrow> wrap32 x = x"
  unfolding wrap32_eq_signed_take_bit int_range_def
  by (rule signed_take_bit_int_eq_self) auto

lemma wrap32_nonneg: "0 \<le> x \<Longrightarrow> x < 2 ^ 31 \<Longrightarrow> wrap32 x = x"
  by (rule wrap32_id) (simp add: int_range_def)

lemma wrap32_range: "int_range (wrap32 x)"
  using sint_range_size[of "word_of_int x :: u32"]
  by (simp add: wrap32_def int_range_def word_size)

lemma i32_range: "int_range (i32 w)"
  using sint_range_size[of w] by (simp add: int_range_def word_size)

lemma i32_u32 [simp]: "i32 (u32 x) = wrap32 x"
  by (simp add: u32_def wrap32_def)

lemma u32_i32 [simp]: "u32 (i32 w) = w"
  by (simp add: u32_def)

lemma i32_small: "unat w < 2 ^ 31 \<Longrightarrow> i32 w = int (unat w)"
proof -
  assume "unat w < 2 ^ 31"
  then have *: "uint w < 2 ^ 31"
    by (metis of_nat_less_iff of_nat_numeral of_nat_power uint_nat)
  have "- (2 ^ 31) \<le> uint w"
    by (rule order_trans [OF _ uint_ge_0]) simp
  then have "signed_take_bit 31 (uint w) = uint w"
    using * by (rule signed_take_bit_int_eq_self)
  moreover have "i32 w = signed_take_bit 31 (uint w)"
    using sint_uint [of w] by simp
  ultimately show ?thesis
    by (simp only: uint_nat)
qed

lemma unat_lt: "unat (w :: u32) < 2 ^ 32"
  using unsigned_less [of w] by simp

lemma i32_large: "2 ^ 31 \<le> unat w \<Longrightarrow> i32 w = int (unat w) - 2 ^ 32"
proof -
  assume *: "2 ^ 31 \<le> unat w"
  define n where "n = unat w"
  have n: "2 ^ 31 \<le> n" "n < 2 ^ 32"
    using * unsigned_less [of w] by (simp_all add: n_def)
  have zero: "(4294967296 :: u32) = 0"
    by simp
  have "(word_of_int (int n - 2 ^ 32) :: u32) = w - 4294967296"
    by (simp add: n_def wi_hom_sub [symmetric])
  also have "\<dots> = w"
    by (simp only: zero diff_zero)
  finally have "i32 w = wrap32 (int n - 2 ^ 32)"
    by (simp only: wrap32_def)
  also have "\<dots> = int n - 2 ^ 32"
    using n by (intro wrap32_id) (simp add: int_range_def)
  finally show ?thesis by (simp only: n_def)
qed

lemma i32_nonneg_iff: "0 \<le> i32 w \<longleftrightarrow> unat w < 2 ^ 31"
proof (cases "unat w < 2 ^ 31")
  case True
  then show ?thesis by (simp add: i32_small)
next
  case False
  moreover have "int (unat w) < 2 ^ 32"
    using unsigned_less [of w] by simp
  ultimately show ?thesis by (simp add: i32_large)
qed

lemma i32_of_nat: "n < 2 ^ 31 \<Longrightarrow> i32 (of_nat n) = int n"
  by (subst i32_small) (simp_all add: unat_of_nat)


lemma uint_int_cmp [simp]:
  "int n \<le> uint w \<longleftrightarrow> n \<le> unat w" "uint w \<le> int n \<longleftrightarrow> unat w \<le> n"
  "int n < uint w \<longleftrightarrow> n < unat w" "uint w < int n \<longleftrightarrow> unat w < n"
  by (simp_all only: uint_nat of_nat_le_iff of_nat_less_iff)

lemma unat_u32: "0 \<le> x \<Longrightarrow> x < 2 ^ 32 \<Longrightarrow> unat (u32 x) = nat x"
proof -
  assume x: "0 \<le> x" "x < 2 ^ 32"
  then have "u32 x = of_nat (nat x)" by (simp add: u32_def)
  moreover have "nat x < 2 ^ 32" using x by simp
  ultimately show ?thesis by (simp add: unat_of_nat)
qed

lemma unat_add_1_less: "(a :: u32) < b \<Longrightarrow> unat (a + 1) = Suc (unat a)"
  by unat_arith

lemma unat_diff_add:
  fixes x b :: u32
  assumes "m \<le> unat (x - b)"
  shows "unat (x - (b + of_nat m)) = unat (x - b) - m"
proof -
  have m: "unat (of_nat m :: u32) = m"
    using assms unat_lt [of "x - b"] by (simp add: unat_of_nat)
  have "x - (b + of_nat m) = (x - b) - of_nat m" by simp
  also have "unat \<dots> = unat (x - b) - unat (of_nat m :: u32)"
    by (rule unat_sub) (simp add: word_le_nat_alt m assms)
  finally show ?thesis by (simp add: m)
qed

lemma strict_sorted_index:
  fixes f :: "'a \<Rightarrow> nat"
  assumes "sorted_wrt (\<lambda>a b. f a < f b) p"
  shows "i < length p \<Longrightarrow> i \<le> f (p ! i)"
proof (induction i)
  case 0
  then show ?case by simp
next
  case (Suc i)
  then have "f (p ! i) < f (p ! Suc i)"
    using sorted_wrt_nth_less [OF assms, of i "Suc i"] by simp
  with Suc show ?case by simp
qed

section \<open>Stream codecs\<close>

text \<open>
  An item is written by appending its bytes and read back from the front of the bytes left.
  \<open>decode_all\<close> reads items until nothing is left, spending one unit of fuel on each.
\<close>

fun decode_all :: "('b list \<Rightarrow> ('c \<times> 'b list) option) \<Rightarrow> nat \<Rightarrow> 'b list \<Rightarrow> 'c list option" where
  "decode_all dec fuel [] = Some []"
| "decode_all dec 0 (b # bs) = None"
| "decode_all dec (Suc fuel) (b # bs) =
     (case dec (b # bs) of None \<Rightarrow> None
      | Some (c, rest) \<Rightarrow> map_option ((#) c) (decode_all dec fuel rest))"

locale stream_codec =
  fixes enc :: "'a \<Rightarrow> 'b list"
    and dec :: "'b list \<Rightarrow> ('c \<times> 'b list) option"
    and view :: "'a \<Rightarrow> 'c"
    and ok :: "'a \<Rightarrow> bool"
  assumes dec_enc: "ok x \<Longrightarrow> dec (enc x @ rest) = Some (view x, rest)"
    and enc_nonempty: "ok x \<Longrightarrow> enc x \<noteq> []"
begin

lemma decode_all_step:
  "ok x \<Longrightarrow> decode_all dec (Suc fuel) (enc x @ rest) = map_option ((#) (view x)) (decode_all dec fuel rest)"
  using dec_enc [of x rest] enc_nonempty [of x] by (cases "enc x @ rest") auto

lemma decode_all_concat:
  "\<forall>x\<in>set xs. ok x \<Longrightarrow> length xs \<le> fuel \<Longrightarrow>
   decode_all dec fuel (concat (map enc xs)) = Some (map view xs)"
proof (induction xs arbitrary: fuel)
  case Nil
  then show ?case by simp
next
  case (Cons x xs)
  then obtain f where "fuel = Suc f" by (cases fuel) auto
  with Cons show ?case by (simp add: decode_all_step)
qed

lemma concat_enc_inj:
  assumes "\<forall>x\<in>set xs. ok x" and "\<forall>y\<in>set ys. ok y"
    and "concat (map enc xs) = concat (map enc ys)"
  shows "map view xs = map view ys"
proof -
  let ?f = "length xs + length ys"
  have "decode_all dec ?f (concat (map enc xs)) = Some (map view xs)"
    by (rule decode_all_concat [OF assms(1)]) simp
  moreover have "decode_all dec ?f (concat (map enc ys)) = Some (map view ys)"
    by (rule decode_all_concat [OF assms(2)]) simp
  ultimately show ?thesis using assms(3) by simp
qed

end

section \<open>Byte buffers\<close>

text \<open>Copies out of and into a buffer, and the string in it; \<open>None\<close> when they leave it.\<close>

definition get_bytes :: "u8 list \<Rightarrow> nat \<Rightarrow> nat \<Rightarrow> u8 list option" where
  "get_bytes buf i n = (if i + n \<le> length buf then Some (take n (drop i buf)) else None)"

definition put_bytes :: "u8 list \<Rightarrow> nat \<Rightarrow> u8 list \<Rightarrow> u8 list option" where
  "put_bytes buf i bs = (if i + length bs \<le> length buf then Some (take i buf @ bs @ drop (i + length bs) buf) else None)"

definition get_byte :: "u8 list \<Rightarrow> nat \<Rightarrow> u8 option" where
  "get_byte buf i = (if i < length buf then Some (buf ! i) else None)"

definition bstr :: "u8 list \<Rightarrow> u8 list option" where
  "bstr a = (if 0 \<in> set a then Some (takeWhile (\<lambda>c. c \<noteq> 0) a) else None)"

lemma put_bytes_Some: "i + length bs \<le> length buf \<Longrightarrow> put_bytes buf i bs = Some (take i buf @ bs @ drop (i + length bs) buf)"
  by (simp add: put_bytes_def)

lemma put_bytes_length: "put_bytes buf i bs = Some buf' \<Longrightarrow> length buf' = length buf"
  by (auto simp: put_bytes_def split: if_splits)

lemma put_bytes_put_bytes:
  assumes "i + length bs + length cs \<le> length buf"
  shows "Option.bind (put_bytes buf i bs) (\<lambda>b. put_bytes b (i + length bs) cs) = put_bytes buf i (bs @ cs)"
  using assms by (simp add: put_bytes_def add.commute add.left_commute)

lemma put_bytes_fits: "put_bytes buf i bs = Some buf' \<Longrightarrow> i + length bs \<le> length buf"
  by (simp add: put_bytes_def split: if_splits)

lemma get_byte_nth [simp]: "i < length b \<Longrightarrow> get_byte b i = Some (b ! i)"
  by (simp add: get_byte_def)

lemma get_bytes_Some: "get_bytes buf i n = Some bs \<longleftrightarrow> i + n \<le> length buf \<and> take n (drop i buf) = bs"
  by (auto simp: get_bytes_def)

definition bytes :: "string \<Rightarrow> u8 list" where
  "bytes s = map of_char s"

definition crlf :: "u8 list" where "crlf = [13, 10]"

text \<open>\<open>sprintf\<close> into a buffer: the text and a final NUL must fit.\<close>

definition put_text :: "u8 list \<Rightarrow> u8 list \<Rightarrow> u8 list option" where
  "put_text buf t = (if length t < length buf then Some (t @ 0 # drop (length t + 1) buf) else None)"

text \<open>\<open>%d\<close> of a number that is not negative.\<close>

fun digits :: "nat \<Rightarrow> u8 list" where
  "digits n = (if n < 10 then [of_nat (48 + n)] else digits (n div 10) @ [of_nat (48 + n mod 10)])"

declare digits.simps [simp del]

lemma digits_length: "n < 10 ^ k \<Longrightarrow> 0 < k \<Longrightarrow> length (digits n) \<le> k"
proof (induction n arbitrary: k rule: digits.induct)
  case (1 n)
  show ?case
  proof (cases "n < 10")
    case True
    then show ?thesis using 1(3) by (subst digits.simps) simp
  next
    case False
    then obtain j where j: "k = Suc j" "0 < j" using 1(2,3) by (cases k; cases "k - 1") auto
    have "n div 10 < 10 ^ j" using 1(2) j by (simp add: less_mult_imp_div_less mult.commute)
    then have "length (digits (n div 10)) \<le> j" using 1(1) [OF False] j by simp
    then show ?thesis using False j by (subst digits.simps) simp
  qed
qed

section \<open>Parts of a text\<close>

text \<open>What a \<open>send\<close> has taken of a text: with \<open>full\<close>, all of it.\<close>

definition cut :: "bool \<Rightarrow> u8 list \<Rightarrow> u8 list \<Rightarrow> bool" where
  "cut full p m \<longleftrightarrow> (\<exists>k. p = take k m) \<and> (full \<longrightarrow> p = m)"

lemma cut_take: "(full \<Longrightarrow> length m \<le> k) \<Longrightarrow> cut full (take k m) m"
  by (auto simp: cut_def)

lemma cut_self [simp]: "cut full m m"
  using cut_take [of full m "length m"] by simp

lemma cut_True [simp]: "cut True = (=)"
proof (intro ext iffI)
  fix p m :: "u8 list"
  show "cut True p m \<Longrightarrow> p = m" by (simp add: cut_def)
  show "p = m \<Longrightarrow> cut True p m" by simp
qed

lemma concat_last: "g \<noteq> [] \<Longrightarrow> concat g = concat (butlast g) @ last g"
  by (induction g) auto

end
