(* ===== verification/Kcp_Wire.thy ===== *)
theory Kcp_Wire
  imports Prelude "HOL-Library.Monad_Syntax"
begin

text \<open>
  The wire format of the KCP transport (\<open>ikcp.c\<close>, lines 49--139 and 1003--1014): the byte
  codecs, the wrapping time and sequence comparison, the segment record of \<open>ikcp.h\<close>
  and the 24-byte segment header.  A \<open>char *\<close> that is written and advanced is the list of bytes
  written so far; a \<open>const char *\<close> that is read and advanced is the list of the bytes left, and
  reading past its end is \<open>None\<close>.
\<close>

section \<open>Byte codecs\<close>

definition ikcp_encode8u :: "u8 list \<Rightarrow> u8 \<Rightarrow> u8 list" where
  "ikcp_encode8u p c = p @ [c]"

fun ikcp_decode8u :: "u8 list \<Rightarrow> (u8 \<times> u8 list) option" where
  "ikcp_decode8u (c # p) = Some (c, p)"
| "ikcp_decode8u _ = None"

text \<open>
  \<open>ikcp_encode16u\<close> and its relatives have two bodies: a \<open>memcpy\<close> of the little-endian value, which
  is what is compiled on the target, and a portable one that shifts and masks (the functions
  called \<open>..._portable\<close> here), compiled on big-endian or alignment-bound machines.
\<close>

definition ikcp_encode16u :: "u8 list \<Rightarrow> u16 \<Rightarrow> u8 list" where
  "ikcp_encode16u p w = p @ [ucast w, ucast (drop_bit 8 w)]"

definition ikcp_encode16u_portable :: "u8 list \<Rightarrow> u16 \<Rightarrow> u8 list" where
  "ikcp_encode16u_portable p w = p @ [ucast (w AND 255), ucast (drop_bit 8 w)]"

fun ikcp_decode16u :: "u8 list \<Rightarrow> (u16 \<times> u8 list) option" where
  "ikcp_decode16u (a # b # p) = Some (ucast a OR push_bit 8 (ucast b), p)"
| "ikcp_decode16u _ = None"

fun ikcp_decode16u_portable :: "u8 list \<Rightarrow> (u16 \<times> u8 list) option" where
  "ikcp_decode16u_portable (a # b # p) = Some (ucast a + push_bit 8 (ucast b), p)"
| "ikcp_decode16u_portable _ = None"

definition ikcp_encode32u :: "u8 list \<Rightarrow> u32 \<Rightarrow> u8 list" where
  "ikcp_encode32u p l =
     p @ [ucast l, ucast (drop_bit 8 l), ucast (drop_bit 16 l), ucast (drop_bit 24 l)]"

definition ikcp_encode32u_portable :: "u8 list \<Rightarrow> u32 \<Rightarrow> u8 list" where
  "ikcp_encode32u_portable p l = p @ [ucast (l AND 255), ucast (drop_bit 8 l AND 255),
     ucast (drop_bit 16 l AND 255), ucast (drop_bit 24 l AND 255)]"

fun ikcp_decode32u :: "u8 list \<Rightarrow> (u32 \<times> u8 list) option" where
  "ikcp_decode32u (a # b # c # d # p) =
     Some (ucast a OR push_bit 8 (ucast b) OR push_bit 16 (ucast c) OR push_bit 24 (ucast d), p)"
| "ikcp_decode32u _ = None"

fun ikcp_decode32u_portable :: "u8 list \<Rightarrow> (u32 \<times> u8 list) option" where
  "ikcp_decode32u_portable (a # b # c # d # p) =
     Some (let l = ucast d; l = ucast c + push_bit 8 l; l = ucast b + push_bit 8 l
           in ucast a + push_bit 8 l, p)"
| "ikcp_decode32u_portable _ = None"

definition ikcp_getconv :: "u8 list \<Rightarrow> u32 option" where
  "ikcp_getconv p = map_option fst (ikcp_decode32u p)"

section \<open>Bounds and wrapping differences\<close>

definition imin :: "u32 \<Rightarrow> u32 \<Rightarrow> u32" where
  "imin a b = (if a \<le> b then a else b)"

definition imax :: "u32 \<Rightarrow> u32 \<Rightarrow> u32" where
  "imax a b = (if a \<ge> b then a else b)"

definition ibound :: "u32 \<Rightarrow> u32 \<Rightarrow> u32 \<Rightarrow> u32" where
  "ibound lower middle upper = imin (imax lower middle) upper"

definition itimediff :: "u32 \<Rightarrow> u32 \<Rightarrow> int" where
  "itimediff later earlier = i32 (later - earlier)"

section \<open>Segments and their header\<close>

record ikcpseg =
  seg_conv :: u32
  seg_cmd :: u32
  seg_frg :: u32
  seg_wnd :: u32
  seg_ts :: u32
  seg_sn :: u32
  seg_una :: u32
  seg_len :: u32
  seg_resendts :: u32
  seg_rto :: u32
  seg_fastack :: u32
  seg_xmit :: u32
  seg_data :: "u8 list"

definition ikcp_encode_seg :: "u8 list \<Rightarrow> ikcpseg \<Rightarrow> u8 list" where
  "ikcp_encode_seg ptr seg =
    (let ptr = ikcp_encode32u ptr (seg_conv seg);
         ptr = ikcp_encode8u ptr (ucast (seg_cmd seg));
         ptr = ikcp_encode8u ptr (ucast (seg_frg seg));
         ptr = ikcp_encode16u ptr (ucast (seg_wnd seg));
         ptr = ikcp_encode32u ptr (seg_ts seg);
         ptr = ikcp_encode32u ptr (seg_sn seg);
         ptr = ikcp_encode32u ptr (seg_una seg);
         ptr = ikcp_encode32u ptr (seg_len seg)
     in ptr)"

text \<open>The local variables that \<open>ikcp_input\<close> decodes a header into.\<close>

record ikcphdr =
  h_conv :: u32
  h_cmd :: u8
  h_frg :: u8
  h_wnd :: u16
  h_ts :: u32
  h_sn :: u32
  h_una :: u32
  h_len :: u32

definition ikcp_decode_hdr :: "u8 list \<Rightarrow> (ikcphdr \<times> u8 list) option" where
  "ikcp_decode_hdr data = do {
     (conv, data) \<leftarrow> ikcp_decode32u data;
     (cmd, data) \<leftarrow> ikcp_decode8u data;
     (frg, data) \<leftarrow> ikcp_decode8u data;
     (wnd, data) \<leftarrow> ikcp_decode16u data;
     (ts, data) \<leftarrow> ikcp_decode32u data;
     (sn, data) \<leftarrow> ikcp_decode32u data;
     (una, data) \<leftarrow> ikcp_decode32u data;
     (len, data) \<leftarrow> ikcp_decode32u data;
     Some (\<lparr>h_conv = conv, h_cmd = cmd, h_frg = frg, h_wnd = wnd, h_ts = ts, h_sn = sn,
            h_una = una, h_len = len\<rparr>, data) }"

text \<open>A segment in a datagram: its header, then \<open>len\<close> bytes of data (\<open>ikcp_flush\<close>).\<close>

definition ikcp_put_seg :: "u8 list \<Rightarrow> ikcpseg \<Rightarrow> u8 list" where
  "ikcp_put_seg ptr seg =
    (let ptr = ikcp_encode_seg ptr seg
     in if 0 < seg_len seg then ptr @ take (unat (seg_len seg)) (seg_data seg) else ptr)"

text \<open>The reading side (\<open>ikcp_input\<close>): a header, the length guard, then the data.\<close>

definition ikcp_get_seg :: "u8 list \<Rightarrow> ((ikcphdr \<times> u8 list) \<times> u8 list) option" where
  "ikcp_get_seg data = do {
     (h, data) \<leftarrow> ikcp_decode_hdr data;
     if length data < unat (h_len h) \<or> i32 (h_len h) < 0 then None
     else Some ((h, take (unat (h_len h)) data), drop (unat (h_len h)) data) }"

section \<open>Codec lemmas\<close>

lemma low_byte [wire_simps]:
  "(ucast (w AND 255 :: 'a::len word) :: u8) = ucast w"
proof -
  have "w AND 255 = take_bit 8 w"
    by (simp add: take_bit_eq_mask mask_eq_exp_minus_1)
  then show ?thesis
    by (simp only:) (rule bit_word_eqI, auto simp: bit_simps)
qed

lemma join16 [wire_simps]:
  "(ucast (ucast w :: u8) OR push_bit 8 (ucast (ucast (drop_bit 8 w) :: u8)) :: u16) = w"
  by (rule bit_word_eqI) (auto simp: bit_simps)

lemma join32 [wire_simps]:
  "(ucast (ucast l :: u8) OR push_bit 8 (ucast (ucast (drop_bit 8 l) :: u8)) OR
    push_bit 16 (ucast (ucast (drop_bit 16 l) :: u8)) OR
    push_bit 24 (ucast (ucast (drop_bit 24 l) :: u8)) :: u32) = l"
proof (rule bit_word_eqI)
  fix n
  assume "n < LENGTH(32)"
  then consider "n < 8" | "8 \<le> n" "n < 16" | "16 \<le> n" "n < 24" | "24 \<le> n" "n < 32"
    by fastforce
  then show "bit (ucast (ucast l :: u8) OR push_bit 8 (ucast (ucast (drop_bit 8 l) :: u8)) OR
    push_bit 16 (ucast (ucast (drop_bit 16 l) :: u8)) OR
    push_bit 24 (ucast (ucast (drop_bit 24 l) :: u8)) :: u32) n = bit l n"
    by cases (auto simp: bit_simps)
qed


lemma decode8u_encode8u [wire_simps]: "ikcp_decode8u (ikcp_encode8u [] c @ p) = Some (c, p)"
  by (simp add: ikcp_encode8u_def)

lemma decode16u_encode16u [wire_simps]: "ikcp_decode16u (ikcp_encode16u [] w @ p) = Some (w, p)"
  by (simp add: ikcp_encode16u_def wire_simps)

lemma decode32u_encode32u [wire_simps]: "ikcp_decode32u (ikcp_encode32u [] l @ p) = Some (l, p)"
  by (simp add: ikcp_encode32u_def wire_simps)

text \<open>Every encoder only appends, so an encoding splits off what was written before.\<close>

lemma encode_append:
  "ikcp_encode8u p c = p @ ikcp_encode8u [] c"
  "ikcp_encode16u p w = p @ ikcp_encode16u [] w"
  "ikcp_encode32u p l = p @ ikcp_encode32u [] l"
  by (simp_all add: ikcp_encode8u_def ikcp_encode16u_def ikcp_encode32u_def)

lemma encode_length [simp]:
  "length (ikcp_encode8u p c) = length p + 1"
  "length (ikcp_encode16u p w) = length p + 2"
  "length (ikcp_encode32u p l) = length p + 4"
  by (simp_all add: ikcp_encode8u_def ikcp_encode16u_def ikcp_encode32u_def)

lemma encode_seg_length [simp]: "length (ikcp_encode_seg p s) = length p + 24"
  by (simp add: ikcp_encode_seg_def)

definition hdr_of :: "ikcpseg \<Rightarrow> ikcphdr" where
  "hdr_of s = \<lparr>h_conv = seg_conv s, h_cmd = ucast (seg_cmd s), h_frg = ucast (seg_frg s),
     h_wnd = ucast (seg_wnd s), h_ts = seg_ts s, h_sn = seg_sn s, h_una = seg_una s,
     h_len = seg_len s\<rparr>"

lemma encode_seg_flat:
  "ikcp_encode_seg p s = p @ ikcp_encode32u [] (seg_conv s) @ ikcp_encode8u [] (ucast (seg_cmd s)) @
     ikcp_encode8u [] (ucast (seg_frg s)) @ ikcp_encode16u [] (ucast (seg_wnd s)) @
     ikcp_encode32u [] (seg_ts s) @ ikcp_encode32u [] (seg_sn s) @ ikcp_encode32u [] (seg_una s) @
     ikcp_encode32u [] (seg_len s)"
  by (simp add: ikcp_encode_seg_def ikcp_encode8u_def ikcp_encode16u_def ikcp_encode32u_def)

lemma decode_hdr_encode_seg:
  "ikcp_decode_hdr (ikcp_encode_seg [] s @ rest) = Some (hdr_of s, rest)"
  by (simp add: encode_seg_flat ikcp_decode_hdr_def hdr_of_def wire_simps)

definition seg_wf :: "ikcpseg \<Rightarrow> bool" where
  "seg_wf s \<longleftrightarrow> length (seg_data s) = unat (seg_len s) \<and> unat (seg_len s) < 2 ^ 31"

definition unit_of :: "ikcpseg \<Rightarrow> ikcphdr \<times> u8 list" where
  "unit_of s = (hdr_of s, seg_data s)"

lemma put_seg_flat: "seg_wf s \<Longrightarrow> ikcp_put_seg p s = p @ ikcp_encode_seg [] s @ seg_data s"
  by (auto simp: ikcp_put_seg_def seg_wf_def encode_seg_flat word_gt_0 Let_def)

lemma put_seg_length: "seg_wf s \<Longrightarrow> length (ikcp_put_seg p s) = length p + 24 + unat (seg_len s)"
  by (simp add: put_seg_flat seg_wf_def)

lemma get_seg_put_seg:
  assumes "seg_wf s"
  shows "ikcp_get_seg (ikcp_put_seg [] s @ rest) = Some (unit_of s, rest)"
proof -
  have "0 \<le> i32 (seg_len s)"
    using assms by (simp add: seg_wf_def i32_small)
  with assms show ?thesis
    by (simp add: put_seg_flat ikcp_get_seg_def decode_hdr_encode_seg unit_of_def seg_wf_def)
       (simp add: hdr_of_def)
qed

interpretation kcp_wire: stream_codec "ikcp_put_seg []" ikcp_get_seg unit_of seg_wf
proof unfold_locales
  fix s rest
  assume "seg_wf s"
  then show "ikcp_get_seg (ikcp_put_seg [] s @ rest) = Some (unit_of s, rest)"
    by (rule get_seg_put_seg)
next
  fix s
  assume "seg_wf s"
  then have "0 < length (ikcp_put_seg [] s)"
    by (simp add: put_seg_length)
  then show "ikcp_put_seg [] s \<noteq> []" by auto
qed

lemma add_push_bit_8:
  "(ucast (a :: u8) + push_bit 8 w :: 'a::len word) = ucast a OR push_bit 8 w"
proof -
  have "(ucast a :: 'a word) AND push_bit 8 w = 0"
    by (rule bit_word_eqI) (auto simp: bit_simps dest: bit_imp_le_length)
  then show ?thesis by (rule disjunctive_add_eq_or)
qed

lemma encode_portable:
  "ikcp_encode16u_portable p w = ikcp_encode16u p w"
  "ikcp_encode32u_portable p l = ikcp_encode32u p l"
  by (simp_all add: ikcp_encode16u_portable_def ikcp_encode16u_def ikcp_encode32u_portable_def
      ikcp_encode32u_def wire_simps)

lemma decode_portable:
  "ikcp_decode16u_portable q = ikcp_decode16u q"
  "ikcp_decode32u_portable q = ikcp_decode32u q"
proof -
  show "ikcp_decode16u_portable q = ikcp_decode16u q"
    by (cases q rule: ikcp_decode16u.cases) (simp_all add: add_push_bit_8)
  show "ikcp_decode32u_portable q = ikcp_decode32u q"
    by (cases q rule: ikcp_decode32u.cases)
       (simp_all add: add_push_bit_8 Let_def push_bit_or push_bit_push_bit)
qed


lemma foldl_put_seg:
  "\<forall>s\<in>set ss. seg_wf s \<Longrightarrow> foldl ikcp_put_seg p ss = p @ concat (map (ikcp_put_seg []) ss)"
  by (induction ss arbitrary: p) (simp_all add: put_seg_flat)

section \<open>Wrapping differences around a base\<close>

text \<open>
  Sequence numbers and times are compared through \<open>itimediff\<close>.  Within \<open>2^31\<close> of a common base it
  is the difference of the distances to that base, whatever the wrap-around.
\<close>

lemma itimediff_off:
  assumes x: "unat (x - base) < 2 ^ 31" and y: "unat (y - base) < 2 ^ 31"
  shows "itimediff x y = int (unat (x - base)) - int (unat (y - base))"
proof -
  define m n where "m = unat (x - base)" and "n = unat (y - base)"
  have "x - y = (x - base) - (y - base)" by simp
  also have "\<dots> = word_of_int (int m - int n)"
    by (simp add: m_def n_def wi_hom_sub [symmetric])
  finally have "itimediff x y = wrap32 (int m - int n)"
    by (simp add: itimediff_def wrap32_def)
  moreover have "int_range (int m - int n)"
    using x y by (simp add: int_range_def m_def [symmetric] n_def [symmetric])
  ultimately show ?thesis by (simp only: wrap32_id m_def n_def)
qed

lemma itimediff_nonneg: "0 \<le> itimediff x base \<longleftrightarrow> unat (x - base) < 2 ^ 31"
  by (simp add: itimediff_def i32_nonneg_iff)

lemma itimediff_base: "unat (x - base) < 2 ^ 31 \<Longrightarrow> itimediff x base = int (unat (x - base))"
  by (simp add: itimediff_def i32_small)

lemma itimediff_lt:
  assumes "unat n < 2 ^ 31"
  shows "0 \<le> itimediff x base \<and> itimediff x (base + n) < 0 \<longleftrightarrow> unat (x - base) < unat n"
proof (cases "unat (x - base) < 2 ^ 31")
  case True
  then show ?thesis
    using assms by (simp add: itimediff_nonneg itimediff_off [of x base "base + n"] word_less_def [symmetric]
        word_less_nat_alt [symmetric])
next
  case False
  with assms show ?thesis by (simp add: itimediff_nonneg)
qed

section \<open>Properties\<close>

text \<open>a datagram into which \<open>ikcp_flush\<close> has packed any number of segments (header and data, one
  after the other) is read back by \<open>ikcp_input\<close>'s header decoding and length guard as exactly
  these segments, in order, with nothing left over; the header fields come back as the wire's
  widths keep them (\<open>hdr_of\<close>: 8-bit command and fragment, 16-bit window).\<close>
theorem datagram_roundtrip:
  assumes "\<forall>s\<in>set ss. seg_wf s"
  shows "decode_all ikcp_get_seg (length ss) (foldl ikcp_put_seg [] ss) = Some (map unit_of ss)"
  using kcp_wire.decode_all_concat [OF assms order_refl] foldl_put_seg [OF assms, of "[]"] by simp

definition demo_seg :: "u8 list \<Rightarrow> u32 \<Rightarrow> ikcpseg" where
  "demo_seg d sn = \<lparr>seg_conv = 1, seg_cmd = 81, seg_frg = 0, seg_wnd = 128, seg_ts = 7, seg_sn = sn,
     seg_una = 0, seg_len = of_nat (length d), seg_resendts = 0, seg_rto = 200, seg_fastack = 0,
     seg_xmit = 1, seg_data = d\<rparr>"

theorem datagram_roundtrip_witness:
  "decode_all ikcp_get_seg 2 (foldl ikcp_put_seg [] [demo_seg [1, 2, 3] 0, demo_seg [] 1]) =
     Some [unit_of (demo_seg [1, 2, 3] 0), unit_of (demo_seg [] 1)]"
proof -
  have "\<forall>s\<in>set [demo_seg [1, 2, 3] 0, demo_seg [] 1]. seg_wf s"
    by (simp add: demo_seg_def seg_wf_def)
  from datagram_roundtrip [OF this] show ?thesis
    by (simp add: numeral_2_eq_2)
qed

text \<open>the two conditionally compiled bodies of the codecs agree: the portable one that shifts
  and masks writes and reads the same bytes as the \<open>memcpy\<close> of a little-endian machine, on every
  input (an input that is too short included), so two peers of different byte order
  interoperate.\<close>
theorem codec_branches_agree:
  "ikcp_encode16u_portable p w = ikcp_encode16u p w \<and>
   ikcp_encode32u_portable p l = ikcp_encode32u p l \<and>
   ikcp_decode16u_portable q = ikcp_decode16u q \<and>
   ikcp_decode32u_portable q = ikcp_decode32u q"
  by (simp add: encode_portable decode_portable)

end
