(* ===== verification/Kcp_State.thy ===== *)
theory Kcp_State
  imports Kcp_Wire
begin

text \<open>
  The KCP control block (\<open>struct IKCPCB\<close> of \<open>ikcp.h\<close>), its constants, creation, release and
  configuration (\<open>ikcp.c\<close>, lines 25--46, 231--340 and 1361--1427).

  The four circular queues of segments are lists from head to tail.  Not in the record: the
  scratch \<open>buffer\<close> (its content does not outlive a call; \<open>ikcp_flush\<close> has the bytes written so
  far as a list), \<open>user\<close>, the two callbacks and the log mask (logging only prints).  Allocation of
  segments succeeds, as the \<open>assert\<close> after each requires; creation and \<open>ikcp_setmtu\<close>,
  which have an error path for it, take the outcome as an argument.
\<close>

abbreviation (input) "IKCP_RTO_NDL \<equiv> (30 :: u32)"
abbreviation (input) "IKCP_RTO_MIN \<equiv> (100 :: u32)"
abbreviation (input) "IKCP_RTO_DEF \<equiv> (200 :: u32)"
abbreviation (input) "IKCP_RTO_MAX \<equiv> (60000 :: u32)"
abbreviation (input) "IKCP_CMD_PUSH \<equiv> (81 :: u32)"
abbreviation (input) "IKCP_CMD_ACK \<equiv> (82 :: u32)"
abbreviation (input) "IKCP_CMD_WASK \<equiv> (83 :: u32)"
abbreviation (input) "IKCP_CMD_WINS \<equiv> (84 :: u32)"
abbreviation (input) "IKCP_ASK_SEND \<equiv> (1 :: u32)"
abbreviation (input) "IKCP_ASK_TELL \<equiv> (2 :: u32)"
abbreviation (input) "IKCP_WND_SND \<equiv> (32 :: u32)"
abbreviation (input) "IKCP_WND_RCV \<equiv> (128 :: u32)"
abbreviation (input) "IKCP_MTU_DEF \<equiv> (1400 :: u32)"
abbreviation (input) "IKCP_INTERVAL \<equiv> (100 :: u32)"
abbreviation (input) "IKCP_OVERHEAD \<equiv> (24 :: u32)"
abbreviation (input) "IKCP_DEADLINK \<equiv> (20 :: u32)"
abbreviation (input) "IKCP_THRESH_INIT \<equiv> (2 :: u32)"
abbreviation (input) "IKCP_THRESH_MIN \<equiv> (2 :: u32)"
abbreviation (input) "IKCP_PROBE_INIT \<equiv> (7000 :: u32)"
abbreviation (input) "IKCP_PROBE_LIMIT \<equiv> (120000 :: u32)"
abbreviation (input) "IKCP_FASTACK_LIMIT \<equiv> (5 :: int)"

record ikcpcb =
  k_conv :: u32
  k_mtu :: u32
  k_mss :: u32
  k_state :: u32
  k_snd_una :: u32
  k_snd_nxt :: u32
  k_rcv_nxt :: u32
  k_ts_recent :: u32
  k_ts_lastack :: u32
  k_ssthresh :: u32
  k_rx_rttval :: int
  k_rx_srtt :: int
  k_rx_rto :: int
  k_rx_minrto :: int
  k_snd_wnd :: u32
  k_rcv_wnd :: u32
  k_rmt_wnd :: u32
  k_cwnd :: u32
  k_probe :: u32
  k_current :: u32
  k_interval :: u32
  k_ts_flush :: u32
  k_xmit :: u32
  k_nrcv_buf :: u32
  k_nsnd_buf :: u32
  k_nrcv_que :: u32
  k_nsnd_que :: u32
  k_nodelay :: u32
  k_updated :: u32
  k_ts_probe :: u32
  k_probe_wait :: u32
  k_dead_link :: u32
  k_incr :: u32
  k_snd_queue :: "ikcpseg list"
  k_rcv_queue :: "ikcpseg list"
  k_snd_buf :: "ikcpseg list"
  k_rcv_buf :: "ikcpseg list"
  k_acklist :: "u32 list"
  k_ackcount :: u32
  k_ackblock :: u32
  k_fastresend :: int
  k_fastlimit :: int
  k_nocwnd :: int
  k_stream :: int

section \<open>Creation and release\<close>

definition ikcp_init :: "u32 \<Rightarrow> ikcpcb" where
  "ikcp_init conv = \<lparr>
     k_conv = conv, k_mtu = IKCP_MTU_DEF, k_mss = IKCP_MTU_DEF - IKCP_OVERHEAD, k_state = 0,
     k_snd_una = 0, k_snd_nxt = 0, k_rcv_nxt = 0, k_ts_recent = 0, k_ts_lastack = 0,
     k_ssthresh = IKCP_THRESH_INIT, k_rx_rttval = 0, k_rx_srtt = 0, k_rx_rto = i32 IKCP_RTO_DEF,
     k_rx_minrto = i32 IKCP_RTO_MIN, k_snd_wnd = IKCP_WND_SND, k_rcv_wnd = IKCP_WND_RCV,
     k_rmt_wnd = IKCP_WND_RCV, k_cwnd = 0, k_probe = 0, k_current = 0,
     k_interval = IKCP_INTERVAL, k_ts_flush = IKCP_INTERVAL, k_xmit = 0, k_nrcv_buf = 0,
     k_nsnd_buf = 0, k_nrcv_que = 0, k_nsnd_que = 0, k_nodelay = 0, k_updated = 0,
     k_ts_probe = 0, k_probe_wait = 0, k_dead_link = IKCP_DEADLINK, k_incr = 0,
     k_snd_queue = [], k_rcv_queue = [], k_snd_buf = [], k_rcv_buf = [],
     k_acklist = [], k_ackcount = 0, k_ackblock = 0, k_fastresend = 0,
     k_fastlimit = IKCP_FASTACK_LIMIT, k_nocwnd = 0, k_stream = 0\<rparr>"

text \<open>The two allocations of \<open>ikcp_create\<close> (control block, scratch buffer) may fail.\<close>

definition ikcp_create :: "bool \<Rightarrow> bool \<Rightarrow> u32 \<Rightarrow> ikcpcb option" where
  "ikcp_create kcp_ok buffer_ok conv =
     (if \<not> kcp_ok then None else if \<not> buffer_ok then None else Some (ikcp_init conv))"

text \<open>The segments that \<open>ikcp_release\<close> frees, in the order it frees them.\<close>

definition ikcp_release :: "ikcpcb \<Rightarrow> ikcpseg list \<times> ikcpcb" where
  "ikcp_release k =
     (k_snd_buf k @ k_rcv_buf k @ k_snd_queue k @ k_rcv_queue k,
      k\<lparr>k_snd_buf := [], k_rcv_buf := [], k_snd_queue := [], k_rcv_queue := [],
        k_nrcv_buf := 0, k_nsnd_buf := 0, k_nrcv_que := 0, k_nsnd_que := 0, k_ackcount := 0,
        k_acklist := []\<rparr>)"

section \<open>Configuration\<close>

definition ikcp_setmtu :: "bool \<Rightarrow> ikcpcb \<Rightarrow> int \<Rightarrow> int \<times> ikcpcb" where
  "ikcp_setmtu alloc_ok k mtu =
     (if mtu < 50 \<or> mtu < i32 IKCP_OVERHEAD then (-1, k)
      else if \<not> alloc_ok then (-2, k)
      else (0, k\<lparr>k_mtu := u32 mtu, k_mss := u32 mtu - IKCP_OVERHEAD\<rparr>))"

definition clamp_interval :: "int \<Rightarrow> int" where
  "clamp_interval interval =
     (if interval > 5000 then 5000 else if interval < 10 then 10 else interval)"

definition ikcp_interval :: "ikcpcb \<Rightarrow> int \<Rightarrow> int \<times> ikcpcb" where
  "ikcp_interval k interval = (0, k\<lparr>k_interval := u32 (clamp_interval interval)\<rparr>)"

definition ikcp_nodelay :: "ikcpcb \<Rightarrow> int \<Rightarrow> int \<Rightarrow> int \<Rightarrow> int \<Rightarrow> int \<times> ikcpcb" where
  "ikcp_nodelay k nodelay interval resend nc =
    (let k = (if nodelay \<ge> 0
              then k\<lparr>k_nodelay := u32 nodelay,
                     k_rx_minrto := (if nodelay \<noteq> 0 then i32 IKCP_RTO_NDL else i32 IKCP_RTO_MIN)\<rparr>
              else k);
         k = (if interval \<ge> 0 then k\<lparr>k_interval := u32 (clamp_interval interval)\<rparr> else k);
         k = (if resend \<ge> 0 then k\<lparr>k_fastresend := resend\<rparr> else k);
         k = (if nc \<ge> 0 then k\<lparr>k_nocwnd := nc\<rparr> else k)
     in (0, k))"

definition ikcp_wndsize :: "ikcpcb \<Rightarrow> int \<Rightarrow> int \<Rightarrow> int \<times> ikcpcb" where
  "ikcp_wndsize k sndwnd rcvwnd =
    (let k = (if sndwnd > 0 then k\<lparr>k_snd_wnd := u32 sndwnd\<rparr> else k);
         k = (if rcvwnd > 0 then k\<lparr>k_rcv_wnd := imax (u32 rcvwnd) IKCP_WND_RCV\<rparr> else k)
     in (0, k))"

definition ikcp_waitsnd :: "ikcpcb \<Rightarrow> int" where
  "ikcp_waitsnd k = i32 (k_nsnd_buf k + k_nsnd_que k)"

definition ikcp_wnd_unused :: "ikcpcb \<Rightarrow> int" where
  "ikcp_wnd_unused k =
     (if k_nrcv_que k < k_rcv_wnd k then i32 (k_rcv_wnd k - k_nrcv_que k) else 0)"

end
