(* ===== verification/Kcp_Recv.thy ===== *)
theory Kcp_Recv
  imports Kcp_State "HOL-Library.Multiset"
begin

text \<open>
  The receiving half of KCP (\<open>ikcp.c\<close>, lines 361--469 and 754--815): the reorder buffer
  \<open>rcv_buf\<close>, the in-order queue \<open>rcv_queue\<close>, \<open>ikcp_peeksize\<close>, \<open>ikcp_recv\<close> and
  \<open>ikcp_parse_data\<close>.
\<close>

section \<open>Operations\<close>

definition seg_bytes :: "ikcpseg \<Rightarrow> u8 list" where
  "seg_bytes s = take (unat (seg_len s)) (seg_data s)"

text \<open>The summing loop of \<open>ikcp_peeksize\<close>: up to and including the first fragment 0.\<close>

fun peek_loop :: "ikcpseg list \<Rightarrow> int \<Rightarrow> int" where
  "peek_loop [] len = len"
| "peek_loop (seg # p) len =
    (let len = wrap32 (len + uint (seg_len seg))
     in if seg_frg seg = 0 then len else peek_loop p len)"

definition ikcp_peeksize :: "ikcpcb \<Rightarrow> int" where
  "ikcp_peeksize k =
    (case k_rcv_queue k of [] \<Rightarrow> -1
     | seg # _ \<Rightarrow>
         if seg_frg seg = 0 then i32 (seg_len seg)
         else if k_nrcv_que k < seg_frg seg + 1 then -1
         else peek_loop (k_rcv_queue k) 0)"

text \<open>
  The merging loop of \<open>ikcp_recv\<close>: it returns the bytes copied, the length summed up, the number
  of segments visited and the rest of the queue.
\<close>

fun merge_loop :: "ikcpseg list \<Rightarrow> u8 list \<Rightarrow> int \<Rightarrow> u32 \<Rightarrow> u8 list \<times> int \<times> u32 \<times> ikcpseg list" where
  "merge_loop [] buffer len n = (buffer, len, n, [])"
| "merge_loop (seg # p) buffer len n =
    (let buffer = buffer @ seg_bytes seg;
         len = wrap32 (len + uint (seg_len seg));
         n = n + 1
     in if seg_frg seg = 0 then (buffer, len, n, p) else merge_loop p buffer len n)"

text \<open>
  The loop that moves segments from \<open>rcv_buf\<close> to \<open>rcv_queue\<close> (the same text in \<open>ikcp_recv\<close> and
  \<open>ikcp_parse_data\<close>); the first argument is the part of \<open>rcv_buf\<close> still to be visited.
\<close>

fun move_loop :: "ikcpseg list \<Rightarrow> ikcpcb \<Rightarrow> ikcpcb" where
  "move_loop [] k = k\<lparr>k_rcv_buf := []\<rparr>"
| "move_loop (seg # p) k =
    (if seg_sn seg = k_rcv_nxt k \<and> k_nrcv_que k < k_rcv_wnd k
     then move_loop p (k\<lparr>k_nrcv_buf := k_nrcv_buf k - 1,
                         k_rcv_queue := k_rcv_queue k @ [seg],
                         k_nrcv_que := k_nrcv_que k + 1,
                         k_rcv_nxt := k_rcv_nxt k + 1\<rparr>)
     else k\<lparr>k_rcv_buf := seg # p\<rparr>)"

text \<open>
  \<open>ikcp_recv\<close> returns the code, the bytes written to the user's buffer and the control block;
  \<open>None\<close> is a failed \<open>assert(len == peeksize)\<close>.
\<close>

definition ikcp_recv :: "ikcpcb \<Rightarrow> int \<Rightarrow> (int \<times> u8 list \<times> ikcpcb) option" where
  "ikcp_recv k len =
    (let ispeek = len < 0 in
     if k_rcv_queue k = [] then Some (-1, [], k)
     else
       let len = (if len < 0 then - len else len);
           peeksize = ikcp_peeksize k
       in if peeksize < 0 then Some (-2, [], k)
          else if peeksize > len then Some (-3, [], k)
          else
            let recover = k_nrcv_que k \<ge> k_rcv_wnd k;
                (buffer, len, n, rest) = merge_loop (k_rcv_queue k) [] 0 0;
                k = (if ispeek then k
                     else k\<lparr>k_rcv_queue := rest, k_nrcv_que := k_nrcv_que k - n\<rparr>)
            in if len \<noteq> peeksize then None
               else
                 let k = move_loop (k_rcv_buf k) k;
                     k = (if k_nrcv_que k < k_rcv_wnd k \<and> recover
                          then k\<lparr>k_probe := k_probe k OR IKCP_ASK_TELL\<rparr> else k)
                 in Some (len, buffer, k))"

text \<open>
  \<open>ikcp_parse_data\<close> looks for the place of a new segment from the tail of \<open>rcv_buf\<close>; the argument
  is the reversed buffer and \<open>None\<close> is a repeated sequence number.
\<close>

fun insert_loop :: "ikcpseg \<Rightarrow> ikcpseg list \<Rightarrow> ikcpseg list option" where
  "insert_loop newseg [] = Some [newseg]"
| "insert_loop newseg (seg # p) =
    (if seg_sn seg = seg_sn newseg then None
     else if itimediff (seg_sn newseg) (seg_sn seg) > 0 then Some (newseg # seg # p)
     else map_option ((#) seg) (insert_loop newseg p))"

definition ikcp_parse_data :: "ikcpcb \<Rightarrow> ikcpseg \<Rightarrow> ikcpcb" where
  "ikcp_parse_data k newseg =
    (let sn = seg_sn newseg in
     if itimediff sn (k_rcv_nxt k + k_rcv_wnd k) \<ge> 0 \<or> itimediff sn (k_rcv_nxt k) < 0 then k
     else
       let k = (case insert_loop newseg (rev (k_rcv_buf k)) of
                  None \<Rightarrow> k
                | Some p \<Rightarrow> k\<lparr>k_rcv_buf := rev p, k_nrcv_buf := k_nrcv_buf k + 1\<rparr>)
       in move_loop (k_rcv_buf k) k)"


section \<open>What the moving loop does\<close>

fun ready_count :: "ikcpseg list \<Rightarrow> u32 \<Rightarrow> u32 \<Rightarrow> u32 \<Rightarrow> nat" where
  "ready_count [] nxt que wnd = 0"
| "ready_count (s # p) nxt que wnd =
    (if seg_sn s = nxt \<and> que < wnd then Suc (ready_count p (nxt + 1) (que + 1) wnd) else 0)"

lemma move_loop_eq:
  "move_loop p k =
    (let m = ready_count p (k_rcv_nxt k) (k_nrcv_que k) (k_rcv_wnd k)
     in k\<lparr>k_rcv_buf := drop m p, k_nrcv_buf := k_nrcv_buf k - of_nat m,
          k_rcv_queue := k_rcv_queue k @ take m p, k_nrcv_que := k_nrcv_que k + of_nat m,
          k_rcv_nxt := k_rcv_nxt k + of_nat m\<rparr>)"
  by (induction p k rule: move_loop.induct) (simp_all add: Let_def algebra_simps)

lemma ready_count_le: "ready_count p nxt que wnd \<le> length p"
  by (induction p nxt que wnd rule: ready_count.induct) auto

lemma ready_count_sn:
  "map seg_sn (take (ready_count p nxt que wnd) p) =
   map (\<lambda>i. nxt + of_nat i) [0..<ready_count p nxt que wnd]"
proof (induction p nxt que wnd rule: ready_count.induct)
  case (1 nxt que wnd)
  then show ?case by simp
next
  case (2 s p nxt que wnd)
  show ?case
  proof (cases "seg_sn s = nxt \<and> que < wnd")
    case True
    let ?m = "ready_count p (nxt + 1) (que + 1) wnd"
    have "map seg_sn (take ?m p) = map (\<lambda>i. nxt + 1 + of_nat i) [0..<?m]"
      by (rule "2.IH" [OF True])
    also have "\<dots> = map (\<lambda>i. nxt + of_nat i) [Suc 0..<Suc ?m]"
      by (simp add: map_Suc_upt [symmetric] algebra_simps del: upt_Suc)
    finally show ?thesis
      using True by (simp add: upt_conv_Cons del: upt_Suc)
  next
    case False
    then show ?thesis by simp
  qed
qed

lemma ready_count_stop:
  "ready_count p nxt que wnd < length p \<Longrightarrow>
   seg_sn (p ! ready_count p nxt que wnd) \<noteq> nxt + of_nat (ready_count p nxt que wnd) \<or>
   que + of_nat (ready_count p nxt que wnd) \<ge> wnd"
  by (induction p nxt que wnd rule: ready_count.induct) (auto simp: algebra_simps not_less)

lemma ready_count_room:
  "unat que \<le> unat wnd \<Longrightarrow> unat que + ready_count p nxt que wnd \<le> unat wnd"
proof (induction p nxt que wnd rule: ready_count.induct)
  case (1 nxt que wnd)
  then show ?case by simp
next
  case (2 s p nxt que wnd)
  show ?case
  proof (cases "seg_sn s = nxt \<and> que < wnd")
    case True
    then have "unat (que + 1) = unat que + 1"
      by (simp add: unat_add_1_less [of que wnd])
    with True "2.IH" [OF True] show ?thesis
      by (simp add: word_less_nat_alt)
  next
    case False
    with "2.prems" show ?thesis by (simp del: de_Morgan_conj)
  qed
qed


section \<open>What the merging loop does\<close>

fun message :: "ikcpseg list \<Rightarrow> ikcpseg list" where
  "message [] = []"
| "message (s # p) = (if seg_frg s = 0 then [s] else s # message p)"

lemma message_length_le: "length (message p) \<le> length p"
  by (induction p) auto

lemma message_append: "message p @ drop (length (message p)) p = p"
  by (induction p) auto

lemma merge_loop_eq:
  "merge_loop p buffer len n =
    (buffer @ concat (map seg_bytes (message p)), peek_loop p len,
     n + of_nat (length (message p)), drop (length (message p)) p)"
  by (induction p buffer len n rule: merge_loop.induct) (simp_all add: Let_def algebra_simps)

text \<open>\<open>ikcp_peeksize\<close> and the merging loop sum up the same segments: the assertion cannot fail.\<close>

lemma peeksize_eq: "0 \<le> ikcp_peeksize k \<Longrightarrow> ikcp_peeksize k = peek_loop (k_rcv_queue k) 0"
  by (auto simp: ikcp_peeksize_def wrap32_def Let_def split: list.splits if_splits)

text \<open>The state that \<open>ikcp_recv\<close> leaves when it does return data.\<close>

definition recv_take :: "ikcpcb \<Rightarrow> ikcpcb" where
  "recv_take k = k\<lparr>k_rcv_queue := drop (length (message (k_rcv_queue k))) (k_rcv_queue k),
     k_nrcv_que := k_nrcv_que k - of_nat (length (message (k_rcv_queue k)))\<rparr>"

definition recv_tell :: "bool \<Rightarrow> ikcpcb \<Rightarrow> ikcpcb" where
  "recv_tell recover k =
     (if k_nrcv_que k < k_rcv_wnd k \<and> recover then k\<lparr>k_probe := k_probe k OR 2\<rparr> else k)"

lemma recv_cases:
  "ikcp_recv k len =
    (if k_rcv_queue k = [] then Some (-1, [], k)
     else if ikcp_peeksize k < 0 then Some (-2, [], k)
     else if ikcp_peeksize k > \<bar>len\<bar> then Some (-3, [], k)
     else let k' = (if len < 0 then k else recv_take k)
          in Some (ikcp_peeksize k, concat (map seg_bytes (message (k_rcv_queue k))),
               recv_tell (k_nrcv_que k \<ge> k_rcv_wnd k) (move_loop (k_rcv_buf k') k')))"
proof (cases "k_rcv_queue k = [] \<or> ikcp_peeksize k < 0")
  case True
  then show ?thesis by (auto simp: ikcp_recv_def Let_def)
next
  case False
  then have "peek_loop (k_rcv_queue k) 0 = ikcp_peeksize k"
    using peeksize_eq [of k] by simp
  with False show ?thesis
    by (simp add: ikcp_recv_def merge_loop_eq Let_def recv_take_def recv_tell_def abs_if)
qed

section \<open>In-order delivery\<close>

text \<open>
  A run of the receiver: segments arrive in any order and any number of times, and the user reads
  now and then.  The bytes of all reads (peeks with a negative length apart) are collected.
\<close>

datatype rx_event = Arrive ikcpseg | Read int

fun rx_run :: "ikcpcb \<Rightarrow> rx_event list \<Rightarrow> u8 list \<Rightarrow> (u8 list \<times> ikcpcb) option" where
  "rx_run k [] out = Some (out, k)"
| "rx_run k (Arrive s # es) out = rx_run (ikcp_parse_data k s) es out"
| "rx_run k (Read len # es) out =
    (case ikcp_recv k len of None \<Rightarrow> None
     | Some (r, bs, k') \<Rightarrow> rx_run k' es (if len < 0 then out else out @ bs))"

definition rx_ok :: "(u32 \<Rightarrow> u8 list) \<Rightarrow> ikcpcb \<Rightarrow> u8 list \<Rightarrow> bool" where
  "rx_ok F k out \<longleftrightarrow>
    (\<forall>s\<in>set (k_rcv_buf k). seg_bytes s = F (seg_sn s)) \<and>
    (\<exists>n. k_rcv_nxt k = of_nat n \<and>
         out @ concat (map seg_bytes (k_rcv_queue k)) = concat (map (\<lambda>i. F (of_nat i)) [0..<n]))"

lemma rx_ok_move:
  assumes "rx_ok F k out" and "\<forall>s\<in>set p. seg_bytes s = F (seg_sn s)"
  shows "rx_ok F (move_loop p k) out"
proof -
  define m where "m = ready_count p (k_rcv_nxt k) (k_nrcv_que k) (k_rcv_wnd k)"
  from assms(1) obtain n where n: "k_rcv_nxt k = of_nat n"
    and out: "out @ concat (map seg_bytes (k_rcv_queue k)) = concat (map (\<lambda>i. F (of_nat i)) [0..<n])"
    by (auto simp: rx_ok_def)
  have sns: "map seg_sn (take m p) = map (\<lambda>i. k_rcv_nxt k + of_nat i) [0..<m]"
    unfolding m_def by (rule ready_count_sn)
  have "map seg_bytes (take m p) = map F (map seg_sn (take m p))"
    using assms(2) unfolding map_map comp_def by (intro map_cong) (auto dest: in_set_takeD)
  also have "\<dots> = map (\<lambda>i. F (of_nat (i + n))) [0..<m]"
    by (simp only: sns n list.map_comp comp_def of_nat_add add.commute)
  also have "\<dots> = map (\<lambda>i. F (of_nat i)) (map (\<lambda>i. i + n) [0..<m])"
    by simp
  also have "\<dots> = map (\<lambda>i. F (of_nat i)) [n..<n + m]"
    by (simp only: map_add_upt add.commute)
  finally have taken: "map seg_bytes (take m p) = map (\<lambda>i. F (of_nat i)) [n..<n + m]" .
  have "[0..<n + m] = [0..<n] @ [n..<n + m]"
    by (rule upt_add_eq_append) simp
  then have "out @ concat (map seg_bytes (k_rcv_queue k @ take m p)) =
      concat (map (\<lambda>i. F (of_nat i)) [0..<n + m])"
    using out by (simp add: taken)
  moreover have "k_rcv_nxt k + of_nat m = of_nat (n + m)"
    by (simp add: n)
  ultimately show ?thesis
    using assms(2) unfolding rx_ok_def move_loop_eq Let_def m_def [symmetric]
    by (auto dest: in_set_dropD intro!: exI [of _ "n + m"])
qed


lemma insert_loop_mset: "insert_loop s p = Some p' \<Longrightarrow> mset p' = add_mset s (mset p)"
  by (induction s p arbitrary: p' rule: insert_loop.induct) (auto split: if_splits)

lemma insert_loop_set: "insert_loop s p = Some p' \<Longrightarrow> set p' = insert s (set p)"
  using insert_loop_mset [of s p p'] by (metis set_mset_add_mset_insert set_mset_mset)

definition insert_buf :: "ikcpcb \<Rightarrow> ikcpseg \<Rightarrow> ikcpcb" where
  "insert_buf k s = (case insert_loop s (rev (k_rcv_buf k)) of None \<Rightarrow> k
     | Some p \<Rightarrow> k\<lparr>k_rcv_buf := rev p, k_nrcv_buf := k_nrcv_buf k + 1\<rparr>)"

definition in_window :: "ikcpcb \<Rightarrow> u32 \<Rightarrow> bool" where
  "in_window k sn \<longleftrightarrow> itimediff sn (k_rcv_nxt k + k_rcv_wnd k) < 0 \<and> itimediff sn (k_rcv_nxt k) \<ge> 0"

lemma parse_data_eq:
  "ikcp_parse_data k s =
    (if in_window k (seg_sn s) then move_loop (k_rcv_buf (insert_buf k s)) (insert_buf k s) else k)"
  by (auto simp: ikcp_parse_data_def in_window_def insert_buf_def Let_def split: option.splits)

lemma rx_ok_insert:
  "rx_ok F k out \<Longrightarrow> seg_bytes s = F (seg_sn s) \<Longrightarrow> rx_ok F (insert_buf k s) out"
proof (cases "insert_loop s (rev (k_rcv_buf k))")
  case (Some p)
  from insert_loop_set [OF Some] have "set p = insert s (set (k_rcv_buf k))" by simp
  then show "rx_ok F k out \<Longrightarrow> seg_bytes s = F (seg_sn s) \<Longrightarrow> rx_ok F (insert_buf k s) out"
    by (simp add: rx_ok_def insert_buf_def Some)
qed (simp add: insert_buf_def)

lemma rx_ok_parse_data:
  assumes "rx_ok F k out" and "seg_bytes s = F (seg_sn s)"
  shows "rx_ok F (ikcp_parse_data k s) out"
proof -
  have "rx_ok F (insert_buf k s) out"
    using assms by (rule rx_ok_insert)
  then show ?thesis
    using assms(1) rx_ok_move [of F "insert_buf k s" out "k_rcv_buf (insert_buf k s)"]
    by (auto simp: parse_data_eq rx_ok_def)
qed

lemma rx_ok_tell [simp]: "rx_ok F (recv_tell r k) out = rx_ok F k out"
  by (simp add: rx_ok_def recv_tell_def)

lemma rx_ok_take:
  assumes "rx_ok F k out"
  shows "rx_ok F (recv_take k) (out @ concat (map seg_bytes (message (k_rcv_queue k))))"
proof -
  have "concat (map seg_bytes (message (k_rcv_queue k))) @
      concat (map seg_bytes (drop (length (message (k_rcv_queue k))) (k_rcv_queue k))) =
      concat (map seg_bytes (k_rcv_queue k))"
    by (metis concat_append map_append message_append)
  with assms show ?thesis by (simp add: rx_ok_def recv_take_def)
qed

lemma rx_ok_recv:
  assumes "rx_ok F k out" and "ikcp_recv k len = Some (r, bs, k')"
  shows "rx_ok F k' (if len < 0 then out else out @ bs)"
proof -
  have move: "rx_ok F (move_loop (k_rcv_buf j) j) out'" if "rx_ok F j out'" for j out'
    using that by (intro rx_ok_move) (auto simp: rx_ok_def)
  show ?thesis
    using assms move [OF assms(1)] move [OF rx_ok_take [OF assms(1)]]
    by (auto simp: recv_cases Let_def split: if_splits)
qed

lemma recv_total: "\<exists>r bs k'. ikcp_recv k len = Some (r, bs, k')"
  by (simp add: recv_cases Let_def)

lemma rx_run_ok:
  assumes "rx_ok F k out" and "\<forall>s. Arrive s \<in> set es \<longrightarrow> seg_bytes s = F (seg_sn s)"
  shows "\<exists>out' k'. rx_run k es out = Some (out', k') \<and> rx_ok F k' out'"
  using assms
proof (induction es arbitrary: k out)
  case Nil
  then show ?case by simp
next
  case (Cons e es)
  show ?case
  proof (cases e)
    case (Arrive s)
    with Cons.prems have "rx_ok F (ikcp_parse_data k s) out"
      by (intro rx_ok_parse_data) auto
    with Arrive Cons show ?thesis by simp
  next
    case (Read len)
    obtain r bs k' where r: "ikcp_recv k len = Some (r, bs, k')"
      using recv_total by blast
    with Cons.prems(1) have "rx_ok F k' (if len < 0 then out else out @ bs)"
      by (intro rx_ok_recv)
    with Read r Cons show ?thesis by simp
  qed
qed


section \<open>The invariant of the receive window\<close>

text \<open>
  \<open>rcv_buf\<close> is strictly sorted by distance from \<open>rcv_nxt\<close> and lies in the window; the counters are
  the lengths of the lists; and a segment that could be moved has been moved.
\<close>

definition rcv_off :: "ikcpcb \<Rightarrow> ikcpseg \<Rightarrow> nat" where
  "rcv_off k s = unat (seg_sn s - k_rcv_nxt k)"

definition rcv_sorted :: "ikcpcb \<Rightarrow> bool" where
  "rcv_sorted k \<longleftrightarrow> unat (k_rcv_wnd k) < 2 ^ 31 \<and>
    sorted_wrt (\<lambda>a b. rcv_off k a < rcv_off k b) (k_rcv_buf k) \<and>
    (\<forall>s\<in>set (k_rcv_buf k). rcv_off k s < unat (k_rcv_wnd k))"

definition rcv_counts :: "ikcpcb \<Rightarrow> bool" where
  "rcv_counts k \<longleftrightarrow> k_nrcv_buf k = of_nat (length (k_rcv_buf k)) \<and>
    unat (k_nrcv_que k) = length (k_rcv_queue k) \<and> k_nrcv_que k \<le> k_rcv_wnd k"

definition rcv_drained :: "ikcpcb \<Rightarrow> bool" where
  "rcv_drained k \<longleftrightarrow> k_rcv_buf k = [] \<or> seg_sn (hd (k_rcv_buf k)) \<noteq> k_rcv_nxt k \<or>
    k_nrcv_que k \<ge> k_rcv_wnd k"

definition rcv_inv :: "ikcpcb \<Rightarrow> bool" where
  "rcv_inv k \<longleftrightarrow> rcv_sorted k \<and> rcv_counts k \<and> rcv_drained k"

lemma in_window_iff:
  "unat (k_rcv_wnd k) < 2 ^ 31 \<Longrightarrow>
   in_window k sn \<longleftrightarrow> unat (sn - k_rcv_nxt k) < unat (k_rcv_wnd k)"
  unfolding in_window_def using itimediff_lt [of "k_rcv_wnd k" sn "k_rcv_nxt k"] by blast

subsection \<open>Moving\<close>

lemma move_drained:
  assumes "k_rcv_buf k = p"
  shows "rcv_drained (move_loop p k)"
proof -
  define m where "m = ready_count p (k_rcv_nxt k) (k_nrcv_que k) (k_rcv_wnd k)"
  have "m < length p \<Longrightarrow> seg_sn (p ! m) \<noteq> k_rcv_nxt k + of_nat m \<or>
      k_nrcv_que k + of_nat m \<ge> k_rcv_wnd k"
    unfolding m_def by (rule ready_count_stop)
  then show ?thesis
    unfolding rcv_drained_def move_loop_eq Let_def m_def [symmetric]
    by (cases "m < length p") (auto simp: hd_drop_conv_nth)
qed

lemma move_counts:
  assumes "rcv_counts k" and "k_rcv_buf k = p"
  shows "rcv_counts (move_loop p k)"
proof -
  define m where "m = ready_count p (k_rcv_nxt k) (k_nrcv_que k) (k_rcv_wnd k)"
  have m: "m \<le> length p"
    unfolding m_def by (rule ready_count_le)
  have room: "unat (k_nrcv_que k) + m \<le> unat (k_rcv_wnd k)"
    unfolding m_def using assms(1)
    by (intro ready_count_room) (simp add: rcv_counts_def word_le_nat_alt)
  then have "unat (k_nrcv_que k) + m < 2 ^ 32"
    using unat_lt [of "k_rcv_wnd k"] by linarith
  then have que: "unat (k_nrcv_que k + of_nat m) = unat (k_nrcv_que k) + m"
    by (simp add: unat_word_ariths unat_of_nat)
  show ?thesis
    using assms m room que
    by (simp add: rcv_counts_def move_loop_eq Let_def m_def [symmetric] word_le_nat_alt)
qed

lemma move_sorted:
  assumes "rcv_sorted k" and "k_rcv_buf k = p"
  shows "rcv_sorted (move_loop p k)"
proof -
  define m where "m = ready_count p (k_rcv_nxt k) (k_nrcv_que k) (k_rcv_wnd k)"
  define k' where "k' = move_loop p k"
  have m: "m \<le> length p"
    unfolding m_def by (rule ready_count_le)
  have buf: "k_rcv_buf k' = drop m p" and wnd: "k_rcv_wnd k' = k_rcv_wnd k"
    and nxt: "k_rcv_nxt k' = k_rcv_nxt k + of_nat m"
    by (simp_all add: k'_def move_loop_eq Let_def m_def)
  have srt: "sorted_wrt (\<lambda>a b. rcv_off k a < rcv_off k b) p"
    and bnd: "\<forall>s\<in>set p. rcv_off k s < unat (k_rcv_wnd k)" and w: "unat (k_rcv_wnd k) < 2 ^ 31"
    using assms by (auto simp: rcv_sorted_def)
  have "m \<le> rcv_off k s" if s: "s \<in> set (drop m p)" for s
  proof (cases m)
    case 0
    then show ?thesis by simp
  next
    case (Suc i)
    with m have i: "i < length p" by simp
    have "map seg_sn (take m p) ! i = map (\<lambda>i. k_rcv_nxt k + of_nat i) [0..<m] ! i"
      unfolding m_def by (simp only: ready_count_sn)
    then have "seg_sn (p ! i) = k_rcv_nxt k + of_nat i"
      using Suc i by (simp del: upt_Suc)
    moreover have "i < 2 ^ 32"
    proof -
      have "i \<le> rcv_off k (p ! i)"
        using srt i by (rule strict_sorted_index)
      then show ?thesis
        using unat_lt [of "seg_sn (p ! i) - k_rcv_nxt k"] by (simp add: rcv_off_def)
    qed
    ultimately have "rcv_off k (p ! i) = i"
      by (simp add: rcv_off_def unat_of_nat)
    moreover have "rcv_off k (p ! i) < rcv_off k s"
    proof -
      from s obtain j where j: "j < length (drop m p)" and "s = drop m p ! j"
        by (metis in_set_conv_nth)
      then have "s = p ! (m + j)" and "m + j < length p" by simp_all
      then show ?thesis
        using Suc sorted_wrt_nth_less [OF srt, of i "m + j"] by simp
    qed
    ultimately show ?thesis using Suc by simp
  qed
  then have off: "rcv_off k' s = rcv_off k s - m" and le: "m \<le> rcv_off k s"
    if "s \<in> set (drop m p)" for s
    using that by (simp_all add: rcv_off_def nxt unat_diff_add)
  have "sorted_wrt (\<lambda>a b. rcv_off k a < rcv_off k b) (drop m p)"
    using srt by (simp add: sorted_wrt_drop)
  then have "sorted_wrt (\<lambda>a b. rcv_off k' a < rcv_off k' b) (drop m p)"
    by (rule sorted_wrt_mono_rel [rotated]) (simp add: off le diff_less_mono)
  moreover have "rcv_off k' s < unat (k_rcv_wnd k)" if "s \<in> set (drop m p)" for s
    using off [OF that] bnd in_set_dropD [OF that] by (simp add: less_imp_diff_less)
  ultimately show ?thesis
    unfolding k'_def [symmetric] rcv_sorted_def buf wnd using w by blast
qed


subsection \<open>Inserting\<close>

lemma insert_loop_sorted:
  fixes f :: "ikcpseg \<Rightarrow> nat"
  assumes "\<forall>s\<in>set p. (0 < itimediff (seg_sn n) (seg_sn s)) = (f s < f n)"
    and "\<forall>s\<in>set p. (seg_sn s = seg_sn n) = (f s = f n)"
    and "sorted_wrt (\<lambda>a b. f b < f a) p"
    and "insert_loop n p = Some p'"
  shows "sorted_wrt (\<lambda>a b. f b < f a) p'"
  using assms
proof (induction n p arbitrary: p' rule: insert_loop.induct)
  case (1 n)
  then show ?case by auto
next
  case (2 n s p)
  consider "f s < f n" | "f n < f s"
    using "2.prems" by fastforce
  then show ?case
  proof cases
    case 1
    then show ?thesis
      using "2.prems" by (fastforce split: if_splits)
  next
    case 2
    with "2.prems" obtain q where q: "insert_loop n p = Some q" and p': "p' = s # q"
      by auto
    with 2 "2.IH" "2.prems" have "sorted_wrt (\<lambda>a b. f b < f a) q"
      by auto
    with 2 "2.prems" q p' show ?thesis
      by (auto dest!: insert_loop_set)
  qed
qed

lemma insert_loop_None:
  fixes f :: "ikcpseg \<Rightarrow> nat"
  assumes "\<forall>s\<in>set p. (0 < itimediff (seg_sn n) (seg_sn s)) = (f s < f n)"
    and "\<forall>s\<in>set p. (seg_sn s = seg_sn n) = (f s = f n)"
    and "sorted_wrt (\<lambda>a b. f b < f a) p"
  shows "insert_loop n p = None \<longleftrightarrow> seg_sn n \<in> seg_sn ` set p"
  using assms
proof (induction n p rule: insert_loop.induct)
  case (1 n)
  then show ?case by simp
next
  case (2 n s p)
  show ?case
  proof (cases "f s < f n")
    case True
    with "2.prems" have "\<forall>t\<in>set (s # p). f t < f n" by auto
    then have "\<forall>t\<in>set (s # p). seg_sn t \<noteq> seg_sn n"
      using "2.prems"(2) by (metis less_irrefl)
    with True "2.prems" show ?thesis by (auto simp: image_iff)
  next
    case False
    with 2 show ?thesis by (auto simp: image_iff)
  qed
qed

lemma rcv_off_cmp:
  assumes "rcv_sorted k" and "in_window k (seg_sn n)" and "s \<in> set (k_rcv_buf k)"
  shows "(0 < itimediff (seg_sn n) (seg_sn s)) = (rcv_off k s < rcv_off k n)"
    and "(seg_sn s = seg_sn n) = (rcv_off k s = rcv_off k n)"
proof -
  have "rcv_off k s < 2 ^ 31" and "rcv_off k n < 2 ^ 31"
    using assms by (auto simp: rcv_sorted_def in_window_iff rcv_off_def)
  then have "itimediff (seg_sn n) (seg_sn s) = int (rcv_off k n) - int (rcv_off k s)"
    unfolding rcv_off_def by (intro itimediff_off)
  then show "(0 < itimediff (seg_sn n) (seg_sn s)) = (rcv_off k s < rcv_off k n)"
    by simp
  show "(seg_sn s = seg_sn n) = (rcv_off k s = rcv_off k n)"
    by (simp add: rcv_off_def flip: word_unat_eq_iff)
qed

lemma insert_buf_spec:
  assumes k: "rcv_sorted k" and n: "in_window k (seg_sn n)"
  shows "rcv_sorted (insert_buf k n)"
    and "mset (k_rcv_buf (insert_buf k n)) = mset (k_rcv_buf k) +
      (if seg_sn n \<in> seg_sn ` set (k_rcv_buf k) then {#} else {#n#})"
    and "rcv_counts k \<Longrightarrow> rcv_counts (insert_buf k n)"
proof -
  let ?p = "rev (k_rcv_buf k)"
  have cmp: "\<forall>s\<in>set ?p. (0 < itimediff (seg_sn n) (seg_sn s)) = (rcv_off k s < rcv_off k n)"
    and eq: "\<forall>s\<in>set ?p. (seg_sn s = seg_sn n) = (rcv_off k s = rcv_off k n)"
    using rcv_off_cmp [OF k n] by auto
  have srt: "sorted_wrt (\<lambda>a b. rcv_off k b < rcv_off k a) ?p"
    using k by (simp add: rcv_sorted_def sorted_wrt_rev)
  note none = insert_loop_None [OF cmp eq srt]
  show "mset (k_rcv_buf (insert_buf k n)) = mset (k_rcv_buf k) +
      (if seg_sn n \<in> seg_sn ` set (k_rcv_buf k) then {#} else {#n#})"
  proof (cases "insert_loop n ?p")
    case None
    with none have "seg_sn n \<in> seg_sn ` set (k_rcv_buf k)" by simp
    with None show ?thesis by (simp add: insert_buf_def)
  next
    case (Some p')
    with none have "seg_sn n \<notin> seg_sn ` set (k_rcv_buf k)" by simp
    with insert_loop_mset [OF Some] show ?thesis by (simp add: insert_buf_def Some)
  qed
  show "rcv_counts k \<Longrightarrow> rcv_counts (insert_buf k n)"
  proof (cases "insert_loop n ?p")
    case None
    then show "rcv_counts k \<Longrightarrow> ?thesis" by (simp add: insert_buf_def)
  next
    case (Some p')
    have "length p' = Suc (length (k_rcv_buf k))"
      using arg_cong [OF insert_loop_mset [OF Some], where f = size] by simp
    then show "rcv_counts k \<Longrightarrow> ?thesis"
      by (simp add: rcv_counts_def insert_buf_def Some)
  qed
  show "rcv_sorted (insert_buf k n)"
  proof (cases "insert_loop n ?p")
    case None
    with k show ?thesis by (simp add: insert_buf_def)
  next
    case (Some p')
    then have "sorted_wrt (\<lambda>a b. rcv_off k b < rcv_off k a) p'"
      by (rule insert_loop_sorted [OF cmp eq srt])
    moreover have "set p' = insert n (set (k_rcv_buf k))"
      using insert_loop_set [OF Some] by simp
    moreover have "rcv_off k n < unat (k_rcv_wnd k)"
      using k n by (simp add: rcv_sorted_def in_window_iff rcv_off_def)
    ultimately show ?thesis
      using k by (auto simp: insert_buf_def Some rcv_sorted_def rcv_off_def sorted_wrt_rev)
  qed
qed

subsection \<open>The operations keep the invariant\<close>

lemma move_frame [simp]: "k_rcv_wnd (move_loop p k) = k_rcv_wnd k"
  by (simp add: move_loop_eq Let_def)

lemma rcv_inv_move:
  "rcv_sorted k \<Longrightarrow> rcv_counts k \<Longrightarrow> rcv_inv (move_loop (k_rcv_buf k) k)"
  by (simp add: rcv_inv_def move_sorted move_counts move_drained)

lemma rcv_inv_parse_data [inv_intros]: "rcv_inv k \<Longrightarrow> rcv_inv (ikcp_parse_data k s)"
  by (auto simp: parse_data_eq rcv_inv_def [of k] intro: rcv_inv_move insert_buf_spec)

lemma recv_take_parts:
  assumes "rcv_inv k"
  shows "rcv_sorted (recv_take k)" and "rcv_counts (recv_take k)"
proof -
  show "rcv_sorted (recv_take k)"
    using assms by (simp add: rcv_inv_def rcv_sorted_def recv_take_def rcv_off_def)
  have "unat (k_nrcv_que k) = length (k_rcv_queue k)"
    using assms by (simp add: rcv_inv_def rcv_counts_def)
  then have "unat (k_nrcv_que k - of_nat (length (message (k_rcv_queue k)))) =
      length (k_rcv_queue k) - length (message (k_rcv_queue k))"
    using unat_diff_add [of _ "k_nrcv_que k" 0] by (simp add: message_length_le)
  then show "rcv_counts (recv_take k)"
    using assms le_diff_conv trans_le_add1
    by (simp add: rcv_inv_def rcv_counts_def recv_take_def word_le_nat_alt)
qed

lemma rcv_inv_tell [simp]: "rcv_inv (recv_tell r k) = rcv_inv k"
  by (simp add: rcv_inv_def rcv_sorted_def rcv_counts_def rcv_drained_def rcv_off_def recv_tell_def)

lemma rcv_inv_recv [inv_intros]:
  assumes "rcv_inv k" and "ikcp_recv k len = Some (r, bs, k')"
  shows "rcv_inv k'"
proof -
  have "rcv_sorted k" and "rcv_counts k"
    using assms(1) by (simp_all add: rcv_inv_def)
  then have "rcv_inv (move_loop (k_rcv_buf k) k)"
    by (rule rcv_inv_move)
  moreover have "rcv_inv (move_loop (k_rcv_buf (recv_take k)) (recv_take k))"
    by (rule rcv_inv_move [OF recv_take_parts [OF assms(1)]])
  ultimately show ?thesis
    using assms by (auto simp: recv_cases Let_def split: if_splits)
qed


lemma move_queue:
  assumes "k_rcv_buf k = p"
  shows "\<exists>moved. k_rcv_queue (move_loop p k) = k_rcv_queue k @ moved \<and>
    p = moved @ k_rcv_buf (move_loop p k) \<and>
    k_rcv_nxt (move_loop p k) = k_rcv_nxt k + of_nat (length moved) \<and>
    map seg_sn moved = map (\<lambda>i. k_rcv_nxt k + of_nat i) [0..<length moved]"
proof -
  let ?m = "ready_count p (k_rcv_nxt k) (k_nrcv_que k) (k_rcv_wnd k)"
  have "?m \<le> length p" by (rule ready_count_le)
  then show ?thesis
    using ready_count_sn [of p "k_rcv_nxt k" "k_nrcv_que k" "k_rcv_wnd k"]
    by (intro exI [of _ "take ?m p"]) (simp add: move_loop_eq Let_def min_absorb2)
qed

lemma insert_buf_frame [frame_simps]:
  "k_rcv_queue (insert_buf k s) = k_rcv_queue k" "k_rcv_nxt (insert_buf k s) = k_rcv_nxt k"
  "k_nrcv_que (insert_buf k s) = k_nrcv_que k" "k_rcv_wnd (insert_buf k s) = k_rcv_wnd k"
  by (simp_all add: insert_buf_def split: option.splits)

text \<open>what \<open>ikcp_parse_data\<close> does with one segment.  It stores the segment exactly when its
  sequence number lies in the receive window and is not buffered already (anything else leaves
  the segments held as they are), moves a run of consecutive segments that starts at \<open>rcv_nxt\<close>
  into the in-order queue, advances \<open>rcv_nxt\<close> by their number, and keeps the invariant of the
  window (sorted without repetition, counters exact, nothing movable left behind), whatever the
  wrap-around of the sequence numbers.\<close>
theorem parse_data_spec:
  assumes k: "rcv_inv k" and k'_def: "k' = ikcp_parse_data k s"
    and new_def: "new = (unat (seg_sn s - k_rcv_nxt k) < unat (k_rcv_wnd k) \<and>
      seg_sn s \<notin> seg_sn ` set (k_rcv_buf k))"
  shows "mset (k_rcv_queue k' @ k_rcv_buf k') =
      mset (k_rcv_queue k @ k_rcv_buf k) + (if new then {#s#} else {#}) \<and>
    (\<exists>moved. k_rcv_queue k' = k_rcv_queue k @ moved \<and>
       k_rcv_nxt k' = k_rcv_nxt k + of_nat (length moved) \<and>
       map seg_sn moved = map (\<lambda>i. k_rcv_nxt k + of_nat i) [0..<length moved]) \<and>
    rcv_inv k'"
proof -
  have srt: "rcv_sorted k" and wnd: "unat (k_rcv_wnd k) < 2 ^ 31"
    using k by (simp_all add: rcv_inv_def rcv_sorted_def)
  note win = in_window_iff [OF wnd, of "seg_sn s"]
  have "mset (k_rcv_queue k' @ k_rcv_buf k') =
      mset (k_rcv_queue k @ k_rcv_buf k) + (if new then {#s#} else {#}) \<and>
    (\<exists>moved. k_rcv_queue k' = k_rcv_queue k @ moved \<and>
       k_rcv_nxt k' = k_rcv_nxt k + of_nat (length moved) \<and>
       map seg_sn moved = map (\<lambda>i. k_rcv_nxt k + of_nat i) [0..<length moved])"
  proof (cases "in_window k (seg_sn s)")
    case False
    then show ?thesis
      using win by (auto simp: k'_def parse_data_eq new_def)
  next
    case True
    then have k': "k' = move_loop (k_rcv_buf (insert_buf k s)) (insert_buf k s)"
      by (simp add: k'_def parse_data_eq)
    obtain moved where m: "k_rcv_queue k' = k_rcv_queue k @ moved"
        "k_rcv_buf (insert_buf k s) = moved @ k_rcv_buf k'"
        "k_rcv_nxt k' = k_rcv_nxt k + of_nat (length moved)"
        "map seg_sn moved = map (\<lambda>i. k_rcv_nxt k + of_nat i) [0..<length moved]"
      using move_queue [OF refl, of "insert_buf k s"] unfolding k' by (auto simp: frame_simps)
    have "mset (moved @ k_rcv_buf k') = mset (k_rcv_buf k) + (if new then {#s#} else {#})"
      using insert_buf_spec(2) [OF srt True] True win m(2) by (simp add: new_def)
    then have "mset (k_rcv_queue k' @ k_rcv_buf k') =
        mset (k_rcv_queue k @ k_rcv_buf k) + (if new then {#s#} else {#})"
      unfolding m(1) by simp
    with m show ?thesis by auto
  qed
  moreover have "rcv_inv k'"
    unfolding k'_def by (rule rcv_inv_parse_data [OF k])
  ultimately show ?thesis by auto
qed

lemma rcv_inv_init: 
  assumes "int_range rcvwnd"
  shows "rcv_inv (snd (ikcp_wndsize (ikcp_init conv) sndwnd rcvwnd))"
proof -
  have "unat (u32 rcvwnd) < 2 ^ 31" if "0 < rcvwnd"
    using assms that by (simp add: unat_u32 int_range_def)
  then show ?thesis
  by (auto simp: rcv_inv_def rcv_sorted_def rcv_counts_def rcv_drained_def ikcp_wndsize_def Let_def
      ikcp_init_def imax_def)
qed

theorem parse_data_spec_witness:
  "rcv_inv (ikcp_init 9) \<and> seg_sn (demo_seg [5] 2) = 2 \<and>
   mset (k_rcv_queue (ikcp_parse_data (ikcp_init 9) (demo_seg [5] 2)) @
     k_rcv_buf (ikcp_parse_data (ikcp_init 9) (demo_seg [5] 2))) = {#demo_seg [5] 2#}"
proof -
  have k: "rcv_inv (ikcp_init 9)"
    by (simp add: rcv_inv_def rcv_sorted_def rcv_counts_def rcv_drained_def ikcp_init_def)
  from parse_data_spec [OF this refl refl, of "demo_seg [5] 2"] k show ?thesis
    by (simp add: ikcp_init_def demo_seg_def)
qed

text \<open>C7: in-order delivery, exactly once.  Whatever the order and the repetition in which segments
  arrive (the copies of one sequence number carrying the same bytes) and whenever the user reads
  or peeks, from a fresh control block with any window sizes: no assertion fails, and the bytes
  read so far followed by those waiting in the queue are the data of the sequence numbers 0, 1,
  2, ... up to \<open>rcv_nxt\<close>, each one once and in order.\<close>
theorem receive_in_order:
  assumes "\<forall>s. Arrive s \<in> set es \<longrightarrow> seg_bytes s = F (seg_sn s)"
  shows "\<exists>out k' n. rx_run (snd (ikcp_wndsize (ikcp_init conv) sndwnd rcvwnd)) es [] = Some (out, k') \<and>
    k_rcv_nxt k' = of_nat n \<and>
    out @ concat (map seg_bytes (k_rcv_queue k')) = concat (map (\<lambda>i. F (of_nat i)) [0..<n])"
proof -
  have "rx_ok F (snd (ikcp_wndsize (ikcp_init conv) sndwnd rcvwnd)) []"
    by (auto simp: rx_ok_def ikcp_wndsize_def Let_def ikcp_init_def intro: exI [of _ 0])
  from rx_run_ok [OF this assms] show ?thesis
    by (auto simp: rx_ok_def)
qed

theorem receive_in_order_witness:
  "\<exists>out k' n. rx_run (snd (ikcp_wndsize (ikcp_init 9) 0 0))
      [Arrive (demo_seg [8] 1), Arrive (demo_seg [7] 0), Arrive (demo_seg [8] 1), Read 10] [] =
      Some (out, k') \<and> k_rcv_nxt k' = of_nat n \<and>
    out @ concat (map seg_bytes (k_rcv_queue k')) =
      concat (map (\<lambda>i. if of_nat i = (0 :: u32) then [7] else [8]) [0..<n])"
  by (rule receive_in_order [where F = "\<lambda>sn. if sn = 0 then [7] else [8]"])
     (auto simp: demo_seg_def seg_bytes_def)

section \<open>Whole messages\<close>

text \<open>A run of segments that carries one message: fragment numbers count down to 0.\<close>

definition framed :: "ikcpseg list \<Rightarrow> bool" where
  "framed m \<longleftrightarrow> m \<noteq> [] \<and> length m < 2 ^ 31 \<and>
    map seg_frg m = map of_nat (rev [0..<length m]) \<and> (\<forall>s\<in>set m. seg_wf s)"

definition total_len :: "ikcpseg list \<Rightarrow> nat" where
  "total_len m = (\<Sum>s\<leftarrow>m. unat (seg_len s))"

lemma message_framed:
  "m \<noteq> [] \<Longrightarrow> length m \<le> 2 ^ 32 \<Longrightarrow> map seg_frg m = map of_nat (rev [0..<length m]) \<Longrightarrow>
   message (m @ rest) = m"
proof (induction m)
  case Nil
  then show ?case by simp
next
  case (Cons s m)
  then have frg: "seg_frg s = of_nat (length m)" and m: "map seg_frg m = map of_nat (rev [0..<length m])"
    by simp_all
  have "unat (seg_frg s) = length m"
    using Cons.prems frg by (simp add: unat_of_nat)
  then have "seg_frg s = 0 \<longleftrightarrow> m = []"
    by (metis length_0_conv unat_eq_zero)
  with Cons m show ?case by auto
qed

lemma peek_loop_sum:
  "0 \<le> acc \<Longrightarrow> acc + int (total_len (message p)) < 2 ^ 31 \<Longrightarrow>
   peek_loop p acc = acc + int (total_len (message p))"
proof (induction p arbitrary: acc)
  case Nil
  then show ?case by (simp add: total_len_def)
next
  case (Cons s p)
  have "0 \<le> acc + int (unat (seg_len s))"
    using Cons.prems(1) by (simp del: of_nat_unat)
  moreover have "acc + int (unat (seg_len s)) < 2 ^ 31"
    using Cons.prems(2) by (simp add: total_len_def split: if_splits del: of_nat_unat)
  ultimately have "wrap32 (acc + int (unat (seg_len s))) = acc + int (unat (seg_len s))"
    by (rule wrap32_nonneg)
  with Cons.prems Cons.IH [of "acc + int (unat (seg_len s))"] show ?case
    by (auto simp: total_len_def Let_def split: if_splits)
qed

lemma total_len_bytes: "\<forall>s\<in>set m. seg_wf s \<Longrightarrow> total_len m = length (concat (map seg_data m))"
  by (induction m) (auto simp: total_len_def seg_wf_def)

lemma seg_bytes_wf: "seg_wf s \<Longrightarrow> seg_bytes s = seg_data s"
  by (simp add: seg_bytes_def seg_wf_def)

lemma peeksize_framed:
  assumes k: "rcv_inv k" and q: "k_rcv_queue k = m @ rest" and m: "framed m"
    and sum: "total_len m < 2 ^ 31"
  shows "ikcp_peeksize k = int (total_len m)"
proof -
  have msg: "message (m @ rest) = m"
    using m by (intro message_framed) (auto simp: framed_def)
  from m obtain s m' where s: "m = s # m'"
    by (cases m) (auto simp: framed_def)
  have len: "length m < 2 ^ 31" and frg: "seg_frg s = of_nat (length m')"
    using m by (auto simp: framed_def s)
  have que: "unat (k_nrcv_que k) = length m + length rest"
    using k q by (simp add: rcv_inv_def rcv_counts_def)
  have "peek_loop (m @ rest) 0 = int (total_len m)"
    using peek_loop_sum [of 0 "m @ rest"] sum msg by simp
  moreover have "\<not> k_nrcv_que k < seg_frg s + 1"
  proof -
    have "unat (seg_frg s + 1) = length m"
    proof -
      have "of_nat (length m') + 1 = (of_nat (length m) :: u32)"
        by (simp add: s)
      with len show ?thesis
        unfolding frg by (simp only: unat_of_nat) simp
    qed
    with que show ?thesis by (simp add: word_less_nat_alt)
  qed
  moreover have "i32 (seg_len s) = int (total_len m)" if "seg_frg s = 0"
  proof -
    have "m' = []"
      using msg that by (simp add: s)
    then show ?thesis
      using sum by (simp add: s total_len_def i32_small)
  qed
  ultimately show ?thesis
    using q by (simp add: ikcp_peeksize_def s Let_def split: if_splits)
qed

lemma recv_message:
  assumes k: "rcv_inv k" and q: "k_rcv_queue k = m @ rest" and m: "framed m"
    and sum: "total_len m < 2 ^ 31" and len: "int (total_len m) \<le> len"
  shows "\<exists>k' moved. ikcp_recv k len = Some (int (total_len m), concat (map seg_data m), k') \<and>
    k_rcv_queue k' = rest @ moved \<and> rcv_inv k'"
proof -
  have msg: "message (m @ rest) = m"
    using m by (intro message_framed) (auto simp: framed_def)
  note size = peeksize_framed [OF k q m sum]
  have data: "map seg_bytes m = map seg_data m"
    using m by (simp add: framed_def seg_bytes_wf)
  let ?k = "recv_tell (k_nrcv_que k \<ge> k_rcv_wnd k) (move_loop (k_rcv_buf (recv_take k)) (recv_take k))"
  have r: "ikcp_recv k len = Some (int (total_len m), concat (map seg_data m), ?k)"
    using m len by (simp add: recv_cases size q msg data recv_take_def framed_def)
  moreover have "\<exists>moved. k_rcv_queue ?k = rest @ moved"
    using move_queue [OF refl, of "recv_take k"]
    by (auto simp: recv_tell_def) (auto simp: recv_take_def q msg)
  moreover have "rcv_inv ?k"
    using rcv_inv_recv [OF k r] .
  ultimately show ?thesis by blast
qed

end
