(* ===== verification/Kcp_Ack.thy ===== *)
theory Kcp_Ack
  imports Kcp_State
begin

text \<open>
  Acknowledgements in KCP (\<open>ikcp.c\<close>, lines 587--745): the round-trip estimator, removal of
  acknowledged segments from \<open>snd_buf\<close>, the skip counts for fast retransmission, and the growing
  list of acknowledgements to be sent.
\<close>

section \<open>Operations\<close>

text \<open>
  \<open>_imax_\<close> and \<open>_ibound_\<close> take unsigned arguments, so the sum is computed unsigned.  A signed
  overflow of the weighted sums is undefined in C; the model lets them wrap
  (\<open>update_ack_spec\<close> states when nothing overflows).
\<close>

definition update_srtt :: "ikcpcb \<Rightarrow> int \<Rightarrow> ikcpcb" where
  "update_srtt k rtt =
    (if k_rx_srtt k = 0 then k\<lparr>k_rx_srtt := rtt, k_rx_rttval := cdiv rtt 2\<rparr>
     else
       let delta = wrap32 (rtt - k_rx_srtt k);
           delta = (if delta < 0 then - delta else delta);
           rttval = wrap32 (cdiv (wrap32 (3 * k_rx_rttval k) + delta) 4);
           srtt = cdiv (wrap32 (wrap32 (7 * k_rx_srtt k) + rtt)) 8
       in k\<lparr>k_rx_srtt := (if srtt < 1 then 1 else srtt), k_rx_rttval := rttval\<rparr>)"

definition ikcp_update_ack :: "ikcpcb \<Rightarrow> int \<Rightarrow> ikcpcb" where
  "ikcp_update_ack k rtt =
    (let k = update_srtt k rtt;
         rto = i32 (u32 (k_rx_srtt k) + imax (k_interval k) (u32 (wrap32 (4 * k_rx_rttval k))))
     in k\<lparr>k_rx_rto := i32 (ibound (u32 (k_rx_minrto k)) (u32 rto) IKCP_RTO_MAX)\<rparr>)"

definition ikcp_shrink_buf :: "ikcpcb \<Rightarrow> ikcpcb" where
  "ikcp_shrink_buf k =
     (case k_snd_buf k of
        seg # _ \<Rightarrow> k\<lparr>k_snd_una := seg_sn seg\<rparr>
      | [] \<Rightarrow> k\<lparr>k_snd_una := k_snd_nxt k\<rparr>)"

fun ack_loop :: "u32 \<Rightarrow> ikcpseg list \<Rightarrow> ikcpseg list \<Rightarrow> ikcpcb \<Rightarrow> ikcpcb" where
  "ack_loop sn pre [] k = k"
| "ack_loop sn pre (seg # p) k =
    (if sn = seg_sn seg then k\<lparr>k_snd_buf := pre @ p, k_nsnd_buf := k_nsnd_buf k - 1\<rparr>
     else if itimediff sn (seg_sn seg) < 0 then k
     else ack_loop sn (pre @ [seg]) p k)"

definition ikcp_parse_ack :: "ikcpcb \<Rightarrow> u32 \<Rightarrow> ikcpcb" where
  "ikcp_parse_ack k sn =
    (if itimediff sn (k_snd_una k) < 0 \<or> itimediff sn (k_snd_nxt k) \<ge> 0 then k
     else ack_loop sn [] (k_snd_buf k) k)"

fun una_loop :: "u32 \<Rightarrow> ikcpseg list \<Rightarrow> ikcpcb \<Rightarrow> ikcpcb" where
  "una_loop una [] k = k"
| "una_loop una (seg # p) k =
    (if itimediff una (seg_sn seg) > 0
     then una_loop una p (k\<lparr>k_snd_buf := p, k_nsnd_buf := k_nsnd_buf k - 1\<rparr>)
     else k)"

definition ikcp_parse_una :: "ikcpcb \<Rightarrow> u32 \<Rightarrow> ikcpcb" where
  "ikcp_parse_una k una = una_loop una (k_snd_buf k) k"

fun fastack_loop :: "u32 \<Rightarrow> ikcpseg list \<Rightarrow> ikcpseg list" where
  "fastack_loop sn [] = []"
| "fastack_loop sn (seg # p) =
    (if itimediff sn (seg_sn seg) < 0 then seg # p
     else if sn \<noteq> seg_sn seg then seg\<lparr>seg_fastack := seg_fastack seg + 1\<rparr> # fastack_loop sn p
     else seg # fastack_loop sn p)"

text \<open>\<open>IKCP_FASTACK_CONSERVE\<close> is not defined, so \<open>ts\<close> plays no role.\<close>

definition ikcp_parse_fastack :: "ikcpcb \<Rightarrow> u32 \<Rightarrow> u32 \<Rightarrow> ikcpcb" where
  "ikcp_parse_fastack k sn ts =
    (if itimediff sn (k_snd_una k) < 0 \<or> itimediff sn (k_snd_nxt k) \<ge> 0 then k
     else k\<lparr>k_snd_buf := fastack_loop sn (k_snd_buf k)\<rparr>)"

text \<open>
  \<open>acklist\<close> is an array of pairs laid out flat.  The doubling loop does not end when \<open>newsize\<close>
  exceeds \<open>2^31\<close> (the shift drops the only bit); that is \<open>None\<close>.  Fresh memory reads as 0.
\<close>

partial_function (option) ack_grow :: "u32 \<Rightarrow> u32 \<Rightarrow> u32 option" where
  "ack_grow newblock newsize =
     (if newblock < newsize then ack_grow (push_bit 1 newblock) newsize else Some newblock)"

declare ack_grow.simps [code]

definition ack_room :: "ikcpcb \<Rightarrow> ikcpcb option" where
  "ack_room k =
    (let newsize = k_ackcount k + 1 in
     if newsize > k_ackblock k then
       (case ack_grow 8 newsize of None \<Rightarrow> None
        | Some newblock \<Rightarrow>
            let n = unat (k_ackcount k) * 2
            in Some (k\<lparr>k_acklist := take n (k_acklist k) @ replicate (unat newblock * 2 - n) 0,
                       k_ackblock := newblock\<rparr>))
     else Some k)"

definition ikcp_ack_push :: "ikcpcb \<Rightarrow> u32 \<Rightarrow> u32 \<Rightarrow> ikcpcb option" where
  "ikcp_ack_push k sn ts =
    (case ack_room k of None \<Rightarrow> None
     | Some k \<Rightarrow>
         let p = unat (k_ackcount k) * 2
         in Some (k\<lparr>k_acklist := (k_acklist k)[p := sn, p + 1 := ts],
                    k_ackcount := k_ackcount k + 1\<rparr>))"

definition ikcp_ack_get :: "ikcpcb \<Rightarrow> nat \<Rightarrow> u32 \<times> u32" where
  "ikcp_ack_get k p = (k_acklist k ! (p * 2 + 0), k_acklist k ! (p * 2 + 1))"

section \<open>The round-trip estimator\<close>

lemma unat_imax: "unat (imax a b) = max (unat a) (unat b)"
  by (auto simp: imax_def word_le_nat_alt)

lemma unat_imin: "unat (imin a b) = min (unat a) (unat b)"
  by (auto simp: imin_def word_le_nat_alt)

lemma unat_ibound: "unat (ibound lower middle upper) = min (max (unat lower) (unat middle)) (unat upper)"
  by (simp add: ibound_def unat_imax unat_imin)

definition rtt_range :: "int \<Rightarrow> bool" where
  "rtt_range x \<longleftrightarrow> 0 \<le> x \<and> x < 2 ^ 27"

lemma update_srtt_ideal:
  assumes "rtt_range rtt" and "rtt_range (k_rx_srtt k)" and "rtt_range (k_rx_rttval k)"
  shows "update_srtt k rtt = k\<lparr>
      k_rx_srtt := (if k_rx_srtt k = 0 then rtt else max 1 ((7 * k_rx_srtt k + rtt) div 8)),
      k_rx_rttval := (if k_rx_srtt k = 0 then rtt div 2 else (3 * k_rx_rttval k + \<bar>rtt - k_rx_srtt k\<bar>) div 4)\<rparr>"
proof -
  have w: "wrap32 (rtt - k_rx_srtt k) = rtt - k_rx_srtt k"
    "wrap32 (3 * k_rx_rttval k) = 3 * k_rx_rttval k"
    "wrap32 (7 * k_rx_srtt k) = 7 * k_rx_srtt k" 
    "wrap32 (7 * k_rx_srtt k + rtt) = 7 * k_rx_srtt k + rtt"
    using assms by (auto intro!: wrap32_id simp: int_range_def rtt_range_def)
  let ?d = "if rtt - k_rx_srtt k < 0 then - (rtt - k_rx_srtt k) else rtt - k_rx_srtt k"
  have d: "?d = \<bar>rtt - k_rx_srtt k\<bar>" by simp
  have "0 \<le> 3 * k_rx_rttval k + \<bar>rtt - k_rx_srtt k\<bar>" "3 * k_rx_rttval k + \<bar>rtt - k_rx_srtt k\<bar> < 2 ^ 29"
    using assms by (auto simp: rtt_range_def)
  then have v: "wrap32 (cdiv (3 * k_rx_rttval k + \<bar>rtt - k_rx_srtt k\<bar>) 4) =
      (3 * k_rx_rttval k + \<bar>rtt - k_rx_srtt k\<bar>) div 4"
    by (subst cdiv_nonneg; (intro wrap32_nonneg)?) auto
  have s: "cdiv (7 * k_rx_srtt k + rtt) 8 = (7 * k_rx_srtt k + rtt) div 8" "cdiv rtt 2 = rtt div 2"
    using assms by (auto intro!: cdiv_nonneg simp: rtt_range_def)
  show ?thesis
    unfolding update_srtt_def Let_def w d v s by (simp add: max_def)
qed

section \<open>The segments in flight\<close>

text \<open>
  \<open>snd_buf\<close> holds sequence numbers between \<open>snd_una\<close> and \<open>snd_nxt\<close> in increasing order (as distances
  from \<open>snd_una\<close>); \<open>snd_tight\<close> says that \<open>snd_una\<close> is the first of them, which
  \<open>ikcp_shrink_buf\<close> establishes.
\<close>

definition snd_off :: "ikcpcb \<Rightarrow> ikcpseg \<Rightarrow> nat" where
  "snd_off k s = unat (seg_sn s - k_snd_una k)"

definition in_flight :: "ikcpcb \<Rightarrow> nat" where
  "in_flight k = unat (k_snd_nxt k - k_snd_una k)"

definition snd_sorted :: "ikcpcb \<Rightarrow> bool" where
  "snd_sorted k \<longleftrightarrow> in_flight k < 2 ^ 31 \<and>
    sorted_wrt (\<lambda>a b. snd_off k a < snd_off k b) (k_snd_buf k) \<and>
    (\<forall>s\<in>set (k_snd_buf k). snd_off k s < in_flight k) \<and>
    k_nsnd_buf k = of_nat (length (k_snd_buf k))"

definition snd_tight :: "ikcpcb \<Rightarrow> bool" where
  "snd_tight k \<longleftrightarrow> k_snd_una k = (case k_snd_buf k of [] \<Rightarrow> k_snd_nxt k | s # _ \<Rightarrow> seg_sn s)"

definition snd_inv :: "ikcpcb \<Rightarrow> bool" where
  "snd_inv k \<longleftrightarrow> snd_sorted k \<and> snd_tight k"

lemma snd_cmp:
  assumes "snd_sorted k" and "s \<in> set (k_snd_buf k)" and "unat (sn - k_snd_una k) < 2 ^ 31"
  shows "itimediff sn (seg_sn s) = int (unat (sn - k_snd_una k)) - int (snd_off k s)"
proof -
  have "unat (seg_sn s - k_snd_una k) < 2 ^ 31"
    using assms(1,2) by (auto simp: snd_off_def snd_sorted_def)
  with assms(3) show ?thesis unfolding snd_off_def by (intro itimediff_off)
qed

lemma snd_sn_inj: "seg_sn s = sn \<longleftrightarrow> snd_off k s = unat (sn - k_snd_una k)"
  by (simp add: snd_off_def flip: word_unat_eq_iff)

lemma shrink_frame [frame_simps]:
  "k_snd_buf (ikcp_shrink_buf k) = k_snd_buf k" "k_snd_nxt (ikcp_shrink_buf k) = k_snd_nxt k"
  "k_nsnd_buf (ikcp_shrink_buf k) = k_nsnd_buf k"
  by (simp_all add: ikcp_shrink_buf_def split: list.splits)

lemma shrink_inv [inv_intros]:
  assumes "snd_sorted k"
  shows "snd_inv (ikcp_shrink_buf k)"
proof (cases "k_snd_buf k")
  case Nil
  with assms show ?thesis
    by (simp add: snd_inv_def snd_sorted_def snd_tight_def ikcp_shrink_buf_def in_flight_def)
next
  case (Cons s p)
  define k' where "k' = k\<lparr>k_snd_una := seg_sn s\<rparr>"
  define m where "m = snd_off k s"
  have base: "seg_sn s = k_snd_una k + of_nat m"
    by (simp add: m_def snd_off_def)
  have first: "m \<le> snd_off k t" if "t \<in> set (k_snd_buf k)" for t
    using assms that by (auto simp: snd_sorted_def Cons m_def)
  have off: "snd_off k' t = snd_off k t - m" if "t \<in> set (k_snd_buf k)" for t
    using first [OF that] by (simp add: snd_off_def k'_def base unat_diff_add)
  have m: "m < in_flight k"
    using assms by (simp add: snd_sorted_def Cons m_def)
  then have fl: "in_flight k' = in_flight k - m"
    by (simp add: in_flight_def k'_def base unat_diff_add)
  have "sorted_wrt (\<lambda>a b. snd_off k' a < snd_off k' b) (k_snd_buf k)"
    by (rule sorted_wrt_mono_rel [where P = "\<lambda>a b. snd_off k a < snd_off k b"])
       (use assms off first in \<open>auto simp: snd_sorted_def diff_less_mono\<close>)
  moreover have "\<forall>t\<in>set (k_snd_buf k). snd_off k' t < in_flight k'"
    using assms off first fl by (auto simp: snd_sorted_def diff_less_mono)
  moreover have "ikcp_shrink_buf k = k'"
    by (simp add: ikcp_shrink_buf_def Cons k'_def)
  ultimately show ?thesis
    using assms fl by (auto simp: snd_inv_def snd_sorted_def snd_tight_def k'_def Cons)
qed

lemma snd_sorted_sub:
  assumes "snd_sorted k" and "k' = k\<lparr>k_snd_buf := filter P (k_snd_buf k), 
    k_nsnd_buf := of_nat (length (filter P (k_snd_buf k)))\<rparr>"
  shows "snd_sorted k'"
  using assms by (auto simp: snd_sorted_def snd_off_def in_flight_def sorted_wrt_filter)

lemma ack_loop_filter:
  assumes "\<forall>s\<in>set p. (itimediff sn (seg_sn s) < 0) = (n < f s)"
    and "\<forall>s\<in>set p. (seg_sn s = sn) = (f s = (n :: nat))"
    and "sorted_wrt (\<lambda>a b. f a < f b) p"
    and "k_nsnd_buf k = of_nat (length pre + length p)" and "k_snd_buf k = pre @ p"
  shows "ack_loop sn pre p k = k\<lparr>k_snd_buf := pre @ filter (\<lambda>s. seg_sn s \<noteq> sn) p,
    k_nsnd_buf := of_nat (length pre + length (filter (\<lambda>s. seg_sn s \<noteq> sn) p))\<rparr>"
  using assms
proof (induction sn pre p k rule: ack_loop.induct)
  case (1 sn pre k)
  then show ?case by simp
next
  case (2 sn pre seg p k)
  consider "sn = seg_sn seg" | "n < f seg" | "f seg < n" "sn \<noteq> seg_sn seg"
    using "2.prems"(2) by (metis insertCI linorder_less_linear list.set(2))
  then show ?case
  proof cases
    case 1
    then have "filter (\<lambda>s. seg_sn s \<noteq> sn) p = p"
      using "2.prems" by (intro filter_True) auto
    with 1 "2.prems" show ?thesis by simp
  next
    case 2
    then have "filter (\<lambda>s. seg_sn s \<noteq> sn) (seg # p) = seg # p"
      using "2.prems" by (intro filter_True) auto
    with 2 "2.prems" show ?thesis by auto
  next
    case 3
    with 2 show ?thesis by auto
  qed
qed

text \<open>The range check of \<open>ikcp_parse_ack\<close> and \<open>ikcp_parse_fastack\<close>.\<close>

lemma ack_range:
  assumes fl: "in_flight k < 2 ^ 31"
  shows "itimediff sn (k_snd_una k) < 0 \<or> itimediff sn (k_snd_nxt k) \<ge> 0 \<longleftrightarrow>
    \<not> unat (sn - k_snd_una k) < in_flight k"
proof (cases "unat (sn - k_snd_una k) < 2 ^ 31")
  case True
  with itimediff_base [OF True] itimediff_off [OF True, of "k_snd_nxt k"] fl show ?thesis
    by (simp add: in_flight_def not_less del: of_nat_unat)
next
  case False
  with fl show ?thesis
    using itimediff_nonneg [of sn "k_snd_una k"] by auto
qed

text \<open>\<open>ikcp_parse_ack\<close> removes the acknowledged segment, wherever it is, and nothing else.\<close>

lemma parse_ack_eq:
  assumes "snd_sorted k"
  shows "ikcp_parse_ack k sn = k\<lparr>k_snd_buf := filter (\<lambda>s. seg_sn s \<noteq> sn) (k_snd_buf k),
    k_nsnd_buf := of_nat (length (filter (\<lambda>s. seg_sn s \<noteq> sn) (k_snd_buf k)))\<rparr>"
proof -
  let ?n = "unat (sn - k_snd_una k)"
  have fl: "in_flight k < 2 ^ 31"
    using assms by (simp add: snd_sorted_def)
  note out = ack_range [OF fl, of sn]
  show ?thesis
  proof (cases "?n < in_flight k")
    case True
    then have n: "?n < 2 ^ 31" using fl by simp
    have "ack_loop sn [] (k_snd_buf k) k = k\<lparr>k_snd_buf := filter (\<lambda>s. seg_sn s \<noteq> sn) (k_snd_buf k),
        k_nsnd_buf := of_nat (length (filter (\<lambda>s. seg_sn s \<noteq> sn) (k_snd_buf k)))\<rparr>"
      using assms ack_loop_filter [of "k_snd_buf k" sn ?n "snd_off k" k "[]"]
      by (simp add: snd_cmp [OF assms _ n] snd_sn_inj snd_sorted_def del: of_nat_unat)
    with True out show ?thesis by (simp add: ikcp_parse_ack_def)
  next
    case False
    then have "filter (\<lambda>s. seg_sn s \<noteq> sn) (k_snd_buf k) = k_snd_buf k"
      using assms by (intro filter_True) (auto simp: snd_sorted_def snd_off_def)
    with False out assms show ?thesis
      by (simp add: ikcp_parse_ack_def snd_sorted_def)
  qed
qed

text \<open>The cumulative acknowledgement removes what lies before \<open>una\<close>.\<close>

lemma una_loop_filter:
  assumes "\<forall>s\<in>set p. (0 < itimediff una (seg_sn s)) = (f s < (n :: nat))"
    and "sorted_wrt (\<lambda>a b. f a < f b) p"
    and "k_nsnd_buf k = of_nat (length p)" and "k_snd_buf k = p"
  shows "una_loop una p k = k\<lparr>k_snd_buf := filter (\<lambda>s. n \<le> f s) p,
    k_nsnd_buf := of_nat (length (filter (\<lambda>s. n \<le> f s) p))\<rparr>"
  using assms
proof (induction una p k rule: una_loop.induct)
  case (1 una k)
  then show ?case by simp
next
  case (2 una seg p k)
  show ?case
  proof (cases "f seg < n")
    case True
    with 2 show ?thesis by auto
  next
    case False
    then have "filter (\<lambda>s. n \<le> f s) (seg # p) = seg # p"
      using "2.prems" by (intro filter_True) fastforce
    with False "2.prems" show ?thesis by auto
  qed
qed

definition acked_by :: "ikcpcb \<Rightarrow> u32 \<Rightarrow> ikcpseg \<Rightarrow> bool" where
  "acked_by k una s \<longleftrightarrow> unat (una - k_snd_una k) < 2 ^ 31 \<and> snd_off k s < unat (una - k_snd_una k)"

lemma parse_una_eq:
  assumes "snd_inv k"
  shows "ikcp_parse_una k una = k\<lparr>k_snd_buf := filter (\<lambda>s. \<not> acked_by k una s) (k_snd_buf k),
    k_nsnd_buf := of_nat (length (filter (\<lambda>s. \<not> acked_by k una s) (k_snd_buf k)))\<rparr>"
proof (cases "unat (una - k_snd_una k) < 2 ^ 31")
  case True
  let ?n = "unat (una - k_snd_una k)"
  have k: "snd_sorted k" using assms by (simp add: snd_inv_def)
  have "una_loop una (k_snd_buf k) k = k\<lparr>k_snd_buf := filter (\<lambda>s. ?n \<le> snd_off k s) (k_snd_buf k),
      k_nsnd_buf := of_nat (length (filter (\<lambda>s. ?n \<le> snd_off k s) (k_snd_buf k)))\<rparr>"
    using k by (intro una_loop_filter) (auto simp: snd_cmp [OF k _ True] snd_sorted_def)
  with True show ?thesis by (simp add: ikcp_parse_una_def acked_by_def not_less)
next
  case False
  have "\<not> 0 < itimediff una (k_snd_una k)"
    using False itimediff_nonneg [of una "k_snd_una k"] by linarith
  then have "una_loop una (k_snd_buf k) k = k"
    using assms by (cases "k_snd_buf k") (auto simp: snd_inv_def snd_tight_def)
  with False assms show ?thesis
    by (simp add: ikcp_parse_una_def acked_by_def snd_inv_def snd_sorted_def)
qed

lemma fastack_loop_frame [simp]:
  "map seg_sn (fastack_loop sn p) = map seg_sn p" "length (fastack_loop sn p) = length p"
  "map seg_data (fastack_loop sn p) = map seg_data p" "map seg_len (fastack_loop sn p) = map seg_len p"
  by (induction p) auto
lemma fastack_loop_map:
  assumes "\<forall>s\<in>set p. (itimediff sn (seg_sn s) < 0) = (n < f s)"
    and "\<forall>s\<in>set p. (seg_sn s = sn) = (f s = (n :: nat))"
    and "sorted_wrt (\<lambda>a b. f a < f b) p"
  shows "fastack_loop sn p =
    map (\<lambda>s. if f s < n then s\<lparr>seg_fastack := seg_fastack s + 1\<rparr> else s) p"
  using assms
proof (induction sn p rule: fastack_loop.induct)
  case (1 sn)
  then show ?case by simp
next
  case (2 sn seg p)
  show ?case
  proof (cases "n < f seg")
    case True
    then have "map (\<lambda>s. if f s < n then s\<lparr>seg_fastack := seg_fastack s + 1\<rparr> else s) p = p"
      using "2.prems" by (intro map_idI) fastforce
    with True "2.prems" show ?thesis by auto
  next
    case False
    with 2 show ?thesis by auto
  qed
qed

text \<open>Every segment sent before the highest one acknowledged counts one more skip.\<close>

lemma parse_fastack_eq:
  assumes "snd_sorted k" and "n = unat (sn - k_snd_una k)"
  shows "ikcp_parse_fastack k sn ts = k\<lparr>k_snd_buf := map (\<lambda>s. if n < in_flight k \<and> snd_off k s < n
    then s\<lparr>seg_fastack := seg_fastack s + 1\<rparr> else s) (k_snd_buf k)\<rparr>"
proof -
  have fl: "in_flight k < 2 ^ 31"
    using assms(1) by (simp add: snd_sorted_def)
  note out = ack_range [OF fl, of sn]
  show ?thesis
  proof (cases "n < in_flight k")
    case True
    then have n: "unat (sn - k_snd_una k) < 2 ^ 31" using fl assms(2) by simp
    have "fastack_loop sn (k_snd_buf k) =
        map (\<lambda>s. if snd_off k s < n then s\<lparr>seg_fastack := seg_fastack s + 1\<rparr> else s) (k_snd_buf k)"
      using assms
      by (intro fastack_loop_map) (auto simp: snd_cmp [OF assms(1) _ n] snd_sn_inj snd_sorted_def
          simp del: of_nat_unat)
    with True out assms(2) show ?thesis by (simp add: ikcp_parse_fastack_def)
  next
    case False
    with out assms(2) show ?thesis by (simp add: ikcp_parse_fastack_def)
  qed
qed

lemma parse_fastack_inv [inv_intros]: "snd_inv k \<Longrightarrow> snd_inv (ikcp_parse_fastack k sn ts)"
proof -
  assume k: "snd_inv k"
  then have *: "snd_sorted k" by (simp add: snd_inv_def)
  define g where "g = (\<lambda>s. if unat (sn - k_snd_una k) < in_flight k \<and> snd_off k s < unat (sn - k_snd_una k)
    then s\<lparr>seg_fastack := seg_fastack s + 1\<rparr> else s)"
  have sn: "seg_sn (g s) = seg_sn s" for s by (simp add: g_def)
  have "ikcp_parse_fastack k sn ts = k\<lparr>k_snd_buf := map g (k_snd_buf k)\<rparr>"
    unfolding g_def by (rule parse_fastack_eq [OF * refl])
  with k show ?thesis
    by (cases "k_snd_buf k")
       (auto simp: snd_inv_def snd_sorted_def snd_tight_def snd_off_def in_flight_def sn sorted_wrt_map)
qed

section \<open>The acknowledgement list\<close>

definition acks :: "ikcpcb \<Rightarrow> (u32 \<times> u32) list" where
  "acks k = map (ikcp_ack_get k) [0..<unat (k_ackcount k)]"

definition acks_ok :: "ikcpcb \<Rightarrow> bool" where
  "acks_ok k \<longleftrightarrow> length (k_acklist k) = 2 * unat (k_ackblock k) \<and> k_ackcount k \<le> k_ackblock k"

lemma ack_grow_total:
  assumes "unat newsize \<le> 2 ^ 31" and "j \<le> 31"
  shows "\<exists>b. ack_grow (2 ^ j) newsize = Some b \<and> newsize \<le> b \<and> unat b \<le> 2 ^ 31"
  using assms(2)
proof (induction "31 - j" arbitrary: j)
  case 0
  then have j: "j = 31" by simp
  have "newsize \<le> 2 ^ 31"
    using assms(1) by (simp add: word_le_nat_alt)
  then show ?case
    by (subst ack_grow.simps) (simp add: j leD)
next
  case (Suc d)
  then have j: "j < 31" by simp
  show ?case
  proof (cases "(2 ^ j :: u32) < newsize")
    case True
    have "push_bit 1 (2 ^ j :: u32) = 2 ^ Suc j"
      by (simp add: push_bit_eq_mult)
    moreover have "\<exists>b. ack_grow (2 ^ Suc j) newsize = Some b \<and> newsize \<le> b \<and> unat b \<le> 2 ^ 31"
      using Suc by (intro Suc.hyps) simp_all
    ultimately show ?thesis
      using True by (subst ack_grow.simps) (simp add: mult.commute)
  next
    case False
    have "(2 :: nat) ^ j < 2 ^ 32"
      using j by (intro power_strict_increasing) simp_all
    then have "unat (of_nat (2 ^ j) :: u32) = 2 ^ j"
      by (simp only: unat_of_nat) simp
    then have "unat (2 ^ j :: u32) = 2 ^ j" by simp
    moreover have "(2 :: nat) ^ j \<le> 2 ^ 31"
      using j by (intro power_increasing) simp_all
    ultimately show ?thesis
      using False by (subst ack_grow.simps) (simp add: leD)
  qed
qed

lemma ack_room_total:
  assumes k: "acks_ok k" and n: "unat (k_ackcount k) < 2 ^ 31"
  shows "\<exists>l b. ack_room k = Some (k\<lparr>k_acklist := l, k_ackblock := b\<rparr>) \<and>
    length l = 2 * unat b \<and> unat (k_ackcount k) < unat b \<and>
    take (2 * unat (k_ackcount k)) l = take (2 * unat (k_ackcount k)) (k_acklist k)"
proof -
  define c where "c = unat (k_ackcount k)"
  have size: "unat (k_ackcount k + 1) = c + 1"
    using n by (simp add: c_def unat_word_ariths)
  have len: "2 * c \<le> length (k_acklist k)"
    using k by (simp add: acks_ok_def c_def word_le_nat_alt)
  show ?thesis
  proof (cases "k_ackcount k + 1 > k_ackblock k")
    case True
    obtain b where b: "ack_grow (2 ^ 3) (k_ackcount k + 1) = Some b" "k_ackcount k + 1 \<le> b"
      using ack_grow_total [of "k_ackcount k + 1" 3] size n by (auto simp: c_def)
    then have "c < unat b"
      using size by (simp add: word_le_nat_alt)
    with True b(1) len show ?thesis
      by (intro exI [of _ "take (2 * c) (k_acklist k) @ replicate (2 * unat b - 2 * c) 0"] exI [of _ b])
         (simp add: ack_room_def c_def mult.commute Let_def)
  next
    case False
    then have "c < unat (k_ackblock k)"
      using size by (simp add: word_le_nat_alt not_less)
    with False k show ?thesis
      by (intro exI [of _ "k_acklist k"] exI [of _ "k_ackblock k"])
         (simp add: ack_room_def c_def acks_ok_def)
  qed
qed

lemma ack_push_total:
  assumes k: "acks_ok k" and n: "unat (k_ackcount k) < 2 ^ 31"
  shows "\<exists>l b. ikcp_ack_push k sn ts =
      Some (k\<lparr>k_acklist := l, k_ackblock := b, k_ackcount := k_ackcount k + 1\<rparr>) \<and>
    acks (k\<lparr>k_acklist := l, k_ackblock := b, k_ackcount := k_ackcount k + 1\<rparr>) = acks k @ [(sn, ts)] \<and>
    acks_ok (k\<lparr>k_acklist := l, k_ackblock := b, k_ackcount := k_ackcount k + 1\<rparr>)"
proof -
  define c where "c = unat (k_ackcount k)"
  have size: "unat (k_ackcount k + 1) = c + 1"
    using n by (simp add: c_def unat_word_ariths)
  obtain l b where r: "ack_room k = Some (k\<lparr>k_acklist := l, k_ackblock := b\<rparr>)"
    and l: "length l = 2 * unat b" "c < unat b" "take (2 * c) l = take (2 * c) (k_acklist k)"
    using ack_room_total [OF assms] by (auto simp: c_def)
  let ?l = "l[c * 2 := sn, c * 2 + 1 := ts]"
  let ?k = "k\<lparr>k_acklist := ?l, k_ackblock := b, k_ackcount := k_ackcount k + 1\<rparr>"
  have push: "ikcp_ack_push k sn ts = Some ?k"
    by (simp add: ikcp_ack_push_def r c_def Let_def)
  have "2 * c \<le> length (k_acklist k)"
    using k by (simp add: acks_ok_def c_def word_le_nat_alt)
  then have old: "l ! i = k_acklist k ! i" if "i < 2 * c" for i
    using that l nth_take [of i "2 * c" l] nth_take [of i "2 * c" "k_acklist k"] by simp
  have "acks ?k = acks k @ [(sn, ts)]"
    using l old by (auto simp: acks_def size ikcp_ack_get_def c_def [symmetric] nth_list_update)
  moreover have "acks_ok ?k"
    using l size by (simp add: acks_ok_def word_le_nat_alt)
  ultimately show ?thesis
    using push by blast
qed

section \<open>Properties\<close>

text \<open>the round-trip estimator.  As long as the times involved stay below \<open>2^27\<close> ms (37 hours)
  the wrapping, partly unsigned arithmetic of \<open>ikcp_update_ack\<close> is the exact smoothing
  \<open>srtt = (7 srtt + rtt) / 8\<close>, \<open>rttval = (3 rttval + |rtt - srtt|) / 4\<close> with its special first
  sample, the new timeout is \<open>srtt + max interval (4 rttval)\<close> clamped between \<open>rx_minrto\<close> and 60
  seconds, and the estimates stay below the bound, so nothing ever overflows.\<close>
theorem update_ack_spec:
  assumes "rtt_range rtt" and "rtt_range (k_rx_srtt k)" and "rtt_range (k_rx_rttval k)"
    and "unat (k_interval k) \<le> 5000" and "0 \<le> k_rx_minrto k" and "k_rx_minrto k \<le> 60000"
    and srtt: "srtt = (if k_rx_srtt k = 0 then rtt else max 1 ((7 * k_rx_srtt k + rtt) div 8))"
    and rttval: "rttval = (if k_rx_srtt k = 0 then rtt div 2 else (3 * k_rx_rttval k + \<bar>rtt - k_rx_srtt k\<bar>) div 4)"
  shows "ikcp_update_ack k rtt = k\<lparr>k_rx_srtt := srtt, k_rx_rttval := rttval,
      k_rx_rto := min (max (k_rx_minrto k) (srtt + max (int (unat (k_interval k))) (4 * rttval))) 60000\<rparr> \<and>
    rtt_range srtt \<and> rtt_range rttval"
proof -
  have r: "rtt_range srtt" "rtt_range rttval"
    using assms by (auto simp: rtt_range_def)
  have k: "update_srtt k rtt = k\<lparr>k_rx_srtt := srtt, k_rx_rttval := rttval\<rparr>"
    unfolding update_srtt_ideal [OF assms(1-3)] srtt rttval by simp
  let ?m = "max (unat (k_interval k)) (nat (4 * rttval))"
  have w: "wrap32 (4 * rttval) = 4 * rttval"
    using r by (intro wrap32_id) (simp add: int_range_def rtt_range_def)
  have m: "unat (imax (k_interval k) (u32 (4 * rttval))) = ?m"
    using r by (simp add: unat_imax unat_u32 rtt_range_def)
  have s: "unat (u32 srtt) = nat srtt"
    using r by (simp add: unat_u32 rtt_range_def)
  have sum: "unat (u32 srtt + imax (k_interval k) (u32 (4 * rttval))) = nat srtt + ?m"
    using r assms(4) unfolding unat_word_ariths m s by (auto simp: rtt_range_def)
  have lo: "unat (u32 (k_rx_minrto k)) = nat (k_rx_minrto k)"
    using assms by (simp add: unat_u32)
  have "i32 (ibound (u32 (k_rx_minrto k)) (u32 srtt + imax (k_interval k) (u32 (4 * rttval))) 60000) =
      min (max (k_rx_minrto k) (srtt + max (int (unat (k_interval k))) (4 * rttval))) 60000"
    using r assms(5,6)
    by (subst i32_small) (auto simp: unat_ibound sum lo rtt_range_def of_nat_min of_nat_max simp del: of_nat_unat)
  with r show ?thesis
    by (simp add: ikcp_update_ack_def k w Let_def del: of_nat_unat)
qed


theorem update_ack_spec_witness:
  "k_rx_rto (ikcp_update_ack (ikcp_init 9) 40) = 140 \<and> k_rx_srtt (ikcp_update_ack (ikcp_init 9) 40) = 40"
  using update_ack_spec [of 40 "ikcp_init 9", OF _ _ _ _ _ _ refl refl]
  by (simp add: rtt_range_def ikcp_init_def)

text \<open>the timeout is always in range: whatever the sample and the state (overflows included),
  \<open>ikcp_update_ack\<close> leaves a retransmission timeout between \<open>rx_minrto\<close> and 60 seconds.\<close>
theorem rto_range:
  assumes "0 \<le> k_rx_minrto k" and "k_rx_minrto k \<le> 60000"
  shows "k_rx_minrto k \<le> k_rx_rto (ikcp_update_ack k rtt) \<and> k_rx_rto (ikcp_update_ack k rtt) \<le> 60000"
proof -
  have "k_rx_minrto (update_srtt k rtt) = k_rx_minrto k"
    by (simp add: update_srtt_def Let_def)
  moreover have "unat (u32 (k_rx_minrto k)) = nat (k_rx_minrto k)"
    using assms by (simp add: unat_u32)
  ultimately show ?thesis
    using assms
    by (simp add: ikcp_update_ack_def Let_def i32_small unat_ibound  del: of_nat_unat)
qed

theorem rto_range_witness:
  "100 \<le> k_rx_rto (ikcp_update_ack (ikcp_init 9) (-5)) \<and> k_rx_rto (ikcp_update_ack (ikcp_init 9) (-5)) \<le> 60000"
  using rto_range [of "ikcp_init 9" "-5"] by (simp add: ikcp_init_def)

definition demo_ack :: ikcpcb where
  "demo_ack = (ikcp_init 9)\<lparr>k_snd_una := 4294967295, k_snd_nxt := 2, k_nsnd_buf := 3,
     k_snd_buf := [demo_seg [1] 4294967295, demo_seg [2] 0, demo_seg [3] 1]\<rparr>"

lemma demo_ack_inv: "snd_inv demo_ack"
  by (simp add: demo_ack_def ikcp_init_def snd_inv_def snd_sorted_def snd_tight_def snd_off_def
      in_flight_def demo_seg_def)

text \<open>C15: acknowledgement processing.  From a send buffer that is in order with \<open>snd_una\<close> first, the
  cumulative acknowledgement \<open>una\<close> and the single one \<open>sn\<close> (with the two updates of \<open>snd_una\<close>, as
  \<open>ikcp_input\<close> runs them) remove exactly the segments they acknowledge and no other, whatever the
  values a peer sends and whatever the wrap-around; counter, order and \<open>snd_una\<close> are right again.\<close>
theorem ack_spec:
  assumes "snd_inv k"
    and "k1 = ikcp_shrink_buf (ikcp_parse_una k una)" and "k2 = ikcp_shrink_buf (ikcp_parse_ack k1 sn)"
  shows "k_snd_buf k2 = filter (\<lambda>s. \<not> acked_by k una s \<and> seg_sn s \<noteq> sn) (k_snd_buf k) \<and>
    k_snd_nxt k2 = k_snd_nxt k \<and> snd_inv k1 \<and> snd_inv k2"
proof -
  have k1: "snd_inv k1"
    unfolding assms(2) parse_una_eq [OF assms(1)]
    using assms(1) by (intro shrink_inv snd_sorted_sub [OF _ refl]) (simp add: snd_inv_def)
  then have s1: "snd_sorted k1" by (simp add: snd_inv_def)
  have "snd_inv k2"
    unfolding assms(3) parse_ack_eq [OF s1]
    using s1 by (intro shrink_inv snd_sorted_sub [OF _ refl])
  with k1 show ?thesis
    unfolding assms(3) parse_ack_eq [OF s1]
    by (simp add: frame_simps assms(2) parse_una_eq [OF assms(1)] conj_commute)
qed

theorem ack_spec_witness:
  "map seg_sn (k_snd_buf (ikcp_shrink_buf (ikcp_parse_ack (ikcp_shrink_buf (ikcp_parse_una demo_ack 0)) 1))) = [0]"
  using ack_spec [OF demo_ack_inv refl refl, of 0 1]
  by (simp add: demo_ack_def ikcp_init_def acked_by_def snd_off_def demo_seg_def)

text \<open>skip counts.  If \<open>sn\<close> is in flight, exactly the segments sent before it that are still
  unacknowledged count one more skip; otherwise nothing changes.  The invariant of the send
  buffer is kept.\<close>
theorem fastack_spec:
  assumes "snd_inv k" and "n = unat (sn - k_snd_una k)"
  shows "ikcp_parse_fastack k sn ts = k\<lparr>k_snd_buf := map (\<lambda>s. if n < in_flight k \<and> snd_off k s < n
      then s\<lparr>seg_fastack := seg_fastack s + 1\<rparr> else s) (k_snd_buf k)\<rparr> \<and>
    snd_inv (ikcp_parse_fastack k sn ts)"
  using assms parse_fastack_eq [of k n sn ts] parse_fastack_inv [of k sn ts] by (simp add: snd_inv_def)

theorem fastack_spec_witness:
  "map seg_fastack (k_snd_buf (ikcp_parse_fastack demo_ack 1 0)) = [1, 1, 0]"
  using fastack_spec [OF demo_ack_inv refl, of 1 0]
  by (simp add: demo_ack_def ikcp_init_def in_flight_def snd_off_def demo_seg_def)

text \<open>the acknowledgement list.  Below \<open>2^31\<close> pending acknowledgements (16 GB of them) the
  doubling loop of \<open>ikcp_ack_push\<close> ends, the array is big enough for the pair that is written, and
  the pairs read back with \<open>ikcp_ack_get\<close> are the earlier ones followed by the new one: growing
  loses nothing.\<close>
theorem ack_push_spec:
  assumes "acks_ok k" and "unat (k_ackcount k) < 2 ^ 31"
  shows "\<exists>k'. ikcp_ack_push k sn ts = Some k' \<and> acks k' = acks k @ [(sn, ts)] \<and> acks_ok k' \<and>
    k_ackcount k' = k_ackcount k + 1"
  using ack_push_total [OF assms, of sn ts] by auto

theorem ack_push_spec_witness:
  "\<exists>k'. ikcp_ack_push (ikcp_init 9) 5 77 = Some k' \<and> acks k' = [(5, 77)] \<and> acks_ok k' \<and>
    k_ackcount k' = 1"
  using ack_push_spec [of "ikcp_init 9" 5 77] by (simp add: acks_ok_def acks_def ikcp_init_def)

end
