(* ===== verification/Kcp_Input.thy ===== *)
theory Kcp_Input
  imports Kcp_Recv Kcp_Ack
begin

text \<open>
  \<open>ikcp_input\<close> (\<open>ikcp.c\<close>, lines 828--997): the parsing loop over a received datagram, the handling
  of the four commands, and the growth of the congestion window.
\<close>

section \<open>One segment\<close>

text \<open>What every accepted segment carries: the peer's window and its cumulative acknowledgement.\<close>

definition input_common :: "ikcpcb \<Rightarrow> ikcphdr \<Rightarrow> ikcpcb" where
  "input_common k h =
     ikcp_shrink_buf (ikcp_parse_una (k\<lparr>k_rmt_wnd := ucast (h_wnd h)\<rparr>) (h_una h))"

definition input_ack :: "ikcpcb \<Rightarrow> ikcphdr \<Rightarrow> ikcpcb" where
  "input_ack k h =
    (let rtt = itimediff (k_current k) (h_ts h);
         k = (if rtt \<ge> 0 then ikcp_update_ack k rtt else k)
     in ikcp_shrink_buf (ikcp_parse_ack k (h_sn h)))"

text \<open>The local \<open>flag\<close>, \<open>maxack\<close> and \<open>latest_ts\<close>: the highest sequence number acknowledged.\<close>

type_synonym ackmark = "bool \<times> u32 \<times> u32"

fun mark_ack :: "ackmark \<Rightarrow> ikcphdr \<Rightarrow> ackmark" where
  "mark_ack (flag, maxack, latest_ts) h =
    (if \<not> flag then (True, h_sn h, h_ts h)
     else if itimediff (h_sn h) maxack > 0 then (flag, h_sn h, h_ts h)
     else (flag, maxack, latest_ts))"

definition hdr_seg :: "ikcphdr \<Rightarrow> u8 list \<Rightarrow> ikcpseg" where
  "hdr_seg h d = \<lparr>seg_conv = h_conv h, seg_cmd = ucast (h_cmd h), seg_frg = ucast (h_frg h),
     seg_wnd = ucast (h_wnd h), seg_ts = h_ts h, seg_sn = h_sn h, seg_una = h_una h,
     seg_len = h_len h, seg_resendts = 0, seg_rto = 0, seg_fastack = 0, seg_xmit = 0, seg_data = d\<rparr>"

definition input_push :: "ikcpcb \<Rightarrow> ikcphdr \<Rightarrow> u8 list \<Rightarrow> ikcpcb option" where
  "input_push k h d =
    (if itimediff (h_sn h) (k_rcv_nxt k + k_rcv_wnd k) < 0 then
       (case ikcp_ack_push k (h_sn h) (h_ts h) of None \<Rightarrow> None
        | Some k \<Rightarrow>
            if itimediff (h_sn h) (k_rcv_nxt k) \<ge> 0 then Some (ikcp_parse_data k (hdr_seg h d))
            else Some k)
     else Some k)"

definition known_cmd :: "u8 \<Rightarrow> bool" where
  "known_cmd c \<longleftrightarrow> ucast c = IKCP_CMD_PUSH \<or> ucast c = IKCP_CMD_ACK \<or> ucast c = IKCP_CMD_WASK \<or>
     ucast c = IKCP_CMD_WINS"

text \<open>\<open>None\<close> is the endless loop of \<open>ikcp_ack_push\<close>.\<close>

definition input_seg :: "ikcpcb \<times> ackmark \<Rightarrow> ikcphdr \<times> u8 list \<Rightarrow> (ikcpcb \<times> ackmark) option" where
  "input_seg km u =
    (let (k, m) = km; (h, d) = u; k = input_common k h in
     if ucast (h_cmd h) = IKCP_CMD_ACK then Some (input_ack k h, mark_ack m h)
     else if ucast (h_cmd h) = IKCP_CMD_PUSH then map_option (\<lambda>k. (k, m)) (input_push k h d)
     else if ucast (h_cmd h) = IKCP_CMD_WASK then Some (k\<lparr>k_probe := k_probe k OR IKCP_ASK_TELL\<rparr>, m)
     else Some (k, m))"

section \<open>The datagram\<close>

lemma decode_hdr_length: "ikcp_decode_hdr data = Some (h, rest) \<Longrightarrow> length data = length rest + 24"
  by (auto simp: ikcp_decode_hdr_def split: bind_splits elim!: ikcp_decode32u.elims ikcp_decode16u.elims
      ikcp_decode8u.elims)

function input_loop :: "ikcpcb \<times> ackmark \<Rightarrow> u8 list \<Rightarrow> (int \<times> ikcpcb \<times> ackmark) option" where
  "input_loop km data =
    (if length data < unat IKCP_OVERHEAD then Some (0, km)
     else
       case ikcp_decode_hdr data of None \<Rightarrow> None
       | Some (h, data) \<Rightarrow>
           if h_conv h \<noteq> k_conv (fst km) then Some (-1, km)
           else if length data < unat (h_len h) \<or> i32 (h_len h) < 0 then Some (-2, km)
           else if \<not> known_cmd (h_cmd h) then Some (-3, km)
           else
             case input_seg km (h, take (unat (h_len h)) data) of None \<Rightarrow> None
             | Some km \<Rightarrow> input_loop km (drop (unat (h_len h)) data))"
  by pat_completeness auto
termination
  by (relation "measure (\<lambda>(km, data). length data)") (auto dest!: decode_hdr_length)

declare input_loop.simps [simp del]

section \<open>The congestion window\<close>

definition grow_cwnd :: "ikcpcb \<Rightarrow> ikcpcb" where
  "grow_cwnd k =
    (if k_cwnd k < k_rmt_wnd k then
       let mss = k_mss k;
           k = (if k_cwnd k < k_ssthresh k
                then k\<lparr>k_cwnd := k_cwnd k + 1, k_incr := k_incr k + mss\<rparr>
                else
                  let k = (if k_incr k < mss then k\<lparr>k_incr := mss\<rparr> else k);
                      k = k\<lparr>k_incr := k_incr k + ((mss * mss) div k_incr k + mss div 16)\<rparr>
                  in if (k_cwnd k + 1) * mss \<le> k_incr k
                     then k\<lparr>k_cwnd := (k_incr k + mss - 1) div (if mss > 0 then mss else 1)\<rparr>
                     else k)
       in if k_cwnd k > k_rmt_wnd k
          then k\<lparr>k_cwnd := k_rmt_wnd k, k_incr := k_rmt_wnd k * mss\<rparr> else k
     else k)"

definition ikcp_input :: "ikcpcb \<Rightarrow> u8 list \<Rightarrow> (int \<times> ikcpcb) option" where
  "ikcp_input k data =
    (let prev_una = k_snd_una k in
     if wrap32 (int (length data)) < i32 IKCP_OVERHEAD then Some (-1, k)
     else
       case input_loop (k, False, 0, 0) data of None \<Rightarrow> None
       | Some (r, k, flag, maxack, latest_ts) \<Rightarrow>
           if r \<noteq> 0 then Some (r, k)
           else
             let k = (if flag then ikcp_parse_fastack k maxack latest_ts else k);
                 k = (if itimediff (k_snd_una k) prev_una > 0 then grow_cwnd k else k)
             in Some (0, k))"

section \<open>The invariant of a connection\<close>

definition conn_inv :: "ikcpcb \<Rightarrow> bool" where
  "conn_inv k \<longleftrightarrow> snd_inv k \<and> rcv_inv k \<and> acks_ok k"

text \<open>Each part of the invariant reads a few fields only.\<close>

lemma rcv_inv_update [frame_simps]:
  "rcv_inv (k\<lparr>k_rmt_wnd := w\<rparr>) = rcv_inv k" "rcv_inv (k\<lparr>k_snd_una := w\<rparr>) = rcv_inv k"
  "rcv_inv (k\<lparr>k_snd_buf := b\<rparr>) = rcv_inv k" "rcv_inv (k\<lparr>k_nsnd_buf := w\<rparr>) = rcv_inv k"
  "rcv_inv (k\<lparr>k_rx_srtt := i\<rparr>) = rcv_inv k" "rcv_inv (k\<lparr>k_rx_rttval := i\<rparr>) = rcv_inv k"
  "rcv_inv (k\<lparr>k_rx_rto := i\<rparr>) = rcv_inv k" "rcv_inv (k\<lparr>k_probe := w\<rparr>) = rcv_inv k"
  "rcv_inv (k\<lparr>k_acklist := l\<rparr>) = rcv_inv k" "rcv_inv (k\<lparr>k_ackcount := w\<rparr>) = rcv_inv k"
  "rcv_inv (k\<lparr>k_ackblock := w\<rparr>) = rcv_inv k" "rcv_inv (k\<lparr>k_cwnd := w\<rparr>) = rcv_inv k"
  "rcv_inv (k\<lparr>k_incr := w\<rparr>) = rcv_inv k"
  by (simp_all add: rcv_inv_def rcv_sorted_def rcv_counts_def rcv_drained_def rcv_off_def)

lemma snd_inv_update [frame_simps]:
  "snd_inv (k\<lparr>k_rmt_wnd := w\<rparr>) = snd_inv k" "snd_inv (k\<lparr>k_probe := w\<rparr>) = snd_inv k"
  "snd_inv (k\<lparr>k_rx_srtt := i\<rparr>) = snd_inv k" "snd_inv (k\<lparr>k_rx_rttval := i\<rparr>) = snd_inv k"
  "snd_inv (k\<lparr>k_rx_rto := i\<rparr>) = snd_inv k" "snd_inv (k\<lparr>k_acklist := l\<rparr>) = snd_inv k"
  "snd_inv (k\<lparr>k_ackcount := w\<rparr>) = snd_inv k" "snd_inv (k\<lparr>k_ackblock := w\<rparr>) = snd_inv k"
  "snd_inv (k\<lparr>k_rcv_buf := b\<rparr>) = snd_inv k" "snd_inv (k\<lparr>k_nrcv_buf := w\<rparr>) = snd_inv k"
  "snd_inv (k\<lparr>k_rcv_queue := b\<rparr>) = snd_inv k" "snd_inv (k\<lparr>k_nrcv_que := w\<rparr>) = snd_inv k"
  "snd_inv (k\<lparr>k_rcv_nxt := w\<rparr>) = snd_inv k" "snd_inv (k\<lparr>k_cwnd := w\<rparr>) = snd_inv k"
  "snd_inv (k\<lparr>k_incr := w\<rparr>) = snd_inv k"
  by (simp_all add: snd_inv_def snd_sorted_def snd_tight_def snd_off_def in_flight_def cong: list.case_cong)

lemma acks_ok_update [frame_simps]:
  "acks_ok (k\<lparr>k_rmt_wnd := w\<rparr>) = acks_ok k" "acks_ok (k\<lparr>k_snd_una := w\<rparr>) = acks_ok k"
  "acks_ok (k\<lparr>k_snd_buf := b\<rparr>) = acks_ok k" "acks_ok (k\<lparr>k_nsnd_buf := w\<rparr>) = acks_ok k"
  "acks_ok (k\<lparr>k_rx_srtt := i\<rparr>) = acks_ok k" "acks_ok (k\<lparr>k_rx_rttval := i\<rparr>) = acks_ok k"
  "acks_ok (k\<lparr>k_rx_rto := i\<rparr>) = acks_ok k" "acks_ok (k\<lparr>k_probe := w\<rparr>) = acks_ok k"
  "acks_ok (k\<lparr>k_rcv_buf := b\<rparr>) = acks_ok k" "acks_ok (k\<lparr>k_nrcv_buf := w\<rparr>) = acks_ok k"
  "acks_ok (k\<lparr>k_rcv_queue := b\<rparr>) = acks_ok k" "acks_ok (k\<lparr>k_nrcv_que := w\<rparr>) = acks_ok k"
  "acks_ok (k\<lparr>k_rcv_nxt := w\<rparr>) = acks_ok k" "acks_ok (k\<lparr>k_cwnd := w\<rparr>) = acks_ok k"
  "acks_ok (k\<lparr>k_incr := w\<rparr>) = acks_ok k"
  by (simp_all add: acks_ok_def)

text \<open>The fields each operation writes.\<close>

lemma una_loop_writes: "\<exists>b n. una_loop una p k = k\<lparr>k_snd_buf := b, k_nsnd_buf := n\<rparr>"
proof (induction una p k rule: una_loop.induct)
  case (1 una k)
  then show ?case by (intro exI [of _ "k_snd_buf k"] exI [of _ "k_nsnd_buf k"]) simp
next
  case (2 una seg p k)
  show ?case
  proof (cases "itimediff una (seg_sn seg) > 0")
    case True
    with 2 show ?thesis by auto
  next
    case False
    then show ?thesis by (intro exI [of _ "k_snd_buf k"] exI [of _ "k_nsnd_buf k"]) simp
  qed
qed

lemma ack_loop_writes: "\<exists>b n. ack_loop sn pre p k = k\<lparr>k_snd_buf := b, k_nsnd_buf := n\<rparr>"
proof -
  have same: "\<exists>b n. k = k\<lparr>k_snd_buf := b, k_nsnd_buf := n\<rparr>"
    by (intro exI [of _ "k_snd_buf k"] exI [of _ "k_nsnd_buf k"]) simp
  show ?thesis
    using same by (induction sn pre p k rule: ack_loop.induct) (simp_all, blast)
qed

lemma parse_ack_writes: "\<exists>b n. ikcp_parse_ack k sn = k\<lparr>k_snd_buf := b, k_nsnd_buf := n\<rparr>"
proof (cases "itimediff sn (k_snd_una k) < 0 \<or> itimediff sn (k_snd_nxt k) \<ge> 0")
  case True
  then show ?thesis
    by (intro exI [of _ "k_snd_buf k"] exI [of _ "k_nsnd_buf k"]) (simp add: ikcp_parse_ack_def)
next
  case False
  with ack_loop_writes [of sn "[]" "k_snd_buf k" k] show ?thesis
    by (simp add: ikcp_parse_ack_def)
qed

lemma shrink_writes: "\<exists>u. ikcp_shrink_buf k = k\<lparr>k_snd_una := u\<rparr>"
  by (auto simp: ikcp_shrink_buf_def split: list.splits)

lemma update_ack_writes:
  "\<exists>a b c. ikcp_update_ack k rtt = k\<lparr>k_rx_srtt := a, k_rx_rttval := b, k_rx_rto := c\<rparr>"
  by (auto simp: ikcp_update_ack_def update_srtt_def Let_def)

lemma parse_data_writes:
  "\<exists>b n q m x. ikcp_parse_data k s = k\<lparr>k_rcv_buf := b, k_nrcv_buf := n, k_rcv_queue := q,
     k_nrcv_que := m, k_rcv_nxt := x\<rparr>"
proof (cases "in_window k (seg_sn s)")
  case True
  then show ?thesis
    by (cases "insert_loop s (rev (k_rcv_buf k))")
       (simp_all add: parse_data_eq insert_buf_def move_loop_eq Let_def, (intro exI, rule refl)+)
next
  case False
  then show ?thesis
    by (intro exI [of _ "k_rcv_buf k"] exI [of _ "k_nrcv_buf k"] exI [of _ "k_rcv_queue k"]
        exI [of _ "k_nrcv_que k"] exI [of _ "k_rcv_nxt k"]) (simp add: parse_data_eq)
qed

lemma grow_cwnd_writes: "\<exists>c i. grow_cwnd k = k\<lparr>k_cwnd := c, k_incr := i\<rparr>"
proof -
  define P where "P j \<longleftrightarrow> (\<exists>c i. j = k\<lparr>k_cwnd := c, k_incr := i\<rparr>)" for j
  have base: "P k"
    unfolding P_def by (intro exI [of _ "k_cwnd k"] exI [of _ "k_incr k"]) simp
  have comm: "k\<lparr>k_incr := i, k_cwnd := x\<rparr> = k\<lparr>k_cwnd := x, k_incr := i\<rparr>" for i x
    by simp
  have cwnd: "P (j\<lparr>k_cwnd := x\<rparr>)" and incr: "P (j\<lparr>k_incr := x\<rparr>)" if "P j" for j x
    using that unfolding P_def by (auto simp: comm, blast+)
  have cond: "P (if b then x else y)" if "P x" "P y" for b x y
    using that by simp
  have "P (grow_cwnd k)"
    unfolding grow_cwnd_def Let_def by (intro cond cwnd incr base)
  then show ?thesis by (simp add: P_def)
qed

text \<open>Every step of \<open>ikcp_input\<close> keeps the invariant.\<close>

lemma parse_una_shrink_inv:
  assumes "conn_inv k"
  shows "conn_inv (ikcp_shrink_buf (ikcp_parse_una k una))"
proof -
  have s: "snd_inv k" using assms by (simp add: conn_inv_def)
  then have "snd_inv (ikcp_shrink_buf (ikcp_parse_una k una))"
    unfolding parse_una_eq [OF s]
    by (intro shrink_inv snd_sorted_sub [OF _ refl]) (simp add: snd_inv_def)
  moreover obtain b n u where "ikcp_shrink_buf (ikcp_parse_una k una) =
      k\<lparr>k_snd_buf := b, k_nsnd_buf := n, k_snd_una := u\<rparr>"
    using una_loop_writes [of una "k_snd_buf k" k] shrink_writes [of "ikcp_parse_una k una"]
    by (auto simp: ikcp_parse_una_def)
  ultimately show ?thesis
    using assms by (simp add: conn_inv_def frame_simps)
qed

lemma parse_ack_shrink_inv:
  assumes "conn_inv k"
  shows "conn_inv (ikcp_shrink_buf (ikcp_parse_ack k sn))"
proof -
  have s: "snd_sorted k" using assms by (simp add: conn_inv_def snd_inv_def)
  then have "snd_inv (ikcp_shrink_buf (ikcp_parse_ack k sn))"
    unfolding parse_ack_eq [OF s] by (intro shrink_inv snd_sorted_sub [OF _ refl])
  moreover obtain b n u where "ikcp_shrink_buf (ikcp_parse_ack k sn) =
      k\<lparr>k_snd_buf := b, k_nsnd_buf := n, k_snd_una := u\<rparr>"
    using parse_ack_writes [of k sn] shrink_writes [of "ikcp_parse_ack k sn"] by auto
  ultimately show ?thesis
    using assms by (simp add: conn_inv_def frame_simps)
qed

lemma update_ack_inv: "conn_inv k \<Longrightarrow> conn_inv (ikcp_update_ack k rtt)"
  using update_ack_writes [of k rtt] by (auto simp: conn_inv_def frame_simps)

lemma input_common_inv [inv_intros]: "conn_inv k \<Longrightarrow> conn_inv (input_common k h)"
  unfolding input_common_def by (rule parse_una_shrink_inv) (simp add: conn_inv_def frame_simps)

lemma input_ack_inv [inv_intros]: "conn_inv k \<Longrightarrow> conn_inv (input_ack k h)"
  by (simp add: input_ack_def Let_def parse_ack_shrink_inv update_ack_inv)

lemma parse_data_inv: "conn_inv k \<Longrightarrow> conn_inv (ikcp_parse_data k s)"
proof -
  assume k: "conn_inv k"
  then have "rcv_inv (ikcp_parse_data k s)"
    by (intro rcv_inv_parse_data) (simp add: conn_inv_def)
  with k parse_data_writes [of k s] show ?thesis
    by (auto simp: conn_inv_def frame_simps)
qed

lemma parse_data_ackcount [frame_simps]: "k_ackcount (ikcp_parse_data k s) = k_ackcount k"
  using parse_data_writes [of k s] by auto

lemma input_push_inv:
  assumes k: "conn_inv k" and n: "unat (k_ackcount k) < 2 ^ 31"
  shows "\<exists>k'. input_push k h d = Some k' \<and> conn_inv k' \<and> unat (k_ackcount k') \<le> unat (k_ackcount k) + 1"
proof -
  obtain l b where p: "ikcp_ack_push k (h_sn h) (h_ts h) =
      Some (k\<lparr>k_acklist := l, k_ackblock := b, k_ackcount := k_ackcount k + 1\<rparr>)"
    and ok: "acks_ok (k\<lparr>k_acklist := l, k_ackblock := b, k_ackcount := k_ackcount k + 1\<rparr>)"
    using ack_push_total [of k "h_sn h" "h_ts h"] k n by (auto simp: conn_inv_def)
  let ?k = "k\<lparr>k_acklist := l, k_ackblock := b, k_ackcount := k_ackcount k + 1\<rparr>"
  have "conn_inv ?k"
    using k ok by (simp add: conn_inv_def frame_simps)
  moreover have "unat (k_ackcount k + 1) = unat (k_ackcount k) + 1"
    using n by (simp add: unat_word_ariths)
  ultimately show ?thesis
    using k p by (auto simp: input_push_def frame_simps intro: parse_data_inv)
qed

lemma input_common_ackcount [frame_simps]: "k_ackcount (input_common k h) = k_ackcount k"
  using una_loop_writes [of "h_una h" "k_snd_buf k" "k\<lparr>k_rmt_wnd := ucast (h_wnd h)\<rparr>"]
    shrink_writes [of "ikcp_parse_una (k\<lparr>k_rmt_wnd := ucast (h_wnd h)\<rparr>) (h_una h)"]
  by (auto simp: input_common_def ikcp_parse_una_def)

lemma input_ack_ackcount [frame_simps]: "k_ackcount (input_ack k h) = k_ackcount k"
proof -
  let ?j = "if 0 \<le> itimediff (k_current k) (h_ts h)
    then ikcp_update_ack k (itimediff (k_current k) (h_ts h)) else k"
  have "k_ackcount ?j = k_ackcount k"
    using update_ack_writes [of k "itimediff (k_current k) (h_ts h)"] by auto
  moreover have "k_ackcount (ikcp_parse_ack ?j (h_sn h)) = k_ackcount ?j"
    using parse_ack_writes [of ?j "h_sn h"] by auto
  moreover have "k_ackcount (ikcp_shrink_buf (ikcp_parse_ack ?j (h_sn h))) =
      k_ackcount (ikcp_parse_ack ?j (h_sn h))"
    using shrink_writes [of "ikcp_parse_ack ?j (h_sn h)"] by auto
  ultimately show ?thesis by (simp only: input_ack_def Let_def)
qed

lemma input_seg_inv:
  assumes k: "conn_inv (fst km)" and n: "unat (k_ackcount (fst km)) < 2 ^ 31"
  shows "\<exists>km'. input_seg km u = Some km' \<and> conn_inv (fst km') \<and>
    unat (k_ackcount (fst km')) \<le> unat (k_ackcount (fst km)) + 1"
proof -
  obtain k m h d where km: "km = (k, m)" and u: "u = (h, d)"
    by (meson surj_pair)
  have c: "conn_inv (input_common k h)"
    using k by (simp add: km input_common_inv)
  have p: "conn_inv ((input_common k h)\<lparr>k_probe := w\<rparr>)" for w
    using c by (simp add: conn_inv_def frame_simps)
  obtain k' where "input_push (input_common k h) h d = Some k'" "conn_inv k'"
      "unat (k_ackcount k') \<le> unat (k_ackcount k) + 1"
    using input_push_inv [OF c, of h d] n by (auto simp: frame_simps km)
  with c p show ?thesis
    by (simp add: input_seg_def Let_def frame_simps input_ack_inv km u del: split_paired_Ex)
qed

lemma decode_some:
  "4 \<le> length p \<Longrightarrow> \<exists>x q. ikcp_decode32u p = Some (x, q) \<and> length p = length q + 4"
  "2 \<le> length p \<Longrightarrow> \<exists>w q. ikcp_decode16u p = Some (w, q) \<and> length p = length q + 2"
  "1 \<le> length p \<Longrightarrow> \<exists>c q. ikcp_decode8u p = Some (c, q) \<and> length p = length q + 1"
proof -
  show "4 \<le> length p \<Longrightarrow> \<exists>x q. ikcp_decode32u p = Some (x, q) \<and> length p = length q + 4"
    by (cases p rule: ikcp_decode32u.cases) simp_all
  show "2 \<le> length p \<Longrightarrow> \<exists>w q. ikcp_decode16u p = Some (w, q) \<and> length p = length q + 2"
    by (cases p rule: ikcp_decode16u.cases) simp_all
  show "1 \<le> length p \<Longrightarrow> \<exists>c q. ikcp_decode8u p = Some (c, q) \<and> length p = length q + 1"
    by (cases p rule: ikcp_decode8u.cases) simp_all
qed

lemma decode_hdr_some:
  assumes "24 \<le> length data"
  shows "\<exists>h rest. ikcp_decode_hdr data = Some (h, rest)"
proof -
  obtain x1 q1 where 1: "ikcp_decode32u data = Some (x1, q1)" "length data = length q1 + 4"
    using decode_some(1) [of data] assms by auto
  obtain x2 q2 where 2: "ikcp_decode8u q1 = Some (x2, q2)" "length q1 = length q2 + 1"
    using decode_some(3) [of q1] assms 1 by auto
  obtain x3 q3 where 3: "ikcp_decode8u q2 = Some (x3, q3)" "length q2 = length q3 + 1"
    using decode_some(3) [of q2] assms 1 2 by auto
  obtain x4 q4 where 4: "ikcp_decode16u q3 = Some (x4, q4)" "length q3 = length q4 + 2"
    using decode_some(2) [of q3] assms 1 2 3 by auto
  obtain x5 q5 where 5: "ikcp_decode32u q4 = Some (x5, q5)" "length q4 = length q5 + 4"
    using decode_some(1) [of q4] assms 1 2 3 4 by auto
  obtain x6 q6 where 6: "ikcp_decode32u q5 = Some (x6, q6)" "length q5 = length q6 + 4"
    using decode_some(1) [of q5] assms 1 2 3 4 5 by auto
  obtain x7 q7 where 7: "ikcp_decode32u q6 = Some (x7, q7)" "length q6 = length q7 + 4"
    using decode_some(1) [of q6] assms 1 2 3 4 5 6 by auto
  obtain x8 q8 where 8: "ikcp_decode32u q7 = Some (x8, q8)"
    using decode_some(1) [of q7] assms 1 2 3 4 5 6 7 by auto
  show ?thesis
    by (simp add: ikcp_decode_hdr_def 1 2 3 4 5 6 7 8)
qed

lemma input_loop_inv:
  assumes "conn_inv (fst km)" and "unat (k_ackcount (fst km)) + length data div 24 < 2 ^ 31"
  shows "\<exists>r km'. input_loop km data = Some (r, km') \<and> r \<in> {0, -1, -2, -3} \<and> conn_inv (fst km')"
  using assms
proof (induction "length data" arbitrary: km data rule: less_induct)
  case less
  show ?case
  proof (cases "length data < 24")
    case True
    with less.prems(1) show ?thesis
      by (intro exI [of _ 0] exI [of _ km]) (simp add: input_loop.simps [of km data])
  next
    case False
    then obtain h rest where h: "ikcp_decode_hdr data = Some (h, rest)"
      using decode_hdr_some [of data] by auto
    then have len: "length data = length rest + 24" by (rule decode_hdr_length)
    let ?d = "take (unat (h_len h)) rest"
    obtain km' where s: "input_seg km (h, ?d) = Some km'"
      and k': "conn_inv (fst km')" and n: "unat (k_ackcount (fst km')) \<le> unat (k_ackcount (fst km)) + 1"
      using input_seg_inv [OF less.prems(1), of "(h, ?d)"] less.prems(2) by auto
    let ?r = "drop (unat (h_len h)) rest"
    have shorter: "length ?r < length data" using len by simp
    have "length ?r div 24 + 1 \<le> length data div 24"
      unfolding len by (simp add: div_le_mono)
    with less.prems(2) n have "unat (k_ackcount (fst km')) + length ?r div 24 < 2 ^ 31"
      by linarith
    from less.hyps [OF shorter k' this]
    obtain r km2 where "input_loop km' ?r = Some (r, km2)" "r \<in> {0, -1, -2, -3}" "conn_inv (fst km2)"
      by blast
    with False h s less.prems(1) show ?thesis
      by (simp add: input_loop.simps [of km data] del: split_paired_Ex)
  qed
qed
section \<open>A datagram is the sequence of its segments\<close>

fun input_segs :: "ikcpcb \<times> ackmark \<Rightarrow> (ikcphdr \<times> u8 list) list \<Rightarrow> (ikcpcb \<times> ackmark) option" where
  "input_segs km [] = Some km"
| "input_segs km (u # us) =
    (case input_seg km u of None \<Rightarrow> None | Some km \<Rightarrow> input_segs km us)"

lemma input_loop_get_seg:
  assumes "ikcp_get_seg data = Some ((h, d), rest)"
    and "h_conv h = k_conv (fst km)" and "known_cmd (h_cmd h)"
  shows "input_loop km data = (case input_seg km (h, d) of None \<Rightarrow> None | Some km \<Rightarrow> input_loop km rest)"
proof -
  obtain data' where h: "ikcp_decode_hdr data = Some (h, data')"
    and len: "\<not> (length data' < unat (h_len h) \<or> i32 (h_len h) < 0)"
    and d: "d = take (unat (h_len h)) data'" "rest = drop (unat (h_len h)) data'"
    using assms(1) by (auto simp: ikcp_get_seg_def split: bind_splits if_splits)
  have "\<not> length data < 24"
    using decode_hdr_length [OF h] by simp
  then show ?thesis
    using h len d assms(2,3) by (simp add: input_loop.simps [of km data] cong: option.case_cong)
qed

lemma input_seg_conv: "input_seg km u = Some km' \<Longrightarrow> k_conv (fst km') = k_conv (fst km)"
proof -
  obtain k m h d where km: "km = (k, m)" and u: "u = (h, d)"
    by (meson surj_pair)
  have shrink: "k_conv (ikcp_shrink_buf j) = k_conv j" for j
    using shrink_writes [of j] by auto
  have una: "k_conv (ikcp_parse_una j w) = k_conv j" for j w
    using una_loop_writes [of w "k_snd_buf j" j] by (auto simp: ikcp_parse_una_def)
  have ack: "k_conv (ikcp_parse_ack j w) = k_conv j" for j w
    using parse_ack_writes [of j w] by auto
  have rtt: "k_conv (ikcp_update_ack j w) = k_conv j" for j w
    using update_ack_writes [of j w] by auto
  have data: "k_conv (ikcp_parse_data j s) = k_conv j" for j s
    using parse_data_writes [of j s] by auto
  have push: "k_conv j' = k_conv j" if "ikcp_ack_push j a b = Some j'" for j a b j'
    using that by (auto simp: ikcp_ack_push_def ack_room_def Let_def split: option.splits if_splits)
  have common: "k_conv (input_common k h) = k_conv k"
    by (simp add: input_common_def shrink una)
  show "input_seg km u = Some km' \<Longrightarrow> ?thesis"
    using common
    by (auto simp: input_seg_def km u Let_def input_ack_def input_push_def shrink ack rtt data
        split: if_splits option.splits dest: push)
qed

lemma input_loop_packed:
  assumes "\<forall>s\<in>set ss. seg_wf s \<and> seg_conv s = k_conv (fst km) \<and> known_cmd (ucast (seg_cmd s))"
  shows "input_loop km (concat (map (ikcp_put_seg []) ss)) =
    map_option (\<lambda>km. (0, km)) (input_segs km (map unit_of ss))"
  using assms
proof (induction ss arbitrary: km)
  case Nil
  then show ?case by (simp add: input_loop.simps)
next
  case (Cons s ss)
  let ?rest = "concat (map (ikcp_put_seg []) ss)"
  have "ikcp_get_seg (ikcp_put_seg [] s @ ?rest) = Some ((hdr_of s, seg_data s), ?rest)"
    using Cons.prems kcp_wire.dec_enc [of s ?rest] by (simp add: unit_of_def)
  from input_loop_get_seg [OF this, of km] Cons.prems
  have step: "input_loop km (ikcp_put_seg [] s @ ?rest) =
      (case input_seg km (unit_of s) of None \<Rightarrow> None | Some km \<Rightarrow> input_loop km ?rest)"
    by (simp add: hdr_of_def unit_of_def)
  show ?case
  proof (cases "input_seg km (unit_of s)")
    case None
    with step show ?thesis by simp
  next
    case (Some km')
    with Cons.prems input_seg_conv [OF Some] Cons.IH [of km'] step show ?thesis by simp
  qed
qed

section \<open>Growth of the congestion window\<close>

lemma u32_mult: "unat (a :: u32) * unat b < 2 ^ 32 \<Longrightarrow> unat (a * b) = unat a * unat b"
  by (simp add: unat_word_ariths)

lemma u32_add: "unat (a :: u32) + unat b < 2 ^ 32 \<Longrightarrow> unat (a + b) = unat a + unat b"
  by (simp add: unat_word_ariths)

lemma avoidance_step:
  fixes c m i :: u32
  assumes m: "0 < unat m" "unat m < 2 ^ 16" and i: "unat i < 2 ^ 31" "m \<le> i" and c: "unat c < 2 ^ 16 - 1"
    and j: "j = i + ((m * m) div i + m div 16)" and le: "(c + 1) * m \<le> j"
  shows "c + 1 \<le> (j + m - 1) div m"
proof -
  have "unat m * unat m < 2 ^ 16 * 2 ^ 16"
    using m by (intro mult_strict_mono) simp_all
  then have mm: "unat (m * m) = unat m * unat m"
    by (intro u32_mult) simp
  have "unat m * unat m \<le> unat m * unat i"
    using i by (intro mult_left_mono) (simp_all add: word_le_nat_alt)
  then have q: "unat ((m * m) div i) \<le> unat m"
    using i m unfolding unat_div_distrib mm
    by (metis div_le_mono div_mult_self_is_m gr_zeroI le_zero_eq nonzero_mult_div_cancel_right
        not_gr_zero word_le_nat_alt)
  have s: "unat (m div 16) \<le> unat m"
    by (simp add: unat_div_distrib)
  have "unat ((m * m) div i + m div 16) = unat ((m * m) div i) + unat (m div 16)"
    using q s m by (intro u32_add) simp
  then have jn: "unat j < 2 ^ 31 + 2 ^ 17"
    using q s m i unfolding j by (subst u32_add) simp_all
  have cn: "unat (c + 1) = unat c + 1"
    using c by (simp add: u32_add)
  have "(unat c + 1) * unat m < 2 ^ 16 * 2 ^ 16"
    using c m by (intro mult_strict_mono) simp_all
  then have "unat ((c + 1) * m) = (unat c + 1) * unat m"
    unfolding cn [symmetric] by (intro u32_mult) simp
  with le have "(unat c + 1) * unat m \<le> unat j"
    by (simp add: word_le_nat_alt)
  moreover have "unat (j + m - 1) = unat j + unat m - 1"
  proof -
    have "unat (j + m) = unat j + unat m"
      using jn m by (intro u32_add) simp
    moreover have "unat (j + m - 1) = unat (j + m) - unat (1 :: u32)"
      using calculation m by (intro unat_sub) (simp add: word_le_nat_alt)
    ultimately show ?thesis by simp
  qed
  ultimately have "unat c + 1 \<le> unat ((j + m - 1) div m)"
    using m by (simp add: unat_div_distrib less_eq_div_iff_mult_less_eq)
  then show ?thesis by (simp add: word_le_nat_alt cn)
qed

text \<open>growth of the congestion window.  While it is smaller than the peer's window (16 bits on the
  wire), one step of \<open>grow_cwnd\<close> never shrinks it and never takes it beyond the peer's window, and
  below \<open>ssthresh\<close> (slow start) it adds exactly one segment; the 32-bit products of the congestion
  avoidance branch do not wrap for a segment size below 64 KB.\<close>
theorem grow_cwnd_bounds:
  assumes "k_cwnd k < k_rmt_wnd k" and "unat (k_rmt_wnd k) < 2 ^ 16"
    and "0 < unat (k_mss k)" and "unat (k_mss k) < 2 ^ 16" and "unat (k_incr k) < 2 ^ 31"
  shows "k_cwnd k \<le> k_cwnd (grow_cwnd k) \<and> k_cwnd (grow_cwnd k) \<le> k_rmt_wnd k \<and>
    (k_cwnd k < k_ssthresh k \<longrightarrow> k_cwnd (grow_cwnd k) = k_cwnd k + 1)"
proof (cases "k_cwnd k < k_ssthresh k")
  case True
  have "unat (k_cwnd k + 1) = unat (k_cwnd k) + 1"
    using assms(1) by (simp add: unat_add_1_less)
  with True assms show ?thesis
    by (auto simp: grow_cwnd_def Let_def word_le_nat_alt word_less_nat_alt)
next
  case False
  define i where "i = (if k_incr k < k_mss k then k_mss k else k_incr k)"
  define j where "j = i + ((k_mss k * k_mss k) div i + k_mss k div 16)"
  define c where "c = (if (k_cwnd k + 1) * k_mss k \<le> j then (j + k_mss k - 1) div k_mss k else k_cwnd k)"
  have i: "unat i < 2 ^ 31" "k_mss k \<le> i"
    using assms by (auto simp: i_def)
  have "unat (k_cwnd k) < 2 ^ 16 - 1"
    using assms(1,2) by (simp add: word_less_nat_alt)
  note step = avoidance_step [OF assms(3,4) i this j_def]
  have "k_cwnd k \<le> k_cwnd k + 1"
    using assms(1) by (simp add: word_le_nat_alt unat_add_1_less)
  with step have c: "k_cwnd k \<le> c"
    by (auto simp: c_def)
  have "0 < k_mss k"
    using assms(3) by (simp add: word_less_nat_alt)
  then have "k_cwnd (grow_cwnd k) = (if k_rmt_wnd k < c then k_rmt_wnd k else c)"
    using False assms(1) by (simp add: grow_cwnd_def Let_def c_def j_def i_def)
  with c False assms(1) show ?thesis by auto
qed

theorem grow_cwnd_bounds_witness:
  "k_cwnd ((ikcp_init 9)\<lparr>k_cwnd := 5\<rparr>) \<le> k_cwnd (grow_cwnd ((ikcp_init 9)\<lparr>k_cwnd := 5\<rparr>)) \<and>
   k_cwnd (grow_cwnd ((ikcp_init 9)\<lparr>k_cwnd := 5\<rparr>)) \<le> 128"
  using grow_cwnd_bounds [of "(ikcp_init 9)\<lparr>k_cwnd := 5\<rparr>"] by (simp add: ikcp_init_def)

section \<open>Properties of a datagram\<close>

lemma conn_inv_init: "conn_inv (ikcp_init conv)"
  by (simp add: conn_inv_def ikcp_init_def snd_inv_def snd_sorted_def snd_tight_def snd_off_def
      in_flight_def rcv_inv_def rcv_sorted_def rcv_counts_def rcv_drained_def acks_ok_def)

lemma grow_cwnd_inv: "conn_inv k \<Longrightarrow> conn_inv (grow_cwnd k)"
  using grow_cwnd_writes [of k] by (auto simp: conn_inv_def frame_simps)

lemma parse_fastack_conn: "conn_inv k \<Longrightarrow> conn_inv (ikcp_parse_fastack k sn ts)"
proof -
  assume k: "conn_inv k"
  then have "snd_inv (ikcp_parse_fastack k sn ts)"
    by (intro parse_fastack_inv) (simp add: conn_inv_def)
  with k show ?thesis
    by (auto simp: conn_inv_def ikcp_parse_fastack_def frame_simps)
qed

text \<open>What \<open>ikcp_input\<close> does after the loop.\<close>

definition input_finish :: "u32 \<Rightarrow> ikcpcb \<times> ackmark \<Rightarrow> ikcpcb" where
  "input_finish prev_una = (\<lambda>(k, flag, maxack, latest_ts).
     let k = (if flag then ikcp_parse_fastack k maxack latest_ts else k)
     in if itimediff (k_snd_una k) prev_una > 0 then grow_cwnd k else k)"

lemma input_finish_inv: "conn_inv (fst km) \<Longrightarrow> conn_inv (input_finish prev_una km)"
  by (auto simp: input_finish_def Let_def parse_fastack_conn grow_cwnd_inv split: prod.splits)

lemma ikcp_input_eq:
  "ikcp_input k data = (if wrap32 (int (length data)) < 24 then Some (-1, k)
    else case input_loop (k, False, 0, 0) data of None \<Rightarrow> None
      | Some (r, km) \<Rightarrow> Some (r, if r \<noteq> 0 then fst km else input_finish (k_snd_una k) km))"
  by (auto simp: ikcp_input_def input_finish_def Let_def split: option.splits prod.splits)

text \<open>C10: \<open>ikcp_input\<close> survives any input.  For every byte string (garbage, truncated or hostile) it
  returns (the loops end), with one of the four codes of the source, and the connection's
  invariant holds afterwards: the send buffer in order with \<open>snd_una\<close> first, the receive window
  sorted and drained with exact counters, the acknowledgement list within its block.\<close>
theorem input_robust:
  assumes "conn_inv k" and "unat (k_ackcount k) + length data div 24 < 2 ^ 31"
  shows "\<exists>r k'. ikcp_input k data = Some (r, k') \<and> r \<in> {0, -1, -2, -3} \<and> conn_inv k'"
proof -
  obtain r km where "input_loop (k, False, 0, 0) data = Some (r, km)" "r \<in> {0, -1, -2, -3}"
      "conn_inv (fst km)"
    using input_loop_inv [of "(k, False, 0, 0)" data] assms by auto
  with assms(1) show ?thesis
    by (cases "wrap32 (int (length data)) < 24") (simp_all add: ikcp_input_eq input_finish_inv)
qed

theorem input_robust_witness:
  "\<exists>r k'. ikcp_input (ikcp_init 9) (replicate 30 255) = Some (r, k') \<and> r \<in> {0, -1, -2, -3} \<and> conn_inv k'"
  using input_robust [OF conn_inv_init, of 9 "replicate 30 255"] by (simp add: ikcp_init_def)

text \<open>a datagram acts as the sequence of its segments.  If a datagram is the packing of segments
  of this conversation with known commands, \<open>ikcp_input\<close> processes exactly these segments, one
  after the other and in order, then the fast-acknowledgement and window step; no segment is
  skipped, split or misread, and the code is 0.\<close>
theorem input_packed:
  assumes ok: "\<forall>s\<in>set ss. seg_wf s \<and> seg_conv s = k_conv k \<and> known_cmd (ucast (seg_cmd s))"
    and "ss \<noteq> []" and len: "length (foldl ikcp_put_seg [] ss) < 2 ^ 31"
  shows "ikcp_input k (foldl ikcp_put_seg [] ss) =
    map_option (\<lambda>km. (0, input_finish (k_snd_una k) km)) (input_segs (k, False, 0, 0) (map unit_of ss))"
proof -
  obtain s ss' where ss: "ss = s # ss'" using assms(2) by (cases ss) auto
  have flat: "foldl ikcp_put_seg [] ss = concat (map (ikcp_put_seg []) ss)"
    using ok foldl_put_seg [of ss "[]"] by simp
  have "24 \<le> length (foldl ikcp_put_seg [] ss)"
    unfolding flat using ok put_seg_length [of s "[]"] by (simp add: ss)
  then have "\<not> wrap32 (int (length (foldl ikcp_put_seg [] ss))) < 24"
    using len by (subst wrap32_nonneg) simp_all
  then show ?thesis
    using input_loop_packed [of ss "(k, False, 0, 0)"] ok
    unfolding ikcp_input_eq flat [symmetric]
    by (cases "input_segs (k, False, 0, 0) (map unit_of ss)") simp_all
qed

theorem input_packed_witness:
  "ikcp_input (ikcp_init 1) (foldl ikcp_put_seg [] [demo_seg [7] 0, demo_seg [8] 1]) =
    map_option (\<lambda>km. (0, input_finish 0 km))
      (input_segs (ikcp_init 1, False, 0, 0) [unit_of (demo_seg [7] 0), unit_of (demo_seg [8] 1)])"
proof -
  have wf: "seg_wf (demo_seg [x] n)" for x n
    by (simp add: demo_seg_def seg_wf_def)
  have "length (foldl ikcp_put_seg [] [demo_seg [7] 0, demo_seg [8] 1]) = 50"
    by (simp add: put_seg_length [OF wf]) (simp add: demo_seg_def)
  moreover have "\<forall>s\<in>set [demo_seg [7] 0, demo_seg [8] 1].
      seg_wf s \<and> seg_conv s = k_conv (ikcp_init 1) \<and> known_cmd (ucast (seg_cmd s))"
    using wf by (simp add: demo_seg_def ikcp_init_def known_cmd_def)
  ultimately show ?thesis
    using input_packed [of "[demo_seg [7] 0, demo_seg [8] 1]" "ikcp_init 1"]
    by (simp add: ikcp_init_def)
qed

text \<open>C17: malformed input is refused without effect.  Less than a header is -1; a header of another
  conversation is -1; a length field that is negative as an \<open>int\<close> or exceeds the bytes left is -2;
  an unknown command is -3; and when the first segment is at fault the control block is
  returned unchanged.\<close>
theorem input_errors:
  assumes "length data < 2 ^ 31"
  shows "if length data < 24 then ikcp_input k data = Some (-1, k)
    else \<exists>h rest. ikcp_decode_hdr data = Some (h, rest) \<and> length data = length rest + 24 \<and>
      (if h_conv h \<noteq> k_conv k then ikcp_input k data = Some (-1, k)
       else if length rest < unat (h_len h) \<or> 2 ^ 31 \<le> unat (h_len h) then ikcp_input k data = Some (-2, k)
       else known_cmd (h_cmd h) \<or> ikcp_input k data = Some (-3, k))"
proof (cases "length data < 24")
  case True
  then show ?thesis by (simp add: ikcp_input_eq wrap32_nonneg)
next
  case False
  then obtain h rest where h: "ikcp_decode_hdr data = Some (h, rest)"
    using decode_hdr_some [of data] by auto
  have "\<not> wrap32 (int (length data)) < 24"
    using False assms by (subst wrap32_nonneg) simp_all
  moreover have "i32 (h_len h) < 0 \<longleftrightarrow> 2 ^ 31 \<le> unat (h_len h)"
    using i32_nonneg_iff [of "h_len h"] by (metis linorder_not_less)
  ultimately show ?thesis
    using False h decode_hdr_length [OF h]
    by (auto simp: ikcp_input_eq input_loop.simps [of "(k, False, 0, 0)" data])
qed

theorem input_errors_witness:
  "ikcp_input (ikcp_init 9) [1, 2, 3] = Some (-1, ikcp_init 9)"
  using input_errors [of "[1, 2, 3]" "ikcp_init 9"] by simp

end
