(* ===== verification/Kcp_Send.thy ===== *)
theory Kcp_Send
  imports Kcp_Recv
begin

text \<open>
  The user's side of the KCP sender (\<open>ikcp.c\<close>, lines 490--566): \<open>ikcp_send\<close> cuts a message into
  segments of at most \<open>mss\<close> bytes with fragment numbers counting down to 0, or, in stream mode,
  first fills up the last segment that is still queued.
\<close>

section \<open>Operations\<close>

text \<open>
  \<open>ikcp_segment_new\<close>: the fields that the code does not set before \<open>ikcp_flush\<close> assigns them are 0
  here.
\<close>

definition ikcp_segment_new :: "u8 list \<Rightarrow> u32 \<Rightarrow> u32 \<Rightarrow> ikcpseg" where
  "ikcp_segment_new d len frg =
     \<lparr>seg_conv = 0, seg_cmd = 0, seg_frg = frg, seg_wnd = 0, seg_ts = 0, seg_sn = 0, seg_una = 0,
      seg_len = len, seg_resendts = 0, seg_rto = 0, seg_fastack = 0, seg_xmit = 0, seg_data = d\<rparr>"

text \<open>Stream mode: the last queued segment is replaced by one with more data.\<close>

definition send_extend :: "ikcpcb \<Rightarrow> u8 list \<Rightarrow> int \<Rightarrow> u8 list \<times> int \<times> ikcpcb" where
  "send_extend k buffer len =
    (case k_snd_queue k of [] \<Rightarrow> (buffer, len, k)
     | _ \<Rightarrow>
       let old = last (k_snd_queue k) in
       if seg_len old < k_mss k then
         let capacity = i32 (k_mss k - seg_len old);
             extend = (if len < capacity then len else capacity);
             seg = ikcp_segment_new (seg_bytes old @ take (nat extend) buffer)
                     (seg_len old + u32 extend) 0
         in (drop (nat extend) buffer, len - extend,
             k\<lparr>k_snd_queue := butlast (k_snd_queue k) @ [seg]\<rparr>)
       else (buffer, len, k))"

text \<open>The fragment loop; the first argument is the number of segments still to be made.\<close>

fun frag_loop :: "nat \<Rightarrow> ikcpcb \<Rightarrow> u8 list \<Rightarrow> int \<Rightarrow> ikcpcb" where
  "frag_loop 0 k buffer len = k"
| "frag_loop (Suc r) k buffer len =
    (let size = (if len > i32 (k_mss k) then i32 (k_mss k) else len);
         seg = ikcp_segment_new (if len > 0 then take (nat size) buffer else []) (u32 size)
                 (if k_stream k = 0 then of_nat r else 0)
     in frag_loop r (k\<lparr>k_snd_queue := k_snd_queue k @ [seg], k_nsnd_que := k_nsnd_que k + 1\<rparr>)
          (drop (nat size) buffer) (len - size))"

definition send_count :: "u32 \<Rightarrow> int \<Rightarrow> int" where
  "send_count mss len = (if len \<le> i32 mss then 1 else i32 ((u32 len + mss - 1) div mss))"

text \<open>
  \<open>ikcp_send\<close> on a buffer of (at least) \<open>len\<close> bytes; \<open>None\<close> is a failed \<open>assert(kcp->mss > 0)\<close>.
\<close>

definition ikcp_send :: "ikcpcb \<Rightarrow> u8 list \<Rightarrow> int \<Rightarrow> (int \<times> ikcpcb) option" where
  "ikcp_send k buffer len =
    (if k_mss k = 0 then None
     else if len < 0 then Some (-1, k)
     else
       let (buffer, len, k) = (if k_stream k \<noteq> 0 then send_extend k buffer len else (buffer, len, k))
       in if k_stream k \<noteq> 0 \<and> len \<le> 0 then Some (0, k)
          else
            let count = send_count (k_mss k) len
            in if count \<ge> i32 IKCP_WND_RCV then Some (-2, k)
               else
                 let count = (if count = 0 then 1 else count)
                 in Some (0, frag_loop (nat count) k buffer len))"

section \<open>Fragments\<close>

text \<open>The segments that the loop queues.\<close>

fun fragments :: "nat \<Rightarrow> nat \<Rightarrow> bool \<Rightarrow> u8 list \<Rightarrow> ikcpseg list" where
  "fragments mss 0 msg b = []"
| "fragments mss (Suc r) msg b =
     ikcp_segment_new (take mss b) (of_nat (min mss (length b))) (if msg then of_nat r else 0) #
     fragments mss r msg (drop mss b)"

lemma frag_loop_eq:
  assumes "unat (k_mss k) < 2 ^ 31"
  shows "frag_loop r k b (int (length b)) =
    k\<lparr>k_snd_queue := k_snd_queue k @ fragments (unat (k_mss k)) r (k_stream k = 0) b,
      k_nsnd_que := k_nsnd_que k + of_nat r\<rparr>"
  using assms
proof (induction r arbitrary: k b)
  case 0
  then show ?case by simp
next
  case (Suc r)
  let ?m = "unat (k_mss k)"
  have size: "(if int (length b) > i32 (k_mss k) then i32 (k_mss k) else int (length b)) =
      int (min ?m (length b))"
    using Suc.prems i32_small [of "k_mss k"] by (simp only:) (simp add: min_def)
  have cut: "take (min ?m (length b)) b = take ?m b" "drop (min ?m (length b)) b = drop ?m b"
    by (auto simp: min_def)
  have rest: "int (length b) - int (min ?m (length b)) = int (length (drop ?m b))"
    by (auto simp: min_def)
  have data: "(if int (length b) > 0 then take ?m b else []) = take ?m b"
    by simp
  show ?case
    unfolding frag_loop.simps Let_def size nat_int cut rest data
    by (subst Suc.IH) (use Suc.prems in \<open>simp_all add: u32_def algebra_simps\<close>)
qed

lemma fragments_bytes:
  "length b \<le> r * mss \<Longrightarrow> concat (map seg_data (fragments mss r msg b)) = b"
  by (induction r arbitrary: b) (auto simp: ikcp_segment_new_def)

lemma fragments_length [simp]: "length (fragments mss r msg b) = r"
  by (induction r arbitrary: b) auto

lemma fragments_frg:
  "map seg_frg (fragments mss r msg b) = map (\<lambda>i. if msg then of_nat i else 0) (rev [0..<r])"
  by (induction r arbitrary: b) (auto simp: ikcp_segment_new_def)

lemma fragments_wf:
  "mss < 2 ^ 31 \<Longrightarrow> s \<in> set (fragments mss r msg b) \<Longrightarrow> seg_wf s \<and> unat (seg_len s) \<le> mss"
  by (induction r arbitrary: b) (auto simp: ikcp_segment_new_def seg_wf_def unat_of_nat)

text \<open>The number of fragments is the rounded-up quotient, and at least one.\<close>

definition frag_count :: "nat \<Rightarrow> nat \<Rightarrow> nat" where
  "frag_count mss n = max 1 ((n + mss - 1) div mss)"

lemma send_count_eq:
  assumes mss: "0 < unat mss" "unat mss < 2 ^ 31" and n: "n < 2 ^ 31"
  shows "send_count mss (int n) = int (frag_count (unat mss) n)"
proof (cases "n \<le> unat mss")
  case True
  have "(n + unat mss - 1) div unat mss \<le> (2 * unat mss - 1) div unat mss"
    using True by (intro div_le_mono) simp
  also have "\<dots> \<le> 1"
    using mss by (simp add: div_less_iff_less_mult [symmetric] less_Suc_eq_le [symmetric]
        less_mult_imp_div_less)
  finally show ?thesis
    using True mss i32_small [of mss] by (simp only: send_count_def frag_count_def) simp
next
  case False
  have "unat (u32 (int n) + mss - 1) = n + unat mss - 1"
  proof -
    have "u32 (int n) + mss - 1 = of_nat (n + unat mss - 1)"
      using mss by (simp add: u32_def of_nat_diff)
    moreover have "n + unat mss - 1 < 2 ^ 32"
      using mss n by simp
    ultimately show ?thesis by (simp only: unat_of_nat) simp
  qed
  then have q: "unat ((u32 (int n) + mss - 1) div mss) = (n + unat mss - 1) div unat mss"
    by (simp only: unat_div_distrib)
  obtain i j where "n = Suc i" and "unat mss = Suc j"
    using False mss by (metis gr0_conv_Suc not_le_imp_less less_trans)
  then have "n + unat mss - 1 \<le> n * unat mss" by simp
  then have "(n + unat mss - 1) div unat mss \<le> n"
    using div_le_mono [of _ "n * unat mss" "unat mss"] mss(1) by simp
  with q n have "i32 ((u32 (int n) + mss - 1) div mss) = int ((n + unat mss - 1) div unat mss)"
    by (subst i32_small) simp_all
  moreover have "1 \<le> (n + unat mss - 1) div unat mss"
    using False mss by (simp add: div_greater_zero_iff Suc_le_eq)
  ultimately show ?thesis
    using False mss i32_small [of mss] by (simp only: send_count_def frag_count_def) simp
qed


lemma frag_count_enough: "0 < mss \<Longrightarrow> n \<le> frag_count mss n * mss"
proof -
  assume "0 < mss"
  then have "n + mss - 1 < Suc ((n + mss - 1) div mss) * mss"
    using dividend_less_div_times [of mss "n + mss - 1"] by simp
  then have "n \<le> (n + mss - 1) div mss * mss" by simp
  also have "\<dots> \<le> frag_count mss n * mss"
    by (simp add: frag_count_def)
  finally show ?thesis .
qed

text \<open>What the part after the stream-mode extension does.\<close>

definition send_rest :: "ikcpcb \<Rightarrow> u8 list \<Rightarrow> int \<times> ikcpcb" where
  "send_rest k b =
    (let c = frag_count (unat (k_mss k)) (length b)
     in if 128 \<le> c then (-2, k)
        else (0, k\<lparr>k_snd_queue := k_snd_queue k @ fragments (unat (k_mss k)) c (k_stream k = 0) b,
                   k_nsnd_que := k_nsnd_que k + of_nat c\<rparr>))"

definition mss_ok :: "ikcpcb \<Rightarrow> bool" where
  "mss_ok k \<longleftrightarrow> 0 < unat (k_mss k) \<and> unat (k_mss k) < 2 ^ 31"

lemma mss_ok_neq: "mss_ok k \<Longrightarrow> k_mss k \<noteq> 0"
  by (auto simp: mss_ok_def)

lemma send_rest_eq:
  assumes "mss_ok k" and "length b < 2 ^ 31"
  shows "(let count = send_count (k_mss k) (int (length b))
      in if count \<ge> i32 IKCP_WND_RCV then Some (-2, k)
         else let count = (if count = 0 then 1 else count)
              in Some (0, frag_loop (nat count) k b (int (length b)))) = Some (send_rest k b)"
proof -
  have c: "send_count (k_mss k) (int (length b)) = int (frag_count (unat (k_mss k)) (length b))"
    using assms by (intro send_count_eq) (auto simp: mss_ok_def)
  have pos: "frag_count (unat (k_mss k)) (length b) \<noteq> 0"
    by (simp add: frag_count_def)
  show ?thesis
    using assms(1) pos unfolding c
    by (simp add: send_rest_def frag_loop_eq mss_ok_def Let_def)
qed

lemma send_message_eq:
  assumes "mss_ok k" and "length b < 2 ^ 31" and "k_stream k = 0"
  shows "ikcp_send k b (int (length b)) = Some (send_rest k b)"
  using send_rest_eq [OF assms(1,2)] assms by (simp add: ikcp_send_def mss_ok_neq)

lemma fragments_message:
  assumes "0 < mss" "mss < 2 ^ 31"
  shows "concat (map seg_data (fragments mss (frag_count mss (length b)) msg b)) = b"
    and "\<forall>s\<in>set (fragments mss c msg b). seg_wf s \<and> unat (seg_len s) \<le> mss"
    and "\<not> 128 \<le> frag_count mss (length b) \<Longrightarrow> framed (fragments mss (frag_count mss (length b)) True b)"
proof -
  show "concat (map seg_data (fragments mss (frag_count mss (length b)) msg b)) = b"
    using assms(1) by (intro fragments_bytes frag_count_enough)
  show wf: "\<forall>s\<in>set (fragments mss c msg b). seg_wf s \<and> unat (seg_len s) \<le> mss" for c msg
    using fragments_wf [OF assms(2)] by blast
  let ?c = "frag_count mss (length b)"
  have "?c \<noteq> 0" by (simp add: frag_count_def)
  then have "fragments mss ?c True b \<noteq> []" by (metis fragments_length list.size(3))
  then show "\<not> 128 \<le> ?c \<Longrightarrow> framed (fragments mss ?c True b)"
    using wf [of ?c True] by (simp add: framed_def fragments_frg)
qed

section \<open>Stream mode\<close>

definition queue_ok :: "ikcpcb \<Rightarrow> bool" where
  "queue_ok k \<longleftrightarrow> (\<forall>s\<in>set (k_snd_queue k). seg_wf s \<and> unat (seg_len s) \<le> unat (k_mss k))"

lemma extend_capacity:
  assumes "mss_ok k" and "seg_len s < k_mss k"
  shows "i32 (k_mss k - seg_len s) = int (unat (k_mss k) - unat (seg_len s))"
proof -
  have "unat (k_mss k - seg_len s) = unat (k_mss k) - unat (seg_len s)"
    using assms(2) by (intro unat_sub) (simp add: word_le_nat_alt word_less_nat_alt)
  with assms(1) show ?thesis
    by (subst i32_small) (auto simp: mss_ok_def)
qed

lemma send_extend_snoc:
  "k_snd_queue k = qs @ [old] \<Longrightarrow> send_extend k buffer len =
    (if seg_len old < k_mss k then
       let capacity = i32 (k_mss k - seg_len old);
           extend = (if len < capacity then len else capacity)
       in (drop (nat extend) buffer, len - extend,
           k\<lparr>k_snd_queue := qs @ [ikcp_segment_new (seg_bytes old @ take (nat extend) buffer)
              (seg_len old + u32 extend) 0]\<rparr>)
     else (buffer, len, k))"
  by (cases qs) (simp_all add: send_extend_def Let_def)

lemma send_extend_spec:
  assumes k: "mss_ok k" and q: "queue_ok k"
  shows "\<exists>x k'. send_extend k b (int (length b)) = (drop x b, int (length (drop x b)), k') \<and>
    concat (map seg_data (k_snd_queue k')) = concat (map seg_data (k_snd_queue k)) @ take x b \<and>
    x \<le> unat (k_mss k) \<and> queue_ok k' \<and> length (k_snd_queue k') = length (k_snd_queue k) \<and>
    k_mss k' = k_mss k \<and> k_stream k' = k_stream k \<and> k_nsnd_que k' = k_nsnd_que k"
proof -
  have mss: "0 < unat (k_mss k)"
    using k by (simp add: mss_ok_def)
  show ?thesis
  proof (cases "k_snd_queue k = [] \<or> \<not> seg_len (last (k_snd_queue k)) < k_mss k")
    case True
    then have "send_extend k b (int (length b)) = (b, int (length b), k)"
      by (auto simp: send_extend_def split: list.splits)
    with q mss show ?thesis
      by (intro exI [of _ 0] exI [of _ k]) simp
  next
    case False
    define old qs where "old = last (k_snd_queue k)" and "qs = butlast (k_snd_queue k)"
    then have que: "k_snd_queue k = qs @ [old]"
      using False by simp
    define c where "c = unat (k_mss k) - unat (seg_len old)"
    define x where "x = min c (length b)"
    have old: "seg_len old < k_mss k" "seg_wf old"
      using False apply (simp add: old_def)
      using q by (simp add: queue_ok_def que)
    have lt: "unat (seg_len old) < unat (k_mss k)"
      using old(1) by (simp add: word_less_nat_alt)
    have fits: "unat (seg_len old) + x \<le> unat (k_mss k)" and x: "x \<le> length b"
      using lt by (auto simp: x_def c_def)
    have len: "unat (seg_len old + of_nat x) = unat (seg_len old) + x"
    proof -
      have "unat (seg_len old) + x < 2 ^ 32"
        using lt unat_lt [of "k_mss k"] by (simp add: x_def c_def)
      then show ?thesis by (simp add: unat_word_ariths unat_of_nat)
    qed
    have ext: "(if int (length b) < int c then int (length b) else int c) = int x"
      by (simp add: x_def)
    let ?seg = "ikcp_segment_new (seg_data old @ take x b) (seg_len old + of_nat x) 0"
    have cap: "i32 (k_mss k - seg_len old) = int c"
      unfolding c_def by (rule extend_capacity [OF k old(1)])
    have e: "send_extend k b (int (length b)) =
        (drop x b, int (length (drop x b)), k\<lparr>k_snd_queue := qs @ [?seg]\<rparr>)"
      using old unfolding send_extend_snoc [OF que] Let_def cap ext
      by (simp add: u32_def seg_bytes_wf of_nat_diff x_def)
    have "seg_wf ?seg \<and> unat (seg_len ?seg) \<le> unat (k_mss k)"
      using old(2) k len fits x by (simp add: seg_wf_def ikcp_segment_new_def mss_ok_def)
    with q have "queue_ok (k\<lparr>k_snd_queue := qs @ [?seg]\<rparr>)"
      by (auto simp: queue_ok_def que)
    moreover have "x \<le> unat (k_mss k)"
      by (simp add: x_def c_def)
    ultimately show ?thesis
      using e by (intro exI [of _ x] exI [of _ "k\<lparr>k_snd_queue := qs @ [?seg]\<rparr>"])
        (simp add: que ikcp_segment_new_def)
  qed
qed

lemma send_extend_writes: "\<exists>q b l. send_extend k buffer len = (b, l, k\<lparr>k_snd_queue := q\<rparr>)"
proof (cases "k_snd_queue k" rule: rev_cases)
  case Nil
  then show ?thesis by (auto simp: send_extend_def intro!: exI [of _ "[]"])
next
  case (snoc qs old)
  have "\<exists>q. k = k\<lparr>k_snd_queue := q\<rparr>" by (rule exI [of _ "k_snd_queue k"]) simp
  then show ?thesis
    unfolding send_extend_snoc [OF snoc] Let_def by auto
qed

text \<open>Whatever its result, \<open>ikcp_send\<close> touches the send queue only, and no segment outgrows \<open>mss\<close>.\<close>

lemma send_rest_queue:
  assumes "mss_ok k" and "queue_ok k"
  shows "\<exists>q n. snd (send_rest k b) = k\<lparr>k_snd_queue := q, k_nsnd_que := n\<rparr> \<and> queue_ok (snd (send_rest k b))"
proof -
  have mss: "0 < unat (k_mss k)" "unat (k_mss k) < 2 ^ 31"
    using assms(1) by (simp_all add: mss_ok_def)
  show ?thesis
  proof (cases "128 \<le> frag_count (unat (k_mss k)) (length b)")
    case True
    with assms(2) show ?thesis
      by (intro exI [of _ "k_snd_queue k"] exI [of _ "k_nsnd_que k"]) (simp add: send_rest_def Let_def)
  next
    case False
    with assms(2) fragments_wf [OF mss(2)] show ?thesis
      by (auto simp: send_rest_def Let_def queue_ok_def)
  qed
qed

lemma send_queue:
  assumes k: "mss_ok k" and q: "queue_ok k" and len: "length b < 2 ^ 31"
    and send: "ikcp_send k b (int (length b)) = Some (r, k')"
  shows "\<exists>q n. k' = k\<lparr>k_snd_queue := q, k_nsnd_que := n\<rparr> \<and> queue_ok k'"
proof (cases "k_stream k = 0")
  case True
  with send_message_eq [OF k len] send have "k' = snd (send_rest k b)"
    by (metis option.inject snd_conv)
  with send_rest_queue [OF k q, of b] show ?thesis by simp
next
  case False
  obtain x k1 where e: "send_extend k b (int (length b)) = (drop x b, int (length (drop x b)), k1)"
    and q1: "queue_ok k1" and frame: "k_mss k1 = k_mss k" "k_stream k1 = k_stream k"
    using send_extend_spec [OF k q, of b] by blast
  obtain q' where k1: "k1 = k\<lparr>k_snd_queue := q'\<rparr>"
    using send_extend_writes [of k b "int (length b)"] e by auto
  have ok: "mss_ok k1" and l: "length (drop x b) < 2 ^ 31"
    using k len frame by (auto simp: mss_ok_def)
  have nq: "k1 = k\<lparr>k_snd_queue := q', k_nsnd_que := k_nsnd_que k\<rparr>"
    by (simp add: k1)
  define b' where "b' = drop x b"
  from send_rest_eq [OF ok l [folded b'_def]] send k False frame
  have "k' = k1 \<or> k' = snd (send_rest k1 b')"
    unfolding ikcp_send_def e b'_def [symmetric] by (auto simp: mss_ok_neq split: if_splits)
  then show ?thesis
  proof
    assume "k' = k1"
    with nq q1 show ?thesis by blast
  next
    assume "k' = snd (send_rest k1 b')"
    with send_rest_queue [OF ok q1, of b'] show ?thesis by (auto simp: k1)
  qed
qed

section \<open>Properties\<close>

text \<open>\<open>ikcp_send\<close> in message mode.  A message that needs 128 fragments or more (the rounded-up
  quotient by \<open>mss\<close>, computed by the code in wrapping 32-bit arithmetic) is refused with -2 and no
  effect; any other one, the empty one included, is appended as that many segments of at most
  \<open>mss\<close> bytes whose data concatenate to the buffer and whose fragment numbers count down to 0.\<close>
theorem send_message_spec:
  assumes k: "mss_ok k" and len: "length b < 2 ^ 31" and msg: "k_stream k = 0"
  shows "\<exists>r k'. ikcp_send k b (int (length b)) = Some (r, k') \<and>
    (if 128 \<le> frag_count (unat (k_mss k)) (length b) then r = -2 \<and> k' = k
     else \<exists>m. r = 0 \<and> k_snd_queue k' = k_snd_queue k @ m \<and>
       length m = frag_count (unat (k_mss k)) (length b) \<and>
       concat (map seg_data m) = b \<and> framed m \<and> (\<forall>s\<in>set m. unat (seg_len s) \<le> unat (k_mss k)) \<and>
       k_nsnd_que k' = k_nsnd_que k + of_nat (length m))"
proof -
  define mss c where "mss = unat (k_mss k)" and "c = frag_count mss (length b)"
  have mss: "0 < mss" "mss < 2 ^ 31"
    using k by (simp_all add: mss_ok_def mss_def)
  note r = send_message_eq [OF k len msg, unfolded send_rest_def Let_def, folded mss_def, folded c_def]
  show ?thesis
    using fragments_message [OF mss, where b = b] msg
    by (simp add: r mss_def [symmetric] c_def [symmetric])
qed

definition demo_kcp :: ikcpcb where
  "demo_kcp = (ikcp_init 9)\<lparr>k_mss := 4\<rparr>"

lemma demo_kcp [simp]:
  "k_mss demo_kcp = 4" "k_stream demo_kcp = 0" "k_snd_queue demo_kcp = []" "k_nsnd_que demo_kcp = 0"
  "mss_ok demo_kcp" "rcv_inv demo_kcp"
  by (simp_all add: demo_kcp_def ikcp_init_def mss_ok_def rcv_inv_def rcv_sorted_def rcv_counts_def
      rcv_drained_def)

theorem send_message_spec_witness:
  "\<exists>r k'. ikcp_send demo_kcp [1, 2, 3, 4, 5] 5 = Some (r, k') \<and> length (k_snd_queue k') = 2"
proof -
  have c: "frag_count (unat (k_mss demo_kcp)) (length [1, 2, 3, 4, 5 :: u8]) = 2"
    by (simp add: frag_count_def)
  show ?thesis
    using send_message_spec [of demo_kcp "[1, 2, 3, 4, 5]"] unfolding c by auto
qed

text \<open>C12: message round trip.  A message that \<open>ikcp_send\<close> accepts (message mode) and whose segments
  reach the peer's in-order queue with their fragment numbers, lengths and data is returned by one
  \<open>ikcp_recv\<close> as exactly the bytes sent, whatever else is queued behind it; what follows stays
  queued (more segments may move in from the reorder buffer) and the receive invariant holds.\<close>
theorem send_recv_roundtrip:
  assumes send: "mss_ok k" "k_stream k = 0" "length b < 2 ^ 31"
      "ikcp_send k b (int (length b)) = Some (0, k')"
    and carried: "k_snd_queue k' = k_snd_queue k @ m"
      "map (\<lambda>s. (seg_frg s, seg_len s, seg_data s)) m' = map (\<lambda>s. (seg_frg s, seg_len s, seg_data s)) m"
    and recv: "rcv_inv j" "k_rcv_queue j = m' @ rest" "int (length b) \<le> len"
  shows "\<exists>j' moved. ikcp_recv j len = Some (int (length b), b, j') \<and>
    k_rcv_queue j' = rest @ moved \<and> rcv_inv j'"
proof -
  have m: "concat (map seg_data m) = b" "framed m"
    using send_message_eq [OF send(1,3,2)] send carried(1) fragments_message [of "unat (k_mss k)", where b = b]
    by (auto simp: send_rest_def Let_def mss_ok_def split: if_splits)
  have frg: "map seg_frg m' = map seg_frg m" and len': "map seg_len m' = map seg_len m"
    and data: "map seg_data m' = map seg_data m"
    using arg_cong [OF carried(2), of "map fst"] arg_cong [OF carried(2), of "map (fst \<circ> snd)"]
      arg_cong [OF carried(2), of "map (snd \<circ> snd)"] by (simp_all add: comp_def)
  have "length m' = length m"
    using carried(2) map_eq_imp_length_eq by blast
  moreover have "\<forall>s\<in>set m'. seg_wf s"
  proof
    fix s
    assume "s \<in> set m'"
    then have "(seg_frg s, seg_len s, seg_data s) \<in> set (map (\<lambda>s. (seg_frg s, seg_len s, seg_data s)) m)"
      unfolding carried(2) [symmetric] by simp
    then obtain t where "t \<in> set m" "seg_len s = seg_len t" "seg_data s = seg_data t" by auto
    with m(2) show "seg_wf s" by (auto simp: framed_def seg_wf_def)
  qed
  ultimately have fr: "framed m'"
    using m(2) frg by (auto simp: framed_def)
  have total: "total_len m' = length b"
    using fr m(1) data total_len_bytes [of m'] by (simp add: framed_def)
  show ?thesis
    using recv_message [OF recv(1,2) fr, of len] total send(3) recv(3) data m(1) by simp
qed

theorem send_recv_roundtrip_witness:
  "\<exists>j' moved. ikcp_recv (demo_kcp\<lparr>k_rcv_queue := fragments 4 2 True [1, 2, 3, 4, 5], k_nrcv_que := 2\<rparr>) 5 =
      Some (5, [1, 2, 3, 4, 5], j') \<and> k_rcv_queue j' = [] @ moved \<and> rcv_inv j'"
proof -
  have c: "frag_count 4 (length [1, 2, 3, 4, 5 :: u8]) = 2"
    by (simp add: frag_count_def)
  let ?k' = "demo_kcp\<lparr>k_snd_queue := fragments 4 2 True [1, 2, 3, 4, 5], k_nsnd_que := 2\<rparr>"
  let ?j = "demo_kcp\<lparr>k_rcv_queue := fragments 4 2 True [1, 2, 3, 4, 5], k_nrcv_que := 2\<rparr>"
  have s: "ikcp_send demo_kcp [1, 2, 3, 4, 5] (int (length [1, 2, 3, 4, 5 :: u8])) = Some (0, ?k')"
    using send_message_eq [of demo_kcp "[1, 2, 3, 4, 5]"] c by (simp add: send_rest_def)
  have j: "rcv_inv ?j"
    by (simp add: demo_kcp_def ikcp_init_def rcv_inv_def rcv_sorted_def rcv_counts_def rcv_drained_def)
  show ?thesis
    using send_recv_roundtrip [OF _ _ _ s _ refl j, where rest = "[]" and len = 5] by simp
qed

text \<open>\<open>ikcp_send\<close> in stream mode.  The bytes are appended, in order and without a message
  boundary, to the bytes already queued and no segment outgrows \<open>mss\<close>: all of them when the code
  is 0; when the code is -2 (128 fragments or more would remain) at most the bytes that filled up
  the last queued segment, which have then been consumed although an error is reported.\<close>
theorem send_stream_spec:
  assumes k: "mss_ok k" and q: "queue_ok k" and len: "length b < 2 ^ 31" and str: "k_stream k \<noteq> 0"
  shows "\<exists>r x k'. ikcp_send k b (int (length b)) = Some (r, k') \<and>
    concat (map seg_data (k_snd_queue k')) = concat (map seg_data (k_snd_queue k)) @ take x b \<and>
    queue_ok k' \<and>
    (r = 0 \<and> length b \<le> x \<and>
       k_nsnd_que k' = k_nsnd_que k + of_nat (length (k_snd_queue k') - length (k_snd_queue k)) \<or>
     r = -2 \<and> x \<le> unat (k_mss k) \<and> 128 \<le> frag_count (unat (k_mss k)) (length b - x) \<and>
       length (k_snd_queue k') = length (k_snd_queue k) \<and> k_nsnd_que k' = k_nsnd_que k)"
proof -
  obtain x k1 where e: "send_extend k b (int (length b)) = (drop x b, int (length (drop x b)), k1)"
    and bytes: "concat (map seg_data (k_snd_queue k1)) = concat (map seg_data (k_snd_queue k)) @ take x b"
    and x: "x \<le> unat (k_mss k)" and q1: "queue_ok k1"
    and frame: "length (k_snd_queue k1) = length (k_snd_queue k)" "k_mss k1 = k_mss k"
      "k_stream k1 = k_stream k" "k_nsnd_que k1 = k_nsnd_que k"
    using send_extend_spec [OF k q, of b] by blast
  have k1: "mss_ok k1"
    using k frame by (simp add: mss_ok_def)
  have step: "ikcp_send k b (int (length b)) =
      (if drop x b = [] then Some (0, k1) else Some (send_rest k1 (drop x b)))"
  proof -
    define b' where "b' = drop x b"
    have "length b' < 2 ^ 31" using len by (simp add: b'_def)
    from send_rest_eq [OF k1 this] k str frame show ?thesis
      unfolding ikcp_send_def e b'_def [symmetric] by (simp add: mss_ok_neq)
  qed
  define mss c where "mss = unat (k_mss k)" and "c = frag_count mss (length (drop x b))"
  have mss: "0 < mss" "mss < 2 ^ 31"
    using k by (simp_all add: mss_ok_def mss_def)
  let ?m = "fragments mss c False (drop x b)"
  consider "drop x b = []" | "drop x b \<noteq> []" "128 \<le> c" | "drop x b \<noteq> []" "\<not> 128 \<le> c"
    by blast
  then show ?thesis
  proof cases
    case 1
    with step bytes q1 frame show ?thesis
      by (intro exI [of _ 0] exI [of _ x] exI [of _ k1]) simp
  next
    case 2
    with step bytes x q1 frame show ?thesis
      by (intro exI [of _ "-2"] exI [of _ x] exI [of _ k1])
         (simp add: send_rest_def mss_def [symmetric] c_def [symmetric, simplified])
  next
    case 3
    let ?k = "k1\<lparr>k_snd_queue := k_snd_queue k1 @ ?m, k_nsnd_que := k_nsnd_que k1 + of_nat c\<rparr>"
    have "ikcp_send k b (int (length b)) = Some (0, ?k)"
      using 3 step frame str
      by (simp add: send_rest_def mss_def [symmetric] c_def [symmetric, simplified] Let_def)
    moreover have "concat (map seg_data ?m) = drop x b"
      using mss(1) unfolding c_def by (intro fragments_bytes frag_count_enough)
    moreover have "queue_ok ?k"
      using q1 fragments_wf [OF mss(2)] frame by (auto simp: queue_ok_def mss_def)
    ultimately show ?thesis
      using bytes frame by (intro exI [of _ 0] exI [of _ "length b"] exI [of _ ?k]) simp
  qed
qed

definition demo_stream :: ikcpcb where
  "demo_stream = demo_kcp\<lparr>k_stream := 1, k_snd_queue := [ikcp_segment_new [7] 1 0], k_nsnd_que := 1\<rparr>"

lemma demo_stream [simp]:
  "k_mss demo_stream = 4" "k_stream demo_stream = 1" "mss_ok demo_stream" "queue_ok demo_stream"
  "k_snd_queue demo_stream = [ikcp_segment_new [7] 1 0]"
  by (simp_all add: demo_stream_def mss_ok_def queue_ok_def seg_wf_def ikcp_segment_new_def)

theorem send_stream_spec_witness:
  "\<exists>r x k'. ikcp_send demo_stream [1, 2, 3, 4, 5] 5 = Some (r, k') \<and>
    concat (map seg_data (k_snd_queue k')) = [7] @ take x [1, 2, 3, 4, 5] \<and> queue_ok k'"
  using send_stream_spec [of demo_stream "[1, 2, 3, 4, 5]"] by (auto simp: ikcp_segment_new_def)

text \<open>
  In stream mode the code -2 does not mean that nothing was sent: the first bytes of the buffer
  have already been moved into the queued segment.
\<close>
lemma stream_send_partial:
  "ikcp_send demo_stream (replicate 600 0) 600 =
    Some (-2, demo_stream\<lparr>k_snd_queue := [ikcp_segment_new [7, 0, 0, 0] 4 0]\<rparr>)"
proof -
  have e: "send_extend demo_stream (replicate 600 0) 600 =
      (replicate 597 0, 597, demo_stream\<lparr>k_snd_queue := [ikcp_segment_new [7, 0, 0, 0] 4 0]\<rparr>)"
    using send_extend_snoc [of demo_stream "[]" "ikcp_segment_new [7] 1 0" "replicate 600 0" 600]
    by (simp add: ikcp_segment_new_def seg_bytes_def u32_def numeral_3_eq_3)
  show ?thesis
    unfolding ikcp_send_def e by (simp add: send_count_def u32_def)
qed

end
