(* ===== verification/Kcp_Flush.thy ===== *)
theory Kcp_Flush
  imports Kcp_Input Kcp_Send
begin

text \<open>
  \<open>ikcp_flush\<close>, \<open>ikcp_update\<close> and \<open>ikcp_check\<close> (\<open>ikcp.c\<close>, lines 173--184 and 1045--1357): packing
  acknowledgements, window probes and data into datagrams, retransmission, the congestion window after a
  loss, and the schedule.  The datagrams handed to the \<open>output\<close> callback are the first component of
  the result, in order; the second is the control block.
\<close>

section \<open>Packing\<close>

text \<open>
  The datagrams already output, and the bytes between \<open>buffer\<close> and \<open>ptr\<close>.
\<close>

type_synonym outbuf = "u8 list list \<times> u8 list"

definition ikcp_output :: "u8 list list \<Rightarrow> u8 list \<Rightarrow> u8 list list" where
  "ikcp_output outs bs = (if bs = [] then outs else outs @ [bs])"

definition make_room :: "ikcpcb \<Rightarrow> int \<Rightarrow> outbuf \<Rightarrow> outbuf" where
  "make_room k need = (\<lambda>(outs, ptr).
     if int (length ptr) + need > i32 (k_mtu k) then (ikcp_output outs ptr, []) else (outs, ptr))"

definition put_cmd :: "ikcpcb \<Rightarrow> ikcpseg \<Rightarrow> outbuf \<Rightarrow> outbuf" where
  "put_cmd k seg ob =
    (let (outs, ptr) = make_room k (i32 IKCP_OVERHEAD) ob in (outs, ikcp_encode_seg ptr seg))"

definition put_data :: "ikcpcb \<Rightarrow> ikcpseg \<Rightarrow> outbuf \<Rightarrow> outbuf" where
  "put_data k seg ob =
    (let (outs, ptr) = make_room k (i32 (IKCP_OVERHEAD + seg_len seg)) ob
     in (outs, ikcp_put_seg ptr seg))"

section \<open>Acknowledgements and window probes\<close>

text \<open>
  The local segment \<open>seg\<close>; the fields that are never initialised are not encoded and are 0 here.
\<close>

definition flush_seg :: "ikcpcb \<Rightarrow> ikcpseg" where
  "flush_seg k = \<lparr>seg_conv = k_conv k, seg_cmd = IKCP_CMD_ACK, seg_frg = 0,
     seg_wnd = u32 (ikcp_wnd_unused k), seg_ts = 0, seg_sn = 0, seg_una = k_rcv_nxt k, seg_len = 0,
     seg_resendts = 0, seg_rto = 0, seg_fastack = 0, seg_xmit = 0, seg_data = []\<rparr>"

fun flush_acks :: "ikcpcb \<Rightarrow> nat list \<Rightarrow> ikcpseg \<Rightarrow> outbuf \<Rightarrow> ikcpseg \<times> outbuf" where
  "flush_acks k [] seg ob = (seg, ob)"
| "flush_acks k (i # is) seg ob =
    (let (sn, ts) = ikcp_ack_get k i;
         seg = seg\<lparr>seg_sn := sn, seg_ts := ts\<rparr>
     in flush_acks k is seg (put_cmd k seg ob))"

definition probe_timer :: "ikcpcb \<Rightarrow> ikcpcb" where
  "probe_timer k =
    (if k_rmt_wnd k = 0 then
       if k_probe_wait k = 0 then
         k\<lparr>k_probe_wait := IKCP_PROBE_INIT, k_ts_probe := k_current k + IKCP_PROBE_INIT\<rparr>
       else if itimediff (k_current k) (k_ts_probe k) \<ge> 0 then
         let wait = (if k_probe_wait k < IKCP_PROBE_INIT then IKCP_PROBE_INIT else k_probe_wait k);
             wait = wait + wait div 2;
             wait = (if wait > IKCP_PROBE_LIMIT then IKCP_PROBE_LIMIT else wait)
         in k\<lparr>k_probe_wait := wait, k_ts_probe := k_current k + wait,
              k_probe := k_probe k OR IKCP_ASK_SEND\<rparr>
       else k
     else k\<lparr>k_probe_wait := 0, k_ts_probe := 0\<rparr>)"

definition flush_probes :: "ikcpcb \<Rightarrow> ikcpseg \<Rightarrow> outbuf \<Rightarrow> outbuf" where
  "flush_probes k seg ob =
    (let ob = (if k_probe k AND IKCP_ASK_SEND \<noteq> 0
               then put_cmd k (seg\<lparr>seg_cmd := IKCP_CMD_WASK\<rparr>) ob else ob)
     in if k_probe k AND IKCP_ASK_TELL \<noteq> 0
        then put_cmd k (seg\<lparr>seg_cmd := IKCP_CMD_WINS\<rparr>) ob else ob)"

section \<open>Filling the send window\<close>

definition flush_cwnd :: "ikcpcb \<Rightarrow> u32" where
  "flush_cwnd k =
    (let cwnd = imin (k_snd_wnd k) (k_rmt_wnd k)
     in if k_nocwnd k = 0 then imin (k_cwnd k) cwnd else cwnd)"

definition fill_seg :: "ikcpcb \<Rightarrow> u32 \<Rightarrow> ikcpseg \<Rightarrow> ikcpseg" where
  "fill_seg k wnd newseg = newseg\<lparr>seg_conv := k_conv k, seg_cmd := IKCP_CMD_PUSH, seg_wnd := wnd,
     seg_ts := k_current k, seg_sn := k_snd_nxt k, seg_una := k_rcv_nxt k,
     seg_resendts := k_current k, seg_rto := u32 (k_rx_rto k), seg_fastack := 0, seg_xmit := 0\<rparr>"

fun fill_loop :: "u32 \<Rightarrow> u32 \<Rightarrow> ikcpseg list \<Rightarrow> ikcpcb \<Rightarrow> ikcpcb" where
  "fill_loop cwnd wnd [] k = k\<lparr>k_snd_queue := []\<rparr>"
| "fill_loop cwnd wnd (newseg # q) k =
    (if itimediff (k_snd_nxt k) (k_snd_una k + cwnd) < 0
     then fill_loop cwnd wnd q (k\<lparr>k_snd_buf := k_snd_buf k @ [fill_seg k wnd newseg],
            k_nsnd_que := k_nsnd_que k - 1, k_nsnd_buf := k_nsnd_buf k + 1,
            k_snd_nxt := k_snd_nxt k + 1\<rparr>)
     else k\<lparr>k_snd_queue := newseg # q\<rparr>)"

section \<open>Sending and resending\<close>

text \<open>Why a segment is sent, if it is.\<close>

datatype send_kind = Idle | First | Timeout | Fast

definition flush_decide :: "ikcpcb \<Rightarrow> u32 \<Rightarrow> u32 \<Rightarrow> ikcpseg \<Rightarrow> send_kind \<times> ikcpseg" where
  "flush_decide k resent rtomin s =
    (let current = k_current k in
     if seg_xmit s = 0 then
       (First, s\<lparr>seg_xmit := seg_xmit s + 1, seg_rto := u32 (k_rx_rto k),
                 seg_resendts := current + u32 (k_rx_rto k) + rtomin\<rparr>)
     else if itimediff current (seg_resendts s) \<ge> 0 then
       let rto = (if k_nodelay k = 0 then seg_rto s + imax (seg_rto s) (u32 (k_rx_rto k))
                  else
                    let step = (if k_nodelay k < 2 then i32 (seg_rto s) else k_rx_rto k)
                    in seg_rto s + u32 (cdiv step 2))
       in (Timeout, s\<lparr>seg_xmit := seg_xmit s + 1, seg_rto := rto, seg_resendts := current + rto\<rparr>)
     else if seg_fastack s \<ge> resent then
       if i32 (seg_xmit s) \<le> k_fastlimit k \<or> k_fastlimit k \<le> 0 then
         (Fast, s\<lparr>seg_xmit := seg_xmit s + 1, seg_fastack := 0,
                  seg_resendts := current + seg_rto s\<rparr>)
       else (Idle, s)
     else (Idle, s))"

definition stamp_seg :: "ikcpcb \<Rightarrow> u32 \<Rightarrow> ikcpseg \<Rightarrow> ikcpseg" where
  "stamp_seg k wnd s = s\<lparr>seg_ts := k_current k, seg_wnd := wnd, seg_una := k_rcv_nxt k\<rparr>"

text \<open>
  The loop over \<open>snd_buf\<close>: the segments visited, the datagrams, and the local \<open>lost\<close> and \<open>change\<close>.
\<close>

fun data_loop :: "u32 \<Rightarrow> u32 \<Rightarrow> u32 \<Rightarrow> ikcpseg list \<Rightarrow> ikcpseg list \<Rightarrow> ikcpcb \<Rightarrow> outbuf \<Rightarrow> bool \<Rightarrow> nat \<Rightarrow>
    ikcpcb \<times> outbuf \<times> bool \<times> nat" where
  "data_loop resent rtomin wnd [] done k ob lost change =
     (k\<lparr>k_snd_buf := done\<rparr>, ob, lost, change)"
| "data_loop resent rtomin wnd (s # p) done k ob lost change =
    (let (kind, s) = flush_decide k resent rtomin s;
         lost = (lost \<or> kind = Timeout);
         change = (if kind = Fast then change + 1 else change);
         k = (if kind = Timeout then k\<lparr>k_xmit := k_xmit k + 1\<rparr> else k)
     in if kind = Idle then data_loop resent rtomin wnd p (done @ [s]) k ob lost change
        else
          let s = stamp_seg k wnd s;
              ob = put_data k s ob;
              k = (if seg_xmit s \<ge> k_dead_link k then k\<lparr>k_state := -1\<rparr> else k)
          in data_loop resent rtomin wnd p (done @ [s]) k ob lost change)"

section \<open>The congestion window after a flush\<close>

definition after_fast :: "u32 \<Rightarrow> ikcpcb \<Rightarrow> ikcpcb" where
  "after_fast resent k =
    (let inflight = k_snd_nxt k - k_snd_una k;
         ssthresh = inflight div 2;
         ssthresh = (if ssthresh < IKCP_THRESH_MIN then IKCP_THRESH_MIN else ssthresh);
         cwnd = ssthresh + resent
     in k\<lparr>k_ssthresh := ssthresh, k_cwnd := cwnd, k_incr := cwnd * k_mss k\<rparr>)"

definition after_loss :: "u32 \<Rightarrow> ikcpcb \<Rightarrow> ikcpcb" where
  "after_loss cwnd k =
    (let ssthresh = cwnd div 2;
         ssthresh = (if ssthresh < IKCP_THRESH_MIN then IKCP_THRESH_MIN else ssthresh)
     in k\<lparr>k_ssthresh := ssthresh, k_cwnd := 1, k_incr := k_mss k\<rparr>)"

definition flush_window :: "u32 \<Rightarrow> u32 \<Rightarrow> bool \<Rightarrow> nat \<Rightarrow> ikcpcb \<Rightarrow> ikcpcb" where
  "flush_window resent cwnd lost change k =
    (let k = (if change \<noteq> 0 then after_fast resent k else k);
         k = (if lost then after_loss cwnd k else k)
     in if k_cwnd k < 1 then k\<lparr>k_cwnd := 1, k_incr := k_mss k\<rparr> else k)"

section \<open>The whole flush, and the clock\<close>

definition flush_resent :: "ikcpcb \<Rightarrow> u32" where
  "flush_resent k = (if k_fastresend k > 0 then u32 (k_fastresend k) else 0xffffffff)"

definition flush_rtomin :: "ikcpcb \<Rightarrow> u32" where
  "flush_rtomin k = (if k_nodelay k = 0 then u32 (drop_bit 3 (k_rx_rto k)) else 0)"

definition ikcp_flush :: "ikcpcb \<Rightarrow> u8 list list \<times> ikcpcb" where
  "ikcp_flush k =
    (if k_updated k = 0 then ([], k)
     else
       let seg = flush_seg k;
           (seg, ob) = flush_acks k [0..<nat (i32 (k_ackcount k))] seg ([], []);
           k = probe_timer (k\<lparr>k_ackcount := 0\<rparr>);
           ob = flush_probes k seg ob;
           k = k\<lparr>k_probe := 0\<rparr>;
           cwnd = flush_cwnd k;
           k = fill_loop cwnd (seg_wnd seg) (k_snd_queue k) k;
           resent = flush_resent k;
           rtomin = flush_rtomin k;
           (k, (outs, ptr), lost, change) =
             data_loop resent rtomin (seg_wnd seg) (k_snd_buf k) [] k ob False 0;
           outs = (if length ptr > 0 then ikcp_output outs ptr else outs)
       in (outs, flush_window resent cwnd lost change k))"

definition ikcp_update :: "ikcpcb \<Rightarrow> u32 \<Rightarrow> u8 list list \<times> ikcpcb" where
  "ikcp_update k current =
    (let k = k\<lparr>k_current := current\<rparr>;
         k = (if k_updated k = 0 then k\<lparr>k_updated := 1, k_ts_flush := current\<rparr> else k);
         slap = itimediff current (k_ts_flush k);
         (k, slap) = (if slap \<ge> 10000 \<or> slap < -10000 then (k\<lparr>k_ts_flush := current\<rparr>, 0) else (k, slap))
     in if slap \<ge> 0 then
          let k = k\<lparr>k_ts_flush := k_ts_flush k + k_interval k\<rparr>;
              k = (if itimediff current (k_ts_flush k) \<ge> 0
                   then k\<lparr>k_ts_flush := current + k_interval k\<rparr> else k)
          in ikcp_flush k
        else ([], k))"

text \<open>The loop of \<open>ikcp_check\<close>: \<open>None\<close> is the early return (a segment is due).\<close>

fun check_loop :: "ikcpseg list \<Rightarrow> u32 \<Rightarrow> int \<Rightarrow> int option" where
  "check_loop [] current tm_packet = Some tm_packet"
| "check_loop (seg # p) current tm_packet =
    (let diff = itimediff (seg_resendts seg) current
     in if diff \<le> 0 then None
        else check_loop p current (if diff < tm_packet then diff else tm_packet))"

definition ikcp_check :: "ikcpcb \<Rightarrow> u32 \<Rightarrow> u32" where
  "ikcp_check k current =
    (if k_updated k = 0 then current
     else
       let ts_flush = (if itimediff current (k_ts_flush k) \<ge> 10000 \<or>
                          itimediff current (k_ts_flush k) < -10000 then current else k_ts_flush k)
       in if itimediff current ts_flush \<ge> 0 then current
          else
            let tm_flush = itimediff ts_flush current
            in case check_loop (k_snd_buf k) current 0x7fffffff of
                 None \<Rightarrow> current
               | Some tm_packet \<Rightarrow>
                   let minimal = u32 (if tm_packet < tm_flush then tm_packet else tm_flush);
                       minimal = (if minimal \<ge> k_interval k then k_interval k else minimal)
                   in current + minimal)"

section \<open>Packing loses nothing and respects the MTU\<close>

definition datagram :: "ikcpseg list \<Rightarrow> u8 list" where
  "datagram ss = foldl ikcp_put_seg [] ss"

definition pack_ok :: "nat \<Rightarrow> ikcpseg \<Rightarrow> bool" where
  "pack_ok mtu s \<longleftrightarrow> seg_wf s \<and> 24 + unat (seg_len s) \<le> mtu"

text \<open>The buffers hold the list \<open>L\<close> of segments, cut into datagrams of at most \<open>mtu\<close> bytes.\<close>

definition packs :: "nat \<Rightarrow> outbuf \<Rightarrow> ikcpseg list \<Rightarrow> bool" where
  "packs mtu ob L \<longleftrightarrow> (\<exists>sss cur. fst ob = map datagram sss \<and> snd ob = datagram cur \<and>
     concat sss @ cur = L \<and> [] \<notin> set sss \<and> (\<forall>ss\<in>set (cur # sss). length (datagram ss) \<le> mtu))"

lemma packs_empty: "packs mtu ([], []) []"
  unfolding packs_def by (intro exI [of _ "[]"]) (simp add: datagram_def)

lemma put_data_packs:
  assumes ob: "packs mtu ob L" and s: "pack_ok mtu s" and mtu: "mtu = unat (k_mtu k)" "mtu < 2 ^ 31"
  shows "packs mtu (put_data k s ob) (L @ [s])"
proof -
  obtain sss cur where c: "ob = (map datagram sss, datagram cur)" "concat sss @ cur = L" "[] \<notin> set sss"
    "\<forall>ss\<in>set (cur # sss). length (datagram ss) \<le> mtu"
    using ob unfolding packs_def by (metis prod.collapse)
  have wf: "seg_wf s" and fits: "24 + unat (seg_len s) \<le> mtu"
    using s by (simp_all add: pack_ok_def)
  have "unat (24 + seg_len s) = 24 + unat (seg_len s)"
    using fits mtu(2) by (simp add: unat_word_ariths)
  then have need: "i32 (24 + seg_len s) = int (24 + unat (seg_len s))"
    using fits mtu(2) by (subst i32_small) simp_all
  have room: "i32 (k_mtu k) = int mtu"
    using mtu by (simp add: i32_small del: of_nat_unat)
  have one: "length (datagram [s]) = 24 + unat (seg_len s)"
    using put_seg_length [OF wf, of "[]"] by (simp add: datagram_def)
  have more: "length (datagram (cur @ [s])) = length (datagram cur) + 24 + unat (seg_len s)"
    using put_seg_length [OF wf, of "datagram cur"] by (simp add: datagram_def)
  show ?thesis
  proof (cases "length (datagram cur) + (24 + unat (seg_len s)) > mtu")
    case True
    then have "datagram cur \<noteq> []" using fits by auto
    then have ne: "cur \<noteq> []" by (auto simp: datagram_def)
    have "put_data k s ob = (map datagram (sss @ [cur]), datagram [s])"
      using True \<open>datagram cur \<noteq> []\<close>
      by (simp add: put_data_def make_room_def c(1) need room ikcp_output_def datagram_def del: of_nat_unat)
    then show ?thesis
      unfolding packs_def using c ne one fits
      by (intro exI [of _ "sss @ [cur]"] exI [of _ "[s]"]) simp
  next
    case False
    then have "put_data k s ob = (map datagram sss, datagram (cur @ [s]))"
      by (simp add: put_data_def make_room_def c(1) need room datagram_def del: of_nat_unat)
    then show ?thesis
      unfolding packs_def using c False more
      by (intro exI [of _ sss] exI [of _ "cur @ [s]"]) simp
  qed
qed

lemma put_cmd_put_data: "seg_len s = 0 \<Longrightarrow> put_cmd k s ob = put_data k s ob"
  by (simp add: put_cmd_def put_data_def ikcp_put_seg_def Let_def)

lemma put_cmd_packs:
  assumes "packs mtu ob L" and "seg_len s = 0" and "seg_data s = []"
    and "mtu = unat (k_mtu k)" "mtu < 2 ^ 31" "24 \<le> mtu"
  shows "packs mtu (put_cmd k s ob) (L @ [s])"
  using assms put_data_packs [OF assms(1) _ assms(4,5), of s]
  by (simp add: put_cmd_put_data pack_ok_def seg_wf_def)

lemma put_list_packs:
  assumes "packs mtu ob L" and "\<forall>s\<in>set ss. pack_ok mtu s" and "mtu = unat (k_mtu k)" "mtu < 2 ^ 31"
  shows "packs mtu (foldl (\<lambda>ob s. put_data k s ob) ob ss) (L @ ss)"
  using assms(1,2)
proof (induction ss arbitrary: ob L)
  case Nil
  then show ?case by simp
next
  case (Cons s ss)
  have "packs mtu (put_data k s ob) (L @ [s])"
    using Cons.prems assms(3,4) by (intro put_data_packs) simp_all
  then show ?case
    using Cons.IH [of "put_data k s ob" "L @ [s]"] Cons.prems by simp
qed

text \<open>The segments that the acknowledgements and probes become.\<close>

definition ack_seg :: "ikcpcb \<Rightarrow> ikcpseg \<Rightarrow> nat \<Rightarrow> ikcpseg" where
  "ack_seg k seg i = seg\<lparr>seg_sn := fst (ikcp_ack_get k i), seg_ts := snd (ikcp_ack_get k i)\<rparr>"

lemma flush_acks_packs:
  assumes "packs mtu ob L" and "seg_len seg = 0" and "seg_data seg = []"
    and "mtu = unat (k_mtu k)" "mtu < 2 ^ 31" "24 \<le> mtu"
  shows "packs mtu (snd (flush_acks k is seg ob)) (L @ map (ack_seg k seg) is) \<and>
    (\<exists>sn ts. fst (flush_acks k is seg ob) = seg\<lparr>seg_sn := sn, seg_ts := ts\<rparr>)"
  using assms(1-3)
proof (induction "is" arbitrary: seg ob L)
  case Nil
  moreover have "seg = seg\<lparr>seg_sn := seg_sn seg, seg_ts := seg_ts seg\<rparr>" by simp
  then have "\<exists>sn ts. seg = seg\<lparr>seg_sn := sn, seg_ts := ts\<rparr>" by blast
  ultimately show ?case by simp
next
  case (Cons i "is")
  let ?s = "ack_seg k seg i"
  have s: "seg_len ?s = 0" "seg_data ?s = []"
    using Cons.prems by (simp_all add: ack_seg_def)
  have "packs mtu (put_cmd k ?s ob) (L @ [?s])"
    by (rule put_cmd_packs [OF Cons.prems(1) s assms(4-6)])
  from Cons.IH [OF this s] show ?case
    by (simp add: ack_seg_def split_beta Let_def comp_def)
qed

definition probe_segs :: "ikcpcb \<Rightarrow> ikcpseg \<Rightarrow> ikcpseg list" where
  "probe_segs k seg = (if k_probe k AND 1 \<noteq> 0 then [seg\<lparr>seg_cmd := 83\<rparr>] else []) @
     (if k_probe k AND 2 \<noteq> 0 then [seg\<lparr>seg_cmd := 84\<rparr>] else [])"

lemma flush_probes_packs:
  assumes "packs mtu ob L" and "seg_len seg = 0" and "seg_data seg = []"
    and "mtu = unat (k_mtu k)" "mtu < 2 ^ 31" "24 \<le> mtu"
  shows "packs mtu (flush_probes k seg ob) (L @ probe_segs k seg)"
proof -
  have put: "packs mtu (put_cmd k (seg\<lparr>seg_cmd := c\<rparr>) ob') (L' @ [seg\<lparr>seg_cmd := c\<rparr>])"
    if "packs mtu ob' L'" for c ob' L'
    using that assms by (intro put_cmd_packs) simp_all
  show ?thesis
    using put [OF assms(1)] put [OF put [OF assms(1)]] assms(1)
    by (simp add: flush_probes_def probe_segs_def Let_def)
qed

section \<open>The data loop\<close>

text \<open>A segment of \<open>snd_buf\<close> after the loop, and those that are sent.\<close>

definition visit_seg :: "ikcpcb \<Rightarrow> u32 \<Rightarrow> u32 \<Rightarrow> u32 \<Rightarrow> ikcpseg \<Rightarrow> ikcpseg" where
  "visit_seg k resent rtomin wnd s =
    (let (kind, s') = flush_decide k resent rtomin s in if kind = Idle then s' else stamp_seg k wnd s')"

definition kind_of :: "ikcpcb \<Rightarrow> u32 \<Rightarrow> u32 \<Rightarrow> ikcpseg \<Rightarrow> send_kind" where
  "kind_of k resent rtomin s = fst (flush_decide k resent rtomin s)"

definition sent_segs :: "ikcpcb \<Rightarrow> u32 \<Rightarrow> u32 \<Rightarrow> u32 \<Rightarrow> ikcpseg list \<Rightarrow> ikcpseg list" where
  "sent_segs k resent rtomin wnd p =
     map (visit_seg k resent rtomin wnd) (filter (\<lambda>s. kind_of k resent rtomin s \<noteq> Idle) p)"

lemma decide_frame [simp]:
  "flush_decide (k\<lparr>k_xmit := x\<rparr>) = flush_decide k" "flush_decide (k\<lparr>k_state := x\<rparr>) = flush_decide k"
  "stamp_seg (k\<lparr>k_xmit := x\<rparr>) = stamp_seg k" "stamp_seg (k\<lparr>k_state := x\<rparr>) = stamp_seg k"
  "put_data (k\<lparr>k_xmit := x\<rparr>) = put_data k" "put_data (k\<lparr>k_state := x\<rparr>) = put_data k"
  by (auto intro!: ext simp: flush_decide_def stamp_seg_def put_data_def make_room_def cong: if_cong)

lemma data_loop_eq:
  "data_loop resent rtomin wnd p done k ob lost change =
    (k\<lparr>k_xmit := k_xmit k + of_nat (length (filter (\<lambda>s. kind_of k resent rtomin s = Timeout) p)),
       k_state := (if \<exists>s\<in>set (sent_segs k resent rtomin wnd p). k_dead_link k \<le> seg_xmit s
                   then -1 else k_state k),
       k_snd_buf := done @ map (visit_seg k resent rtomin wnd) p\<rparr>,
     foldl (\<lambda>ob s. put_data k s ob) ob (sent_segs k resent rtomin wnd p),
     lost \<or> (\<exists>s\<in>set p. kind_of k resent rtomin s = Timeout),
     change + length (filter (\<lambda>s. kind_of k resent rtomin s = Fast) p))"
proof (induction p arbitrary: "done" k ob lost change)
  case Nil
  then show ?case by (simp add: sent_segs_def)
next
  case (Cons s p)
  obtain kind s' where d: "flush_decide k resent rtomin s = (kind, s')"
    by (meson surj_pair)
  have frame: "kind_of (k\<lparr>k_xmit := x\<rparr>) = kind_of k" "kind_of (k\<lparr>k_state := x\<rparr>) = kind_of k"
    "visit_seg (k\<lparr>k_xmit := x\<rparr>) = visit_seg k" "visit_seg (k\<lparr>k_state := x\<rparr>) = visit_seg k" for k x
    by (simp_all add: kind_of_def visit_seg_def fun_eq_iff cong: if_cong)
  have frame': "sent_segs (k\<lparr>k_xmit := x\<rparr>) = sent_segs k" "sent_segs (k\<lparr>k_state := x\<rparr>) = sent_segs k" for k x
    by (auto simp: sent_segs_def fun_eq_iff frame)
  have kd: "kind_of k resent rtomin s = kind" by (simp add: kind_of_def d)
  show ?case
  proof (cases "kind = Idle")
    case True
    then show ?thesis
      by (simp add: d kd Cons.IH sent_segs_def) (simp add: visit_seg_def d)
  next
    case False
    define k' where "k' = (if kind = Timeout then k\<lparr>k_xmit := k_xmit k + 1\<rparr> else k)"
    define v where "v = stamp_seg k wnd s'"
    define k2 where "k2 = (if k_dead_link k \<le> seg_xmit v then k'\<lparr>k_state := -1\<rparr> else k')"
    have same: "kind_of k2 = kind_of k" "visit_seg k2 = visit_seg k" "sent_segs k2 = sent_segs k"
      "put_data k2 = put_data k" "k_dead_link k2 = k_dead_link k"
      "k_xmit k2 = (if kind = Timeout then k_xmit k + 1 else k_xmit k)"
      "k_state k2 = (if k_dead_link k \<le> seg_xmit v then -1 else k_state k)"
      by (simp_all add: k2_def k'_def frame frame')
    have dl: "k_dead_link k' = k_dead_link k" "stamp_seg k' = stamp_seg k" "put_data k' = put_data k"
      by (simp_all add: k'_def)
    have v: "visit_seg k resent rtomin wnd s = v"
      using False by (simp add: visit_seg_def d v_def)
    have sent: "sent_segs k resent rtomin wnd (s # p) = v # sent_segs k resent rtomin wnd p"
      using False by (simp add: sent_segs_def kd v)
    have "data_loop resent rtomin wnd (s # p) done k ob lost change =
        data_loop resent rtomin wnd p (done @ [v]) k2 (put_data k v ob) (lost \<or> kind = Timeout)
          (if kind = Fast then change + 1 else change)"
      using False unfolding data_loop.simps d Let_def prod.case k'_def [symmetric]
      by (simp only: if_False dl v_def [symmetric] k2_def [symmetric])
    also have "\<dots> = (k2\<lparr>k_xmit := k_xmit k2 + of_nat (length (filter (\<lambda>s. kind_of k resent rtomin s = Timeout) p)),
       k_state := (if \<exists>s\<in>set (sent_segs k resent rtomin wnd p). k_dead_link k \<le> seg_xmit s
                   then -1 else k_state k2),
       k_snd_buf := (done @ [v]) @ map (visit_seg k resent rtomin wnd) p\<rparr>,
     foldl (\<lambda>ob s. put_data k s ob) (put_data k v ob) (sent_segs k resent rtomin wnd p),
     (lost \<or> kind = Timeout) \<or> (\<exists>s\<in>set p. kind_of k resent rtomin s = Timeout),
     (if kind = Fast then change + 1 else change) +
       length (filter (\<lambda>s. kind_of k resent rtomin s = Fast) p))"
      unfolding Cons.IH same ..
    finally show ?thesis
      by (simp add: sent kd v) (simp add: k2_def k'_def)
  qed
qed
section \<open>Filling the window\<close>

fun fill_count :: "u32 \<Rightarrow> u32 \<Rightarrow> u32 \<Rightarrow> nat \<Rightarrow> nat" where
  "fill_count cwnd una nxt 0 = 0"
| "fill_count cwnd una nxt (Suc n) =
     (if itimediff nxt (una + cwnd) < 0 then Suc (fill_count cwnd una (nxt + 1) n) else 0)"

fun fill_segs :: "ikcpcb \<Rightarrow> u32 \<Rightarrow> u32 \<Rightarrow> ikcpseg list \<Rightarrow> ikcpseg list" where
  "fill_segs k wnd nxt [] = []"
| "fill_segs k wnd nxt (s # q) = (fill_seg k wnd s)\<lparr>seg_sn := nxt\<rparr> # fill_segs k wnd (nxt + 1) q"

lemma fill_segs_length [simp]: "length (fill_segs k wnd nxt q) = length q"
  by (induction q arbitrary: nxt) auto

lemma fill_segs_sn: "map seg_sn (fill_segs k wnd nxt q) = map (\<lambda>i. nxt + of_nat i) [0..<length q]"
proof (induction q arbitrary: nxt)
  case Nil
  then show ?case by simp
next
  case (Cons s q)
  have "map (\<lambda>i. nxt + of_nat i) [0..<length (s # q)] =
      (nxt + of_nat 0) # map (\<lambda>i. nxt + of_nat i) [Suc 0..<Suc (length q)]"
    by (simp add: upt_conv_Cons del: upt_Suc)
  also have "map (\<lambda>i. nxt + of_nat i) [Suc 0..<Suc (length q)] =
      map (\<lambda>i. nxt + 1 + of_nat i) [0..<length q]"
    by (simp add: map_Suc_upt [symmetric] algebra_simps del: upt_Suc)
  finally show ?case
    by (simp add: Cons.IH)
qed

lemma fill_segs_carry:
  "map (\<lambda>s. (seg_frg s, seg_len s, seg_data s)) (fill_segs k wnd nxt q) =
   map (\<lambda>s. (seg_frg s, seg_len s, seg_data s)) q"
  by (induction q arbitrary: nxt) (simp_all add: fill_seg_def)

lemma fill_loop_eq:
  "fill_loop cwnd wnd q k =
    (let m = fill_count cwnd (k_snd_una k) (k_snd_nxt k) (length q)
     in k\<lparr>k_snd_buf := k_snd_buf k @ fill_segs k wnd (k_snd_nxt k) (take m q),
          k_nsnd_que := k_nsnd_que k - of_nat m, k_nsnd_buf := k_nsnd_buf k + of_nat m,
          k_snd_nxt := k_snd_nxt k + of_nat m, k_snd_queue := drop m q\<rparr>)"
proof (induction q arbitrary: k)
  case Nil
  then show ?case by simp
next
  case (Cons s q)
  show ?case
  proof (cases "itimediff (k_snd_nxt k) (k_snd_una k + cwnd) < 0")
    case True
    let ?k = "k\<lparr>k_snd_buf := k_snd_buf k @ [fill_seg k wnd s], k_nsnd_que := k_nsnd_que k - 1,
      k_nsnd_buf := k_nsnd_buf k + 1, k_snd_nxt := k_snd_nxt k + 1\<rparr>"
    have "fill_segs ?k wnd nxt p = fill_segs k wnd nxt p" for nxt p
      by (induction p arbitrary: nxt) (simp_all add: fill_seg_def)
    moreover have "(fill_seg k wnd s)\<lparr>seg_sn := k_snd_nxt k\<rparr> = fill_seg k wnd s"
      by (simp add: fill_seg_def)
    ultimately show ?thesis
      using True Cons.IH [of ?k] by (simp add: Let_def algebra_simps)
  next
    case False
    then show ?thesis by (simp add: Let_def)
  qed
qed

lemma fill_count_min:
  assumes "unat cwnd < 2 ^ 31"
  shows "unat (nxt - una) < 2 ^ 31 \<Longrightarrow>
    fill_count cwnd una nxt n = min n (unat cwnd - unat (nxt - una))"
proof (induction n arbitrary: nxt)
  case 0
  then show ?case by simp
next
  case (Suc n)
  have diff: "itimediff nxt (una + cwnd) = int (unat (nxt - una)) - int (unat cwnd)"
    using Suc.prems assms itimediff_off [of nxt una "una + cwnd"] by simp
  show ?case
  proof (cases "unat (nxt - una) < unat cwnd")
    case True
    have "nxt + 1 - una = (nxt - una) + 1" by simp
    then have "unat (nxt + 1 - una) = unat (nxt - una) + 1"
      using True by (simp only:) (simp add: unat_add_1_less [of "nxt - una" cwnd] word_less_nat_alt)
    with Suc.IH [of "nxt + 1"] True assms diff show ?thesis
      by (simp del: of_nat_unat)
  next
    case False
    with diff show ?thesis by (simp del: of_nat_unat)
  qed
qed

text \<open>The send buffer stays in order, and at most the window is in flight.\<close>

lemma fill_loop_inv:
  fixes wnd :: u32
  assumes k: "snd_inv k" and w: "unat cwnd < 2 ^ 31"
  defines "k' \<equiv> fill_loop cwnd wnd (k_snd_queue k) k"
  shows "snd_inv k'" and "in_flight k' = max (in_flight k) (min (in_flight k + length (k_snd_queue k)) (unat cwnd))"
proof -
  define q m where "q = k_snd_queue k" and "m = min (length q) (unat cwnd - in_flight k)"
  have fl: "in_flight k < 2 ^ 31"
    using k by (simp add: snd_inv_def snd_sorted_def)
  have "fill_count cwnd (k_snd_una k) (k_snd_nxt k) (length q) = m"
    using fill_count_min [OF w] fl by (simp add: in_flight_def m_def)
  then have k': "k' = k\<lparr>k_snd_buf := k_snd_buf k @ fill_segs k wnd (k_snd_nxt k) (take m q),
      k_nsnd_que := k_nsnd_que k - of_nat m, k_nsnd_buf := k_nsnd_buf k + of_nat m,
      k_snd_nxt := k_snd_nxt k + of_nat m, k_snd_queue := drop m q\<rparr>"
    by (simp add: k'_def fill_loop_eq q_def [symmetric])
  have tot: "in_flight k + m < 2 ^ 31"
    using fl w by (auto simp: m_def)
  have off: "unat (k_snd_nxt k + of_nat i - k_snd_una k) = in_flight k + i" if "i \<le> m" for i
  proof -
    have "k_snd_nxt k + of_nat i - k_snd_una k = (k_snd_nxt k - k_snd_una k) + of_nat i" by simp
    then show ?thesis
      using that tot by (simp only: unat_word_ariths) (simp add: in_flight_def unat_of_nat)
  qed
  have fl': "in_flight k' = in_flight k + m"
    using off [of m] by (simp add: in_flight_def k')
  then show "in_flight k' = max (in_flight k) (min (in_flight k + length (k_snd_queue k)) (unat cwnd))"
    by (auto simp: m_def q_def [symmetric])
  let ?new = "fill_segs k wnd (k_snd_nxt k) (take m q)"
  have len: "length ?new = m"
    by (simp add: m_def)
  have offs: "map (snd_off k') ?new = map (\<lambda>i. in_flight k + i) [0..<m]"
  proof -
    have "map (snd_off k') ?new = map (\<lambda>x. unat (x - k_snd_una k)) (map seg_sn ?new)"
      by (simp add: snd_off_def k' comp_def)
    also have "\<dots> = map (\<lambda>i. in_flight k + i) [0..<m]"
      unfolding fill_segs_sn using len off by (simp add: m_def)
    finally show ?thesis .
  qed
  have nth: "snd_off k' (?new ! i) = in_flight k + i" if "i < m" for i
  proof -
    have "snd_off k' (?new ! i) = map (snd_off k') ?new ! i"
      using that len by (simp only: nth_map)
    also have "\<dots> = in_flight k + i"
      unfolding offs using that by simp
    finally show ?thesis .
  qed
  have same: "snd_off k' = snd_off k"
    by (simp add: snd_off_def k' fun_eq_iff)
  have new: "sorted_wrt (\<lambda>a b. snd_off k' a < snd_off k' b) ?new"
    unfolding sorted_wrt_iff_nth_less using nth len by auto
  have range: "in_flight k \<le> snd_off k' s \<and> snd_off k' s < in_flight k'" if "s \<in> set ?new" for s
    using that nth len fl' by (auto simp: in_set_conv_nth)
  have old: "\<forall>s\<in>set (k_snd_buf k). snd_off k s < in_flight k"
    "sorted_wrt (\<lambda>a b. snd_off k a < snd_off k b) (k_snd_buf k)"
    "k_nsnd_buf k = of_nat (length (k_snd_buf k))"
    using k by (simp_all add: snd_inv_def snd_sorted_def)
  have "sorted_wrt (\<lambda>a b. snd_off k' a < snd_off k' b) (k_snd_buf k @ ?new)"
    using old new range by (force simp: sorted_wrt_append same)
  moreover have "\<forall>s\<in>set (k_snd_buf k @ ?new). snd_off k' s < in_flight k'"
    using old range fl' by (auto simp: same)
  ultimately have "snd_sorted k'"
    using tot fl' len old(3) by (simp add: snd_sorted_def k')
  moreover have "snd_tight k'"
  proof (cases "k_snd_buf k")
    case (Cons s p)
    with k show ?thesis by (simp add: snd_inv_def snd_tight_def k')
  next
    case Nil
    with k have una: "k_snd_una k = k_snd_nxt k"
      by (simp add: snd_inv_def snd_tight_def)
    show ?thesis
    proof (cases m)
      case 0
      with Nil una show ?thesis by (simp add: snd_tight_def k')
    next
      case (Suc n)
      then have "?new \<noteq> []" using len by (metis list.size(3) nat.simps(3))
      then obtain s p where sp: "?new = s # p" by (meson neq_Nil_conv)
      have "length (take m q) = Suc n" using len Suc by simp
      then have "map seg_sn ?new = map (\<lambda>i. k_snd_nxt k + of_nat i) [0..<Suc n]"
        by (simp only: fill_segs_sn)
      then have "seg_sn s = k_snd_nxt k"
        unfolding sp by (simp add: upt_conv_Cons del: upt_Suc)
      with Nil una sp show ?thesis by (simp add: snd_tight_def k')
    qed
  qed
  ultimately show "snd_inv k'" by (simp add: snd_inv_def)
qed
section \<open>The flush in one piece\<close>

text \<open>The control block when the data loop starts.\<close>

definition flush_filled :: "ikcpcb \<Rightarrow> ikcpcb" where
  "flush_filled k =
    (let k1 = (probe_timer (k\<lparr>k_ackcount := 0\<rparr>))\<lparr>k_probe := 0\<rparr>
     in fill_loop (flush_cwnd k1) (seg_wnd (flush_seg k)) (k_snd_queue k1) k1)"

definition flush_sent :: "ikcpcb \<Rightarrow> ikcpseg list" where
  "flush_sent k = sent_segs (flush_filled k) (flush_resent k) (flush_rtomin k)
     (seg_wnd (flush_seg k)) (k_snd_buf (flush_filled k))"

definition flush_has :: "send_kind \<Rightarrow> ikcpcb \<Rightarrow> bool" where
  "flush_has kind k \<longleftrightarrow> (\<exists>s\<in>set (k_snd_buf (flush_filled k)).
     kind_of (flush_filled k) (flush_resent k) (flush_rtomin k) s = kind)"

definition flush_visited :: "ikcpcb \<Rightarrow> ikcpcb" where
  "flush_visited k = (flush_filled k)\<lparr>
     k_xmit := k_xmit (flush_filled k) + of_nat (length (filter (\<lambda>s. kind_of (flush_filled k)
       (flush_resent k) (flush_rtomin k) s = Timeout) (k_snd_buf (flush_filled k)))),
     k_state := (if \<exists>s\<in>set (flush_sent k). k_dead_link (flush_filled k) \<le> seg_xmit s
                 then -1 else k_state (flush_filled k)),
     k_snd_buf := map (visit_seg (flush_filled k) (flush_resent k) (flush_rtomin k)
       (seg_wnd (flush_seg k))) (k_snd_buf (flush_filled k))\<rparr>"

lemma probe_timer_writes:
  "\<exists>w t p. probe_timer k = k\<lparr>k_probe_wait := w, k_ts_probe := t, k_probe := p\<rparr>"
proof -
  define P where "P j \<longleftrightarrow> (\<exists>w t p. j = k\<lparr>k_probe_wait := w, k_ts_probe := t, k_probe := p\<rparr>)" for j
  have full: "P (k\<lparr>k_probe_wait := w, k_ts_probe := t, k_probe := p\<rparr>)" for w t p
    unfolding P_def by blast
  have two: "P (k\<lparr>k_probe_wait := w, k_ts_probe := t\<rparr>)" for w t
    using full [where w = w and t = t and p = "k_probe k"] by simp
  have none: "P k"
    using full [where w = "k_probe_wait k" and t = "k_ts_probe k" and p = "k_probe k"] by simp
  have cond: "P (if b then x else y)" if "P x" "P y" for b x y
    using that by simp
  have "P (probe_timer k)"
    unfolding probe_timer_def Let_def by (intro cond full two none)
  then show ?thesis by (simp add: P_def)
qed

lemma fill_loop_writes:
  "\<exists>b q m n x. fill_loop cwnd wnd p k = k\<lparr>k_snd_buf := b, k_nsnd_que := m, k_nsnd_buf := n,
     k_snd_nxt := x, k_snd_queue := q\<rparr>"
  unfolding fill_loop_eq Let_def by (intro exI, rule refl)

lemma flush_filled_writes:
  "\<exists>b q m n x w t. flush_filled k = k\<lparr>k_ackcount := 0, k_probe_wait := w, k_ts_probe := t,
     k_probe := 0, k_snd_buf := b, k_nsnd_que := m, k_nsnd_buf := n, k_snd_nxt := x, k_snd_queue := q\<rparr>"
proof -
  obtain w t p where p: "probe_timer (k\<lparr>k_ackcount := 0\<rparr>) =
      k\<lparr>k_ackcount := 0, k_probe_wait := w, k_ts_probe := t, k_probe := p\<rparr>"
    using probe_timer_writes by blast
  let ?k = "k\<lparr>k_ackcount := 0, k_probe_wait := w, k_ts_probe := t, k_probe := 0\<rparr>"
  have "flush_filled k = fill_loop (flush_cwnd ?k) (seg_wnd (flush_seg k)) (k_snd_queue ?k) ?k"
    by (simp add: flush_filled_def p Let_def)
  moreover obtain b q m n x where "fill_loop (flush_cwnd ?k) (seg_wnd (flush_seg k)) (k_snd_queue ?k) ?k =
      ?k\<lparr>k_snd_buf := b, k_nsnd_que := m, k_nsnd_buf := n, k_snd_nxt := x, k_snd_queue := q\<rparr>"
    using fill_loop_writes by blast
  ultimately have "flush_filled k = k\<lparr>k_ackcount := 0, k_probe_wait := w, k_ts_probe := t,
      k_probe := 0, k_snd_buf := b, k_nsnd_que := m, k_nsnd_buf := n, k_snd_nxt := x, k_snd_queue := q\<rparr>"
    by simp
  then show ?thesis by blast
qed

lemma flush_frame [frame_simps]:
  "k_mtu (flush_filled k) = k_mtu k" "flush_resent (flush_filled k) = flush_resent k"
  "flush_rtomin (flush_filled k) = flush_rtomin k" "k_current (flush_filled k) = k_current k"
  "k_rx_rto (flush_filled k) = k_rx_rto k" "k_nodelay (flush_filled k) = k_nodelay k"
  "k_dead_link (flush_filled k) = k_dead_link k"
  using flush_filled_writes [of k] by (auto simp: flush_resent_def flush_rtomin_def)

lemma ikcp_flush_eq:
  assumes "k_updated k \<noteq> 0"
  defines "seg \<equiv> flush_acks k [0..<nat (i32 (k_ackcount k))] (flush_seg k) ([], [])"
  defines "ob \<equiv> foldl (\<lambda>ob s. put_data (flush_filled k) s ob)
    (flush_probes (probe_timer (k\<lparr>k_ackcount := 0\<rparr>)) (fst seg) (snd seg)) (flush_sent k)"
  shows "ikcp_flush k = (ikcp_output (fst ob) (snd ob),
    flush_window (flush_resent k) (flush_cwnd ((probe_timer (k\<lparr>k_ackcount := 0\<rparr>))\<lparr>k_probe := 0\<rparr>))
      (flush_has Timeout k)
      (length (filter (\<lambda>s. kind_of (flush_filled k) (flush_resent k) (flush_rtomin k) s = Fast)
        (k_snd_buf (flush_filled k)))) (flush_visited k))"
proof -
  have wnd: "seg_wnd (fst seg) = seg_wnd (flush_seg k)"
  proof -
    have "seg_wnd (fst (flush_acks k is s b)) = seg_wnd s" for "is" s b
      by (induction "is" arbitrary: s b) (simp_all add: split_beta Let_def)
    then show ?thesis by (simp add: seg_def)
  qed
  obtain s b where sb: "seg = (s, b)" by (meson surj_pair)
  have s: "seg_wnd s = seg_wnd (flush_seg k)" using wnd sb by simp
  define kf where "kf = flush_filled k"
  have kf: "fill_loop (flush_cwnd ((probe_timer (k\<lparr>k_ackcount := 0\<rparr>))\<lparr>k_probe := 0\<rparr>)) (seg_wnd s)
      (k_snd_queue ((probe_timer (k\<lparr>k_ackcount := 0\<rparr>))\<lparr>k_probe := 0\<rparr>))
      ((probe_timer (k\<lparr>k_ackcount := 0\<rparr>))\<lparr>k_probe := 0\<rparr>) = kf"
    by (simp add: kf_def flush_filled_def s Let_def)
  have par: "flush_resent kf = flush_resent k" "flush_rtomin kf = flush_rtomin k"
    by (simp_all add: kf_def frame_simps)
  obtain outs ptr where ob': "ob = (outs, ptr)" by (meson surj_pair)
  have "foldl (\<lambda>ob s. put_data kf s ob) (flush_probes (probe_timer (k\<lparr>k_ackcount := 0\<rparr>)) s b)
      (sent_segs kf (flush_resent k) (flush_rtomin k) (seg_wnd s) (k_snd_buf kf)) = (outs, ptr)"
    using ob' by (simp add: ob_def sb flush_sent_def kf_def s)
  then have loop: "data_loop (flush_resent k) (flush_rtomin k) (seg_wnd s) (k_snd_buf kf) [] kf
      (flush_probes (probe_timer (k\<lparr>k_ackcount := 0\<rparr>)) s b) False 0 =
      (flush_visited k, (outs, ptr), flush_has Timeout k,
       length (filter (\<lambda>s. kind_of kf (flush_resent k) (flush_rtomin k) s = Fast) (k_snd_buf kf)))"
    unfolding data_loop_eq
    by (simp add: flush_has_def flush_visited_def flush_sent_def s kf_def)
  have acks: "flush_acks k [0..<nat (i32 (k_ackcount k))] (flush_seg k) ([], []) = (s, b)"
    using sb by (simp add: seg_def)
  show ?thesis
    unfolding ikcp_flush_def Let_def acks prod.case kf par loop ob' fst_conv snd_conv
    using assms(1) by (simp add: kf_def ikcp_output_def)
qed
section \<open>Invariants across a flush\<close>

lemma rcv_inv_update_flush [frame_simps]:
  "rcv_inv (k\<lparr>k_probe_wait := w\<rparr>) = rcv_inv k" "rcv_inv (k\<lparr>k_ts_probe := w\<rparr>) = rcv_inv k"
  "rcv_inv (k\<lparr>k_nsnd_que := w\<rparr>) = rcv_inv k" "rcv_inv (k\<lparr>k_snd_nxt := w\<rparr>) = rcv_inv k"
  "rcv_inv (k\<lparr>k_snd_queue := b\<rparr>) = rcv_inv k" "rcv_inv (k\<lparr>k_xmit := w\<rparr>) = rcv_inv k"
  "rcv_inv (k\<lparr>k_state := w\<rparr>) = rcv_inv k" "rcv_inv (k\<lparr>k_ssthresh := w\<rparr>) = rcv_inv k"
  "rcv_inv (k\<lparr>k_current := w\<rparr>) = rcv_inv k" "rcv_inv (k\<lparr>k_updated := w\<rparr>) = rcv_inv k"
  "rcv_inv (k\<lparr>k_ts_flush := w\<rparr>) = rcv_inv k"
  by (simp_all add: rcv_inv_def rcv_sorted_def rcv_counts_def rcv_drained_def rcv_off_def)

lemma snd_inv_update_flush [frame_simps]:
  "snd_inv (k\<lparr>k_probe_wait := w\<rparr>) = snd_inv k" "snd_inv (k\<lparr>k_ts_probe := w\<rparr>) = snd_inv k"
  "snd_inv (k\<lparr>k_nsnd_que := w\<rparr>) = snd_inv k" "snd_inv (k\<lparr>k_snd_queue := b\<rparr>) = snd_inv k"
  "snd_inv (k\<lparr>k_xmit := w\<rparr>) = snd_inv k" "snd_inv (k\<lparr>k_state := w\<rparr>) = snd_inv k"
  "snd_inv (k\<lparr>k_ssthresh := w\<rparr>) = snd_inv k" "snd_inv (k\<lparr>k_current := w\<rparr>) = snd_inv k"
  "snd_inv (k\<lparr>k_updated := w\<rparr>) = snd_inv k" "snd_inv (k\<lparr>k_ts_flush := w\<rparr>) = snd_inv k"
  by (simp_all add: snd_inv_def snd_sorted_def snd_tight_def snd_off_def in_flight_def cong: list.case_cong)

lemma acks_ok_update_flush [frame_simps]:
  "acks_ok (k\<lparr>k_probe_wait := w\<rparr>) = acks_ok k" "acks_ok (k\<lparr>k_ts_probe := w\<rparr>) = acks_ok k"
  "acks_ok (k\<lparr>k_nsnd_que := w\<rparr>) = acks_ok k" "acks_ok (k\<lparr>k_snd_nxt := w\<rparr>) = acks_ok k"
  "acks_ok (k\<lparr>k_snd_queue := b\<rparr>) = acks_ok k" "acks_ok (k\<lparr>k_xmit := w\<rparr>) = acks_ok k"
  "acks_ok (k\<lparr>k_state := w\<rparr>) = acks_ok k" "acks_ok (k\<lparr>k_ssthresh := w\<rparr>) = acks_ok k"
  "acks_ok (k\<lparr>k_current := w\<rparr>) = acks_ok k" "acks_ok (k\<lparr>k_updated := w\<rparr>) = acks_ok k"
  "acks_ok (k\<lparr>k_ts_flush := w\<rparr>) = acks_ok k"
  by (simp_all add: acks_ok_def)

lemma visit_seg_frame [frame_simps]:
  "seg_sn (visit_seg k resent rtomin wnd s) = seg_sn s" "seg_len (visit_seg k resent rtomin wnd s) = seg_len s"
  "seg_data (visit_seg k resent rtomin wnd s) = seg_data s" "seg_conv (visit_seg k resent rtomin wnd s) = seg_conv s"
  "seg_frg (visit_seg k resent rtomin wnd s) = seg_frg s" "seg_cmd (visit_seg k resent rtomin wnd s) = seg_cmd s"
  by (simp_all add: visit_seg_def flush_decide_def stamp_seg_def Let_def)

lemma snd_inv_map:
  assumes "snd_inv k" and "\<And>s. seg_sn (g s) = seg_sn s"
  shows "snd_inv (k\<lparr>k_snd_buf := map g (k_snd_buf k)\<rparr>)"
  using assms
  by (cases "k_snd_buf k")
     (auto simp: snd_inv_def snd_sorted_def snd_tight_def snd_off_def in_flight_def sorted_wrt_map)

lemma flush_cwnd_small: "unat (k_snd_wnd k) < 2 ^ 31 \<Longrightarrow> unat (flush_cwnd k) < 2 ^ 31"
  by (auto simp: flush_cwnd_def unat_imin Let_def)

lemma flush_filled_inv:
  assumes k: "conn_inv k" and w: "unat (k_snd_wnd k) < 2 ^ 31"
  shows "conn_inv (flush_filled k)"
    and "in_flight (flush_filled k) \<le> max (in_flight k) (unat (imin (k_snd_wnd k) (k_rmt_wnd k)))"
    and "k_nocwnd k = 0 \<Longrightarrow> in_flight (flush_filled k) \<le> max (in_flight k) (unat (k_cwnd k))"
proof -
  obtain x t p where p: "probe_timer (k\<lparr>k_ackcount := 0\<rparr>) =
      k\<lparr>k_ackcount := 0, k_probe_wait := x, k_ts_probe := t, k_probe := p\<rparr>"
    using probe_timer_writes by blast
  let ?k = "k\<lparr>k_ackcount := 0, k_probe_wait := x, k_ts_probe := t, k_probe := 0\<rparr>"
  have f: "flush_filled k = fill_loop (flush_cwnd ?k) (seg_wnd (flush_seg k)) (k_snd_queue ?k) ?k"
    by (simp add: flush_filled_def p Let_def)
  have cw: "unat (flush_cwnd ?k) < 2 ^ 31"
    using w by (intro flush_cwnd_small) simp
  have s: "snd_inv ?k"
    using k by (simp add: conn_inv_def frame_simps)
  have "snd_inv (flush_filled k)"
    unfolding f by (rule fill_loop_inv(1) [OF s cw])
  moreover have "rcv_inv (flush_filled k)" "acks_ok (flush_filled k)"
    using k flush_filled_writes [of k] by (auto simp: conn_inv_def frame_simps) (simp add: acks_ok_def)
  ultimately show "conn_inv (flush_filled k)"
    by (simp add: conn_inv_def)
  have fl: "in_flight ?k = in_flight k" by (simp add: in_flight_def)
  have le: "in_flight (flush_filled k) \<le> max (in_flight k) (unat (flush_cwnd ?k))"
    unfolding f fill_loop_inv(2) [OF s cw] fl by simp
  then show "in_flight (flush_filled k) \<le> max (in_flight k) (unat (imin (k_snd_wnd k) (k_rmt_wnd k)))"
    by (auto simp: flush_cwnd_def Let_def unat_imin split: if_splits)
  show "in_flight (flush_filled k) \<le> max (in_flight k) (unat (k_cwnd k))" if "k_nocwnd k = 0"
    using le that by (auto simp: flush_cwnd_def Let_def unat_imin)
qed

lemma flush_window_writes:
  "\<exists>h c i. flush_window resent cwnd lost change k = k\<lparr>k_ssthresh := h, k_cwnd := c, k_incr := i\<rparr>"
proof -
  define P where "P j \<longleftrightarrow> (\<exists>h c i. j = k\<lparr>k_ssthresh := h, k_cwnd := c, k_incr := i\<rparr>)" for j
  have step: "P (j\<lparr>k_ssthresh := h, k_cwnd := c, k_incr := i\<rparr>)" if "P j" for j h c i
    using that unfolding P_def by (auto, blast)
  have two: "P (j\<lparr>k_cwnd := c, k_incr := i\<rparr>)" if "P j" for j c i
    using that unfolding P_def by (auto, blast)
  have none: "P k"
    unfolding P_def
    by (intro exI [of _ "k_ssthresh k"] exI [of _ "k_cwnd k"] exI [of _ "k_incr k"]) simp
  have cond: "P (if b then x else y)" if "P x" "P y" for b x y
    using that by simp
  have "P (flush_window resent cwnd lost change k)"
    unfolding flush_window_def after_fast_def after_loss_def Let_def by (intro cond step two none)
  then show ?thesis by (simp add: P_def)
qed

lemma flush_visited_inv: "conn_inv (flush_filled k) \<Longrightarrow> conn_inv (flush_visited k)"
proof -
  assume k: "conn_inv (flush_filled k)"
  let ?g = "visit_seg (flush_filled k) (flush_resent k) (flush_rtomin k) (seg_wnd (flush_seg k))"
  have "snd_inv ((flush_filled k)\<lparr>k_snd_buf := map ?g (k_snd_buf (flush_filled k))\<rparr>)"
    using k by (intro snd_inv_map) (simp_all add: conn_inv_def frame_simps)
  moreover have "flush_visited k = ((flush_filled k)\<lparr>k_snd_buf := map ?g (k_snd_buf (flush_filled k))\<rparr>)
      \<lparr>k_xmit := k_xmit (flush_visited k), k_state := k_state (flush_visited k)\<rparr>"
    by (simp add: flush_visited_def)
  ultimately have "snd_inv (flush_visited k)"
    by (metis snd_inv_update_flush(5,6))
  with k show ?thesis
    by (simp add: conn_inv_def flush_visited_def frame_simps)
qed

lemma flush_inv [inv_intros]:
  assumes "conn_inv k" and "unat (k_snd_wnd k) < 2 ^ 31"
  shows "conn_inv (snd (ikcp_flush k))"
proof (cases "k_updated k = 0")
  case True
  with assms(1) show ?thesis by (simp add: ikcp_flush_def)
next
  case False
  have "conn_inv (flush_visited k)"
    using assms by (intro flush_visited_inv flush_filled_inv(1))
  moreover have "conn_inv (flush_window r c l n j)" if "conn_inv j" for r c l n j
    using flush_window_writes [of r c l n j] that by (auto simp: conn_inv_def frame_simps)
  ultimately show ?thesis
    by (simp add: ikcp_flush_eq [OF False])
qed

section \<open>What is output\<close>

lemma packs_output:
  assumes "packs mtu ob L"
  shows "\<exists>sss. ikcp_output (fst ob) (snd ob) = map datagram sss \<and> concat sss = L \<and>
    (\<forall>ss\<in>set sss. ss \<noteq> [] \<and> length (datagram ss) \<le> mtu)"
proof -
  obtain sss cur where c: "fst ob = map datagram sss" "snd ob = datagram cur" "concat sss @ cur = L"
    "[] \<notin> set sss" "\<forall>ss\<in>set (cur # sss). length (datagram ss) \<le> mtu"
    using assms unfolding packs_def by blast
  show ?thesis
  proof (cases "datagram cur = []")
    case True
    have "cur = []"
    proof (cases cur rule: rev_cases)
      case (snoc ss s)
      have "length (ikcp_put_seg p s) > 0" for p
        using encode_seg_length [of p s] by (auto simp: ikcp_put_seg_def Let_def simp del: encode_seg_length)
      with True show ?thesis by (simp add: datagram_def snoc)
    qed simp
    with True c show ?thesis
      by (intro exI [of _ sss]) (auto simp: ikcp_output_def)
  next
    case False
    then have "cur \<noteq> []" by (auto simp: datagram_def)
    with False c show ?thesis
      by (intro exI [of _ "sss @ [cur]"]) (auto simp: ikcp_output_def)
  qed
qed

lemma fill_segs_pack_ok:
  "\<forall>s\<in>set q. pack_ok mtu s \<Longrightarrow> s \<in> set (fill_segs k wnd nxt q) \<Longrightarrow> pack_ok mtu s"
  by (induction q arbitrary: nxt) (auto simp: fill_seg_def pack_ok_def seg_wf_def)

lemma flush_filled_pack_ok:
  assumes "\<forall>s\<in>set (k_snd_buf k @ k_snd_queue k). pack_ok mtu s"
  shows "\<forall>s\<in>set (k_snd_buf (flush_filled k)). pack_ok mtu s"
proof -
  obtain x t p where p: "probe_timer (k\<lparr>k_ackcount := 0\<rparr>) =
      k\<lparr>k_ackcount := 0, k_probe_wait := x, k_ts_probe := t, k_probe := p\<rparr>"
    using probe_timer_writes by blast
  let ?k = "k\<lparr>k_ackcount := 0, k_probe_wait := x, k_ts_probe := t, k_probe := 0\<rparr>"
  obtain m where "k_snd_buf (flush_filled k) =
      k_snd_buf k @ fill_segs ?k (seg_wnd (flush_seg k)) (k_snd_nxt k) (take m (k_snd_queue k))"
    by (simp add: flush_filled_def p Let_def fill_loop_eq)
  moreover have "\<forall>s\<in>set (take m (k_snd_queue k)). pack_ok mtu s"
    using assms by (auto dest: in_set_takeD)
  ultimately show ?thesis
    using assms by (auto dest: fill_segs_pack_ok [rotated])
qed

lemma flush_output_segs:
  assumes "k_updated k \<noteq> 0" and mtu: "mtu = unat (k_mtu k)" "24 \<le> mtu" "mtu < 2 ^ 31"
    and ok: "\<forall>s\<in>set (k_snd_buf k @ k_snd_queue k). pack_ok mtu s"
  shows "\<exists>sss sn ts. fst (ikcp_flush k) = map datagram sss \<and>
    (\<forall>ss\<in>set sss. ss \<noteq> [] \<and> length (datagram ss) \<le> mtu) \<and>
    concat sss = map (ack_seg k (flush_seg k)) [0..<nat (i32 (k_ackcount k))] @
      probe_segs (probe_timer (k\<lparr>k_ackcount := 0\<rparr>)) ((flush_seg k)\<lparr>seg_sn := sn, seg_ts := ts\<rparr>) @
      flush_sent k"
proof -
  define acks where "acks = flush_acks k [0..<nat (i32 (k_ackcount k))] (flush_seg k) ([], [])"
  have s0: "seg_len (flush_seg k) = 0" "seg_data (flush_seg k) = []"
    by (simp_all add: flush_seg_def)
  from flush_acks_packs [OF packs_empty s0 mtu(1,3,2)]
  obtain sn ts where a: "packs mtu (snd acks) ([] @ map (ack_seg k (flush_seg k)) [0..<nat (i32 (k_ackcount k))])"
    and s: "fst acks = (flush_seg k)\<lparr>seg_sn := sn, seg_ts := ts\<rparr>"
    unfolding acks_def by blast
  let ?kp = "probe_timer (k\<lparr>k_ackcount := 0\<rparr>)"
  have m: "k_mtu ?kp = k_mtu k"
    using probe_timer_writes [of "k\<lparr>k_ackcount := 0\<rparr>"] by auto
  have "packs mtu (flush_probes ?kp (fst acks) (snd acks))
      (([] @ map (ack_seg k (flush_seg k)) [0..<nat (i32 (k_ackcount k))]) @ probe_segs ?kp (fst acks))"
    using a s s0 mtu m by (intro flush_probes_packs) simp_all
  moreover have "\<forall>s\<in>set (flush_sent k). pack_ok mtu s"
    using flush_filled_pack_ok [OF ok] by (auto simp: flush_sent_def sent_segs_def pack_ok_def seg_wf_def frame_simps)
  ultimately have "packs mtu (foldl (\<lambda>ob s. put_data (flush_filled k) s ob)
      (flush_probes ?kp (fst acks) (snd acks)) (flush_sent k))
      ((([] @ map (ack_seg k (flush_seg k)) [0..<nat (i32 (k_ackcount k))]) @ probe_segs ?kp (fst acks)) @
        flush_sent k)"
    using mtu by (intro put_list_packs) (simp_all add: frame_simps)
  from packs_output [OF this] show ?thesis
    unfolding ikcp_flush_eq [OF assms(1)] acks_def [symmetric] fst_conv s by auto
qed
section \<open>Properties\<close>

lemma flush_sent_wf:
  "\<forall>s\<in>set (k_snd_buf k @ k_snd_queue k). pack_ok (unat (k_mtu k)) s \<Longrightarrow> \<forall>s\<in>set (flush_sent k). seg_wf s"
proof -
  assume "\<forall>s\<in>set (k_snd_buf k @ k_snd_queue k). pack_ok (unat (k_mtu k)) s"
  from flush_filled_pack_ok [OF this] show ?thesis by (auto simp: flush_sent_def sent_segs_def pack_ok_def seg_wf_def frame_simps)
qed

lemma datagram_decodes: "\<forall>s\<in>set ss. seg_wf s \<Longrightarrow> decode_all ikcp_get_seg (length ss) (datagram ss) = Some (map unit_of ss)"
  using kcp_wire.decode_all_concat [of ss "length ss"] foldl_put_seg [of ss "[]"] by (simp add: datagram_def)

text \<open>A segment that the flush sends is in one of its datagrams.\<close>

lemma sent_in_datagram:
  assumes "k_updated k \<noteq> 0" "24 \<le> unat (k_mtu k)" "unat (k_mtu k) < 2 ^ 31" "\<forall>s\<in>set (k_snd_buf k @ k_snd_queue k). pack_ok (unat (k_mtu k)) s"
    and "s \<in> set (flush_sent k)"
  shows "\<exists>d\<in>set (fst (ikcp_flush k)). \<exists>n us. decode_all ikcp_get_seg n d = Some us \<and> unit_of s \<in> set us"
proof -
  obtain sss sn ts where out: "fst (ikcp_flush k) = map datagram sss"
    and all: "concat sss = map (ack_seg k (flush_seg k)) [0..<nat (i32 (k_ackcount k))] @
      probe_segs (probe_timer (k\<lparr>k_ackcount := 0\<rparr>)) ((flush_seg k)\<lparr>seg_sn := sn, seg_ts := ts\<rparr>) @ flush_sent k"
    using flush_output_segs [OF assms(1) refl assms(2-4)] by blast
  have wf: "\<forall>s\<in>set (concat sss). seg_wf s"
    unfolding all using flush_sent_wf [OF assms(4)] by (auto simp: ack_seg_def flush_seg_def probe_segs_def seg_wf_def)
  have "s \<in> set (concat sss)" unfolding all using assms(5) by simp
  then obtain ss where ss: "ss \<in> set sss" "s \<in> set ss" by auto
  then have "decode_all ikcp_get_seg (length ss) (datagram ss) = Some (map unit_of ss)" using wf by (intro datagram_decodes) auto
  moreover have "unit_of s \<in> set (map unit_of ss)" using ss(2) by simp
  moreover have "datagram ss \<in> set (fst (ikcp_flush k))" using ss(1) out by simp
  ultimately show ?thesis by blast
qed

text \<open>C9: what a flush sends.  The datagrams output by \<open>ikcp_flush\<close> are non-empty, none is longer
  than the MTU, and each decodes to the segments packed into it; taken together these are, in
  order and each once, one acknowledgement per pair of the acknowledgement list, the window probes
  due, and the data segments that the retransmission rules select, nothing more.\<close>
theorem flush_output:
  assumes "k_updated k \<noteq> 0" and "24 \<le> unat (k_mtu k)" and "unat (k_mtu k) < 2 ^ 31"
    and "\<forall>s\<in>set (k_snd_buf k @ k_snd_queue k). pack_ok (unat (k_mtu k)) s"
  shows "\<exists>sss sn ts. fst (ikcp_flush k) = map datagram sss \<and>
    (\<forall>ss\<in>set sss. ss \<noteq> [] \<and> length (datagram ss) \<le> unat (k_mtu k) \<and>
       decode_all ikcp_get_seg (length ss) (datagram ss) = Some (map unit_of ss)) \<and>
    concat sss = map (ack_seg k (flush_seg k)) [0..<nat (i32 (k_ackcount k))] @
      probe_segs (probe_timer (k\<lparr>k_ackcount := 0\<rparr>)) ((flush_seg k)\<lparr>seg_sn := sn, seg_ts := ts\<rparr>) @
      flush_sent k"
proof -
  obtain sss sn ts where out: "fst (ikcp_flush k) = map datagram sss"
    and ok: "\<forall>ss\<in>set sss. ss \<noteq> [] \<and> length (datagram ss) \<le> unat (k_mtu k)"
    and all: "concat sss = map (ack_seg k (flush_seg k)) [0..<nat (i32 (k_ackcount k))] @
      probe_segs (probe_timer (k\<lparr>k_ackcount := 0\<rparr>)) ((flush_seg k)\<lparr>seg_sn := sn, seg_ts := ts\<rparr>) @
      flush_sent k"
    using flush_output_segs [OF assms(1) refl assms(2-4)] by blast
  have "\<forall>s\<in>set (concat sss). seg_wf s"
    unfolding all using flush_sent_wf [OF assms(4)] by (auto simp: ack_seg_def flush_seg_def probe_segs_def seg_wf_def)
  then have "decode_all ikcp_get_seg (length ss) (datagram ss) = Some (map unit_of ss)" if "ss \<in> set sss" for ss
    using that by (intro datagram_decodes) auto
  with out ok all show ?thesis by blast
qed

definition demo_flush :: ikcpcb where
  "demo_flush = (ikcp_init 9)\<lparr>k_updated := 1, k_cwnd := 4, k_snd_queue := fragments 1376 1 True [7, 8],
     k_nsnd_que := 1\<rparr>"

lemma demo_flush: "k_updated demo_flush = 1" "k_mtu demo_flush = 1400" "k_snd_buf demo_flush = []"
  "k_snd_queue demo_flush = fragments 1376 1 True [7, 8]" "k_snd_wnd demo_flush = 32"
  "k_ssthresh demo_flush = 2" "k_rmt_wnd demo_flush = 128"
  "\<forall>s\<in>set (k_snd_buf demo_flush @ k_snd_queue demo_flush). pack_ok 1400 s" "conn_inv demo_flush"
  "in_flight demo_flush = 0"
  using conn_inv_init [of 9]
  by (simp_all add: demo_flush_def ikcp_init_def ikcp_segment_new_def pack_ok_def seg_wf_def conn_inv_def
      snd_inv_def snd_sorted_def snd_tight_def snd_off_def in_flight_def rcv_inv_def rcv_sorted_def
      rcv_counts_def rcv_drained_def acks_ok_def)

theorem flush_output_witness:
  "\<exists>sss. fst (ikcp_flush demo_flush) = map datagram sss \<and> (\<forall>ss\<in>set sss. length (datagram ss) \<le> 1400)"
  using flush_output [of demo_flush] by (auto simp: demo_flush)

text \<open>C14: flow and congestion control.  A flush keeps the connection's invariant, and the number of
  sequence numbers in flight afterwards does not exceed the smaller of the send window and the
  peer's window (nor the congestion window, unless it is switched off) beyond what was in flight
  before: new data is only sent into the window.\<close>
theorem flush_window_safe:
  assumes "conn_inv k" and "unat (k_snd_wnd k) < 2 ^ 31"
  shows "conn_inv (snd (ikcp_flush k)) \<and>
    in_flight (snd (ikcp_flush k)) \<le> max (in_flight k) (unat (imin (k_snd_wnd k) (k_rmt_wnd k))) \<and>
    (k_nocwnd k = 0 \<longrightarrow> in_flight (snd (ikcp_flush k)) \<le> max (in_flight k) (unat (k_cwnd k)))"
proof (cases "k_updated k = 0")
  case True
  with assms(1) show ?thesis by (simp add: ikcp_flush_def)
next
  case False
  have same: "in_flight (snd (ikcp_flush k)) = in_flight (flush_filled k)"
  proof -
    have "in_flight (flush_window r c l n j) = in_flight j" for r c l n j
      using flush_window_writes [of r c l n j] by (auto simp: in_flight_def)
    then show ?thesis
      unfolding ikcp_flush_eq [OF False] snd_conv by (simp add: in_flight_def flush_visited_def)
  qed
  show ?thesis
    unfolding same using flush_filled_inv [OF assms] flush_inv [OF assms] by blast
qed

theorem flush_window_safe_witness:
  "conn_inv (snd (ikcp_flush demo_flush)) \<and> in_flight (snd (ikcp_flush demo_flush)) \<le> 32"
  using flush_window_safe [of demo_flush] by (auto simp: demo_flush unat_imin)

text \<open>the congestion window after a flush.  It is at least one segment, so a connection never
  stalls on it; after a timeout it is exactly one; and \<open>ssthresh\<close> never drops below 2.\<close>
theorem flush_cwnd_min:
  assumes "k_updated k \<noteq> 0"
  shows "1 \<le> k_cwnd (snd (ikcp_flush k)) \<and> (flush_has Timeout k \<longrightarrow> k_cwnd (snd (ikcp_flush k)) = 1) \<and>
    (2 \<le> k_ssthresh k \<longrightarrow> 2 \<le> k_ssthresh (snd (ikcp_flush k)))"
proof -
  have min: "1 \<le> k_cwnd (flush_window r c l n j)" "l \<Longrightarrow> k_cwnd (flush_window r c l n j) = 1"
    "2 \<le> k_ssthresh j \<Longrightarrow> 2 \<le> k_ssthresh (flush_window r c l n j)" for r c l n j
    by (auto simp: flush_window_def after_fast_def after_loss_def Let_def word_le_nat_alt word_less_nat_alt)
  have "k_ssthresh (flush_visited k) = k_ssthresh k"
    using flush_filled_writes [of k] by (auto simp: flush_visited_def)
  then show ?thesis
    using min unfolding ikcp_flush_eq [OF assms] snd_conv by metis
qed

theorem flush_cwnd_min_witness:
  "1 \<le> k_cwnd (snd (ikcp_flush demo_flush)) \<and> 2 \<le> k_ssthresh (snd (ikcp_flush demo_flush))"
  using flush_cwnd_min [of demo_flush] by (simp add: demo_flush)

lemma flush_filled_keeps: "s \<in> set (k_snd_buf k) \<Longrightarrow> s \<in> set (k_snd_buf (flush_filled k))"
  using probe_timer_writes [of "k\<lparr>k_ackcount := 0\<rparr>"] by (auto simp: flush_filled_def Let_def fill_loop_eq)

text \<open>C13: retransmission on timeout.  A segment of the send buffer that was sent before and whose
  time has come is put into one of the datagrams that this flush gives to the output callback, where
  decoding finds it with its number and its data; its send count goes up by one, its timeout is
  backed off (doubled at least in the normal mode, by half in the two fast modes) and its next
  due time is exactly one timeout ahead; and once the count reaches \<open>dead_link\<close> the connection
  is marked dead.\<close>
theorem timeout_resend:
  assumes "k_updated k \<noteq> 0" and s0: "s \<in> set (k_snd_buf k)"
    and due: "seg_xmit s \<noteq> 0" "0 \<le> itimediff (k_current k) (seg_resendts s)"
    and rto: "unat (seg_rto s) < 2 ^ 30" "0 \<le> k_rx_rto k" "k_rx_rto k < 2 ^ 30"
    and mtu: "24 \<le> unat (k_mtu k)" "unat (k_mtu k) < 2 ^ 31" "\<forall>s\<in>set (k_snd_buf k @ k_snd_queue k). pack_ok (unat (k_mtu k)) s"
  shows "\<exists>s'. (\<exists>d\<in>set (fst (ikcp_flush k)). \<exists>n us. decode_all ikcp_get_seg n d = Some us \<and> unit_of s' \<in> set us) \<and>
    s' \<in> set (k_snd_buf (snd (ikcp_flush k))) \<and>
    seg_sn s' = seg_sn s \<and> seg_data s' = seg_data s \<and> seg_xmit s' = seg_xmit s + 1 \<and>
    seg_resendts s' = k_current k + seg_rto s' \<and>
    unat (seg_rto s') = unat (seg_rto s) +
      (if k_nodelay k = 0 then max (unat (seg_rto s)) (nat (k_rx_rto k))
       else if k_nodelay k = 1 then unat (seg_rto s) div 2 else nat (k_rx_rto k) div 2) \<and>
    (k_dead_link k \<le> seg_xmit s' \<longrightarrow> k_state (snd (ikcp_flush k)) = -1)"
proof -
  have s: "s \<in> set (k_snd_buf (flush_filled k))" by (rule flush_filled_keeps [OF s0])
  define s' where "s' = visit_seg (flush_filled k) (flush_resent k) (flush_rtomin k)
    (seg_wnd (flush_seg k)) s"
  have kind: "kind_of (flush_filled k) (flush_resent k) (flush_rtomin k) s = Timeout"
    using due by (simp add: kind_of_def flush_decide_def Let_def frame_simps)
  then have sent: "s' \<in> set (flush_sent k)"
    using s by (auto simp: flush_sent_def sent_segs_def s'_def)
  have two: "k_nodelay k = 0 \<or> k_nodelay k = 1 \<or> \<not> k_nodelay k < 2"
    by (auto simp: word_less_nat_alt) (metis One_nat_def less_2_cases numeral_2_eq_2 unat_1 unat_eq_zero word_unat_eq_iff)
  define step where "step = (if k_nodelay k = 0 then imax (seg_rto s) (u32 (k_rx_rto k))
    else u32 (cdiv (if k_nodelay k < 2 then i32 (seg_rto s) else k_rx_rto k) 2))"
  have s'_eq: "s' = stamp_seg (flush_filled k) (seg_wnd (flush_seg k))
      (s\<lparr>seg_xmit := seg_xmit s + 1, seg_rto := seg_rto s + step, seg_resendts := k_current k + (seg_rto s + step)\<rparr>)"
    using due by (simp add: s'_def visit_seg_def flush_decide_def Let_def frame_simps step_def)
  have step: "unat step = (if k_nodelay k = 0 then max (unat (seg_rto s)) (nat (k_rx_rto k))
       else if k_nodelay k = 1 then unat (seg_rto s) div 2 else nat (k_rx_rto k) div 2)"
  proof -
    have "i32 (seg_rto s) = int (unat (seg_rto s))"
      using rto(1) by (intro i32_small) simp
    moreover have "cdiv (int n) 2 = int (n div 2)" for n
      by (simp add: cdiv_nonneg zdiv_int)
    moreover have "cdiv (k_rx_rto k) 2 = int (nat (k_rx_rto k) div 2)"
      using rto by (simp add: cdiv_nonneg zdiv_int)
    moreover have "unat (u32 (int n)) = n" if "n < 2 ^ 31" for n
      using that by (simp add: unat_u32)
    ultimately show ?thesis
      using rto two by (auto simp: step_def unat_imax unat_u32 simp del: of_nat_unat)
  qed
  then have small: "unat (seg_rto s) + unat step < 2 ^ 32"
    using rto by (auto split: if_splits)
  have visited: "k_snd_buf (snd (ikcp_flush k)) = k_snd_buf (flush_visited k)"
    "k_state (snd (ikcp_flush k)) = k_state (flush_visited k)"
  proof -
    have "k_snd_buf (flush_window r c l n j) = k_snd_buf j \<and> k_state (flush_window r c l n j) = k_state j"
      for r c l n j
      using flush_window_writes [of r c l n j] by auto
    then show "k_snd_buf (snd (ikcp_flush k)) = k_snd_buf (flush_visited k)"
      "k_state (snd (ikcp_flush k)) = k_state (flush_visited k)"
      unfolding ikcp_flush_eq [OF assms(1)] snd_conv by simp_all
  qed
  have "s' \<in> set (k_snd_buf (snd (ikcp_flush k)))"
    using s by (simp add: visited flush_visited_def s'_def)
  moreover have "k_dead_link k \<le> seg_xmit s' \<longrightarrow> k_state (snd (ikcp_flush k)) = -1"
    using sent by (auto simp: visited flush_visited_def frame_simps)
  moreover have "seg_sn s' = seg_sn s" "seg_data s' = seg_data s" "seg_xmit s' = seg_xmit s + 1"
    "seg_resendts s' = k_current k + seg_rto s'" "unat (seg_rto s') = unat (seg_rto s) + unat step"
    using small by (simp_all add: s'_eq stamp_seg_def u32_add)
  moreover have "\<exists>d\<in>set (fst (ikcp_flush k)). \<exists>n us. decode_all ikcp_get_seg n d = Some us \<and> unit_of s' \<in> set us"
    by (rule sent_in_datagram [OF assms(1) mtu sent])
  ultimately show ?thesis
    unfolding step by blast
qed

definition demo_timeout :: ikcpcb where
  "demo_timeout = (ikcp_init 1)\<lparr>k_updated := 1, k_current := 500, k_snd_nxt := 1, k_nsnd_buf := 1,
     k_snd_buf := [(demo_seg [5] 0)\<lparr>seg_resendts := 400\<rparr>]\<rparr>"

theorem timeout_resend_witness:
  "\<exists>s'. (\<exists>d\<in>set (fst (ikcp_flush demo_timeout)). \<exists>n us. decode_all ikcp_get_seg n d = Some us \<and> unit_of s' \<in> set us) \<and>
     seg_data s' = [5] \<and> unat (seg_rto s') = 400 \<and> seg_xmit s' = 2"
proof -
  let ?s = "(demo_seg [5] 0)\<lparr>seg_resendts := 400\<rparr>"
  have s: "?s \<in> set (k_snd_buf demo_timeout)" by (simp add: demo_timeout_def)
  have k: "k_updated demo_timeout = 1" "k_current demo_timeout = 500" "k_rx_rto demo_timeout = 200"
    "k_nodelay demo_timeout = 0" "k_mtu demo_timeout = 1400"
    "\<forall>s\<in>set (k_snd_buf demo_timeout @ k_snd_queue demo_timeout). pack_ok 1400 s"
    by (simp_all add: demo_timeout_def ikcp_init_def demo_seg_def pack_ok_def seg_wf_def)
  have "itimediff 500 400 = 100" by (simp add: itimediff_def)
  with timeout_resend [OF _ s] k show ?thesis
    by (fastforce simp: demo_seg_def)
qed

text \<open>window probing.  While the peer's window is zero, \<open>ikcp_flush\<close> first arms a timer of 7
  seconds; whenever it has expired a window request (\<open>IKCP_CMD_WASK\<close>) is part of the output, and
  the next one comes after half as long again, at most 120 seconds later.  So a sender that was
  told to stop keeps asking.  A peer window above zero disarms the timer.\<close>
theorem window_probe:
  assumes "unat (k_probe_wait k) \<le> 120000" and w: "w = unat (k_probe_wait (probe_timer k))"
  shows "if k_rmt_wnd k \<noteq> 0 then k_probe_wait (probe_timer k) = 0 \<and> k_ts_probe (probe_timer k) = 0
    else if k_probe_wait k = 0 then w = 7000 \<and> itimediff (k_ts_probe (probe_timer k)) (k_current k) = 7000
    else if itimediff (k_current k) (k_ts_probe k) < 0 then probe_timer k = k
    else w = min 120000 (max 7000 (unat (k_probe_wait k)) * 3 div 2) \<and>
      itimediff (k_ts_probe (probe_timer k)) (k_current k) = int w \<and>
      seg\<lparr>seg_cmd := 83\<rparr> \<in> set (probe_segs (probe_timer k) seg)"
proof -
  define v where "v = (if k_probe_wait k < 7000 then 7000 else k_probe_wait k)"
  define x where "x = (if v + v div 2 > 120000 then 120000 else v + v div 2)"
  have v: "unat v = max 7000 (unat (k_probe_wait k))"
    by (auto simp: v_def word_less_nat_alt)
  then have le: "unat v \<le> 120000" using assms(1) by simp
  have "unat (v + v div 2) = unat v + unat v div 2"
    using le by (subst u32_add) (simp_all add: unat_div_distrib)
  then have x: "unat x = min 120000 (unat v * 3 div 2)"
    by (auto simp: x_def word_less_nat_alt)
  have bit: "(p OR 1) AND 1 \<noteq> (0 :: u32)" for p
  proof -
    have "bit ((p OR 1) AND 1) 0" by (simp add: bit_simps)
    then show ?thesis by force
  qed
  show ?thesis
  proof (cases "k_rmt_wnd k = 0 \<and> k_probe_wait k \<noteq> 0 \<and> 0 \<le> itimediff (k_current k) (k_ts_probe k)")
    case True
    then have p: "probe_timer k = k\<lparr>k_probe_wait := x, k_ts_probe := k_current k + x, k_probe := k_probe k OR 1\<rparr>"
      by (simp add: probe_timer_def v_def [symmetric] Let_def x_def)
    have "itimediff (k_current k + x) (k_current k) = int (unat x)"
      using x by (subst itimediff_base) simp_all
    with True p x v bit w show ?thesis
      by (simp add: probe_segs_def del: of_nat_unat)
  next
    case False
    then show ?thesis
      using w by (auto simp: probe_timer_def itimediff_def)
  qed
qed

theorem window_probe_witness:
  "\<exists>w. w = unat (k_probe_wait (probe_timer ((ikcp_init 9)\<lparr>k_rmt_wnd := 0, k_probe_wait := 7000, k_current := 8000,
     k_ts_probe := 7000\<rparr>))) \<and> w = 10500"
  using window_probe [OF _ refl, of "(ikcp_init 9)\<lparr>k_rmt_wnd := 0, k_probe_wait := 7000, k_current := 8000,
     k_ts_probe := 7000\<rparr>"] by (simp add: itimediff_def ikcp_init_def)
end
