(* ===== verification/Kcp_Session.thy ===== *)
theory Kcp_Session
  imports Kcp_Flush
begin

text \<open>
  A KCP endpoint over its lifetime: the schedule (\<open>ikcp_update\<close>, \<open>ikcp_check\<close>), the calls an application
  makes as a step relation on the control block, the invariant of the reachable states, and what
  an endpoint accepts from its peer.
\<close>


section \<open>The clock\<close>

lemma check_loop_None: "check_loop p current tm = None \<longleftrightarrow> (\<exists>s\<in>set p. itimediff (seg_resendts s) current \<le> 0)"
  by (induction p current tm rule: check_loop.induct) (auto simp: Let_def)

lemma check_loop_Some:
  "check_loop p current tm = Some d \<Longrightarrow> d \<le> tm \<and> (0 < tm \<longrightarrow> 0 < d) \<and>
   (\<forall>s\<in>set p. d \<le> itimediff (seg_resendts s) current)"
  by (induction p current tm arbitrary: d rule: check_loop.induct) (fastforce simp: Let_def split: if_splits)+

lemma itimediff_range: "- (2 ^ 31) \<le> itimediff a b" "itimediff a b < 2 ^ 31"
  using i32_range [of "a - b"] by (simp_all add: itimediff_def int_range_def)

lemma itimediff_shift:
  assumes "0 \<le> d" and "d \<le> itimediff x t"
  shows "itimediff x (t + u32 d) = itimediff x t - d"
proof -
  have d: "d < 2 ^ 31"
    using assms itimediff_range(2) [of x t] by linarith
  have x: "unat (x - t) < 2 ^ 31"
    using assms itimediff_nonneg [of x t] by linarith
  have y: "unat (t + u32 d - t) = nat d"
    using assms(1) d by (simp add: unat_u32)
  have "itimediff x (t + u32 d) = int (unat (x - t)) - int (unat (t + u32 d - t))"
    using x y d by (intro itimediff_off) simp_all
  then show ?thesis
    using assms(1) y itimediff_base [OF x] by (simp del: of_nat_unat)
qed

lemma itimediff_u32: "0 \<le> d \<Longrightarrow> d < 2 ^ 31 \<Longrightarrow> itimediff (t + u32 d) t = d"
  by (subst itimediff_base) (simp_all add: unat_u32 del: of_nat_unat)

text \<open>C16: the answer of \<open>ikcp_check\<close> is a safe time to sleep until.  It is never in the past and at
  most one interval ahead, and at no moment before it is the flush time reached or a segment of
  the send buffer due for retransmission (differences taken modulo the wrap-around of the
  clock), so calling \<open>ikcp_update\<close> only then misses nothing.\<close>
theorem check_sound:
  assumes "unat (k_interval k) < 2 ^ 31" and t: "t = ikcp_check k current"
  shows "0 \<le> itimediff t current \<and> itimediff t current \<le> int (unat (k_interval k)) \<and>
    (t = current \<or>
      0 \<le> itimediff (k_ts_flush k) t \<and> (\<forall>s\<in>set (k_snd_buf k). 0 \<le> itimediff (seg_resendts s) t))"
proof (cases "t = current")
  case True
  then show ?thesis by (simp add: itimediff_def)
next
  case False
  define ts where "ts = k_ts_flush k"
  have far: "\<not> (itimediff current ts \<ge> 10000 \<or> itimediff current ts < -10000)"
    and neg: "\<not> itimediff current ts \<ge> 0"
    using False t by (auto simp: ikcp_check_def ts_def itimediff_def Let_def split: if_splits)
  have flush: "0 < itimediff ts current"
  proof -
    have "itimediff ts current = - itimediff current ts"
    proof -
      have "ts - current = u32 (- itimediff current ts)"
        by (simp add: itimediff_def u32_def wi_hom_neg [symmetric])
      then have "itimediff ts current = wrap32 (- itimediff current ts)"
        by (simp add: itimediff_def)
      also have "\<dots> = - itimediff current ts"
        using far neg by (intro wrap32_id) (simp add: int_range_def)
      finally show ?thesis .
    qed
    then show ?thesis using neg by simp
  qed
  obtain d where d: "check_loop (k_snd_buf k) current 0x7fffffff = Some d"
    using False t far neg by (auto simp: ikcp_check_def ts_def [symmetric] Let_def split: if_splits option.splits)
  note spec = check_loop_Some [OF d]
  define m where "m = (if d < itimediff ts current then d else itimediff ts current)"
  have m: "0 < m" "m < 2 ^ 31" "m \<le> d" "m \<le> itimediff ts current"
    using spec flush by (auto simp: m_def)
  define e where "e = (if int (unat (k_interval k)) \<le> m then int (unat (k_interval k)) else m)"
  have e: "0 \<le> e" "e \<le> m" "e \<le> int (unat (k_interval k))"
    using m by (auto simp: e_def simp del: of_nat_unat)
  have "(if u32 m \<ge> k_interval k then k_interval k else u32 m) = u32 e"
  proof -
    have "k_interval k \<le> u32 m \<longleftrightarrow> int (unat (k_interval k)) \<le> m"
      using m by (simp add: word_le_nat_alt unat_u32 le_nat_iff del: of_nat_unat)
    moreover have "u32 (int (unat (k_interval k))) = k_interval k"
      by (simp add: u32_def)
    ultimately show ?thesis by (simp only: e_def if_distrib [of u32])
  qed
  then have t': "t = current + u32 e"
    using False t far neg d
    by (simp add: ikcp_check_def ts_def [symmetric] Let_def m_def split: if_splits)
  have "itimediff t current = e"
    using e m unfolding t' by (intro itimediff_u32) linarith+
  moreover have "0 \<le> itimediff ts t"
    using itimediff_shift [of e ts current] e m unfolding t' by linarith
  moreover have "0 \<le> itimediff (seg_resendts s) t" if "s \<in> set (k_snd_buf k)" for s
    using itimediff_shift [of e "seg_resendts s" current] e m spec that unfolding t' by fastforce
  ultimately show ?thesis
    using e by (simp add: ts_def del: of_nat_unat)
qed

theorem check_sound_witness:
  "0 \<le> itimediff (ikcp_check (ikcp_init 9) 77) 77 \<and>
   itimediff (ikcp_check (ikcp_init 9) 77) 77 \<le> 100"
  using check_sound [OF _ refl, of "ikcp_init 9" 77] by (simp add: ikcp_init_def)

section \<open>Steps and reachable states\<close>

text \<open>
  The configuration before use: MTU, windows and stream mode; all arguments are \<open>int\<close>s.
\<close>

definition session_start :: "u32 \<Rightarrow> int \<Rightarrow> int \<Rightarrow> int \<Rightarrow> int \<Rightarrow> ikcpcb" where
  "session_start conv mtu sndwnd rcvwnd stream =
     (snd (ikcp_setmtu True (snd (ikcp_wndsize (ikcp_init conv) sndwnd rcvwnd)) mtu))\<lparr>k_stream := stream\<rparr>"

inductive session_step :: "ikcpcb \<Rightarrow> ikcpcb \<Rightarrow> bool" where
  step_send: "ikcp_send k b (int (length b)) = Some (r, k') \<Longrightarrow> length b < 2 ^ 31 \<Longrightarrow> session_step k k'"
| step_recv: "ikcp_recv k len = Some (r, bs, k') \<Longrightarrow> session_step k k'"
| step_input: "ikcp_input k d = Some (r, k') \<Longrightarrow>
    unat (k_ackcount k) + length d div 24 < 2 ^ 31 \<Longrightarrow> session_step k k'"
| step_update: "ikcp_update k current = (outs, k') \<Longrightarrow> session_step k k'"
| step_nodelay: "ikcp_nodelay k nodelay interval resend nc = (r, k') \<Longrightarrow> session_step k k'"

inductive reachable :: "ikcpcb \<Rightarrow> bool" where
  start: "int_range mtu \<Longrightarrow> int_range sndwnd \<Longrightarrow> int_range rcvwnd \<Longrightarrow>
    reachable (session_start conv mtu sndwnd rcvwnd stream)"
| step: "reachable k \<Longrightarrow> session_step k k' \<Longrightarrow> reachable k'"

inductive_cases session_stepE: "session_step k k'"

text \<open>The invariant: in addition to \<open>conn_inv\<close>, the shape of the segments to be sent.\<close>

definition out_seg_ok :: "ikcpcb \<Rightarrow> ikcpseg \<Rightarrow> bool" where
  "out_seg_ok k s \<longleftrightarrow> pack_ok (unat (k_mtu k)) s \<and> seg_conv s = k_conv k \<and> seg_cmd s = 81"

definition session_inv :: "ikcpcb \<Rightarrow> bool" where
  "session_inv k \<longleftrightarrow> conn_inv k \<and> unat (k_snd_wnd k) < 2 ^ 31 \<and> mss_ok k \<and>
     unat (k_mtu k) = unat (k_mss k) + 24 \<and> unat (k_mtu k) < 2 ^ 31 \<and> queue_ok k \<and> (\<forall>s\<in>set (k_snd_buf k). out_seg_ok k s)"

section \<open>What the operations leave alone\<close>

text \<open>\<open>kept k k'\<close>: configuration and send queue are the same, and the send buffer has no new content.\<close>

definition kept :: "ikcpcb \<Rightarrow> ikcpcb \<Rightarrow> bool" where
  "kept k k' \<longleftrightarrow> k_mtu k' = k_mtu k \<and> k_mss k' = k_mss k \<and> k_conv k' = k_conv k \<and>
     k_snd_wnd k' = k_snd_wnd k \<and> k_snd_queue k' = k_snd_queue k \<and> k_snd_nxt k' = k_snd_nxt k \<and> k_stream k' = k_stream k \<and>
     (\<forall>s\<in>set (k_snd_buf k'). \<exists>t\<in>set (k_snd_buf k). seg_conv s = seg_conv t \<and> seg_cmd s = seg_cmd t \<and>
        seg_len s = seg_len t \<and> seg_data s = seg_data t \<and> seg_sn s = seg_sn t \<and> seg_frg s = seg_frg t)"

lemma kept_refl: "kept k k"
  by (auto simp: kept_def)

lemma kept_trans: "kept a b \<Longrightarrow> kept b c \<Longrightarrow> kept a c"
  unfolding kept_def by (metis (no_types, lifting))

lemma kept_shrink: "kept k (ikcp_shrink_buf k)"
  using shrink_writes [of k] by (auto simp: kept_def)

lemma kept_una: "snd_inv k \<Longrightarrow> kept k (ikcp_parse_una k una)"
  by (auto simp: parse_una_eq kept_def)

lemma kept_ack: "snd_inv k \<Longrightarrow> kept k (ikcp_parse_ack k sn)"
  by (auto simp: parse_ack_eq snd_inv_def kept_def)

lemma kept_rtt: "kept k (ikcp_update_ack k rtt)"
  using update_ack_writes [of k rtt] by (auto simp: kept_def)

lemma kept_data: "kept k (ikcp_parse_data k s)"
  using parse_data_writes [of k s] by (auto simp: kept_def)

lemma kept_fastack: "snd_inv k \<Longrightarrow> kept k (ikcp_parse_fastack k sn ts)"
  by (auto simp: parse_fastack_eq [OF _ refl] snd_inv_def kept_def)

lemma kept_grow: "kept k (grow_cwnd k)"
  using grow_cwnd_writes [of k] by (auto simp: kept_def)

lemma ack_push_writes:
  "ikcp_ack_push k sn ts = Some k' \<Longrightarrow>
   \<exists>l b c. k' = k\<lparr>k_ackblock := b, k_acklist := l, k_ackcount := c\<rparr>"
proof -
  assume p: "ikcp_ack_push k sn ts = Some k'"
  have "ack_room k = Some j \<Longrightarrow> \<exists>l b. j = k\<lparr>k_acklist := l, k_ackblock := b\<rparr>" for j
  proof -
    have "\<exists>l b. k = k\<lparr>k_acklist := l, k_ackblock := b\<rparr>"
      by (intro exI [of _ "k_acklist k"] exI [of _ "k_ackblock k"]) simp
    then show "ack_room k = Some j \<Longrightarrow> \<exists>l b. j = k\<lparr>k_acklist := l, k_ackblock := b\<rparr>"
      by (auto simp: ack_room_def Let_def split: if_splits option.splits)
  qed
  note room = this
  obtain j where j: "ack_room k = Some j"
    using p by (cases "ack_room k") (auto simp: ikcp_ack_push_def)
  with room obtain l b where "j = k\<lparr>k_acklist := l, k_ackblock := b\<rparr>" by blast
  then have "k' = k\<lparr>k_ackblock := b,
      k_acklist := l[unat (k_ackcount k) * 2 := sn, Suc (unat (k_ackcount k) * 2) := ts],
      k_ackcount := k_ackcount k + 1\<rparr>"
    using p j by (auto simp: ikcp_ack_push_def Let_def)
  then show ?thesis by blast
qed

lemma input_seg_kept:
  assumes k: "snd_inv (fst km)" and i: "input_seg km u = Some km'"
  shows "kept (fst km) (fst km') \<and> snd_inv (fst km')"
proof -
  obtain k m h d where km: "km = (k, m)" and u: "u = (h, d)"
    by (meson surj_pair)
  let ?w = "k\<lparr>k_rmt_wnd := ucast (h_wnd h)\<rparr>"
  define c where "c = input_common k h"
  have w: "snd_inv ?w" "kept k ?w"
    using k by (auto simp: km frame_simps kept_def)
  have c: "snd_inv c"
    unfolding c_def input_common_def parse_una_eq [OF w(1)]
    using w(1) by (intro shrink_inv snd_sorted_sub [OF _ refl]) (simp add: snd_inv_def)
  have kc: "kept k c"
    unfolding c_def input_common_def
    by (rule kept_trans [OF kept_trans [OF w(2) kept_una [OF w(1)]] kept_shrink])
  have ack: "kept c (input_ack c h) \<and> snd_inv (input_ack c h)"
  proof -
    define j where "j = (if itimediff (k_current c) (h_ts h) \<ge> 0
      then ikcp_update_ack c (itimediff (k_current c) (h_ts h)) else c)"
    have j: "snd_inv j" "kept c j"
      using c update_ack_writes [of c "itimediff (k_current c) (h_ts h)"] kept_rtt kept_refl
      by (auto simp: j_def frame_simps)
    have "snd_inv (ikcp_shrink_buf (ikcp_parse_ack j (h_sn h)))"
      using j(1) unfolding snd_inv_def parse_ack_eq [OF conjunct1 [OF j(1) [unfolded snd_inv_def]]]
      by (intro shrink_inv [unfolded snd_inv_def] snd_sorted_sub [OF _ refl]) simp
    moreover have "kept c (ikcp_shrink_buf (ikcp_parse_ack j (h_sn h)))"
      by (rule kept_trans [OF kept_trans [OF j(2) kept_ack [OF j(1)]] kept_shrink])
    moreover have "input_ack c h = ikcp_shrink_buf (ikcp_parse_ack j (h_sn h))"
      by (simp add: input_ack_def j_def Let_def)
    ultimately show ?thesis by simp
  qed
  have push: "kept c j \<and> snd_inv j" if "input_push c h d = Some j" for j
  proof -
    have data: "kept a (ikcp_parse_data a s) \<and> (snd_inv a \<longrightarrow> snd_inv (ikcp_parse_data a s))" for a s
      using parse_data_writes [of a s] kept_data by (auto simp: frame_simps)
    have grow: "kept c a \<and> snd_inv a" if "ikcp_ack_push c (h_sn h) (h_ts h) = Some a" for a
      using ack_push_writes [OF that] c by (auto simp: kept_def frame_simps)
    show ?thesis
      using that c data grow kept_refl kept_trans unfolding input_push_def
      by (auto split: if_splits option.splits)
  qed
  have probe: "kept c (c\<lparr>k_probe := p\<rparr>) \<and> snd_inv (c\<lparr>k_probe := p\<rparr>)" for p
    using c by (auto simp: kept_def frame_simps)
  show ?thesis
    using i c kc ack push probe kept_trans [OF kc]
    by (auto simp: input_seg_def km u Let_def c_def [symmetric] split: if_splits)
qed

lemma input_loop_kept:
  "snd_inv (fst km) \<Longrightarrow> input_loop km data = Some (r, km') \<Longrightarrow> kept (fst km) (fst km') \<and> snd_inv (fst km')"
proof (induction km data rule: input_loop.induct)
  case (1 km data)
  show ?case
  proof (cases "length data < 24")
    case True
    with 1 show ?thesis by (simp add: input_loop.simps [of km data] kept_refl)
  next
    case False
    note outer = False
    show ?thesis
    proof (cases "ikcp_decode_hdr data")
      case None
      with False 1 show ?thesis by (simp add: input_loop.simps [of km data])
    next
      case (Some a)
      obtain h rest where a: "a = (h, rest)" by (meson surj_pair)
      let ?bad = "h_conv h \<noteq> k_conv (fst km) \<or> length rest < unat (h_len h) \<or> i32 (h_len h) < 0 \<or> \<not> known_cmd (h_cmd h)"
      show ?thesis
      proof (cases ?bad)
        case True
        with False Some a 1 show ?thesis
          by (auto simp: input_loop.simps [of km data] kept_refl split: if_splits)
      next
        case no: False
        obtain km2 where s: "input_seg km (h, take (unat (h_len h)) rest) = Some km2"
          and l: "input_loop km2 (drop (unat (h_len h)) rest) = Some (r, km')"
          using "1.prems"(2) outer Some a no
          by (auto simp: input_loop.simps [of km data] split: option.splits)
        have k2: "kept (fst km) (fst km2)" "snd_inv (fst km2)"
          using input_seg_kept [OF "1.prems"(1) s] by auto
        have "kept (fst km2) (fst km') \<and> snd_inv (fst km')"
          using "1.IH" [OF _ Some a [symmetric] _ _ _ s k2(2) l] outer no by simp
        with k2 show ?thesis using kept_trans by blast
      qed
    qed
  qed
qed

lemma input_kept:
  assumes k: "snd_inv k" and i: "ikcp_input k d = Some (r, k')"
  shows "kept k k'"
proof (cases "wrap32 (int (length d)) < 24")
  case True
  with i show ?thesis by (simp add: ikcp_input_eq kept_refl)
next
  case False
  with i obtain km where l: "input_loop (k, False, 0, 0) d = Some (r, km)"
    and k': "k' = (if r \<noteq> 0 then fst km else input_finish (k_snd_una k) km)"
    by (auto simp: ikcp_input_eq split: option.splits)
  have km: "kept k (fst km)" "snd_inv (fst km)"
    using input_loop_kept [OF _ l] k by simp_all
  obtain j flag maxack ts where j: "km = (j, flag, maxack, ts)" by (metis prod.collapse)
  define f where "f = (if flag then ikcp_parse_fastack j maxack ts else j)"
  have "kept j f"
    using km kept_fastack kept_refl by (simp add: f_def j)
  moreover have "kept f (input_finish (k_snd_una k) km)"
    using kept_grow kept_refl by (simp add: input_finish_def j f_def [symmetric] Let_def)
  ultimately have "kept k (input_finish (k_snd_una k) km)"
    using km by (metis fst_conv j kept_trans)
  with km k' show ?thesis by simp
qed

lemma recv_kept: "ikcp_recv k len = Some (r, bs, k') \<Longrightarrow> kept k k' \<and> (snd_inv k \<longrightarrow> snd_inv k') \<and> (acks_ok k \<longrightarrow> acks_ok k')"
proof -
  have move: "kept j (move_loop p j)" "snd_inv (move_loop p j) = snd_inv j" "acks_ok (move_loop p j) = acks_ok j" for p j
    by (simp_all add: move_loop_eq Let_def kept_def frame_simps) auto
  have take: "kept j (recv_take j)" "snd_inv (recv_take j) = snd_inv j" "acks_ok (recv_take j) = acks_ok j" for j
    by (simp_all add: recv_take_def kept_def frame_simps) auto
  have tell: "kept j (recv_tell b j)" "snd_inv (recv_tell b j) = snd_inv j" "acks_ok (recv_tell b j) = acks_ok j" for b j
    by (simp_all add: recv_tell_def kept_def frame_simps) auto
  show "ikcp_recv k len = Some (r, bs, k') \<Longrightarrow> ?thesis"
    using kept_trans [OF move(1) tell(1)] kept_trans [OF take(1) kept_trans [OF move(1) tell(1)]]
    by (auto simp: recv_cases Let_def kept_refl move take tell split: if_splits)
qed
section \<open>The session invariant\<close>

lemma kept_out_seg:
  assumes "kept k k'" and "\<forall>s\<in>set (k_snd_buf k). out_seg_ok k s"
  shows "\<forall>s\<in>set (k_snd_buf k'). out_seg_ok k' s"
  using assms unfolding kept_def out_seg_ok_def pack_ok_def seg_wf_def by metis

lemma kept_session_inv:
  "kept k k' \<Longrightarrow> conn_inv k' \<Longrightarrow> session_inv k \<Longrightarrow> session_inv k'"
  using kept_out_seg [of k k'] by (auto simp: session_inv_def kept_def mss_ok_def queue_ok_def)

lemma session_inv_send:
  assumes k: "session_inv k" and "ikcp_send k b (int (length b)) = Some (r, k')" "length b < 2 ^ 31"
  shows "session_inv k'"
proof -
  obtain q n where k': "k' = k\<lparr>k_snd_queue := q, k_nsnd_que := n\<rparr>" "queue_ok k'"
    using send_queue [of k b r k'] assms by (auto simp: session_inv_def)
  with k show ?thesis
    by (auto simp: session_inv_def conn_inv_def frame_simps mss_ok_def out_seg_ok_def)
qed

lemma session_inv_recv:
  assumes k: "session_inv k" and r: "ikcp_recv k len = Some (r, bs, k')"
  shows "session_inv k'"
proof -
  have "conn_inv k'"
    using k recv_kept [OF r] rcv_inv_recv [OF _ r] by (simp add: session_inv_def conn_inv_def)
  with recv_kept [OF r] k show ?thesis by (blast intro: kept_session_inv)
qed

lemma session_inv_input:
  assumes k: "session_inv k" and i: "ikcp_input k d = Some (r, k')"
    and n: "unat (k_ackcount k) + length d div 24 < 2 ^ 31"
  shows "session_inv k'"
proof -
  have c: "conn_inv k" using k by (simp add: session_inv_def)
  have "conn_inv k'"
    using input_loop_inv [of "(k, False, 0, 0)" d] c n i input_finish_inv
    by (auto simp: ikcp_input_eq split: if_splits)
  moreover have "kept k k'"
    using c i by (intro input_kept) (simp_all add: conn_inv_def)
  ultimately show ?thesis using k by (blast intro: kept_session_inv)
qed

lemma fill_segs_out:
  "s \<in> set (fill_segs k wnd nxt q) \<Longrightarrow> seg_conv s = k_conv k \<and> seg_cmd s = 81"
  by (induction q arbitrary: nxt) (auto simp: fill_seg_def)

lemma queue_pack_ok:
  "unat (k_mtu k) = unat (k_mss k) + 24 \<Longrightarrow> queue_ok k \<Longrightarrow> s \<in> set (k_snd_queue k) \<Longrightarrow>
   pack_ok (unat (k_mtu k)) s"
  by (auto simp: queue_ok_def pack_ok_def)

lemma session_inv_flush:
  assumes k: "session_inv k"
  shows "session_inv (snd (ikcp_flush k))"
proof (cases "k_updated k = 0")
  case True
  with k show ?thesis by (simp add: ikcp_flush_def)
next
  case False
  obtain x t p where p: "probe_timer (k\<lparr>k_ackcount := 0\<rparr>) =
      k\<lparr>k_ackcount := 0, k_probe_wait := x, k_ts_probe := t, k_probe := p\<rparr>"
    using probe_timer_writes by blast
  let ?k = "k\<lparr>k_ackcount := 0, k_probe_wait := x, k_ts_probe := t, k_probe := 0\<rparr>"
  obtain m where buf: "k_snd_buf (flush_filled k) =
      k_snd_buf k @ fill_segs ?k (seg_wnd (flush_seg k)) (k_snd_nxt k) (take m (k_snd_queue k))"
    and que: "k_snd_queue (flush_filled k) = drop m (k_snd_queue k)"
    by (auto simp: flush_filled_def p Let_def fill_loop_eq)
  have pack: "\<forall>s\<in>set (k_snd_buf (flush_filled k)). pack_ok (unat (k_mtu k)) s"
    using k queue_pack_ok by (intro flush_filled_pack_ok) (auto simp: session_inv_def out_seg_ok_def)
  have out: "\<forall>s\<in>set (k_snd_buf (flush_filled k)). out_seg_ok k s"
  proof
    fix s
    assume s: "s \<in> set (k_snd_buf (flush_filled k))"
    then consider "s \<in> set (k_snd_buf k)"
      | "s \<in> set (fill_segs ?k (seg_wnd (flush_seg k)) (k_snd_nxt k) (take m (k_snd_queue k)))"
      unfolding buf by auto
    then show "out_seg_ok k s"
    proof cases
      case 1
      with k show ?thesis by (simp add: session_inv_def)
    next
      case 2
      from fill_segs_out [OF this] pack s show ?thesis by (simp add: out_seg_ok_def)
    qed
  qed
  have w: "\<exists>h c i. snd (ikcp_flush k) = (flush_visited k)\<lparr>k_ssthresh := h, k_cwnd := c, k_incr := i\<rparr>"
    unfolding ikcp_flush_eq [OF False] snd_conv by (rule flush_window_writes)
  have f: "k_mtu (flush_visited k) = k_mtu k" "k_mss (flush_visited k) = k_mss k"
    "k_conv (flush_visited k) = k_conv k" "k_snd_wnd (flush_visited k) = k_snd_wnd k"
    using flush_filled_writes [of k] by (auto simp: flush_visited_def)
  have fq: "k_snd_queue (flush_visited k) = drop m (k_snd_queue k)"
    by (simp add: flush_visited_def que)
  have "conn_inv (snd (ikcp_flush k))"
    using k by (intro flush_inv) (simp_all add: session_inv_def)
  moreover have "\<forall>s\<in>set (k_snd_buf (flush_visited k)). out_seg_ok k s"
    using out by (auto simp: flush_visited_def out_seg_ok_def frame_simps pack_ok_def seg_wf_def)
  moreover have "queue_ok (flush_visited k)"
    using k by (auto simp: queue_ok_def session_inv_def f fq dest: in_set_dropD)
  ultimately show ?thesis
    using k w f by (auto simp: session_inv_def mss_ok_def queue_ok_def out_seg_ok_def)
qed

lemma update_cases:
  "\<exists>u t. ikcp_update k current = ikcp_flush (k\<lparr>k_current := current, k_updated := u, k_ts_flush := t\<rparr>) \<or>
    ikcp_update k current = ([], k\<lparr>k_current := current, k_updated := u, k_ts_flush := t\<rparr>)"
proof -
  define k1 where "k1 = (if k_updated k = 0 then k\<lparr>k_current := current, k_updated := 1, k_ts_flush := current\<rparr>
    else k\<lparr>k_current := current\<rparr>)"
  obtain u t where k1: "k1 = k\<lparr>k_current := current, k_updated := u, k_ts_flush := t\<rparr>"
  proof (cases "k_updated k = 0")
    case True
    then show ?thesis by (intro that [of current 1]) (simp add: k1_def)
  next
    case False
    then show ?thesis by (intro that [of "k_ts_flush k" "k_updated k"]) (simp add: k1_def)
  qed
  have "\<exists>t'. ikcp_update k current = ikcp_flush (k1\<lparr>k_ts_flush := t'\<rparr>) \<or>
      ikcp_update k current = ([], k1\<lparr>k_ts_flush := t'\<rparr>)"
  proof -
    have "\<exists>t'. k1 = k1\<lparr>k_ts_flush := t'\<rparr>" by (rule exI [of _ "k_ts_flush k1"]) simp
    moreover have "(if k_updated (k\<lparr>k_current := current\<rparr>) = 0
        then (k\<lparr>k_current := current\<rparr>)\<lparr>k_updated := 1, k_ts_flush := current\<rparr>
        else k\<lparr>k_current := current\<rparr>) = k1"
      by (simp add: k1_def)
    ultimately show ?thesis
      unfolding ikcp_update_def Let_def by auto
  qed
  then show ?thesis
    unfolding k1 by auto
qed

lemma session_inv_clock:
  "session_inv (k\<lparr>k_current := c, k_updated := u, k_ts_flush := t\<rparr>) = session_inv k"
  by (simp add: session_inv_def conn_inv_def frame_simps mss_ok_def queue_ok_def out_seg_ok_def)

lemma session_inv_update:
  "session_inv k \<Longrightarrow> ikcp_update k current = (outs, k') \<Longrightarrow> session_inv k'"
  using update_cases [of k current] session_inv_flush session_inv_clock by (metis snd_conv)

lemma inv_update_nodelay [frame_simps]:
  "rcv_inv (k\<lparr>k_nodelay := w\<rparr>) = rcv_inv k" "rcv_inv (k\<lparr>k_rx_minrto := i\<rparr>) = rcv_inv k"
  "rcv_inv (k\<lparr>k_interval := w\<rparr>) = rcv_inv k" "rcv_inv (k\<lparr>k_fastresend := i\<rparr>) = rcv_inv k"
  "rcv_inv (k\<lparr>k_nocwnd := i\<rparr>) = rcv_inv k" "snd_inv (k\<lparr>k_nodelay := w\<rparr>) = snd_inv k"
  "snd_inv (k\<lparr>k_rx_minrto := i\<rparr>) = snd_inv k" "snd_inv (k\<lparr>k_interval := w\<rparr>) = snd_inv k"
  "snd_inv (k\<lparr>k_fastresend := i\<rparr>) = snd_inv k" "snd_inv (k\<lparr>k_nocwnd := i\<rparr>) = snd_inv k"
  "acks_ok (k\<lparr>k_nodelay := w\<rparr>) = acks_ok k" "acks_ok (k\<lparr>k_rx_minrto := i\<rparr>) = acks_ok k"
  "acks_ok (k\<lparr>k_interval := w\<rparr>) = acks_ok k" "acks_ok (k\<lparr>k_fastresend := i\<rparr>) = acks_ok k"
  "acks_ok (k\<lparr>k_nocwnd := i\<rparr>) = acks_ok k"
  by (simp_all add: rcv_inv_def rcv_sorted_def rcv_counts_def rcv_drained_def rcv_off_def snd_inv_def
      snd_sorted_def snd_tight_def snd_off_def in_flight_def acks_ok_def cong: list.case_cong)

lemma session_inv_nodelay:
  "session_inv k \<Longrightarrow> session_inv (snd (ikcp_nodelay k nodelay interval resend nc))"
proof -
  have upd: "session_inv (j\<lparr>k_nodelay := w, k_rx_minrto := i\<rparr>) = session_inv j"
    "session_inv (j\<lparr>k_interval := w\<rparr>) = session_inv j" "session_inv (j\<lparr>k_fastresend := i\<rparr>) = session_inv j"
    "session_inv (j\<lparr>k_nocwnd := i\<rparr>) = session_inv j" for j w i
    by (simp_all add: session_inv_def conn_inv_def frame_simps mss_ok_def queue_ok_def out_seg_ok_def)
  show "session_inv k \<Longrightarrow> ?thesis"
    by (simp add: ikcp_nodelay_def Let_def upd)
qed

lemma session_inv_start:
  assumes "int_range mtu" and "int_range sndwnd" and "int_range rcvwnd"
  shows "session_inv (session_start conv mtu sndwnd rcvwnd stream)"
proof -
  have small: "unat (u32 x) < 2 ^ 31" if "int_range x" "0 < x" for x
    using that by (simp add: unat_u32 int_range_def)
  have mtu: "unat (u32 mtu - 24) + 24 = unat (u32 mtu)" "0 < unat (u32 mtu - 24)" if "50 \<le> mtu"
  proof -
    have "unat (u32 mtu - 24) = unat (u32 mtu) - unat (24 :: u32)"
      using that assms(1) by (intro unat_sub) (simp add: word_le_nat_alt unat_u32 int_range_def)
    then show "unat (u32 mtu - 24) + 24 = unat (u32 mtu)" "0 < unat (u32 mtu - 24)"
      using that assms(1) by (simp_all add: unat_u32 int_range_def)
  qed
  define j where "j = snd (ikcp_wndsize (ikcp_init conv) sndwnd rcvwnd)"
  have r: "rcv_inv j"
    unfolding j_def by (rule rcv_inv_init [OF assms(3)])
  have f: "k_snd_queue j = []" "k_snd_buf j = []" "k_mtu j = 1400" "k_mss j = 1376"
    "unat (k_snd_wnd j) < 2 ^ 31" "snd_inv j" "acks_ok j"
    using small [OF assms(2)] by (auto simp: j_def ikcp_wndsize_def ikcp_init_def Let_def snd_inv_def snd_sorted_def
        snd_tight_def snd_off_def in_flight_def acks_ok_def)
  have upd: "rcv_inv (i\<lparr>k_mtu := w\<rparr>) = rcv_inv i" "rcv_inv (i\<lparr>k_mss := w\<rparr>) = rcv_inv i"
    "snd_inv (i\<lparr>k_mtu := w\<rparr>) = snd_inv i" "snd_inv (i\<lparr>k_mss := w\<rparr>) = snd_inv i"
    "acks_ok (i\<lparr>k_mtu := w\<rparr>) = acks_ok i" "acks_ok (i\<lparr>k_mss := w\<rparr>) = acks_ok i"
    "rcv_inv (i\<lparr>k_stream := x\<rparr>) = rcv_inv i" "snd_inv (i\<lparr>k_stream := x\<rparr>) = snd_inv i"
    "acks_ok (i\<lparr>k_stream := x\<rparr>) = acks_ok i" for i w x
    by (simp_all add: rcv_inv_def rcv_sorted_def rcv_counts_def rcv_drained_def rcv_off_def snd_inv_def
        snd_sorted_def snd_tight_def snd_off_def in_flight_def acks_ok_def cong: list.case_cong)
  have small_mtu: "unat (u32 mtu) < 2 ^ 31" if "50 \<le> mtu"
    using that assms(1) by (simp add: unat_u32 int_range_def)
  show ?thesis
    using r f mtu small_mtu
    by (auto simp: session_start_def j_def [symmetric] ikcp_setmtu_def session_inv_def conn_inv_def upd mss_ok_def
        queue_ok_def)
qed
lemma session_step_inv: "session_step k k' \<Longrightarrow> session_inv k \<Longrightarrow> session_inv k'"
proof (erule session_stepE)
  fix nodelay interval resend nc r
  assume "session_inv k" and n: "ikcp_nodelay k nodelay interval resend nc = (r, k')"
  then show "session_inv k'"
    using session_inv_nodelay [of k nodelay interval resend nc] by simp
qed (auto intro: session_inv_send session_inv_recv session_inv_input session_inv_update)

lemma reachable_inv: "reachable k \<Longrightarrow> session_inv k"
  by (induction rule: reachable.induct) (auto intro: session_inv_start session_step_inv)

text \<open>The datagrams of one endpoint are well-formed input for another one.\<close>

lemma flush_segs_sent:
  assumes k: "session_inv k" and u: "k_updated k \<noteq> 0" and d: "d \<in> set (fst (ikcp_flush k))"
  shows "\<exists>ss. d = foldl ikcp_put_seg [] ss \<and> ss \<noteq> [] \<and> length d \<le> unat (k_mtu k) \<and>
    (\<forall>s\<in>set ss. seg_wf s \<and> seg_conv s = k_conv k \<and> known_cmd (ucast (seg_cmd s)) \<and>
      (ucast (seg_cmd s) = (81 :: u8) \<longrightarrow> s \<in> set (k_snd_buf (snd (ikcp_flush k)))))"
proof -
  have ok: "\<forall>s\<in>set (k_snd_buf k @ k_snd_queue k). pack_ok (unat (k_mtu k)) s"
    using k queue_pack_ok by (auto simp: session_inv_def out_seg_ok_def)
  have mtu: "24 \<le> unat (k_mtu k)" "unat (k_mtu k) < 2 ^ 31"
    using k by (simp_all add: session_inv_def)
  obtain sss sn ts where out: "fst (ikcp_flush k) = map datagram sss"
    and lim: "\<forall>ss\<in>set sss. ss \<noteq> [] \<and> length (datagram ss) \<le> unat (k_mtu k)"
    and all: "concat sss = map (ack_seg k (flush_seg k)) [0..<nat (i32 (k_ackcount k))] @
      probe_segs (probe_timer (k\<lparr>k_ackcount := 0\<rparr>)) ((flush_seg k)\<lparr>seg_sn := sn, seg_ts := ts\<rparr>) @
      flush_sent k"
    using flush_output_segs [OF u refl mtu ok] by blast
  obtain x t p where p: "probe_timer (k\<lparr>k_ackcount := 0\<rparr>) =
      k\<lparr>k_ackcount := 0, k_probe_wait := x, k_ts_probe := t, k_probe := p\<rparr>"
    using probe_timer_writes by blast
  let ?k = "k\<lparr>k_ackcount := 0, k_probe_wait := x, k_ts_probe := t, k_probe := 0\<rparr>"
  obtain m where buf: "k_snd_buf (flush_filled k) =
      k_snd_buf k @ fill_segs ?k (seg_wnd (flush_seg k)) (k_snd_nxt k) (take m (k_snd_queue k))"
    by (auto simp: flush_filled_def p Let_def fill_loop_eq)
  have "\<forall>s\<in>set (k_snd_buf (flush_filled k)). seg_conv s = k_conv k \<and> seg_cmd s = 81"
    using k fill_segs_out unfolding buf by (fastforce simp: session_inv_def out_seg_ok_def)
  moreover have "\<forall>s\<in>set (k_snd_buf (flush_filled k)). seg_wf s"
    using flush_filled_pack_ok [OF ok] by (simp add: pack_ok_def)
  ultimately have "\<forall>s\<in>set (flush_sent k). seg_wf s \<and> seg_conv s = k_conv k \<and> seg_cmd s = 81"
    by (auto simp: flush_sent_def sent_segs_def seg_wf_def frame_simps)
  moreover have "\<forall>s\<in>set (flush_sent k). s \<in> set (k_snd_buf (snd (ikcp_flush k)))"
  proof -
    obtain h c i where "snd (ikcp_flush k) = (flush_visited k)\<lparr>k_ssthresh := h, k_cwnd := c, k_incr := i\<rparr>"
      unfolding ikcp_flush_eq [OF u] snd_conv using flush_window_writes by blast
    then show ?thesis by (auto simp: flush_visited_def flush_sent_def sent_segs_def)
  qed
  ultimately have "\<forall>s\<in>set (concat sss). seg_wf s \<and> seg_conv s = k_conv k \<and> known_cmd (ucast (seg_cmd s)) \<and>
      (ucast (seg_cmd s) = (81 :: u8) \<longrightarrow> s \<in> set (k_snd_buf (snd (ikcp_flush k))))"
    unfolding all by (auto simp: ack_seg_def flush_seg_def probe_segs_def seg_wf_def known_cmd_def)
  moreover obtain ss where "ss \<in> set sss" "d = datagram ss"
    using d unfolding out by auto
  ultimately show ?thesis
    using lim by (intro exI [of _ ss]) (auto simp: datagram_def)
qed

lemma flush_segs_valid:
  assumes "session_inv k" "k_updated k \<noteq> 0" "d \<in> set (fst (ikcp_flush k))"
  shows "\<exists>ss. d = foldl ikcp_put_seg [] ss \<and> ss \<noteq> [] \<and> length d \<le> unat (k_mtu k) \<and>
    (\<forall>s\<in>set ss. seg_wf s \<and> seg_conv s = k_conv k \<and> known_cmd (ucast (seg_cmd s)))"
  using flush_segs_sent [OF assms] by blast

lemma valid_input:
  assumes j: "conn_inv j" and d: "d = foldl ikcp_put_seg [] ss" "ss \<noteq> []" "length d < 2 ^ 31"
    and ok: "\<forall>s\<in>set ss. seg_wf s \<and> seg_conv s = k_conv j \<and> known_cmd (ucast (seg_cmd s))"
    and n: "unat (k_ackcount j) + length d div 24 < 2 ^ 31"
  shows "\<exists>j'. ikcp_input j d = Some (0, j')"
proof -
  have flat: "d = concat (map (ikcp_put_seg []) ss)"
    using ok foldl_put_seg [of ss "[]"] d(1) by simp
  obtain s ss' where ss: "ss = s # ss'" using d(2) by (cases ss) auto
  have "24 \<le> length d"
    unfolding flat using ok put_seg_length [of s "[]"] by (simp add: ss)
  then have long: "\<not> wrap32 (int (length d)) < 24"
    using d(3) by (subst wrap32_nonneg) simp_all
  obtain r km where l: "input_loop (j, False, 0, 0) d = Some (r, km)"
    using input_loop_inv [of "(j, False, 0, 0)" d] j n by auto
  moreover have "input_loop (j, False, 0, 0) d =
      map_option (\<lambda>km. (0, km)) (input_segs (j, False, 0, 0) (map unit_of ss))"
    unfolding flat using ok by (intro input_loop_packed) simp
  ultimately have "r = 0" by auto
  with l long show ?thesis by (simp add: ikcp_input_eq)
qed

section \<open>Properties of a session\<close>

text \<open>C8: every reachable state is consistent.  Whatever an application does with an endpoint (sends,
  receives and peeks, feeds it arbitrary datagrams, lets the clock jump, changes the no-delay
  settings) after configuring it, the invariant holds: the receive window is sorted, drained and
  counted right, the send buffer is in order with \<open>snd_una\<close> first, the acknowledgement list is within
  its block, and no segment to be sent exceeds the MTU.\<close>
theorem session_safe:
  assumes "reachable k"
  shows "session_inv k"
  using assms by (rule reachable_inv)

theorem session_safe_witness: "session_inv (session_start 1 1400 64 200 0)"
  by (rule session_safe) (rule reachable.start, simp_all add: int_range_def)

text \<open>C6: two endpoints understand each other.  Every datagram that a reachable endpoint outputs
  fits the MTU, and any reachable endpoint of the same conversation accepts it: \<open>ikcp_input\<close>
  returns 0 and leaves a reachable state again (as long as it holds fewer than \<open>2^31\<close> unsent
  acknowledgements).\<close>
theorem session_interop:
  assumes k: "reachable k" and u: "ikcp_update k current = (outs, k')" and d: "d \<in> set outs"
    and j: "reachable j" and conv: "k_conv j = k_conv k"
    and n: "unat (k_ackcount j) + length d div 24 < 2 ^ 31"
  shows "length d \<le> unat (k_mtu k) \<and> (\<exists>j'. ikcp_input j d = Some (0, j') \<and> reachable j')"
proof -
  obtain c t where f: "(outs, k') = ikcp_flush (k\<lparr>k_current := current, k_updated := c, k_ts_flush := t\<rparr>)"
    using update_cases [of k current] u d by auto
  define i where "i = k\<lparr>k_current := current, k_updated := c, k_ts_flush := t\<rparr>"
  have i: "session_inv i"
    using reachable_inv [OF k] by (simp add: i_def session_inv_clock)
  have outs: "outs = fst (ikcp_flush i)"
    using f by (metis fst_conv i_def)
  then have upd: "k_updated i \<noteq> 0"
    using d by (auto simp: ikcp_flush_def)
  obtain ss where ss: "d = foldl ikcp_put_seg [] ss" "ss \<noteq> []" "length d \<le> unat (k_mtu i)"
    "\<forall>s\<in>set ss. seg_wf s \<and> seg_conv s = k_conv i \<and> known_cmd (ucast (seg_cmd s))"
    using flush_segs_valid [OF i upd] d outs by blast
  have "unat (k_mtu i) < 2 ^ 31" "k_conv i = k_conv k"
    using i by (simp_all add: session_inv_def i_def)
  then have len: "length d < 2 ^ 31"
    and ok: "\<forall>s\<in>set ss. seg_wf s \<and> seg_conv s = k_conv j \<and> known_cmd (ucast (seg_cmd s))"
    using ss(3,4) conv by auto
  have "conn_inv j"
    using reachable_inv [OF j] by (simp add: session_inv_def)
  then obtain j' where "ikcp_input j d = Some (0, j')"
    using valid_input [OF _ ss(1,2) len ok n] by blast
  then have "reachable j'" and "ikcp_input j d = Some (0, j')"
    using reachable.step [OF j step_input [OF _ n]] by blast+
  with ss(3) show ?thesis by (auto simp: i_def)
qed

definition demo_start :: ikcpcb where
  "demo_start = snd (ikcp_nodelay (session_start 1 1400 64 200 0) 1 10 2 1)"

definition demo_sent :: ikcpcb where
  "demo_sent = snd (the (ikcp_send demo_start [7, 8] 2))"

lemma demo_sent_send: "ikcp_send demo_start [7, 8] (int (length [7, 8 :: u8])) = Some (0, demo_sent)"
  unfolding demo_sent_def by code_simp

lemma demo_outs: "fst (ikcp_update demo_sent 5) = [[1, 0, 0, 0, 81, 0, 200, 0, 5, 0, 0, 0, 0, 0, 0, 0, 0, 0, 0, 0, 2, 0, 0, 0, 7, 8]]"
  by code_simp

lemma demo_reachable: "reachable demo_start" "reachable demo_sent"
proof -
  have "reachable (session_start 1 1400 64 200 0)"
    by (rule reachable.start) (simp_all add: int_range_def)
  then show "reachable demo_start"
    by (rule reachable.step) (rule step_nodelay [where nodelay = 1 and interval = 10 and resend = 2 and nc = 1 and r = 0], simp add: demo_start_def ikcp_nodelay_def Let_def)
  then show "reachable demo_sent"
    by (rule reachable.step) (rule step_send [OF demo_sent_send], simp)
qed

theorem session_interop_witness:
  "\<exists>d\<in>set (fst (ikcp_update demo_sent 5)). length d \<le> unat (k_mtu demo_sent) \<and>
     (\<exists>j'. ikcp_input demo_start d = Some (0, j') \<and> reachable j')"
proof -
  obtain outs k' where u: "ikcp_update demo_sent 5 = (outs, k')" by (meson surj_pair)
  let ?d = "[1, 0, 0, 0, 81, 0, 200, 0, 5, 0, 0, 0, 0, 0, 0, 0, 0, 0, 0, 0, 2, 0, 0, 0, 7, 8] :: u8 list"
  have d: "?d \<in> set outs"
    using demo_outs u by simp
  have c: "k_conv demo_start = k_conv demo_sent" "k_ackcount demo_start = 0"
    by code_simp+
  then have n: "unat (k_ackcount demo_start) + length ?d div 24 < 2 ^ 31"
    by simp
  have "length ?d \<le> unat (k_mtu demo_sent) \<and> (\<exists>j'. ikcp_input demo_start ?d = Some (0, j') \<and> reachable j')"
    by (rule session_interop [OF demo_reachable(2) u d demo_reachable(1) c(1) n])
  then show ?thesis using d u by (metis fst_conv)
qed

lemma flush_keeps_clock: "k_ts_flush (snd (ikcp_flush k)) = k_ts_flush k"
proof (cases "k_updated k = 0")
  case True
  then show ?thesis by (simp add: ikcp_flush_def)
next
  case False
  have "\<exists>h c i. snd (ikcp_flush k) = (flush_visited k)\<lparr>k_ssthresh := h, k_cwnd := c, k_incr := i\<rparr>"
    unfolding ikcp_flush_eq [OF False] snd_conv by (rule flush_window_writes)
  then show ?thesis
    using flush_filled_writes [of k] by (auto simp: flush_visited_def)
qed

text \<open>the flush schedule.  After \<open>ikcp_update\<close> the next flush time lies ahead of the clock: if
  this call flushed (at most one flush per call), by at most one interval, so flushes
  never bunch up even when calls come late; if it did not, nothing was output, only the clock was
  set, and the time left is below 10 seconds, whatever jumps the clock makes.\<close>
theorem update_schedule:
  assumes i: "0 < unat (k_interval k)" "unat (k_interval k) \<le> 5000" and u: "k_updated k \<noteq> 0"
    and r: "ikcp_update k current = (outs, k')" and d: "d = itimediff (k_ts_flush k') current"
  shows "0 < d \<and> (outs = [] \<and> k' = k\<lparr>k_current := current\<rparr> \<and> d \<le> 10000 \<or> d \<le> int (unat (k_interval k)))"
proof -
  define t where "t = k_ts_flush k"
  have neg: "itimediff a b = - itimediff b a" if "itimediff b a \<noteq> - (2 ^ 31)" for a b
  proof -
    have "a - b = u32 (- itimediff b a)"
      by (simp add: itimediff_def u32_def wi_hom_neg [symmetric])
    then have "itimediff a b = wrap32 (- itimediff b a)"
      by (simp add: itimediff_def)
    also have "\<dots> = - itimediff b a"
      using that itimediff_range [of b a] by (intro wrap32_id) (simp add: int_range_def)
    finally show ?thesis .
  qed
  have ahead: "itimediff (current + k_interval k) current = int (unat (k_interval k))"
    using i by (subst itimediff_base) simp_all
  define far where "far \<longleftrightarrow> itimediff current t \<ge> 10000 \<or> itimediff current t < -10000"
  define t1 where "t1 = (if far then current else t)"
  define t2 where "t2 = (if itimediff current (t1 + k_interval k) \<ge> 0 then current + k_interval k else t1 + k_interval k)"
  show ?thesis
  proof (cases "far \<or> 0 \<le> itimediff current t")
    case True
    have "(outs, k') = ikcp_flush (k\<lparr>k_current := current, k_ts_flush := t2\<rparr>)"
      using True u r unfolding far_def t2_def t1_def t_def
      by (auto simp: ikcp_update_def Let_def split: if_splits)
    then have "k' = snd (ikcp_flush (k\<lparr>k_current := current, k_ts_flush := t2\<rparr>))"
      by (metis snd_conv)
    then have k': "k_ts_flush k' = t2"
      by (simp add: flush_keeps_clock)
    have t1: "0 \<le> itimediff current t1" "itimediff current t1 < 10000"
      using True by (auto simp: t1_def far_def itimediff_def)
    have "0 < d \<and> d \<le> int (unat (k_interval k))"
    proof (cases "itimediff current (t1 + k_interval k) \<ge> 0")
      case True
      then show ?thesis using i ahead by (simp add: d k' t2_def del: of_nat_unat)
    next
      case False
      have x: "unat (current - t1) < 2 ^ 31"
        using t1 itimediff_nonneg [of current t1] by simp
      have "itimediff (t1 + k_interval k) current =
          int (unat (k_interval k)) - int (unat (current - t1))"
        using itimediff_off [of "t1 + k_interval k" t1 current] x i by simp
      moreover have "itimediff current (t1 + k_interval k) =
          int (unat (current - t1)) - int (unat (k_interval k))"
        using itimediff_off [of current t1 "t1 + k_interval k"] x i by simp
      ultimately show ?thesis
        using False by (simp add: d k' t2_def del: of_nat_unat)
    qed
    then show ?thesis by blast
  next
    case False
    then have "(outs, k') = ([], k\<lparr>k_current := current\<rparr>)"
      using u r unfolding far_def t_def by (auto simp: ikcp_update_def Let_def split: if_splits)
    then have "d = itimediff t current" "outs = []" "k' = k\<lparr>k_current := current\<rparr>"
      by (simp_all add: d t_def)
    moreover have "itimediff t current = - itimediff current t"
      using False by (intro neg) (auto simp: far_def)
    ultimately show ?thesis
      using False by (auto simp: far_def)
  qed
qed

theorem update_schedule_witness:
  "\<exists>outs k'. ikcp_update ((ikcp_init 9)\<lparr>k_updated := 1\<rparr>) 250 = (outs, k') \<and> 0 < itimediff (k_ts_flush k') 250"
proof -
  obtain outs k' where "ikcp_update ((ikcp_init 9)\<lparr>k_updated := 1\<rparr>) 250 = (outs, k')" by (meson surj_pair)
  with update_schedule [OF _ _ _ this refl] show ?thesis
    by (auto simp: ikcp_init_def)
qed

text \<open>
  Shrinking the MTU of an endpoint that has segments queued: the segments keep their size, so the
  flush writes a datagram that is longer than the new MTU, and even longer than the whole scratch
  buffer of \<open>(mtu + 24) * 3\<close> bytes that \<open>ikcp_setmtu\<close> has just allocated.
\<close>
lemma setmtu_overflow:
  "let k = snd (the (ikcp_send demo_start (replicate 200 0) 200)); k = snd (ikcp_setmtu True k 50)
   in map length (fst (ikcp_update k 5)) = [224] \<and> (50 + 24) * 3 < (224 :: nat)"
  by code_simp


end
