(* ===== verification/Kcp_Demo.thy ===== *)
theory Kcp_Demo
  imports Kcp_Session "HOL-Library.Monad_Syntax"
begin

text \<open>
  The two programs over KCP: the echo server \<open>server.c\<close> and the round-trip client \<open>client.c\<close> with its test object (\<open>delay.h\<close>, \<open>delay.c\<close>).
  A clock reading and what \<open>recvfrom\<close> returns come with each round, and the datagrams given to \<open>udp_output\<close> are collected in \<open>net\<close> (its
  result is not used by \<open>ikcp_output\<close>).  The sockets have been set up; sleeping and output to the terminal are left out, allocations succeed.
\<close>

type_synonym i64 = "64 word"

section \<open>Clocks\<close>

definition iclock64 :: "int \<Rightarrow> int \<Rightarrow> i64" where
  "iclock64 s u = word_of_int (s * 1000 + cdiv u 1000)"

definition iclock :: "i64 \<Rightarrow> u32" where
  "iclock now = ucast (now AND 0xffffffff)"

section \<open>The server\<close>

definition RECV_BUF :: nat where "RECV_BUF = 1500"

definition server_kcp :: ikcpcb where
  "server_kcp =
     (let k = ikcp_init 1;
          k = snd (ikcp_setmtu True k 1400);
          k = snd (ikcp_nodelay k 0 10 0 0)
      in snd (ikcp_wndsize k 128 128))"

text \<open>\<open>served\<close> records the messages given back to \<open>ikcp_send\<close> and its results.\<close>

record kcp_server =
  pkcp :: ikcpcb
  net :: "u8 list list"
  served :: "(u8 list \<times> int) list"

definition server_begin :: "i64 \<Rightarrow> kcp_server" where
  "server_begin now = (let (outs, k) = ikcp_update server_kcp (iclock now) in \<lparr>pkcp = k, net = outs, served = []\<rparr>)"

text \<open>A round: the clock, and a datagram, none (\<open>None\<close>, a negative count) or an empty one, which ends the loop (\<open>Inl\<close>).  \<open>ikcp_recv\<close> is given the size of the datagram
  as the size of the buffer.\<close>

definition server_round :: "i64 \<times> u8 list option \<Rightarrow> kcp_server \<Rightarrow> (kcp_server + kcp_server) option" where
  "server_round r s = (case r of (now, d) \<Rightarrow>
     (let (outs, k) = ikcp_update (pkcp s) (iclock now);
          s = s\<lparr>pkcp := k, net := net s @ outs\<rparr>
      in case d of
           None \<Rightarrow> Some (Inr s)
         | Some d \<Rightarrow>
             (let buf = take RECV_BUF d; n = int (length buf) in
              if n = 0 then Some (Inl s)
              else do {
                (ret, k) \<leftarrow> ikcp_input (pkcp s) buf;
                let s = s\<lparr>pkcp := k\<rparr>;
                if ret < 0 then Some (Inr s)
                else do {
                  (ret, bs, k) \<leftarrow> ikcp_recv (pkcp s) n;
                  let s = s\<lparr>pkcp := k\<rparr>;
                  if ret < 0 then Some (Inr s)
                  else do {
                    let buf = bs @ drop (length bs) buf;
                    (r, k) \<leftarrow> ikcp_send (pkcp s) (take (nat ret) buf) ret;
                    let (outs, k) = ikcp_flush k;
                    Some (Inr (s\<lparr>pkcp := k, net := net s @ outs, served := served s @ [(take (nat ret) buf, r)]\<rparr>)) } } })))"

fun server_loop :: "(i64 \<times> u8 list option) list \<Rightarrow> kcp_server \<Rightarrow> kcp_server option" where
  "server_loop [] s = Some s"
| "server_loop (r # rs) s = do {
     x \<leftarrow> server_round r s;
     (case x of Inl s \<Rightarrow> Some s | Inr s \<Rightarrow> server_loop rs s) }"

section \<open>The client\<close>

text \<open>The test object in memory: \<open>seqno\<close> at 0, \<open>send_time\<close> at 8, \<open>recv_time\<close> at 16, \<open>body\<close> at 24, and padding up to 1328 bytes.\<close>

definition DELAY_BODY_SIZE :: nat where "DELAY_BODY_SIZE = 1300"
definition obj_size :: nat where "obj_size = 1328"
definition DELAY_TEST2_N :: nat where "DELAY_TEST2_N = 1"
definition UDP_RECV_BUF_SIZE :: nat where "UDP_RECV_BUF_SIZE = 1500"

definition le_bytes :: "nat \<Rightarrow> i64 \<Rightarrow> u8 list" where
  "le_bytes n w = map (\<lambda>i. ucast (drop_bit (8 * i) w)) [0..<n]"

fun le_word :: "u8 list \<Rightarrow> i64" where
  "le_word [] = 0"
| "le_word (b # bs) = ucast b + 256 * le_word bs"

definition over :: "nat \<Rightarrow> u8 list \<Rightarrow> u8 list \<Rightarrow> u8 list" where
  "over i bs obj = take i obj @ bs @ drop (i + length bs) obj"

definition delay_set_seqno :: "u8 list \<Rightarrow> u16 \<Rightarrow> u8 list" where
  "delay_set_seqno obj seqno = over 0 (le_bytes 2 (ucast seqno)) obj"

definition delay_set_send_time :: "u8 list \<Rightarrow> i64 \<Rightarrow> u8 list" where
  "delay_set_send_time obj now = over 8 (le_bytes 8 now) obj"

definition delay_set_seqno_send_time :: "u8 list \<Rightarrow> u16 \<Rightarrow> i64 \<Rightarrow> u8 list" where
  "delay_set_seqno_send_time obj seqno now = over 8 (le_bytes 8 now) (over 0 (le_bytes 2 (ucast seqno)) obj)"

definition delay_set_recv_time :: "u8 list \<Rightarrow> i64 \<Rightarrow> u8 list" where
  "delay_set_recv_time obj now = over 16 (le_bytes 8 now) obj"

definition delay_rtt :: "u8 list \<Rightarrow> i64" where
  "delay_rtt obj = le_word (take 8 (drop 16 obj)) - le_word (take 8 (drop 8 obj))"

text \<open>The lines printed: the index, the sequence number and the round-trip time.\<close>

definition delay_print_rtt_time :: "u8 list list \<Rightarrow> nat \<Rightarrow> (nat \<times> i64 \<times> i64) list" where
  "delay_print_rtt_time os num = map (\<lambda>i. (i, le_word (take 2 (os ! i)), delay_rtt (os ! i))) [0..<num]"

definition client_kcp :: ikcpcb where
  "client_kcp =
     (let k = ikcp_init 1;
          k = snd (ikcp_nodelay k 0 10 0 0);
          k = snd (ikcp_wndsize k 128 128)
      in snd (ikcp_setmtu True k 1400))"

record kcp_client =
  ckcp :: ikcpcb
  objs :: "u8 list list"
  recv_objs :: nat
  sent :: "u8 list list"
  shown :: "(nat \<times> i64 \<times> i64) list"

text \<open>One round of either loop: the clock readings, and what \<open>recvfrom\<close> returns.\<close>

record client_io =
  at_send :: i64
  at_update :: i64
  arrived :: "u8 list option"
  at_recv :: i64

text \<open>What both loops do with a datagram: \<open>None\<close> inside when there is nothing to take, and otherwise whether the object has its size.\<close>

definition client_take :: "nat \<Rightarrow> client_io \<Rightarrow> kcp_client \<Rightarrow> (bool option \<times> kcp_client) option" where
  "client_take i e s =
     (case arrived e of
        None \<Rightarrow> Some (None, s)
      | Some d \<Rightarrow> do {
          (ret, k) \<leftarrow> ikcp_input (ckcp s) (take UDP_RECV_BUF_SIZE d);
          let s = s\<lparr>ckcp := k\<rparr>;
          if ret < 0 then Some (None, s)
          else do {
            (ret, bs, k) \<leftarrow> ikcp_recv (ckcp s) (int obj_size);
            let s = s\<lparr>ckcp := k\<rparr>;
            if ret < 0 then Some (None, s)
            else do {
              let os = (objs s)[i := over 0 bs (objs s ! i)];
              let os = os[recv_objs s := delay_set_recv_time (os ! recv_objs s) (at_recv e)];
              Some (Some (ret = int obj_size), s\<lparr>objs := os, recv_objs := recv_objs s + 1\<rparr>) } } })"

definition client_update :: "client_io \<Rightarrow> kcp_client \<Rightarrow> kcp_client" where
  "client_update e s = (let (outs, k) = ikcp_update (ckcp s) (iclock (at_update e)) in s\<lparr>ckcp := k, sent := sent s @ outs\<rparr>)"

text \<open>A loop that is given the readings of its rounds: they are used up and it still runs, the function has returned from inside, or the loop has ended.\<close>

datatype 'a progress = Running 'a | Returned 'a | Finished 'a

text \<open>The first loop sends the objects.\<close>

fun first_loop :: "nat \<Rightarrow> client_io list \<Rightarrow> kcp_client \<Rightarrow> kcp_client progress option" where
  "first_loop i [] s = Some (if i < DELAY_TEST2_N then Running s else Finished s)"
| "first_loop i (e # es) s =
     (if i < DELAY_TEST2_N then do {
        let s = s\<lparr>objs := (objs s)[i := delay_set_seqno_send_time (objs s ! i) (of_nat i) (at_send e)]\<rparr>;
        (ret, k) \<leftarrow> ikcp_send (ckcp s) (objs s ! i) (int obj_size);
        let s = s\<lparr>ckcp := k\<rparr>;
        if ret < 0 then Some (Returned s)
        else do {
          (got, s) \<leftarrow> client_take i e (client_update e s);
          if got = Some False then Some (Returned (s\<lparr>shown := delay_print_rtt_time (objs s) i\<rparr>)) else first_loop (i + 1) es s } }
      else Some (Finished s))"

text \<open>The second loop waits for the objects that are still out.\<close>

fun second_loop :: "nat \<Rightarrow> client_io list \<Rightarrow> kcp_client \<Rightarrow> kcp_client progress option" where
  "second_loop i [] s = Some (if i < DELAY_TEST2_N then Running s else Finished s)"
| "second_loop i (e # es) s =
     (if i < DELAY_TEST2_N then do {
        (got, s) \<leftarrow> client_take i e (client_update e s);
        if got = None then second_loop i es s
        else if got = Some False then Some (Returned (s\<lparr>shown := delay_print_rtt_time (objs s) (i + 1)\<rparr>))
        else second_loop (i + 1) es s }
      else Some (Finished s))"

definition client_begin :: "u8 list list \<Rightarrow> i64 \<Rightarrow> kcp_client" where
  "client_begin os now = (let (outs, k) = ikcp_update client_kcp (iclock now) in \<lparr>ckcp = k, objs = os, recv_objs = 0, sent = outs, shown = []\<rparr>)"

text \<open>The whole test; the first \<open>DELAY_TEST2_N\<close> rounds belong to the first loop.  \<open>Inl\<close>: the test still waits when the rounds are used up; \<open>Inr\<close>: it has returned.\<close>

definition delay_test2 :: "u8 list list \<Rightarrow> i64 \<Rightarrow> client_io list \<Rightarrow> (kcp_client + kcp_client) option" where
  "delay_test2 os now es = do {
     x \<leftarrow> first_loop 0 (take DELAY_TEST2_N es) (client_begin os now);
     (case x of
        Running s \<Rightarrow> Some (Inl s)
      | Returned s \<Rightarrow> Some (Inr s)
      | Finished s \<Rightarrow> do {
          x \<leftarrow> second_loop (recv_objs s) (drop DELAY_TEST2_N es) s;
          (case x of
             Running s \<Rightarrow> Some (Inl s)
           | Returned s \<Rightarrow> Some (Inr s)
           | Finished s \<Rightarrow> (let (outs, k) = ikcp_flush (ckcp s) in
             Some (Inr (s\<lparr>ckcp := k, sent := sent s @ outs, shown := delay_print_rtt_time (objs s) DELAY_TEST2_N\<rparr>)))) }) }"

section \<open>What the server keeps\<close>

text \<open>Received segments are as long as they say, and no longer than a datagram of \<open>cap\<close> bytes.\<close>

definition seg_fits :: "nat \<Rightarrow> ikcpseg \<Rightarrow> bool" where
  "seg_fits m s \<longleftrightarrow> unat (seg_len s) = length (seg_data s) \<and> length (seg_data s) \<le> m"

definition rcv_fits :: "nat \<Rightarrow> ikcpcb \<Rightarrow> bool" where
  "rcv_fits m k \<longleftrightarrow> (\<forall>s\<in>set (k_rcv_buf k) \<union> set (k_rcv_queue k). seg_fits m s)"

lemma move_loop_set: "set (k_rcv_buf (move_loop p k)) \<union> set (k_rcv_queue (move_loop p k)) = set p \<union> set (k_rcv_queue k)"
  by (induction p k rule: move_loop.induct) auto

lemma move_loop_snd: "k_snd_queue (move_loop p k) = k_snd_queue k"
  by (induction p k rule: move_loop.induct) auto

lemma parse_data_fits:
  assumes "rcv_fits cap k" "seg_fits cap s"
  shows "rcv_fits cap (ikcp_parse_data k s)"
proof (cases "insert_loop s (rev (k_rcv_buf k))")
  case None
  then show ?thesis using assms move_loop_set [of "k_rcv_buf k" k] by (auto simp: ikcp_parse_data_def rcv_fits_def Let_def)
next
  case (Some q)
  let ?k = "k\<lparr>k_rcv_buf := rev q, k_nrcv_buf := k_nrcv_buf k + 1\<rparr>"
  show ?thesis using assms insert_loop_set [OF Some] move_loop_set [of "rev q" ?k] Some
    by (auto simp: ikcp_parse_data_def rcv_fits_def Let_def)
qed

text \<open>The fields that most operations leave alone.\<close>

definition same :: "ikcpcb \<Rightarrow> ikcpcb \<Rightarrow> bool" where
  "same k k' \<longleftrightarrow> k_mtu k' = k_mtu k \<and> k_mss k' = k_mss k \<and> k_conv k' = k_conv k \<and> k_updated k' = k_updated k \<and> k_stream k' = k_stream k \<and>
     k_rcv_wnd k' = k_rcv_wnd k"

definition same_rcv :: "ikcpcb \<Rightarrow> ikcpcb \<Rightarrow> bool" where
  "same_rcv k k' \<longleftrightarrow> same k k' \<and> k_rcv_buf k' = k_rcv_buf k \<and> k_rcv_queue k' = k_rcv_queue k \<and> k_ackcount k' = k_ackcount k"

lemma same_refl: "same k k" "same_rcv k k"
  by (simp_all add: same_def same_rcv_def)

lemma same_trans: "same a b \<Longrightarrow> same b c \<Longrightarrow> same a c" "same_rcv a b \<Longrightarrow> same_rcv b c \<Longrightarrow> same_rcv a c"
  by (simp_all add: same_def same_rcv_def)

lemma same_fits: "same_rcv k k' \<Longrightarrow> rcv_fits cap k' = rcv_fits cap k"
  by (simp add: same_rcv_def rcv_fits_def)

lemma shrink_same: "same_rcv k (ikcp_shrink_buf k)"
  using shrink_writes [of k] by (auto simp: same_rcv_def same_def)

lemma common_same:
  assumes "snd_inv k"
  shows "same_rcv k (input_common k h)"
proof -
  have "snd_inv (k\<lparr>k_rmt_wnd := ucast (h_wnd h)\<rparr>)" using assms by (simp add: frame_simps)
  then have "same_rcv k (ikcp_parse_una (k\<lparr>k_rmt_wnd := ucast (h_wnd h)\<rparr>) (h_una h))" by (simp add: parse_una_eq same_rcv_def same_def)
  then show ?thesis unfolding input_common_def by (rule same_trans(2) [OF _ shrink_same])
qed

lemma ack_same:
  assumes "snd_inv k"
  shows "same_rcv k (input_ack k h)"
proof -
  define j where "j = (if itimediff (k_current k) (h_ts h) \<ge> 0 then ikcp_update_ack k (itimediff (k_current k) (h_ts h)) else k)"
  have j: "snd_inv j" "same_rcv k j"
    using assms update_ack_writes [of k "itimediff (k_current k) (h_ts h)"] by (auto simp: j_def frame_simps same_rcv_def same_def)
  have "snd_sorted j" using j(1) by (simp add: snd_inv_def)
  then have "same_rcv j (ikcp_parse_ack j (h_sn h))" by (simp add: parse_ack_eq same_rcv_def same_def)
  then have "same_rcv k (ikcp_shrink_buf (ikcp_parse_ack j (h_sn h)))" using same_trans(2) [OF j(2)] same_trans(2) [OF _ shrink_same] by blast
  then show ?thesis by (simp add: input_ack_def j_def Let_def)
qed

lemma parse_data_same: "same k (ikcp_parse_data k s) \<and> k_ackcount (ikcp_parse_data k s) = k_ackcount k"
  using parse_data_writes [of k s] by (auto simp: same_def)

lemma input_seg_fits:
  assumes k: "conn_inv (fst km)" "rcv_fits cap (fst km)" "unat (k_ackcount (fst km)) < 2 ^ 31"
    and d: "unat (h_len h) = length d" "length d \<le> cap" and i: "input_seg km (h, d) = Some km'"
  shows "same (fst km) (fst km') \<and> rcv_fits cap (fst km')"
proof -
  obtain k m where km: "km = (k, m)" by (cases km)
  define c where "c = input_common k h"
  have snd: "snd_inv k" using k(1) by (simp add: km conn_inv_def)
  have c: "same_rcv k c" unfolding c_def by (rule common_same [OF snd])
  have ci: "conn_inv c" unfolding c_def using k(1) km input_common_inv by simp
  then have cs: "snd_inv c" by (simp add: conn_inv_def)
  have sc: "same k c" and fc: "rcv_fits cap c" using c k(2) same_fits [OF c] by (simp_all add: same_rcv_def km)
  have fits: "seg_fits cap (hdr_seg h d)" using d by (simp add: seg_fits_def hdr_seg_def)
  have push: "same c j \<and> rcv_fits cap j" if "input_push c h d = Some j" for j
  proof -
    have a: "same c a \<and> rcv_fits cap a" if "ikcp_ack_push c (h_sn h) (h_ts h) = Some a" for a
      using ack_push_writes [OF that] fc by (auto simp: same_def rcv_fits_def)
    show ?thesis using that a fc fits parse_data_fits parse_data_same same_trans(1) same_refl(1) unfolding input_push_def
      by (auto split: if_splits option.splits)
  qed
  have ack: "same c (input_ack c h) \<and> rcv_fits cap (input_ack c h)"
    using ack_same [OF cs] same_fits [OF ack_same [OF cs]] fc by (auto simp: same_rcv_def)
  have probe: "same c (c\<lparr>k_probe := p\<rparr>) \<and> rcv_fits cap (c\<lparr>k_probe := p\<rparr>)" for p using fc by (simp add: same_def rcv_fits_def)
  show ?thesis
    using i sc fc ack push probe same_trans(1) [OF sc] by (auto simp: input_seg_def km Let_def c_def [symmetric] split: if_splits)
qed

lemma input_loop_fits:
  assumes "conn_inv (fst km)" "rcv_fits cap (fst km)" "unat (k_ackcount (fst km)) + length data div 24 < 2 ^ 31" "length data \<le> cap"
  shows "\<exists>r km'. input_loop km data = Some (r, km') \<and> r \<in> {0, -1, -2, -3} \<and> conn_inv (fst km') \<and> same (fst km) (fst km') \<and> rcv_fits cap (fst km') \<and>
    unat (k_ackcount (fst km')) \<le> unat (k_ackcount (fst km)) + length data div 24"
  using assms
proof (induction "length data" arbitrary: km data rule: less_induct)
  case less
  show ?case
  proof (cases "length data < 24")
    case True
    with less.prems show ?thesis by (intro exI [of _ 0] exI [of _ km]) (simp add: input_loop.simps [of km data] same_refl)
  next
    case False
    then obtain h rest where h: "ikcp_decode_hdr data = Some (h, rest)" using decode_hdr_some [of data] by auto
    then have len: "length data = length rest + 24" by (rule decode_hdr_length)
    let ?d = "take (unat (h_len h)) rest"
    let ?r = "drop (unat (h_len h)) rest"
    show ?thesis
    proof (cases "h_conv h \<noteq> k_conv (fst km) \<or> length rest < unat (h_len h) \<or> i32 (h_len h) < 0 \<or> \<not> known_cmd (h_cmd h)")
      case True
      then have "input_loop km data = Some (if h_conv h \<noteq> k_conv (fst km) then -1
          else if length rest < unat (h_len h) \<or> i32 (h_len h) < 0 then -2 else -3, km)" using False h by (auto simp: input_loop.simps [of km data])
      then obtain r where "input_loop km data = Some (r, km)" "r \<in> {0, -1, -2, -3}" by simp
      then show ?thesis using less.prems same_refl by (intro exI [of _ r] exI [of _ km]) simp
    next
      case ok: False
      have n: "unat (k_ackcount (fst km)) < 2 ^ 31" using less.prems(3) by simp
      obtain km' where s: "input_seg km (h, ?d) = Some km'" and k': "conn_inv (fst km')"
        and a: "unat (k_ackcount (fst km')) \<le> unat (k_ackcount (fst km)) + 1"
        using input_seg_inv [OF less.prems(1) n, of "(h, ?d)"] by auto
      have f: "same (fst km) (fst km')" "rcv_fits cap (fst km')"
        using input_seg_fits [OF less.prems(1,2) n _ _ s] ok less.prems(4) len by auto
      have div: "length ?r div 24 + 1 \<le> length data div 24" unfolding len by (simp add: div_le_mono)
      have "\<exists>r km2. input_loop km' ?r = Some (r, km2) \<and> r \<in> {0, -1, -2, -3} \<and> conn_inv (fst km2) \<and> same (fst km') (fst km2) \<and> rcv_fits cap (fst km2) \<and>
          unat (k_ackcount (fst km2)) \<le> unat (k_ackcount (fst km')) + length ?r div 24"
        using len div less.prems(3,4) a by (intro less.hyps k' f(2)) auto
      then obtain r km2 where l: "input_loop km' ?r = Some (r, km2)" "r \<in> {0, -1, -2, -3}" "conn_inv (fst km2)" "same (fst km') (fst km2)" "rcv_fits cap (fst km2)"
          "unat (k_ackcount (fst km2)) \<le> unat (k_ackcount (fst km')) + length ?r div 24" by blast
      have "input_loop km data = Some (r, km2)" using False h s ok l(1) by (simp add: input_loop.simps [of km data] del: split_paired_Ex)
      moreover have "unat (k_ackcount (fst km2)) \<le> unat (k_ackcount (fst km)) + length data div 24" using l(6) a div by linarith
      ultimately show ?thesis using l same_trans(1) [OF f(1) l(4)] by blast
    qed
  qed
qed

lemma finish_same:
  assumes "conn_inv (fst km)"
  shows "same_rcv (fst km) (input_finish u km)"
proof -
  obtain j flag maxack ts where j: "km = (j, flag, maxack, ts)" by (metis prod.collapse)
  define f where "f = (if flag then ikcp_parse_fastack j maxack ts else j)"
  have "snd_sorted j" using assms by (simp add: j conn_inv_def snd_inv_def)
  then have "same_rcv j f" by (simp add: f_def parse_fastack_eq [OF _ refl] same_rcv_def same_def)
  moreover have "same_rcv f (input_finish u km)"
    using grow_cwnd_writes [of f] same_refl by (auto simp: input_finish_def j f_def [symmetric] Let_def same_rcv_def same_def)
  ultimately show ?thesis using same_trans(2) by (simp add: j)
qed

lemma input_fits:
  assumes "session_inv k" "rcv_fits cap k" "unat (k_ackcount k) + length d div 24 < 2 ^ 31" "length d \<le> cap"
  shows "\<exists>r k'. ikcp_input k d = Some (r, k') \<and> session_inv k' \<and> same k k' \<and> rcv_fits cap k' \<and> unat (k_ackcount k') \<le> unat (k_ackcount k) + length d div 24"
proof -
  have c: "conn_inv k" using assms(1) by (simp add: session_inv_def)
  obtain r km where l: "input_loop (k, False, 0, 0) d = Some (r, km)" "conn_inv (fst km)" "same k (fst km)" "rcv_fits cap (fst km)"
      "unat (k_ackcount (fst km)) \<le> unat (k_ackcount k) + length d div 24"
    using input_loop_fits [of "(k, False, 0, 0)" cap d] c assms(2-4) by auto
  note f = finish_same [OF l(2), of "k_snd_una k"]
  let ?k = "if wrap32 (int (length d)) < 24 then k else if r \<noteq> 0 then fst km else input_finish (k_snd_una k) km"
  have i: "\<exists>r. ikcp_input k d = Some (r, ?k)" using l(1) by (simp add: ikcp_input_eq)
  have "same k ?k \<and> rcv_fits cap ?k \<and> unat (k_ackcount ?k) \<le> unat (k_ackcount k) + length d div 24"
    using l(3-5) f same_fits [OF f] assms(2) same_refl(1) same_trans(1) [OF l(3)] by (auto simp: same_rcv_def)
  then show ?thesis using i session_inv_input [OF assms(1) _ assms(3)] by blast
qed

lemma flush_same:
  assumes "k_updated k \<noteq> 0"
  shows "same k (snd (ikcp_flush k)) \<and> k_rcv_buf (snd (ikcp_flush k)) = k_rcv_buf k \<and> k_rcv_queue (snd (ikcp_flush k)) = k_rcv_queue k \<and>
    k_ackcount (snd (ikcp_flush k)) = 0"
proof -
  have "\<exists>h c i. snd (ikcp_flush k) = (flush_visited k)\<lparr>k_ssthresh := h, k_cwnd := c, k_incr := i\<rparr>"
    unfolding ikcp_flush_eq [OF assms] snd_conv by (rule flush_window_writes)
  then show ?thesis using flush_filled_writes [of k] by (auto simp: flush_visited_def same_def)
qed

lemma update_cases_live:
  "\<exists>u t. u \<noteq> 0 \<and> (ikcp_update k current = ikcp_flush (k\<lparr>k_current := current, k_updated := u, k_ts_flush := t\<rparr>) \<or>
    ikcp_update k current = ([], k\<lparr>k_current := current, k_updated := u, k_ts_flush := t\<rparr>))"
proof -
  define k1 where "k1 = (if k_updated k = 0 then k\<lparr>k_current := current, k_updated := 1, k_ts_flush := current\<rparr>
    else k\<lparr>k_current := current\<rparr>)"
  obtain u t where k1: "k1 = k\<lparr>k_current := current, k_updated := u, k_ts_flush := t\<rparr>" "u \<noteq> 0"
  proof (cases "k_updated k = 0")
    case True
    then show ?thesis by (intro that [of current 1]) (simp_all add: k1_def)
  next
    case False
    then show ?thesis by (intro that [of "k_ts_flush k" "k_updated k"]) (simp_all add: k1_def)
  qed
  have "\<exists>t'. ikcp_update k current = ikcp_flush (k1\<lparr>k_ts_flush := t'\<rparr>) \<or> ikcp_update k current = ([], k1\<lparr>k_ts_flush := t'\<rparr>)"
  proof -
    have "\<exists>t'. k1 = k1\<lparr>k_ts_flush := t'\<rparr>" by (rule exI [of _ "k_ts_flush k1"]) simp
    moreover have "(if k_updated (k\<lparr>k_current := current\<rparr>) = 0
        then (k\<lparr>k_current := current\<rparr>)\<lparr>k_updated := 1, k_ts_flush := current\<rparr> else k\<lparr>k_current := current\<rparr>) = k1"
      by (simp add: k1_def)
    ultimately show ?thesis unfolding ikcp_update_def Let_def by auto
  qed
  then show ?thesis unfolding k1(1) using k1(2) by auto
qed

text \<open>A datagram that any endpoint of the conversation accepts.\<close>

definition for_peers :: "u32 \<Rightarrow> u8 list \<Rightarrow> bool" where
  "for_peers c d \<longleftrightarrow> length d \<le> 1400 \<and> (\<forall>j. conn_inv j \<and> k_conv j = c \<and> unat (k_ackcount j) + 62 < 2 ^ 31 \<longrightarrow> (\<exists>j'. ikcp_input j d = Some (0, j')))"

definition endpoint_ok :: "u32 \<Rightarrow> nat \<Rightarrow> ikcpcb \<Rightarrow> bool" where
  "endpoint_ok c n k \<longleftrightarrow> session_inv k \<and> rcv_fits 1500 k \<and> unat (k_ackcount k) \<le> 62 * n \<and> k_mtu k = 1400 \<and> k_conv k = c \<and> k_stream k = 0 \<and> k_rcv_wnd k = 128"

lemma endpoint_ok_mono: "endpoint_ok c n k \<Longrightarrow> n \<le> m \<Longrightarrow> endpoint_ok c m k"
  by (auto simp: endpoint_ok_def)

lemma flush_for_peers:
  assumes "session_inv k" "k_updated k \<noteq> 0" "k_mtu k = 1400" "k_conv k = c" "d \<in> set (fst (ikcp_flush k))"
  shows "for_peers c d"
proof -
  obtain ss where ss: "d = foldl ikcp_put_seg [] ss" "ss \<noteq> []" "length d \<le> 1400" "\<forall>s\<in>set ss. seg_wf s \<and> seg_conv s = c \<and> known_cmd (ucast (seg_cmd s))"
    using flush_segs_valid [OF assms(1,2,5)] assms(3,4) by auto
  have "\<exists>j'. ikcp_input j d = Some (0, j')" if "conn_inv j" "k_conv j = c" "unat (k_ackcount j) + 62 < 2 ^ 31" for j
  proof -
    have "length d div 24 \<le> 62" using ss(3) by simp
    then have "unat (k_ackcount j) + length d div 24 < 2 ^ 31" using that(3) by linarith
    then show ?thesis using valid_input [OF that(1) ss(1,2)] ss(3,4) that(2) by simp
  qed
  then show ?thesis using ss(3) by (simp add: for_peers_def)
qed

lemma flush_ok:
  assumes "endpoint_ok c n k" "k_updated k \<noteq> 0"
  shows "endpoint_ok c 0 (snd (ikcp_flush k)) \<and> k_updated (snd (ikcp_flush k)) \<noteq> 0 \<and> (\<forall>d\<in>set (fst (ikcp_flush k)). for_peers c d)"
  using flush_same [OF assms(2)] session_inv_flush [of k] flush_for_peers [of k] assms
  by (auto simp: endpoint_ok_def same_def rcv_fits_def)

lemma update_ok:
  assumes "endpoint_ok c n k" "ikcp_update k current = (outs, k')"
  shows "endpoint_ok c n k' \<and> k_updated k' \<noteq> 0 \<and> (\<forall>d\<in>set outs. for_peers c d)"
proof -
  obtain u t where u: "u \<noteq> 0" and c: "ikcp_update k current = ikcp_flush (k\<lparr>k_current := current, k_updated := u, k_ts_flush := t\<rparr>) \<or>
    ikcp_update k current = ([], k\<lparr>k_current := current, k_updated := u, k_ts_flush := t\<rparr>)" using update_cases_live by blast
  let ?k = "k\<lparr>k_current := current, k_updated := u, k_ts_flush := t\<rparr>"
  have k: "endpoint_ok c n ?k" using assms(1) by (simp add: endpoint_ok_def session_inv_clock rcv_fits_def)
  from c show ?thesis
  proof
    assume "ikcp_update k current = ikcp_flush ?k"
    then have "outs = fst (ikcp_flush ?k)" "k' = snd (ikcp_flush ?k)" using assms(2) by (metis fst_conv, metis snd_conv)
    then show ?thesis using flush_ok [OF k] u endpoint_ok_mono [of c 0 _ n] by simp
  next
    assume "ikcp_update k current = ([], ?k)"
    then show ?thesis using k u assms(2) by simp
  qed
qed

lemma input_ok:
  assumes "endpoint_ok c n k" "n < 2 ^ 24" "length d \<le> 1500"
  shows "\<exists>r k'. ikcp_input k d = Some (r, k') \<and> endpoint_ok c (n + 1) k' \<and> k_updated k' = k_updated k"
proof -
  have div: "length d div 24 \<le> 62" using assms(3) by simp
  have k: "session_inv k" "rcv_fits 1500 k" "unat (k_ackcount k) \<le> 62 * n" using assms(1) by (simp_all add: endpoint_ok_def)
  then have "unat (k_ackcount k) + length d div 24 < 2 ^ 31" using div assms(2) by simp
  then obtain r k' where "ikcp_input k d = Some (r, k')" "session_inv k'" "same k k'" "rcv_fits 1500 k'"
    "unat (k_ackcount k') \<le> unat (k_ackcount k) + length d div 24" using input_fits [OF k(1,2)] assms(3) by blast
  then show ?thesis using assms(1) k(3) div by (auto simp: endpoint_ok_def same_def)
qed

lemma total_len_le: "\<forall>s\<in>set q. seg_fits cap s \<Longrightarrow> total_len (message q) \<le> cap * length q"
  by (induction q) (auto simp: total_len_def seg_fits_def)

lemma message_set: "set (message q) \<subseteq> set q"
  by (induction q) auto

lemma recv_fits:
  assumes k: "session_inv k" "rcv_fits cap k" "cap * unat (k_rcv_wnd k) < 2 ^ 31" and "0 \<le> len"
  shows "\<exists>r bs k'. ikcp_recv k len = Some (r, bs, k') \<and> session_inv k' \<and> same k k' \<and> k_ackcount k' = k_ackcount k \<and> rcv_fits cap k' \<and>
    (0 \<le> r \<longrightarrow> r = int (length bs) \<and> r \<le> len)"
proof -
  obtain r bs k' where r: "ikcp_recv k len = Some (r, bs, k')" using recv_total by blast
  have inv: "session_inv k'" by (rule session_inv_recv [OF k(1) r])
  let ?q = "k_rcv_queue k"
  have "length ?q = unat (k_nrcv_que k)" "k_nrcv_que k \<le> k_rcv_wnd k"
    using k(1) by (simp_all add: session_inv_def conn_inv_def rcv_inv_def rcv_counts_def)
  then have q: "cap * length ?q \<le> cap * unat (k_rcv_wnd k)" by (simp add: word_le_nat_alt)
  have fits: "\<forall>s\<in>set ?q. seg_fits cap s" using k(2) by (simp add: rcv_fits_def)
  have total: "total_len (message ?q) < 2 ^ 31" using total_len_le [OF fits] q k(3) by linarith
  have bytes: "length (concat (map seg_bytes (message ?q))) = total_len (message ?q)"
  proof -
    have "\<forall>s\<in>set (message ?q). seg_fits cap s" using fits message_set by blast
    then have "map (length \<circ> seg_bytes) (message ?q) = map (\<lambda>s. unat (seg_len s)) (message ?q)" by (simp add: seg_fits_def seg_bytes_def)
    then have "sum_list (map (length \<circ> seg_bytes) (message ?q)) = (\<Sum>s\<leftarrow>message ?q. unat (seg_len s))" by (rule arg_cong [of _ _ sum_list])
    then show ?thesis by (simp add: total_len_def length_concat)
  qed
  have moved: "same j (move_loop p j) \<and> k_ackcount (move_loop p j) = k_ackcount j" for p j
    by (simp add: move_loop_eq Let_def same_def)
  have taken: "same j (recv_take j) \<and> k_ackcount (recv_take j) = k_ackcount j \<and> (rcv_fits cap j \<longrightarrow> rcv_fits cap (recv_take j))" for j
    by (auto simp: recv_take_def same_def rcv_fits_def dest: in_set_dropD)
  have told: "same j (recv_tell b j) \<and> k_ackcount (recv_tell b j) = k_ackcount j \<and> rcv_fits cap (recv_tell b j) = rcv_fits cap j" for b j
    by (simp add: recv_tell_def same_def rcv_fits_def)
  have mfits: "rcv_fits cap (move_loop (k_rcv_buf j) j) = rcv_fits cap j" for j
    using move_loop_set [of "k_rcv_buf j" j] by (simp add: rcv_fits_def)
  have "same k k' \<and> k_ackcount k' = k_ackcount k \<and> rcv_fits cap k' \<and> (0 \<le> r \<longrightarrow> r = int (length bs) \<and> r \<le> len)"
  proof (cases "?q = [] \<or> ikcp_peeksize k < 0 \<or> ikcp_peeksize k > \<bar>len\<bar>")
    case True
    then show ?thesis using r k(2) same_refl by (auto simp: recv_cases split: if_splits)
  next
    case False
    then have p: "ikcp_peeksize k = int (total_len (message ?q))" using peeksize_eq [of k] peek_loop_sum [of 0 ?q] total by simp
    have e: "r = ikcp_peeksize k" "bs = concat (map seg_bytes (message ?q))"
      "k' = recv_tell (k_nrcv_que k \<ge> k_rcv_wnd k) (move_loop (k_rcv_buf (recv_take k)) (recv_take k))"
      using r False assms(4) by (simp_all add: recv_cases Let_def)
    have "same k k' \<and> k_ackcount k' = k_ackcount k \<and> rcv_fits cap k'"
      unfolding e(3) using taken [of k] moved told mfits same_trans(1) k(2) by metis
    then show ?thesis using p bytes e(1,2) False assms(4) by simp
  qed
  then show ?thesis using r inv by blast
qed

lemma recv_ok:
  assumes "endpoint_ok c n k" "0 \<le> len"
  shows "\<exists>r bs k'. ikcp_recv k len = Some (r, bs, k') \<and> endpoint_ok c n k' \<and> k_updated k' = k_updated k \<and>
    (0 \<le> r \<longrightarrow> r = int (length bs) \<and> r \<le> len)"
  using recv_fits [of k 1500 len] assms by (fastforce simp: endpoint_ok_def same_def)

lemma send_ok:
  assumes "endpoint_ok c n k" "length b \<le> 1500"
  shows "\<exists>k'. ikcp_send k b (int (length b)) = Some (0, k') \<and> endpoint_ok c n k' \<and> k_updated k' = k_updated k"
proof -
  have k: "session_inv k" "k_stream k = 0" "mss_ok k" "queue_ok k" "unat (k_mtu k) = unat (k_mss k) + 24"
    using assms(1) by (auto simp: endpoint_ok_def session_inv_def)
  have "unat (k_mtu k) = 1400" using assms(1) by (simp add: endpoint_ok_def)
  then have mss: "unat (k_mss k) = 1376" using k(5) by simp
  have len: "length b < 2 ^ 31" using assms(2) by simp
  have "frag_count (unat (k_mss k)) (length b) < 128" using assms(2) by (simp add: mss frag_count_def)
  then obtain k' where s: "ikcp_send k b (int (length b)) = Some (0, k')"
    by (simp add: send_message_eq [OF k(3) len k(2)] send_rest_def Let_def)
  obtain q m where k': "k' = k\<lparr>k_snd_queue := q, k_nsnd_que := m\<rparr>" using send_queue [OF k(3,4) len s] by blast
  have "session_inv k'" by (rule session_inv_send [OF k(1) s len])
  then show ?thesis using s assms(1) by (auto simp: endpoint_ok_def k' rcv_fits_def)
qed

section \<open>The server in every run\<close>

definition server_ok :: "nat \<Rightarrow> kcp_server \<Rightarrow> bool" where
  "server_ok n s \<longleftrightarrow> endpoint_ok 1 n (pkcp s) \<and> k_updated (pkcp s) \<noteq> 0 \<and> (\<forall>d\<in>set (net s). for_peers 1 d) \<and> (\<forall>(m, r)\<in>set (served s). r = 0)"

lemma server_kcp_ok: "endpoint_ok 1 0 server_kcp" "endpoint_ok 1 0 client_kcp"
proof -
  have start: "session_inv (session_start 1 1400 128 128 0)" by (rule session_inv_start) (simp_all add: int_range_def)
  have s: "server_kcp = snd (ikcp_nodelay (session_start 1 1400 128 128 0) 0 10 0 0)"
    by (simp add: server_kcp_def session_start_def ikcp_setmtu_def ikcp_nodelay_def ikcp_wndsize_def Let_def ikcp_init_def)
  have c: "client_kcp = server_kcp"
    by (simp add: server_kcp_def client_kcp_def ikcp_setmtu_def ikcp_nodelay_def ikcp_wndsize_def Let_def ikcp_init_def)
  obtain r k where n: "ikcp_nodelay (session_start 1 1400 128 128 0) 0 10 0 0 = (r, k)" by (cases "ikcp_nodelay (session_start 1 1400 128 128 0) 0 10 0 0")
  have "session_inv server_kcp" unfolding s using session_step_inv [OF step_nodelay [OF n] start] n by simp
  moreover have "rcv_fits 1500 server_kcp \<and> unat (k_ackcount server_kcp) = 0 \<and> k_mtu server_kcp = 1400 \<and> k_conv server_kcp = 1 \<and> k_stream server_kcp = 0 \<and>
      k_rcv_wnd server_kcp = 128"
    by (simp add: server_kcp_def ikcp_setmtu_def ikcp_nodelay_def ikcp_wndsize_def Let_def ikcp_init_def rcv_fits_def u32_def imax_def)
  ultimately show "endpoint_ok 1 0 server_kcp" "endpoint_ok 1 0 client_kcp" unfolding c by (simp_all add: endpoint_ok_def)
qed

lemma server_begin_ok: "server_ok 0 (server_begin now)"
proof -
  obtain outs k where u: "ikcp_update server_kcp (iclock now) = (outs, k)" by (cases "ikcp_update server_kcp (iclock now)")
  show ?thesis using update_ok [OF server_kcp_ok(1) u] by (simp add: server_ok_def server_begin_def u)
qed

lemma server_round_ok:
  assumes "server_ok n s" "n < 2 ^ 24"
  shows "\<exists>x. server_round r s = Some x \<and> server_ok (n + 1) (case x of Inl s' \<Rightarrow> s' | Inr s' \<Rightarrow> s')"
proof -
  obtain now d where r: "r = (now, d)" by (cases r)
  obtain outs k where u: "ikcp_update (pkcp s) (iclock now) = (outs, k)" by (cases "ikcp_update (pkcp s) (iclock now)")
  let ?s = "s\<lparr>pkcp := k, net := net s @ outs\<rparr>"
  have k: "endpoint_ok 1 n k" "k_updated k \<noteq> 0" "\<forall>d\<in>set outs. for_peers 1 d" using update_ok [OF _ u] assms(1) by (auto simp: server_ok_def)
  have s: "server_ok (n + 1) ?s" using assms(1) k endpoint_ok_mono [OF k(1), of "n + 1"] by (auto simp: server_ok_def)
  show ?thesis
  proof (cases d)
    case None
    then show ?thesis using s by (simp add: server_round_def r u)
  next
    case (Some bs)
    let ?buf = "take RECV_BUF bs"
    have buf: "length ?buf \<le> 1500" by (simp add: RECV_BUF_def)
    show ?thesis
    proof (cases "?buf = []")
      case True
      then show ?thesis using s Some by (simp add: server_round_def r u Let_def)
    next
      case False
      obtain ri ki where i: "ikcp_input k ?buf = Some (ri, ki)" "endpoint_ok 1 (n + 1) ki" "k_updated ki = k_updated k"
        using input_ok [OF k(1) assms(2) buf] by blast
      obtain rr msg kr where rv: "ikcp_recv ki (int (length ?buf)) = Some (rr, msg, kr)" "endpoint_ok 1 (n + 1) kr" "k_updated kr = k_updated ki"
        "0 \<le> rr \<longrightarrow> rr = int (length msg) \<and> rr \<le> int (length ?buf)"
        using recv_ok [OF i(2), of "int (length ?buf)"] by auto
      have keep: "server_ok (n + 1) (?s\<lparr>pkcp := j\<rparr>)" if "endpoint_ok 1 (n + 1) j" "k_updated j = k_updated k" for j
        using s that k(2) by (auto simp: server_ok_def)
      show ?thesis
      proof (cases "ri < 0 \<or> rr < 0")
        case True
        then show ?thesis using False Some i rv keep by (cases "ri < 0") (simp_all add: server_round_def r u Let_def)
      next
        case ok: False
        then have rr: "rr = int (length msg)" "length msg \<le> 1500" using rv(4) buf by auto
        have t: "take (nat rr) (msg @ drop (length msg) ?buf) = msg" by (simp add: rr)
        obtain ks where sd: "ikcp_send kr msg rr = Some (0, ks)" "endpoint_ok 1 (n + 1) ks" "k_updated ks = k_updated kr"
          using send_ok [OF rv(2) rr(2)] rr(1) by auto
        obtain fo kf where f: "ikcp_flush ks = (fo, kf)" by (cases "ikcp_flush ks")
        have live: "k_updated ks \<noteq> 0" using sd(3) rv(3) i(3) k(2) by simp
        note fl = flush_ok [OF sd(2) live, unfolded f fst_conv snd_conv]
        have "server_round r s = Some (Inr (?s\<lparr>pkcp := kf, net := net s @ outs @ fo, served := served s @ [(msg, 0)]\<rparr>))"
          using False Some i(1) rv(1) ok sd(1) f t by (simp add: server_round_def r u Let_def)
        moreover have "server_ok (n + 1) (?s\<lparr>pkcp := kf, net := net s @ outs @ fo, served := served s @ [(msg, 0)]\<rparr>)"
          using s fl endpoint_ok_mono [of 1 0 kf "n + 1"] by (auto simp: server_ok_def)
        ultimately show ?thesis by simp
      qed
    qed
  qed
qed

lemma server_loop_ok:
  "server_ok n s \<Longrightarrow> n + length rs < 2 ^ 24 \<Longrightarrow> \<exists>s'. server_loop rs s = Some s' \<and> server_ok (n + length rs) s'"
proof (induction rs arbitrary: n s)
  case (Cons r rs)
  obtain x where x: "server_round r s = Some x" "server_ok (n + 1) (case x of Inl s' \<Rightarrow> s' | Inr s' \<Rightarrow> s')"
    using server_round_ok [OF Cons.prems(1)] Cons.prems(2) by fastforce
  show ?case
  proof (cases x)
    case (Inl s')
    then have "server_ok (n + length (r # rs)) s'" using x(2) endpoint_ok_mono [of 1 "n + 1" _ "n + length (r # rs)"] by (auto simp: server_ok_def)
    then show ?thesis using x(1) Inl by simp
  next
    case (Inr s')
    then show ?thesis using Cons.IH [of "n + 1" s'] x Cons.prems(2) by simp
  qed
qed simp

section \<open>Properties\<close>

lemma server_next:
  assumes s: "server_ok n s" "n < 2 ^ 24" and d: "take RECV_BUF d \<noteq> []"
    and u: "ikcp_update (pkcp s) (iclock now) = (outs, k)" and i: "ikcp_input k (take RECV_BUF d) = Some (ri, ki)" "0 \<le> ri"
    and r: "ikcp_recv ki (int (length (take RECV_BUF d))) = Some (rr, msg, kr)" "0 \<le> rr"
  shows "\<exists>ks. rr = int (length msg) \<and> ikcp_send kr msg (int (length msg)) = Some (0, ks) \<and>
    server_round (now, Some d) s = Some (Inr \<lparr>pkcp = snd (ikcp_flush ks), net = net s @ outs @ fst (ikcp_flush ks), served = served s @ [(msg, 0)]\<rparr>)"
proof -
  let ?buf = "take RECV_BUF d"
  have buf: "length ?buf \<le> 1500" by (simp add: RECV_BUF_def)
  have "endpoint_ok 1 n k" using update_ok [OF _ u] s(1) by (auto simp: server_ok_def)
  from input_ok [OF this s(2) buf] have ki: "endpoint_ok 1 (n + 1) ki" using i(1) by auto
  from recv_ok [OF ki, of "int (length ?buf)"] have kr: "endpoint_ok 1 (n + 1) kr" "rr = int (length msg)" "rr \<le> int (length ?buf)" using r by auto
  from send_ok [OF kr(1), of msg] obtain ks where ks: "ikcp_send kr msg (int (length msg)) = Some (0, ks)" using kr(2,3) buf by auto
  have "0 < length ?buf" using d by simp
  then have "server_round (now, Some d) s = Some (Inr \<lparr>pkcp = snd (ikcp_flush ks), net = net s @ outs @ fst (ikcp_flush ks), served = served s @ [(msg, 0)]\<rparr>)"
    using i r ks kr(2) d u by (simp add: server_round_def Let_def split: prod.splits) 
  then show ?thesis using ks kr(2) by blast
qed

text \<open>C36: For every clock and every sequence of fewer than \<open>2 ^ 24\<close> rounds, each with any datagram or none, the loop of the server runs to its end
  without an undefined step; the control block keeps the connection invariant and every datagram given to \<open>udp_output\<close> has at most 1400 bytes and is accepted
  by any endpoint of the conversation.  If the loop goes on, a further datagram from which \<open>ikcp_recv\<close> takes a message makes the server give \<open>ikcp_send\<close> exactly the bytes of
  this message, with success, and flush at once.\<close>

theorem server_safe:
  assumes "length rs < 2 ^ 24"
  shows "\<exists>s. server_loop rs (server_begin now) = Some s \<and> session_inv (pkcp s) \<and>
    (\<forall>d\<in>set (net s). length d \<le> 1400 \<and>
       (\<forall>j. conn_inv j \<and> k_conv j = 1 \<and> unat (k_ackcount j) + 62 < 2 ^ 31 \<longrightarrow> (\<exists>j'. ikcp_input j d = Some (0, j')))) \<and>
    (\<forall>t d outs k ri ki rr msg kr. take RECV_BUF d \<noteq> [] \<and> ikcp_update (pkcp s) (iclock t) = (outs, k) \<and> ikcp_input k (take RECV_BUF d) = Some (ri, ki) \<and> 0 \<le> ri \<and>
       ikcp_recv ki (int (length (take RECV_BUF d))) = Some (rr, msg, kr) \<and> 0 \<le> rr \<longrightarrow>
       (\<exists>ks. ikcp_send kr msg (int (length msg)) = Some (0, ks) \<and>
          (\<exists>s'. server_round (t, Some d) s = Some (Inr s') \<and> pkcp s' = snd (ikcp_flush ks) \<and> net s' = net s @ outs @ fst (ikcp_flush ks))))"
proof -
  obtain s where s: "server_loop rs (server_begin now) = Some s" "server_ok (length rs) s"
    using server_loop_ok [OF server_begin_ok, of rs now] assms by auto
  then show ?thesis using server_next [OF s(2) assms] by (fastforce simp: server_ok_def endpoint_ok_def for_peers_def)
qed

definition hello :: "u8 list" where
  "hello = ikcp_put_seg [] ((ikcp_segment_new [104, 105] 2 0)\<lparr>seg_conv := 1, seg_cmd := 81, seg_wnd := 128\<rparr>)"

definition hello_rounds :: "(i64 \<times> u8 list option) list" where
  "hello_rounds = [(5, None), (20, Some hello), (25, Some (replicate 30 7)), (40, None), (50, Some [])]"

theorem server_safe_witness:
  "\<exists>s. server_loop hello_rounds (server_begin 3) = Some s \<and> (\<forall>d\<in>set (net s). length d \<le> 1400)"
  using server_safe [of hello_rounds 3] by (auto simp: hello_rounds_def)

lemma hello_served: "map_option served (server_loop hello_rounds (server_begin 3)) = Some [([104, 105], 0)]"
  by code_simp

end
