(* ===== verification/Kcp_Link.thy ===== *)
theory Kcp_Link
  imports Kcp_Session
begin

text \<open>
  A KCP connection as a whole: a sending endpoint, a network that loses, repeats and reorders its datagrams, and a receiving endpoint (\<open>ikcp.c\<close>, every
  operation).  The log of what each sequence number carries is a ghost variable of the proof; the theorem is the contract of the protocol.
\<close>

section \<open>Segments by number\<close>

text \<open>What a segment carries, and that it is the entry of the log \<open>L\<close> at its sequence number.\<close>

definition part :: "ikcpseg \<Rightarrow> u32 \<times> u8 list" where
  "part s = (seg_frg s, seg_bytes s)"

definition logged :: "(u32 \<times> u8 list) list \<Rightarrow> ikcpseg \<Rightarrow> bool" where
  "logged L s \<longleftrightarrow> unat (seg_sn s) < length L \<and> part s = L ! unat (seg_sn s)"

text \<open>The parts of one message: the numbers count down to 0.\<close>

definition parts_ok :: "(u32 \<times> u8 list) list \<Rightarrow> bool" where
  "parts_ok g \<longleftrightarrow> g \<noteq> [] \<and> length g < 128 \<and> map fst g = map of_nat (rev [0..<length g])"

definition bytes_of :: "(u32 \<times> u8 list) list \<Rightarrow> u8 list" where
  "bytes_of g = concat (map snd g)"

lemma logged_append: "logged L s \<Longrightarrow> logged (L @ M) s"
  by (simp add: logged_def nth_append)

lemma logged_cong: "seg_sn s = seg_sn t \<Longrightarrow> part s = part t \<Longrightarrow> logged L s = logged L t"
  by (simp add: logged_def)

lemma parts_ok_small: "parts_ok g \<Longrightarrow> p \<in> set g \<Longrightarrow> unat (fst p) < 128"
proof -
  assume g: "parts_ok g" "p \<in> set g"
  then have "fst p \<in> set (map fst g)" by simp
  then obtain i where "i < length g" "fst p = of_nat i" using g(1) unfolding parts_ok_def by auto
  moreover have "length g < 128" using g(1) by (simp add: parts_ok_def)
  ultimately show "unat (fst p) < 128" by (simp add: unat_of_nat)
qed

section \<open>The sending side\<close>

text \<open>\<open>L\<close> lists what the sequence numbers 0, 1, \dots carry; what is queued completes it to the parts of the messages accepted.\<close>

definition tx_log :: "(u32 \<times> u8 list) list \<Rightarrow> (u32 \<times> u8 list) list list \<Rightarrow> ikcpcb \<Rightarrow> bool" where
  "tx_log L gs k \<longleftrightarrow> k_stream k = 0 \<and> k_snd_nxt k = of_nat (length L) \<and> (\<forall>s\<in>set (k_snd_buf k). logged L s) \<and>
     L @ map part (k_snd_queue k) = concat gs"

lemma tx_kept:
  assumes "kept k k'" "tx_log L gs k"
  shows "tx_log L gs k'"
proof -
  have "logged L s" if "s \<in> set (k_snd_buf k')" for s
  proof -
    have "\<exists>t\<in>set (k_snd_buf k). seg_conv s = seg_conv t \<and> seg_cmd s = seg_cmd t \<and>
        seg_len s = seg_len t \<and> seg_data s = seg_data t \<and> seg_sn s = seg_sn t \<and> seg_frg s = seg_frg t"
      using assms(1) that by (simp add: kept_def)
    then obtain t where t: "t \<in> set (k_snd_buf k)" "seg_len s = seg_len t" "seg_data s = seg_data t" "seg_sn s = seg_sn t" "seg_frg s = seg_frg t"
      by (elim bexE conjE)
    then have "logged L s = logged L t" by (intro logged_cong) (simp_all add: part_def seg_bytes_def)
    then show ?thesis using assms(2) t(1) by (simp add: tx_log_def)
  qed
  then show ?thesis using assms by (simp add: tx_log_def kept_def)
qed

lemma tx_clock: "tx_log L gs (k\<lparr>k_current := c, k_updated := u, k_ts_flush := t\<rparr>) = tx_log L gs k"
  by (simp add: tx_log_def)

lemma parts_fragments:
  assumes "0 < mss" "mss < 2 ^ 31" "frag_count mss (length b) < 128"
  defines "g \<equiv> map part (fragments mss (frag_count mss (length b)) True b)"
  shows "parts_ok g \<and> bytes_of g = b \<and> length g = frag_count mss (length b)"
proof -
  let ?f = "fragments mss (frag_count mss (length b)) True b"
  note f = fragments_message [OF assms(1,2), where b = b]
  have wf: "\<forall>s\<in>set ?f. seg_wf s" using f(2) by blast
  have "map snd g = map seg_data ?f" using wf by (simp add: g_def part_def seg_bytes_wf)
  then have "bytes_of g = b" using f(1) by (simp add: bytes_of_def)
  moreover have "map fst g = map seg_frg ?f" by (simp add: g_def part_def)
  moreover have "frag_count mss (length b) \<noteq> 0" by (simp add: frag_count_def)
  moreover have "length g = frag_count mss (length b)" by (simp add: g_def)
  ultimately show ?thesis using assms(3) by (auto simp: parts_ok_def fragments_frg)
qed

lemma tx_send:
  assumes k: "session_inv k" "tx_log L gs k" and s: "ikcp_send k b (int (length b)) = Some (r, k')" "length b < 2 ^ 31"
  shows "\<exists>gs'. tx_log L (gs @ gs') k' \<and> (if r = 0 then \<exists>g. gs' = [g] \<and> parts_ok g \<and> bytes_of g = b \<and>
      length g = frag_count (unat (k_mss k)) (length b) else gs' = [])"
proof -
  have m: "mss_ok k" "k_stream k = 0" using k by (simp_all add: session_inv_def tx_log_def)
  let ?c = "frag_count (unat (k_mss k)) (length b)"
  let ?g = "map part (fragments (unat (k_mss k)) ?c True b)"
  have r: "(r, k') = send_rest k b" using send_message_eq [OF m(1) s(2) m(2)] s(1) by simp
  show ?thesis
  proof (cases "128 \<le> ?c")
    case True
    then show ?thesis using r k(2) by (intro exI [of _ "[]"]) (simp add: send_rest_def Let_def)
  next
    case False
    then have "parts_ok ?g \<and> bytes_of ?g = b \<and> length ?g = ?c" using m(1) by (intro parts_fragments) (simp_all add: mss_ok_def)
    then show ?thesis using r k(2) False m(2) by (intro exI [of _ "[?g]"]) (auto simp: send_rest_def Let_def tx_log_def)
  qed
qed

lemma fill_segs_logged:
  assumes "length L + length q < 2 ^ 32" "s \<in> set (fill_segs k wnd (of_nat (length L)) q)"
  shows "logged (L @ map part q) s"
proof -
  let ?f = "fill_segs k wnd (of_nat (length L)) q"
  obtain i where i: "i < length q" "s = ?f ! i" using assms(2) by (auto simp: in_set_conv_nth)
  have sn: "seg_sn (?f ! i) = of_nat (length L + i)"
    using arg_cong [OF fill_segs_sn [of k wnd "of_nat (length L)" q], of "\<lambda>xs. xs ! i"] i by simp
  have c: "(seg_frg (?f ! i), seg_len (?f ! i), seg_data (?f ! i)) = (seg_frg (q ! i), seg_len (q ! i), seg_data (q ! i))"
    using arg_cong [OF fill_segs_carry [of k wnd "of_nat (length L)" q], of "\<lambda>xs. xs ! i"] i by simp
  have "unat (seg_sn s) = length L + i" unfolding i(2) sn unat_of_nat using assms(1) i(1) by simp
  then show ?thesis using i c by (simp add: logged_def part_def seg_bytes_def nth_append)
qed

lemma tx_flush:
  assumes "tx_log L gs k" "length (concat gs) < 2 ^ 32"
  shows "\<exists>M. tx_log (L @ M) gs (snd (ikcp_flush k))"
proof (cases "k_updated k = 0")
  case True
  then show ?thesis using assms(1) by (intro exI [of _ "[]"]) (simp add: ikcp_flush_def)
next
  case False
  obtain x t p where p: "probe_timer (k\<lparr>k_ackcount := 0\<rparr>) = k\<lparr>k_ackcount := 0, k_probe_wait := x, k_ts_probe := t, k_probe := p\<rparr>"
    using probe_timer_writes by blast
  let ?k = "k\<lparr>k_ackcount := 0, k_probe_wait := x, k_ts_probe := t, k_probe := 0\<rparr>"
  obtain m where m: "m \<le> length (k_snd_queue k)"
    and buf: "k_snd_buf (flush_filled k) = k_snd_buf k @ fill_segs ?k (seg_wnd (flush_seg k)) (k_snd_nxt k) (take m (k_snd_queue k))"
    and que: "k_snd_queue (flush_filled k) = drop m (k_snd_queue k)" and nxt: "k_snd_nxt (flush_filled k) = k_snd_nxt k + of_nat m"
  proof -
    let ?m = "fill_count (flush_cwnd ?k) (k_snd_una k) (k_snd_nxt k) (length (k_snd_queue k))"
    have "fill_count c u n l \<le> l" for c u n l by (induction c u n l rule: fill_count.induct) auto
    then show ?thesis by (intro that [of ?m]) (simp_all add: flush_filled_def p Let_def fill_loop_eq)
  qed
  define M where "M = map part (take m (k_snd_queue k))"
  have "concat gs = L @ M @ map part (drop m (k_snd_queue k))" using assms(1) by (simp add: tx_log_def M_def map_append [symmetric] del: map_append)
  then have len: "length L + length (take m (k_snd_queue k)) < 2 ^ 32" using assms(2) by (simp add: M_def)
  have log: "\<forall>s\<in>set (k_snd_buf (flush_filled k)). logged (L @ M) s"
    using assms(1) fill_segs_logged [OF len] logged_append unfolding buf M_def tx_log_def by auto
  have visit: "logged (L @ M) (visit_seg a b c d s) = logged (L @ M) s" for a b c d s
    by (rule logged_cong) (simp_all add: frame_simps part_def seg_bytes_def)
  obtain h c i where w: "snd (ikcp_flush k) = (flush_visited k)\<lparr>k_ssthresh := h, k_cwnd := c, k_incr := i\<rparr>"
    unfolding ikcp_flush_eq [OF False] snd_conv using flush_window_writes by blast
  have "k_stream (flush_filled k) = k_stream k" using flush_filled_writes [of k] by auto
  then have "tx_log (L @ M) gs (snd (ikcp_flush k))"
    using assms(1) log m visit unfolding w
    by (auto simp: tx_log_def flush_visited_def que nxt M_def map_append [symmetric] simp del: map_append)
  then show ?thesis by blast
qed

section \<open>The network\<close>

definition wire_ok :: "(u32 \<times> u8 list) list \<Rightarrow> u32 \<Rightarrow> u8 list \<Rightarrow> bool" where
  "wire_ok L conv d \<longleftrightarrow> (\<exists>ss. d = foldl ikcp_put_seg [] ss \<and> ss \<noteq> [] \<and> length d < 2 ^ 31 \<and>
     (\<forall>s\<in>set ss. seg_wf s \<and> seg_conv s = conv \<and> known_cmd (ucast (seg_cmd s)) \<and> (ucast (seg_cmd s) = (81 :: u8) \<longrightarrow> logged L s)))"

lemma wire_append: "wire_ok L c d \<Longrightarrow> wire_ok (L @ M) c d"
  unfolding wire_ok_def using logged_append by blast

lemma flush_wire:
  assumes "session_inv k" "tx_log L gs (snd (ikcp_flush k))" "d \<in> set (fst (ikcp_flush k))"
  shows "wire_ok L (k_conv k) d"
proof -
  have u: "k_updated k \<noteq> 0" using assms(3) by (auto simp: ikcp_flush_def)
  obtain ss where "d = foldl ikcp_put_seg [] ss" "ss \<noteq> []" "length d \<le> unat (k_mtu k)"
    "\<forall>s\<in>set ss. seg_wf s \<and> seg_conv s = k_conv k \<and> known_cmd (ucast (seg_cmd s)) \<and>
      (ucast (seg_cmd s) = (81 :: u8) \<longrightarrow> s \<in> set (k_snd_buf (snd (ikcp_flush k))))"
    using flush_segs_sent [OF assms(1) u assms(3)] by blast
  moreover have "unat (k_mtu k) < 2 ^ 31" using assms(1) by (simp add: session_inv_def)
  ultimately show ?thesis using assms(2) by (auto simp: wire_ok_def tx_log_def intro!: exI [of _ ss])
qed


section \<open>The receiving side\<close>

text \<open>\<open>got\<close> are the parts handed to the user; with those of the queue they are the first entries of the log.\<close>

definition rx_log :: "(u32 \<times> u8 list) list \<Rightarrow> (u32 \<times> u8 list) list \<Rightarrow> ikcpcb \<Rightarrow> bool" where
  "rx_log L got k \<longleftrightarrow> (\<forall>s\<in>set (k_rcv_buf k). logged L s) \<and>
     (\<exists>n\<le>length L. k_rcv_nxt k = of_nat n \<and> got @ map part (k_rcv_queue k) = take n L)"

lemma rx_append:
  assumes "rx_log L got k"
  shows "rx_log (L @ M) got k"
proof -
  obtain n where "n \<le> length L" "k_rcv_nxt k = of_nat n" "got @ map part (k_rcv_queue k) = take n L" using assms by (auto simp: rx_log_def)
  then show ?thesis using assms logged_append by (auto simp: rx_log_def intro!: exI [of _ n])
qed

text \<open>What the receiver's data consists of.\<close>

definition rx_part :: "ikcpcb \<Rightarrow> ikcpseg list \<times> ikcpseg list \<times> u32" where
  "rx_part k = (k_rcv_buf k, k_rcv_queue k, k_rcv_nxt k)"

lemma rx_log_cong: "rx_part k = rx_part k' \<Longrightarrow> rx_log L got k = rx_log L got k'"
  by (simp add: rx_log_def rx_part_def)

lemma logged_run:
  assumes "\<forall>s\<in>set m. logged L s" "map seg_sn m = map (\<lambda>i. of_nat n + of_nat i) [0..<length m]" "n \<le> length L" "length L < 2 ^ 32"
  shows "n + length m \<le> length L \<and> map part m = take (length m) (drop n L)"
proof -
  have sn: "seg_sn (m ! i) = of_nat (n + i)" if "i < length m" for i
    using arg_cong [OF assms(2), of "\<lambda>xs. xs ! i"] that by simp
  have le: "n + length m \<le> length L"
  proof (rule ccontr)
    assume "\<not> n + length m \<le> length L"
    then have i: "length L - n < length m" using assms(3) by simp
    then have "seg_sn (m ! (length L - n)) = of_nat (length L)" using sn assms(3) by simp
    then have "unat (seg_sn (m ! (length L - n))) = length L" using assms(4) by (simp add: unat_of_nat)
    then show False using bspec [OF assms(1) nth_mem [OF i]] by (simp add: logged_def)
  qed
  have "map part m = take (length m) (drop n L)"
  proof (rule nth_equalityI)
    show "length (map part m) = length (take (length m) (drop n L))" using le by simp
  next
    fix i
    assume "i < length (map part m)"
    then have i: "i < length m" by simp
    have "unat (seg_sn (m ! i)) = n + i" unfolding sn [OF i] unat_of_nat using i le assms(4) by simp
    then show "map part m ! i = take (length m) (drop n L) ! i" using assms(1) i le by (auto simp: logged_def)
  qed
  then show ?thesis using le by simp
qed

lemma rx_move:
  assumes "rx_log L got k" "length L < 2 ^ 32"
  shows "rx_log L got (move_loop (k_rcv_buf k) k)"
proof -
  obtain n where n: "n \<le> length L" "k_rcv_nxt k = of_nat n" "got @ map part (k_rcv_queue k) = take n L" using assms(1) by (auto simp: rx_log_def)
  let ?k = "move_loop (k_rcv_buf k) k"
  obtain m where m: "k_rcv_queue ?k = k_rcv_queue k @ m" "k_rcv_buf k = m @ k_rcv_buf ?k" "k_rcv_nxt ?k = k_rcv_nxt k + of_nat (length m)"
    "map seg_sn m = map (\<lambda>i. k_rcv_nxt k + of_nat i) [0..<length m]" using move_queue [OF refl, of k] by blast
  have log: "\<forall>s\<in>set m \<union> set (k_rcv_buf ?k). logged L s" using assms(1) m(2) by (metis rx_log_def set_append)
  then have "n + length m \<le> length L \<and> map part m = take (length m) (drop n L)"
    using m(4) n(1) assms(2) by (intro logged_run) (simp_all add: n(2))
  moreover from this have "got @ map part (k_rcv_queue ?k) = take (n + length m) L" using n(3) by (simp add: m(1) take_add)
  ultimately show ?thesis using log m(3) n(2) by (auto simp: rx_log_def intro!: exI [of _ "n + length m"])
qed

lemma rx_parse_data:
  assumes "rx_log L got k" "length L < 2 ^ 32" "logged L s"
  shows "rx_log L got (ikcp_parse_data k s)"
proof -
  have "set (k_rcv_buf (insert_buf k s)) \<subseteq> insert s (set (k_rcv_buf k))"
    using insert_loop_set [of s "rev (k_rcv_buf k)"] by (auto simp: insert_buf_def split: option.splits)
  then have "rx_log L got (insert_buf k s)" using assms(1,3) by (auto simp: rx_log_def frame_simps)
  then show ?thesis using rx_move [OF _ assms(2)] assms(1) by (simp add: parse_data_eq)
qed

lemma hdr_seg_part: "unat (seg_frg s) < 128 \<Longrightarrow> part (hdr_seg (hdr_of s) (seg_data s)) = part s"
proof -
  assume "unat (seg_frg s) < 128"
  then have "unat (ucast (ucast (seg_frg s) :: u8) :: u32) = unat (seg_frg s)" by (simp add: unsigned_ucast_eq take_bit_eq_mod unat_mod_distrib)
  then have "(ucast (ucast (seg_frg s) :: u8) :: u32) = seg_frg s" by (rule unsigned_word_eqI)
  then show ?thesis by (simp add: part_def hdr_seg_def hdr_of_def seg_bytes_def)
qed

lemma hdr_seg_logged: "logged L s \<Longrightarrow> \<forall>p\<in>set L. unat (fst p) < 128 \<Longrightarrow> logged L (hdr_seg (hdr_of s) (seg_data s))"
proof -
  assume l: "logged L s" "\<forall>p\<in>set L. unat (fst p) < 128"
  then have "part s \<in> set L" by (auto simp: logged_def)
  then have "unat (seg_frg s) < 128" using l(2) by (auto simp: part_def)
  from hdr_seg_part [OF this] show ?thesis using l(1) logged_cong [of "hdr_seg (hdr_of s) (seg_data s)" s]
    by (simp add: hdr_seg_def hdr_of_def)
qed

text \<open>Acknowledgements do not touch the receiver's data.\<close>

lemma rx_part_frame:
  "rx_part (ikcp_shrink_buf k) = rx_part k" "rx_part (ikcp_parse_una k una) = rx_part k" "rx_part (ikcp_parse_ack k sn) = rx_part k"
  "rx_part (ikcp_update_ack k rtt) = rx_part k" "rx_part (grow_cwnd k) = rx_part k"
  using shrink_writes [of k] una_loop_writes [of una "k_snd_buf k" k] parse_ack_writes [of k sn] update_ack_writes [of k rtt] grow_cwnd_writes [of k]
  by (auto simp: rx_part_def ikcp_parse_una_def)

lemma rx_part_common: "rx_part (input_common k h) = rx_part k" "rx_part (input_ack k h) = rx_part k"
  by (simp_all add: input_common_def input_ack_def rx_part_frame Let_def) (simp add: rx_part_def)

lemma rx_part_push: "ikcp_ack_push k sn ts = Some k' \<Longrightarrow> rx_part k' = rx_part k"
  by (auto dest: ack_push_writes simp: rx_part_def)

lemma rx_input_seg:
  assumes "rx_log L got (fst km)" "length L < 2 ^ 32" "ucast (seg_cmd s) = (81 :: u8) \<Longrightarrow> logged L s" "\<forall>p\<in>set L. unat (fst p) < 128"
    and i: "input_seg km (unit_of s) = Some km'"
  shows "rx_log L got (fst km')"
proof -
  obtain k m where km: "km = (k, m)" by (cases km)
  let ?c = "input_common k (hdr_of s)"
  have c: "rx_log L got ?c" using assms(1) rx_log_cong [OF rx_part_common(1)] by (simp add: km)
  have ack: "rx_log L got (input_ack ?c (hdr_of s))" using c rx_log_cong [OF rx_part_common(2)] by simp
  have probe: "rx_log L got (?c\<lparr>k_probe := p\<rparr>)" for p using c by (simp add: rx_log_def)
  have push: "rx_log L got j" if p: "input_push ?c (hdr_of s) (seg_data s) = Some j" and cmd: "ucast (seg_cmd s) = (81 :: u8)" for j
  proof -
    have a: "rx_log L got a" if "ikcp_ack_push ?c (h_sn (hdr_of s)) (h_ts (hdr_of s)) = Some a" for a
      using c rx_log_cong [OF rx_part_push [OF that]] by simp
    have "logged L (hdr_seg (hdr_of s) (seg_data s))" by (rule hdr_seg_logged [OF assms(3) [OF cmd] assms(4)])
    then show ?thesis using p c a rx_parse_data [OF _ assms(2)] by (auto simp: input_push_def split: if_splits option.splits)
  qed
  have cmd: "ucast (h_cmd (hdr_of s)) = (81 :: u32) \<longleftrightarrow> ucast (seg_cmd s) = (81 :: u8)"
  proof -
    have "c = 81" if "(ucast (c :: u8) :: u32) = 81" for c
    proof -
      have lt: "unat c < 2 ^ 8" using unsigned_less [of c] by simp
      then have "unat (ucast c :: u32) = unat c" by (simp add: unsigned_ucast_eq take_bit_nat_eq_self)
      then have "unat c = unat (81 :: u8)" using that by simp
      then show ?thesis by (rule unsigned_word_eqI)
    qed
    then have "(ucast (c :: u8) :: u32) = 81 \<longleftrightarrow> c = 81" for c by auto
    then show ?thesis by (simp add: hdr_of_def)
  qed
  show ?thesis using i c ack probe push cmd by (auto simp: input_seg_def km unit_of_def Let_def split: if_splits)
qed


lemma rx_input_segs:
  assumes "length L < 2 ^ 32" "\<forall>p\<in>set L. unat (fst p) < 128" "\<forall>s\<in>set ss. ucast (seg_cmd s) = (81 :: u8) \<longrightarrow> logged L s"
  shows "rx_log L got (fst km) \<Longrightarrow> input_segs km (map unit_of ss) = Some km' \<Longrightarrow> rx_log L got (fst km')"
  using assms(3)
proof (induction ss arbitrary: km)
  case (Cons s ss)
  obtain km2 where i: "input_seg km (unit_of s) = Some km2" "input_segs km2 (map unit_of ss) = Some km'"
    using Cons.prems(2) by (auto split: option.splits)
  have "rx_log L got (fst km2)" using rx_input_seg [OF Cons.prems(1) assms(1) _ assms(2) i(1)] Cons.prems(3) by simp
  then show ?case using Cons.IH i(2) Cons.prems(3) by simp
qed simp

lemma rx_input:
  assumes k: "session_inv k" "rx_log L got k" and L: "length L < 2 ^ 32" "\<forall>p\<in>set L. unat (fst p) < 128"
    and d: "wire_ok L (k_conv k) d" "ikcp_input k d = Some (r, k')"
  shows "rx_log L got k'"
proof (cases "wrap32 (int (length d)) < 24")
  case True
  then show ?thesis using d(2) k(2) by (simp add: ikcp_input_eq)
next
  case False
  obtain ss where ss: "d = foldl ikcp_put_seg [] ss" "\<forall>s\<in>set ss. seg_wf s \<and> seg_conv s = k_conv k \<and> known_cmd (ucast (seg_cmd s))"
    "\<forall>s\<in>set ss. ucast (seg_cmd s) = (81 :: u8) \<longrightarrow> logged L s" using d(1) by (auto simp: wire_ok_def)
  have "d = concat (map (ikcp_put_seg []) ss)" using ss(2) foldl_put_seg [of ss "[]"] ss(1) by simp
  then have l: "input_loop (k, False, 0, 0) d = map_option (\<lambda>km. (0, km)) (input_segs (k, False, 0, 0) (map unit_of ss))"
    using input_loop_packed [of ss "(k, False, 0, 0)"] ss(2) by simp
  then obtain km where km: "input_segs (k, False, 0, 0) (map unit_of ss) = Some km" and k': "k' = input_finish (k_snd_una k) km"
    using d(2) False by (cases "input_segs (k, False, 0, 0) (map unit_of ss)") (auto simp: ikcp_input_eq)
  have rx: "rx_log L got (fst km)" by (rule rx_input_segs [OF L ss(3) _ km]) (simp add: k(2))
  have "snd_inv k" using k(1) by (simp add: session_inv_def conn_inv_def)
  then have snd: "snd_inv (fst km)" using input_loop_kept [of "(k, False, 0, 0)" d 0 km] l km by simp
  obtain j flag maxack ts where j: "km = (j, flag, maxack, ts)" by (metis prod.collapse)
  have "rx_part (ikcp_parse_fastack j maxack ts) = rx_part j"
    using snd by (simp add: j snd_inv_def parse_fastack_eq [OF _ refl] rx_part_def)
  then have "rx_part k' = rx_part j" unfolding k' by (simp add: input_finish_def j Let_def rx_part_frame)
  then show ?thesis using rx rx_log_cong [of k' j] by (simp add: j)
qed

lemma message_group:
  assumes k: "rcv_inv k" "rx_log L (concat (take j gs)) k" and gs: "L @ Q = concat gs" "\<forall>g\<in>set gs. parts_ok g"
    and q: "k_rcv_queue k \<noteq> []" "0 \<le> ikcp_peeksize k"
  shows "j < length gs \<and> map part (message (k_rcv_queue k)) = gs ! j"
proof -
  let ?q = "k_rcv_queue k"
  obtain n where n: "n \<le> length L" "concat (take j gs) @ map part ?q = take n L" using k(2) by (auto simp: rx_log_def)
  have "concat gs = take n L @ drop n L @ Q" using gs(1) by (metis append_assoc append_take_drop_id)
  then have "concat (take j gs) @ concat (drop j gs) = concat (take j gs) @ map part ?q @ drop n L @ Q"
    unfolding n(2) [symmetric] by (metis append_assoc append_take_drop_id concat_append)
  then have rest: "concat (drop j gs) = map part ?q @ drop n L @ Q" by simp
  then have j: "j < length gs" using q(1) by (cases "j < length gs") auto
  define g where "g = gs ! j"
  have g: "parts_ok g" using gs(2) j by (simp add: g_def)
  have "g @ concat (drop (Suc j) gs) = map part ?q @ drop n L @ Q" using rest j Cons_nth_drop_Suc [OF j] by (metis concat.simps(2) g_def)
  note split = this
  obtain s p where s: "?q = s # p" using q(1) by (cases ?q) auto
  have "part s = hd g" using split g by (cases g) (auto simp: s parts_ok_def)
  moreover have "fst (hd g) = of_nat (length g - 1)" using g by (cases g) (simp_all add: parts_ok_def)
  ultimately have frg: "seg_frg s = of_nat (length g - 1)" by (metis fst_conv part_def)
  have glen: "0 < length g" "length g < 128" using g by (auto simp: parts_ok_def)
  have "length g \<le> length ?q"
  proof (cases "seg_frg s = 0")
    case True
    have "unat (seg_frg s) = length g - 1" unfolding frg unat_of_nat using glen by simp
    then show ?thesis using True glen by (simp add: s)
  next
    case False
    then have "\<not> k_nrcv_que k < seg_frg s + 1" using q(2) by (auto simp: ikcp_peeksize_def s split: if_splits)
    moreover have "seg_frg s + 1 = of_nat (length g)" unfolding frg using glen(1) by (metis Suc_pred' add.commute of_nat_Suc)
    moreover have "unat (of_nat (length g) :: u32) = length g" using glen by (simp add: unat_of_nat)
    moreover have "unat (k_nrcv_que k) = length ?q" using k(1) by (simp add: rcv_inv_def rcv_counts_def)
    ultimately show ?thesis by (metis not_less word_less_nat_alt)
  qed
  then have m: "map part (take (length g) ?q) = g"
    using arg_cong [OF split, of "take (length g)"] by (simp add: take_map)
  have "map seg_frg (take (length g) ?q) = map fst g" using arg_cong [OF m, of "map fst"] by (simp add: part_def comp_def)
  then have "map seg_frg (take (length g) ?q) = map of_nat (rev [0..<length (take (length g) ?q)])"
    using g \<open>length g \<le> length ?q\<close> by (simp add: parts_ok_def min_absorb2)
  then have "message (take (length g) ?q @ drop (length g) ?q) = take (length g) ?q"
    using glen q(1) by (intro message_framed) (auto simp: min_def)
  then show ?thesis using j m by (simp add: g_def)
qed

lemma rx_recv:
  assumes k: "rcv_inv k" "rx_log L (concat (take j gs)) k" and gs: "L @ Q = concat gs" "\<forall>g\<in>set gs. parts_ok g" and L: "length L < 2 ^ 32"
    and r: "ikcp_recv k len = Some (r, bs, k')"
  shows "if r < 0 \<or> len < 0 then rx_log L (concat (take j gs)) k'
    else j < length gs \<and> bs = bytes_of (gs ! j) \<and> rx_log L (concat (take (Suc j) gs)) k'"
proof (cases "k_rcv_queue k = [] \<or> ikcp_peeksize k < 0 \<or> ikcp_peeksize k > \<bar>len\<bar>")
  case True
  then show ?thesis using r k(2) by (auto simp: recv_cases split: if_splits)
next
  case False
  have tell: "rx_log L got (recv_tell b i) = rx_log L got i" for got b i by (rule rx_log_cong) (simp add: rx_part_def recv_tell_def)
  have m: "j < length gs" "map part (message (k_rcv_queue k)) = gs ! j"
    using message_group [OF k gs] False by auto
  have bs: "bs = concat (map seg_bytes (message (k_rcv_queue k)))" using r False by (auto simp: recv_cases Let_def)
  also have "map seg_bytes (message (k_rcv_queue k)) = map snd (gs ! j)" unfolding m(2) [symmetric] by (simp add: part_def)
  finally have bs: "bs = bytes_of (gs ! j)" by (simp add: bytes_of_def)
  have next_got: "concat (take (Suc j) gs) = concat (take j gs) @ gs ! j" using m(1) by (simp add: take_Suc_conv_app_nth)
  have "map part (k_rcv_queue k) = gs ! j @ map part (k_rcv_queue (recv_take k))"
    unfolding m(2) [symmetric] by (simp add: recv_take_def map_append [symmetric] message_append del: map_append)
  then have "rx_log L (concat (take (Suc j) gs)) (recv_take k)"
    using k(2) unfolding rx_log_def next_got by (simp add: recv_take_def)
  from rx_move [OF this L] show ?thesis using r False m(1) bs rx_move [OF k(2) L] tell
    by (auto simp: recv_cases Let_def)
qed


section \<open>What the other operations leave alone\<close>

lemma nodelay_kept: "ikcp_nodelay k nodelay interval resend nc = (r, k') \<Longrightarrow> kept k k' \<and> rx_part k' = rx_part k"
proof -
  assume n: "ikcp_nodelay k nodelay interval resend nc = (r, k')"
  have "k_mtu k' = k_mtu k \<and> k_mss k' = k_mss k \<and> k_conv k' = k_conv k \<and> k_snd_wnd k' = k_snd_wnd k \<and> k_snd_queue k' = k_snd_queue k \<and>
      k_snd_nxt k' = k_snd_nxt k \<and> k_stream k' = k_stream k \<and> k_snd_buf k' = k_snd_buf k \<and> rx_part k' = rx_part k"
    using n by (auto simp: ikcp_nodelay_def Let_def rx_part_def)
  then show ?thesis by (auto simp: kept_def)
qed

lemma recv_same: "ikcp_recv k len = Some (r, bs, k') \<Longrightarrow> session_inv k \<Longrightarrow> session_inv k' \<and> kept k k'"
  using session_inv_recv recv_kept by blast

lemma input_same:
  assumes "ikcp_input k d = Some (r, k')" "session_inv k" "unat (k_ackcount k) + length d div 24 < 2 ^ 31"
  shows "session_inv k' \<and> kept k k'"
  using assms session_inv_input [OF assms(2,1,3)] input_kept [OF _ assms(1)] by (simp add: session_inv_def conn_inv_def)

lemma send_same:
  assumes "ikcp_send k b (int (length b)) = Some (r, k')" "session_inv k" "length b < 2 ^ 31"
  shows "session_inv k' \<and> rx_part k' = rx_part k \<and> k_conv k' = k_conv k"
proof -
  have "mss_ok k" "queue_ok k" using assms(2) by (simp_all add: session_inv_def)
  from send_queue [OF this assms(3,1)] show ?thesis using session_inv_send [OF assms(2,1,3)] by (auto simp: rx_part_def)
qed

lemma flush_keeps_rx: "rx_part (snd (ikcp_flush k)) = rx_part k \<and> k_conv (snd (ikcp_flush k)) = k_conv k"
proof (cases "k_updated k = 0")
  case True
  then show ?thesis by (simp add: ikcp_flush_def)
next
  case False
  obtain h c i where "snd (ikcp_flush k) = (flush_visited k)\<lparr>k_ssthresh := h, k_cwnd := c, k_incr := i\<rparr>"
    unfolding ikcp_flush_eq [OF False] snd_conv using flush_window_writes by blast
  then show ?thesis using flush_filled_writes [of k] by (auto simp: flush_visited_def rx_part_def)
qed

lemma update_same: "ikcp_update k c = (outs, k') \<Longrightarrow> rx_part k' = rx_part k \<and> k_conv k' = k_conv k"
proof -
  assume u: "ikcp_update k c = (outs, k')"
  obtain w t where "ikcp_update k c = ikcp_flush (k\<lparr>k_current := c, k_updated := w, k_ts_flush := t\<rparr>) \<or>
      ikcp_update k c = ([], k\<lparr>k_current := c, k_updated := w, k_ts_flush := t\<rparr>)" using update_cases by blast
  moreover have "k' = snd (ikcp_update k c)" using u by simp
  ultimately show ?thesis using flush_keeps_rx [of "k\<lparr>k_current := c, k_updated := w, k_ts_flush := t\<rparr>"]
    by (elim disjE) (simp_all add: rx_part_def)
qed

section \<open>A connection over an unreliable network\<close>

text \<open>Two endpoints: the first one's datagrams stay in \<open>lwire\<close>, from where the second is given any of them, in any order, any number of times or never; what the first
  one is given, acknowledgements above all, is arbitrary.  \<open>accepted\<close> are the messages that \<open>ikcp_send\<close> has accepted on the first endpoint, \<open>delivered\<close> those that
  \<open>ikcp_recv\<close> has returned on the second, and \<open>made\<close> counts the segments made.\<close>

record link =
  ltx :: ikcpcb
  lrx :: ikcpcb
  lwire :: "u8 list set"
  accepted :: "u8 list list"
  delivered :: "u8 list list"
  made :: nat

definition link_start :: "ikcpcb \<Rightarrow> ikcpcb \<Rightarrow> link" where
  "link_start k j = \<lparr>ltx = k, lrx = j, lwire = {}, accepted = [], delivered = [], made = 0\<rparr>"

inductive link_step :: "link \<Rightarrow> link \<Rightarrow> bool" where
  first_send: "ikcp_send (ltx l) b (int (length b)) = Some (r, k') \<Longrightarrow> length b < 2 ^ 31 \<Longrightarrow>
    n = (if r = 0 then frag_count (unat (k_mss (ltx l))) (length b) else 0) \<Longrightarrow> made l + n < 2 ^ 32 \<Longrightarrow>
    link_step l (l\<lparr>ltx := k', accepted := accepted l @ (if r = 0 then [b] else []), made := made l + n\<rparr>)"
| first_recv: "ikcp_recv (ltx l) len = Some (r, bs, k') \<Longrightarrow> link_step l (l\<lparr>ltx := k'\<rparr>)"
| first_input: "ikcp_input (ltx l) d = Some (r, k') \<Longrightarrow> unat (k_ackcount (ltx l)) + length d div 24 < 2 ^ 31 \<Longrightarrow>
    link_step l (l\<lparr>ltx := k'\<rparr>)"
| first_update: "ikcp_update (ltx l) c = (outs, k') \<Longrightarrow> link_step l (l\<lparr>ltx := k', lwire := lwire l \<union> set outs\<rparr>)"
| first_flush: "ikcp_flush (ltx l) = (outs, k') \<Longrightarrow> link_step l (l\<lparr>ltx := k', lwire := lwire l \<union> set outs\<rparr>)"
| first_nodelay: "ikcp_nodelay (ltx l) nodelay interval resend nc = (r, k') \<Longrightarrow> link_step l (l\<lparr>ltx := k'\<rparr>)"
| second_input: "d \<in> lwire l \<Longrightarrow> ikcp_input (lrx l) d = Some (r, k') \<Longrightarrow> unat (k_ackcount (lrx l)) + length d div 24 < 2 ^ 31 \<Longrightarrow>
    link_step l (l\<lparr>lrx := k'\<rparr>)"
| second_recv: "ikcp_recv (lrx l) len = Some (r, bs, k') \<Longrightarrow>
    link_step l (l\<lparr>lrx := k', delivered := delivered l @ (if r < 0 \<or> len < 0 then [] else [bs])\<rparr>)"
| second_send: "ikcp_send (lrx l) b (int (length b)) = Some (r, k') \<Longrightarrow> length b < 2 ^ 31 \<Longrightarrow> link_step l (l\<lparr>lrx := k'\<rparr>)"
| second_update: "ikcp_update (lrx l) c = (outs, k') \<Longrightarrow> link_step l (l\<lparr>lrx := k'\<rparr>)"
| second_flush: "ikcp_flush (lrx l) = (outs, k') \<Longrightarrow> link_step l (l\<lparr>lrx := k'\<rparr>)"
| second_nodelay: "ikcp_nodelay (lrx l) nodelay interval resend nc = (r, k') \<Longrightarrow> link_step l (l\<lparr>lrx := k'\<rparr>)"

definition link_ok :: "link \<Rightarrow> (u32 \<times> u8 list) list \<Rightarrow> (u32 \<times> u8 list) list list \<Rightarrow> nat \<Rightarrow> bool" where
  "link_ok l L gs j \<longleftrightarrow> session_inv (ltx l) \<and> session_inv (lrx l) \<and> k_conv (lrx l) = k_conv (ltx l) \<and>
     tx_log L gs (ltx l) \<and> (\<forall>g\<in>set gs. parts_ok g) \<and> map bytes_of gs = accepted l \<and> length (concat gs) = made l \<and> made l < 2 ^ 32 \<and>
     (\<forall>d\<in>lwire l. wire_ok L (k_conv (ltx l)) d) \<and> rx_log L (concat (take j gs)) (lrx l) \<and> j \<le> length gs \<and> delivered l = take j (accepted l)"

definition link_inv :: "link \<Rightarrow> bool" where
  "link_inv l \<longleftrightarrow> (\<exists>L gs j. link_ok l L gs j)"

lemma link_log:
  assumes "link_ok l L gs j"
  shows "length L < 2 ^ 32 \<and> (\<forall>p\<in>set L. unat (fst p) < 128) \<and> L @ map part (k_snd_queue (ltx l)) = concat gs"
proof -
  have e: "L @ map part (k_snd_queue (ltx l)) = concat gs" using assms by (simp add: link_ok_def tx_log_def)
  have "length L \<le> length (concat gs)" unfolding e [symmetric] by simp
  moreover have "\<forall>p\<in>set (concat gs). unat (fst p) < 128" using assms parts_ok_small by (auto simp: link_ok_def)
  then have "\<forall>p\<in>set L. unat (fst p) < 128" unfolding e [symmetric] by simp
  ultimately show ?thesis using assms e by (simp add: link_ok_def)
qed

lemma link_tx_kept:
  assumes "link_ok l L gs j" "kept (ltx l) k'" "session_inv k'"
  shows "link_ok (l\<lparr>ltx := k'\<rparr>) L gs j"
proof -
  have "k_conv k' = k_conv (ltx l)" using assms(2) by (simp add: kept_def)
  then show ?thesis using assms tx_kept [OF assms(2)] by (simp add: link_ok_def)
qed

lemma link_rx_same:
  assumes "link_ok l L gs j" "session_inv k'" "rx_part k' = rx_part (lrx l)" "k_conv k' = k_conv (lrx l)"
  shows "link_ok (l\<lparr>lrx := k'\<rparr>) L gs j"
  using assms rx_log_cong [OF assms(3)] by (simp add: link_ok_def)

lemma link_tx_flush:
  assumes "link_ok l L gs j" "session_inv (k :: ikcpcb)" "tx_log L gs k" "k_conv k = k_conv (ltx l)" "ikcp_flush k = (outs, k')"
  shows "link_inv (l\<lparr>ltx := k', lwire := lwire l \<union> set outs\<rparr>)"
proof -
  have "length (concat gs) < 2 ^ 32" using assms(1) by (simp add: link_ok_def)
  from tx_flush [OF assms(3) this] obtain M where M: "tx_log (L @ M) gs k'" using assms(5) by auto
  have "\<forall>d\<in>set outs. wire_ok (L @ M) (k_conv k) d" using flush_wire [OF assms(2), of "L @ M" gs] M assms(5) by auto
  moreover have "session_inv k'" "k_conv k' = k_conv k" using session_inv_flush [OF assms(2)] flush_keeps_rx [of k] assms(5) by auto
  ultimately have "link_ok (l\<lparr>ltx := k', lwire := lwire l \<union> set outs\<rparr>) (L @ M) gs j"
    using assms(1,4) M wire_append rx_append by (auto simp: link_ok_def)
  then show ?thesis by (auto simp: link_inv_def)
qed


lemma link_send:
  assumes "link_ok l L gs j" and s: "ikcp_send (ltx l) b (int (length b)) = Some (r, k')" "length b < 2 ^ 31"
    and n: "n = (if r = 0 then frag_count (unat (k_mss (ltx l))) (length b) else 0)" "made l + n < 2 ^ 32"
  shows "link_inv (l\<lparr>ltx := k', accepted := accepted l @ (if r = 0 then [b] else []), made := made l + n\<rparr>)"
proof -
  have k: "session_inv (ltx l)" "tx_log L gs (ltx l)" using assms(1) by (simp_all add: link_ok_def)
  obtain gs' where g: "tx_log L (gs @ gs') k'" "if r = 0 then \<exists>g. gs' = [g] \<and> parts_ok g \<and> bytes_of g = b \<and>
      length g = frag_count (unat (k_mss (ltx l))) (length b) else gs' = []" using tx_send [OF k s] by blast
  have e: "map bytes_of gs' = (if r = 0 then [b] else [])" "length (concat gs') = n" "\<forall>g\<in>set gs'. parts_ok g"
    using g(2) n(1) by (auto split: if_splits)
  have "length gs = length (accepted l)" "j \<le> length gs" using assms(1) length_map [of bytes_of gs] by (auto simp: link_ok_def)
  then have "link_ok (l\<lparr>ltx := k', accepted := accepted l @ (if r = 0 then [b] else []), made := made l + n\<rparr>) L (gs @ gs') j"
    using assms(1) g(1) e n(2) send_same [OF s(1) k(1) s(2)] by (auto simp: link_ok_def)
  then show ?thesis unfolding link_inv_def by blast
qed

lemma link_recv:
  assumes "link_ok l L gs j" and r: "ikcp_recv (lrx l) len = Some (r, bs, k')"
  shows "link_inv (l\<lparr>lrx := k', delivered := delivered l @ (if r < 0 \<or> len < 0 then [] else [bs])\<rparr>)"
proof -
  have k: "session_inv (lrx l)" "rcv_inv (lrx l)" using assms(1) by (simp_all add: link_ok_def session_inv_def conn_inv_def)
  have k': "session_inv k'" "k_conv k' = k_conv (lrx l)" using recv_same [OF r k(1)] by (simp_all add: kept_def)
  have log: "rx_log L (concat (take j gs)) (lrx l)" "\<forall>g\<in>set gs. parts_ok g" "map bytes_of gs = accepted l" using assms(1) by (simp_all add: link_ok_def)
  note L = link_log [OF assms(1)]
  have rx: "if r < 0 \<or> len < 0 then rx_log L (concat (take j gs)) k'
    else j < length gs \<and> bs = bytes_of (gs ! j) \<and> rx_log L (concat (take (Suc j) gs)) k'"
    by (rule rx_recv [OF k(2) log(1) _ log(2) _ r]) (use L in auto)
  show ?thesis
  proof (cases "r < 0 \<or> len < 0")
    case True
    then have "link_ok (l\<lparr>lrx := k'\<rparr>) L gs j" using rx assms(1) k' by (simp add: link_ok_def)
    then show ?thesis using True by (auto simp: link_inv_def)
  next
    case False
    then have j: "j < length gs" "bs = bytes_of (gs ! j)" "rx_log L (concat (take (Suc j) gs)) k'" using rx by auto
    have "take (Suc j) (accepted l) = take j (accepted l) @ [bs]"
      unfolding log(3) [symmetric] using j(1,2) by (simp add: take_Suc_conv_app_nth)
    then have "link_ok (l\<lparr>lrx := k', delivered := delivered l @ [bs]\<rparr>) L gs (Suc j)" using j assms(1) k' by (simp add: link_ok_def)
    then show ?thesis using False by (auto simp: link_inv_def)
  qed
qed

lemma link_step_inv:
  assumes "link_step l l'" "link_ok l L gs j"
  shows "link_inv l'"
proof -
  have tx: "session_inv (ltx l)" and rx: "session_inv (lrx l)" using assms(2) by (simp_all add: link_ok_def)
  have same_rx: "link_inv (l\<lparr>lrx := k'\<rparr>)" if "session_inv k'" "rx_part k' = rx_part (lrx l)" "k_conv k' = k_conv (lrx l)" for k'
    using link_rx_same [OF assms(2) that] by (auto simp: link_inv_def)
  have keep: "link_inv (l\<lparr>ltx := k'\<rparr>)" if "kept (ltx l) k'" "session_inv k'" for k'
    using link_tx_kept [OF assms(2) that] by (auto simp: link_inv_def)
  from assms(1) show ?thesis
  proof cases
    case (first_send b r k' n)
    then show ?thesis using link_send [OF assms(2)] by simp
  next
    case (first_recv len r bs k')
    then show ?thesis using recv_same [OF _ tx] keep by blast
  next
    case (first_input d r k')
    then show ?thesis using input_same [OF _ tx] keep by blast
  next
    case (first_update c outs k')
    obtain w t where u: "ikcp_update (ltx l) c = ikcp_flush ((ltx l)\<lparr>k_current := c, k_updated := w, k_ts_flush := t\<rparr>) \<or>
        ikcp_update (ltx l) c = ([], (ltx l)\<lparr>k_current := c, k_updated := w, k_ts_flush := t\<rparr>)" using update_cases by blast
    let ?k = "(ltx l)\<lparr>k_current := c, k_updated := w, k_ts_flush := t\<rparr>"
    have k: "session_inv ?k" "tx_log L gs ?k" "k_conv ?k = k_conv (ltx l)" using assms(2) by (simp_all add: link_ok_def session_inv_clock tx_clock)
    from u show ?thesis
    proof
      assume "ikcp_update (ltx l) c = ikcp_flush ?k"
      then show ?thesis using first_update link_tx_flush [OF assms(2) k] by simp
    next
      assume "ikcp_update (ltx l) c = ([], ?k)"
      moreover have "link_ok (l\<lparr>ltx := ?k\<rparr>) L gs j" using assms(2) k by (simp add: link_ok_def)
      ultimately show ?thesis using first_update by (auto simp: link_inv_def)
    qed
  next
    case (first_flush outs k')
    then show ?thesis using link_tx_flush [OF assms(2) tx] assms(2) by (simp add: link_ok_def)
  next
    case (first_nodelay nodelay interval resend nc r k')
    then show ?thesis using nodelay_kept session_step_inv [OF step_nodelay tx] keep by blast
  next
    case (second_input d r k')
    have "wire_ok L (k_conv (lrx l)) d" "rx_log L (concat (take j gs)) (lrx l)" using assms(2) second_input(2) by (simp_all add: link_ok_def)
    then have "rx_log L (concat (take j gs)) k'" using link_log [OF assms(2)] rx_input [OF rx _ _ _ _ second_input(3)] by blast
    moreover have "session_inv k' \<and> kept (lrx l) k'" by (rule input_same [OF second_input(3) rx second_input(4)])
    ultimately have "link_ok (l\<lparr>lrx := k'\<rparr>) L gs j" using assms(2) by (auto simp: link_ok_def kept_def)
    then show ?thesis using second_input(1) by (auto simp: link_inv_def)
  next
    case (second_recv len r bs k')
    then show ?thesis using link_recv [OF assms(2)] by simp
  next
    case (second_send b r k')
    then show ?thesis using send_same [OF _ rx] same_rx by blast
  next
    case (second_update c outs k')
    then show ?thesis using update_same session_inv_update [OF rx] same_rx by blast
  next
    case (second_flush outs k')
    then show ?thesis using flush_keeps_rx [of "lrx l"] session_inv_flush [OF rx] same_rx by auto
  next
    case (second_nodelay nodelay interval resend nc r k')
    then show ?thesis using nodelay_kept [OF second_nodelay(2)] session_step_inv [OF step_nodelay rx] same_rx by (auto simp: kept_def)
  qed
qed

lemma link_start_inv:
  assumes "session_inv k" "session_inv j" "k_conv j = k_conv k" "k_stream k = 0"
    and "k_snd_nxt k = 0" "k_snd_buf k = []" "k_snd_queue k = []" "k_rcv_nxt j = 0" "k_rcv_buf j = []" "k_rcv_queue j = []"
  shows "link_inv (link_start k j)"
  unfolding link_inv_def link_start_def
  by (intro exI [of _ "[]"] exI [of _ 0]) (use assms in \<open>simp add: link_ok_def tx_log_def rx_log_def\<close>)

section \<open>Properties\<close>

text \<open>C1: KCP delivers reliably.  Two endpoints of a conversation are configured with any MTU and windows, and the first sends messages to the second over a network that loses, repeats,
  delays and reorders its datagrams at will, while anything at all is fed back to it: in every reachable state the messages that the second has received are the first
  messages that the first has accepted, each one whole, once and in order, as long as fewer than \<open>2 ^ 32\<close> segments have been made; and every datagram on the network is
  accepted by the second.\<close>

theorem link_delivers:
  assumes start: "int_range mtu" "int_range sndwnd" "int_range rcvwnd" "int_range mtu'" "int_range sndwnd'" "int_range rcvwnd'"
    and run: "link_step\<^sup>*\<^sup>* (link_start (session_start conv mtu sndwnd rcvwnd 0) (session_start conv mtu' sndwnd' rcvwnd' stream)) l"
  shows "(\<exists>j\<le>length (accepted l). delivered l = take j (accepted l)) \<and>
    (\<forall>d\<in>lwire l. unat (k_ackcount (lrx l)) + length d div 24 < 2 ^ 31 \<longrightarrow> (\<exists>j'. ikcp_input (lrx l) d = Some (0, j')))"
proof -
  have "session_inv (session_start conv mtu sndwnd rcvwnd 0)" "session_inv (session_start conv mtu' sndwnd' rcvwnd' stream)"
    using start by (simp_all add: session_inv_start)
  then have "link_inv (link_start (session_start conv mtu sndwnd rcvwnd 0) (session_start conv mtu' sndwnd' rcvwnd' stream))"
    by (rule link_start_inv) (simp_all add: session_start_def ikcp_setmtu_def ikcp_wndsize_def Let_def ikcp_init_def)
  with run have "link_inv l"
    by (induction rule: rtranclp_induct) (auto simp: link_inv_def [of _] dest: link_step_inv)
  then obtain L gs j where l: "link_ok l L gs j" by (auto simp: link_inv_def)
  have "length (accepted l) = length gs" using l length_map [of bytes_of gs] by (simp add: link_ok_def)
  then have "j \<le> length (accepted l)" "delivered l = take j (accepted l)" using l by (simp_all add: link_ok_def)
  moreover have "\<exists>j'. ikcp_input (lrx l) d = Some (0, j')" if "d \<in> lwire l" "unat (k_ackcount (lrx l)) + length d div 24 < 2 ^ 31" for d
  proof -
    have "wire_ok L (k_conv (lrx l)) d" "conn_inv (lrx l)" using l that(1) by (simp_all add: link_ok_def session_inv_def)
    then show ?thesis using valid_input [OF _ _ _ _ _ that(2)] unfolding wire_ok_def by blast
  qed
  ultimately show ?thesis by blast
qed


definition demo_peer :: ikcpcb where
  "demo_peer = session_start 1 1400 64 200 0"

definition demo_got :: ikcpcb where
  "demo_got = snd (the (ikcp_input demo_peer (hd (fst (ikcp_update demo_sent 5)))))"

lemma demo_exchange:
  "ikcp_nodelay demo_peer 1 10 2 1 = (0, demo_start)" "hd (fst (ikcp_update demo_sent 5)) \<in> set (fst (ikcp_update demo_sent 5))"
  "ikcp_input demo_peer (hd (fst (ikcp_update demo_sent 5))) = Some (0, demo_got)"
  "ikcp_recv demo_got 100 = Some (2, [7, 8], snd (snd (the (ikcp_recv demo_got 100))))"
  by code_simp+

theorem link_delivers_witness:
  "\<exists>l. link_step\<^sup>*\<^sup>* (link_start demo_peer demo_peer) l \<and> accepted l = [[7, 8]] \<and> delivered l = [[7, 8]] \<and>
     (\<exists>j\<le>length (accepted l). delivered l = take j (accepted l))"
proof -
  define l0 where "l0 = link_start demo_peer demo_peer"
  obtain outs k where u: "ikcp_update demo_sent 5 = (outs, k)" by (cases "ikcp_update demo_sent 5")
  define l1 where "l1 = l0\<lparr>ltx := demo_start\<rparr>"
  define l2 where "l2 = l1\<lparr>ltx := demo_sent, accepted := [[7, 8]], made := 1\<rparr>"
  define l3 where "l3 = l2\<lparr>ltx := k, lwire := set outs\<rparr>"
  define l4 where "l4 = l3\<lparr>lrx := demo_got\<rparr>"
  define l5 where "l5 = l4\<lparr>lrx := snd (snd (the (ikcp_recv demo_got 100))), delivered := [[7, 8]]\<rparr>"
  note l = l0_def l1_def l2_def l3_def l4_def l5_def link_start_def
  have 1: "link_step l0 l1" using first_nodelay [of l0 1 10 2 1 0 demo_start] demo_exchange(1) by (simp add: l)
  have mss: "unat (k_mss demo_start) = 1376" by code_simp
  have 2: "link_step l1 l2"
    using first_send [of l1 "[7, 8]" 0 demo_sent 1] demo_sent_send mss by (simp add: l frag_count_def)
  have 3: "link_step l2 l3" using first_update [of l2 5 outs k] u by (simp add: l)
  have d: "length (hd outs) div 24 < 2 ^ 31"
  proof -
    have "length (hd (fst (ikcp_update demo_sent 5))) = 26" by (simp add: demo_outs)
    then show ?thesis by (simp add: u)
  qed
  have 4: "link_step l3 l4"
    using second_input [of "hd outs" l3 0 demo_got] demo_exchange(2,3) d u by (simp add: l demo_peer_def session_start_def ikcp_setmtu_def ikcp_wndsize_def Let_def ikcp_init_def)
  have 5: "link_step l4 l5" using second_recv [of l4 100 2 "[7, 8]"] demo_exchange(4) by (simp add: l)
  have run: "link_step\<^sup>*\<^sup>* l0 l5" using 1 2 3 4 5 by (meson rtranclp.rtrancl_into_rtrancl rtranclp.rtrancl_refl)
  have "\<exists>j\<le>length (accepted l5). delivered l5 = take j (accepted l5)"
    using link_delivers [of 1400 64 200 1400 64 200 1 0 l5] run by (simp add: l0_def demo_peer_def int_range_def)
  moreover have "accepted l5 = [[7, 8]]" "delivered l5 = [[7, 8]]" by (simp_all add: l)
  ultimately show ?thesis using run unfolding l0_def by blast
qed

end
