(* ===== verification/Kcp_Echo.thy ===== *)
theory Kcp_Echo
  imports Kcp_Demo Kcp_Link
begin

text \<open>
  The client and the server of the KCP demo together (\<open>client.c\<close>, \<open>server.c\<close>, \<open>delay.c\<close> over \<open>ikcp.c\<close>): the logs of \<open>Kcp_Link\<close> in both directions, carried through the two
  loops, and the round-trip test as a whole.
\<close>

section \<open>An endpoint in both directions\<close>

text \<open>\<open>R\<close> is all that the peer ever gives a sequence number and \<open>hs\<close> are the messages that the peer accepts; \<open>L\<close> and \<open>gs\<close> are the same for this endpoint so far, and
  \<open>j\<close> counts the messages received.  An endpoint has taken at most \<open>n\<close> datagrams and messages.
  The flag \<open>w\<close> says that all that arrives comes from the peer; what an endpoint sends is known without it.\<close>

definition peer_log :: "(u32 \<times> u8 list) list \<Rightarrow> (u32 \<times> u8 list) list list \<Rightarrow> bool" where
  "peer_log R hs \<longleftrightarrow> (\<exists>Q. R @ Q = concat hs) \<and> (\<forall>g\<in>set hs. parts_ok g) \<and> length R < 2 ^ 32"

definition duplex :: "u32 \<Rightarrow> bool \<Rightarrow> (u32 \<times> u8 list) list \<Rightarrow> (u32 \<times> u8 list) list list \<Rightarrow> nat \<Rightarrow> (u32 \<times> u8 list) list \<Rightarrow> (u32 \<times> u8 list) list list \<Rightarrow>
    nat \<Rightarrow> ikcpcb \<Rightarrow> bool" where
  "duplex c w R hs n L gs j k \<longleftrightarrow> endpoint_ok c n k \<and> tx_log L gs k \<and> (\<forall>g\<in>set gs. parts_ok g) \<and> length gs \<le> n \<and>
     (w \<longrightarrow> rx_log R (concat (take j hs)) k \<and> j \<le> length hs)"

lemma duplex_mono: "duplex c w R hs n L gs j k \<Longrightarrow> n \<le> m \<Longrightarrow> duplex c w R hs m L gs j k"
  using endpoint_ok_mono by (auto simp: duplex_def)

lemma parts_length: "\<forall>g\<in>set gs. parts_ok g \<Longrightarrow> length (concat gs) \<le> 127 * length gs"
  by (induction gs) (auto simp: parts_ok_def)

lemma duplex_parts: "duplex c w R hs n L gs j k \<Longrightarrow> n \<le> 2 ^ 24 \<Longrightarrow> length (concat gs) < 2 ^ 32"
  using parts_length [of gs] by (simp add: duplex_def)

lemma duplex_peer: "duplex c w R hs n L gs j k \<Longrightarrow> n \<le> 2 ^ 24 \<Longrightarrow> peer_log L gs"
proof -
  assume d: "duplex c w R hs n L gs j k" "n \<le> 2 ^ 24"
  then have e: "L @ map part (k_snd_queue k) = concat gs" by (simp add: duplex_def tx_log_def)
  then have "length L \<le> length (concat gs)" by (metis le_add1 length_append)
  then show ?thesis using duplex_parts [OF d] d(1) e by (auto simp: peer_log_def duplex_def)
qed

lemma peer_small: "peer_log R hs \<Longrightarrow> \<forall>p\<in>set R. unat (fst p) < 128"
proof -
  assume p: "peer_log R hs"
  then obtain Q where "R @ Q = concat hs" by (auto simp: peer_log_def)
  then have "set R \<subseteq> set (concat hs)" by (metis Un_upper1 set_append)
  then show ?thesis using p parts_ok_small by (fastforce simp: peer_log_def)
qed

lemma duplex_flush:
  assumes "duplex c w R hs n L gs j k" "k_updated k \<noteq> 0" "n \<le> 2 ^ 24" "ikcp_flush k = (outs, k')"
  shows "\<exists>M. duplex c w R hs n (L @ M) gs j k' \<and> k_updated k' \<noteq> 0 \<and> (\<forall>d\<in>set outs. wire_ok (L @ M) c d \<and> length d \<le> 1400)"
proof -
  have k: "endpoint_ok c n k" "tx_log L gs k" "session_inv k" "k_conv k = c" using assms(1) by (simp_all add: duplex_def endpoint_ok_def)
  obtain M where M: "tx_log (L @ M) gs k'" using tx_flush [OF k(2) duplex_parts [OF assms(1,3)]] assms(4) by auto
  have "wire_ok (L @ M) c d \<and> length d \<le> 1400" if "d \<in> set outs" for d
    using flush_wire [OF k(3), of "L @ M" gs d] M that flush_ok [OF k(1) assms(2)] k(4) assms(4) by (simp add: for_peers_def)
  moreover have "endpoint_ok c n k'" "k_updated k' \<noteq> 0" using flush_ok [OF k(1) assms(2)] endpoint_ok_mono [of c 0 k' n] assms(4) by auto
  moreover have "rx_part k' = rx_part k" using flush_keeps_rx [of k] assms(4) by simp
  then have "w \<longrightarrow> rx_log R (concat (take j hs)) k'" using rx_log_cong [of k' k] assms(1) by (simp add: duplex_def)
  ultimately show ?thesis using M assms(1) by (intro exI [of _ M]) (simp add: duplex_def)
qed

lemma duplex_clock: "duplex c w R hs n L gs j (k\<lparr>k_current := now, k_updated := u, k_ts_flush := t\<rparr>) = duplex c w R hs n L gs j k"
  by (simp add: duplex_def endpoint_ok_def session_inv_clock tx_clock rx_log_def rcv_fits_def)

lemma duplex_update:
  assumes "duplex c w R hs n L gs j k" "n \<le> 2 ^ 24" "ikcp_update k now = (outs, k')"
  shows "\<exists>M. duplex c w R hs n (L @ M) gs j k' \<and> k_updated k' \<noteq> 0 \<and> (\<forall>d\<in>set outs. wire_ok (L @ M) c d \<and> length d \<le> 1400)"
proof -
  obtain u t where u: "u \<noteq> 0" and e: "ikcp_update k now = ikcp_flush (k\<lparr>k_current := now, k_updated := u, k_ts_flush := t\<rparr>) \<or>
    ikcp_update k now = ([], k\<lparr>k_current := now, k_updated := u, k_ts_flush := t\<rparr>)" using update_cases_live by blast
  let ?k = "k\<lparr>k_current := now, k_updated := u, k_ts_flush := t\<rparr>"
  have k: "duplex c w R hs n L gs j ?k" using assms(1) by (simp add: duplex_clock)
  from e show ?thesis
  proof
    assume "ikcp_update k now = ikcp_flush ?k"
    then show ?thesis using duplex_flush [OF k _ assms(2)] u assms(3) by simp
  next
    assume "ikcp_update k now = ([], ?k)"
    then show ?thesis using k u assms(3) by (intro exI [of _ "[]"]) simp
  qed
qed

lemma duplex_input:
  assumes "duplex c w R hs n L gs j k" "w \<Longrightarrow> peer_log R hs" "n < 2 ^ 24" "w \<Longrightarrow> wire_ok R c d" "length d \<le> 1500"
  shows "\<exists>r k'. ikcp_input k d = Some (r, k') \<and> duplex c w R hs (n + 1) L gs j k' \<and> k_updated k' = k_updated k"
proof -
  have k: "endpoint_ok c n k" "tx_log L gs k" "session_inv k" "k_conv k = c" "w \<Longrightarrow> rx_log R (concat (take j hs)) k"
    using assms(1) by (simp_all add: duplex_def endpoint_ok_def)
  obtain r k' where i: "ikcp_input k d = Some (r, k')" "endpoint_ok c (n + 1) k'" "k_updated k' = k_updated k"
    using input_ok [OF k(1) assms(3,5)] by blast
  have "kept k k'" using input_kept [OF _ i(1)] k(3) by (simp add: session_inv_def conn_inv_def)
  moreover have "rx_log R (concat (take j hs)) k'" if w
    using rx_input [OF k(3) k(5) [OF that] _ peer_small [OF assms(2) [OF that]] _ i(1)] assms(2,4) [OF that] k(4) by (simp add: peer_log_def)
  ultimately show ?thesis using i assms(1) tx_kept k(2) by (auto simp: duplex_def)
qed

lemma duplex_recv:
  assumes "duplex c w R hs n L gs j k" "w \<Longrightarrow> peer_log R hs" "0 \<le> len"
  shows "\<exists>r bs k'. ikcp_recv k len = Some (r, bs, k') \<and> k_updated k' = k_updated k \<and>
    (if r < 0 then duplex c w R hs n L gs j k'
     else r = int (length bs) \<and> r \<le> len \<and> (w \<longrightarrow> j < length hs \<and> bs = bytes_of (hs ! j)) \<and> duplex c w R hs n L gs (Suc j) k')"
proof -
  have k: "endpoint_ok c n k" "tx_log L gs k" using assms(1) by (simp_all add: duplex_def)
  then have inv: "rcv_inv k" by (simp add: endpoint_ok_def session_inv_def conn_inv_def)
  obtain r bs k' where r: "ikcp_recv k len = Some (r, bs, k')" "endpoint_ok c n k'" "k_updated k' = k_updated k"
    "0 \<le> r \<longrightarrow> r = int (length bs) \<and> r \<le> len" using recv_ok [OF k(1) assms(3)] by blast
  have tx: "tx_log L gs k'" using tx_kept [OF conjunct1 [OF recv_kept [OF r(1)]] k(2)] .
  have rx: "if r < 0 \<or> len < 0 then rx_log R (concat (take j hs)) k'
    else j < length hs \<and> bs = bytes_of (hs ! j) \<and> rx_log R (concat (take (Suc j) hs)) k'" if w
  proof -
    have "peer_log R hs" using assms(2) that by blast
    then obtain Q where p: "R @ Q = concat hs" "\<forall>g\<in>set hs. parts_ok g" "length R < 2 ^ 32" by (auto simp: peer_log_def)
    have "rx_log R (concat (take j hs)) k" using assms(1) that by (simp add: duplex_def)
    then show ?thesis by (rule rx_recv [OF inv _ p r(1)])
  qed
  show ?thesis
  proof (cases "r < 0")
    case True
    then show ?thesis using rx r tx assms(1,3) by (auto simp: duplex_def)
  next
    case False
    then show ?thesis using rx r tx assms(1,3) by (auto simp: duplex_def)
  qed
qed

lemma duplex_send:
  assumes "duplex c w R hs n L gs j k" "length b \<le> 1500"
  shows "\<exists>k' g. ikcp_send k b (int (length b)) = Some (0, k') \<and> k_updated k' = k_updated k \<and> bytes_of g = b \<and> duplex c w R hs (n + 1) L (gs @ [g]) j k'"
proof -
  have k: "endpoint_ok c n k" "tx_log L gs k" "session_inv k" "w \<Longrightarrow> rx_log R (concat (take j hs)) k" using assms(1) by (simp_all add: duplex_def endpoint_ok_def)
  have b: "length b < 2 ^ 31" using assms(2) by simp
  obtain k' where s: "ikcp_send k b (int (length b)) = Some (0, k')" "endpoint_ok c n k'" "k_updated k' = k_updated k" using send_ok [OF k(1) assms(2)] by blast
  obtain g where g: "tx_log L (gs @ [g]) k'" "parts_ok g" "bytes_of g = b" using tx_send [OF k(3,2) s(1) b] by auto
  have "rx_part k' = rx_part k" using send_same [OF s(1) k(3) b] by simp
  then have "w \<longrightarrow> rx_log R (concat (take j hs)) k'" using k(4) rx_log_cong [of k' k] by simp
  then have "duplex c w R hs (n + 1) L (gs @ [g]) j k'" using g s(2) assms(1) endpoint_ok_mono [of c n k' "n + 1"] by (auto simp: duplex_def)
  then show ?thesis using s g(3) by blast
qed

lemma duplex_start: "duplex 1 w R hs 0 [] [] 0 server_kcp" "duplex 1 w R hs 0 [] [] 0 client_kcp"
proof -
  have c: "client_kcp = server_kcp"
    by (simp add: server_kcp_def client_kcp_def ikcp_setmtu_def ikcp_nodelay_def ikcp_wndsize_def Let_def ikcp_init_def)
  have "tx_log [] [] server_kcp"
    by (simp add: server_kcp_def ikcp_setmtu_def ikcp_nodelay_def ikcp_wndsize_def Let_def ikcp_init_def tx_log_def)
  moreover have "rx_log R [] server_kcp" unfolding rx_log_def
    by (intro conjI exI [of _ 0]) (simp_all add: server_kcp_def ikcp_setmtu_def ikcp_nodelay_def ikcp_wndsize_def Let_def ikcp_init_def)
  ultimately show "duplex 1 w R hs 0 [] [] 0 server_kcp" "duplex 1 w R hs 0 [] [] 0 client_kcp" using server_kcp_ok by (simp_all add: duplex_def c)
qed

section \<open>The server\<close>

definition server_log :: "bool \<Rightarrow> (u32 \<times> u8 list) list \<Rightarrow> (u32 \<times> u8 list) list list \<Rightarrow> nat \<Rightarrow> (u32 \<times> u8 list) list \<Rightarrow> (u32 \<times> u8 list) list list \<Rightarrow>
    nat \<Rightarrow> kcp_server \<Rightarrow> bool" where
  "server_log w R hs n L gs j s \<longleftrightarrow> duplex 1 w R hs n L gs j (pkcp s) \<and> k_updated (pkcp s) \<noteq> 0 \<and>
     (\<forall>d\<in>set (net s). wire_ok L 1 d \<and> length d \<le> 1400) \<and> map bytes_of gs = map fst (served s) \<and>
     (w \<longrightarrow> map fst (served s) = map bytes_of (take j hs))"

definition heard :: "bool \<Rightarrow> (u32 \<times> u8 list) list \<Rightarrow> u8 list \<Rightarrow> bool" where
  "heard w R d \<longleftrightarrow> (w \<longrightarrow> wire_ok R 1 d \<and> length d \<le> 1400)"

lemma heard_take: "heard w R d \<Longrightarrow> w \<Longrightarrow> wire_ok R 1 (take 1500 d)"
  by (auto simp: heard_def)

lemma server_log_mono: "server_log w R hs n L gs j s \<Longrightarrow> n \<le> m \<Longrightarrow> server_log w R hs m L gs j s"
  using duplex_mono by (auto simp: server_log_def)

lemma server_log_begin: "\<exists>L. server_log w R hs 0 L [] 0 (server_begin now)"
proof -
  obtain outs k where u: "ikcp_update server_kcp (iclock now) = (outs, k)" by (cases "ikcp_update server_kcp (iclock now)")
  show ?thesis using duplex_update [OF duplex_start(1) _ u, of w R hs] by (simp add: server_log_def server_begin_def u)
qed

lemma server_log_net:
  assumes "server_log w R hs n L gs j s" "duplex 1 w R hs m (L @ M) gs j k" "k_updated k \<noteq> 0" "\<forall>d\<in>set outs. wire_ok (L @ M) 1 d \<and> length d \<le> 1400"
  shows "server_log w R hs m (L @ M) gs j (s\<lparr>pkcp := k, net := net s @ outs\<rparr>)"
  using assms wire_append by (auto simp: server_log_def)

lemma server_log_kcp:
  assumes "server_log w R hs n L gs j s" "duplex 1 w R hs m L gs j k" "k_updated k \<noteq> 0"
  shows "server_log w R hs m L gs j (s\<lparr>pkcp := k\<rparr>)"
  using assms by (auto simp: server_log_def)

lemma server_round_log:
  assumes "server_log w R hs n L gs j s" "w \<Longrightarrow> peer_log R hs" "n + 2 \<le> 2 ^ 24" "\<And>d. snd r = Some d \<Longrightarrow> heard w R d" "server_round r s = Some x"
  shows "\<exists>L gs j. server_log w R hs (n + 2) L gs j (case x of Inl s' \<Rightarrow> s' | Inr s' \<Rightarrow> s')"
proof -
  obtain now d where r: "r = (now, d)" by (cases r)
  obtain outs k where u: "ikcp_update (pkcp s) (iclock now) = (outs, k)" by (cases "ikcp_update (pkcp s) (iclock now)")
  let ?s = "s\<lparr>pkcp := k, net := net s @ outs\<rparr>"
  have n: "n \<le> 2 ^ 24" "n < 2 ^ 24" "n + 1 \<le> 2 ^ 24" "n + 2 \<le> 2 ^ 24" using assms(3) by simp_all
  have "duplex 1 w R hs n L gs j (pkcp s)" using assms(1) by (simp add: server_log_def)
  then obtain M where k: "duplex 1 w R hs n (L @ M) gs j k" "k_updated k \<noteq> 0" "\<forall>d\<in>set outs. wire_ok (L @ M) 1 d \<and> length d \<le> 1400"
    using duplex_update [OF _ n(1) u] by blast
  have s: "server_log w R hs n (L @ M) gs j ?s" by (rule server_log_net [OF assms(1) k])
  have s2: "server_log w R hs (n + 2) (L @ M) gs j ?s" by (rule server_log_mono [OF s]) simp
  show ?thesis
  proof (cases "\<exists>bs. d = Some bs \<and> take RECV_BUF bs \<noteq> []")
    case False
    then have "x = Inr ?s \<or> x = Inl ?s" using assms(5) by (cases d) (auto simp: server_round_def r u Let_def)
    then show ?thesis using s2 by (intro exI [of _ "L @ M"] exI [of _ gs] exI [of _ j]) auto
  next
    case True
    then obtain bs where d: "d = Some bs" "take RECV_BUF bs \<noteq> []" by blast
    let ?buf = "take RECV_BUF bs"
    have buf: "length ?buf \<le> 1500" by (simp add: RECV_BUF_def)
    have hd: "wire_ok R 1 ?buf" if w using heard_take [OF _ that, of R bs] assms(4) d(1) by (simp add: r RECV_BUF_def)
    obtain ri ki where i: "ikcp_input k ?buf = Some (ri, ki)" "duplex 1 w R hs (n + 1) (L @ M) gs j ki" "k_updated ki = k_updated k"
      using duplex_input [OF k(1) assms(2) n(2) hd buf] by blast
    obtain rr msg kr where rv: "ikcp_recv ki (int (length ?buf)) = Some (rr, msg, kr)" "k_updated kr = k_updated ki"
      and got: "if rr < 0 then duplex 1 w R hs (n + 1) (L @ M) gs j kr
        else rr = int (length msg) \<and> rr \<le> int (length ?buf) \<and> (w \<longrightarrow> j < length hs \<and> msg = bytes_of (hs ! j)) \<and> duplex 1 w R hs (n + 1) (L @ M) gs (Suc j) kr"
      using duplex_recv [OF i(2) assms(2), of "int (length ?buf)"] by auto
    show ?thesis
    proof (cases "ri < 0 \<or> rr < 0")
      case True
      then have "x = Inr (?s\<lparr>pkcp := if ri < 0 then ki else kr\<rparr>)" using assms(5) d i(1) rv(1) by (auto simp: server_round_def r u Let_def)
      moreover have "server_log w R hs (n + 1) (L @ M) gs j (?s\<lparr>pkcp := if ri < 0 then ki else kr\<rparr>)"
        by (rule server_log_kcp [OF s]) (use True i rv(2) got k(2) in auto)
      ultimately show ?thesis using server_log_mono [of w R hs "n + 1" "L @ M" gs j _ "n + 2"] by (intro exI [of _ "L @ M"] exI [of _ gs] exI [of _ j]) simp
    next
      case ok: False
      then have rr: "rr = int (length msg)" "length msg \<le> 1500" and kr: "duplex 1 w R hs (n + 1) (L @ M) gs (Suc j) kr"
        and msg: "w \<Longrightarrow> j < length hs \<and> msg = bytes_of (hs ! j)" using got buf by auto
      have t: "take (nat rr) (msg @ drop (length msg) ?buf) = msg" by (simp add: rr)
      obtain ks g where sd: "ikcp_send kr msg rr = Some (0, ks)" "k_updated ks = k_updated kr" "bytes_of g = msg"
        "duplex 1 w R hs (n + 1 + 1) (L @ M) (gs @ [g]) (Suc j) ks"
        using duplex_send [OF kr rr(2)] rr(1) by auto
      obtain fo kf where f: "ikcp_flush ks = (fo, kf)" by (cases "ikcp_flush ks")
      have live: "k_updated ks \<noteq> 0" using sd(2) rv(2) i(3) k(2) by simp
      obtain N where fl: "duplex 1 w R hs (n + 2) ((L @ M) @ N) (gs @ [g]) (Suc j) kf" "k_updated kf \<noteq> 0"
        "\<forall>d\<in>set fo. wire_ok ((L @ M) @ N) 1 d \<and> length d \<le> 1400"
        using duplex_flush [OF sd(4) live _ f] n(4) by auto
      let ?t = "?s\<lparr>pkcp := kf, net := net s @ outs @ fo, served := served s @ [(msg, 0)]\<rparr>"
      have x: "x = Inr ?t" using assms(5) d i(1) rv(1) ok sd(1) f t by (simp add: server_round_def r u Let_def)
      have "\<forall>d\<in>set (net s @ outs @ fo). wire_ok ((L @ M) @ N) 1 d \<and> length d \<le> 1400" using s fl(3) wire_append [of "L @ M" 1 _ N] by (auto simp: server_log_def)
      moreover have "map fst (served s @ [(msg, 0)]) = map bytes_of (take (Suc j) hs)" if w
        using s msg [OF that] that by (simp add: server_log_def take_Suc_conv_app_nth)
      ultimately have "server_log w R hs (n + 2) ((L @ M) @ N) (gs @ [g]) (Suc j) ?t" using s fl(1,2) sd(3) by (simp add: server_log_def)
      then show ?thesis unfolding x by (intro exI [of _ "(L @ M) @ N"] exI [of _ "gs @ [g]"] exI [of _ "Suc j"]) simp
    qed
  qed
qed

lemma server_loop_log:
  assumes "server_log w R hs n L gs j s" "w \<Longrightarrow> peer_log R hs" "n + 2 * length rs \<le> 2 ^ 24"
    and "\<And>now d. (now, Some d) \<in> set rs \<Longrightarrow> heard w R d" "server_loop rs s = Some t"
  shows "\<exists>L gs j. server_log w R hs (2 ^ 24) L gs j t"
  using assms
proof (induction rs arbitrary: n L gs j s)
  case Nil
  then show ?case using server_log_mono [of w R hs n L gs j s "2 ^ 24"] by auto
next
  case (Cons r rs)
  obtain x where x: "server_round r s = Some x" using Cons.prems(5) by (cases "server_round r s") auto
  have n: "n + 2 \<le> 2 ^ 24" using Cons.prems(3) by simp
  have "heard w R d" if "snd r = Some d" for d using Cons.prems(4) [of "fst r" d] that by (cases r) auto
  then obtain L gs j where l: "server_log w R hs (n + 2) L gs j (case x of Inl s' \<Rightarrow> s' | Inr s' \<Rightarrow> s')"
    using server_round_log [OF Cons.prems(1,2) n _ x] by blast
  show ?case
  proof (cases x)
    case (Inl s')
    then show ?thesis using Cons.prems(5) x l n server_log_mono [of w R hs "n + 2" L gs j s' "2 ^ 24"] by auto
  next
    case (Inr s')
    have "\<And>now d. (now, Some d) \<in> set rs \<Longrightarrow> heard w R d" using Cons.prems(4) by (meson list.set_intros(2))
    then show ?thesis using Cons.IH [of "n + 2" L gs j s'] Cons.prems(2,3,5) x l Inr by auto
  qed
qed

section \<open>Times in the object\<close>

lemma le_bytes_Suc: "le_bytes (Suc n) w = ucast w # le_bytes n (drop_bit 8 w)"
proof -
  have "[0..<Suc n] = 0 # map Suc [0..<n]" by (simp add: map_Suc_upt upt_conv_Cons)
  then show ?thesis by (simp add: le_bytes_def drop_bit_drop_bit ac_simps del: upt_Suc)
qed

lemma low_part: "ucast (ucast w :: u8) + 256 * take_bit n (drop_bit 8 w) = take_bit (n + 8) (w :: i64)"
proof -
  have "256 * take_bit n (drop_bit 8 w) = push_bit 8 (take_bit n (drop_bit 8 w))" by (simp add: push_bit_eq_mult)
  moreover have "(ucast (ucast w :: u8) :: i64) = take_bit 8 w" by (simp add: unsigned_ucast_eq)
  moreover have "take_bit 8 w + push_bit 8 (take_bit n (drop_bit 8 w)) = take_bit (n + 8) w"
    by (subst disjunctive_add) (auto simp: bit_simps intro!: bit_eqI)
  ultimately show ?thesis by simp
qed

lemma le_word_bytes: "le_word (le_bytes n w) = take_bit (8 * n) w"
proof (induction n arbitrary: w)
  case 0
  then show ?case by (simp add: le_bytes_def)
next
  case (Suc n)
  then show ?case using low_part [of w "8 * n"] by (simp add: le_bytes_Suc add.commute)
qed

lemma over_length: "i + length bs \<le> length obj \<Longrightarrow> length (over i bs obj) = length obj"
  by (simp add: over_def)

lemma over_same: "length bs = length obj \<Longrightarrow> over 0 bs obj = bs"
  by (simp add: over_def)

lemma over_read:
  assumes "i + length bs \<le> length obj"
  shows "take (length bs) (drop i (over i bs obj)) = bs"
    "j + m \<le> i \<Longrightarrow> take m (drop j (over i bs obj)) = take m (drop j obj)"
proof -
  show "take (length bs) (drop i (over i bs obj)) = bs" using assms by (simp add: over_def)
next
  assume m: "j + m \<le> i"
  have "take (m + j) (over i bs obj) = take (m + j) obj" unfolding over_def using assms m by simp
  then show "take m (drop j (over i bs obj)) = take m (drop j obj)" by (simp only: take_drop)
qed

lemma le_bytes_length: "length (le_bytes n w) = n"
  by (simp add: le_bytes_def)

lemma times_shown:
  fixes e r :: i64
  assumes "length obj = 1328"
  defines "o' \<equiv> delay_set_recv_time (delay_set_seqno_send_time obj 0 e) r"
  shows "delay_print_rtt_time [o'] 1 = [(0, 0, r - e)]"
proof -
  let ?a = "over 0 (le_bytes 2 0) obj"
  let ?b = "over 8 (le_bytes 8 e) ?a"
  have l: "length ?a = 1328" "length ?b = 1328" using assms(1) by (simp_all add: over_length le_bytes_length)
  have o: "o' = over 16 (le_bytes 8 r) ?b" by (simp add: o'_def delay_set_recv_time_def delay_set_seqno_send_time_def)
  have "take 2 (drop 0 o') = take 2 (drop 0 ?b)" unfolding o by (rule over_read(2)) (simp_all add: l le_bytes_length)
  also have "\<dots> = take 2 (drop 0 ?a)" by (rule over_read(2)) (simp_all add: l le_bytes_length)
  also have "\<dots> = le_bytes 2 0" using over_read(1) [of 0 "le_bytes 2 0" obj] assms(1) by (simp add: le_bytes_length)
  finally have 1: "le_word (take 2 o') = 0" by (simp add: le_word_bytes)
  have "take 8 (drop 8 o') = take 8 (drop 8 ?b)" unfolding o by (rule over_read(2)) (simp_all add: l le_bytes_length)
  also have "\<dots> = le_bytes 8 e" using over_read(1) [of 8 "le_bytes 8 e" ?a] l by (simp add: le_bytes_length)
  finally have 2: "le_word (take 8 (drop 8 o')) = e" by (simp add: le_word_bytes take_bit_word_eq_self)
  have "take 8 (drop 16 o') = le_bytes 8 r" using over_read(1) [of 16 "le_bytes 8 r" ?b] l unfolding o by (simp add: le_bytes_length)
  then have 3: "le_word (take 8 (drop 16 o')) = r" by (simp add: le_word_bytes take_bit_word_eq_self)
  show "delay_print_rtt_time [o'] 1 = [(0, 0, r - e)]" by (simp add: delay_print_rtt_time_def delay_rtt_def 1 2 3)
qed


section \<open>The client\<close>

definition client_log :: "bool \<Rightarrow> (u32 \<times> u8 list) list \<Rightarrow> (u32 \<times> u8 list) list list \<Rightarrow> nat \<Rightarrow> (u32 \<times> u8 list) list \<Rightarrow> (u32 \<times> u8 list) list list \<Rightarrow>
    nat \<Rightarrow> kcp_client \<Rightarrow> bool" where
  "client_log w R hs n L gs j s \<longleftrightarrow> duplex 1 w R hs n L gs j (ckcp s) \<and> k_updated (ckcp s) \<noteq> 0 \<and> (\<forall>d\<in>set (sent s). wire_ok L 1 d \<and> length d \<le> 1400)"

lemma client_log_mono: "client_log w R hs n L gs j s \<Longrightarrow> n \<le> m \<Longrightarrow> client_log w R hs m L gs j s"
  using duplex_mono by (auto simp: client_log_def)

lemma client_log_kcp:
  assumes "client_log w R hs n L gs j s" "duplex 1 w R hs m L gs' j' k" "k_updated k \<noteq> 0"
  shows "client_log w R hs m L gs' j' (s\<lparr>ckcp := k\<rparr>)"
  using assms by (auto simp: client_log_def)

lemma client_log_view: "client_log w R hs n L gs j (s\<lparr>objs := x, recv_objs := y\<rparr>) = client_log w R hs n L gs j s"
  "client_log w R hs n L gs j (s\<lparr>objs := x\<rparr>) = client_log w R hs n L gs j s" "client_log w R hs n L gs j (s\<lparr>shown := z\<rparr>) = client_log w R hs n L gs j s"
  by (simp_all add: client_log_def)

lemma client_log_net:
  assumes "client_log w R hs n L gs j s" "duplex 1 w R hs n (L @ M) gs j k" "k_updated k \<noteq> 0" "\<forall>d\<in>set outs. wire_ok (L @ M) 1 d \<and> length d \<le> 1400"
  shows "client_log w R hs n (L @ M) gs j (s\<lparr>ckcp := k, sent := sent s @ outs\<rparr>)"
  using assms wire_append by (auto simp: client_log_def)

lemma client_update_log:
  assumes "client_log w R hs n L gs j s" "n \<le> 2 ^ 24"
  shows "\<exists>L. client_log w R hs n L gs j (client_update e s)"
proof -
  obtain outs k where u: "ikcp_update (ckcp s) (iclock (at_update e)) = (outs, k)" by (cases "ikcp_update (ckcp s) (iclock (at_update e))")
  have "duplex 1 w R hs n L gs j (ckcp s)" using assms(1) by (simp add: client_log_def)
  then show ?thesis using duplex_update [OF _ assms(2) u] client_log_net [OF assms(1)] by (fastforce simp: client_update_def u)
qed

lemma client_update_view: "objs (client_update e s) = objs s" "recv_objs (client_update e s) = recv_objs s"
  by (simp_all add: client_update_def split: prod.splits)

text \<open>What a round takes: nothing, or the next message of the peer.\<close>

definition taken :: "bool \<Rightarrow> (u32 \<times> u8 list) list list \<Rightarrow> nat \<Rightarrow> nat \<Rightarrow> client_io \<Rightarrow> kcp_client \<Rightarrow> bool option \<Rightarrow> nat \<Rightarrow> kcp_client \<Rightarrow> bool" where
  "taken w hs j i e s got j' s' \<longleftrightarrow>
     (case got of
        None \<Rightarrow> j' = j \<and> objs s' = objs s \<and> recv_objs s' = recv_objs s
      | Some full \<Rightarrow> j' = Suc j \<and> recv_objs s' = recv_objs s + 1 \<and> (\<exists>bs. (w \<longrightarrow> j < length hs \<and> bs = bytes_of (hs ! j)) \<and> full = (length bs = 1328) \<and>
          objs s' = (let os = (objs s)[i := over 0 bs (objs s ! i)] in os[recv_objs s := delay_set_recv_time (os ! recv_objs s) (at_recv e)])))"

lemma client_take_log:
  assumes "client_log w R hs n L gs j s" "w \<Longrightarrow> peer_log R hs" "n < 2 ^ 24" "\<And>d. arrived e = Some d \<Longrightarrow> heard w R d"
  shows "\<exists>got s' j'. client_take i e s = Some (got, s') \<and> client_log w R hs (n + 1) L gs j' s' \<and> taken w hs j i e s got j' s'"
proof (cases "arrived e")
  case None
  then show ?thesis using client_log_mono [OF assms(1), of "n + 1"] by (auto simp: client_take_def taken_def)
next
  case (Some bs)
  let ?buf = "take UDP_RECV_BUF_SIZE bs"
  have k: "duplex 1 w R hs n L gs j (ckcp s)" "k_updated (ckcp s) \<noteq> 0" using assms(1) by (simp_all add: client_log_def)
  have hd: "wire_ok R 1 ?buf" if w using heard_take [OF assms(4) [OF Some] that] by (simp add: UDP_RECV_BUF_SIZE_def)
  obtain ri ki where i: "ikcp_input (ckcp s) ?buf = Some (ri, ki)" "duplex 1 w R hs (n + 1) L gs j ki" "k_updated ki = k_updated (ckcp s)"
    using duplex_input [OF k(1) assms(2,3) hd] by (auto simp: UDP_RECV_BUF_SIZE_def)
  obtain rr msg kr where rv: "ikcp_recv ki (int obj_size) = Some (rr, msg, kr)" "k_updated kr = k_updated ki"
    and got: "if rr < 0 then duplex 1 w R hs (n + 1) L gs j kr
      else rr = int (length msg) \<and> rr \<le> int obj_size \<and> (w \<longrightarrow> j < length hs \<and> msg = bytes_of (hs ! j)) \<and> duplex 1 w R hs (n + 1) L gs (Suc j) kr"
    using duplex_recv [OF i(2) assms(2), of "int obj_size"] by auto
  show ?thesis
  proof (cases "ri < 0 \<or> rr < 0")
    case True
    then have "client_take i e s = Some (None, s\<lparr>ckcp := if ri < 0 then ki else kr\<rparr>)" using Some i(1) rv(1) by (auto simp: client_take_def Let_def)
    moreover have "client_log w R hs (n + 1) L gs j (s\<lparr>ckcp := if ri < 0 then ki else kr\<rparr>)"
      by (rule client_log_kcp [OF assms(1)]) (use True i rv(2) got k(2) in auto)
    ultimately show ?thesis by (intro exI [of _ None] exI [of _ "s\<lparr>ckcp := if ri < 0 then ki else kr\<rparr>"] exI [of _ j]) (simp add: taken_def)
  next
    case ok: False
    then have m: "w \<longrightarrow> j < length hs \<and> msg = bytes_of (hs ! j)" "rr = int (length msg)" "duplex 1 w R hs (n + 1) L gs (Suc j) kr" using got by auto
    have "k_updated kr \<noteq> 0" using rv(2) i(3) k(2) by simp
    then have log: "client_log w R hs (n + 1) L gs (Suc j) (s\<lparr>ckcp := kr\<rparr>)" by (rule client_log_kcp [OF assms(1) m(3)])
    let ?s = "s\<lparr>ckcp := kr, objs := (let os = (objs s)[i := over 0 msg (objs s ! i)] in
        os[recv_objs s := delay_set_recv_time (os ! recv_objs s) (at_recv e)]), recv_objs := recv_objs s + 1\<rparr>"
    have "client_take i e s = Some (Some (length msg = 1328), ?s)"
      using Some i(1) rv(1) ok m(2) by (auto simp: client_take_def Let_def obj_size_def)
    then show ?thesis using m(1) log client_log_view(1) [where s = "s\<lparr>ckcp := kr\<rparr>"]
      by (intro exI [of _ "Some (length msg = 1328)"] exI [of _ ?s] exI [of _ "Suc j"]) (auto simp: taken_def)
  qed
qed


text \<open>All that the peer sends is the object itself.\<close>

definition echoed :: "bool \<Rightarrow> (u32 \<times> u8 list) list list \<Rightarrow> u8 list \<Rightarrow> bool" where
  "echoed w hs obj \<longleftrightarrow> w \<and> length obj = 1328 \<and> (\<forall>h\<in>set hs. bytes_of h = obj)"

lemma taken_echo:
  assumes "taken w hs 0 0 e s (Some full) j' s'" "echoed w hs obj" "objs s = [obj]" "recv_objs s = 0"
  shows "full \<and> objs s' = [delay_set_recv_time obj (at_recv e)] \<and> recv_objs s' = 1"
proof -
  obtain bs where b: "0 < length hs" "bs = bytes_of (hs ! 0)" "full = (length bs = 1328)"
    "objs s' = (let os = (objs s)[0 := over 0 bs (objs s ! 0)] in os[recv_objs s := delay_set_recv_time (os ! recv_objs s) (at_recv e)])"
    using assms(1,2) by (auto simp: taken_def echoed_def)
  have "bs = obj" using b(1,2) assms(2) nth_mem by (auto simp: echoed_def)
  then show ?thesis using assms b by (simp add: taken_def echoed_def over_same)
qed

lemma second_done: "second_loop (Suc 0) es s = Some (Finished s)"
  by (cases es) (simp_all add: DELAY_TEST2_N_def)

definition progress_state :: "'a progress \<Rightarrow> 'a" where
  "progress_state x = (case x of Running s \<Rightarrow> s | Returned s \<Rightarrow> s | Finished s \<Rightarrow> s)"

lemma progress_state_simps [simp]: "progress_state (Running s) = s" "progress_state (Returned s) = s" "progress_state (Finished s) = s"
  by (simp_all add: progress_state_def)

text \<open>When the peer only echoes, the loop does not return from inside, and ends with the object.\<close>

definition second_ok :: "u8 list \<Rightarrow> client_io list \<Rightarrow> kcp_client progress \<Rightarrow> bool" where
  "second_ok obj es x \<longleftrightarrow> (case x of Running s \<Rightarrow> True | Returned s \<Rightarrow> False
     | Finished s \<Rightarrow> \<exists>e\<in>set es. objs s = [delay_set_recv_time obj (at_recv e)])"

lemma second_loop_log:
  assumes "client_log w R hs n L gs 0 s" "w \<Longrightarrow> peer_log R hs" "n + length es \<le> 2 ^ 24" "\<And>e d. e \<in> set es \<Longrightarrow> arrived e = Some d \<Longrightarrow> heard w R d"
    and "objs s = [obj]" "recv_objs s = 0"
  shows "\<exists>x L j. second_loop 0 es s = Some x \<and> client_log w R hs (2 ^ 24) L gs j (progress_state x) \<and> (echoed w hs obj \<longrightarrow> second_ok obj es x)"
  using assms
proof (induction es arbitrary: n L s)
  case Nil
  have "client_log w R hs (2 ^ 24) L gs 0 s" using client_log_mono [OF Nil.prems(1)] Nil.prems(3) by simp
  then show ?case by (intro exI [of _ "Running s"] exI [of _ L] exI [of _ 0]) (simp add: DELAY_TEST2_N_def second_ok_def)
next
  case (Cons e es)
  let ?u = "client_update e s"
  have n: "n \<le> 2 ^ 24" "n < 2 ^ 24" "n + 1 \<le> 2 ^ 24" using Cons.prems(3) by simp_all
  obtain L' where u: "client_log w R hs n L' gs 0 ?u" using client_update_log [OF Cons.prems(1) n(1)] by blast
  have hd: "heard w R d" if "arrived e = Some d" for d using Cons.prems(4) [of e d] that by simp
  obtain got s1 j1 where t: "client_take 0 e ?u = Some (got, s1)" and c: "client_log w R hs (n + 1) L' gs j1 s1" "taken w hs 0 0 e ?u got j1 s1"
    using client_take_log [OF u Cons.prems(2) n(2) hd, where i = 0] by blast
  show ?case
  proof (cases got)
    case None
    then have s1: "j1 = 0" "objs s1 = [obj]" "recv_objs s1 = 0" "second_loop 0 (e # es) s = second_loop 0 es s1"
      using c(2) Cons.prems(5,6) t by (simp_all add: taken_def client_update_view DELAY_TEST2_N_def)
    have "\<exists>x L j. second_loop 0 es s1 = Some x \<and> client_log w R hs (2 ^ 24) L gs j (progress_state x) \<and> (echoed w hs obj \<longrightarrow> second_ok obj es x)"
      using Cons.prems(2-4) c(1) s1(1-3) by (intro Cons.IH [of "n + 1" L' s1]) auto
    then obtain x L2 j2 where x: "second_loop 0 es s1 = Some x" "client_log w R hs (2 ^ 24) L2 gs j2 (progress_state x)" "echoed w hs obj \<longrightarrow> second_ok obj es x"
      by blast
    then have "echoed w hs obj \<longrightarrow> second_ok obj (e # es) x" by (cases x) (auto simp: second_ok_def)
    then show ?thesis using x(1,2) s1(4) by (intro exI [of _ x] exI [of _ L2] exI [of _ j2]) simp
  next
    case (Some full)
    have e: "full \<and> objs s1 = [delay_set_recv_time obj (at_recv e)]" if "echoed w hs obj"
      using taken_echo [OF _ that, of e ?u full j1 s1] c(2) Some Cons.prems(5,6) by (simp add: client_update_view)
    have log: "client_log w R hs (2 ^ 24) L' gs j1 s1" by (rule client_log_mono [OF c(1) n(3)])
    show ?thesis
    proof (cases full)
      case True
      then have "second_loop 0 (e # es) s = Some (Finished s1)" using t Some by (simp add: second_done DELAY_TEST2_N_def)
      then show ?thesis using log e by (intro exI [of _ "Finished s1"] exI [of _ L'] exI [of _ j1]) (auto simp: second_ok_def)
    next
      case False
      let ?t = "s1\<lparr>shown := delay_print_rtt_time (objs s1) 1\<rparr>"
      have "second_loop 0 (e # es) s = Some (Returned ?t)" using False t Some by (simp add: DELAY_TEST2_N_def)
      then show ?thesis using log e False client_log_view(3) [where s = s1]
        by (intro exI [of _ "Returned ?t"] exI [of _ L'] exI [of _ j1]) auto
    qed
  qed
qed

lemma client_log_begin: "\<exists>L. client_log w R hs 0 L [] 0 (client_begin os now)"
proof -
  obtain outs k where u: "ikcp_update client_kcp (iclock now) = (outs, k)" by (cases "ikcp_update client_kcp (iclock now)")
  show ?thesis using duplex_update [OF duplex_start(2) _ u, of w R hs] by (simp add: client_log_def client_begin_def u)
qed

lemma client_log_flush:
  assumes "client_log w R hs n L gs j s" "n \<le> 2 ^ 24" "ikcp_flush (ckcp s) = (outs, k)"
  shows "\<exists>L. client_log w R hs n L gs j (s\<lparr>ckcp := k, sent := sent s @ outs, shown := z\<rparr>)"
proof -
  have k: "duplex 1 w R hs n L gs j (ckcp s)" "k_updated (ckcp s) \<noteq> 0" using assms(1) by (simp_all add: client_log_def)
  obtain M where "duplex 1 w R hs n (L @ M) gs j k" "k_updated k \<noteq> 0" "\<forall>d\<in>set outs. wire_ok (L @ M) 1 d \<and> length d \<le> 1400"
    using duplex_flush [OF k assms(2,3)] by blast
  then have "client_log w R hs n (L @ M) gs j (s\<lparr>ckcp := k, sent := sent s @ outs\<rparr>)" by (rule client_log_net [OF assms(1)])
  then show ?thesis using client_log_view(3) [where s = "s\<lparr>ckcp := k, sent := sent s @ outs\<rparr>"] by auto
qed

text \<open>The test from the second loop on.\<close>

definition test_rest :: "client_io list \<Rightarrow> kcp_client \<Rightarrow> (kcp_client + kcp_client) option" where
  "test_rest es s = Option.bind (second_loop (recv_objs s) es s) (\<lambda>x. case x of Running s \<Rightarrow> Some (Inl s) | Returned s \<Rightarrow> Some (Inr s)
     | Finished s \<Rightarrow> (let (outs, k) = ikcp_flush (ckcp s) in Some (Inr (s\<lparr>ckcp := k, sent := sent s @ outs, shown := delay_print_rtt_time (objs s) 1\<rparr>))))"

lemma delay_test2_one:
  "delay_test2 os now (e # es) = Option.bind (first_loop 0 [e] (client_begin os now))
     (\<lambda>x. case x of Running s \<Rightarrow> Some (Inl s) | Returned s \<Rightarrow> Some (Inr s) | Finished s \<Rightarrow> test_rest es s)"
proof -
  have one: "take DELAY_TEST2_N (e # es) = [e]" "drop DELAY_TEST2_N (e # es) = es" by (simp_all add: DELAY_TEST2_N_def)
  show ?thesis unfolding delay_test2_def test_rest_def one unfolding DELAY_TEST2_N_def ..
qed

definition end_state :: "'a + 'a \<Rightarrow> 'a" where
  "end_state x = (case x of Inl s \<Rightarrow> s | Inr s \<Rightarrow> s)"

lemma end_state_simps [simp]: "end_state (Inl s) = s" "end_state (Inr s) = s"
  by (simp_all add: end_state_def)

text \<open>What a test that has returned shows, when the peer only echoes.\<close>

definition test_ok :: "u8 list \<Rightarrow> client_io list \<Rightarrow> kcp_client + kcp_client \<Rightarrow> bool" where
  "test_ok obj es x \<longleftrightarrow> (case x of Inl s \<Rightarrow> True
     | Inr s \<Rightarrow> \<exists>e\<in>set es. objs s = [delay_set_recv_time obj (at_recv e)] \<and> shown s = delay_print_rtt_time (objs s) 1)"

lemma test_finish:
  assumes "client_log w R hs (2 ^ 24) L gs i t" "ikcp_flush (ckcp t) = (outs, k)" "echoed w hs obj \<longrightarrow> (\<exists>c\<in>set es. objs t = [delay_set_recv_time obj (at_recv c)])"
  defines "x \<equiv> Inr (t\<lparr>ckcp := k, sent := sent t @ outs, shown := delay_print_rtt_time (objs t) 1\<rparr>)"
  shows "(\<exists>L. client_log w R hs (2 ^ 24) L gs i (end_state x)) \<and> (echoed w hs obj \<longrightarrow> test_ok obj es x)"
  using client_log_flush [OF assms(1) _ assms(2)] assms(3) by (auto simp: x_def test_ok_def)

lemma test_rest_log:
  assumes "client_log w R hs n L gs 0 s" "w \<Longrightarrow> peer_log R hs" "n + length es \<le> 2 ^ 24" "\<And>e d. e \<in> set es \<Longrightarrow> arrived e = Some d \<Longrightarrow> heard w R d"
    and "objs s = [obj]" "recv_objs s = 0"
  shows "\<exists>x L j. test_rest es s = Some x \<and> client_log w R hs (2 ^ 24) L gs j (end_state x) \<and> (echoed w hs obj \<longrightarrow> test_ok obj es x)"
proof -
  have "\<exists>x L j. second_loop 0 es s = Some x \<and> client_log w R hs (2 ^ 24) L gs j (progress_state x) \<and> (echoed w hs obj \<longrightarrow> second_ok obj es x)"
    by (rule second_loop_log) (use assms in auto)
  then obtain x L2 j2 where x: "second_loop 0 es s = Some x" "client_log w R hs (2 ^ 24) L2 gs j2 (progress_state x)" "echoed w hs obj \<longrightarrow> second_ok obj es x"
    by blast
  show ?thesis
  proof (cases x)
    case (Running t)
    then show ?thesis using x assms(6) by (intro exI [of _ "Inl t"] exI [of _ L2] exI [of _ j2]) (simp add: test_rest_def test_ok_def)
  next
    case (Returned t)
    then show ?thesis using x assms(6) by (intro exI [of _ "Inr t"] exI [of _ L2] exI [of _ j2]) (simp add: test_rest_def second_ok_def)
  next
    case (Finished t)
    obtain outs k where f: "ikcp_flush (ckcp t) = (outs, k)" by (cases "ikcp_flush (ckcp t)")
    let ?x = "Inr (t\<lparr>ckcp := k, sent := sent t @ outs, shown := delay_print_rtt_time (objs t) 1\<rparr>)"
    have "client_log w R hs (2 ^ 24) L2 gs j2 t" "echoed w hs obj \<longrightarrow> (\<exists>c\<in>set es. objs t = [delay_set_recv_time obj (at_recv c)])"
      using x(2,3) Finished by (auto simp: second_ok_def)
    note e = test_finish [OF this(1) f this(2)]
    have "test_rest es s = Some ?x" using x(1) assms(6) Finished f by (simp add: test_rest_def)
    then show ?thesis using e by blast
  qed
qed

lemma delay_test_log:
  assumes "length obj0 = 1328" "length es < 2 ^ 23" "w \<Longrightarrow> peer_log R hs"
    and hd: "\<And>c d. c \<in> set (e # es) \<Longrightarrow> arrived c = Some d \<Longrightarrow> heard w R d"
  defines "obj \<equiv> delay_set_seqno_send_time obj0 0 (at_send e)"
  shows "\<exists>x L g j. delay_test2 [obj0] now (e # es) = Some x \<and> client_log w R hs (2 ^ 24) L [g] j (end_state x) \<and> bytes_of g = obj \<and>
    (echoed w hs obj \<longrightarrow> test_ok obj (e # es) x)"
proof -
  let ?b = "client_begin [obj0] now"
  let ?o = "?b\<lparr>objs := [obj]\<rparr>"
  have view: "objs ?b = [obj0]" "recv_objs ?b = 0" by (simp_all add: client_begin_def split: prod.splits)
  have len: "length obj = 1328" using assms(1) by (simp add: obj_def delay_set_seqno_send_time_def over_length le_bytes_length)
  obtain L0 where b: "client_log w R hs 0 L0 [] 0 ?b" using client_log_begin by blast
  have o: "client_log w R hs 0 L0 [] 0 ?o" using b client_log_view(2) [where s = ?b] by simp
  have dk: "duplex 1 w R hs 0 L0 [] 0 (ckcp ?o)" "k_updated (ckcp ?o) \<noteq> 0" using o by (simp_all add: client_log_def)
  obtain k g where k: "ikcp_send (ckcp ?o) obj (int (length obj)) = Some (0, k)" "k_updated k = k_updated (ckcp ?o)" "bytes_of g = obj"
    "duplex 1 w R hs (0 + 1) L0 ([] @ [g]) 0 k" using duplex_send [OF dk(1), of obj] len by auto
  have "k_updated k \<noteq> 0" using k(2) dk(2) by simp
  then have s1: "client_log w R hs 1 L0 [g] 0 (?o\<lparr>ckcp := k\<rparr>)" using client_log_kcp [OF o] k(4) by simp
  let ?u = "client_update e (?o\<lparr>ckcp := k\<rparr>)"
  obtain L1 where u: "client_log w R hs 1 L1 [g] 0 ?u" using client_update_log [OF s1] by fastforce
  have first: "first_loop 0 [e] ?b = Option.bind (client_take 0 e ?u) (\<lambda>(got, s).
      if got = Some False then Some (Returned (s\<lparr>shown := delay_print_rtt_time (objs s) 0\<rparr>)) else Some (Finished s))"
    using k(1) len view
    by (simp add: DELAY_TEST2_N_def Let_def obj_size_def obj_def cong: if_cong)
  have test: "delay_test2 [obj0] now (e # es) = Option.bind (client_take 0 e ?u) (\<lambda>(got, s).
      if got = Some False then Some (Inr (s\<lparr>shown := delay_print_rtt_time (objs s) 0\<rparr>)) else test_rest es s)"
    unfolding delay_test2_one first by (cases "client_take 0 e ?u") auto
  have he: "heard w R d" if "arrived e = Some d" for d using hd [of e d] that by simp
  obtain got s2 j where t: "client_take 0 e ?u = Some (got, s2)" and c: "client_log w R hs (1 + 1) L1 [g] j s2" "taken w hs 0 0 e ?u got j s2"
  proof -
    have "(1 :: nat) < 2 ^ 24" by simp
    then show thesis using client_take_log [OF u assms(3) _ he, where i = 0] that by blast
  qed
  have s2: "client_log w R hs (2 ^ 24) L1 [g] j s2" by (rule client_log_mono [OF c(1)]) simp
  have e: "full \<and> objs s2 = [delay_set_recv_time obj (at_recv e)] \<and> recv_objs s2 = 1" if "echoed w hs obj" "got = Some full" for full
    using taken_echo [OF _ that(1), of e ?u full j s2] c(2) that(2) view by (simp add: client_update_view)
  consider (short) "got = Some False" | (full) "got = Some True" | (none) "got = None" by (cases got) auto
  then show ?thesis
  proof cases
    case short
    let ?x = "Inr (s2\<lparr>shown := delay_print_rtt_time (objs s2) 0\<rparr>)"
    have "delay_test2 [obj0] now (e # es) = Some ?x" using short t by (simp add: test)
    moreover have "\<not> echoed w hs obj" using e short by blast
    moreover have "client_log w R hs (2 ^ 24) L1 [g] j (end_state ?x)" using s2 client_log_view(3) [where s = s2] by simp
    ultimately show ?thesis using k(3) by blast
  next
    case full
    have r: "recv_objs s2 = Suc 0" using c(2) full view by (auto simp: taken_def client_update_view)
    obtain outs k' where f: "ikcp_flush (ckcp s2) = (outs, k')" by (cases "ikcp_flush (ckcp s2)")
    let ?x = "Inr (s2\<lparr>ckcp := k', sent := sent s2 @ outs, shown := delay_print_rtt_time (objs s2) 1\<rparr>)"
    have "delay_test2 [obj0] now (e # es) = Some ?x" using full t r f by (simp add: test test_rest_def second_done)
    moreover have "echoed w hs obj \<longrightarrow> (\<exists>c\<in>set (e # es). objs s2 = [delay_set_recv_time obj (at_recv c)])" using e full by auto
    then have "(\<exists>L. client_log w R hs (2 ^ 24) L [g] j (end_state ?x)) \<and> (echoed w hs obj \<longrightarrow> test_ok obj (e # es) ?x)" by (rule test_finish [OF s2 f])
    ultimately show ?thesis using k(3) by blast
  next
    case none
    then have j: "j = 0" "objs s2 = [obj]" "recv_objs s2 = 0" using c(2) view by (simp_all add: taken_def client_update_view)
    have hes: "heard w R d" if "c \<in> set es" "arrived c = Some d" for c d using hd [of c d] that by simp
    have c0: "client_log w R hs (1 + 1) L1 [g] 0 s2" using c(1) j(1) by simp
    have "\<exists>x L j. test_rest es s2 = Some x \<and> client_log w R hs (2 ^ 24) L [g] j (end_state x) \<and> (echoed w hs obj \<longrightarrow> test_ok obj es x)"
      by (rule test_rest_log [OF c0 assms(3) _ hes j(2,3)]) (use assms(2) in simp_all)
    then obtain x L2 j2 where x: "test_rest es s2 = Some x" "client_log w R hs (2 ^ 24) L2 [g] j2 (end_state x)" "echoed w hs obj \<longrightarrow> test_ok obj es x" by blast
    have "echoed w hs obj \<longrightarrow> test_ok obj (e # es) x" using x(3) by (cases x) (auto simp: test_ok_def)
    moreover have "delay_test2 [obj0] now (e # es) = Some x" using none t x(1) by (simp add: test)
    ultimately show ?thesis using x(2) k(3) by blast
  qed
qed

section \<open>One round trip, step by step\<close>

lemma input_datagram:
  assumes "\<forall>s\<in>set ss. seg_wf s \<and> seg_conv s = k_conv k \<and> known_cmd (ucast (seg_cmd s))" "ss \<noteq> []" "length (foldl ikcp_put_seg [] ss) < 2 ^ 31"
  shows "ikcp_input k (foldl ikcp_put_seg [] ss) = map_option (\<lambda>km. (0, input_finish (k_snd_una k) km)) (input_segs (k, False, 0, 0) (map unit_of ss))"
proof -
  let ?d = "foldl ikcp_put_seg [] ss"
  have d: "?d = concat (map (ikcp_put_seg []) ss)" using assms(1) by (simp add: foldl_put_seg)
  obtain s ss' where s: "ss = s # ss'" using assms(2) by (cases ss) auto
  have "24 \<le> length (ikcp_put_seg [] s)" using assms(1) s by (simp add: put_seg_length)
  then have "24 \<le> length ?d" unfolding d unfolding s by simp
  then have "wrap32 (int (length ?d)) \<ge> 24" using assms(3) by (simp add: wrap32_nonneg)
  then show ?thesis using input_loop_packed [of ss "(k, False, 0, 0)"] assms(1)
    by (simp add: ikcp_input_eq d [symmetric] option.map_comp) (simp add: d option.case_eq_if map_option_case)
qed

lemma put_seg_ne: "ikcp_put_seg b s \<noteq> []"
  by (simp add: ikcp_put_seg_def ikcp_encode_seg_def ikcp_encode32u_def Let_def)

text \<open>The control blocks of a run: \<open>k\<close> are those of the client and \<open>j\<close> those of the server, for an object \<open>x\<close>.\<close>

lemmas flush_calc = ikcp_update_def ikcp_flush_def flush_seg_def probe_timer_def flush_probes_def flush_cwnd_def
  fill_seg_def flush_decide_def stamp_seg_def flush_window_def after_fast_def after_loss_def flush_resent_def
  flush_rtomin_def put_data_def put_cmd_def make_room_def ikcp_output_def itimediff_def imin_def imax_def ikcp_wnd_unused_def
  u32_def

definition trip_k0 :: ikcpcb where
  "trip_k0 = \<lparr>k_conv = 1, k_mtu = 1400, k_mss = 1376, k_state = 0, k_snd_una = 0,
    k_snd_nxt = 0, k_rcv_nxt = 0, k_ts_recent = 0, k_ts_lastack = 0,
    k_ssthresh = 2, k_rx_rttval = 0, k_rx_srtt = 0, k_rx_rto = 200,
    k_rx_minrto = 100, k_snd_wnd = 128, k_rcv_wnd = 128, k_rmt_wnd = 128,
    k_cwnd = 1, k_probe = 0, k_current = 0, k_interval = 10,
    k_ts_flush = 10, k_xmit = 0, k_nrcv_buf = 0, k_nsnd_buf = 0,
    k_nrcv_que = 0, k_nsnd_que = 0, k_nodelay = 0, k_updated = 1,
    k_ts_probe = 0, k_probe_wait = 0, k_dead_link = 20, k_incr = 1376,
    k_snd_queue = [], k_rcv_queue = [], k_snd_buf = [], k_rcv_buf = [],
    k_acklist = [], k_ackcount = 0, k_ackblock = 0, k_fastresend = 0,
    k_fastlimit = 5, k_nocwnd = 0, k_stream = 0\<rparr>"

definition trip_j1 :: ikcpcb where
  "trip_j1 = trip_k0\<lparr>k_current := 30, k_ts_flush := 40\<rparr>"

lemma trip_start: "ikcp_update client_kcp 0 = ([], trip_k0)" "ikcp_update server_kcp 0 = ([], trip_k0)" "ikcp_update trip_k0 30 = ([], trip_j1)"
  by code_simp+

definition trip_k1 :: "u8 list \<Rightarrow> ikcpcb" where
  "trip_k1 x = trip_k0\<lparr>k_snd_queue := [ikcp_segment_new x 1328 0], k_nsnd_que := 1\<rparr>"

lemma trip_send: "length x = 1328 \<Longrightarrow> ikcp_send trip_k0 x 1328 = Some (0, trip_k1 x)"
  by (simp add: trip_k1_def trip_k0_def ikcp_send_def send_count_def u32_def)

definition trip_s2 :: "u8 list \<Rightarrow> ikcpseg" where
  "trip_s2 x = \<lparr>seg_conv = 1, seg_cmd = 81, seg_frg = 0, seg_wnd = 128, seg_ts = 20,
             seg_sn = 0, seg_una = 0, seg_len = 1328, seg_resendts = 245,
             seg_rto = 200, seg_fastack = 0, seg_xmit = 1, seg_data = x\<rparr>"

definition trip_k2 :: "u8 list \<Rightarrow> ikcpcb" where
  "trip_k2 x = trip_k0\<lparr>k_snd_nxt := 1, k_current := 20, k_ts_flush := 30, k_nsnd_buf := 1, k_snd_buf := [trip_s2 x]\<rparr>"

lemma trip_out: "length x = 1328 \<Longrightarrow> ikcp_update (trip_k1 x) 20 = ([ikcp_put_seg [] (trip_s2 x)], trip_k2 x)"
  by (simp add: flush_calc trip_k1_def trip_k0_def ikcp_segment_new_def Let_def trip_k2_def trip_s2_def put_seg_ne word_le_nat_alt)

definition trip_j2 :: "u8 list \<Rightarrow> ikcpcb" where
  "trip_j2 x = trip_j1\<lparr>k_rcv_nxt := 1, k_nrcv_que := 1, k_rcv_queue := [(trip_s2 x)\<lparr>seg_resendts := 0, seg_rto := 0, seg_xmit := 0\<rparr>],
   k_acklist := [0, 20, 0, 0, 0, 0, 0, 0, 0, 0, 0, 0, 0, 0, 0, 0], k_ackcount := 1, k_ackblock := 8\<rparr>"

lemma trip_arrives:
  assumes "length x = 1328"
  shows "ikcp_input trip_j1 (ikcp_put_seg [] (trip_s2 x)) = Some (0, trip_j2 x)"
proof -
  have "input_segs (trip_j1, False, 0, 0) [unit_of (trip_s2 x)] = Some (trip_j2 x, False, 0, 0)" by code_simp
  moreover have "k_conv trip_j1 = 1" "known_cmd 81" "k_snd_una trip_j1 = 0" by code_simp+
  moreover have "seg_wf (trip_s2 x)" "seg_conv (trip_s2 x) = 1" "seg_cmd (trip_s2 x) = 81" "seg_len (trip_s2 x) = 1328" using assms by (simp_all add: trip_s2_def seg_wf_def)
  moreover have "input_finish 0 (trip_j2 x, False, 0, 0) = trip_j2 x" by code_simp
  ultimately show ?thesis using input_datagram [of "[trip_s2 x]" trip_j1] by (simp add: put_seg_length)
qed

definition trip_j3 :: "u8 list \<Rightarrow> ikcpcb" where
  "trip_j3 x = (trip_j2 x)\<lparr>k_nrcv_que := 0, k_rcv_queue := []\<rparr>"

lemma trip_take: "length x = 1328 \<Longrightarrow> ikcp_recv (trip_j2 x) 1352 = Some (1328, x, trip_j3 x)"
  by (simp add: ikcp_recv_def trip_j2_def trip_j3_def trip_j1_def trip_k0_def trip_s2_def Let_def ikcp_peeksize_def seg_bytes_def u32_def word_le_nat_alt wrap32_nonneg)

definition trip_j4 :: "u8 list \<Rightarrow> ikcpcb" where
  "trip_j4 x = (trip_j3 x)\<lparr>k_snd_queue := [ikcp_segment_new x 1328 0], k_nsnd_que := 1\<rparr>"

lemma trip_echo: "length x = 1328 \<Longrightarrow> ikcp_send (trip_j3 x) x 1328 = Some (0, trip_j4 x)"
  by (simp add: trip_j4_def trip_j3_def trip_j2_def trip_j1_def trip_k0_def ikcp_send_def send_count_def u32_def)

definition trip_a5 :: "ikcpseg" where
  "trip_a5 = \<lparr>seg_conv = 1, seg_cmd = 82, seg_frg = 0, seg_wnd = 128,
           seg_ts = 20, seg_sn = 0, seg_una = 1, seg_len = 0,
           seg_resendts = 0, seg_rto = 0, seg_fastack = 0, seg_xmit = 0, seg_data = []\<rparr>"

definition trip_s5 :: "u8 list \<Rightarrow> ikcpseg" where
  "trip_s5 x = (trip_s2 x)\<lparr>seg_ts := 30, seg_una := 1, seg_resendts := 255\<rparr>"

definition trip_j5 :: "u8 list \<Rightarrow> ikcpcb" where
  "trip_j5 x = (trip_j3 x)\<lparr>k_snd_nxt := 1, k_nsnd_buf := 1, k_snd_buf := [trip_s5 x], k_ackcount := 0\<rparr>"

lemma trip_reply: "length x = 1328 \<Longrightarrow> ikcp_flush (trip_j4 x) = ([foldl ikcp_put_seg [] [trip_a5, trip_s5 x]], trip_j5 x)"
proof -
  assume x: "length x = 1328"
  have a: "ikcp_encode_seg [] trip_a5 = ikcp_put_seg [] trip_a5" by (simp add: ikcp_put_seg_def trip_a5_def)
  show ?thesis using a x
    by (simp add: flush_calc trip_j5_def trip_j4_def trip_j3_def trip_j2_def trip_j1_def trip_k0_def ikcp_segment_new_def Let_def trip_a5_def trip_s5_def trip_s2_def put_seg_ne word_le_nat_alt ikcp_ack_get_def)
qed

definition trip_k3 :: "u8 list \<Rightarrow> ikcpcb" where
  "trip_k3 x = (trip_k2 x)\<lparr>k_current := 45, k_ts_flush := 55\<rparr>"

definition trip_k4 :: "u8 list \<Rightarrow> ikcpcb" where
  "trip_k4 x = (trip_k3 x)\<lparr>k_snd_una := 1, k_rcv_nxt := 1, k_rx_rttval := 12, k_rx_srtt := 25, k_rx_rto := 100, k_cwnd := 2, k_incr := 2752, k_nsnd_buf := 0,
     k_snd_buf := [], k_nrcv_que := 1, k_rcv_queue := [(trip_s5 x)\<lparr>seg_resendts := 0, seg_rto := 0, seg_xmit := 0\<rparr>],
     k_acklist := [0, 30, 0, 0, 0, 0, 0, 0, 0, 0, 0, 0, 0, 0, 0, 0], k_ackcount := 1, k_ackblock := 8\<rparr>"

lemma trip_wait: "ikcp_update (trip_k2 x) 45 = ([], trip_k3 x)"
  by code_simp

lemma trip_home:
  assumes "length x = 1328"
  shows "ikcp_input (trip_k3 x) (foldl ikcp_put_seg [] [trip_a5, trip_s5 x]) = Some (0, trip_k4 x)"
proof -
  have "map_option (input_finish 0) (input_segs (trip_k3 x, False, 0, 0) (map unit_of [trip_a5, trip_s5 x])) = Some (trip_k4 x)" by code_simp
  then obtain km where "input_segs (trip_k3 x, False, 0, 0) (map unit_of [trip_a5, trip_s5 x]) = Some km" "input_finish 0 km = trip_k4 x" by blast
  moreover have "k_conv (trip_k3 x) = 1" "known_cmd 81" "known_cmd 82" "k_snd_una (trip_k3 x) = 0" by code_simp+
  moreover have "seg_wf (trip_s5 x)" "seg_conv (trip_s5 x) = 1" "seg_cmd (trip_s5 x) = 81" "seg_len (trip_s5 x) = 1328"
    using assms by (simp_all add: trip_s5_def trip_s2_def seg_wf_def)
  moreover have "seg_wf trip_a5" "seg_conv trip_a5 = 1" "seg_cmd trip_a5 = 82" "seg_len trip_a5 = 0" by (simp_all add: trip_a5_def seg_wf_def)
  ultimately show ?thesis using input_datagram [of "[trip_a5, trip_s5 x]" "trip_k3 x"] by (simp add: put_seg_length)
qed

lemma trip_read: "length x = 1328 \<Longrightarrow> \<exists>k. ikcp_recv (trip_k4 x) 1328 = Some (1328, x, k)"
  by (simp add: ikcp_recv_def trip_k4_def trip_k3_def trip_k2_def trip_k0_def trip_s5_def trip_s2_def Let_def ikcp_peeksize_def seg_bytes_def u32_def word_le_nat_alt wrap32_nonneg)

definition trip_there :: "u8 list \<Rightarrow> u8 list" where
  "trip_there x = ikcp_put_seg [] (trip_s2 x)"

definition trip_back :: "u8 list \<Rightarrow> u8 list" where
  "trip_back x = foldl ikcp_put_seg [] [trip_a5, trip_s5 x]"

definition trip_1 :: client_io where
  "trip_1 = \<lparr>at_send = 5, at_update = 20, arrived = None, at_recv = 0\<rparr>"

definition trip_2 :: "u8 list \<Rightarrow> client_io" where
  "trip_2 x = \<lparr>at_send = 0, at_update = 45, arrived = Some (trip_back x), at_recv = 48\<rparr>"

lemma trip_lengths:
  assumes "length x = 1328"
  shows "length (trip_there x) = 1352" "length (trip_back x) = 1376"
proof -
  have w: "seg_wf (trip_s2 x)" "seg_wf (trip_s5 x)" "seg_wf trip_a5" using assms by (simp_all add: trip_s5_def trip_s2_def trip_a5_def seg_wf_def)
  have l: "seg_len (trip_s2 x) = 1328" "seg_len (trip_s5 x) = 1328" "seg_len trip_a5 = 0" by (simp_all add: trip_s5_def trip_s2_def trip_a5_def)
  show "length (trip_there x) = 1352" "length (trip_back x) = 1376" using w l by (simp_all add: trip_there_def trip_back_def put_seg_length)
qed

lemma trip_server:
  assumes x: "length x = 1328"
  shows "\<exists>s. server_loop [(30, Some (trip_there x))] (server_begin 0) = Some s \<and> trip_back x \<in> set (net s)"
proof -
  have b: "server_begin 0 = \<lparr>pkcp = trip_k0, net = [], served = []\<rparr>" by (simp add: server_begin_def iclock_def trip_start(2))
  have c: "iclock 30 = 30" by (simp add: iclock_def)
  have t: "take RECV_BUF (trip_there x) = trip_there x" using trip_lengths(1) [OF x] by (simp add: RECV_BUF_def)
  have i: "ikcp_input trip_j1 (trip_there x) = Some (0, trip_j2 x)" using trip_arrives [OF x] by (simp add: trip_there_def)
  have ne: "trip_there x \<noteq> []" by (simp add: trip_there_def put_seg_ne)
  note rest = ne trip_take [OF x] trip_echo [OF x] trip_reply [OF x]
  have "server_round (30, Some (trip_there x)) (server_begin 0) =
    Some (Inr \<lparr>pkcp = trip_j5 x, net = [trip_back x], served = [(x, 0)]\<rparr>)"
    by (simp add: server_round_def b c t i rest trip_start(3) trip_lengths(1) [OF x] Let_def x trip_back_def)
  then show ?thesis by simp
qed

lemma trip_client:
  assumes y: "length y = 1328"
  defines "x \<equiv> delay_set_seqno_send_time y 0 5"
  shows "\<exists>c. delay_test2 [y] 0 [trip_1, trip_2 x] = Some (Inr c) \<and> trip_there x \<in> set (sent c)"
proof -
  have x: "length x = 1328" using y by (simp add: x_def delay_set_seqno_send_time_def over_length le_bytes_length)
  have b: "client_begin [y] 0 = \<lparr>ckcp = trip_k0, objs = [y], recv_objs = 0, sent = [], shown = []\<rparr>" by (simp add: client_begin_def iclock_def trip_start(1))
  have c: "iclock 20 = 20" "iclock 45 = 45" by (simp_all add: iclock_def)
  let ?c1 = "\<lparr>ckcp = trip_k2 x, objs = [x], recv_objs = 0, sent = [trip_there x], shown = []\<rparr>"
  have 1: "first_loop 0 [trip_1] (client_begin [y] 0) = Some (Finished ?c1)"
    using trip_send [OF x] trip_out [OF x] c(1)
    by (simp add: b trip_1_def client_take_def client_update_def DELAY_TEST2_N_def Let_def obj_size_def x_def trip_there_def)
  obtain k where k: "ikcp_recv (trip_k4 x) 1328 = Some (1328, x, k)" using trip_read [OF x] by blast
  have t: "take UDP_RECV_BUF_SIZE (trip_back x) = trip_back x" using trip_lengths(2) [OF x] by (simp add: UDP_RECV_BUF_SIZE_def)
  have i: "ikcp_input (trip_k3 x) (trip_back x) = Some (0, trip_k4 x)" using trip_home [OF x] by (simp add: trip_back_def)
  let ?c2 = "?c1\<lparr>ckcp := k, objs := [delay_set_recv_time x 48], recv_objs := 1\<rparr>"
  have 2: "second_loop 0 [trip_2 x] ?c1 = Some (Finished ?c2)"
    using trip_wait [of x] by (simp add: trip_2_def client_take_def client_update_def c(2) t i k obj_size_def DELAY_TEST2_N_def Let_def over_same)
  obtain outs k' where f: "ikcp_flush k = (outs, k')" by (cases "ikcp_flush k")
  show ?thesis by (simp add: delay_test2_one 1 test_rest_def 2 f del: first_loop.simps second_loop.simps)
qed

section \<open>Properties\<close>

text \<open>C2: The round trip of the demo.  Neither the test of the client nor the loop of the server has an undefined step, whatever arrives, in fewer than \<open>2 ^ 23\<close> rounds of each.
  When the two are connected by a network that loses, repeats, delays and reorders their datagrams but makes none up, then a test that has returned shows one line, whose
  time is the difference of the clock readings at sending and at receiving, and its object is the one it has sent with the time of receiving filled in; and, returned or still
  waiting, the server has served nothing else than that object, at most once.\<close>

theorem client_server_echo:
  assumes "length obj = 1328" "length es < 2 ^ 23" "length rs < 2 ^ 23"
  shows "\<exists>x s. delay_test2 [obj] now (e # es) = Some x \<and> server_loop rs (server_begin now') = Some s \<and>
    ((\<forall>r\<in>set (e # es). \<forall>d. arrived r = Some d \<longrightarrow> d \<in> set (net s)) \<and> (\<forall>r\<in>set rs. \<forall>d. snd r = Some d \<longrightarrow> d \<in> set (sent (end_state x))) \<longrightarrow>
      (\<forall>c. x = Inr c \<longrightarrow> (\<exists>r\<in>set (e # es). objs c = [delay_set_recv_time (delay_set_seqno_send_time obj 0 (at_send e)) (at_recv r)] \<and>
        shown c = [(0, 0, at_recv r - at_send e)])) \<and>
      served s \<in> {[], [(delay_set_seqno_send_time obj 0 (at_send e), 0)]})"
proof -
  let ?o = "delay_set_seqno_send_time obj 0 (at_send e)"
  have hear: "heard False [] d" for d by (simp add: heard_def)
  have "\<exists>x L g j. delay_test2 [obj] now (e # es) = Some x \<and> client_log False [] [] (2 ^ 24) L [g] j (end_state x) \<and> bytes_of g = ?o \<and>
      (echoed False [] ?o \<longrightarrow> test_ok ?o (e # es) x)"
    by (rule delay_test_log [OF assms(1,2) _ hear]) simp
  then obtain x L g i where x: "delay_test2 [obj] now (e # es) = Some x" "client_log False [] [] (2 ^ 24) L [g] i (end_state x)" "bytes_of g = ?o" by blast
  have "server_ok 0 (server_begin now')" by (rule server_begin_ok)
  from server_loop_ok [OF this, of rs] assms(3) obtain s where srv: "server_loop rs (server_begin now') = Some s" "\<forall>(m, r)\<in>set (served s). r = 0"
    by (auto simp: server_ok_def)
  have "(\<forall>c. x = Inr c \<longrightarrow> (\<exists>r\<in>set (e # es). objs c = [delay_set_recv_time ?o (at_recv r)] \<and> shown c = [(0, 0, at_recv r - at_send e)])) \<and>
      served s \<in> {[], [(?o, 0)]}"
    if net: "\<forall>r\<in>set (e # es). \<forall>d. arrived r = Some d \<longrightarrow> d \<in> set (net s)" "\<forall>r\<in>set rs. \<forall>d. snd r = Some d \<longrightarrow> d \<in> set (sent (end_state x))"
  proof -
    have pc: "peer_log L [g]" using duplex_peer x(2) by (auto simp: client_log_def)
    obtain M where b: "server_log True L [g] 0 M [] 0 (server_begin now')" using server_log_begin by blast
    have hs: "heard True L d" if "(t, Some d) \<in> set rs" for t d
      using bspec [OF net(2) that] x(2) by (simp add: heard_def client_log_def)
    have "\<exists>L' gs j. server_log True L [g] (2 ^ 24) L' gs j s"
      by (rule server_loop_log [OF b pc _ hs srv(1)]) (use assms(3) in simp_all)
    then obtain N hs' j where s: "server_log True L [g] (2 ^ 24) N hs' j s" by blast
    then have ps: "peer_log N hs'" using duplex_peer by (auto simp: server_log_def)
    have served: "map bytes_of hs' = map fst (served s)" "map fst (served s) = map bytes_of (take j [g])" using s by (simp_all add: server_log_def)
    have hc: "heard True N d" if "r \<in> set (e # es)" "arrived r = Some d" for r d
      using bspec [OF net(1) that(1)] that(2) s by (simp add: heard_def server_log_def)
    have "set (map bytes_of hs') \<subseteq> {?o}" unfolding served using x(3) by (cases j) auto
    then have echo: "echoed True hs' ?o" using assms(1) by (auto simp: echoed_def delay_set_seqno_send_time_def over_length le_bytes_length)
    have "\<exists>x' L g j. delay_test2 [obj] now (e # es) = Some x' \<and> client_log True N hs' (2 ^ 24) L [g] j (end_state x') \<and> bytes_of g = ?o \<and>
        (echoed True hs' ?o \<longrightarrow> test_ok ?o (e # es) x')"
      by (rule delay_test_log [OF assms(1,2) ps hc])
    then have t: "test_ok ?o (e # es) x" using echo x(1) by auto
    have "\<exists>r\<in>set (e # es). objs c = [delay_set_recv_time ?o (at_recv r)] \<and> shown c = [(0, 0, at_recv r - at_send e)]" if "x = Inr c" for c
      using t times_shown [OF assms(1)] that by (auto simp: test_ok_def)
    moreover have "map fst (served s) \<in> {[], [?o]}" unfolding served using x(3) by (cases j) auto
    then have "served s \<in> {[], [(?o, 0)]}" using srv(2) by (cases "served s") auto
    ultimately show ?thesis by blast
  qed
  then show ?thesis using x(1) srv(1) by blast
qed

theorem client_server_echo_witness:
  "\<exists>c e r. delay_test2 [replicate 1328 0] 0 [e, r] = Some (Inr c) \<and> shown c \<in> {[(0, 0, at_recv e - at_send e)], [(0, 0, at_recv r - at_send e)]}"
proof -
  define y :: "u8 list" where "y = replicate 1328 0"
  define x where "x = delay_set_seqno_send_time y 0 5"
  have y: "length y = 1328" by (simp add: y_def)
  then have x: "length x = 1328" by (simp add: x_def delay_set_seqno_send_time_def over_length le_bytes_length)
  obtain c where c: "delay_test2 [y] 0 [trip_1, trip_2 x] = Some (Inr c)" "trip_there x \<in> set (sent c)" using trip_client [OF y] unfolding x_def by blast
  obtain s where s: "server_loop [(30, Some (trip_there x))] (server_begin 0) = Some s" "trip_back x \<in> set (net s)" using trip_server [OF x] by blast
  have "\<exists>r\<in>set [trip_1, trip_2 x]. shown c = [(0, 0, at_recv r - at_send trip_1)]"
    using client_server_echo [OF y, of "[trip_2 x]" "[(30, Some (trip_there x))]" 0 trip_1 0] c s by (auto simp: trip_1_def trip_2_def)
  then show ?thesis using c(1) unfolding y_def by (intro exI [of _ c] exI [of _ trip_1] exI [of _ "trip_2 x"]) auto
qed

end
