(* ===== verification/Latency_Sim.thy ===== *)
theory Latency_Sim
  imports Kcp_Demo "HOL-Library.Multiset" "HOL-Library.Sublist"
begin

text \<open>
  The simulated network of the KCP test bench (\<open>test.h\<close>): the generator \<open>Random\<close>, that returns each number of its range once before any returns again, and
  \<open>LatencySimulator\<close>, two queues of delayed datagrams that lose a share of what is sent.  The results of \<open>rand\<close> and of the clock are arguments; a packet owns its bytes.
\<close>

section \<open>Numbers without repetition\<close>

record rng =
  r_size :: nat
  seeds :: "nat list"

definition Random_init :: "nat \<Rightarrow> rng" where
  "Random_init n = \<lparr>r_size = 0, seeds = replicate n 0\<rparr>"

definition random_draw :: "nat \<Rightarrow> rng \<Rightarrow> nat \<times> rng" where
  "random_draw rand g =
     (if length (seeds g) = 0 then (0, g)
      else
        let g = (if r_size g = 0 then \<lparr>r_size = length (seeds g), seeds = [0..<length (seeds g)]\<rparr> else g);
            i = rand mod r_size g;
            x = seeds g ! i;
            n = r_size g - 1
        in (x, \<lparr>r_size = n, seeds = (seeds g)[i := seeds g ! n]\<rparr>))"

section \<open>The network\<close>

record delay_packet =
  d_bytes :: "u8 list"
  d_ts :: u32

record latency_sim =
  tx1 :: int
  tx2 :: int
  s_current :: u32
  lostrate :: int
  rttmin :: int
  rttmax :: int
  nmax :: int
  p12 :: "delay_packet list"
  p21 :: "delay_packet list"
  r12 :: rng
  r21 :: rng

definition LatencySimulator_init :: "int \<Rightarrow> int \<Rightarrow> int \<Rightarrow> int \<Rightarrow> i64 \<Rightarrow> latency_sim" where
  "LatencySimulator_init lost rmin rmax n now =
     \<lparr>tx1 = 0, tx2 = 0, s_current = iclock now, lostrate = cdiv lost 2, rttmin = cdiv rmin 2, rttmax = cdiv rmax 2, nmax = n,
      p12 = [], p21 = [], r12 = Random_init 100, r21 = Random_init 100\<rparr>"

definition sim_clear :: "latency_sim \<Rightarrow> latency_sim" where
  "sim_clear s = s\<lparr>p12 := [], p21 := []\<rparr>"

text \<open>What \<open>send\<close> takes from outside: the two results of \<open>rand\<close> and the clock.\<close>

record send_io =
  loss_rand :: nat
  send_now :: i64
  delay_rand :: nat

definition sim_push :: "int \<Rightarrow> u8 list \<Rightarrow> send_io \<Rightarrow> latency_sim \<Rightarrow> latency_sim" where
  "sim_push peer data io s =
     (let s = s\<lparr>s_current := iclock (send_now io)\<rparr>;
          delay = u32 (rttmin s);
          delay = (if rttmax s > rttmin s then delay + u32 (int (delay_rand io) mod (rttmax s - rttmin s)) else delay);
          pkt = \<lparr>d_bytes = data, d_ts = s_current s + delay\<rparr>
      in if peer = 0 then s\<lparr>p12 := p12 s @ [pkt]\<rparr> else s\<lparr>p21 := p21 s @ [pkt]\<rparr>)"

definition sim_send :: "int \<Rightarrow> u8 list \<Rightarrow> send_io \<Rightarrow> latency_sim \<Rightarrow> latency_sim" where
  "sim_send peer data io s =
     (if peer = 0 then
        let (x, g) = random_draw (loss_rand io) (r12 s);
            s = s\<lparr>tx1 := tx1 s + 1, r12 := g\<rparr>
        in if int x < lostrate s then s
           else if int (length (p12 s)) \<ge> nmax s then s
           else sim_push peer data io s
      else
        let (x, g) = random_draw (loss_rand io) (r21 s);
            s = s\<lparr>tx2 := tx2 s + 1, r21 := g\<rparr>
        in if int x < lostrate s then s
           else if int (length (p21 s)) \<ge> nmax s then s
           else sim_push peer data io s)"

text \<open>\<open>Inl\<close> is a negative result.\<close>

definition sim_recv :: "int \<Rightarrow> int \<Rightarrow> i64 \<Rightarrow> latency_sim \<Rightarrow> (int + u8 list) \<times> latency_sim" where
  "sim_recv peer maxsize now s =
     (case (if peer = 0 then p21 s else p12 s) of
        [] \<Rightarrow> (Inl (-1), s)
      | pkt # rest \<Rightarrow>
          let s = s\<lparr>s_current := iclock now\<rparr> in
          if s_current s < d_ts pkt then (Inl (-2), s)
          else if maxsize < int (length (d_bytes pkt)) then (Inl (-3), s)
          else (Inr (d_bytes pkt), if peer = 0 then s\<lparr>p21 := rest\<rparr> else s\<lparr>p12 := rest\<rparr>))"

section \<open>Every number once\<close>

fun random_draws :: "nat list \<Rightarrow> rng \<Rightarrow> nat list \<times> rng" where
  "random_draws [] g = ([], g)"
| "random_draws (r # rs) g = (let (x, g) = random_draw r g; (xs, g) = random_draws rs g in (x # xs, g))"

lemma take_swap_mset:
  assumes "i \<le> n" "n < length xs"
  shows "add_mset (xs ! i) (mset (take n (xs[i := xs ! n]))) = mset (take (Suc n) xs)"
proof (cases "i = n")
  case True
  then show ?thesis using assms by (simp add: take_Suc_conv_app_nth)
next
  case False
  then have i: "i < length (take n xs)" using assms by simp
  have "take n (xs[i := xs ! n]) = (take n xs)[i := xs ! n]" by (simp add: take_update_swap)
  then have "mset (take n (xs[i := xs ! n])) = add_mset (xs ! n) (mset (take n xs) - {#xs ! i#})" using mset_update [OF i, of "xs ! n"] i by simp
  moreover have "xs ! i \<in># mset (take n xs)" using i nth_mem [OF i] by simp
  ultimately show ?thesis using assms by (simp add: take_Suc_conv_app_nth)
qed

definition rng_ok :: "rng \<Rightarrow> bool" where
  "rng_ok g \<longleftrightarrow> r_size g \<le> length (seeds g)"

lemma random_draw_mset:
  assumes "0 < r_size g" "rng_ok g" "random_draw r g = (x, g')"
  shows "add_mset x (mset (take (r_size g') (seeds g'))) = mset (take (r_size g) (seeds g)) \<and> r_size g = Suc (r_size g') \<and> rng_ok g' \<and>
    length (seeds g') = length (seeds g)"
proof -
  have "seeds g \<noteq> []" using assms(1,2) by (auto simp: rng_ok_def)
  then have e: "x = seeds g ! (r mod r_size g)" "g' = \<lparr>r_size = r_size g - 1, seeds = (seeds g)[r mod r_size g := seeds g ! (r_size g - 1)]\<rparr>"
    using assms(1,3) by (auto simp: random_draw_def Let_def)
  have i: "r mod r_size g \<le> r_size g - 1" using mod_less_divisor [OF assms(1), of r] by linarith
  have n: "r_size g - 1 < length (seeds g)" "Suc (r_size g - 1) = r_size g" using assms(1,2) by (auto simp: rng_ok_def)
  show ?thesis using take_swap_mset [OF i n(1)] n assms(2) by (simp add: e rng_ok_def)
qed

lemma random_draws_mset:
  assumes "length rs = r_size g" "rng_ok g" "random_draws rs g = (xs, g')"
  shows "mset xs = mset (take (r_size g) (seeds g)) \<and> r_size g' = 0 \<and> length (seeds g') = length (seeds g)"
  using assms
proof (induction rs arbitrary: g xs)
  case (Cons r rs)
  obtain x h where x: "random_draw r g = (x, h)" by (cases "random_draw r g")
  obtain ys where y: "random_draws rs h = (ys, g')" "xs = x # ys" using Cons.prems(3) x by (auto split: prod.splits)
  have d: "add_mset x (mset (take (r_size h) (seeds h))) = mset (take (r_size g) (seeds g))" "r_size g = Suc (r_size h)" "rng_ok h"
    "length (seeds h) = length (seeds g)" using random_draw_mset [OF _ Cons.prems(2) x] Cons.prems(1) by auto
  then show ?case using Cons.IH [OF _ d(3) y(1)] Cons.prems(1) y(2) by simp
qed simp


lemma random_block:
  assumes "r_size g = 0" "seeds g \<noteq> []" "length rs = length (seeds g)" "random_draws rs g = (xs, g')"
  shows "mset xs = mset [0..<length (seeds g)] \<and> r_size g' = 0 \<and> length (seeds g') = length (seeds g)"
proof -
  let ?h = "\<lparr>r_size = length (seeds g), seeds = [0..<length (seeds g)]\<rparr>"
  obtain r rest where r: "rs = r # rest" using assms(2,3) by (cases rs) auto
  have "random_draw r g = random_draw r ?h" using assms(1,2) by (simp add: random_draw_def)
  then have "random_draws rs ?h = (xs, g')" using assms(4) by (simp add: r)
  moreover have "rng_ok ?h" by (simp add: rng_ok_def)
  ultimately show ?thesis using random_draws_mset [of rs ?h xs g'] assms(3) by simp
qed

section \<open>What is lost\<close>

definition tunnel :: "int \<Rightarrow> latency_sim \<Rightarrow> delay_packet list" where
  "tunnel peer s = (if peer = 0 then p12 s else p21 s)"

definition chooser :: "int \<Rightarrow> latency_sim \<Rightarrow> rng" where
  "chooser peer s = (if peer = 0 then r12 s else r21 s)"

definition tries :: "int \<Rightarrow> latency_sim \<Rightarrow> int" where
  "tries peer s = (if peer = 0 then tx1 s else tx2 s)"

lemma sim_send_tunnel:
  assumes "random_draw (loss_rand io) (chooser peer s) = (x, g)"
  shows "chooser peer (sim_send peer data io s) = g" "lostrate (sim_send peer data io s) = lostrate s" "nmax (sim_send peer data io s) = nmax s"
    "tries peer (sim_send peer data io s) = tries peer s + 1" "(q = 0) \<noteq> (peer = 0) \<Longrightarrow> tunnel q (sim_send peer data io s) = tunnel q s"
    "(q = 0) \<noteq> (peer = 0) \<Longrightarrow> tries q (sim_send peer data io s) = tries q s"
    "\<exists>t. tunnel peer (sim_send peer data io s) =
      tunnel peer s @ (if int x < lostrate s \<or> nmax s \<le> int (length (tunnel peer s)) then [] else [\<lparr>d_bytes = data, d_ts = t\<rparr>])"
  using assms by (auto simp: sim_send_def sim_push_def chooser_def tunnel_def tries_def Let_def)

definition sim_sends :: "int \<Rightarrow> (u8 list \<times> send_io) list \<Rightarrow> latency_sim \<Rightarrow> latency_sim" where
  "sim_sends peer ds s = fold (\<lambda>(data, io). sim_send peer data io) ds s"

definition passes :: "int \<Rightarrow> nat \<times> u8 list \<Rightarrow> bool" where
  "passes lost = (\<lambda>p. \<not> int (fst p) < lost)"

text \<open>The room that a queue has; when it is used up, nothing more enters.\<close>

definition room :: "int \<Rightarrow> latency_sim \<Rightarrow> nat" where
  "room peer s = nat (nmax s - int (length (tunnel peer s)))"

lemma sim_sends_tunnel:
  assumes "random_draws (map (\<lambda>d. loss_rand (snd d)) ds) (chooser peer s) = (xs, g)"
  shows "chooser peer (sim_sends peer ds s) = g \<and> lostrate (sim_sends peer ds s) = lostrate s \<and>
    map d_bytes (tunnel peer (sim_sends peer ds s)) = map d_bytes (tunnel peer s) @ take (room peer s) (map snd (filter (passes (lostrate s)) (zip xs (map fst ds))))"
  using assms
proof (induction ds arbitrary: s xs)
  case Nil
  then show ?case by (simp add: sim_sends_def)
next
  case (Cons di ds)
  obtain d io where di: "di = (d, io)" by (cases di)
  obtain x h where x: "random_draw (loss_rand io) (chooser peer s) = (x, h)" by (cases "random_draw (loss_rand io) (chooser peer s)")
  obtain ys where y: "random_draws (map (\<lambda>d. loss_rand (snd d)) ds) h = (ys, g)" "xs = x # ys" using Cons.prems(1) x by (auto simp: di split: prod.splits)
  let ?s = "sim_send peer d io s"
  note e = sim_send_tunnel [OF x, where data = d]
  obtain t where t: "tunnel peer ?s = tunnel peer s @ (if int x < lostrate s \<or> nmax s \<le> int (length (tunnel peer s)) then [] else [\<lparr>d_bytes = d, d_ts = t\<rparr>])"
    using e(7) by blast
  have ih: "chooser peer (sim_sends peer ds ?s) = g \<and> lostrate (sim_sends peer ds ?s) = lostrate ?s \<and> map d_bytes (tunnel peer (sim_sends peer ds ?s)) =
      map d_bytes (tunnel peer ?s) @ take (room peer ?s) (map snd (filter (passes (lostrate ?s)) (zip ys (map fst ds))))"
    using Cons.IH [of ?s ys] y(1) e(1) by simp
  have go: "sim_sends peer (di # ds) s = sim_sends peer ds ?s" by (simp add: sim_sends_def di)
  consider (lost) "int x < lostrate s" | (full) "\<not> int x < lostrate s" "nmax s \<le> int (length (tunnel peer s))"
    | (enters) "\<not> int x < lostrate s" "\<not> nmax s \<le> int (length (tunnel peer s))" by blast
  then show ?case
  proof cases
    case lost
    then show ?thesis using ih t e(2,3) unfolding go by (simp add: y(2) di passes_def room_def)
  next
    case full
    then have "room peer ?s = 0" "room peer s = 0" using t e(3) by (simp_all add: room_def)
    then show ?thesis using ih t e(2) full unfolding go by simp
  next
    case enters
    then have r: "room peer s = Suc (room peer ?s)" using t e(3) by (simp add: room_def)
    show ?thesis using ih t e(2) enters unfolding go by (simp add: y(2) di passes_def r)
  qed
qed

text \<open>Calls of \<open>recv\<close> at the other end, each with the size of its buffer and the clock, and the datagrams they return.\<close>

fun sim_recvs :: "int \<Rightarrow> (int \<times> i64) list \<Rightarrow> latency_sim \<Rightarrow> u8 list list \<times> latency_sim" where
  "sim_recvs peer [] s = ([], s)"
| "sim_recvs peer ((maxsize, now) # rs) s =
     (let (r, s) = sim_recv peer maxsize now s; (ds, s) = sim_recvs peer rs s in ((case r of Inl _ \<Rightarrow> ds | Inr d \<Rightarrow> d # ds), s))"

lemma sim_recv_tunnel:
  assumes "(q = 0) \<noteq> (peer = 0)" "sim_recv q maxsize now s = (r, s')"
  shows "map d_bytes (tunnel peer s) = (case r of Inl _ \<Rightarrow> [] | Inr d \<Rightarrow> [d]) @ map d_bytes (tunnel peer s')"
  using assms by (auto simp: sim_recv_def tunnel_def Let_def split: list.splits if_splits)

lemma sim_recvs_tunnel:
  "(q = 0) \<noteq> (peer = 0) \<Longrightarrow> sim_recvs q rs s = (ds, s') \<Longrightarrow> ds @ map d_bytes (tunnel peer s') = map d_bytes (tunnel peer s)"
proof (induction rs arbitrary: s ds)
  case (Cons x rs)
  obtain maxsize now where x: "x = (maxsize, now)" by (cases x)
  obtain r s1 where r: "sim_recv q maxsize now s = (r, s1)" by (cases "sim_recv q maxsize now s")
  obtain es where e: "sim_recvs q rs s1 = (es, s')" "ds = (case r of Inl _ \<Rightarrow> es | Inr d \<Rightarrow> d # es)"
    using Cons.prems(2) by (auto simp: x r split: prod.splits)
  have "es @ map d_bytes (tunnel peer s') = map d_bytes (tunnel peer s1)" using Cons.IH [OF Cons.prems(1) e(1)] .
  then show ?case using sim_recv_tunnel [OF Cons.prems(1) r] e(2) by (cases r) auto
qed simp

lemma random_draws_length: "random_draws rs g = (xs, g') \<Longrightarrow> length xs = length rs"
  by (induction rs arbitrary: g xs) (auto split: prod.splits)

lemma passes_count:
  assumes "mset xs = mset [0..<n]" "length ds = n" "0 \<le> lost" "lost \<le> int n"
  shows "length (filter (passes lost) (zip xs ds)) = n - nat lost"
proof -
  have xs: "length xs = n" using arg_cong [OF assms(1), of size] by simp
  have "length (filter (passes lost) (zip xs ds)) = length (filter (\<lambda>x. \<not> int x < lost) (map fst (zip xs ds)))"
    by (simp add: filter_map comp_def passes_def)
  also have "map fst (zip xs ds) = xs" using xs assms(2) by simp
  also have "length (filter (\<lambda>x. \<not> int x < lost) xs) = size (filter_mset (\<lambda>x. \<not> int x < lost) (mset xs))" by (simp add: size_mset [symmetric] mset_filter del: size_mset)
  also have "\<dots> = length (filter (\<lambda>x. \<not> int x < lost) [0..<n])" unfolding assms(1) by (simp add: size_mset [symmetric] mset_filter del: size_mset)
  also have "filter (\<lambda>x. \<not> int x < lost) [0..<n] = [nat lost..<n]"
  proof -
    have "[0..<n] = [0..<nat lost] @ [nat lost..<n]" using upt_add_eq_append [of 0 "nat lost" "n - nat lost"] assms(4) by (simp add: nat_le_iff)
    moreover have "filter (\<lambda>x. \<not> int x < lost) [0..<nat lost] = []" using assms(3) by (auto simp: filter_empty_conv)
    moreover have "filter (\<lambda>x. \<not> int x < lost) [nat lost..<n] = [nat lost..<n]" using assms(3) by (auto simp: filter_id_conv)
    ultimately show ?thesis by simp
  qed
  finally show ?thesis by simp
qed

section \<open>Properties\<close>

text \<open>C18: The network of the test bench loses exactly its rate.  Of each block of 100 datagrams that an endpoint sends, whatever \<open>rand\<close> and the clock return, exactly
  \<open>lostrate\<close> are dropped at random; of the others the first ones enter the queue while it has room, unchanged and in order, and the next block begins in the same way.
  Whatever calls of \<open>recv\<close> follow at the other end, what they return and what is still in the queue are together what was in the queue, in order; and a call
  returns the first datagram as soon as its time has come, when the buffer is large enough.\<close>

theorem sim_loses_exactly:
  assumes "r_size (chooser peer s) = 0" "length (seeds (chooser peer s)) = 100" "length ds = 100" "0 \<le> lostrate s" "lostrate s \<le> 100"
    and "(q = 0) \<noteq> (peer = 0)" and "sim_recvs q rs (sim_sends peer ds s) = (received, s')"
  shows "\<exists>kept. length kept = 100 - nat (lostrate s) \<and> subseq kept (map fst ds) \<and>
    received @ map d_bytes (tunnel peer s') = map d_bytes (tunnel peer s) @ take (nat (nmax s - int (length (tunnel peer s)))) kept \<and>
    r_size (chooser peer (sim_sends peer ds s)) = 0 \<and> length (seeds (chooser peer (sim_sends peer ds s))) = 100 \<and>
    (\<forall>pkt rest maxsize now. tunnel peer s' = pkt # rest \<and> d_ts pkt \<le> iclock now \<and> int (length (d_bytes pkt)) \<le> maxsize \<longrightarrow>
       fst (sim_recv q maxsize now s') = Inr (d_bytes pkt))"
proof -
  obtain xs g where x: "random_draws (map (\<lambda>d. loss_rand (snd d)) ds) (chooser peer s) = (xs, g)" by (cases "random_draws (map (\<lambda>d. loss_rand (snd d)) ds) (chooser peer s)")
  have b: "mset xs = mset [0..<100] \<and> r_size g = 0 \<and> length (seeds g) = 100"
    using random_block [OF assms(1) _ _ x] assms(2,3) by fastforce
  let ?k = "map snd (filter (passes (lostrate s)) (zip xs (map fst ds)))"
  have e: "chooser peer (sim_sends peer ds s) = g"
    "map d_bytes (tunnel peer (sim_sends peer ds s)) = map d_bytes (tunnel peer s) @ take (room peer s) ?k"
    using sim_sends_tunnel [OF x] by simp_all
  have "length ?k = 100 - nat (lostrate s)" using passes_count [of xs 100 "map fst ds" "lostrate s"] b assms(3-5) by simp
  moreover have "length xs = 100" using random_draws_length [OF x] assms(3) by simp
  then have "subseq ?k (map fst ds)" using subseq_map [OF subseq_filter_left, of snd "passes (lostrate s)" "zip xs (map fst ds)"] assms(3) by simp
  moreover have "received @ map d_bytes (tunnel peer s') = map d_bytes (tunnel peer s) @ take (room peer s) ?k"
    using sim_recvs_tunnel [OF assms(6,7)] e(2) by simp
  moreover have "fst (sim_recv q maxsize now s') = Inr (d_bytes pkt)"
    if "tunnel peer s' = pkt # rest" "d_ts pkt \<le> iclock now" "int (length (d_bytes pkt)) \<le> maxsize" for pkt rest maxsize now
    using that assms(6) by (auto simp: sim_recv_def tunnel_def Let_def)
  ultimately show ?thesis using e(1) b unfolding room_def by blast
qed

definition burst :: "(u8 list \<times> send_io) list" where
  "burst = map (\<lambda>i. ([of_nat i], \<lparr>loss_rand = 7 * i, send_now = of_nat i, delay_rand = 3 * i\<rparr>)) [0..<100]"

theorem sim_loses_exactly_witness:
  "\<exists>received s'. sim_recvs 0 [(1500, 500), (1500, 500)] (sim_sends 1 burst (LatencySimulator_init 5 60 125 1000 9)) = (received, s') \<and>
     length received + length (tunnel 1 s') = 98"
proof -
  let ?s = "LatencySimulator_init 5 60 125 1000 9"
  obtain r s' where r: "sim_recvs 0 [(1500, 500), (1500, 500)] (sim_sends 1 burst ?s) = (r, s')"
    by (cases "sim_recvs 0 [(1500, 500), (1500, 500)] (sim_sends 1 burst ?s)")
  have "chooser 1 ?s = \<lparr>r_size = 0, seeds = replicate 100 0\<rparr>" "lostrate ?s = 2" "nmax ?s = 1000" "tunnel 1 ?s = []"
    by (simp_all add: LatencySimulator_init_def chooser_def tunnel_def Random_init_def cdiv_def)
  then obtain kept where "r @ map d_bytes (tunnel 1 s') = kept" "length kept = 98"
    using sim_loses_exactly [OF _ _ _ _ _ _ r] by (auto simp: burst_def)
  then have "length r + length (tunnel 1 s') = 98" using length_append [of r "map d_bytes (tunnel 1 s')"] by simp
  then show ?thesis using r by blast
qed

end
