(* ===== verification/Kcp_Test.thy ===== *)
theory Kcp_Test
  imports Kcp_Echo Latency_Sim
begin

text \<open>
  The test bench of KCP (\<open>test.cpp\<close>): two endpoints over the simulated network of \<open>Latency_Sim\<close>; one sends a number every 20 milliseconds, the other sends back what
  it receives.  Each round takes the readings of the clock and the results of \<open>rand\<close> as arguments.  Sleeping, output to the terminal and the release of the
  two control blocks are left out.
\<close>

section \<open>The test\<close>

definition TEST_CONV :: u32 where "TEST_CONV = 0x11223344"

definition test_kcp :: "int \<Rightarrow> bool \<Rightarrow> ikcpcb" where
  "test_kcp mode first =
     (let k = snd (ikcp_wndsize (ikcp_init TEST_CONV) 128 128) in
      if mode = 0 then snd (ikcp_nodelay k 0 10 0 0)
      else if mode = 1 then snd (ikcp_nodelay k 0 10 0 1)
      else
        let k = snd (ikcp_nodelay k 2 10 2 1)
        in if first then k\<lparr>k_rx_minrto := 10\<rparr> else k)"

record bench =
  kcp1 :: ikcpcb
  kcp2 :: ikcpcb
  vnet :: latency_sim
  b_slap :: u32
  b_index :: u32
  b_next :: u32
  sumrtt :: i64
  b_count :: int
  maxrtt :: int
  b_buffer :: "u8 list"

definition test_begin :: "int \<Rightarrow> i64 \<Rightarrow> i64 \<Rightarrow> u8 list \<Rightarrow> bench" where
  "test_begin mode now0 now buf =
     \<lparr>kcp1 = test_kcp mode True, kcp2 = test_kcp mode False, vnet = LatencySimulator_init 5 60 125 1000 now0,
      b_slap = iclock now + 20, b_index = 0, b_next = 0, sumrtt = 0, b_count = 0, maxrtt = 0, b_buffer = buf\<rparr>"

text \<open>What a round takes from outside: the clock at each reading, and what the network needs for each datagram.\<close>

record bench_io =
  io_now :: i64
  io_now1 :: i64
  io_now2 :: i64
  io_out1 :: "nat \<Rightarrow> send_io"
  io_out2 :: "nat \<Rightarrow> send_io"
  io_net1 :: "nat \<Rightarrow> i64"
  io_net2 :: "nat \<Rightarrow> i64"

definition bench_output :: "int \<Rightarrow> (nat \<Rightarrow> send_io) \<Rightarrow> u8 list list \<Rightarrow> latency_sim \<Rightarrow> latency_sim" where
  "bench_output peer f outs v = sim_sends peer (zip outs (map f [0..<length outs])) v"

text \<open>The numbered messages; the loop need not end near the wrap of the clock.\<close>

partial_function (option) send_loop :: "u32 \<Rightarrow> bench \<Rightarrow> bench option" where
  "send_loop current s =
     (if current \<ge> b_slap s then
        (let buf = over 0 (le_bytes 4 (ucast (b_index s))) (b_buffer s);
             buf = over 4 (le_bytes 4 (ucast current)) buf
         in Option.bind (ikcp_send (kcp1 s) (take 8 buf) 8) (\<lambda>(r, k).
              send_loop current (s\<lparr>kcp1 := k, b_buffer := buf, b_index := b_index s + 1, b_slap := b_slap s + 20\<rparr>)))
      else Some s)"

partial_function (option) net_loop :: "int \<Rightarrow> (nat \<Rightarrow> i64) \<Rightarrow> nat \<Rightarrow> latency_sim \<Rightarrow> ikcpcb \<Rightarrow> u8 list \<Rightarrow> (latency_sim \<times> ikcpcb \<times> u8 list) option" where
  "net_loop peer f i v k buf =
     (case sim_recv peer 2000 (f i) v of
        (Inl hr, v) \<Rightarrow> Some (v, k, buf)
      | (Inr d, v) \<Rightarrow>
          (let buf = over 0 d buf
           in Option.bind (ikcp_input k (take (length d) buf)) (\<lambda>(r, k). net_loop peer f (i + 1) v k buf)))"

partial_function (option) echo_loop :: "bench \<Rightarrow> bench option" where
  "echo_loop s =
     Option.bind (ikcp_recv (kcp2 s) 10) (\<lambda>(hr, bs, k).
       if hr < 0 then Some (s\<lparr>kcp2 := k\<rparr>)
       else
         let buf = over 0 bs (b_buffer s)
         in Option.bind (ikcp_send k (take (nat hr) buf) hr) (\<lambda>(r, k). echo_loop (s\<lparr>kcp2 := k, b_buffer := buf\<rparr>)))"

text \<open>\<open>Inl\<close> is the return with \<open>ERROR sn\<close>.\<close>

partial_function (option) collect_loop :: "u32 \<Rightarrow> bench \<Rightarrow> (bench + bench) option" where
  "collect_loop current s =
     Option.bind (ikcp_recv (kcp1 s) 10) (\<lambda>(hr, bs, k).
       let s = s\<lparr>kcp1 := k\<rparr> in
       if hr < 0 then Some (Inr s)
       else
         let s = s\<lparr>b_buffer := over 0 bs (b_buffer s)\<rparr>;
             sn = ucast (le_word (take 4 (b_buffer s)));
             ts = ucast (le_word (take 4 (drop 4 (b_buffer s))));
             rtt = current - ts
         in if sn \<noteq> b_next s then Some (Inl s)
            else collect_loop current (s\<lparr>b_next := b_next s + 1, sumrtt := sumrtt s + ucast rtt, b_count := b_count s + 1,
                   maxrtt := (if rtt > u32 (maxrtt s) then i32 rtt else maxrtt s)\<rparr>))"

declare send_loop.simps [code] net_loop.simps [code] echo_loop.simps [code] collect_loop.simps [code]

definition test_round :: "bench_io \<Rightarrow> bench \<Rightarrow> (bench + bench) option" where
  "test_round io s =
     (let current = iclock (io_now io);
          (outs, k) = ikcp_update (kcp1 s) (iclock (io_now1 io));
          s = s\<lparr>kcp1 := k, vnet := bench_output 0 (io_out1 io) outs (vnet s)\<rparr>;
          (outs, k) = ikcp_update (kcp2 s) (iclock (io_now2 io));
          s = s\<lparr>kcp2 := k, vnet := bench_output 1 (io_out2 io) outs (vnet s)\<rparr>
      in Option.bind (send_loop current s) (\<lambda>s.
         Option.bind (net_loop 1 (io_net1 io) 0 (vnet s) (kcp2 s) (b_buffer s)) (\<lambda>(v, k, buf).
         let s = s\<lparr>vnet := v, kcp2 := k, b_buffer := buf\<rparr> in
         Option.bind (net_loop 0 (io_net2 io) 0 (vnet s) (kcp1 s) (b_buffer s)) (\<lambda>(v, k, buf).
         let s = s\<lparr>vnet := v, kcp1 := k, b_buffer := buf\<rparr> in
         Option.bind (echo_loop s) (collect_loop current)))))"

datatype outcome = Running bench | Failed bench | Finished bench

fun test_run :: "bench_io list \<Rightarrow> bench \<Rightarrow> outcome option" where
  "test_run [] s = Some (Running s)"
| "test_run (io # ios) s =
     Option.bind (test_round io s) (\<lambda>x. case x of
       Inl s \<Rightarrow> Some (Failed s)
     | Inr s \<Rightarrow> if b_next s > 1000 then Some (Finished s) else test_run ios s)"

text \<open>The figures printed at the end: the average and the longest round trip, and the datagrams sent.\<close>

definition test_report :: "bench \<Rightarrow> int \<times> int \<times> int" where
  "test_report s = (cdiv (sint (sumrtt s)) (b_count s), maxrtt s, tx1 (vnet s))"


text \<open>In the last 20 milliseconds before the wrap the comparison with the wrapped \<open>slap\<close> holds for ever.\<close>

lemma send_loop_endless: "send_loop 0xffffffff s = None"
proof -
  have "c = 0xffffffff \<longrightarrow> False" if "send_loop c s = Some t" for c s t
  proof (rule send_loop.raw_induct [OF _ that])
    fix f c s t
    assume IH: "\<And>c s t. f c s = Some t \<Longrightarrow> c = 0xffffffff \<longrightarrow> False"
      and e: "(if b_slap s \<le> c
        then let buf = over 0 (le_bytes 4 (ucast (b_index s))) (b_buffer s); buf = over 4 (le_bytes 4 (ucast c)) buf
          in Option.bind (ikcp_send (kcp1 s) (take 8 buf) 8) (\<lambda>(r, k). f c (s\<lparr>kcp1 := k, b_buffer := buf, b_index := b_index s + 1, b_slap := b_slap s + 20\<rparr>))
        else Some s) = Some t"
    show "c = 0xffffffff \<longrightarrow> False"
    proof
      assume c: "c = 0xffffffff"
      then have "b_slap s \<le> c" using unsigned_less [of "b_slap s", where ?'a = nat] by (simp add: word_le_nat_alt)
      then show False using e IH c by (auto simp: Let_def bind_eq_Some_conv)
    qed
  qed
  then show ?thesis by (cases "send_loop 0xffffffff s") auto
qed

section \<open>Two endpoints at once\<close>

lemma duplex_grow: "duplex c True R hs n L gs j k \<Longrightarrow> duplex c True (R @ M) (hs @ gs') n L gs j k"
  using rx_append by (auto simp: duplex_def)

definition on_wire :: "(u32 \<times> u8 list) list \<Rightarrow> delay_packet list \<Rightarrow> bool" where
  "on_wire L ps \<longleftrightarrow> (\<forall>p\<in>set ps. wire_ok L TEST_CONV (d_bytes p) \<and> length (d_bytes p) \<le> 1400)"

lemma on_wire_append: "on_wire L ps \<Longrightarrow> on_wire (L @ M) ps"
  using wire_append by (auto simp: on_wire_def)

definition grown :: "(u32 \<times> u8 list) list \<Rightarrow> int \<Rightarrow> latency_sim \<Rightarrow> latency_sim \<Rightarrow> bool" where
  "grown L peer v v' \<longleftrightarrow> on_wire L (tunnel peer v') \<and> nmax v' = 1000 \<and> length (tunnel peer v') \<le> 1000 \<and>
     int (length (tunnel peer v')) - tries peer v' \<le> int (length (tunnel peer v)) - tries peer v \<and> tries peer v \<le> tries peer v' \<and>
     (\<forall>q. (q = 0) \<noteq> (peer = 0) \<longrightarrow> tunnel q v' = tunnel q v \<and> tries q v' = tries q v)"

lemma sim_sends_grown:
  assumes "on_wire L (tunnel peer v)" "\<forall>d\<in>set (map fst ds). wire_ok L TEST_CONV d \<and> length d \<le> 1400" "nmax v = 1000" "length (tunnel peer v) \<le> 1000"
  shows "grown L peer v (sim_sends peer ds v)"
  using assms
proof (induction ds arbitrary: v)
  case Nil
  then show ?case by (simp add: sim_sends_def grown_def)
next
  case (Cons di ds)
  obtain d io where di: "di = (d, io)" by (cases di)
  obtain x g where x: "random_draw (loss_rand io) (chooser peer v) = (x, g)" by (cases "random_draw (loss_rand io) (chooser peer v)")
  let ?v = "sim_send peer d io v"
  note e = sim_send_tunnel [OF x, where data = d]
  obtain t where t: "tunnel peer ?v = tunnel peer v @ (if int x < lostrate v \<or> nmax v \<le> int (length (tunnel peer v)) then [] else [\<lparr>d_bytes = d, d_ts = t\<rparr>])"
    using e(7) by blast
  have "on_wire L (tunnel peer ?v)" "nmax ?v = 1000" "length (tunnel peer ?v) \<le> 1000" "int (length (tunnel peer ?v)) \<le> int (length (tunnel peer v)) + 1"
    using Cons.prems t e(3) by (auto simp: on_wire_def di)
  moreover have "sim_sends peer (di # ds) v = sim_sends peer ds ?v" by (simp add: sim_sends_def di)
  ultimately show ?case using Cons.IH [of ?v] Cons.prems(2) e(4-6) by (auto simp: grown_def)
qed

lemma bench_output_grown:
  assumes "on_wire L (tunnel peer v)" "\<forall>d\<in>set outs. wire_ok L TEST_CONV d \<and> length d \<le> 1400" "nmax v = 1000" "length (tunnel peer v) \<le> 1000"
  shows "grown L peer v (bench_output peer f outs v)"
  unfolding bench_output_def by (rule sim_sends_grown) (use assms in simp_all)

text \<open>Taking from the network: a peer reads the queue of the other.\<close>

definition source :: "int \<Rightarrow> latency_sim \<Rightarrow> delay_packet list" where
  "source peer v = (if peer = 0 then p21 v else p12 v)"

definition same_sim :: "int \<Rightarrow> latency_sim \<Rightarrow> latency_sim \<Rightarrow> bool" where
  "same_sim peer v v' \<longleftrightarrow> tx1 v' = tx1 v \<and> tx2 v' = tx2 v \<and> nmax v' = nmax v \<and> (if peer = 0 then p12 v' = p12 v else p21 v' = p21 v)"

lemma net_loop_ok:
  assumes "duplex TEST_CONV True R hs n L gs j k" "peer_log R hs" "on_wire R (source peer v)" "n + length (source peer v) \<le> 2 ^ 24" "length buf = 2000"
  shows "\<exists>v' k' buf' m. net_loop peer f i v k buf = Some (v', k', buf') \<and> duplex TEST_CONV True R hs m L gs j k' \<and> on_wire R (source peer v') \<and>
    m + length (source peer v') = n + length (source peer v) \<and> n \<le> m \<and> same_sim peer v v' \<and> length buf' = 2000"
  using assms
proof (induction "length (source peer v)" arbitrary: n k v buf i rule: less_induct)
  case less
  obtain r v1 where r: "sim_recv peer 2000 (f i) v = (r, v1)" by (cases "sim_recv peer 2000 (f i) v")
  show ?case
  proof (cases r)
    case (Inl hr)
    then have "source peer v1 = source peer v" "same_sim peer v v1" using r by (auto simp: sim_recv_def source_def same_sim_def Let_def split: list.splits if_splits)
    then show ?thesis using r Inl less.prems by (intro exI [of _ v1] exI [of _ k] exI [of _ buf] exI [of _ n]) (simp add: net_loop.simps)
  next
    case (Inr d)
    then obtain pkt where s: "source peer v = pkt # source peer v1" "d_bytes pkt = d" "same_sim peer v v1"
      using r by (auto simp: sim_recv_def source_def same_sim_def Let_def split: list.splits if_splits)
    have d: "wire_ok R TEST_CONV d" "length d \<le> 1400" using less.prems(3) s(1,2) by (auto simp: on_wire_def)
    have n: "n < 2 ^ 24" "n + 1 + length (source peer v1) \<le> 2 ^ 24" using less.prems(4) s(1) by simp_all
    have buf: "take (length d) (over 0 d buf) = d" "length (over 0 d buf) = 2000" using d(2) less.prems(5) by (simp_all add: over_def)
    have d15: "length d \<le> 1500" using d(2) by simp
    obtain q k1 where k1: "ikcp_input k d = Some (q, k1)" "duplex TEST_CONV True R hs (n + 1) L gs j k1"
      using duplex_input [OF less.prems(1,2) n(1) d(1) d15] by blast
    have w: "on_wire R (source peer v1)" using less.prems(3) s(1) by (simp add: on_wire_def)
    obtain v' k' buf' m where h: "net_loop peer f (i + 1) v1 k1 (over 0 d buf) = Some (v', k', buf')" "duplex TEST_CONV True R hs m L gs j k'"
      "on_wire R (source peer v')" "m + length (source peer v') = n + 1 + length (source peer v1)" "n + 1 \<le> m" "same_sim peer v1 v'" "length buf' = 2000"
      using less.hyps [OF _ k1(2) less.prems(2) w n(2) buf(2), of "i + 1"] s(1) by auto
    have "net_loop peer f i v k buf = Some (v', k', buf')" using r Inr buf(1) k1(1) h(1) by (simp add: net_loop.simps [of peer f i])
    moreover have "same_sim peer v v'" using s(3) h(6) by (auto simp: same_sim_def)
    ultimately show ?thesis using h s(1) by auto
  qed
qed


section \<open>The messages\<close>

definition numbered :: "(u32 \<times> u8 list) list list \<Rightarrow> bool" where
  "numbered gs \<longleftrightarrow> (\<forall>i<length gs. length (bytes_of (gs ! i)) = 8 \<and> take 4 (bytes_of (gs ! i)) = le_bytes 4 (of_nat i))"

lemma numbered_append:
  assumes "numbered gs" "length (bytes_of g) = 8" "take 4 (bytes_of g) = le_bytes 4 (of_nat (length gs))"
  shows "numbered (gs @ [g])"
  using assms by (auto simp: numbered_def nth_append less_Suc_eq)

lemma read_number:
  assumes "n < 2 ^ 32"
  shows "(ucast (le_word (le_bytes 4 (of_nat n))) :: u32) = of_nat n"
proof -
  have "le_word (le_bytes 4 (of_nat n)) = take_bit 32 (of_nat n)" by (simp add: le_word_bytes)
  then show ?thesis by simp (rule bit_word_eqI, simp add: bit_simps)
qed

text \<open>The state of the first endpoint as a sender: the messages and the time of the next.\<close>

definition paced :: "nat \<Rightarrow> (u32 \<times> u8 list) list list \<Rightarrow> bench \<Rightarrow> bool" where
  "paced start gs s \<longleftrightarrow> numbered gs \<and> length gs = unat (b_index s) \<and> unat (b_slap s) = start + 20 * (length gs + 1) \<and> length (b_buffer s) = 2000"

lemma send_loop_ok:
  assumes "duplex TEST_CONV True R hs n L gs j (kcp1 s)" "paced start gs s" "unat current \<le> start + limit" "start + limit + 20 < 2 ^ 32" "limit \<le> 2 ^ 26"
    "n + limit div 20 + 1 \<le> 2 ^ 24 + length gs" "unat (b_slap s) \<le> start + limit + 20"
  shows "\<exists>t gs' m. send_loop current s = Some t \<and> duplex TEST_CONV True R hs m L (gs @ gs') j (kcp1 t) \<and> paced start (gs @ gs') t \<and>
    unat (b_slap t) \<le> start + limit + 20 \<and> m = n + length gs' \<and>
    kcp2 t = kcp2 s \<and> vnet t = vnet s \<and> b_next t = b_next s \<and> b_count t = b_count s"
  using assms
proof (induction "unat current + 20 - unat (b_slap s)" arbitrary: s n gs rule: less_induct)
  case less
  show ?case
  proof (cases "b_slap s \<le> current")
    case False
    then show ?thesis using less.prems by (intro exI [of _ s] exI [of _ "[]"] exI [of _ n]) (simp add: send_loop.simps)
  next
    case True
    let ?b = "over 4 (le_bytes 4 (ucast current)) (over 0 (le_bytes 4 (ucast (b_index s))) (b_buffer s))"
    have p: "numbered gs" "length gs = unat (b_index s)" "unat (b_slap s) = start + 20 * (length gs + 1)" "length (b_buffer s) = 2000"
      using less.prems(2) by (simp_all add: paced_def)
    have le: "unat (b_slap s) \<le> unat current" using True by (simp add: word_le_nat_alt)
    have len: "length ?b = 2000" using p(4) by (simp add: over_length le_bytes_length)
    have m: "length (take 8 ?b) = 8" using len by simp
    have k: "length gs * 20 \<le> limit" using le less.prems(3) p(3) by simp
    then have few: "length gs + 1 < 2 ^ 32" using less.prems(5) by simp
    have "ucast (b_index s) = (of_nat (length gs) :: i64)" unfolding p(2) by simp
    moreover have "take 4 (take 8 ?b) = le_bytes 4 (ucast (b_index s))"
    proof -
      have "take 4 (drop 0 ?b) = take 4 (drop 0 (over 0 (le_bytes 4 (ucast (b_index s))) (b_buffer s)))"
        using p(4) by (intro over_read(2)) (simp_all add: over_length le_bytes_length)
      also have "\<dots> = le_bytes 4 (ucast (b_index s))" using over_read(1) [of 0 "le_bytes 4 (ucast (b_index s))" "b_buffer s"] p(4) by (simp add: le_bytes_length)
      finally show ?thesis by simp
    qed
    ultimately have num: "take 4 (take 8 ?b) = le_bytes 4 (of_nat (length gs))" by simp
    have "length (take 8 ?b) \<le> 1500" using m by simp
    then obtain k g where g: "ikcp_send (kcp1 s) (take 8 ?b) 8 = Some (0, k)" "bytes_of g = take 8 ?b" "duplex TEST_CONV True R hs (n + 1) L (gs @ [g]) j k"
      using duplex_send [OF less.prems(1), of "take 8 ?b"] m by auto
    let ?s = "s\<lparr>kcp1 := k, b_buffer := ?b, b_index := b_index s + 1, b_slap := b_slap s + 20\<rparr>"
    have idx: "unat (b_index s + 1) = length gs + 1" using few p(2) by (simp add: unat_word_ariths)
    have slap: "unat (b_slap s + 20) = unat (b_slap s) + 20" using le less.prems(3,4) by (simp add: unat_word_ariths)
    have paced: "paced start (gs @ [g]) ?s" using numbered_append [OF p(1), of g] g(2) m num idx slap p(3) len by (simp add: paced_def)
    have next_: "n + 1 + limit div 20 + 1 \<le> 2 ^ 24 + length (gs @ [g])" "unat (b_slap ?s) \<le> start + limit + 20"
      using less.prems(3,6) slap le by simp_all
    have "unat current + 20 - unat (b_slap ?s) < unat current + 20 - unat (b_slap s)" using slap le by simp
    then obtain t gs' m' where t: "send_loop current ?s = Some t" "duplex TEST_CONV True R hs m' L ((gs @ [g]) @ gs') j (kcp1 t)" "paced start ((gs @ [g]) @ gs') t"
      "unat (b_slap t) \<le> start + limit + 20" "m' = n + 1 + length gs'" "kcp2 t = kcp2 ?s" "vnet t = vnet ?s" "b_next t = b_next ?s" "b_count t = b_count ?s"
      using less.hyps [where s = ?s and n = "n + 1" and gs = "gs @ [g]"] less.prems(3-5) g(3) paced next_ by auto
    have "send_loop current s = Some t" using True g(1) t(1) by (simp add: send_loop.simps [of current s] Let_def)
    then show ?thesis using t by (intro exI [of _ t] exI [of _ "g # gs'"] exI [of _ m']) simp
  qed
qed

lemma echo_loop_ok:
  assumes "duplex TEST_CONV True R hs n L gs j (kcp2 s)" "peer_log R hs" "numbered hs" "map bytes_of gs = map bytes_of (take j hs)" "length (b_buffer s) = 2000"
  shows "\<exists>t gs' i. echo_loop s = Some t \<and> duplex TEST_CONV True R hs (n + (i - j)) L (gs @ gs') i (kcp2 t) \<and> j \<le> i \<and>
    map bytes_of (gs @ gs') = map bytes_of (take i hs) \<and> length (b_buffer t) = 2000 \<and> (\<exists>k b. t = s\<lparr>kcp2 := k, b_buffer := b\<rparr>)"
  using assms
proof (induction "length hs - j" arbitrary: s n gs j rule: less_induct)
  case less
  have ten: "(0::int) \<le> 10" by simp
  obtain r bs k where r: "ikcp_recv (kcp2 s) 10 = Some (r, bs, k)" and d: "if r < 0 then duplex TEST_CONV True R hs n L gs j k
      else r = int (length bs) \<and> r \<le> 10 \<and> (True \<longrightarrow> j < length hs \<and> bs = bytes_of (hs ! j)) \<and> duplex TEST_CONV True R hs n L gs (Suc j) k"
    using duplex_recv [OF less.prems(1,2) ten] by blast
  show ?case
  proof (cases "r < 0")
    case True
    then show ?thesis using r d less.prems(4,5)
      by (intro exI [of _ "s\<lparr>kcp2 := k\<rparr>"] exI [of _ "[]"] exI [of _ j] conjI exI [of _ k] exI [of _ "b_buffer s"]) (simp_all add: echo_loop.simps [of s])
  next
    case False
    then have b: "r = int (length bs)" "length bs \<le> 10" "j < length hs" "bs = bytes_of (hs ! j)" "duplex TEST_CONV True R hs n L gs (Suc j) k" using d by auto
    let ?b = "over 0 bs (b_buffer s)"
    have buf: "take (nat r) ?b = bs" "length ?b = 2000" using b(1,2) less.prems(5) by (simp_all add: over_def)
    have bs: "length bs \<le> 1500" using b(2) by simp
    obtain k' g where g: "ikcp_send k bs r = Some (0, k')" "bytes_of g = bs" "duplex TEST_CONV True R hs (n + 1) L (gs @ [g]) (Suc j) k'"
      using duplex_send [OF b(5) bs] b(1) by auto
    let ?s = "s\<lparr>kcp2 := k', b_buffer := ?b\<rparr>"
    have m: "map bytes_of (gs @ [g]) = map bytes_of (take (Suc j) hs)" using less.prems(4) g(2) b(3,4) by (simp add: take_Suc_conv_app_nth)
    have "length hs - Suc j < length hs - j" using b(3) by simp
    then have "\<exists>t gs' i. echo_loop ?s = Some t \<and> duplex TEST_CONV True R hs (n + 1 + (i - Suc j)) L ((gs @ [g]) @ gs') i (kcp2 t) \<and> Suc j \<le> i \<and>
      map bytes_of ((gs @ [g]) @ gs') = map bytes_of (take i hs) \<and> length (b_buffer t) = 2000 \<and> (\<exists>k b. t = ?s\<lparr>kcp2 := k, b_buffer := b\<rparr>)"
      by (rule less.hyps) (use g(3) less.prems(2,3) m buf(2) in simp_all)
    then obtain t gs' i where t: "echo_loop ?s = Some t" "duplex TEST_CONV True R hs (n + 1 + (i - Suc j)) L ((gs @ [g]) @ gs') i (kcp2 t)" "Suc j \<le> i"
      "map bytes_of ((gs @ [g]) @ gs') = map bytes_of (take i hs)" "length (b_buffer t) = 2000" "\<exists>k b. t = ?s\<lparr>kcp2 := k, b_buffer := b\<rparr>" by blast
    have "echo_loop s = Some t" using r False buf(1) g(1) t(1) by (simp add: echo_loop.simps [of s] Let_def)
    moreover have "n + 1 + (i - Suc j) = n + (i - j)" using t(3) by simp
    ultimately show ?thesis using t by (intro exI [of _ t] exI [of _ "g # gs'"] exI [of _ i]) auto
  qed
qed


lemma numbered_copy: "map bytes_of hs = map bytes_of (take m gs) \<Longrightarrow> numbered gs \<Longrightarrow> numbered hs"
proof -
  assume e: "map bytes_of hs = map bytes_of (take m gs)" and n: "numbered gs"
  have len: "length hs \<le> length gs" using arg_cong [OF e, of length] by simp
  have "bytes_of (hs ! i) = bytes_of (gs ! i)" if "i < length hs" for i
    using arg_cong [OF e, of "\<lambda>xs. xs ! i"] that arg_cong [OF e, of length] by simp
  then show ?thesis using n len by (simp add: numbered_def)
qed

lemma collect_loop_ok:
  assumes "duplex TEST_CONV True R hs n L gs j (kcp1 s)" "peer_log R hs" "numbered hs" "length hs < 2 ^ 32" "length (b_buffer s) = 2000"
    "b_next s = of_nat j" "b_count s = int j"
  shows "\<exists>t i. collect_loop current s = Some (Inr t) \<and> duplex TEST_CONV True R hs n L gs i (kcp1 t) \<and>
    b_next t = of_nat i \<and> b_count t = int i \<and> length (b_buffer t) = 2000 \<and>
    kcp2 t = kcp2 s \<and> vnet t = vnet s \<and> b_slap t = b_slap s \<and> b_index t = b_index s"
  using assms
proof (induction "length hs - j" arbitrary: s j rule: less_induct)
  case less
  have ten: "(0::int) \<le> 10" by simp
  obtain r bs k where r: "ikcp_recv (kcp1 s) 10 = Some (r, bs, k)" and d: "if r < 0 then duplex TEST_CONV True R hs n L gs j k
      else r = int (length bs) \<and> r \<le> 10 \<and> (True \<longrightarrow> j < length hs \<and> bs = bytes_of (hs ! j)) \<and> duplex TEST_CONV True R hs n L gs (Suc j) k"
    using duplex_recv [OF less.prems(1,2) ten] by blast
  show ?case
  proof (cases "r < 0")
    case True
    then show ?thesis using r d less.prems(5-7) by (intro exI [of _ "s\<lparr>kcp1 := k\<rparr>"] exI [of _ j]) (simp add: collect_loop.simps [of current s])
  next
    case False
    then have b: "j < length hs" "bs = bytes_of (hs ! j)" "duplex TEST_CONV True R hs n L gs (Suc j) k" using d by auto
    have len: "length bs = 8" and num: "take 4 bs = le_bytes 4 (of_nat j)" using less.prems(3) b(1,2) by (simp_all add: numbered_def)
    let ?b = "over 0 bs (b_buffer s)"
    have buf: "take 4 ?b = le_bytes 4 (of_nat j)" "length ?b = 2000" using len num less.prems(5) by (simp_all add: over_def)
    have sn: "ucast (le_word (take 4 ?b)) = b_next s" unfolding buf(1) less.prems(6) by (rule read_number) (use b(1) less.prems(4) in simp)
    define rtt where "rtt = current - ucast (le_word (take 4 (drop 4 ?b)))"
    let ?s = "s\<lparr>kcp1 := k, b_buffer := ?b, b_next := b_next s + 1, sumrtt := sumrtt s + ucast rtt, b_count := b_count s + 1,
      maxrtt := (if rtt > u32 (maxrtt s) then i32 rtt else maxrtt s)\<rparr>"
    have "length hs - Suc j < length hs - j" using b(1) by simp
    then have "\<exists>t i. collect_loop current ?s = Some (Inr t) \<and> duplex TEST_CONV True R hs n L gs i (kcp1 t) \<and>
      b_next t = of_nat i \<and> b_count t = int i \<and> length (b_buffer t) = 2000 \<and>
      kcp2 t = kcp2 ?s \<and> vnet t = vnet ?s \<and> b_slap t = b_slap ?s \<and> b_index t = b_index ?s"
      by (rule less.hyps) (use b(3) less.prems(2-4,6,7) buf(2) in simp_all)
    moreover have "collect_loop current s = collect_loop current ?s"
      using r False sn by (simp add: collect_loop.simps [of current s] rtt_def Let_def)
    ultimately show ?thesis by simp
  qed
qed

section \<open>The bench in every run\<close>

definition bench_ok :: "nat \<Rightarrow> nat \<Rightarrow> nat \<Rightarrow> nat \<Rightarrow> (u32 \<times> u8 list) list \<Rightarrow> (u32 \<times> u8 list) list list \<Rightarrow> nat \<Rightarrow>
    (u32 \<times> u8 list) list \<Rightarrow> (u32 \<times> u8 list) list list \<Rightarrow> nat \<Rightarrow> bench \<Rightarrow> bool" where
  "bench_ok start limit n1 n2 L1 G1 j1 L2 G2 j2 s \<longleftrightarrow>
     duplex TEST_CONV True L2 G2 n1 L1 G1 j1 (kcp1 s) \<and> duplex TEST_CONV True L1 G1 n2 L2 G2 j2 (kcp2 s) \<and>
     on_wire L1 (p12 (vnet s)) \<and> on_wire L2 (p21 (vnet s)) \<and> nmax (vnet s) = 1000 \<and> length (p12 (vnet s)) \<le> 1000 \<and> length (p21 (vnet s)) \<le> 1000 \<and>
     paced start G1 s \<and> unat (b_slap s) \<le> start + limit + 20 \<and>
     map bytes_of G2 = map bytes_of (take j2 G1) \<and> b_next s = of_nat j1 \<and> b_count s = int j1 \<and> 0 \<le> tx1 (vnet s) \<and> 0 \<le> tx2 (vnet s) \<and>
     int (n1 + length (p21 (vnet s))) \<le> tx2 (vnet s) + int (length G1) \<and> int (n2 + length (p12 (vnet s))) \<le> tx1 (vnet s) + int j2"

lemma bench_sizes:
  assumes "bench_ok start limit n1 n2 L1 G1 j1 L2 G2 j2 s"
  shows "20 * length G1 \<le> limit" "j2 \<le> length G1" "j1 \<le> length G2" "length G2 \<le> length G1"
proof -
  show "20 * length G1 \<le> limit" "j2 \<le> length G1" "j1 \<le> length G2" using assms by (simp_all add: bench_ok_def paced_def duplex_def)
  have "map bytes_of G2 = map bytes_of (take j2 G1)" using assms by (simp add: bench_ok_def)
  then have "length G2 = length (take j2 G1)" by (metis length_map)
  then show "length G2 \<le> length G1" by simp
qed

lemma bench_counts:
  assumes "bench_ok start limit n1 n2 L1 G1 j1 L2 G2 j2 s" "limit \<le> 2 ^ 26" "tx1 (vnet s) + tx2 (vnet s) < 2 ^ 23"
  shows "n1 \<le> 2 ^ 23 + length G1" "n2 \<le> 2 ^ 23 + length G1" "length G1 \<le> 3355443"
proof -
  have "int n1 \<le> tx2 (vnet s) + int (length G1)" "int n2 \<le> tx1 (vnet s) + int j2" "0 \<le> tx1 (vnet s)" "0 \<le> tx2 (vnet s)" using assms(1) by (simp_all add: bench_ok_def)
  then show "n1 \<le> 2 ^ 23 + length G1" "n2 \<le> 2 ^ 23 + length G1" "length G1 \<le> 3355443" using bench_sizes [OF assms(1)] assms(2,3) by simp_all
qed

lemma paced_frame:
  "paced start gs (s\<lparr>kcp1 := k, vnet := v\<rparr>) = paced start gs s" "paced start gs (s\<lparr>kcp2 := k, vnet := v\<rparr>) = paced start gs s"
  "length buf = 2000 \<Longrightarrow> paced start gs s \<Longrightarrow> paced start gs (s\<lparr>vnet := v, kcp2 := k, b_buffer := buf\<rparr>)"
  "length buf = 2000 \<Longrightarrow> paced start gs s \<Longrightarrow> paced start gs (s\<lparr>vnet := v, kcp1 := k, b_buffer := buf\<rparr>)"
  "length buf = 2000 \<Longrightarrow> paced start gs s \<Longrightarrow> paced start gs (s\<lparr>kcp2 := k, b_buffer := buf\<rparr>)"
  by (simp_all add: paced_def)

lemma bench_update1:
  assumes "bench_ok start limit n1 n2 L1 G1 j1 L2 G2 j2 s" "n1 \<le> 2 ^ 24" "ikcp_update (kcp1 s) now = (outs, k)"
  shows "\<exists>M. bench_ok start limit n1 n2 (L1 @ M) G1 j1 L2 G2 j2 (s\<lparr>kcp1 := k, vnet := bench_output 0 f outs (vnet s)\<rparr>)"
proof -
  note b = assms(1) [unfolded bench_ok_def]
  obtain M where M: "duplex TEST_CONV True L2 G2 n1 (L1 @ M) G1 j1 k" "\<forall>d\<in>set outs. wire_ok (L1 @ M) TEST_CONV d \<and> length d \<le> 1400"
    using duplex_update [OF _ assms(2,3)] b by blast
  have "on_wire (L1 @ M) (tunnel 0 (vnet s))" using b on_wire_append by (simp add: tunnel_def)
  then have g: "grown (L1 @ M) 0 (vnet s) (bench_output 0 f outs (vnet s))"
    by (rule bench_output_grown) (use b M(2) in \<open>simp_all add: tunnel_def\<close>)
  have "p21 (bench_output 0 f outs (vnet s)) = p21 (vnet s) \<and> tx2 (bench_output 0 f outs (vnet s)) = tx2 (vnet s)"
    using g spec [of "\<lambda>q. (q = 0) \<noteq> ((0::int) = 0) \<longrightarrow> tunnel q (bench_output 0 f outs (vnet s)) = tunnel q (vnet s) \<and>
      tries q (bench_output 0 f outs (vnet s)) = tries q (vnet s)" 1] by (simp add: grown_def tunnel_def tries_def)
  moreover have "duplex TEST_CONV True (L1 @ M) G1 n2 L2 G2 j2 (kcp2 s)" using duplex_grow [of _ L1 G1 n2 L2 G2 j2 "kcp2 s" M "[]"] b by simp
  ultimately show ?thesis using b M(1) g by (intro exI [of _ M]) (simp add: bench_ok_def paced_frame grown_def tunnel_def tries_def)
qed

lemma bench_update2:
  assumes "bench_ok start limit n1 n2 L1 G1 j1 L2 G2 j2 s" "n2 \<le> 2 ^ 24" "ikcp_update (kcp2 s) now = (outs, k)"
  shows "\<exists>M. bench_ok start limit n1 n2 L1 G1 j1 (L2 @ M) G2 j2 (s\<lparr>kcp2 := k, vnet := bench_output 1 f outs (vnet s)\<rparr>)"
proof -
  note b = assms(1) [unfolded bench_ok_def]
  obtain M where M: "duplex TEST_CONV True L1 G1 n2 (L2 @ M) G2 j2 k" "\<forall>d\<in>set outs. wire_ok (L2 @ M) TEST_CONV d \<and> length d \<le> 1400"
    using duplex_update [OF _ assms(2,3)] b by blast
  have "on_wire (L2 @ M) (tunnel 1 (vnet s))" using b on_wire_append by (simp add: tunnel_def)
  then have g: "grown (L2 @ M) 1 (vnet s) (bench_output 1 f outs (vnet s))"
    by (rule bench_output_grown) (use b M(2) in \<open>simp_all add: tunnel_def\<close>)
  have "p12 (bench_output 1 f outs (vnet s)) = p12 (vnet s) \<and> tx1 (bench_output 1 f outs (vnet s)) = tx1 (vnet s)"
    using g spec [of "\<lambda>q. (q = 0) \<noteq> ((1::int) = 0) \<longrightarrow> tunnel q (bench_output 1 f outs (vnet s)) = tunnel q (vnet s) \<and>
      tries q (bench_output 1 f outs (vnet s)) = tries q (vnet s)" 0] by (simp add: grown_def tunnel_def tries_def)
  moreover have "duplex TEST_CONV True (L2 @ M) G2 n1 L1 G1 j1 (kcp1 s)" using duplex_grow [of _ L2 G2 n1 L1 G1 j1 "kcp1 s" M "[]"] b by simp
  ultimately show ?thesis using b M(1) g by (intro exI [of _ M]) (simp add: bench_ok_def paced_frame grown_def tunnel_def tries_def)
qed

lemma bench_send:
  assumes "bench_ok start limit n1 n2 L1 G1 j1 L2 G2 j2 s" "unat current \<le> start + limit" "start + limit + 20 < 2 ^ 32" "limit \<le> 2 ^ 26" "n1 \<le> 2 ^ 23 + 2 ^ 22"
  shows "\<exists>t gs'. send_loop current s = Some t \<and> bench_ok start limit (n1 + length gs') n2 L1 (G1 @ gs') j1 L2 G2 j2 t"
proof -
  note b = assms(1) [unfolded bench_ok_def]
  have d: "duplex TEST_CONV True L2 G2 n1 L1 G1 j1 (kcp1 s)" "paced start G1 s" "unat (b_slap s) \<le> start + limit + 20" using b by simp_all
  have n: "n1 + limit div 20 + 1 \<le> 2 ^ 24 + length G1" using assms(4,5) by simp
  obtain t gs' where t: "send_loop current s = Some t" "duplex TEST_CONV True L2 G2 (n1 + length gs') L1 (G1 @ gs') j1 (kcp1 t)" "paced start (G1 @ gs') t"
    "unat (b_slap t) \<le> start + limit + 20" "kcp2 t = kcp2 s" "vnet t = vnet s" "b_next t = b_next s" "b_count t = b_count s"
    using send_loop_ok [OF d(1,2) assms(2-4) n d(3)] by blast
  have "duplex TEST_CONV True L1 (G1 @ gs') n2 L2 G2 j2 (kcp2 t)" using duplex_grow [of _ L1 G1 n2 L2 G2 j2 "kcp2 s" "[]" gs'] b t(5) by simp
  moreover have "j2 \<le> length G1" using b by (simp add: duplex_def)
  ultimately show ?thesis using b t by (intro exI [of _ t] exI [of _ gs']) (simp add: bench_ok_def)
qed

lemma bench_net1:
  assumes "bench_ok start limit n1 n2 L1 G1 j1 L2 G2 j2 s" "n1 \<le> 2 ^ 24" "n2 + 1000 \<le> 2 ^ 24"
  shows "\<exists>v k buf m. net_loop 1 f 0 (vnet s) (kcp2 s) (b_buffer s) = Some (v, k, buf) \<and> m \<le> n2 + 1000 \<and>
    bench_ok start limit n1 m L1 G1 j1 L2 G2 j2 (s\<lparr>vnet := v, kcp2 := k, b_buffer := buf\<rparr>)"
proof -
  note b = assms(1) [unfolded bench_ok_def]
  have "duplex TEST_CONV True L1 G1 n2 L2 G2 j2 (kcp2 s)" "peer_log L1 G1" "on_wire L1 (source 1 (vnet s))" "n2 + length (source 1 (vnet s)) \<le> 2 ^ 24"
    "length (b_buffer s) = 2000" using b assms(2,3) duplex_peer by (auto simp: source_def paced_def)
  then obtain v k buf m where v: "net_loop 1 f 0 (vnet s) (kcp2 s) (b_buffer s) = Some (v, k, buf)" "duplex TEST_CONV True L1 G1 m L2 G2 j2 k"
    "on_wire L1 (source 1 v)" "m + length (source 1 v) = n2 + length (source 1 (vnet s))" "n2 \<le> m" "same_sim 1 (vnet s) v" "length buf = 2000"
    using net_loop_ok by blast
  have m: "m + length (p12 v) = n2 + length (p12 (vnet s))" and less: "length (p12 v) \<le> length (p12 (vnet s))" using v(4,5) by (simp_all add: source_def)
  have "bench_ok start limit n1 m L1 G1 j1 L2 G2 j2 (s\<lparr>vnet := v, kcp2 := k, b_buffer := buf\<rparr>)"
    using b v(2,3,6) m less paced_frame(3) [OF v(7)] by (simp add: bench_ok_def source_def same_sim_def)
  moreover have "m \<le> n2 + 1000" using b m by simp
  ultimately show ?thesis using v(1) by blast
qed

lemma bench_net0:
  assumes "bench_ok start limit n1 n2 L1 G1 j1 L2 G2 j2 s" "n2 \<le> 2 ^ 24" "n1 + 1000 \<le> 2 ^ 24"
  shows "\<exists>v k buf m. net_loop 0 f 0 (vnet s) (kcp1 s) (b_buffer s) = Some (v, k, buf) \<and> m \<le> n1 + 1000 \<and>
    bench_ok start limit m n2 L1 G1 j1 L2 G2 j2 (s\<lparr>vnet := v, kcp1 := k, b_buffer := buf\<rparr>)"
proof -
  note b = assms(1) [unfolded bench_ok_def]
  have "duplex TEST_CONV True L2 G2 n1 L1 G1 j1 (kcp1 s)" "peer_log L2 G2" "on_wire L2 (source 0 (vnet s))" "n1 + length (source 0 (vnet s)) \<le> 2 ^ 24"
    "length (b_buffer s) = 2000" using b assms(2,3) duplex_peer by (auto simp: source_def paced_def)
  then obtain v k buf m where v: "net_loop 0 f 0 (vnet s) (kcp1 s) (b_buffer s) = Some (v, k, buf)" "duplex TEST_CONV True L2 G2 m L1 G1 j1 k"
    "on_wire L2 (source 0 v)" "m + length (source 0 v) = n1 + length (source 0 (vnet s))" "n1 \<le> m" "same_sim 0 (vnet s) v" "length buf = 2000"
    using net_loop_ok by blast
  have m: "m + length (p21 v) = n1 + length (p21 (vnet s))" and less: "length (p21 v) \<le> length (p21 (vnet s))" using v(4,5) by (simp_all add: source_def)
  have "bench_ok start limit m n2 L1 G1 j1 L2 G2 j2 (s\<lparr>vnet := v, kcp1 := k, b_buffer := buf\<rparr>)"
    using b v(2,3,6) m less paced_frame(4) [OF v(7)] by (simp add: bench_ok_def source_def same_sim_def)
  moreover have "m \<le> n1 + 1000" using b m by simp
  ultimately show ?thesis using v(1) by blast
qed

lemma bench_echo:
  assumes "bench_ok start limit n1 n2 L1 G1 j1 L2 G2 j2 s" "n1 \<le> 2 ^ 24"
  shows "\<exists>t m gs' i. echo_loop s = Some t \<and> bench_ok start limit n1 m L1 G1 j1 L2 (G2 @ gs') i t \<and> m \<le> n2 + length G1"
proof -
  note b = assms(1) [unfolded bench_ok_def]
  have d: "duplex TEST_CONV True L1 G1 n2 L2 G2 j2 (kcp2 s)" "peer_log L1 G1" "numbered G1" "map bytes_of G2 = map bytes_of (take j2 G1)" "length (b_buffer s) = 2000"
    using b assms(2) duplex_peer by (auto simp: paced_def)
  obtain t gs' i where t: "echo_loop s = Some t" "duplex TEST_CONV True L1 G1 (n2 + (i - j2)) L2 (G2 @ gs') i (kcp2 t)" "j2 \<le> i"
    "map bytes_of (G2 @ gs') = map bytes_of (take i G1)" "length (b_buffer t) = 2000" "\<exists>k b. t = s\<lparr>kcp2 := k, b_buffer := b\<rparr>" using echo_loop_ok [OF d] by blast
  obtain k buf where k: "t = s\<lparr>kcp2 := k, b_buffer := buf\<rparr>" using t(6) by blast
  have i: "i \<le> length G1" using t(2) by (simp add: duplex_def)
  have "duplex TEST_CONV True L2 (G2 @ gs') n1 L1 G1 j1 (kcp1 s)" using duplex_grow [of _ L2 G2 n1 L1 G1 j1 "kcp1 s" "[]" gs'] b by simp
  then have "bench_ok start limit n1 (n2 + (i - j2)) L1 G1 j1 L2 (G2 @ gs') i t"
    using b t(2-5) paced_frame(5) [of buf start G1 s k] by (simp add: bench_ok_def k)
  moreover have "n2 + (i - j2) \<le> n2 + length G1" using i by simp
  ultimately show ?thesis using t(1) by blast
qed

lemma bench_collect:
  assumes "bench_ok start limit n1 n2 L1 G1 j1 L2 G2 j2 s" "n2 \<le> 2 ^ 24" "length G2 < 2 ^ 32"
  shows "\<exists>t i. collect_loop current s = Some (Inr t) \<and> bench_ok start limit n1 n2 L1 G1 i L2 G2 j2 t"
proof -
  note b = assms(1) [unfolded bench_ok_def]
  have d: "duplex TEST_CONV True L2 G2 n1 L1 G1 j1 (kcp1 s)" "peer_log L2 G2" "length (b_buffer s) = 2000" "b_next s = of_nat j1" "b_count s = int j1"
    using b assms(2) duplex_peer by (auto simp: paced_def)
  have "numbered G2" using numbered_copy [of G2 j2 G1] b by (simp add: paced_def)
  then obtain t i where t: "collect_loop current s = Some (Inr t)" "duplex TEST_CONV True L2 G2 n1 L1 G1 i (kcp1 t)"
    "b_next t = of_nat i" "b_count t = int i" "length (b_buffer t) = 2000" "kcp2 t = kcp2 s" "vnet t = vnet s" "b_slap t = b_slap s" "b_index t = b_index s"
    using collect_loop_ok [OF d(1,2) _ assms(3) d(3-5)] by blast
  moreover from this have "paced start G1 t" using b by (simp add: paced_def)
  ultimately have "bench_ok start limit n1 n2 L1 G1 i L2 G2 j2 t" using b by (simp add: bench_ok_def)
  then show ?thesis using t(1) by blast
qed

lemma test_round_ok:
  assumes "bench_ok start limit n1 n2 L1 G1 j1 L2 G2 j2 s" "tx1 (vnet s) + tx2 (vnet s) < 2 ^ 23" "limit \<le> 2 ^ 26" "start + limit + 20 < 2 ^ 32"
    and "unat (iclock (io_now io)) \<le> start + limit"
  shows "\<exists>t n1 n2 L1 G1 j1 L2 G2 j2. test_round io s = Some (Inr t) \<and> bench_ok start limit n1 n2 L1 G1 j1 L2 G2 j2 t"
proof -
  have n: "n1 \<le> 2 ^ 23 + length G1" "n2 \<le> 2 ^ 23 + length G1" "length G1 \<le> 3355443" using bench_counts [OF assms(1,3,2)] by simp_all
  then have small: "n1 \<le> 2 ^ 24" "n2 \<le> 2 ^ 24" "n1 \<le> 2 ^ 23 + 2 ^ 22" by simp_all
  obtain o1 k1 where u1: "ikcp_update (kcp1 s) (iclock (io_now1 io)) = (o1, k1)" by (cases "ikcp_update (kcp1 s) (iclock (io_now1 io))")
  define s1 where "s1 = s\<lparr>kcp1 := k1, vnet := bench_output 0 (io_out1 io) o1 (vnet s)\<rparr>"
  obtain L1' where b1: "bench_ok start limit n1 n2 L1' G1 j1 L2 G2 j2 s1" using bench_update1 [OF assms(1) small(1) u1] unfolding s1_def by blast
  obtain o2 k2 where u2: "ikcp_update (kcp2 s1) (iclock (io_now2 io)) = (o2, k2)" by (cases "ikcp_update (kcp2 s1) (iclock (io_now2 io))")
  define s2 where "s2 = s1\<lparr>kcp2 := k2, vnet := bench_output 1 (io_out2 io) o2 (vnet s1)\<rparr>"
  obtain L2' where b2: "bench_ok start limit n1 n2 L1' G1 j1 L2' G2 j2 s2" using bench_update2 [OF b1 small(2) u2] unfolding s2_def by blast
  obtain s3 gs' where s3: "send_loop (iclock (io_now io)) s2 = Some s3" "bench_ok start limit (n1 + length gs') n2 L1' (G1 @ gs') j1 L2' G2 j2 s3"
    using bench_send [OF b2 assms(5,4,3) small(3)] by blast
  have g: "length (G1 @ gs') \<le> 3355443" using bench_sizes(1) [OF s3(2)] assms(3) by simp
  then have m: "n1 + length gs' \<le> 2 ^ 24" "n2 + 1000 \<le> 2 ^ 24" using n by simp_all
  obtain v k b m2 where v: "net_loop 1 (io_net1 io) 0 (vnet s3) (kcp2 s3) (b_buffer s3) = Some (v, k, b)" "m2 \<le> n2 + 1000"
    "bench_ok start limit (n1 + length gs') m2 L1' (G1 @ gs') j1 L2' G2 j2 (s3\<lparr>vnet := v, kcp2 := k, b_buffer := b\<rparr>)" using bench_net1 [OF s3(2) m] by blast
  let ?s4 = "s3\<lparr>vnet := v, kcp2 := k, b_buffer := b\<rparr>"
  have m4: "m2 \<le> 2 ^ 24" "n1 + length gs' + 1000 \<le> 2 ^ 24" using v(2) n g by simp_all
  obtain v' k' b' m1 where w: "net_loop 0 (io_net2 io) 0 (vnet ?s4) (kcp1 ?s4) (b_buffer ?s4) = Some (v', k', b')" "m1 \<le> n1 + length gs' + 1000"
    "bench_ok start limit m1 m2 L1' (G1 @ gs') j1 L2' G2 j2 (?s4\<lparr>vnet := v', kcp1 := k', b_buffer := b'\<rparr>)" using bench_net0 [OF v(3) m4] by blast
  let ?s5 = "?s4\<lparr>vnet := v', kcp1 := k', b_buffer := b'\<rparr>"
  have m5: "m1 \<le> 2 ^ 24" using w(2) m4 by simp
  obtain s6 m3 G2' i where s6: "echo_loop ?s5 = Some s6" "bench_ok start limit m1 m3 L1' (G1 @ gs') j1 L2' G2' i s6" "m3 \<le> m2 + length (G1 @ gs')"
    using bench_echo [OF w(3) m5] by blast
  have m6: "m3 \<le> 2 ^ 24" "length G2' < 2 ^ 32" using s6(3) v(2) n g bench_sizes(4) [OF s6(2)] by simp_all
  obtain s7 j where s7: "collect_loop (iclock (io_now io)) s6 = Some (Inr s7)" "bench_ok start limit m1 m3 L1' (G1 @ gs') j L2' G2' i s7"
    using bench_collect [OF s6(2) m6] by blast
  have "test_round io s = Some (Inr s7)"
    by (simp only: test_round_def Let_def u1 prod.case s1_def [symmetric] u2 s2_def [symmetric] s3(1) bind.bind_lunit v(1) w(1) s6(1) s7(1))
  then show ?thesis using s7(2) by blast
qed

text \<open>The messages received are counted, and no number is received before it is sent.\<close>

definition in_step :: "bench \<Rightarrow> bool" where
  "in_step t \<longleftrightarrow> b_count t = int (unat (b_next t)) \<and> b_next t \<le> b_index t"

lemma bench_in_step:
  assumes "bench_ok start limit n1 n2 L1 G1 j1 L2 G2 j2 s"
  shows "in_step s"
proof -
  have j: "j1 \<le> unat (b_index s)" "b_next s = of_nat j1" "b_count s = int j1" using bench_sizes(3,4) [OF assms] assms by (simp_all add: bench_ok_def paced_def)
  moreover have "unat (b_index s) < 2 ^ LENGTH(32)" by (rule unsigned_less)
  then have "j1 < 2 ^ 32" using j(1) by simp
  ultimately show ?thesis by (simp add: in_step_def word_le_nat_alt unat_of_nat)
qed

definition good_outcome :: "outcome \<Rightarrow> bool" where
  "good_outcome x \<longleftrightarrow> (case x of Running t \<Rightarrow> in_step t | Failed t \<Rightarrow> False | Finished t \<Rightarrow> in_step t \<and> b_next t > 1000)"

lemma test_run_ok:
  assumes "bench_ok start limit n1 n2 L1 G1 j1 L2 G2 j2 s" "limit \<le> 2 ^ 26" "start + limit + 20 < 2 ^ 32" "\<forall>io\<in>set ios. unat (iclock (io_now io)) \<le> start + limit"
  shows "(\<exists>x. test_run ios s = Some x \<and> good_outcome x) \<or> (\<exists>m t. test_run (take m ios) s = Some (Running t) \<and> 2 ^ 23 \<le> tx1 (vnet t) + tx2 (vnet t))"
  using assms(1,4)
proof (induction ios arbitrary: s n1 n2 L1 G1 j1 L2 G2 j2)
  case Nil
  then show ?case using bench_in_step by (auto simp: good_outcome_def)
next
  case (Cons io ios)
  show ?case
  proof (cases "tx1 (vnet s) + tx2 (vnet s) < 2 ^ 23")
    case False
    then show ?thesis by (intro disjI2 exI [of _ 0] exI [of _ s]) simp
  next
    case True
    have "unat (iclock (io_now io)) \<le> start + limit" using Cons.prems(2) by simp
    then obtain t n1 n2 L1 G1 j1 L2 G2 j2 where t: "test_round io s = Some (Inr t)" "bench_ok start limit n1 n2 L1 G1 j1 L2 G2 j2 t"
      using test_round_ok [OF Cons.prems(1) True assms(2,3)] by blast
    show ?thesis
    proof (cases "b_next t > 1000")
      case True
      then show ?thesis using t bench_in_step by (auto simp: good_outcome_def)
    next
      case False
      have "(\<exists>x. test_run ios t = Some x \<and> good_outcome x) \<or> (\<exists>m r. test_run (take m ios) t = Some (Running r) \<and> 2 ^ 23 \<le> tx1 (vnet r) + tx2 (vnet r))"
        by (rule Cons.IH [OF t(2)]) (use Cons.prems(2) in simp)
      then show ?thesis
      proof
        assume "\<exists>x. test_run ios t = Some x \<and> good_outcome x"
        then show ?thesis using t(1) False by auto
      next
        assume "\<exists>m r. test_run (take m ios) t = Some (Running r) \<and> 2 ^ 23 \<le> tx1 (vnet r) + tx2 (vnet r)"
        then obtain m r where "test_run (take m ios) t = Some (Running r)" "2 ^ 23 \<le> tx1 (vnet r) + tx2 (vnet r)" by blast
        then show ?thesis using t(1) False by (intro disjI2 exI [of _ "Suc m"] exI [of _ r]) simp
      qed
    qed
  qed
qed

lemma test_kcp_inv: "session_inv (test_kcp mode first)"
proof -
  have "session_inv (session_start TEST_CONV 1400 128 128 0)" by (rule session_inv_start) (simp_all add: int_range_def)
  moreover have "session_start TEST_CONV 1400 128 128 0 = snd (ikcp_wndsize (ikcp_init TEST_CONV) 128 128)"
    by (simp add: session_start_def ikcp_setmtu_def ikcp_wndsize_def Let_def ikcp_init_def u32_def)
  ultimately have k: "session_inv (snd (ikcp_wndsize (ikcp_init TEST_CONV) 128 128))" by simp
  have upd: "session_inv (j\<lparr>k_rx_minrto := i\<rparr>) = session_inv j" for j i
    by (simp add: session_inv_def conn_inv_def frame_simps mss_ok_def queue_ok_def out_seg_ok_def)
  show ?thesis using session_inv_nodelay [OF k] by (simp add: test_kcp_def Let_def upd)
qed

lemma test_kcp_duplex: "duplex TEST_CONV True R hs 0 [] [] 0 (test_kcp mode first)"
proof -
  have f: "rcv_fits 1500 k \<and> unat (k_ackcount k) = 0 \<and> k_mtu k = 1400 \<and> k_conv k = TEST_CONV \<and> k_stream k = 0 \<and> k_rcv_wnd k = 128 \<and>
      k_snd_nxt k = 0 \<and> k_snd_buf k = [] \<and> k_snd_queue k = [] \<and> k_rcv_buf k = [] \<and> k_rcv_queue k = [] \<and> k_rcv_nxt k = 0" if "k = test_kcp mode first" for k
    unfolding that by (simp add: test_kcp_def ikcp_wndsize_def ikcp_nodelay_def ikcp_init_def rcv_fits_def Let_def u32_def imax_def)
  then show ?thesis using test_kcp_inv f [OF refl] by (auto simp: duplex_def endpoint_ok_def tx_log_def rx_log_def)
qed

lemma test_begin_ok:
  assumes "length buf = 2000" "unat (iclock now) + 20 < 2 ^ 32"
  shows "bench_ok (unat (iclock now)) limit 0 0 [] [] 0 [] [] 0 (test_begin mode now0 now buf)"
  using assms test_kcp_duplex [of "[]" "[]" mode]
  by (simp add: bench_ok_def test_begin_def LatencySimulator_init_def on_wire_def paced_def numbered_def unat_word_ariths)

section \<open>Properties\<close>

text \<open>C3: The bench never reports an error.  In every mode, for every result of \<open>rand\<close> and every reading of the clock that lies within \<open>limit\<close> of the start, every round
  returns, so all loops of the round end, and the branch \<open>ERROR sn\<close> is never taken: the echoed messages come back complete and in order, each one once, although the network
  loses and delays datagrams; the counts of messages sent and received agree with their numbers; until the test has finished or \<open>2 ^ 23\<close> datagrams have been sent.\<close>

theorem test_never_fails:
  fixes mode :: int and now0 :: i64
  assumes "length buf = 2000" "limit \<le> 2 ^ 26" "unat (iclock now) + limit + 20 < 2 ^ 32"
    and "\<forall>io\<in>set ios. unat (iclock (io_now io)) \<le> unat (iclock now) + limit"
  defines "s0 \<equiv> test_begin mode now0 now buf"
  shows "(\<exists>t. test_run ios s0 = Some (Running t) \<and> b_count t = int (unat (b_next t)) \<and> b_next t \<le> b_index t) \<or>
    (\<exists>t. test_run ios s0 = Some (Finished t) \<and> b_count t = int (unat (b_next t)) \<and> b_next t \<le> b_index t \<and> b_next t > 1000) \<or>
    (\<exists>m t. test_run (take m ios) s0 = Some (Running t) \<and> 2 ^ 23 \<le> tx1 (vnet t) + tx2 (vnet t))"
proof -
  have "bench_ok (unat (iclock now)) limit 0 0 [] [] 0 [] [] 0 s0" unfolding s0_def using assms(1,3) by (intro test_begin_ok) simp_all
  then have "(\<exists>x. test_run ios s0 = Some x \<and> good_outcome x) \<or> (\<exists>m t. test_run (take m ios) s0 = Some (Running t) \<and> 2 ^ 23 \<le> tx1 (vnet t) + tx2 (vnet t))"
    by (rule test_run_ok) (use assms in simp_all)
  then show ?thesis
  proof
    assume "\<exists>x. test_run ios s0 = Some x \<and> good_outcome x"
    then obtain x where "test_run ios s0 = Some x" "good_outcome x" by blast
    then show ?thesis by (cases x) (auto simp: good_outcome_def in_step_def)
  qed blast
qed


definition bench_rounds :: "bench_io list" where
  "bench_rounds = map (\<lambda>i. \<lparr>io_now = of_nat (10 * i), io_now1 = of_nat (10 * i), io_now2 = of_nat (10 * i),
     io_out1 = (\<lambda>k. \<lparr>loss_rand = 7 * i + k, send_now = of_nat (10 * i), delay_rand = i\<rparr>),
     io_out2 = (\<lambda>k. \<lparr>loss_rand = 5 * i + k, send_now = of_nat (10 * i), delay_rand = i\<rparr>),
     io_net1 = (\<lambda>k. of_nat (10 * i)), io_net2 = (\<lambda>k. of_nat (10 * i))\<rparr>) [0..<5]"

theorem test_never_fails_witness:
  "(\<exists>t. test_run bench_rounds (test_begin 2 0 0 (replicate 2000 0)) = Some (Running t) \<and> b_next t \<le> b_index t) \<or>
   (\<exists>t. test_run bench_rounds (test_begin 2 0 0 (replicate 2000 0)) = Some (Finished t) \<and> b_next t > 1000) \<or>
   (\<exists>m t. test_run (take m bench_rounds) (test_begin 2 0 0 (replicate 2000 0)) = Some (Running t) \<and> 2 ^ 23 \<le> tx1 (vnet t) + tx2 (vnet t))"
proof -
  have c: "\<forall>io\<in>set bench_rounds. unat (iclock (io_now io)) \<le> unat (iclock 0) + 100" by code_simp
  show ?thesis using test_never_fails [OF _ _ _ c, of "replicate 2000 0" 2 0] by (auto simp: iclock_def)
qed

end
