(* ===== verification/Kcp_Chat.thy ===== *)
theory Kcp_Chat
  imports Kcp_Demo
begin

text \<open>
  The chat room over KCP: sessions (\<open>kcp_session.h\<close>, \<open>kcp_session.cc\<close>), the server that keeps one session per conversation number (\<open>kcp_server.cc\<close>), and the
  room that passes every message on to all users (\<open>chat_server.cc\<close>).  The two threads of the server take its mutex for a datagram and for a round of updates, so these are the steps.  Datagrams, clock readings and the order in which the hash tables are walked are arguments; what goes to the socket is collected in
  \<open>outbox\<close>.  \<open>Inl\<close> is \<open>exit\<close>.
\<close>

section \<open>Sessions\<close>

text \<open>An address of the Internet: its four bytes and the port.\<close>

type_synonym addr = "(u8 \<times> u8 \<times> u8 \<times> u8) \<times> u16"

definition GetAddrToString :: "addr \<Rightarrow> u8 list" where
  "GetAddrToString a = (case a of ((b1, b2, b3, b4), p) \<Rightarrow>
     digits (unat b1) @ bytes ''.'' @ digits (unat b2) @ bytes ''.'' @ digits (unat b3) @ bytes ''.'' @ digits (unat b4) @ bytes '':'' @ digits (unat p))"

definition KCP_KEEP_ALIVE_CMD :: "u8 list" where "KCP_KEEP_ALIVE_CMD = bytes ''KCP_KEEP_ALIVE_CMD'' @ [0]"

record kcp_opt =
  is_server :: bool
  keep_alive_timeout :: i64
  opt_conv :: u32
  sndwnd :: int
  rcvwnd :: int
  nodelay :: int
  interval :: int
  resend :: int
  nc :: int

definition KcpOpt :: kcp_opt where
  "KcpOpt = \<lparr>is_server = True, keep_alive_timeout = 5000, opt_conv = 0, sndwnd = 32, rcvwnd = 128, nodelay = 0, interval = 10, resend = 0, nc = 0\<rparr>"

record kcp_session =
  s_opt :: kcp_opt
  s_addr :: addr
  s_kcp :: ikcpcb
  recv_latest_time :: i64
  send_latest_time :: i64

definition KcpSession :: "kcp_opt \<Rightarrow> addr \<Rightarrow> kcp_session" where
  "KcpSession opt a =
     (let k = ikcp_init (opt_conv opt);
          k = snd (ikcp_wndsize k (sndwnd opt) (rcvwnd opt));
          k = snd (ikcp_nodelay k (nodelay opt) (interval opt) (resend opt) (nc opt))
      in \<lparr>s_opt = opt, s_addr = a, s_kcp = k, recv_latest_time = 0, send_latest_time = 0\<rparr>)"

definition session_Input :: "u8 list \<Rightarrow> kcp_session \<Rightarrow> (int \<times> kcp_session) option" where
  "session_Input d s = do { (r, k) \<leftarrow> ikcp_input (s_kcp s) d; Some (r, s\<lparr>s_kcp := k\<rparr>) }"

definition session_Send :: "u8 list \<Rightarrow> kcp_session \<Rightarrow> (int \<times> kcp_session) option" where
  "session_Send d s = do { (r, k) \<leftarrow> ikcp_send (s_kcp s) d (int (length d)); Some (r, s\<lparr>s_kcp := k\<rparr>) }"

definition session_Recv :: "int \<Rightarrow> kcp_session \<Rightarrow> (int \<times> u8 list \<times> kcp_session) option" where
  "session_Recv n s = do { (r, bs, k) \<leftarrow> ikcp_recv (s_kcp s) n; Some (r, bs, s\<lparr>s_kcp := k\<rparr>) }"

text \<open>The result tells whether the peer is off; the datagrams go to the address of the session.\<close>

definition session_Update :: "i64 \<Rightarrow> kcp_session \<Rightarrow> (bool \<times> u8 list list \<times> kcp_session) option" where
  "session_Update current s =
     (let (outs, k) = ikcp_update (s_kcp s) (ucast current);
          s = s\<lparr>s_kcp := k\<rparr>;
          s = (if recv_latest_time s = 0 then s\<lparr>recv_latest_time := current\<rparr> else s)
      in if is_server (s_opt s) \<and> sint (current - recv_latest_time s) > sint (keep_alive_timeout (s_opt s)) then Some (True, outs, s)
         else if \<not> is_server (s_opt s) \<and> sint (current - send_latest_time s) > sint (keep_alive_timeout (s_opt s)) then do {
           (r, s) \<leftarrow> session_Send KCP_KEEP_ALIVE_CMD (s\<lparr>send_latest_time := current\<rparr>);
           Some (False, outs, s) }
         else Some (False, outs, s))"

section \<open>The server and the room\<close>

text \<open>\<open>store\<close> has the sessions that are allocated, \<open>sessions\<close> is the map of the server and \<open>users\<close> the set of the room.\<close>

record chat =
  c_opt :: kcp_opt
  store :: "u32 \<Rightarrow> kcp_session option"
  sessions :: "u32 list"
  users :: "u32 list"
  c_buf :: "u8 list"
  outbox :: "(addr \<times> u8 list) list"

definition body_size :: nat where "body_size = 4096"

definition chat_begin :: "kcp_opt \<Rightarrow> chat" where
  "chat_begin opt = \<lparr>c_opt = opt, store = (\<lambda>_. None), sessions = [], users = [], c_buf = replicate body_size 0, outbox = []\<rparr>"

definition put_session :: "u32 \<Rightarrow> kcp_session \<Rightarrow> chat \<Rightarrow> chat" where
  "put_session e s c = c\<lparr>store := (store c)(e \<mapsto> s)\<rparr>"

fun Notify :: "u8 list \<Rightarrow> u32 list \<Rightarrow> chat \<Rightarrow> chat option" where
  "Notify str [] c = Some c"
| "Notify str (user # us) c = do {
     s \<leftarrow> store c user;
     (r, s) \<leftarrow> session_Send str s;
     Notify str us (put_session user s c) }"

definition said :: "addr \<Rightarrow> u8 list \<Rightarrow> u8 list" where
  "said a msg = bytes ''user from ['' @ GetAddrToString a @ bytes ''] : '' @ msg"

definition joined :: "addr \<Rightarrow> u8 list" where
  "joined a = bytes ''user from ['' @ GetAddrToString a @ bytes ''] join the ChatRoom!''"

definition left_room :: "addr \<Rightarrow> u8 list" where
  "left_room a = bytes ''user from ['' @ GetAddrToString a @ bytes ''] left the ChatRoom!''"

definition HandleMessage :: "addr \<Rightarrow> u8 list \<Rightarrow> chat \<Rightarrow> chat option" where
  "HandleMessage a msg c = Notify (said a msg) (users c) c"

definition HandleConnection :: "u32 \<Rightarrow> addr \<Rightarrow> chat \<Rightarrow> chat option" where
  "HandleConnection e a c = (let c = c\<lparr>users := e # users c\<rparr> in Notify (joined a) (users c) c)"

definition HandleClose :: "u32 \<Rightarrow> addr \<Rightarrow> chat \<Rightarrow> chat option" where
  "HandleClose e a c = (let c = c\<lparr>users := remove1 e (users c)\<rparr> in Notify (left_room a) (users c) c)"

definition NewSession :: "u32 \<Rightarrow> addr \<Rightarrow> chat \<Rightarrow> chat option" where
  "NewSession conv a c = HandleConnection conv a (put_session conv (KcpSession ((c_opt c)\<lparr>opt_conv := conv\<rparr>) a) c)"

definition GetSession :: "u32 \<Rightarrow> addr \<Rightarrow> chat \<Rightarrow> chat option" where
  "GetSession conv a c = do {
     c \<leftarrow> (if conv \<notin> set (sessions c) then do { c \<leftarrow> NewSession conv a c; Some (c\<lparr>sessions := conv # sessions c\<rparr>) } else Some c);
     s \<leftarrow> store c conv;
     Some (if s_addr s \<noteq> a then put_session conv (s\<lparr>s_addr := a\<rparr>) c else c) }"

text \<open>The messages of a session, after its \<open>i\<close>-th; \<open>memcmp\<close> looks at the first 19 bytes of the buffer, whatever the length of the message.\<close>

partial_function (option) message_loop :: "u32 \<Rightarrow> (nat \<Rightarrow> i64) \<Rightarrow> nat \<Rightarrow> chat \<Rightarrow> (chat + chat) option" where
  "message_loop conv clk i c =
     Option.bind (store c conv) (\<lambda>s.
     Option.bind (session_Recv (int body_size) s) (\<lambda>(len, bs, s).
       let c = put_session conv s (c\<lparr>c_buf := over 0 bs (c_buf c)\<rparr>) in
       if len = -3 then Some (Inl c)
       else if len \<le> 0 then Some (Inr c)
       else if take (length KCP_KEEP_ALIVE_CMD) (c_buf c) = KCP_KEEP_ALIVE_CMD then
         message_loop conv clk (i + 1) (put_session conv (s\<lparr>recv_latest_time := clk i\<rparr>) c)
       else Option.bind (HandleMessage (s_addr s) (take (nat len) (c_buf c)) c) (message_loop conv clk (i + 1))))"

definition HandleSession :: "u32 \<Rightarrow> nat \<Rightarrow> (nat \<Rightarrow> i64) \<Rightarrow> chat \<Rightarrow> (chat + chat) option" where
  "HandleSession conv len clk c = do {
     s \<leftarrow> store c conv;
     (ret, s) \<leftarrow> session_Input (take len (c_buf c)) s;
     let c = put_session conv s c;
     if ret \<noteq> 0 then Some (Inr c) else message_loop conv clk 0 c }"

text \<open>One round of the receiving loop of \<open>Run\<close>: what \<open>recvfrom\<close> returns, if anything.\<close>

definition chat_datagram :: "(addr \<times> u8 list) option \<Rightarrow> (nat \<Rightarrow> i64) \<Rightarrow> chat \<Rightarrow> (chat + chat) option" where
  "chat_datagram r clk c =
     (case r of
        None \<Rightarrow> Some (Inr c)
      | Some (a, d) \<Rightarrow>
          (let d = take body_size d; c = c\<lparr>c_buf := over 0 d (c_buf c)\<rparr> in
           if length d < 24 then Some (Inr c)
           else
             let conv = ucast (le_word (take 4 (c_buf c)))
             in Option.bind (GetSession conv a c) (HandleSession conv (length d) clk)))"

text \<open>\<open>Update\<close>: each session in turn, with the reading of the clock for it.\<close>

definition update_one :: "u32 \<Rightarrow> i64 \<Rightarrow> chat \<Rightarrow> chat option" where
  "update_one e now c = do {
     s \<leftarrow> store c e;
     (off, outs, s) \<leftarrow> session_Update now s;
     let c = put_session e s (c\<lparr>outbox := outbox c @ map (Pair (s_addr s)) outs\<rparr>);
     if off then do {
       c \<leftarrow> HandleClose e (s_addr s) c;
       Some (c\<lparr>sessions := remove1 e (sessions c), store := (store c)(e := None)\<rparr>) }
     else Some c }"

fun update_loop :: "(u32 \<times> i64) list \<Rightarrow> chat \<Rightarrow> chat option" where
  "update_loop [] c = Some c"
| "update_loop ((e, now) # es) c = Option.bind (update_one e now c) (update_loop es)"

inductive chat_step :: "chat \<Rightarrow> chat \<Rightarrow> bool" where
  step_datagram: "chat_datagram r clk c = Some (Inr c') \<Longrightarrow> chat_step c c'"
| step_updates: "mset (map fst es) = mset (sessions c) \<Longrightarrow> update_loop es c = Some c' \<Longrightarrow> chat_step c c'"

text \<open>The states after \<open>n\<close> steps.\<close>

inductive chat_reach :: "nat \<Rightarrow> chat \<Rightarrow> bool" where
  reach_begin: "chat_reach 0 (chat_begin KcpOpt)"
| reach_step: "chat_reach n c \<Longrightarrow> chat_step c c' \<Longrightarrow> chat_reach (n + 1) c'"

section \<open>What the room gives to each session\<close>

text \<open>The fragments of a message, and a session with messages added to its send queue.\<close>

definition frags :: "u8 list \<Rightarrow> ikcpseg list" where
  "frags d = fragments 1376 (frag_count 1376 (length d)) True d"

definition queue_all :: "u8 list list \<Rightarrow> kcp_session \<Rightarrow> kcp_session" where
  "queue_all ds s = s\<lparr>s_kcp := (s_kcp s)\<lparr>k_snd_queue := k_snd_queue (s_kcp s) @ concat (map frags ds),
     k_nsnd_que := k_nsnd_que (s_kcp s) + of_nat (length (concat (map frags ds)))\<rparr>\<rparr>"

lemma queue_all_simps [simp]:
  "queue_all [] s = s" "queue_all es (queue_all ds s) = queue_all (ds @ es) s" "s_addr (queue_all ds s) = s_addr s"
  by (simp_all add: queue_all_def add_ac)

text \<open>The messages that \<open>ikcp_recv\<close> gives one after the other, with its last result, and those of them that are not taken for the command,
  given what the buffer holds.\<close>

fun received :: "nat \<Rightarrow> ikcpcb \<Rightarrow> u8 list list \<times> int" where
  "received 0 k = ([], 0)"
| "received (Suc n) k = (case ikcp_recv k (int body_size) of
      Some (r, bs, k') \<Rightarrow> if r > 0 then (let (ms, l) = received n k' in (bs # ms, l)) else ([], r)
    | None \<Rightarrow> ([], 0))"

definition pending :: "ikcpcb \<Rightarrow> nat" where
  "pending k = length (k_rcv_queue k) + length (k_rcv_buf k)"

fun passed :: "u8 list \<Rightarrow> u8 list list \<Rightarrow> u8 list list" where
  "passed buf [] = []"
| "passed buf (m # ms) =
     (let buf = over 0 m buf in if take (length KCP_KEEP_ALIVE_CMD) buf = KCP_KEEP_ALIVE_CMD then passed buf ms else m # passed buf ms)"

section \<open>The invariant\<close>

definition sess_ok :: "nat \<Rightarrow> u32 \<Rightarrow> kcp_session \<Rightarrow> bool" where
  "sess_ok n e s \<longleftrightarrow> session_inv (s_kcp s) \<and> rcv_fits body_size (s_kcp s) \<and> k_conv (s_kcp s) = e \<and> k_rcv_wnd (s_kcp s) = 128 \<and>
     k_stream (s_kcp s) = 0 \<and> k_mtu (s_kcp s) = 1400 \<and> unat (k_ackcount (s_kcp s)) \<le> 170 * n"

definition chat_inv :: "nat \<Rightarrow> chat \<Rightarrow> bool" where
  "chat_inv n c \<longleftrightarrow> length (c_buf c) = body_size \<and> distinct (sessions c) \<and> distinct (users c) \<and> set (users c) = set (sessions c) \<and> c_opt c = KcpOpt \<and>
     (\<forall>e. store c e \<noteq> None \<longleftrightarrow> e \<in> set (sessions c)) \<and> (\<forall>e s. store c e = Some s \<longrightarrow> sess_ok n e s) \<and> (\<forall>(a, d)\<in>set (outbox c). length d \<le> 1400)"

lemma sess_ok_mono: "sess_ok n e s \<Longrightarrow> n \<le> m \<Longrightarrow> sess_ok m e s"
  by (auto simp: sess_ok_def)

lemma chat_inv_mono: "chat_inv n c \<Longrightarrow> n \<le> m \<Longrightarrow> chat_inv m c"
  unfolding chat_inv_def using sess_ok_mono by blast

lemma sess_ok_clock [simp]:
  "sess_ok n e (s\<lparr>recv_latest_time := t\<rparr>) = sess_ok n e s" "sess_ok n e (s\<lparr>send_latest_time := t\<rparr>) = sess_ok n e s"
  "sess_ok n e (s\<lparr>s_addr := a\<rparr>) = sess_ok n e s"
  by (simp_all add: sess_ok_def)

lemma session_Send_eq:
  assumes "sess_ok n e s" "length d \<le> 5000"
  shows "session_Send d s = Some (0, queue_all [d] s) \<and> sess_ok n e (queue_all [d] s)"
proof -
  let ?k = "s_kcp s"
  have k: "session_inv ?k" "mss_ok ?k" "k_stream ?k = 0" "unat (k_mtu ?k) = unat (k_mss ?k) + 24" "k_mtu ?k = 1400"
    using assms(1) unfolding sess_ok_def session_inv_def by blast+
  have mss: "unat (k_mss ?k) = 1376" using k(4) by (simp add: k(5))
  have len: "length d < 2 ^ 31" using assms(2) by simp
  have "\<not> 128 \<le> frag_count 1376 (length d)" using assms(2) by (simp add: frag_count_def)
  then have s: "ikcp_send ?k d (int (length d)) = Some (0, s_kcp (queue_all [d] s))"
    by (simp add: send_message_eq [OF k(2) len k(3)] send_rest_def Let_def mss k(3) queue_all_def frags_def)
  have "session_inv (s_kcp (queue_all [d] s))" by (rule session_inv_send [OF k(1) s len])
  then show ?thesis using s assms(1) by (simp add: session_Send_def sess_ok_def queue_all_def rcv_fits_def)
qed

text \<open>\<open>Notify\<close> sends to each user once.\<close>

lemma Notify_eq:
  assumes "\<forall>e\<in>set us. \<exists>s. store c e = Some s \<and> sess_ok n e s" "distinct us" "length str \<le> 5000"
  shows "Notify str us c = Some (c\<lparr>store := (\<lambda>e. if e \<in> set us then map_option (queue_all [str]) (store c e) else store c e)\<rparr>)"
  using assms
proof (induction us arbitrary: c)
  case (Cons u us)
  obtain s where s: "store c u = Some s" "sess_ok n u s" using Cons.prems(1) by auto
  have r: "session_Send str s = Some (0, queue_all [str] s)" using session_Send_eq [OF s(2) Cons.prems(3)] by blast
  let ?c = "put_session u (queue_all [str] s) c"
  have "\<forall>e\<in>set us. \<exists>s. store ?c e = Some s \<and> sess_ok n e s" using Cons.prems(1,2) by (auto simp: put_session_def)
  from Cons.IH [OF this] have "Notify str us ?c = Some (?c\<lparr>store := (\<lambda>e. if e \<in> set us then map_option (queue_all [str]) (store ?c e) else store ?c e)\<rparr>)"
    using Cons.prems(2,3) by simp
  moreover have "?c\<lparr>store := (\<lambda>e. if e \<in> set us then map_option (queue_all [str]) (store ?c e) else store ?c e)\<rparr> =
      c\<lparr>store := (\<lambda>e. if e \<in> set (u # us) then map_option (queue_all [str]) (store c e) else store c e)\<rparr>"
    using s(1) Cons.prems(2) by (auto simp: put_session_def fun_eq_iff)
  ultimately show ?case using s(1) r by simp
qed simp

definition told :: "u8 list \<Rightarrow> chat \<Rightarrow> chat" where
  "told str c = c\<lparr>store := (\<lambda>e. map_option (queue_all [str]) (store c e))\<rparr>"

lemma told_inv: "chat_inv n c \<Longrightarrow> length str \<le> 5000 \<Longrightarrow> chat_inv n (told str c)"
  using session_Send_eq by (fastforce simp: chat_inv_def told_def)

lemma chat_inv_user: "chat_inv n c \<Longrightarrow> e \<in> set (sessions c) \<Longrightarrow> \<exists>s. store c e = Some s \<and> sess_ok n e s"
  unfolding chat_inv_def by (metis not_None_eq)

text \<open>The call of \<open>Notify\<close> does not look at the map of the server.\<close>

lemma Notify_told:
  assumes "chat_inv n (c\<lparr>sessions := es\<rparr>)" "length str \<le> 5000"
  shows "Notify str (users c) c = Some (told str c)"
proof -
  have "\<forall>e\<in>set (users c). \<exists>s. store c e = Some s \<and> sess_ok n e s" "distinct (users c)"
    using assms(1) chat_inv_user [OF assms(1)] by (auto simp: chat_inv_def)
  note eq = Notify_eq [OF this assms(2)]
  have "(\<lambda>e. if e \<in> set (users c) then map_option (queue_all [str]) (store c e) else store c e) = (\<lambda>e. map_option (queue_all [str]) (store c e))"
  proof
    fix e
    show "(if e \<in> set (users c) then map_option (queue_all [str]) (store c e) else store c e) = map_option (queue_all [str]) (store c e)"
      using assms(1) by (cases "store c e") (auto simp: chat_inv_def)
  qed
  then show ?thesis using eq by (simp add: told_def)
qed

lemma addr_length: "length (GetAddrToString a) \<le> 21"
proof -
  obtain b1 b2 b3 b4 p where a: "a = ((b1, b2, b3, b4), p)" by (metis prod.collapse)
  have b: "length (digits (unat b)) \<le> 3" for b :: u8 using unsigned_less [of b, where ?'a = nat] by (intro digits_length) simp_all
  have q: "length (digits (unat p)) \<le> 5" using unsigned_less [of p, where ?'a = nat] by (intro digits_length) simp_all
  show ?thesis using b [of b1] b [of b2] b [of b3] b [of b4] q by (simp add: GetAddrToString_def a bytes_def)
qed

lemma texts_short: "length (joined a) \<le> 5000" "length (left_room a) \<le> 5000" "length m \<le> body_size \<Longrightarrow> length (said a m) \<le> 5000"
  using addr_length [of a] by (simp_all add: joined_def left_room_def said_def bytes_def body_size_def)

section \<open>Receiving and sending do not meet\<close>

lemma recv_sends:
  "ikcp_recv (k\<lparr>k_snd_queue := q, k_nsnd_que := m\<rparr>) len = map_option (\<lambda>(r, bs, j). (r, bs, j\<lparr>k_snd_queue := q, k_nsnd_que := m\<rparr>)) (ikcp_recv k len)"
proof -
  let ?up = "\<lambda>j. j\<lparr>k_snd_queue := q, k_nsnd_que := m\<rparr>"
  have peek: "ikcp_peeksize (?up k) = ikcp_peeksize k" by (simp add: ikcp_peeksize_def split: list.splits)
  have take: "recv_take (?up k) = ?up (recv_take k)"
    by (rule ikcpcb.equality) (simp_all add: recv_take_def)
  have move: "move_loop p (?up j) = ?up (move_loop p j)" for p j
    by (rule ikcpcb.equality) (simp_all add: move_loop_eq Let_def)
  have tell: "recv_tell b (?up j) = ?up (recv_tell b j)" for b j
    by (rule ikcpcb.equality) (simp_all add: recv_tell_def)
  have keep: "k_rcv_buf (?up j) = k_rcv_buf j" "k_rcv_queue (?up j) = k_rcv_queue j" "k_nrcv_que (?up j) = k_nrcv_que j" "k_rcv_wnd (?up j) = k_rcv_wnd j" for j
    by simp_all
  show ?thesis unfolding recv_cases peek Let_def take move keep tell
    by (cases "len < 0") (simp_all only: if_True if_False move tell keep if_distrib [of "map_option _"] option.map prod.case)
qed

lemma received_sends: "received f (k\<lparr>k_snd_queue := q, k_nsnd_que := m\<rparr>) = received f k"
proof (induction f arbitrary: k)
  case (Suc f)
  then show ?case by (auto simp: recv_sends split: option.splits)
qed simp

lemma received_queue [simp]: "received f (s_kcp (queue_all ds s)) = received f (s_kcp s)" "pending (s_kcp (queue_all ds s)) = pending (s_kcp s)"
  by (simp_all add: queue_all_def received_sends pending_def)

lemma message_nonempty: "q \<noteq> [] \<Longrightarrow> 0 < length (message q)"
  by (cases q) auto

lemma recv_pending:
  assumes "ikcp_recv k len = Some (r, bs, j)" "0 \<le> r" "0 \<le> len"
  shows "pending j < pending k"
proof -
  have q: "k_rcv_queue k \<noteq> []" using assms by (auto simp: recv_cases)
  have j: "j = recv_tell (k_nrcv_que k \<ge> k_rcv_wnd k) (move_loop (k_rcv_buf k) (recv_take k))"
    using assms by (auto simp: recv_cases Let_def recv_take_def split: if_splits)
  have "pending (recv_tell b i) = pending i" for b i by (simp add: recv_tell_def pending_def)
  moreover have "pending (move_loop (k_rcv_buf i) i) = pending i" for i
  proof -
    obtain moved where m: "k_rcv_queue (move_loop (k_rcv_buf i) i) = k_rcv_queue i @ moved" "k_rcv_buf i = moved @ k_rcv_buf (move_loop (k_rcv_buf i) i)"
      using move_queue [OF refl, of i] by blast
    have "length (k_rcv_buf i) = length moved + length (k_rcv_buf (move_loop (k_rcv_buf i) i))" using arg_cong [OF m(2), of length] by simp
    then show ?thesis using m(1) by (simp add: pending_def)
  qed
  moreover have "pending (recv_take k) < pending k"
    using message_nonempty [OF q] message_length_le [of "k_rcv_queue k"] q by (simp add: pending_def recv_take_def)
  moreover have "k_rcv_buf (recv_take k) = k_rcv_buf k" by (simp add: recv_take_def)
  ultimately show ?thesis unfolding j by metis
qed

text \<open>\<open>ikcp_recv\<close> on a session of the room.\<close>

lemma session_Recv_ok:
  assumes "sess_ok n e s"
  shows "\<exists>r bs k. ikcp_recv (s_kcp s) (int body_size) = Some (r, bs, k) \<and> session_Recv (int body_size) s = Some (r, bs, s\<lparr>s_kcp := k\<rparr>) \<and>
    sess_ok n e (s\<lparr>s_kcp := k\<rparr>) \<and> k_snd_queue k = k_snd_queue (s_kcp s) \<and> (0 \<le> r \<longrightarrow> r = int (length bs) \<and> length bs \<le> body_size \<and> pending k < pending (s_kcp s)) \<and>
    (r < 0 \<longrightarrow> bs = [])"
proof -
  have k: "session_inv (s_kcp s)" "rcv_fits body_size (s_kcp s)" "body_size * unat (k_rcv_wnd (s_kcp s)) < 2 ^ 31"
    using assms by (simp_all add: sess_ok_def body_size_def)
  obtain r bs k' where r: "ikcp_recv (s_kcp s) (int body_size) = Some (r, bs, k')" "session_inv k'" "same (s_kcp s) k'" "k_ackcount k' = k_ackcount (s_kcp s)"
      "rcv_fits body_size k'" "0 \<le> r \<longrightarrow> r = int (length bs) \<and> r \<le> int body_size"
    using recv_fits [OF k, of "int body_size"] by auto
  have "r < 0 \<longrightarrow> bs = []" using r(1) by (auto simp: recv_cases Let_def split: if_splits)
  moreover have "k_snd_queue k' = k_snd_queue (s_kcp s)" using recv_kept [OF r(1)] by (simp add: kept_def)
  moreover have "sess_ok n e (s\<lparr>s_kcp := k'\<rparr>)" using assms r by (simp add: sess_ok_def same_def)
  ultimately show ?thesis using r(1,6) recv_pending [OF r(1)] by (auto simp: session_Recv_def)
qed

section \<open>A datagram\<close>

text \<open>\<open>gave e ds c c'\<close>: every session other than \<open>e\<close> has the messages \<open>ds\<close> added to its send queue and is otherwise as it was, and \<open>e\<close> has them in its send queue too.\<close>

definition gave :: "u32 \<Rightarrow> u8 list list \<Rightarrow> chat \<Rightarrow> chat \<Rightarrow> bool" where
  "gave e ds c c' \<longleftrightarrow> (\<forall>x. x \<noteq> e \<longrightarrow> store c' x = map_option (queue_all ds) (store c x)) \<and>
     (\<exists>s s'. store c e = Some s \<and> store c' e = Some s' \<and> s_addr s' = s_addr s \<and> k_snd_queue (s_kcp s') = k_snd_queue (s_kcp s) @ concat (map frags ds)) \<and>
     sessions c' = sessions c \<and> users c' = users c \<and> outbox c' = outbox c"

lemma gave_trans: "gave e ds c c1 \<Longrightarrow> gave e es c1 c2 \<Longrightarrow> gave e (ds @ es) c c2"
  by (auto simp: gave_def option.map_comp comp_def)

lemma map_queue_nil: "map_option (queue_all []) x = x"
  by (cases x) auto

lemma gave_put:
  assumes "store c e = Some s" "s_addr s' = s_addr s" "k_snd_queue (s_kcp s') = k_snd_queue (s_kcp s)"
  shows "gave e [] c (put_session e s' (c\<lparr>c_buf := b\<rparr>))"
  using assms by (simp add: gave_def put_session_def map_queue_nil)

lemma gave_told: "store c e = Some s \<Longrightarrow> gave e [str] c (told str c)"
  by (simp add: gave_def told_def queue_all_def)

lemma put_inv:
  assumes "chat_inv n c" "e \<in> set (sessions c)" "sess_ok n e s" "length b = body_size"
  shows "chat_inv n (put_session e s (c\<lparr>c_buf := b\<rparr>))"
  using assms by (auto simp: chat_inv_def put_session_def)

lemma over0_length: "length bs \<le> length buf \<Longrightarrow> length (over 0 bs buf) = length buf"
  by (simp add: over_def)

lemma over0_take: "take (length bs) (over 0 bs buf) = bs"
  by (simp add: over_def)

definition state_of :: "'a + 'a \<Rightarrow> 'a" where
  "state_of x = (case x of Inl c \<Rightarrow> c | Inr c \<Rightarrow> c)"

lemma state_of_simps [simp]: "state_of (Inl c) = c" "state_of (Inr c) = c"
  by (simp_all add: state_of_def)

lemma chat_inv_store: "chat_inv n c \<Longrightarrow> store c e = Some s \<Longrightarrow> sess_ok n e s \<and> e \<in> set (sessions c) \<and> length (c_buf c) = body_size"
  unfolding chat_inv_def by (metis option.distinct(1))

lemma chat_inv_sessions: "chat_inv n c \<Longrightarrow> chat_inv n (c\<lparr>sessions := sessions c\<rparr>)"
  by simp

lemma message_loop_ok:
  assumes "chat_inv n c" "store c e = Some s" "pending (s_kcp s) \<le> f" "received (Suc f) (s_kcp s) = (ms, l)"
  shows "\<exists>x. message_loop e clk i c = Some x \<and> isl x = (l = -3) \<and> chat_inv n (state_of x) \<and>
    gave e (map (said (s_addr s)) (passed (c_buf c) ms)) c (state_of x)"
  using assms
proof (induction f arbitrary: c s i ms l rule: less_induct)
  case (less f)
  note inv = less.prems(1) and s = less.prems(2)
  have ok: "sess_ok n e s" "e \<in> set (sessions c)" "length (c_buf c) = body_size" using chat_inv_store [OF inv s] by auto
  obtain r bs k where r: "ikcp_recv (s_kcp s) (int body_size) = Some (r, bs, k)" "session_Recv (int body_size) s = Some (r, bs, s\<lparr>s_kcp := k\<rparr>)"
      "sess_ok n e (s\<lparr>s_kcp := k\<rparr>)" "k_snd_queue k = k_snd_queue (s_kcp s)" "0 \<le> r \<longrightarrow> r = int (length bs) \<and> length bs \<le> body_size \<and> pending k < pending (s_kcp s)"
      "r < 0 \<longrightarrow> bs = []"
    using session_Recv_ok [OF ok(1)] by blast
  let ?s = "s\<lparr>s_kcp := k\<rparr>"
  let ?buf = "over 0 bs (c_buf c)"
  let ?c = "put_session e ?s (c\<lparr>c_buf := ?buf\<rparr>)"
  have "length bs \<le> body_size" using r(5,6) by (cases "r < 0") auto
  then have buf: "length ?buf = body_size" using over0_length ok(3) by simp
  have c: "chat_inv n ?c" by (rule put_inv [OF inv ok(2) r(3) buf])
  have g: "gave e [] c ?c" using s r(4) by (intro gave_put) simp_all
  have step: "message_loop e clk i c = (if r = -3 then Some (Inl ?c) else if r \<le> 0 then Some (Inr ?c)
      else if take (length KCP_KEEP_ALIVE_CMD) ?buf = KCP_KEEP_ALIVE_CMD then message_loop e clk (i + 1) (put_session e (?s\<lparr>recv_latest_time := clk i\<rparr>) ?c)
      else Option.bind (HandleMessage (s_addr s) (take (nat r) ?buf) ?c) (message_loop e clk (i + 1)))"
    by (simp add: message_loop.simps [of e clk i c] s r(2) put_session_def Let_def)
  show ?case
  proof (cases "r \<le> 0")
    case True
    then have "ms = []" "l = r" using less.prems(4) r(1) by simp_all
    then show ?thesis using step c g True by (cases "r = -3") simp_all
  next
    case False
    then have bs: "r = int (length bs)" "length bs \<le> body_size" "pending k < f" using r(5) less.prems(3) by auto
    obtain f' where f': "f = Suc f'" using bs(3) by (cases f) auto
    obtain ns where ns: "received (Suc f') k = (ns, l)" "ms = bs # ns"
      using less.prems(4) r(1) False by (auto simp: f' simp del: received.simps(2) simp: received.simps(2) [of "Suc f'"] split: prod.splits)
    have smaller: "f' < f" "pending k \<le> f'" using bs(3) f' by simp_all
    show ?thesis
    proof (cases "take (length KCP_KEEP_ALIVE_CMD) ?buf = KCP_KEEP_ALIVE_CMD")
      case alive: True
      let ?s1 = "?s\<lparr>recv_latest_time := clk i\<rparr>"
      let ?c1 = "put_session e ?s1 ?c"
      have c1: "chat_inv n ?c1" using put_inv [OF c, of e ?s1 ?buf] ok(2) r(3) buf by (simp add: put_session_def)
      have g1: "gave e [] ?c ?c1" using gave_put [of ?c e ?s ?s1 ?buf] by (simp add: put_session_def)
      have e1: "store ?c1 e = Some ?s1" "c_buf ?c1 = ?buf" by (simp_all add: put_session_def)
      obtain x where x: "message_loop e clk (i + 1) ?c1 = Some x" "isl x = (l = -3)" "chat_inv n (state_of x)"
          "gave e (map (said (s_addr ?s1)) (passed (c_buf ?c1) ns)) ?c1 (state_of x)"
        using less.IH [OF smaller(1) c1 e1(1), of ns l "i + 1"] smaller(2) ns(1) by auto
      have "gave e (map (said (s_addr s)) (passed ?buf ns)) c (state_of x)"
        using gave_trans [OF gave_trans [OF g g1] x(4)] e1(2) by simp
      then show ?thesis using step x(1-3) False alive by (simp add: ns(2))
    next
      case data: False
      have msg: "take (nat r) ?buf = bs" using over0_take bs(1) by simp
      let ?m = "said (s_addr s) bs"
      have short: "length ?m \<le> 5000" by (rule texts_short(3) [OF bs(2)])
      have h: "HandleMessage (s_addr s) (take (nat r) ?buf) ?c = Some (told ?m ?c)"
        using Notify_told [OF chat_inv_sessions [OF c] short] by (simp add: HandleMessage_def msg)
      let ?s1 = "queue_all [?m] ?s"
      have c1: "chat_inv n (told ?m ?c)" by (rule told_inv [OF c short])
      have e1: "store (told ?m ?c) e = Some ?s1" "c_buf (told ?m ?c) = ?buf" by (simp_all add: told_def put_session_def)
      have g1: "gave e [?m] ?c (told ?m ?c)" by (rule gave_told [of _ _ ?s]) (simp add: put_session_def)
      have "pending (s_kcp ?s1) \<le> f'" "received (Suc f') (s_kcp ?s1) = (ns, l)" 
        using smaller(2) ns(1) by (simp_all add: received_queue del: received.simps(2))
      from less.IH [OF smaller(1) c1 e1(1) this, of "i + 1"]
      obtain x where x: "message_loop e clk (i + 1) (told ?m ?c) = Some x" "isl x = (l = -3)" "chat_inv n (state_of x)"
          "gave e (map (said (s_addr ?s1)) (passed (c_buf (told ?m ?c)) ns)) (told ?m ?c) (state_of x)" by blast
      have "gave e (map (said (s_addr s)) (passed (c_buf c) ms)) c (state_of x)"
        using gave_trans [OF gave_trans [OF g g1] x(4)] e1(2) data by (simp add: ns(2) Let_def)
      then show ?thesis using step x(1-3) False data h by simp
    qed
  qed
qed

definition greeting :: "chat \<Rightarrow> u32 \<Rightarrow> addr \<Rightarrow> u8 list list" where
  "greeting c e a = (if e \<in> set (sessions c) then [] else [joined a])"

text \<open>The session that a datagram belongs to: the one that there is, moved to the address of the sender, or a new one.\<close>

definition peer :: "chat \<Rightarrow> u32 \<Rightarrow> addr \<Rightarrow> kcp_session" where
  "peer c e a = (case store c e of Some s \<Rightarrow> s\<lparr>s_addr := a\<rparr> | None \<Rightarrow> queue_all [joined a] (KcpSession (KcpOpt\<lparr>opt_conv := e\<rparr>) a))"

lemma peer_addr [simp]: "s_addr (peer c e a) = a"
  by (simp add: peer_def KcpSession_def Let_def split: option.splits)

text \<open>The messages that the session gets out of a datagram, and the last result of \<open>ikcp_recv\<close>.\<close>

definition heard :: "u8 list \<Rightarrow> kcp_session \<Rightarrow> u8 list list \<times> int" where
  "heard d s = (case ikcp_input (s_kcp s) d of
     Some (ret, k) \<Rightarrow> if ret \<noteq> 0 then ([], 0) else received (Suc (pending k)) k
   | None \<Rightarrow> ([], 0))"

lemma new_session_ok: "sess_ok 0 e (KcpSession (KcpOpt\<lparr>opt_conv := e\<rparr>) a)"
proof -
  have start: "session_inv (session_start e 1400 32 128 0)" by (rule session_inv_start) (simp_all add: int_range_def)
  have s: "s_kcp (KcpSession (KcpOpt\<lparr>opt_conv := e\<rparr>) a) = snd (ikcp_nodelay (session_start e 1400 32 128 0) 0 10 0 0)"
    by (simp add: KcpSession_def KcpOpt_def session_start_def ikcp_setmtu_def ikcp_nodelay_def ikcp_wndsize_def Let_def ikcp_init_def u32_def)
  then have "session_inv (s_kcp (KcpSession (KcpOpt\<lparr>opt_conv := e\<rparr>) a))" using session_inv_nodelay [OF start] by simp
  then show ?thesis
    by (simp add: sess_ok_def KcpSession_def KcpOpt_def ikcp_nodelay_def ikcp_wndsize_def Let_def ikcp_init_def rcv_fits_def u32_def imax_def)
qed

lemma GetSession_ok:
  assumes "chat_inv n c"
  shows "\<exists>c'. GetSession e a c = Some c' \<and> chat_inv n c' \<and> e \<in> set (sessions c') \<and>
    store c' = (\<lambda>x. if x = e then Some (peer c e a) else map_option (queue_all (greeting c e a)) (store c x)) \<and>
    users c' = (if e \<in> set (sessions c) then users c else e # users c) \<and> c_buf c' = c_buf c \<and> outbox c' = outbox c"
proof (cases "e \<in> set (sessions c)")
  case True
  then obtain s where s: "store c e = Some s" "sess_ok n e s" using chat_inv_user [OF assms] by blast
  let ?c = "put_session e (s\<lparr>s_addr := a\<rparr>) c"
  have "put_session e (s\<lparr>s_addr := a\<rparr>) c = c" if "s_addr s = a"
    using s(1) that by (auto simp: put_session_def fun_upd_idem)
  then have "GetSession e a c = Some ?c" using True s(1) by (simp add: GetSession_def)
  moreover have "chat_inv n ?c" using put_inv [OF assms True, of "s\<lparr>s_addr := a\<rparr>" "c_buf c"] s(2) chat_inv_store [OF assms s(1)] by simp
  moreover have "store ?c = (\<lambda>x. if x = e then Some (peer c e a) else map_option (queue_all (greeting c e a)) (store c x))"
    using s(1) True by (simp add: put_session_def peer_def greeting_def map_queue_nil fun_eq_iff)
  ultimately show ?thesis using True by (simp add: put_session_def)
next
  case False
  let ?s = "KcpSession (KcpOpt\<lparr>opt_conv := e\<rparr>) a"
  have none: "store c e = None" and opt: "c_opt c = KcpOpt" using False assms by (auto simp: chat_inv_def)
  let ?c = "(put_session e ?s c)\<lparr>users := e # users c\<rparr>"
  have "sess_ok n e ?s" by (rule sess_ok_mono [OF new_session_ok]) simp
  then have c: "chat_inv n (?c\<lparr>sessions := e # sessions c\<rparr>)" using assms False by (auto simp: chat_inv_def put_session_def)
  have "NewSession e a c = Some (told (joined a) ?c)"
    using Notify_told [OF c texts_short(1)] opt by (simp add: NewSession_def HandleConnection_def put_session_def)
  moreover have "store (told (joined a) ?c) e = Some (peer c e a)" using none by (simp add: told_def put_session_def peer_def)
  ultimately have "GetSession e a c = Some ((told (joined a) ?c)\<lparr>sessions := e # sessions c\<rparr>)"
    using False by (simp add: GetSession_def) (simp add: told_def put_session_def)
  moreover have "(told (joined a) ?c)\<lparr>sessions := e # sessions c\<rparr> = told (joined a) (?c\<lparr>sessions := e # sessions c\<rparr>)" by (simp add: told_def)
  then have "chat_inv n ((told (joined a) ?c)\<lparr>sessions := e # sessions c\<rparr>)" using told_inv [OF c texts_short(1)] by metis
  moreover have "store (told (joined a) ?c) = (\<lambda>x. if x = e then Some (peer c e a) else map_option (queue_all (greeting c e a)) (store c x))"
    using False none by (auto simp: told_def put_session_def greeting_def peer_def fun_eq_iff)
  moreover have "users (told (joined a) ?c) = e # users c" "c_buf (told (joined a) ?c) = c_buf c" "outbox (told (joined a) ?c) = outbox c"
    by (simp_all add: told_def put_session_def)
  ultimately show ?thesis using False by (intro exI [of _ "(told (joined a) ?c)\<lparr>sessions := e # sessions c\<rparr>"]) simp
qed

lemma HandleSession_ok:
  assumes "chat_inv n c" "n < 2 ^ 23" "store c e = Some s" "heard (take len (c_buf c)) s = (ms, l)"
  shows "\<exists>x. HandleSession e len clk c = Some x \<and> isl x = (l = -3) \<and> chat_inv (n + 1) (state_of x) \<and>
    gave e (map (said (s_addr s)) (passed (c_buf c) ms)) c (state_of x)"
proof -
  let ?d = "take len (c_buf c)"
  have ok: "sess_ok n e s" "e \<in> set (sessions c)" "length (c_buf c) = body_size" using chat_inv_store [OF assms(1,3)] by auto
  have d: "length ?d \<le> body_size" using ok(3) by simp
  then have div: "length ?d div 24 \<le> 170" by (simp add: body_size_def)
  have k: "session_inv (s_kcp s)" "rcv_fits body_size (s_kcp s)" "unat (k_ackcount (s_kcp s)) \<le> 170 * n" using ok(1) by (simp_all add: sess_ok_def)
  have "n < 8388608" using assms(2) by simp
  then have "unat (k_ackcount (s_kcp s)) + length ?d div 24 < 2147483648" using div k(3) by linarith
  then have "unat (k_ackcount (s_kcp s)) + length ?d div 24 < 2 ^ 31" by simp
  then obtain ret k' where i: "ikcp_input (s_kcp s) ?d = Some (ret, k')" "session_inv k'" "same (s_kcp s) k'" "rcv_fits body_size k'"
      "unat (k_ackcount k') \<le> unat (k_ackcount (s_kcp s)) + length ?d div 24" using input_fits [OF k(1,2) _ d] by blast
  have q: "k_snd_queue k' = k_snd_queue (s_kcp s)"
    using input_kept [OF _ i(1)] k(1) by (simp add: kept_def session_inv_def conn_inv_def)
  let ?s = "s\<lparr>s_kcp := k'\<rparr>"
  let ?c = "put_session e ?s c"
  have "sess_ok (n + 1) e ?s" using ok(1) i k(3) div by (auto simp: sess_ok_def same_def)
  then have c: "chat_inv (n + 1) ?c" using put_inv [OF chat_inv_mono [OF assms(1)] ok(2), of "n + 1" ?s "c_buf c"] ok(3) by simp
  have g: "gave e [] c ?c" using gave_put [OF assms(3), of ?s "c_buf c"] q by simp
  show ?thesis
  proof (cases "ret = 0")
    case False
    then have "ms = []" "l = 0" using assms(4) i(1) by (simp_all add: heard_def)
    moreover have "HandleSession e len clk c = Some (Inr ?c)" using False i(1) assms(3) by (simp add: HandleSession_def session_Input_def)
    ultimately show ?thesis using c g by simp
  next
    case True
    then have rec: "received (Suc (pending k')) k' = (ms, l)" using assms(4) i(1) by (simp add: heard_def)
    have s1: "store ?c e = Some ?s" "c_buf ?c = c_buf c" by (simp_all add: put_session_def)
    obtain x where x: "message_loop e clk 0 ?c = Some x" "isl x = (l = -3)" "chat_inv (n + 1) (state_of x)"
        "gave e (map (said (s_addr ?s)) (passed (c_buf ?c) ms)) ?c (state_of x)"
      using message_loop_ok [OF c s1(1), of "pending k'" ms l clk 0] rec by (auto simp del: received.simps(2))
    have "HandleSession e len clk c = Some x" using True i(1) assms(3) x(1) by (simp add: HandleSession_def session_Input_def)
    then show ?thesis using x(2,3) gave_trans [OF g x(4)] s1(2) by simp
  qed
qed

lemma datagram_ok:
  assumes "chat_inv n c" "n < 2 ^ 23" "24 \<le> length d" "length d \<le> body_size" "heard d (peer c e a) = (ms, l)" "e = ucast (le_word (take 4 d))"
  shows "\<exists>x s. chat_datagram (Some (a, d)) clk c = Some x \<and> isl x = (l = -3) \<and> chat_inv (n + 1) (state_of x) \<and>
    (\<forall>u. u \<noteq> e \<longrightarrow> store (state_of x) u = map_option (queue_all (greeting c e a @ map (said a) (passed (over 0 d (c_buf c)) ms))) (store c u)) \<and>
    store (state_of x) e = Some s \<and>
    k_snd_queue (s_kcp s) = k_snd_queue (s_kcp (peer c e a)) @ concat (map frags (map (said a) (passed (over 0 d (c_buf c)) ms))) \<and> s_addr s = a \<and>
    users (state_of x) = (if e \<in> set (users c) then users c else e # users c)"
proof -
  let ?buf = "over 0 d (c_buf c)"
  let ?c = "c\<lparr>c_buf := ?buf\<rparr>"
  have len: "length (c_buf c) = body_size" and us: "set (users c) = set (sessions c)" using assms(1) by (simp_all add: chat_inv_def)
  have buf: "length ?buf = body_size" "take (length d) ?buf = d" "take 4 ?buf = take 4 d"
    using over0_length [of d "c_buf c"] over0_take len assms(3,4) by (simp_all add: over_def)
  have c: "chat_inv n ?c" using assms(1) buf(1) by (simp add: chat_inv_def)
  have p: "peer ?c e a = peer c e a" "greeting ?c e a = greeting c e a" by (simp_all add: peer_def greeting_def)
  obtain c1 where c1: "GetSession e a ?c = Some c1" "chat_inv n c1"
    "store c1 = (\<lambda>x. if x = e then Some (peer c e a) else map_option (queue_all (greeting c e a)) (store c x))"
    "users c1 = (if e \<in> set (users c) then users c else e # users c)" "c_buf c1 = ?buf"
  proof -
    have r: "store ?c = store c" "users ?c = users c" "sessions ?c = sessions c" "c_buf ?c = ?buf" by simp_all
    note g = GetSession_ok [OF c, of e a, unfolded p r]
    show thesis using that g by (auto simp: us)
  qed
  have st: "store c1 e = Some (peer c e a)" by (simp add: c1(3))
  have hd: "heard (take (length d) (c_buf c1)) (peer c e a) = (ms, l)" using assms(5) buf(2) c1(5) by simp
  obtain x where x: "HandleSession e (length d) clk c1 = Some x" "isl x = (l = -3)" "chat_inv (n + 1) (state_of x)"
    "gave e (map (said a) (passed ?buf ms)) c1 (state_of x)"
    using HandleSession_ok [OF c1(2) assms(2) st hd, of clk] c1(5) by auto
  have "chat_datagram (Some (a, d)) clk c = Some x" using assms(3,4) c1(1) x(1) buf(3) assms(6) by (simp add: chat_datagram_def Let_def)
  then show ?thesis using x(2-4) c1(3,4) by (fastforce simp: gave_def option.map_comp comp_def)
qed

lemma chat_datagram_ok:
  assumes "chat_inv n c" "n < 2 ^ 23"
  shows "\<exists>x. chat_datagram r clk c = Some x \<and> chat_inv (n + 1) (state_of x)"
proof (cases r)
  case None
  then show ?thesis using chat_inv_mono [OF assms(1), of "n + 1"] by (simp add: chat_datagram_def)
next
  case (Some q)
  obtain a b where q: "q = (a, b)" by (cases q)
  let ?d = "take body_size b"
  show ?thesis
  proof (cases "length ?d < 24")
    case True
    have "length (over 0 ?d (c_buf c)) = body_size" using assms(1) over0_length [of ?d "c_buf c"] by (simp add: chat_inv_def)
    then have "chat_inv (n + 1) (c\<lparr>c_buf := over 0 ?d (c_buf c)\<rparr>)"
      using chat_inv_mono [OF assms(1), of "n + 1"] by (simp add: chat_inv_def)
    moreover have "chat_datagram r clk c = Some (Inr (c\<lparr>c_buf := over 0 ?d (c_buf c)\<rparr>))"
      using True unfolding chat_datagram_def Some q option.case prod.case Let_def by simp
    ultimately show ?thesis by simp
  next
    case False
    let ?e = "ucast (le_word (take 4 ?d)) :: u32"
    obtain ms l where h: "heard ?d (peer c ?e a) = (ms, l)" by (cases "heard ?d (peer c ?e a)")
    have d: "24 \<le> length ?d" "length ?d \<le> body_size" using False by (simp_all only: not_less length_take min.cobounded2)
    obtain x where x: "chat_datagram (Some (a, ?d)) clk c = Some x" "chat_inv (n + 1) (state_of x)"
      using datagram_ok [OF assms d h refl, of clk] by blast
    have "chat_datagram r clk c = chat_datagram (Some (a, ?d)) clk c" unfolding chat_datagram_def Some q option.case prod.case Let_def by simp
    then show ?thesis using x by simp
  qed
qed

section \<open>A round of updates\<close>

text \<open>The server drops a session when more than the timeout has passed since its last keep-alive, or since its first update.\<close>

definition timed_out :: "i64 \<Rightarrow> kcp_session \<Rightarrow> bool" where
  "timed_out now s \<longleftrightarrow> is_server (s_opt s) \<and>
     sint (now - (if recv_latest_time s = 0 then now else recv_latest_time s)) > sint (keep_alive_timeout (s_opt s))"

lemma timed_out_queue [simp]: "timed_out now (queue_all ds s) = timed_out now s"
  by (simp add: timed_out_def queue_all_def)

lemma update_fits:
  assumes "sess_ok n e s" "ikcp_update (s_kcp s) t = (outs, k)"
  shows "sess_ok n e (s\<lparr>s_kcp := k\<rparr>) \<and> (\<forall>d\<in>set outs. length d \<le> 1400)"
proof -
  let ?k = "s_kcp s"
  obtain u f where u: "u \<noteq> 0" and c: "ikcp_update ?k t = ikcp_flush (?k\<lparr>k_current := t, k_updated := u, k_ts_flush := f\<rparr>) \<or>
    ikcp_update ?k t = ([], ?k\<lparr>k_current := t, k_updated := u, k_ts_flush := f\<rparr>)" using update_cases_live by blast
  let ?j = "?k\<lparr>k_current := t, k_updated := u, k_ts_flush := f\<rparr>"
  have j: "sess_ok n e (s\<lparr>s_kcp := ?j\<rparr>)" using assms(1) by (simp add: sess_ok_def session_inv_clock rcv_fits_def)
  from c show ?thesis
  proof
    assume "ikcp_update ?k t = ikcp_flush ?j"
    then have eq: "outs = fst (ikcp_flush ?j)" "k = snd (ikcp_flush ?j)" using assms(2) by (metis fst_conv, metis snd_conv)
    have live: "k_updated ?j \<noteq> 0" using u by simp
    have i: "session_inv ?j" "k_mtu ?j = 1400" "k_conv ?j = e" using j by (simp_all add: sess_ok_def)
    have "\<forall>d\<in>set outs. length d \<le> 1400" using flush_for_peers [OF i(1) live i(2,3)] unfolding eq(1) for_peers_def by blast
    moreover have "sess_ok n e (s\<lparr>s_kcp := k\<rparr>)"
      using flush_same [OF live] session_inv_flush [OF i(1)] j unfolding eq(2) by (simp add: sess_ok_def same_def rcv_fits_def)
    ultimately show ?thesis by blast
  next
    assume "ikcp_update ?k t = ([], ?j)"
    then show ?thesis using j assms(2) by simp
  qed
qed

lemma session_Update_ok:
  assumes "sess_ok n e s"
  shows "\<exists>outs s'. session_Update now s = Some (timed_out now s, outs, s') \<and> sess_ok n e s' \<and> (\<forall>d\<in>set outs. length d \<le> 1400)"
proof -
  obtain outs k where u: "ikcp_update (s_kcp s) (ucast now) = (outs, k)" by (cases "ikcp_update (s_kcp s) (ucast now)")
  let ?s = "if recv_latest_time s = 0 then s\<lparr>s_kcp := k, recv_latest_time := now\<rparr> else s\<lparr>s_kcp := k\<rparr>"
  have k: "sess_ok n e (s\<lparr>s_kcp := k\<rparr>)" "\<forall>d\<in>set outs. length d \<le> 1400" using update_fits [OF assms u] by simp_all
  then have s: "sess_ok n e ?s" by (simp add: sess_ok_def)
  have s1: "sess_ok n e (?s\<lparr>send_latest_time := now\<rparr>)" using s by (simp del: if_split)
  have alive: "length KCP_KEEP_ALIVE_CMD \<le> 5000" by (simp add: KCP_KEEP_ALIVE_CMD_def bytes_def)
  note send = session_Send_eq [OF s1 alive]
  have t: "timed_out now s = (is_server (s_opt ?s) \<and> sint (now - recv_latest_time ?s) > sint (keep_alive_timeout (s_opt ?s)))"
    by (simp add: timed_out_def)
  have "session_Update now s = Some (timed_out now s, outs, ?s) \<or>
      session_Update now s = Some (timed_out now s, outs, queue_all [KCP_KEEP_ALIVE_CMD] (?s\<lparr>send_latest_time := now\<rparr>))"
    using send unfolding session_Update_def u Let_def prod.case t by (auto simp del: if_split split: if_splits(1))
  then show ?thesis using s send k(2) by blast
qed

text \<open>One session of the round: the others keep what they have, up to the news that it left.\<close>

lemma update_one_ok:
  assumes inv: "chat_inv n c" and s: "store c e = Some s"
  shows "\<exists>c'. update_one e now c = Some c' \<and> chat_inv n c' \<and> set (sessions c') = (if timed_out now s then set (sessions c) - {e} else set (sessions c)) \<and>
    (\<exists>ds. \<forall>u. u \<noteq> e \<longrightarrow> store c' u = map_option (queue_all ds) (store c u))"
proof -
  have ok: "sess_ok n e s" "e \<in> set (sessions c)" "length (c_buf c) = body_size" using chat_inv_store [OF inv s] by auto
  obtain outs s' where u: "session_Update now s = Some (timed_out now s, outs, s')" "sess_ok n e s'" "\<forall>d\<in>set outs. length d \<le> 1400"
    using session_Update_ok [OF ok(1)] by blast
  let ?c = "put_session e s' (c\<lparr>outbox := outbox c @ map (Pair (s_addr s')) outs\<rparr>)"
  have c: "chat_inv n ?c" using inv ok(2) u(2,3) by (auto simp: chat_inv_def put_session_def)
  have one: "update_one e now c = (if timed_out now s then Option.bind (HandleClose e (s_addr s') ?c)
      (\<lambda>c. Some (c\<lparr>sessions := remove1 e (sessions c), store := (store c)(e := None)\<rparr>)) else Some ?c)"
    by (simp add: update_one_def s u(1) Let_def)
  show ?thesis
  proof (cases "timed_out now s")
    case False
    have "\<forall>x. x \<noteq> e \<longrightarrow> store ?c x = map_option (queue_all []) (store c x)" by (simp add: put_session_def map_queue_nil)
    then show ?thesis using one c False by (intro exI [of _ ?c] conjI exI [of _ "[]"]) (simp_all add: put_session_def)
  next
    case True
    let ?d = "?c\<lparr>users := remove1 e (users c)\<rparr>"
    let ?t = "left_room (s_addr s')"
    let ?f = "told ?t ?d"
    have us: "distinct (users c)" "distinct (sessions c)" "set (users c) = set (sessions c)" using inv by (simp_all add: chat_inv_def)
    have "\<forall>x\<in>set (users ?d). \<exists>s. store ?d x = Some s \<and> sess_ok n x s" using chat_inv_user [OF inv] us by (simp add: put_session_def)
    moreover have "distinct (users ?d)" using us by simp
    ultimately have "Notify ?t (users ?d) ?d = Some (?d\<lparr>store := (\<lambda>x. if x \<in> set (users ?d) then map_option (queue_all [?t]) (store ?d x) else store ?d x)\<rparr>)"
      using texts_short(2) by (intro Notify_eq)
    then have close: "HandleClose e (s_addr s') ?c = Some (?d\<lparr>store := (\<lambda>x. if x \<in> set (users ?d) then map_option (queue_all [?t]) (store ?d x) else store ?d x)\<rparr>)"
      by (simp add: HandleClose_def put_session_def)
    let ?g = "?f\<lparr>sessions := remove1 e (sessions c), store := (store ?f)(e := None)\<rparr>"
    have dom: "store c x = None" if "x \<notin> set (sessions c)" for x using inv that by (auto simp: chat_inv_def)
    have st: "(\<lambda>x. if x \<in> set (users ?d) then map_option (queue_all [?t]) (store ?d x) else store ?d x)(e := None) = (store ?f)(e := None)"
      using us dom by (auto simp: told_def put_session_def fun_eq_iff)
    have "update_one e now c = Some ?g" using one True close st by (simp add: told_def put_session_def)
    moreover have "chat_inv n ?g"
    proof -
      have "sess_ok n x (queue_all [?t] y)" if "store c x = Some y" for x y using session_Send_eq [OF _ texts_short(2)] chat_inv_store [OF inv that] by blast
      moreover have "(\<exists>y. store c x = Some y) = (x \<in> set (sessions c))" for x using inv by (auto simp: chat_inv_def)
      ultimately show ?thesis using c us by (auto simp: chat_inv_def told_def put_session_def)
    qed
    moreover have "\<forall>x. x \<noteq> e \<longrightarrow> store ?g x = map_option (queue_all [?t]) (store c x)" by (simp add: told_def put_session_def)
    moreover have "set (sessions ?g) = set (sessions c) - {e}" using us by simp
    ultimately show ?thesis using True by auto
  qed
qed

lemma update_loop_ok:
  assumes "chat_inv n c" "distinct (map fst es)" "set (map fst es) \<subseteq> set (sessions c)"
  shows "\<exists>c'. update_loop es c = Some c' \<and> chat_inv n c' \<and>
    set (sessions c') = set (sessions c) - {e. \<exists>now s. (e, now) \<in> set es \<and> store c e = Some s \<and> timed_out now s}"
  using assms
proof (induction es arbitrary: c)
  case (Cons x es)
  obtain e now where x: "x = (e, now)" by (cases x)
  have "e \<in> set (sessions c)" using Cons.prems(3) x by simp
  then obtain s where s: "store c e = Some s" using chat_inv_user [OF Cons.prems(1)] by blast
  obtain c1 ds where c1: "update_one e now c = Some c1" "chat_inv n c1"
      "set (sessions c1) = (if timed_out now s then set (sessions c) - {e} else set (sessions c))" "\<forall>u. u \<noteq> e \<longrightarrow> store c1 u = map_option (queue_all ds) (store c u)"
    using update_one_ok [OF Cons.prems(1) s] by blast
  have es: "e \<notin> fst ` set es" "distinct (map fst es)" using Cons.prems(2) x by auto
  have "set (map fst es) \<subseteq> set (sessions c1)" using Cons.prems(3) es(1) c1(3) by auto
  from Cons.IH [OF c1(2) es(2) this] obtain c' where c': "update_loop es c1 = Some c'" "chat_inv n c'"
      "set (sessions c') = set (sessions c1) - {e. \<exists>now s. (e, now) \<in> set es \<and> store c1 e = Some s \<and> timed_out now s}" by blast
  have same: "(\<exists>s. store c1 u = Some s \<and> timed_out t s) = (\<exists>s. store c u = Some s \<and> timed_out t s)" if "(u, t) \<in> set es" for u t
  proof -
    have "u \<noteq> e" using es(1) that by force
    then show ?thesis using c1(4) by auto
  qed
  have "{u. \<exists>now s. (u, now) \<in> set es \<and> store c1 u = Some s \<and> timed_out now s} = {u. \<exists>now s. (u, now) \<in> set es \<and> store c u = Some s \<and> timed_out now s}"
    using same by blast
  then have "set (sessions c') = set (sessions c) - {u. \<exists>now s. (u, now) \<in> set (x # es) \<and> store c u = Some s \<and> timed_out now s}"
    unfolding c'(3) c1(3) using s es(1) by (auto simp: x)
  then show ?case using c1(1) c'(1,2) by (auto simp: x)
qed simp

section \<open>Properties\<close>

lemma chat_begin_inv: "chat_inv 0 (chat_begin KcpOpt)"
  by (simp add: chat_inv_def chat_begin_def)

lemma chat_reach_inv: "chat_reach n c \<Longrightarrow> n \<le> 2 ^ 23 \<Longrightarrow> chat_inv n c"
proof (induction rule: chat_reach.induct)
  case reach_begin
  show ?case by (rule chat_begin_inv)
next
  case (reach_step n c c')
  then have inv: "chat_inv n c" and n: "n < 2 ^ 23" by simp_all
  from reach_step.hyps(2) show ?case
  proof cases
    case (step_datagram r clk)
    then show ?thesis using chat_datagram_ok [OF inv n, of r clk] by auto
  next
    case (step_updates es)
    have "distinct (sessions c)" using inv by (simp add: chat_inv_def)
    then have "distinct (map fst es)" "set (map fst es) \<subseteq> set (sessions c)"
      using step_updates(1) mset_eq_imp_distinct_iff mset_eq_setD by blast+
    then show ?thesis using update_loop_ok [OF inv] step_updates(2) chat_inv_mono [of n c' "n + 1"] by force
  qed
qed

text \<open>C5: In every run of the server of at most \<open>2 ^ 23\<close> steps, whatever datagrams arrive from whatever addresses and whatever the clock shows,
  the next datagram and the next round of updates are handled without an undefined step (no failed assertion, no session used that is gone);
  the users of the room are the sessions of the server, each once, and every datagram that goes out has at most 1400 bytes.\<close>

theorem chat_safe:
  assumes "chat_reach n c" "n < 2 ^ 23"
  shows "(\<forall>r clk. chat_datagram r clk c \<noteq> None) \<and> (\<forall>es. mset (map fst es) = mset (sessions c) \<longrightarrow> update_loop es c \<noteq> None) \<and>
    distinct (users c) \<and> mset (users c) = mset (sessions c) \<and> (\<forall>e. store c e \<noteq> None \<longleftrightarrow> e \<in> set (sessions c)) \<and> (\<forall>(a, d)\<in>set (outbox c). length d \<le> 1400)"
proof -
  have inv: "chat_inv n c" using chat_reach_inv [OF assms(1)] assms(2) by simp
  have d: "distinct (sessions c)" "distinct (users c)" "set (users c) = set (sessions c)" using inv by (simp_all add: chat_inv_def)
  have "update_loop es c \<noteq> None" if "mset (map fst es) = mset (sessions c)" for es
    using update_loop_ok [OF inv, of es] d(1) mset_eq_imp_distinct_iff [OF that] mset_eq_setD [OF that] by auto
  moreover have "chat_datagram r clk c \<noteq> None" for r clk using chat_datagram_ok [OF inv assms(2), of r clk] by auto
  moreover have "mset (users c) = mset (sessions c)" using d set_eq_iff_mset_eq_distinct by blast
  ultimately show ?thesis using inv unfolding chat_inv_def by blast
qed

definition addr1 :: addr where "addr1 = ((10, 0, 0, 1), 5000)"

definition room1 :: chat where "room1 = state_of (the (chat_datagram (Some (addr1, hello)) (\<lambda>_. 7) (chat_begin KcpOpt)))"

lemma body_size_int [code_unfold]: "int body_size = 4096"
  by (simp add: body_size_def)

lemma heard_hello: "heard hello (peer (chat_begin KcpOpt) 1 addr1) = ([[104, 105]], -1)"
proof -
  have "peer (chat_begin KcpOpt) 1 addr1 = queue_all [joined addr1] (KcpSession (KcpOpt\<lparr>opt_conv := 1\<rparr>) addr1)" by (simp add: peer_def chat_begin_def)
  moreover have "heard hello (s\<lparr>s_kcp := (s_kcp s)\<lparr>k_snd_queue := q, k_nsnd_que := m\<rparr>\<rparr>) = ([[104, 105]], -1)"
    if "s = KcpSession (KcpOpt\<lparr>opt_conv := 1\<rparr>) addr1" for s q m unfolding that by code_simp
  ultimately show ?thesis unfolding queue_all_def by metis
qed

lemma hello_conv: "(1 :: u32) = ucast (le_word (take 4 hello))" "length hello = 26"
  by code_simp+

lemma room1: "chat_datagram (Some (addr1, hello)) (\<lambda>_. 7) (chat_begin KcpOpt) = Some (Inr room1)" "users room1 = [1]"
proof -
  obtain x where x: "chat_datagram (Some (addr1, hello)) (\<lambda>_. 7) (chat_begin KcpOpt) = Some x" "\<not> isl x" "users (state_of x) = [1]"
    using datagram_ok [OF chat_begin_inv _ _ _ heard_hello hello_conv(1), of "\<lambda>_. 7"] by (auto simp: hello_conv(2) body_size_def chat_begin_def)
  then show "chat_datagram (Some (addr1, hello)) (\<lambda>_. 7) (chat_begin KcpOpt) = Some (Inr room1)" "users room1 = [1]"
    by (auto simp: room1_def state_of_def split: sum.splits)
qed

lemma room1_reach: "chat_reach 1 room1"
  using reach_step [OF reach_begin step_datagram [OF room1(1)]] by simp

theorem chat_safe_witness: "distinct (users room1) \<and> mset (sessions room1) = {#1#} \<and> (\<exists>c. update_loop [(1, 20)] room1 = Some c)"
proof -
  have s: "distinct (users room1) \<and> mset (users room1) = mset (sessions room1) \<and> (\<forall>es. mset (map fst es) = mset (sessions room1) \<longrightarrow> update_loop es room1 \<noteq> None)"
    using chat_safe [OF room1_reach] by simp
  then have m: "mset (sessions room1) = {#1#}" by (simp add: room1(2))
  then have "mset (map fst [(1 :: u32, 20 :: i64)]) = mset (sessions room1)" by simp
  then have "update_loop [(1, 20)] room1 \<noteq> None" using s by blast
  then show ?thesis using s m by blast
qed

text \<open>C4: A datagram of a reachable room, for conversation \<open>e\<close> from address \<open>a\<close>: a user who is new is added, and everybody, the sender included, gets in order the news
  that the user joined and one line per message that the datagram completes, with the address of the sender; keep-alive commands are not passed on and the other
  sessions are not touched otherwise.  The server exits exactly when a message is next that does not fit its buffer of 4096 bytes.\<close>

theorem chat_broadcast:
  assumes "chat_reach n c" "n < 2 ^ 23" "24 \<le> length d" "length d \<le> body_size"
    and "e = ucast (le_word (take 4 d))" "heard d (peer c e a) = (ms, l)" "lines = map (said a) (passed (over 0 d (c_buf c)) ms)"
  shows "\<exists>x s. chat_datagram (Some (a, d)) clk c = Some x \<and> (isl x \<longleftrightarrow> l = -3) \<and>
    users (state_of x) = (if e \<in> set (users c) then users c else e # users c) \<and>
    (\<forall>u. u \<noteq> e \<longrightarrow> store (state_of x) u = map_option (queue_all (greeting c e a @ lines)) (store c u)) \<and>
    store (state_of x) e = Some s \<and> s_addr s = a \<and> k_snd_queue (s_kcp s) = k_snd_queue (s_kcp (peer c e a)) @ concat (map frags lines)"
proof -
  have "chat_inv n c" using chat_reach_inv [OF assms(1)] assms(2) by simp
  from datagram_ok [OF this assms(2-4,6,5), of clk] show ?thesis unfolding assms(7) by blast
qed

definition addr2 :: addr where "addr2 = ((10, 0, 0, 2), 5000)"

definition hello2 :: "u8 list" where
  "hello2 = ikcp_put_seg [] ((ikcp_segment_new [104, 105] 2 0)\<lparr>seg_conv := 2, seg_cmd := 81, seg_wnd := 128\<rparr>)"

lemma hello2_conv: "(2 :: u32) = ucast (le_word (take 4 hello2))" "length hello2 = 26"
  by code_simp+

lemma room1_user2: "store room1 2 = None" "2 \<notin> set (users room1)" "2 \<notin> set (sessions room1)"
proof -
  have "chat_inv 1 room1" using chat_reach_inv [OF room1_reach] by simp
  moreover show "2 \<notin> set (users room1)" by (simp add: room1(2))
  ultimately show "2 \<notin> set (sessions room1)" "store room1 2 = None" by (auto simp: chat_inv_def)
qed

lemma heard_hello2: "heard hello2 (peer room1 2 addr2) = ([[104, 105]], -1)"
proof -
  have "peer room1 2 addr2 = queue_all [joined addr2] (KcpSession (KcpOpt\<lparr>opt_conv := 2\<rparr>) addr2)" by (simp add: peer_def room1_user2)
  moreover have "heard hello2 (s\<lparr>s_kcp := (s_kcp s)\<lparr>k_snd_queue := q, k_nsnd_que := m\<rparr>\<rparr>) = ([[104, 105]], -1)"
    if "s = KcpSession (KcpOpt\<lparr>opt_conv := 2\<rparr>) addr2" for s q m unfolding that by code_simp
  ultimately show ?thesis unfolding queue_all_def by metis
qed

lemma hi_passed: "passed buf [[104, 105]] = [[104, 105]]"
  by (simp add: over_def KCP_KEEP_ALIVE_CMD_def bytes_def)

theorem chat_broadcast_witness:
  "\<exists>c. chat_datagram (Some (addr2, hello2)) (\<lambda>_. 9) room1 = Some (Inr c) \<and> users c = [2, 1] \<and>
    store c 1 = map_option (queue_all [joined addr2, said addr2 [104, 105]]) (store room1 1)"
proof -
  obtain x where x: "chat_datagram (Some (addr2, hello2)) (\<lambda>_. 9) room1 = Some x" "\<not> isl x" "users (state_of x) = [2, 1]"
    "store (state_of x) 1 = map_option (queue_all (greeting room1 2 addr2 @ map (said addr2) (passed (over 0 hello2 (c_buf room1)) [[104, 105]]))) (store room1 1)"
    using chat_broadcast [OF room1_reach _ _ _ hello2_conv(1) heard_hello2 refl, of "\<lambda>_. 9"] room1_user2 room1(2)
    by (auto simp: hello2_conv(2) body_size_def)
  then have "store (state_of x) 1 = map_option (queue_all [joined addr2, said addr2 [104, 105]]) (store room1 1)"
    by (simp only: hi_passed greeting_def room1_user2 if_False list.map append.simps)
  then show ?thesis using x(1-3) by (cases x) simp_all
qed

text \<open>A round of updates of a reachable room leaves exactly the users whose last keep-alive command is not longer ago than the timeout at the reading of the clock
  for them (a session without one is counted from its first update): the others are out of the room, of the map and of the store.\<close>

theorem chat_timeouts:
  assumes "chat_reach n c" "n < 2 ^ 23" "mset (map fst es) = mset (sessions c)"
  shows "\<exists>c'. update_loop es c = Some c' \<and> mset (users c') = mset (sessions c') \<and>
    (\<forall>e. (\<exists>s. store c' e = Some s) = (\<exists>now s. (e, now) \<in> set es \<and> store c e = Some s \<and> \<not> timed_out now s)) \<and>
    (\<forall>e. e \<in> set (users c') \<longleftrightarrow> (\<exists>s. store c' e = Some s))"
proof -
  have inv: "chat_inv n c" using chat_reach_inv [OF assms(1)] assms(2) by simp
  have es: "distinct (map fst es)" "set (map fst es) = set (sessions c)"
    using inv mset_eq_imp_distinct_iff [OF assms(3)] mset_eq_setD [OF assms(3)] by (auto simp: chat_inv_def)
  then obtain c' where c': "update_loop es c = Some c'" "chat_inv n c'"
      "set (sessions c') = set (sessions c) - {e. \<exists>now s. (e, now) \<in> set es \<and> store c e = Some s \<and> timed_out now s}"
    using update_loop_ok [OF inv es(1)] by auto
  have st: "e \<in> set (users c') \<longleftrightarrow> (\<exists>s. store c' e = Some s)" "e \<in> set (sessions c') \<longleftrightarrow> (\<exists>s. store c' e = Some s)" for e
    using c'(2) by (auto simp: chat_inv_def)
  have "mset (users c') = mset (sessions c')" using c'(2) set_eq_iff_mset_eq_distinct unfolding chat_inv_def by blast
  moreover have "(\<exists>s. store c' e = Some s) = (\<exists>now s. (e, now) \<in> set es \<and> store c e = Some s \<and> \<not> timed_out now s)" for e
  proof
    assume "\<exists>s. store c' e = Some s"
    then have e: "e \<in> set (sessions c)" "\<not> (\<exists>now s. (e, now) \<in> set es \<and> store c e = Some s \<and> timed_out now s)" using st(2) c'(3) by auto
    then obtain now s where "(e, now) \<in> set es" "store c e = Some s" using es(2) chat_inv_user [OF inv e(1)] by fastforce
    then show "\<exists>now s. (e, now) \<in> set es \<and> store c e = Some s \<and> \<not> timed_out now s" using e(2) by blast
  next
    assume "\<exists>now s. (e, now) \<in> set es \<and> store c e = Some s \<and> \<not> timed_out now s"
    then obtain now s where n: "(e, now) \<in> set es" "store c e = Some s" "\<not> timed_out now s" by blast
    have "t = now" if "(e, t) \<in> set es" for t using eq_key_imp_eq_value [OF es(1)] that n(1) by blast
    moreover have "r = s" if "store c e = Some r" for r using n(2) that by simp
    ultimately have "\<not> (\<exists>now s. (e, now) \<in> set es \<and> store c e = Some s \<and> timed_out now s)" using n(3) by metis
    then have "e \<in> set (sessions c')" using chat_inv_store [OF inv n(2)] unfolding c'(3) by simp
    then show "\<exists>s. store c' e = Some s" using st(2) by blast
  qed
  ultimately show ?thesis using c'(1) st(1) by blast
qed

theorem chat_timeouts_witness:
  "\<exists>c. update_loop [(1, 20)] room1 = Some c \<and> mset (users c) = mset (sessions c) \<and>
    (1 \<in> set (users c) \<longleftrightarrow> (\<exists>s. store room1 1 = Some s \<and> \<not> timed_out 20 s)) \<and> 2 \<notin> set (users c)"
proof -
  have "mset (users room1) = mset (sessions room1)"
    using chat_reach_inv [OF room1_reach] set_eq_iff_mset_eq_distinct by (auto simp: chat_inv_def)
  then have "mset (map fst [(1 :: u32, 20 :: i64)]) = mset (sessions room1)" by (simp add: room1(2))
  from chat_timeouts [OF room1_reach _ this] show ?thesis by force
qed

end
