(* ===== verification/Dlist_Heap.thy ===== *)
theory Dlist_Heap
  imports Prelude "HOL-Library.Monad_Syntax"
begin

text \<open>
  The intrusive doubly linked list behind the address books and the thread pools: the macros
  \<open>LIST_INSERT\<close> and \<open>LIST_REMOVE\<close>, which \<open>contact.c\<close>, \<open>26Alpha_contact.c\<close>, \<open>threadpool.c\<close> and the two
  \<open>threadpool.h\<close> files define with the same text.  Nodes live in an explicit heap, so that what
  the macros do to shared nodes is visible: 0 is \<open>NULL\<close>, an address that is not allocated is
  \<open>None\<close>, and following such a pointer makes the operation \<open>None\<close> (undefined behaviour in C).
  The locale \<open>intrusive_list\<close> is what the clients rely on.
\<close>

section \<open>The macros\<close>

record 'a dnode =
  n_data :: 'a
  n_next :: nat
  n_prev :: nat

type_synonym 'a heap = "nat \<Rightarrow> 'a dnode option"

definition set_next :: "'a heap \<Rightarrow> nat \<Rightarrow> nat \<Rightarrow> 'a heap option" where
  "set_next h p x = (case h p of None \<Rightarrow> None | Some n \<Rightarrow> Some (h(p \<mapsto> n\<lparr>n_next := x\<rparr>)))"

definition set_prev :: "'a heap \<Rightarrow> nat \<Rightarrow> nat \<Rightarrow> 'a heap option" where
  "set_prev h p x = (case h p of None \<Rightarrow> None | Some n \<Rightarrow> Some (h(p \<mapsto> n\<lparr>n_prev := x\<rparr>)))"

definition LIST_INSERT :: "nat \<Rightarrow> nat \<Rightarrow> 'a heap \<Rightarrow> ('a heap \<times> nat) option" where
  "LIST_INSERT item list h = do {
     h \<leftarrow> set_prev h item 0;
     h \<leftarrow> set_next h item list;
     h \<leftarrow> (if list \<noteq> 0 then set_prev h list item else Some h);
     Some (h, item) }"

definition LIST_REMOVE :: "nat \<Rightarrow> nat \<Rightarrow> 'a heap \<Rightarrow> ('a heap \<times> nat) option" where
  "LIST_REMOVE item list h = do {
     list \<leftarrow> (if list = item then map_option n_next (h list) else Some list);
     n \<leftarrow> h item;
     h \<leftarrow> (if n_prev n \<noteq> 0 then set_next h (n_prev n) (n_next n) else Some h);
     n \<leftarrow> h item;
     h \<leftarrow> (if n_next n \<noteq> 0 then set_prev h (n_next n) (n_prev n) else Some h);
     h \<leftarrow> set_next h item 0;
     h \<leftarrow> set_prev h item 0;
     Some (h, list) }"

section \<open>Lists in the heap\<close>

text \<open>\<open>dseg h prv p xs q l\<close>: from \<open>p\<close> run the nodes \<open>xs\<close>, whose first has \<open>prv\<close> before it, whose last is \<open>l\<close>
  and points to \<open>q\<close>.\<close>

fun dseg :: "'a heap \<Rightarrow> nat \<Rightarrow> nat \<Rightarrow> nat list \<Rightarrow> nat \<Rightarrow> nat \<Rightarrow> bool" where
  "dseg h prv p [] q l = (p = q \<and> l = prv)"
| "dseg h prv p (x # xs) q l =
     (p = x \<and> x \<noteq> 0 \<and> (case h x of None \<Rightarrow> False
        | Some n \<Rightarrow> n_prev n = prv \<and> dseg h x (n_next n) xs q l))"

definition is_list :: "'a heap \<Rightarrow> nat \<Rightarrow> nat list \<Rightarrow> bool" where
  "is_list h p xs \<longleftrightarrow> distinct xs \<and> dseg h 0 p xs 0 (if xs = [] then 0 else last xs)"

definition data_at :: "'a heap \<Rightarrow> nat \<Rightarrow> 'a option" where
  "data_at h p = map_option n_data (h p)"

lemma dseg_append:
  "dseg h prv p (xs @ ys) q l \<longleftrightarrow> (\<exists>m k. dseg h prv p xs m k \<and> dseg h k m ys q l)"
  by (induction xs arbitrary: prv p) (auto split: option.splits)

lemma dseg_last: "dseg h prv p xs q l \<Longrightarrow> l = (if xs = [] then prv else last xs)"
  by (induction xs arbitrary: prv p) (auto split: option.splits)

lemma dseg_nonzero: "dseg h prv p xs q l \<Longrightarrow> 0 \<notin> set xs"
  by (induction xs arbitrary: prv p) (auto split: option.splits)

lemma dseg_alloc: "dseg h prv p xs q l \<Longrightarrow> x \<in> set xs \<Longrightarrow> \<exists>n. h x = Some n"
  by (induction xs arbitrary: prv p) (auto split: option.splits)

lemma dseg_frame: "\<forall>x\<in>set xs. h' x = h x \<Longrightarrow> dseg h' prv p xs q l = dseg h prv p xs q l"
  by (induction xs arbitrary: prv p) (auto split: option.splits)

lemma dseg_upd [simp]: "x \<notin> set xs \<Longrightarrow> dseg (h(x := v)) prv p xs q l = dseg h prv p xs q l"
  by (rule dseg_frame) auto

lemma is_list_frame: "\<forall>x\<in>set xs. h' x = h x \<Longrightarrow> is_list h p xs \<Longrightarrow> is_list h' p xs"
  unfolding is_list_def using dseg_frame [of xs h' h] by blast

lemma is_list_head: "is_list h p xs \<Longrightarrow> p = (case xs of [] \<Rightarrow> 0 | x # _ \<Rightarrow> x)"
  by (cases xs) (auto simp: is_list_def)

lemma set_next_Some: "h p = Some n \<Longrightarrow> set_next h p x = Some (h(p \<mapsto> n\<lparr>n_next := x\<rparr>))"
  by (simp add: set_next_def)

lemma set_prev_Some: "h p = Some n \<Longrightarrow> set_prev h p x = Some (h(p \<mapsto> n\<lparr>n_prev := x\<rparr>))"
  by (simp add: set_prev_def)

lemma data_at_upd: "h p = Some n \<Longrightarrow> n_data m = n_data n \<Longrightarrow> data_at (h(p \<mapsto> m)) = data_at h"
  by (rule ext) (simp add: data_at_def)

text \<open>What an operation on the nodes \<open>ys\<close> may change: links of those nodes, no data.\<close>

definition only_links :: "nat set \<Rightarrow> 'a heap \<Rightarrow> 'a heap \<Rightarrow> bool" where
  "only_links A h h' \<longleftrightarrow> data_at h' = data_at h \<and> (\<forall>y. y \<notin> A \<longrightarrow> h' y = h y)"

lemma only_links_refl: "only_links A h h"
  by (simp add: only_links_def)

lemma only_links_trans: "only_links A h h' \<Longrightarrow> only_links A h' h'' \<Longrightarrow> only_links A h h''"
  by (simp add: only_links_def)

lemma only_links_mono: "only_links A h h' \<Longrightarrow> A \<subseteq> B \<Longrightarrow> only_links B h h'"
  by (auto simp: only_links_def)

lemma set_next_links:
  assumes "h p = Some n" and "p \<in> A"
  shows "\<exists>h'. set_next h p x = Some h' \<and> only_links A h h' \<and> h' p = Some (n\<lparr>n_next := x\<rparr>) \<and>
    (\<forall>y. y \<noteq> p \<longrightarrow> h' y = h y)"
  using assms by (simp add: set_next_Some only_links_def data_at_upd)

lemma set_prev_links:
  assumes "h p = Some n" and "p \<in> A"
  shows "\<exists>h'. set_prev h p x = Some h' \<and> only_links A h h' \<and> h' p = Some (n\<lparr>n_prev := x\<rparr>) \<and>
    (\<forall>y. y \<noteq> p \<longrightarrow> h' y = h y)"
  using assms by (simp add: set_prev_Some only_links_def data_at_upd)

lemma is_list_insert:
  assumes l: "is_list h p xs" and x: "x \<notin> set xs" "x \<noteq> 0" "data_at h x \<noteq> None"
  shows "\<exists>h'. LIST_INSERT x p h = Some (h', x) \<and> is_list h' x (x # xs) \<and> only_links (set (x # xs)) h h'"
proof -
  obtain n where n: "h x = Some n" using x(3) by (auto simp: data_at_def)
  let ?n = "n\<lparr>n_prev := 0, n_next := p\<rparr>"
  have h1: "set_prev h x 0 = Some (h(x \<mapsto> n\<lparr>n_prev := 0\<rparr>))" using n by (rule set_prev_Some)
  have h2: "set_next (h(x \<mapsto> n\<lparr>n_prev := 0\<rparr>)) x p = Some (h(x \<mapsto> ?n))"
    by (simp add: set_next_def)
  show ?thesis
  proof (cases xs)
    case Nil
    then have "p = 0" using l by (simp add: is_list_def)
    then have "LIST_INSERT x p h = Some (h(x \<mapsto> ?n), x)"
      using h1 h2 by (simp add: LIST_INSERT_def)
    moreover have "only_links (set (x # xs)) h (h(x \<mapsto> ?n))"
      using data_at_upd [of h x n ?n] n by (simp add: only_links_def)
    ultimately show ?thesis
      using Nil x \<open>p = 0\<close> by (simp add: is_list_def)
  next
    case (Cons y ys)
    obtain m where m: "p = y" "y \<noteq> 0" "h y = Some m" "n_prev m = 0"
      and tail: "dseg h y (n_next m) ys 0 (last xs)" and d: "distinct xs"
      using l Cons by (auto simp: is_list_def split: option.splits)
    let ?h = "h(x \<mapsto> ?n, y \<mapsto> m\<lparr>n_prev := x\<rparr>)"
    have yx: "y \<noteq> x" and yy: "y \<notin> set ys" "x \<notin> set ys" using x Cons d by auto
    have "LIST_INSERT x p h = Some (?h, x)"
      using h1 h2 m yx by (simp add: LIST_INSERT_def set_prev_def)
    moreover have "only_links (set (x # xs)) h ?h"
      using n m yx by (simp add: only_links_def Cons data_at_def fun_eq_iff)
    moreover have "is_list ?h x (x # xs)"
      using m x yx yy tail d Cons by (simp add: is_list_def)
    ultimately show ?thesis by blast
  qed
qed

lemma dseg_upd_last_next:
  assumes "dseg h prv p (xs @ [a]) q l" and "h a = Some n" and "distinct (xs @ [a])"
  shows "dseg (h(a \<mapsto> n\<lparr>n_next := q'\<rparr>)) prv p (xs @ [a]) q' l"
  using assms by (auto simp: dseg_append)

lemma dseg_upd_first_prev:
  assumes "dseg h prv p (b # xs) q l" and "h b = Some n" and "b \<notin> set xs"
  shows "dseg (h(b \<mapsto> n\<lparr>n_prev := prv'\<rparr>)) prv' p (b # xs) q l"
  using assms by auto

text \<open>\<open>LIST_REMOVE\<close> split at its three stores.\<close>

lemma is_list_split:
  assumes l: "is_list h p xs" and x: "x \<in> set xs"
  obtains as bs n where "xs = as @ x # bs" "x \<notin> set as" "x \<notin> set bs" "set as \<inter> set bs = {}"
    "distinct as" "distinct bs" "h x = Some n" "x \<noteq> 0" "0 \<notin> set as" "0 \<notin> set bs"
    "n_prev n = (if as = [] then 0 else last as)" "n_next n = (if bs = [] then 0 else hd bs)"
    "dseg h 0 p as x (n_prev n)" "dseg h x (n_next n) bs 0 (if bs = [] then x else last bs)"
proof -
  obtain as bs where xs: "xs = as @ x # bs"
    using x by (meson split_list_first)
  have d: "distinct xs" and s: "dseg h 0 p xs 0 (last xs)"
    using l x by (auto simp: is_list_def split: if_splits)
  have nz: "0 \<notin> set xs" using s by (rule dseg_nonzero)
  obtain k n where as: "dseg h 0 p as x k" and n: "h x = Some n" "n_prev n = k"
    and bs: "dseg h x (n_next n) bs 0 (last xs)"
    using s by (auto simp: xs dseg_append split: option.splits)
  have "k = (if as = [] then 0 else last as)" using dseg_last [OF as] .
  moreover have "n_next n = (if bs = [] then 0 else hd bs)" using bs by (cases bs) auto
  moreover have "last xs = (if bs = [] then x else last bs)" by (simp add: xs)
  ultimately show ?thesis using that [of as bs n] xs d nz as n bs by auto
qed

lemma is_list_remove:
  assumes l: "is_list h p xs" and x: "x \<in> set xs"
  shows "\<exists>h' p'. LIST_REMOVE x p h = Some (h', p') \<and> is_list h' p' (remove1 x xs) \<and> only_links (set xs) h h'"
proof -
  obtain as bs n where xs: "xs = as @ x # bs" and dis: "x \<notin> set as" "x \<notin> set bs" "set as \<inter> set bs = {}"
    "distinct as" "distinct bs" and n: "h x = Some n" and nz: "x \<noteq> 0" "0 \<notin> set as" "0 \<notin> set bs"
    and prv: "n_prev n = (if as = [] then 0 else last as)" and nxt: "n_next n = (if bs = [] then 0 else hd bs)"
    and as: "dseg h 0 p as x (n_prev n)" and bs: "dseg h x (n_next n) bs 0 (if bs = [] then x else last bs)"
    using is_list_split [OF l x] by metis
  have rem: "remove1 x xs = as @ bs" using dis by (simp add: xs remove1_append)
  let ?p = "if p = x then n_next n else p"
  let ?x = "n\<lparr>n_next := 0, n_prev := 0\<rparr>"
  have p: "p = (if as = [] then x else hd as)" using as by (cases as) auto
  have px: "p = x \<longleftrightarrow> as = []" using p dis by (cases as) auto
  text \<open>The store into the predecessor.\<close>
  obtain h1 where h1: "(if n_prev n \<noteq> 0 then set_next h (n_prev n) (n_next n) else Some h) = Some h1"
    "only_links (set as) h h1" "dseg h1 0 ?p as (n_next n) (n_prev n)"
  proof (cases as rule: rev_cases)
    case Nil
    then show ?thesis using that [of h] prv as px by (simp add: only_links_refl)
  next
    case (snoc as' a)
    then obtain m where m: "h a = Some m" using dseg_alloc [OF as, of a] by auto
    have "n_prev n = a" "a \<noteq> 0" using snoc prv nz by auto
    moreover obtain h1 where "set_next h a (n_next n) = Some h1" "only_links (set as) h h1"
      "h1 = h(a \<mapsto> m\<lparr>n_next := n_next n\<rparr>)"
      using set_next_links [of h a m "set as" "n_next n"] m snoc by (auto simp: set_next_Some)
    moreover have "dseg (h(a \<mapsto> m\<lparr>n_next := n_next n\<rparr>)) 0 p as (n_next n) (n_prev n)"
      unfolding snoc by (rule dseg_upd_last_next) (use as m dis snoc in auto)
    ultimately show ?thesis using that [of h1] px snoc by auto
  qed
  have h1x: "h1 x = Some n" and h1bs: "\<forall>y\<in>set bs. h1 y = h y"
    using h1(2) n dis by (auto simp: only_links_def)
  have bs1: "dseg h1 x (n_next n) bs 0 (if bs = [] then x else last bs)"
    using bs dseg_frame [OF h1bs] by blast
  text \<open>The store into the successor.\<close>
  obtain h2 where h2: "(if n_next n \<noteq> 0 then set_prev h1 (n_next n) (n_prev n) else Some h1) = Some h2"
    "only_links (set bs) h1 h2" "dseg h2 (n_prev n) (n_next n) bs 0 (if bs = [] then n_prev n else last bs)"
  proof (cases bs)
    case Nil
    then show ?thesis using that [of h1] nxt by (simp add: only_links_refl)
  next
    case (Cons b bs')
    then obtain m where m: "h1 b = Some m" using dseg_alloc [OF bs1, of b] by auto
    have "n_next n = b" "b \<noteq> 0" using Cons nxt nz by auto
    moreover obtain h2 where "set_prev h1 b (n_prev n) = Some h2" "only_links (set bs) h1 h2"
      "h2 = h1(b \<mapsto> m\<lparr>n_prev := n_prev n\<rparr>)"
      using set_prev_links [of h1 b m "set bs" "n_prev n"] m Cons by (auto simp: set_prev_Some)
    moreover have "dseg (h1(b \<mapsto> m\<lparr>n_prev := n_prev n\<rparr>)) (n_prev n) b (b # bs') 0 (last bs)"
      by (rule dseg_upd_first_prev) (use bs1 m dis Cons in auto)
    ultimately show ?thesis using that [of h2] Cons by auto
  qed
  have h2x: "h2 x = Some n" and h2as: "\<forall>y\<in>set as. h2 y = h1 y"
    using h2(2) h1x dis by (auto simp: only_links_def)
  let ?h = "h2(x \<mapsto> ?x)"
  have "LIST_REMOVE x p h = Some (?h, ?p)"
    using n h1(1) h1x h2(1) h2x by (simp add: LIST_REMOVE_def set_next_def set_prev_def)
  moreover have "is_list ?h ?p (as @ bs)"
  proof -
    have "dseg ?h 0 ?p as (n_next n) (n_prev n)"
      using h1(3) dseg_frame [OF h2as] dis by simp
    moreover have "dseg ?h (n_prev n) (n_next n) bs 0 (if as @ bs = [] then 0 else last (as @ bs))"
      using h2(3) dis prv by (auto split: if_splits)
    ultimately have "dseg ?h 0 ?p (as @ bs) 0 (if as @ bs = [] then 0 else last (as @ bs))"
      unfolding dseg_append by blast
    then show ?thesis using dis by (simp add: is_list_def)
  qed
  moreover have "only_links (set xs) h ?h"
  proof -
    have "only_links (set xs) h h2"
      by (rule only_links_trans [OF only_links_mono [OF h1(2)] only_links_mono [OF h2(2)]]) (auto simp: xs)
    moreover have "only_links (set xs) h2 ?h"
      using h2x by (simp add: only_links_def data_at_upd xs)
    ultimately show ?thesis by (rule only_links_trans)
  qed
  ultimately show ?thesis unfolding rem by blast
qed

section \<open>The interface of the list\<close>

text \<open>
  What the clients of the macros rely on.  \<open>rep h p xs\<close>: the nodes \<open>xs\<close> hang off the head \<open>p\<close>;
  \<open>val h x\<close>: the payload of node \<open>x\<close>; \<open>lnk A h h'\<close>: between \<open>h\<close> and \<open>h'\<close> only links of nodes in \<open>A\<close>
  were written.
\<close>

locale intrusive_list =
  fixes ins :: "nat \<Rightarrow> nat \<Rightarrow> 'h \<Rightarrow> ('h \<times> nat) option"
    and rem :: "nat \<Rightarrow> nat \<Rightarrow> 'h \<Rightarrow> ('h \<times> nat) option"
    and rep :: "'h \<Rightarrow> nat \<Rightarrow> nat list \<Rightarrow> bool"
    and val :: "'h \<Rightarrow> nat \<Rightarrow> 'a option"
    and lnk :: "nat set \<Rightarrow> 'h \<Rightarrow> 'h \<Rightarrow> bool"
  assumes ins_ok: "rep h p xs \<Longrightarrow> x \<notin> set xs \<Longrightarrow> x \<noteq> 0 \<Longrightarrow> val h x \<noteq> None \<Longrightarrow>
      \<exists>h'. ins x p h = Some (h', x) \<and> rep h' x (x # xs) \<and> lnk (set (x # xs)) h h'"
    and rem_ok: "rep h p xs \<Longrightarrow> x \<in> set xs \<Longrightarrow>
      \<exists>h' p'. rem x p h = Some (h', p') \<and> rep h' p' (remove1 x xs) \<and> lnk (set xs) h h'"
    and head: "rep h p xs \<Longrightarrow> p = (case xs of [] \<Rightarrow> 0 | x # _ \<Rightarrow> x)"
    and nodes: "rep h p xs \<Longrightarrow> distinct xs \<and> 0 \<notin> set xs \<and> (\<forall>x\<in>set xs. val h x \<noteq> None)"
    and lnk_val: "lnk A h h' \<Longrightarrow> val h' = val h"
    and lnk_rep: "lnk A h h' \<Longrightarrow> set ys \<inter> A = {} \<Longrightarrow> rep h q ys \<Longrightarrow> rep h' q ys"
begin

definition holds :: "'h \<Rightarrow> nat \<Rightarrow> nat list \<Rightarrow> 'a list \<Rightarrow> bool" where
  "holds h p xs vs \<longleftrightarrow> rep h p xs \<and> map (val h) xs = map Some vs"

lemma head_zero: "rep h p xs \<Longrightarrow> p = 0 \<longleftrightarrow> xs = []"
  using head [of h p xs] nodes [of h p xs] by (cases xs) auto

lemma holds_insert:
  assumes "holds h p xs vs" and "x \<notin> set xs" and "x \<noteq> 0" and "val h x = Some v"
  shows "\<exists>h'. ins x p h = Some (h', x) \<and> holds h' x (x # xs) (v # vs) \<and> lnk (set (x # xs)) h h'"
proof -
  obtain h' where h': "ins x p h = Some (h', x)" "rep h' x (x # xs)" "lnk (set (x # xs)) h h'"
    using ins_ok [of h p xs x] assms by (auto simp: holds_def)
  then have "holds h' x (x # xs) (v # vs)"
    using assms lnk_val [OF h'(3)] by (simp add: holds_def)
  then show ?thesis using h' by blast
qed

lemma holds_pop:
  assumes "holds h p xs (v # vs)"
  shows "\<exists>h' p' ys. xs = p # ys \<and> val h p = Some v \<and> rem p p h = Some (h', p') \<and> holds h' p' ys vs \<and>
    lnk (set xs) h h'"
proof -
  obtain ys where xs: "xs = p # ys"
    using assms head [of h p xs] by (cases xs) (auto simp: holds_def)
  obtain h' p' where "rem p p h = Some (h', p')" "rep h' p' ys" "lnk (set xs) h h'"
    using rem_ok [of h p xs p] assms xs by (auto simp: holds_def)
  moreover from this have "holds h' p' ys vs"
    using assms xs lnk_val [OF \<open>lnk (set xs) h h'\<close>] by (simp add: holds_def)
  ultimately show ?thesis using assms xs by (auto simp: holds_def)
qed

lemma holds_remove:
  assumes "holds h p (as @ x # bs) (us @ v # ws)" and len: "length as = length us"
  shows "\<exists>h' p'. rem x p h = Some (h', p') \<and> holds h' p' (as @ bs) (us @ ws) \<and> lnk (set (as @ x # bs)) h h'"
proof -
  have rep: "rep h p (as @ x # bs)" and val: "map (val h) (as @ x # bs) = map Some (us @ v # ws)"
    using assms by (simp_all add: holds_def)
  have "x \<notin> set as" using nodes [OF rep] by simp
  then obtain h' p' where h': "rem x p h = Some (h', p')" "rep h' p' (as @ bs)" "lnk (set (as @ x # bs)) h h'"
    using rem_ok [OF rep, of x] by (auto simp: remove1_append)
  moreover have "map (val h') (as @ bs) = map Some (us @ ws)"
    using val len unfolding lnk_val [OF h'(3)] by simp
  ultimately show ?thesis by (auto simp: holds_def)
qed

lemma holds_other:
  assumes "holds h q ys ws" and "lnk A h h'" and "set ys \<inter> A = {}"
  shows "holds h' q ys ws"
  using assms lnk_rep [OF assms(2)] lnk_val [OF assms(2)] by (simp add: holds_def)

lemma insert_remove:
  assumes "holds h p xs vs" and "x \<notin> set xs" and "x \<noteq> 0" and "val h x = Some v"
    and "ins x p h = Some (h1, p1)"
  shows "\<exists>h2. rem x p1 h1 = Some (h2, p) \<and> holds h2 p xs vs"
proof -
  have h1: "p1 = x" "holds h1 x (x # xs) (v # vs)"
    using holds_insert [OF assms(1-4)] assms(5) by auto
  then obtain h2 q where "rem x x h1 = Some (h2, q)" "holds h2 q xs vs"
    using holds_pop [of h1 x "x # xs" v vs] by auto
  moreover have "q = p"
    using \<open>holds h2 q xs vs\<close> assms(1) head by (metis holds_def)
  ultimately show ?thesis using h1 by auto
qed

end

interpretation dl: intrusive_list LIST_INSERT LIST_REMOVE is_list data_at only_links
proof
  fix h :: "'a heap" and p xs x
  assume "is_list h p xs" "x \<notin> set xs" "x \<noteq> 0" "data_at h x \<noteq> None"
  then show "\<exists>h'. LIST_INSERT x p h = Some (h', x) \<and> is_list h' x (x # xs) \<and> only_links (set (x # xs)) h h'"
    by (rule is_list_insert)
next
  fix h :: "'a heap" and p xs x
  assume "is_list h p xs" "x \<in> set xs"
  then show "\<exists>h' p'. LIST_REMOVE x p h = Some (h', p') \<and> is_list h' p' (remove1 x xs) \<and> only_links (set xs) h h'"
    by (rule is_list_remove)
next
  fix h :: "'a heap" and p xs
  assume l: "is_list h p xs"
  then show "p = (case xs of [] \<Rightarrow> 0 | x # _ \<Rightarrow> x)" by (rule is_list_head)
  show "distinct xs \<and> 0 \<notin> set xs \<and> (\<forall>x\<in>set xs. data_at h x \<noteq> None)"
    using l dseg_nonzero [of h 0 p xs] dseg_alloc [of h 0 p xs] by (fastforce simp: is_list_def data_at_def)
next
  fix A and h h' :: "'a heap"
  assume a: "only_links A h h'"
  then show "data_at h' = data_at h" by (simp add: only_links_def)
  fix ys q
  assume "set ys \<inter> A = {}" "is_list h q ys"
  then show "is_list h' q ys" using a by (intro is_list_frame [of ys h' h]) (auto simp: only_links_def)
qed

lemma holds_frame:
  assumes "dl.holds h p xs vs" and "\<forall>x\<in>set xs. h' x = h x"
  shows "dl.holds h' p xs vs"
proof -
  have "map (data_at h') xs = map (data_at h) xs" using assms(2) by (simp add: data_at_def)
  moreover have "is_list h p xs" "map (data_at h) xs = map Some vs"
    using assms(1) by (auto simp: dl.holds_def)
  ultimately show ?thesis
    using is_list_frame [OF assms(2)] by (simp only: dl.holds_def)
qed

lemma holds_Nil [simp]: "dl.holds h p [] vs \<longleftrightarrow> p = 0 \<and> vs = []"
  by (auto simp: dl.holds_def is_list_def)

lemma holds_nodes: "dl.holds h p xs vs \<Longrightarrow> x \<in> set xs \<Longrightarrow> \<exists>n. h x = Some n"
  using dl.nodes [of h p xs] by (auto simp: dl.holds_def data_at_def)

lemma holds_unalloc: "dl.holds h p xs vs \<Longrightarrow> h a = None \<Longrightarrow> a \<notin> set xs"
  using holds_nodes by fastforce

lemma holds_upd: "dl.holds h p xs vs \<Longrightarrow> a \<notin> set xs \<Longrightarrow> dl.holds (h(a := v)) p xs vs"
  by (rule holds_frame) auto

lemma holds_alloc: "dl.holds h p xs vs \<Longrightarrow> h a = None \<Longrightarrow> dl.holds (h(a := v)) p xs vs"
  using holds_upd holds_unalloc by blast

text \<open>Following \<open>next\<close> from the head visits the payloads in order; the walks of the clients are
  inductions over this.\<close>

lemma holds_dseg: "dl.holds h p xs vs \<Longrightarrow> \<exists>l. dseg h 0 p xs 0 l \<and> map (data_at h) xs = map Some vs"
  by (auto simp: dl.holds_def is_list_def)

lemma dseg_Cons_data:
  assumes "dseg h prv p (x # xs) q l" and "map (data_at h) (x # xs) = map Some vs"
  obtains n v ws where "vs = v # ws" "p = x" "x \<noteq> 0" "h x = Some n" "n_data n = v"
    "dseg h x (n_next n) xs q l" "map (data_at h) xs = map Some ws"
  using assms by (cases vs) (auto simp: data_at_def split: option.splits)

end
