(* ===== verification/Iqueue.thy ===== *)
theory Iqueue
  imports Kcp_Recv Dlist_Heap
begin

text \<open>
  The queue macros of \<open>ikcp.h\<close>: circular doubly linked lists with a head node.  The other theories of KCP take the four queues of a control block for lists; here the
  macros run on an explicit heap (that of \<open>Dlist_Heap\<close>), are shown to be the list operations, and \<open>ikcp_parse_data\<close> is written with pointers, as in
  \<open>ikcp.c\<close>, and shown to do what the model over lists does.
\<close>

section \<open>The macros\<close>

definition nx :: "'a heap \<Rightarrow> nat \<Rightarrow> nat option" where "nx h p = map_option n_next (h p)"

definition pv :: "'a heap \<Rightarrow> nat \<Rightarrow> nat option" where "pv h p = map_option n_prev (h p)"

definition iqueue_init :: "nat \<Rightarrow> 'a heap \<Rightarrow> 'a heap option" where
  "iqueue_init p h = do { h \<leftarrow> set_next h p p; set_prev h p p }"

definition iqueue_add :: "nat \<Rightarrow> nat \<Rightarrow> 'a heap \<Rightarrow> 'a heap option" where
  "iqueue_add node head h = do {
     h \<leftarrow> set_prev h node head;
     x \<leftarrow> nx h head;
     h \<leftarrow> set_next h node x;
     x \<leftarrow> nx h head;
     h \<leftarrow> set_prev h x node;
     set_next h head node }"

definition iqueue_add_tail :: "nat \<Rightarrow> nat \<Rightarrow> 'a heap \<Rightarrow> 'a heap option" where
  "iqueue_add_tail node head h = do {
     x \<leftarrow> pv h head;
     h \<leftarrow> set_prev h node x;
     h \<leftarrow> set_next h node head;
     x \<leftarrow> pv h head;
     h \<leftarrow> set_next h x node;
     set_prev h head node }"

definition iqueue_del :: "nat \<Rightarrow> 'a heap \<Rightarrow> 'a heap option" where
  "iqueue_del entry h = do {
     n \<leftarrow> nx h entry;
     p \<leftarrow> pv h entry;
     h \<leftarrow> set_prev h n p;
     p \<leftarrow> pv h entry;
     n \<leftarrow> nx h entry;
     h \<leftarrow> set_next h p n;
     h \<leftarrow> set_next h entry 0;
     set_prev h entry 0 }"

definition iqueue_del_init :: "nat \<Rightarrow> 'a heap \<Rightarrow> 'a heap option" where
  "iqueue_del_init entry h = do { h \<leftarrow> iqueue_del entry h; iqueue_init entry h }"

definition iqueue_is_empty :: "nat \<Rightarrow> 'a heap \<Rightarrow> bool option" where
  "iqueue_is_empty entry h = do { n \<leftarrow> nx h entry; Some (entry = n) }"

definition iqueue_splice :: "nat \<Rightarrow> nat \<Rightarrow> 'a heap \<Rightarrow> 'a heap option" where
  "iqueue_splice list head h = do {
     e \<leftarrow> iqueue_is_empty list h;
     if e then Some h
     else do {
       first \<leftarrow> nx h list;
       last \<leftarrow> pv h list;
       at \<leftarrow> nx h head;
       h \<leftarrow> set_prev h first head;
       h \<leftarrow> set_next h head first;
       h \<leftarrow> set_next h last at;
       set_prev h at last } }"

definition iqueue_splice_init :: "nat \<Rightarrow> nat \<Rightarrow> 'a heap \<Rightarrow> 'a heap option" where
  "iqueue_splice_init list head h = do { h \<leftarrow> iqueue_splice list head h; iqueue_init list h }"

text \<open>The nodes that \<open>iqueue_foreach_entry\<close> visits from \<open>pos\<close> on.\<close>

partial_function (option) iqueue_foreach_entry :: "nat \<Rightarrow> nat \<Rightarrow> 'a heap \<Rightarrow> nat list option" where
  "iqueue_foreach_entry pos head h =
     (if pos = head then Some []
      else do { n \<leftarrow> nx h pos; ps \<leftarrow> iqueue_foreach_entry n head h; Some (pos # ps) })"

section \<open>Rings\<close>

definition ring :: "'a heap \<Rightarrow> nat \<Rightarrow> nat list \<Rightarrow> bool" where
  "ring h q xs \<longleftrightarrow> distinct (q # xs) \<and> map (nx h) (q # xs) = map Some (xs @ [q]) \<and> map (pv h) (xs @ [q]) = map Some (q # xs)"

lemma nx_upd: "nx (h(p := v)) x = (if x = p then map_option n_next v else nx h x)"
  by (simp add: nx_def)

lemma pv_upd: "pv (h(p := v)) x = (if x = p then map_option n_prev v else pv h x)"
  by (simp add: pv_def)

lemma set_next_nx: "set_next h p x = Some h' \<Longrightarrow> nx h' = (nx h)(p := Some x) \<and> pv h' = pv h \<and> data_at h' = data_at h \<and> (\<forall>y. y \<noteq> p \<longrightarrow> h' y = h y)"
proof -
  assume "set_next h p x = Some h'"
  then obtain n where "h p = Some n" "h' = h(p \<mapsto> n\<lparr>n_next := x\<rparr>)" by (auto simp: set_next_def split: option.splits)
  then show ?thesis by (simp add: nx_def pv_def data_at_def fun_eq_iff)
qed

lemma set_prev_pv: "set_prev h p x = Some h' \<Longrightarrow> pv h' = (pv h)(p := Some x) \<and> nx h' = nx h \<and> data_at h' = data_at h \<and> (\<forall>y. y \<noteq> p \<longrightarrow> h' y = h y)"
proof -
  assume "set_prev h p x = Some h'"
  then obtain n where "h p = Some n" "h' = h(p \<mapsto> n\<lparr>n_prev := x\<rparr>)" by (auto simp: set_prev_def split: option.splits)
  then show ?thesis by (simp add: nx_def pv_def data_at_def fun_eq_iff)
qed

lemma set_next_ok: "nx h p \<noteq> None \<Longrightarrow> \<exists>h'. set_next h p x = Some h'"
  by (auto simp: set_next_def nx_def)

lemma set_prev_ok: "nx h p \<noteq> None \<Longrightarrow> \<exists>h'. set_prev h p x = Some h'"
  by (auto simp: set_prev_def nx_def)

lemma pv_nx: "pv h p \<noteq> None \<longleftrightarrow> nx h p \<noteq> None"
  by (simp add: pv_def nx_def)

text \<open>The place between two neighbours: \<open>a\<close> before it, \<open>b\<close> behind it.\<close>

lemma ring_split:
  assumes "ring h q (ys @ zs)"
  obtains A a b B where "q # ys = A @ [a]" "zs @ [q] = b # B" "nx h a = Some b" "pv h b = Some a"
    "map (nx h) A = map Some ys" "map (nx h) zs = map Some B" "map (pv h) ys = map Some A" "map (pv h) B = map Some zs"
proof -
  obtain A a where a: "q # ys = A @ [a]" by (metis list.distinct(1) rev_exhaust)
  obtain b B where b: "zs @ [q] = b # B" by (cases "zs @ [q]") auto
  have la: "length A = length ys" "length B = length zs" using arg_cong [OF a, of length] arg_cong [OF b, of length] by simp_all
  have "map (nx h) (A @ a # zs) = map Some (ys @ b # B)" using assms a b by (metis append.assoc append_Cons append_Nil ring_def)
  then have "map (nx h) A = map Some ys \<and> nx h a = Some b \<and> map (nx h) zs = map Some B" using la by simp
  moreover have "map (pv h) (ys @ b # B) = map Some (A @ a # zs)" using assms a b by (metis append.assoc append_Cons append_Nil ring_def)
  then have "map (pv h) ys = map Some A \<and> pv h b = Some a \<and> map (pv h) B = map Some zs" using la by simp
  ultimately show thesis using that a b by blast
qed



lemma ring_add_between:
  assumes r: "ring h q (ys @ zs)" and x: "x \<notin> set (q # ys @ zs)"
    and a: "q # ys = A @ [a]" "zs @ [q] = b # B"
    and h: "nx h' = (nx h)(x := Some b, a := Some x)" "pv h' = (pv h)(x := Some a, b := Some x)"
  shows "ring h' q (ys @ x # zs)"
proof -
  obtain A' a' b' B' where s: "q # ys = A' @ [a']" "zs @ [q] = b' # B'" "nx h a' = Some b'" "pv h b' = Some a'"
    "map (nx h) A' = map Some ys" "map (nx h) zs = map Some B'" "map (pv h) ys = map Some A'" "map (pv h) B' = map Some zs"
    using ring_split [OF r] .
  then have e: "A' = A" "a' = a" "b' = b" "B' = B" using a by simp_all
  have d: "distinct (q # ys @ zs)" using r by (simp add: ring_def)
  have "distinct (A @ a # zs)" "distinct (ys @ b # B)" "x \<notin> set (A @ a # zs)" "x \<notin> set (ys @ b # B)"
  proof -
    have "q # ys @ zs = A @ a # zs" using a(1) by (metis append.assoc append_Cons append_Nil)
    then show "distinct (A @ a # zs)" "x \<notin> set (A @ a # zs)" using d x by metis+
    have "mset (ys @ b # B) = mset (q # ys @ zs)" using arg_cong [OF a(2), of mset] by simp
    then show "distinct (ys @ b # B)" "x \<notin> set (ys @ b # B)" using d x by (metis mset_eq_imp_distinct_iff, metis mset_eq_setD)
  qed
  note d' = this
  have n: "map (nx h') (A @ a # x # zs) = map Some (ys @ x # b # B)"
    using s(5,6) d' unfolding e h(1) by (auto simp: map_eq_append_conv intro!: map_cong)
  have p: "map (pv h') (ys @ x # b # B) = map Some (A @ a # x # zs)"
    using s(7,8) d' unfolding e h(2) by (auto intro!: map_cong)
  have "q # ys @ x # zs = A @ a # x # zs" "(ys @ x # zs) @ [q] = ys @ x # b # B"
    using a by (metis append.assoc append_Cons append_Nil)+
  moreover have "distinct (q # ys @ x # zs)" using d x by auto
  ultimately show ?thesis using n p unfolding ring_def by metis
qed

lemma ring_del_between:
  assumes r: "ring h q (ys @ x # zs)"
    and a: "q # ys = A @ [a]" "zs @ [q] = b # B"
    and h: "\<And>y. y \<noteq> x \<Longrightarrow> nx h' y = ((nx h)(a := Some b)) y" "\<And>y. y \<noteq> x \<Longrightarrow> pv h' y = ((pv h)(b := Some a)) y"
  shows "ring h' q (ys @ zs)"
proof -
  have a2: "(x # zs) @ [q] = x # b # B" using a(2) by simp
  obtain A' a' b' B' where s: "q # ys = A' @ [a']" "(x # zs) @ [q] = b' # B'" "nx h a' = Some b'" "pv h b' = Some a'"
    "map (nx h) A' = map Some ys" "map (nx h) (x # zs) = map Some B'" "map (pv h) ys = map Some A'" "map (pv h) B' = map Some (x # zs)"
    using ring_split [OF r] .
  then have e: "A' = A" "a' = a" "b' = x" "B' = b # B" using a by simp_all
  have d: "distinct (q # ys @ zs)" "x \<notin> set (q # ys @ zs)" using r by (auto simp: ring_def)
  have e1: "q # ys @ zs = A @ a # zs" using a(1) by (metis append.assoc append_Cons append_Nil)
  have m: "mset (ys @ b # B) = mset (q # ys @ zs)" using arg_cong [OF a(2), of mset] by simp
  have d': "distinct (A @ a # zs)" "x \<notin> set (A @ a # zs)" using d e1 by metis+
  have d2: "distinct (ys @ b # B)" "x \<notin> set (ys @ b # B)" using d m by (metis mset_eq_imp_distinct_iff, metis mset_eq_setD)
  have "map (nx h') (A @ a # zs) = map ((nx h)(a := Some b)) (A @ a # zs)" by (rule map_cong [OF refl], rule h(1)) (use d'(2) in metis)
  also have "\<dots> = map Some (ys @ b # B)" using s(5,6) d' unfolding e by (auto intro!: map_cong)
  finally have n: "map (nx h') (A @ a # zs) = map Some (ys @ b # B)" .
  have "map (pv h') (ys @ b # B) = map ((pv h)(b := Some a)) (ys @ b # B)" by (rule map_cong [OF refl], rule h(2)) (use d2(2) in metis)
  also have "\<dots> = map Some (A @ a # zs)" using s(7,8) d2 unfolding e by (auto intro!: map_cong)
  finally have p: "map (pv h') (ys @ b # B) = map Some (A @ a # zs)" .
  have "(ys @ zs) @ [q] = ys @ b # B" using a(2) by simp
  then show ?thesis using n p d(1) e1 unfolding ring_def by metis
qed

text \<open>What an operation may change: links of the nodes in \<open>A\<close>.\<close>

lemma ring_frame: "ring h q xs \<Longrightarrow> \<forall>y\<in>set (q # xs). h' y = h y \<Longrightarrow> ring h' q xs"
proof -
  assume r: "ring h q xs" and e: "\<forall>y\<in>set (q # xs). h' y = h y"
  have "map (nx h') (q # xs) = map (nx h) (q # xs)" "map (pv h') (xs @ [q]) = map (pv h) (xs @ [q])"
    using e by (intro map_cong; auto simp: nx_def pv_def)+
  then show ?thesis using r unfolding ring_def by metis
qed

lemma ring_alloc: "ring h q xs \<Longrightarrow> y \<in> set (q # xs) \<Longrightarrow> \<exists>n. h y = Some n"
proof -
  assume r: "ring h q xs" and y: "y \<in> set (q # xs)"
  then have "nx h y \<in> set (map Some (xs @ [q]))" unfolding ring_def by (metis image_eqI list.set_map)
  then show ?thesis by (auto simp: nx_def)
qed

lemma ring_ends: "ring h q xs \<Longrightarrow> nx h q = Some (hd (xs @ [q])) \<and> pv h q = Some (last (q # xs))"
proof -
  assume r: "ring h q xs"
  then have "nx h q = Some (hd (xs @ [q]))" by (cases xs) (auto simp: ring_def)
  moreover have "last (map (pv h) (xs @ [q])) = last (map Some (q # xs))" using r unfolding ring_def by metis
  then have "pv h q = Some (last (q # xs))" by (simp add: last_map)
  ultimately show ?thesis by blast
qed

section \<open>The operations on rings\<close>

lemma iqueue_init_ring:
  assumes "h p = Some n"
  shows "\<exists>h'. iqueue_init p h = Some h' \<and> ring h' p [] \<and> only_links {p} h h'"
  using assms
  by (intro exI [of _ "h(p \<mapsto> n\<lparr>n_next := p, n_prev := p\<rparr>)"])
    (simp add: iqueue_init_def set_next_def set_prev_def ring_def nx_def pv_def only_links_def data_at_def fun_eq_iff)

lemma ring_is_empty: "ring h q xs \<Longrightarrow> iqueue_is_empty q h = Some (xs = [])"
proof -
  assume r: "ring h q xs"
  have "q \<notin> set xs" using r by (simp add: ring_def)
  then have "q = hd (xs @ [q]) \<longleftrightarrow> xs = []" by (cases xs) auto
  then show ?thesis using ring_ends [OF r] by (simp add: iqueue_is_empty_def)
qed

text \<open>\<open>iqueue_add\<close> puts a node behind any node of the ring, the head included.\<close>

lemma iqueue_add_ring:
  assumes r: "ring h q (ys @ zs)" and x: "x \<notin> set (q # ys @ zs)" "h x = Some n"
  shows "\<exists>h'. iqueue_add x (last (q # ys)) h = Some h' \<and> ring h' q (ys @ x # zs) \<and> only_links (set (x # q # ys @ zs)) h h'"
proof -
  obtain A a b B where s: "q # ys = A @ [a]" "zs @ [q] = b # B" "nx h a = Some b" using ring_split [OF r] by metis
  have in_ring: "a \<in> set (q # ys @ zs)" "b \<in> set (q # ys @ zs)"
    using arg_cong [OF s(1), of set] arg_cong [OF s(2), of set] by auto
  then have xa: "x \<noteq> a" "x \<noteq> b" using x(1) by auto
  have al: "last (q # ys) = a" using s(1) by simp
  obtain h1 where h1: "set_prev h x a = Some h1" using set_prev_ok [of h x a] x(2) by (auto simp: nx_def)
  note e1 = set_prev_pv [OF h1]
  obtain h2 where h2: "set_next h1 x b = Some h2" using set_next_ok [of h1 x b] x(2) e1 by (auto simp: nx_def)
  note e2 = set_next_nx [OF h2]
  have "nx h b \<noteq> None" using ring_alloc [OF r in_ring(2)] by (auto simp: nx_def)
  then obtain h3 where h3: "set_prev h2 b x = Some h3" using set_prev_ok [of h2 b x] e1 e2 xa by auto
  note e3 = set_prev_pv [OF h3]
  obtain h4 where h4: "set_next h3 a x = Some h4" using set_next_ok [of h3 a x] e1 e2 e3 xa s(3) by auto
  note e4 = set_next_nx [OF h4]
  have "nx h1 a = Some b" "nx h2 a = Some b" using e1 e2 xa s(3) by simp_all
  then have "iqueue_add x (last (q # ys)) h = Some h4" unfolding al using h1 h2 h3 h4 by (simp add: iqueue_add_def)
  moreover have "ring h4 q (ys @ x # zs)"
    by (rule ring_add_between [OF r x(1) s(1,2)]) (use e1 e2 e3 e4 xa in \<open>auto simp: fun_eq_iff\<close>)
  moreover have "only_links (set (x # q # ys @ zs)) h h4"
    using e1 e2 e3 e4 in_ring unfolding only_links_def by (metis list.set_intros(1) list.set_intros(2))
  ultimately show ?thesis by blast
qed

lemma iqueue_add_tail_ring:
  assumes r: "ring h q xs" and x: "x \<notin> set (q # xs)" "h x = Some n"
  shows "\<exists>h'. iqueue_add_tail x q h = Some h' \<and> ring h' q (xs @ [x]) \<and> only_links (set (x # q # xs)) h h'"
proof -
  let ?a = "last (q # xs)"
  have r': "ring h q (xs @ [])" using r by simp
  have s: "q # xs = butlast (q # xs) @ [?a]" "[] @ [q] = q # []" by (metis append_butlast_last_id list.distinct(1)) simp
  have p: "pv h q = Some ?a" using ring_ends [OF r] by simp
  have in_ring: "?a \<in> set (q # xs)" "q \<in> set (q # xs)" by (metis last_in_set list.distinct(1)) simp
  then have xa: "x \<noteq> ?a" "x \<noteq> q" using x(1) by metis+
  obtain h1 where h1: "set_prev h x ?a = Some h1" using set_prev_ok [of h x ?a] x(2) by (auto simp: nx_def)
  note e1 = set_prev_pv [OF h1]
  obtain h2 where h2: "set_next h1 x q = Some h2" using set_next_ok [of h1 x q] x(2) e1 by (auto simp: nx_def)
  note e2 = set_next_nx [OF h2]
  have "nx h ?a \<noteq> None" using ring_alloc [OF r in_ring(1)] by (auto simp: nx_def)
  then obtain h3 where h3: "set_next h2 ?a x = Some h3" using set_next_ok [of h2 ?a x] e1 e2 xa by auto
  note e3 = set_next_nx [OF h3]
  have "nx h q \<noteq> None" using ring_alloc [OF r in_ring(2)] by (auto simp: nx_def)
  then obtain h4 where h4: "set_prev h3 q x = Some h4" using set_prev_ok [of h3 q x] e1 e2 e3 xa by fastforce
  note e4 = set_prev_pv [OF h4]
  have "pv h1 q = Some ?a" "pv h2 q = Some ?a" using e1 e2 xa p by simp_all
  then have "iqueue_add_tail x q h = Some h4" using h1 h2 h3 h4 p by (simp add: iqueue_add_tail_def)
  moreover have "ring h4 q (xs @ [x])"
    using ring_add_between [OF r' _ s, of x h4] x(1) e1 e2 e3 e4 xa by (auto simp: fun_eq_iff)
  moreover have "only_links (set (x # q # xs)) h h4"
    using e1 e2 e3 e4 in_ring unfolding only_links_def by (metis list.set_intros(1) list.set_intros(2))
  ultimately show ?thesis by blast
qed

lemma iqueue_del_ring:
  assumes r: "ring h q (ys @ x # zs)"
  shows "\<exists>h'. iqueue_del x h = Some h' \<and> ring h' q (ys @ zs) \<and> only_links (set (x # q # ys @ zs)) h h' \<and> x \<notin> set (q # ys @ zs)"
proof -
  obtain A a where a: "q # ys = A @ [a]" by (metis list.distinct(1) rev_exhaust)
  obtain b B where b: "zs @ [q] = b # B" by (cases "zs @ [q]") auto
  obtain A' a' b' B' where s: "q # ys = A' @ [a']" "(x # zs) @ [q] = b' # B'" "pv h b' = Some a'" "map (nx h) (x # zs) = map Some B'"
    using ring_split [OF r] by metis
  have n: "nx h x = Some b" "pv h x = Some a" using s a b by auto
  have x: "x \<notin> set (q # ys @ zs)" using r by (auto simp: ring_def)
  have in_ring: "a \<in> set (q # ys @ zs)" "b \<in> set (q # ys @ zs)" using arg_cong [OF a, of set] arg_cong [OF b, of set] by auto
  then have xa: "x \<noteq> a" "x \<noteq> b" using x by auto
  have "nx h b \<noteq> None" "nx h a \<noteq> None" using ring_alloc [OF r, of a] ring_alloc [OF r, of b] in_ring by (auto simp: nx_def)
  then obtain h1 where h1: "set_prev h b a = Some h1" using set_prev_ok by metis
  note e1 = set_prev_pv [OF h1]
  obtain h2 where h2: "set_next h1 a b = Some h2" using set_next_ok [of h1 a b] e1 \<open>nx h a \<noteq> None\<close> by auto
  note e2 = set_next_nx [OF h2]
  obtain h3 where h3: "set_next h2 x 0 = Some h3" using set_next_ok [of h2 x 0] e1 e2 n xa by auto
  note e3 = set_next_nx [OF h3]
  obtain h4 where h4: "set_prev h3 x 0 = Some h4" using set_prev_ok [of h3 x 0] e3 by auto
  note e4 = set_prev_pv [OF h4]
  have "pv h1 x = Some a" "nx h1 x = Some b" using e1 xa n by simp_all
  then have "iqueue_del x h = Some h4" using h1 h2 h3 h4 n by (simp add: iqueue_del_def)
  moreover have "ring h4 q (ys @ zs)"
    by (rule ring_del_between [OF r a b]) (use e1 e2 e3 e4 in auto)
  moreover have "only_links (set (x # q # ys @ zs)) h h4"
    using e1 e2 e3 e4 in_ring unfolding only_links_def by (metis list.set_intros(1) list.set_intros(2))
  ultimately show ?thesis using x by blast
qed


lemma ring_foreach:
  assumes "ring h q (ys @ zs)"
  shows "iqueue_foreach_entry (hd (zs @ [q])) q h = Some zs"
  using assms
proof (induction zs arbitrary: ys)
  case Nil
  then show ?case by (simp add: iqueue_foreach_entry.simps)
next
  case (Cons z zs)
  have r: "ring h q ((ys @ [z]) @ zs)" using Cons.prems by simp
  obtain A a b B where s: "q # ys @ [z] = A @ [a]" "zs @ [q] = b # B" "nx h a = Some b" using ring_split [OF r] by (metis append_Cons)
  have "a = z" using arg_cong [OF s(1), of last] by simp
  then have "nx h z = Some (hd (zs @ [q]))" using s(2,3) by simp
  moreover have "z \<noteq> q" using Cons.prems by (auto simp: ring_def)
  ultimately show ?case using Cons.IH [OF r] by (simp add: iqueue_foreach_entry.simps [of z])
qed

lemma iqueue_splice_ring:
  assumes l: "ring h l as" "as \<noteq> []" and r: "ring h q bs" and d: "set (l # as) \<inter> set (q # bs) = {}"
  shows "\<exists>h'. iqueue_splice l q h = Some h' \<and> ring h' q (as @ bs) \<and> only_links (set (as @ q # bs)) h h'"
proof -
  obtain f as' where f: "as = f # as'" using l(2) by (cases as) auto
  obtain A z where z: "as = A @ [z]" using l(2) by (metis rev_exhaust)
  obtain b B where b: "bs @ [q] = b # B" by (cases "bs @ [q]") auto
  have len: "length as' = length A" using f z by (metis add_right_imp_eq length_append_singleton length_Cons Suc_inject)
  have n: "nx h l = Some f" "pv h l = Some z" "nx h q = Some b" using ring_ends [OF l(1)] ring_ends [OF r] b by (simp add: f, simp add: z, auto)
  have "map (nx h) (A @ [z]) = map Some (as' @ [l])" "map (pv h) (as' @ [l]) = map Some (A @ [z])"
    using l(1) f z by (auto simp: ring_def)
  then have m: "map (nx h) A = map Some as'" "map (pv h) as' = map Some A" using len by simp_all
  have "map (pv h) (b # B) = map Some (q # bs)" "map (nx h) (q # bs) = map Some (b # B)" using r b unfolding ring_def by metis+
  then have mb: "map (nx h) bs = map Some B" "map (pv h) B = map Some bs" by simp_all
  have sb: "insert b (set B) = insert q (set bs)" using arg_cong [OF b, of set] by simp
  have dis: "distinct (q # A @ z # bs)" "distinct (f # as' @ b # B)"
  proof -
    have "distinct (as @ q # bs)" using l(1) r d by (auto simp: ring_def)
    then show "distinct (q # A @ z # bs)" unfolding z by auto
    have "distinct (bs @ [q])" using r by (auto simp: ring_def)
    then have "distinct (b # B)" unfolding b .
    moreover have "set as \<inter> set (b # B) = {}" using d sb by auto
    ultimately show "distinct (f # as' @ b # B)" using l(1) f by (auto simp: ring_def)
  qed
  have zf: "z \<in> set as" "f \<in> set as" "b \<in> set (q # bs)" by (simp add: z, simp add: f, use sb in auto)
  then have al: "nx h f \<noteq> None" "nx h z \<noteq> None" "nx h b \<noteq> None"
    using ring_alloc [OF l(1)] ring_alloc [OF r] by (auto simp: nx_def)
  obtain h1 where h1: "set_prev h f q = Some h1" using set_prev_ok al(1) by metis
  note e1 = set_prev_pv [OF h1]
  obtain h2 where h2: "set_next h1 q f = Some h2" using set_next_ok [of h1 q f] e1 n by auto
  note e2 = set_next_nx [OF h2]
  have nz: "nx h2 z \<noteq> None" using e1 e2 al(2) by (cases "z = q") simp_all
  obtain h3 where h3: "set_next h2 z b = Some h3" using set_next_ok [of h2 z b] nz by blast
  note e3 = set_next_nx [OF h3]
  have nb: "nx h3 b \<noteq> None" using e1 e2 e3 al(3) by (cases "b = z"; cases "b = q") simp_all
  obtain h4 where h4: "set_prev h3 b z = Some h4" using set_prev_ok nb by metis
  note e4 = set_prev_pv [OF h4]
  have "iqueue_splice l q h = Some h4"
    using ring_is_empty [OF l(1)] l(2) n h1 h2 h3 h4 by (simp add: iqueue_splice_def)
  moreover have "ring h4 q (as @ bs)"
  proof -
    have x: "nx h4 = (nx h)(q := Some f, z := Some b)" "pv h4 = (pv h)(f := Some q, b := Some z)" using e1 e2 e3 e4 by simp_all
    have "map (nx h4) A = map (nx h) A" "map (nx h4) bs = map (nx h) bs"
      using dis(1) unfolding x by auto
    moreover have "map (pv h4) as' = map (pv h) as'" "map (pv h4) B = map (pv h) B"
      using dis(2) unfolding x by auto
    moreover have "nx h4 q = Some f" "nx h4 z = Some b" "pv h4 f = Some q" "pv h4 b = Some z" using dis unfolding x by auto
    ultimately have "map (nx h4) (q # A @ z # bs) = map Some (f # as' @ b # B)" "map (pv h4) (f # as' @ b # B) = map Some (q # A @ z # bs)"
      using m mb by simp_all
    moreover have "q # as @ bs = q # A @ z # bs" "(as @ bs) @ [q] = f # as' @ b # B" using z f b by simp_all
    ultimately show ?thesis using dis(1) unfolding ring_def by metis
  qed
  moreover have "only_links (set (as @ q # bs)) h h4"
    using e1 e2 e3 e4 zf unfolding only_links_def by (metis Un_iff list.set_intros(1) set_append)
  ultimately show ?thesis by blast
qed

section \<open>\<open>ikcp_parse_data\<close> with pointers\<close>

text \<open>The search from the tail of \<open>rcv_buf\<close>: whether the number is repeated, and the node where the search ends.\<close>

partial_function (option) find_place :: "nat \<Rightarrow> nat \<Rightarrow> u32 \<Rightarrow> ikcpseg heap \<Rightarrow> (bool \<times> nat) option" where
  "find_place b p sn h =
     (if p = b then Some (False, p)
      else Option.bind (h p) (\<lambda>n.
        if seg_sn (n_data n) = sn then Some (True, p)
        else if itimediff sn (seg_sn (n_data n)) > 0 then Some (False, p)
        else find_place b (n_prev n) sn h))"

partial_function (option) move_ptr :: "nat \<Rightarrow> nat \<Rightarrow> ikcpseg heap \<Rightarrow> ikcpcb \<Rightarrow> (ikcpseg heap \<times> ikcpcb) option" where
  "move_ptr b q h k = do {
     e \<leftarrow> iqueue_is_empty b h;
     if e then Some (h, k)
     else do {
       s \<leftarrow> nx h b;
       n \<leftarrow> h s;
       if seg_sn (n_data n) = k_rcv_nxt k \<and> k_nrcv_que k < k_rcv_wnd k then do {
         h \<leftarrow> iqueue_del s h;
         h \<leftarrow> iqueue_add_tail s q h;
         move_ptr b q h (k\<lparr>k_nrcv_buf := k_nrcv_buf k - 1, k_nrcv_que := k_nrcv_que k + 1, k_rcv_nxt := k_rcv_nxt k + 1\<rparr>) }
       else Some (h, k) } }"

text \<open>\<open>b\<close> and \<open>q\<close> are the heads \<open>rcv_buf\<close> and \<open>rcv_queue\<close>, \<open>x\<close> the new segment.  Of the control block only the numbers are used, not its lists.\<close>

definition parse_data_ptr :: "nat \<Rightarrow> nat \<Rightarrow> nat \<Rightarrow> ikcpseg heap \<Rightarrow> ikcpcb \<Rightarrow> (ikcpseg heap \<times> ikcpcb) option" where
  "parse_data_ptr b q x h k = do {
     n \<leftarrow> h x;
     let sn = seg_sn (n_data n);
     if itimediff sn (k_rcv_nxt k + k_rcv_wnd k) \<ge> 0 \<or> itimediff sn (k_rcv_nxt k) < 0 then Some (h(x := None), k)
     else do {
       p \<leftarrow> pv h b;
       (repeat, p) \<leftarrow> find_place b p sn h;
       (h, k) \<leftarrow> (if \<not> repeat then do {
            h \<leftarrow> iqueue_init x h;
            h \<leftarrow> iqueue_add x p h;
            Some (h, k\<lparr>k_nrcv_buf := k_nrcv_buf k + 1\<rparr>) }
          else Some (h(x := None), k));
       move_ptr b q h k } }"

section \<open>The lists behind the pointers\<close>

definition queue_at :: "'a heap \<Rightarrow> nat \<Rightarrow> nat list \<Rightarrow> 'a list \<Rightarrow> bool" where
  "queue_at h q xs ds \<longleftrightarrow> ring h q xs \<and> map (data_at h) xs = map Some ds"

lemma queue_at_frame:
  assumes "queue_at h q xs ds" and "only_links A h h'" and "set (q # xs) \<inter> A = {}"
  shows "queue_at h' q xs ds"
proof -
  have "\<forall>y\<in>set (q # xs). h' y = h y" using assms(2,3) by (auto simp: only_links_def)
  then have "ring h' q xs" using ring_frame assms(1) unfolding queue_at_def by blast
  then show ?thesis using assms(1,2) by (simp add: queue_at_def only_links_def)
qed

lemma find_place_spec:
  assumes "ring h b (ys @ zs)" and "map (data_at h) ys = map Some ds"
  shows "(insert_loop seg (rev ds) = None \<and> (\<exists>p. find_place b (last (b # ys)) (seg_sn seg) h = Some (True, p))) \<or>
    (\<exists>ys1 ys2 ds1 ds2. ys = ys1 @ ys2 \<and> ds = ds1 @ ds2 \<and> length ds1 = length ys1 \<and> find_place b (last (b # ys)) (seg_sn seg) h = Some (False, last (b # ys1)) \<and>
      insert_loop seg (rev ds) = Some (rev ds2 @ seg # rev ds1))"
  using assms
proof (induction ys arbitrary: zs ds rule: rev_induct)
  case Nil
  then show ?case by (simp add: find_place.simps)
next
  case (snoc y ys)
  obtain d ds' where ds: "ds = ds' @ [d]" "map (data_at h) ys = map Some ds'" "data_at h y = Some d"
    using snoc.prems(2) by (cases ds rule: rev_cases) auto
  obtain n where n: "h y = Some n" "n_data n = d" using ds(3) by (auto simp: data_at_def)
  have yb: "y \<noteq> b" using snoc.prems(1) by (auto simp: ring_def)
  have r: "ring h b (ys @ y # zs)" using snoc.prems(1) by simp
  obtain A a b' B where s: "b # ys = A @ [a]" "(y # zs) @ [b] = b' # B" "pv h b' = Some a" using ring_split [OF r] by metis
  have "n_prev n = last (b # ys)" using s n(1) by (simp add: pv_def)
  then have f: "find_place b y (seg_sn seg) h = (if seg_sn d = seg_sn seg then Some (True, y) else if itimediff (seg_sn seg) (seg_sn d) > 0 then Some (False, y)
      else find_place b (last (b # ys)) (seg_sn seg) h)"
    using yb n by (simp add: find_place.simps [of b y])
  consider (eq) "seg_sn d = seg_sn seg" | (gt) "seg_sn d \<noteq> seg_sn seg" "itimediff (seg_sn seg) (seg_sn d) > 0"
    | (lt) "seg_sn d \<noteq> seg_sn seg" "\<not> itimediff (seg_sn seg) (seg_sn d) > 0" by blast
  then show ?case
  proof cases
    case eq
    then show ?thesis using ds(1) f by simp
  next
    case gt
    have "length ds' = length ys" using ds(2) by (metis length_map)
    then show ?thesis using gt ds(1) f
      by (intro disjI2 exI [of _ "ys @ [y]"] exI [of _ "[]"] exI [of _ ds]) simp
  next
    case lt
    then have i: "insert_loop seg (rev ds) = map_option ((#) d) (insert_loop seg (rev ds'))" and g: "find_place b (last (b # ys @ [y])) (seg_sn seg) h = find_place b (last (b # ys)) (seg_sn seg) h"
      using ds(1) f by simp_all
    from snoc.IH [OF r ds(2)] show ?thesis
    proof (elim disjE exE conjE)
      fix ys1 ys2 ds1 ds2
      assume "ys = ys1 @ ys2" "ds' = ds1 @ ds2" "length ds1 = length ys1" "find_place b (last (b # ys)) (seg_sn seg) h = Some (False, last (b # ys1))"
        "insert_loop seg (rev ds') = Some (rev ds2 @ seg # rev ds1)"
      then show ?thesis using i g ds(1)
        by (intro disjI2 exI [of _ ys1] exI [of _ "ys2 @ [y]"] exI [of _ ds1] exI [of _ "ds2 @ [d]"]) simp
    qed (use i g in simp)
  qed
qed

lemma move_ptr_spec:
  assumes "queue_at h b xs bs" and "queue_at h q ys qs" and "set (b # xs) \<inter> set (q # ys) = {}" and "K = move_loop bs (k\<lparr>k_rcv_queue := qs\<rparr>)"
  shows "\<exists>h' k' xs' ys'. move_ptr b q h k = Some (h', k') \<and> queue_at h' b xs' (k_rcv_buf K) \<and> queue_at h' q ys' (k_rcv_queue K) \<and>
    ys' @ xs' = ys @ xs \<and> data_at h' = data_at h \<and> k'\<lparr>k_rcv_buf := k_rcv_buf K, k_rcv_queue := k_rcv_queue K\<rparr> = K"
  using assms
proof (induction bs arbitrary: xs ys qs h k K)
  case Nil
  then have "xs = []" by (simp add: queue_at_def)
  moreover have "iqueue_is_empty b h = Some (xs = [])" using Nil.prems(1) ring_is_empty [of h b xs] by (auto simp: queue_at_def)
  ultimately show ?case using Nil.prems by (intro exI [of _ h] exI [of _ k] exI [of _ "[]"] exI [of _ ys]) (simp add: move_ptr.simps)
next
  case (Cons d bs)
  obtain x xs1 where x: "xs = x # xs1" "data_at h x = Some d" "map (data_at h) xs1 = map Some bs"
    using Cons.prems(1) by (cases xs) (auto simp: queue_at_def)
  obtain n where n: "h x = Some n" "n_data n = d" using x(2) by (auto simp: data_at_def)
  have r: "ring h b ([] @ x # xs1)" using Cons.prems(1) x(1) by (simp add: queue_at_def)
  have e: "iqueue_is_empty b h = Some False" "nx h b = Some x"
    using ring_is_empty [of h b xs] ring_ends [of h b xs] Cons.prems(1) x(1) by (simp_all add: queue_at_def)
  show ?case
  proof (cases "seg_sn d = k_rcv_nxt k \<and> k_nrcv_que k < k_rcv_wnd k")
    case False
    then have "move_ptr b q h k = Some (h, k)" using e n by (auto simp: move_ptr.simps)
    moreover have "K = k\<lparr>k_rcv_queue := qs, k_rcv_buf := d # bs\<rparr>" using False Cons.prems(4) by auto
    ultimately show ?thesis using Cons.prems(1,2) by (intro exI [of _ h] exI [of _ k] exI [of _ xs] exI [of _ ys]) simp
  next
    case True
    let ?k = "k\<lparr>k_nrcv_buf := k_nrcv_buf k - 1, k_nrcv_que := k_nrcv_que k + 1, k_rcv_nxt := k_rcv_nxt k + 1\<rparr>"
    obtain h1 where h1: "iqueue_del x h = Some h1" "ring h1 b xs1" "only_links (set (x # b # xs1)) h h1" "x \<notin> set (b # xs1)"
      using iqueue_del_ring [OF r] by auto
    have q1: "queue_at h1 q ys qs" using queue_at_frame [OF Cons.prems(2) h1(3)] Cons.prems(3) x(1) by auto
    have "h1 x \<noteq> None" using h1(3) n(1) by (metis data_at_def map_option_is_None only_links_def option.distinct(1))
    moreover have "x \<notin> set (q # ys)" using Cons.prems(3) x(1) by auto
    ultimately obtain h2 where h2: "iqueue_add_tail x q h1 = Some h2" "ring h2 q (ys @ [x])" "only_links (set (x # q # ys)) h1 h2"
      using iqueue_add_tail_ring [of h1 q ys x] q1 by (auto simp: queue_at_def)
    have da: "data_at h2 = data_at h" using h1(3) h2(3) by (simp add: only_links_def)
    have "queue_at h1 b xs1 bs" using h1(2,3) x(3) by (simp add: queue_at_def only_links_def)
    then have b2: "queue_at h2 b xs1 bs" by (rule queue_at_frame [OF _ h2(3)]) (use h1(4) Cons.prems(3) x(1) in auto)
    have q2: "queue_at h2 q (ys @ [x]) (qs @ [d])" using h2(2) q1 da x(2) Cons.prems(2) by (simp add: queue_at_def)
    have dj: "set (b # xs1) \<inter> set (q # ys @ [x]) = {}" using Cons.prems(3) x(1) h1(4) by auto
    have "K = move_loop bs (k\<lparr>k_nrcv_buf := k_nrcv_buf k - 1, k_rcv_queue := qs @ [d], k_nrcv_que := k_nrcv_que k + 1, k_rcv_nxt := k_rcv_nxt k + 1\<rparr>)"
      using Cons.prems(4) True by simp
    also have "\<dots> = move_loop bs (?k\<lparr>k_rcv_queue := qs @ [d]\<rparr>)" by (rule arg_cong [where f = "move_loop bs"]) simp
    finally have K: "K = move_loop bs (?k\<lparr>k_rcv_queue := qs @ [d]\<rparr>)" .
    have "move_ptr b q h k = move_ptr b q h2 ?k" using e n True h1(1) h2(1) by (simp add: move_ptr.simps [of b q h])
    then show ?thesis using Cons.IH [OF b2 q2 dj K] x(1) da by simp
  qed
qed

lemma queue_at_free: "queue_at h q xs ds \<Longrightarrow> x \<notin> set (q # xs) \<Longrightarrow> queue_at (h(x := None)) q xs ds"
proof -
  assume q: "queue_at h q xs ds" and x: "x \<notin> set (q # xs)"
  have "ring (h(x := None)) q xs" by (rule ring_frame [of h]) (use q x in \<open>auto simp: queue_at_def\<close>)
  moreover have "map (data_at (h(x := None))) xs = map (data_at h) xs" using x by (auto simp: data_at_def)
  ultimately show ?thesis using q unfolding queue_at_def by metis
qed

lemma move_loop_start: "move_loop p (k\<lparr>k_rcv_buf := z\<rparr>) = move_loop p k"
  by (simp add: move_loop_eq Let_def)

section \<open>Properties\<close>

text \<open>C11: The pointers of \<open>ikcp_parse_data\<close> do what the lists do.  On any heap that holds the receive buffer and the receive queue as two circular lists and the new
  segment as a node of its own, the code with the queue macros never follows a bad pointer, both loops end, and afterwards the two circular lists are still apart, hold exactly
  the buffer and the queue of the model over lists, the numbers of the control block are the same, and the new node is in one of the lists or freed.\<close>

theorem parse_data_pointers:
  assumes b: "queue_at h b xs (k_rcv_buf k)" and q: "queue_at h q ys (k_rcv_queue k)" and d: "set (b # xs) \<inter> set (q # ys) = {}"
    and x: "h x = Some n" "x \<notin> set (b # xs)" "x \<notin> set (q # ys)"
  defines "K \<equiv> ikcp_parse_data k (n_data n)"
  shows "\<exists>h' k' xs' ys'. parse_data_ptr b q x h k = Some (h', k') \<and> queue_at h' b xs' (k_rcv_buf K) \<and> queue_at h' q ys' (k_rcv_queue K) \<and>
    set (b # xs') \<inter> set (q # ys') = {} \<and> K = k'\<lparr>k_rcv_buf := k_rcv_buf K, k_rcv_queue := k_rcv_queue K\<rparr> \<and>
    set xs' \<union> set ys' = set xs \<union> set ys \<union> (if h' x = None then {} else {x})"
proof -
  let ?seg = "n_data n"
  let ?sn = "seg_sn ?seg"
  let ?out = "itimediff ?sn (k_rcv_nxt k + k_rcv_wnd k) \<ge> 0 \<or> itimediff ?sn (k_rcv_nxt k) < 0"
  have b0: "queue_at (h(x := None)) b xs (k_rcv_buf k)" and q0: "queue_at (h(x := None)) q ys (k_rcv_queue k)"
    using queue_at_free [OF b x(2)] queue_at_free [OF q x(3)] .
  have apart: "set (b # us) \<inter> set (q # vs) = {}" if "queue_at g b us cs" "queue_at g q vs es" "set (b # xs1) \<inter> set (q # ys) = {}" "vs @ us = ys @ xs1" "distinct (ys @ xs1)" "b \<notin> set xs1" for g us vs cs es xs1
  proof -
    have s: "set vs \<union> set us = set ys \<union> set xs1" using arg_cong [OF that(4), of set] by simp
    have "distinct (vs @ us)" using that(4,5) by simp
    moreover have "b \<notin> set us" "q \<notin> set vs" "q \<notin> set ys" using that(1,2) q by (auto simp: queue_at_def ring_def)
    ultimately show ?thesis using that(3,6) s by auto
  qed
  show ?thesis
  proof (cases ?out)
    case True
    then have "parse_data_ptr b q x h k = Some (h(x := None), k)" "K = k" using x(1) by (auto simp: parse_data_ptr_def K_def ikcp_parse_data_def Let_def)
    then show ?thesis using b0 q0 d by - (rule exI [of _ "h(x := None)"], rule exI [of _ k], rule exI [of _ xs], rule exI [of _ ys], simp)
  next
    case False
    have p: "pv h b = Some (last (b # xs))" using b ring_ends [of h b xs] by (simp add: queue_at_def)
    have bx: "b \<notin> set xs" using b by (simp add: queue_at_def ring_def)
    have dist: "distinct (ys @ xs)" using b q d by (auto simp: queue_at_def ring_def)
    have r: "ring h b (xs @ [])" "map (data_at h) xs = map Some (k_rcv_buf k)" using b by (simp_all add: queue_at_def)
    from find_place_spec [OF r, of ?seg] show ?thesis
    proof (elim disjE exE conjE)
      fix p' assume i: "insert_loop ?seg (rev (k_rcv_buf k)) = None" and f: "find_place b (last (b # xs)) ?sn h = Some (True, p')"
      have K: "K = move_loop (k_rcv_buf k) (k\<lparr>k_rcv_queue := k_rcv_queue k\<rparr>)" using False i by (simp add: K_def ikcp_parse_data_def Let_def)
      have e: "parse_data_ptr b q x h k = move_ptr b q (h(x := None)) k" using False x(1) p f by (simp add: parse_data_ptr_def Let_def del: last.simps)
      obtain h' k' xs' ys' where m: "move_ptr b q (h(x := None)) k = Some (h', k')" "queue_at h' b xs' (k_rcv_buf K)" "queue_at h' q ys' (k_rcv_queue K)"
        "ys' @ xs' = ys @ xs" "data_at h' = data_at (h(x := None))" "k'\<lparr>k_rcv_buf := k_rcv_buf K, k_rcv_queue := k_rcv_queue K\<rparr> = K"
        using move_ptr_spec [OF b0 q0 d K] by blast
      have "data_at h' x = None" using m(5) by (simp add: data_at_def)
      then have "h' x = None" by (simp add: data_at_def)
      moreover have "set xs' \<union> set ys' = set xs \<union> set ys" using arg_cong [OF m(4), of set] by auto
      moreover have "set (b # xs') \<inter> set (q # ys') = {}" by (rule apart [OF m(2,3) d m(4) dist bx])
      ultimately show ?thesis using e m(1-3,6) by - (rule exI [of _ h'], rule exI [of _ k'], rule exI [of _ xs'], rule exI [of _ ys'], simp)
    next
      fix ys1 ys2 ds1 ds2
      assume s: "xs = ys1 @ ys2" "k_rcv_buf k = ds1 @ ds2" "length ds1 = length ys1" and f: "find_place b (last (b # xs)) ?sn h = Some (False, last (b # ys1))"
        and i: "insert_loop ?seg (rev (k_rcv_buf k)) = Some (rev ds2 @ ?seg # rev ds1)"
      let ?k = "k\<lparr>k_nrcv_buf := k_nrcv_buf k + 1\<rparr>" and ?ds = "ds1 @ ?seg # ds2" and ?xs = "ys1 @ x # ys2"
      obtain h1 where h1: "iqueue_init x h = Some h1" "only_links {x} h h1" using iqueue_init_ring [of h x n] x(1) by blast
      have b1: "queue_at h1 b xs (k_rcv_buf k)" and q1: "queue_at h1 q ys (k_rcv_queue k)"
        using queue_at_frame [OF b h1(2)] queue_at_frame [OF q h1(2)] x(2,3) by auto
      obtain m where m: "h1 x = Some m" using h1(2) x(1) by (metis data_at_def map_option_is_None not_None_eq only_links_def)
      obtain h2 where h2: "iqueue_add x (last (b # ys1)) h1 = Some h2" "ring h2 b ?xs" "only_links (set (x # b # ys1 @ ys2)) h1 h2"
        using iqueue_add_ring [of h1 b ys1 ys2 x m] b1 s(1) x(2) m by (auto simp: queue_at_def)
      have da: "data_at h2 = data_at h" using h1(2) h2(3) by (simp add: only_links_def)
      have q2: "queue_at h2 q ys (k_rcv_queue k)" by (rule queue_at_frame [OF q1 h2(3)]) (use d s(1) x(3) in auto)
      have "map (data_at h) ys1 = map Some ds1" "map (data_at h) ys2 = map Some ds2" using r(2) s by (simp_all add: append_eq_append_conv)
      then have b2: "queue_at h2 b ?xs ?ds" using h2(2) da x(1) by (simp add: queue_at_def data_at_def)
      have d2: "set (b # ?xs) \<inter> set (q # ys) = {}" using d s(1) x(3) by auto
      have K: "K = move_loop ?ds (?k\<lparr>k_rcv_queue := k_rcv_queue k\<rparr>)"
      proof -
        have "K = move_loop ?ds (k\<lparr>k_rcv_buf := ?ds, k_nrcv_buf := k_nrcv_buf k + 1\<rparr>)" using False i by (simp add: K_def ikcp_parse_data_def Let_def)
        also have "\<dots> = move_loop ?ds (?k\<lparr>k_rcv_buf := ?ds\<rparr>)" by (rule arg_cong [where f = "move_loop ?ds"]) simp
        also have "\<dots> = move_loop ?ds ?k" by (rule move_loop_start)
        finally show ?thesis by simp
      qed
      have e: "parse_data_ptr b q x h k = move_ptr b q h2 ?k" using False x(1) p f h1(1) h2(1) by (simp add: parse_data_ptr_def Let_def del: last.simps)
      obtain h' k' xs' ys' where m': "move_ptr b q h2 ?k = Some (h', k')" "queue_at h' b xs' (k_rcv_buf K)" "queue_at h' q ys' (k_rcv_queue K)"
        "ys' @ xs' = ys @ ?xs" "data_at h' = data_at h2" "k'\<lparr>k_rcv_buf := k_rcv_buf K, k_rcv_queue := k_rcv_queue K\<rparr> = K"
        using move_ptr_spec [OF b2 q2 d2 K] by blast
      have "data_at h' x \<noteq> None" using m'(5) da x(1) by (simp add: data_at_def)
      then have "h' x \<noteq> None" by (simp add: data_at_def)
      moreover have "set xs' \<union> set ys' = set xs \<union> set ys \<union> {x}" using arg_cong [OF m'(4), of set] s(1) by auto
      moreover have "distinct (ys @ ?xs)" using dist s(1) x(2,3) by auto
      then have "set (b # xs') \<inter> set (q # ys') = {}" using apart [OF m'(2,3) d2 m'(4)] bx s(1) x(2) by auto
      ultimately show ?thesis using e m'(1-3,6) by - (rule exI [of _ h'], rule exI [of _ k'], rule exI [of _ xs'], rule exI [of _ ys'], auto)
    qed
  qed
qed

definition three_nodes :: "ikcpseg heap" where
  "three_nodes = (\<lambda>_. None)(1 \<mapsto> \<lparr>n_data = demo_seg [] 0, n_next = 1, n_prev = 1\<rparr>, 2 \<mapsto> \<lparr>n_data = demo_seg [] 0, n_next = 2, n_prev = 2\<rparr>,
     3 \<mapsto> \<lparr>n_data = demo_seg [7] 0, n_next = 0, n_prev = 0\<rparr>)"

theorem parse_data_pointers_witness:
  "\<exists>h' k' ys'. parse_data_ptr 1 2 3 three_nodes (ikcp_init 1) = Some (h', k') \<and> queue_at h' 2 ys' [demo_seg [7] 0]"
proof -
  let ?n = "\<lparr>n_data = demo_seg [7] 0, n_next = 0, n_prev = 0\<rparr> :: ikcpseg dnode"
  let ?K = "ikcp_parse_data (ikcp_init 1) (n_data ?n)"
  have q: "queue_at three_nodes 1 [] (k_rcv_buf (ikcp_init 1))" "queue_at three_nodes 2 [] (k_rcv_queue (ikcp_init 1))"
    by (simp_all add: queue_at_def ring_def three_nodes_def nx_def pv_def ikcp_init_def)
  have x: "three_nodes 3 = Some ?n" by (simp add: three_nodes_def)
  have "set (1 # []) \<inter> set (2 # []) = ({} :: nat set)" "3 \<notin> set (1 # [] :: nat list)" "3 \<notin> set (2 # [] :: nat list)" by simp_all
  from parse_data_pointers [OF q this(1) x this(2,3)]
  obtain h' k' ys' where "parse_data_ptr 1 2 3 three_nodes (ikcp_init 1) = Some (h', k')" "queue_at h' 2 ys' (k_rcv_queue ?K)" by (elim exE conjE)
  moreover have "k_rcv_queue ?K = [demo_seg [7] 0]" by code_simp
  ultimately show ?thesis by auto
qed

end
