(* ===== verification/Console.thy ===== *)
theory Console
  imports Prelude "HOL-Library.Monad_Syntax"
begin

text \<open>
  The standard library as the console programs use it: C strings in fixed arrays, \<open>scanf\<close>,
  \<open>fgets\<close>, \<open>malloc\<close> and \<open>fopen\<close>.  A read or write outside an array, or printing an array that has
  no terminating zero, is undefined behaviour in C and is \<open>None\<close> here.  The environment of a
  program is the record \<open>env\<close>: the characters still to be read from standard input, the outcomes
  of the system calls still to come (a call succeeds when the list has run out), the files, and
  what was printed.
\<close>

abbreviation NUL :: char where "NUL \<equiv> CHR 0x00"
abbreviation NL :: char where "NL \<equiv> CHR 0x0A"

section \<open>C strings\<close>

text \<open>\<open>cstr a\<close> is the string an array holds, \<open>None\<close> when no terminator is in it.\<close>

definition cstr :: "string \<Rightarrow> string option" where
  "cstr a = (if NUL \<in> set a then Some (takeWhile (\<lambda>c. c \<noteq> NUL) a) else None)"

definition zeros :: "nat \<Rightarrow> string" where
  "zeros n = replicate n NUL"

text \<open>\<open>%s\<close> of \<open>scanf\<close> into an array: the bytes and a terminator over the front of the array.\<close>

definition put_str :: "string \<Rightarrow> string \<Rightarrow> string option" where
  "put_str t a = (if length t < length a then Some (t @ [NUL] @ drop (Suc (length t)) a) else None)"

lemma length_zeros [simp]: "length (zeros n) = n"
  by (simp add: zeros_def)

lemma takeWhile_not_mem: "z \<notin> set s \<Longrightarrow> takeWhile (\<lambda>c. c \<noteq> z) (s @ z # t) = s"
  by (induction s) auto

lemma cstr_pad: "NUL \<notin> set s \<Longrightarrow> cstr (s @ NUL # t) = Some s"
  by (simp add: cstr_def takeWhile_not_mem)

lemma cstr_zeros [simp]: "0 < n \<Longrightarrow> cstr (zeros n) = Some []"
  by (cases n) (simp_all add: cstr_def zeros_def)

lemma put_str_cstr:
  "put_str t a = Some b \<Longrightarrow> length b = length a \<and> cstr b = Some (takeWhile (\<lambda>c. c \<noteq> NUL) t)"
  by (auto simp: put_str_def cstr_def takeWhile_append takeWhile_eq_all_conv [THEN iffD2] split: if_splits)

section \<open>Reading\<close>

definition isspace :: "char \<Rightarrow> bool" where
  "isspace c \<longleftrightarrow> c \<in> {CHR 0x20, CHR 0x09, CHR 0x0A, CHR 0x0B, CHR 0x0C, CHR 0x0D}"

definition isdigit :: "char \<Rightarrow> bool" where
  "isdigit c \<longleftrightarrow> of_char c \<in> {48..57 :: nat}"

definition digit_value :: "char \<Rightarrow> int" where
  "digit_value c = int (of_char c) - 48"

definition scan_s :: "string \<Rightarrow> string option \<times> string" where
  "scan_s cs = (let cs = dropWhile isspace cs in
     if cs = [] then (None, [])
     else (Some (takeWhile (\<lambda>c. \<not> isspace c) cs), dropWhile (\<lambda>c. \<not> isspace c) cs))"

definition scan_d :: "string \<Rightarrow> int option \<times> string" where
  "scan_d cs = (let cs = dropWhile isspace cs;
      neg = (cs \<noteq> [] \<and> hd cs = CHR ''-'');
      ds = (if cs \<noteq> [] \<and> hd cs \<in> {CHR ''-'', CHR ''+''} then tl cs else cs);
      v = fold (\<lambda>c a. 10 * a + digit_value c) (takeWhile isdigit ds) 0
    in if ds = [] \<or> \<not> isdigit (hd ds) then (None, ds)
       else (Some (if neg then - v else v), dropWhile isdigit ds))"

text \<open>\<open>fgets\<close> with room for \<open>n\<close> characters: what it stores, what is left, whether the end was hit.\<close>

fun fgets :: "nat \<Rightarrow> string \<Rightarrow> string \<times> string \<times> bool" where
  "fgets 0 cs = ([], cs, False)"
| "fgets (Suc n) [] = ([], [], True)"
| "fgets (Suc n) (c # cs) =
     (if c = NL then ([c], cs, False)
      else case fgets n cs of (a, r, e) \<Rightarrow> (c # a, r, e))"

lemma fgets_split: "fgets n cs = (a, r, e) \<Longrightarrow> cs = a @ r \<and> length a \<le> n \<and> (\<not> e \<longrightarrow> 0 < n \<longrightarrow> a \<noteq> [])"
  by (induction n cs arbitrary: a r e rule: fgets.induct) (auto split: if_splits prod.splits)

lemma fgets_rest: "(a, r, e) = fgets n cs \<Longrightarrow> length r \<le> length cs"
  and fgets_progress: "(a, r, False) = fgets n cs \<Longrightarrow> 0 < n \<Longrightarrow> length r < length cs"
  by (frule fgets_split [OF sym]; simp)+

lemma fgets_line: "NL \<notin> set l \<Longrightarrow> length l < n \<Longrightarrow> fgets n (l @ NL # r) = (l @ [NL], r, False)"
proof (induction l arbitrary: n)
  case Nil
  then show ?case by (cases n) auto
next
  case (Cons c l)
  then show ?case by (cases n) auto
qed

section \<open>The environment\<close>

datatype event = Line string | Token_line string | Inserted | Not_found | Illegal_name | Letter nat

record env =
  input :: string
  oks :: "bool list"
  files :: "string \<Rightarrow> string option"
  out :: "event list"

definition syscall :: "'a env_scheme \<Rightarrow> bool \<times> 'a env_scheme" where
  "syscall s = (case oks s of [] \<Rightarrow> (True, s) | b # bs \<Rightarrow> (b, s\<lparr>oks := bs\<rparr>))"

definition print_out :: "event \<Rightarrow> 'a env_scheme \<Rightarrow> 'a env_scheme" where
  "print_out x s = s\<lparr>out := out s @ [x]\<rparr>"

definition read_word :: "string \<Rightarrow> 'a env_scheme \<Rightarrow> (string \<times> 'a env_scheme) option" where
  "read_word a s = (case scan_s (input s) of
      (None, r) \<Rightarrow> Some (a, s\<lparr>input := r\<rparr>)
    | (Some t, r) \<Rightarrow> map_option (\<lambda>b. (b, s\<lparr>input := r\<rparr>)) (put_str t a))"

definition read_int :: "int \<Rightarrow> 'a env_scheme \<Rightarrow> int \<times> 'a env_scheme" where
  "read_int d s = (case scan_d (input s) of
      (None, r) \<Rightarrow> (d, s\<lparr>input := r\<rparr>) | (Some v, r) \<Rightarrow> (v, s\<lparr>input := r\<rparr>))"

lemma read_word_cstr:
  assumes "read_word (zeros n) s = Some (a, s')" and "0 < n"
  shows "length a = n \<and> (\<exists>t. cstr a = Some t)"
  using assms put_str_cstr [of _ "zeros n" a] unfolding read_word_def
  by (auto split: prod.splits option.splits)

end
