(* ===== verification/Contact.thy ===== *)
theory Contact
  imports Console Dlist_Heap
begin

text \<open>
  The address book \<open>contact.c\<close>: records in an intrusive list, the line format of its files, the
  entries of the menu and the command loop.  \<open>main_step\<close> is one round of the loop.  The abstract
  book is a list of name and phone strings; \<open>book_step\<close> says what a round does to it.
\<close>

section \<open>Data\<close>

definition NAME_LENGTH :: nat where "NAME_LENGTH = 15"
definition PHONE_LENGTH :: nat where "PHONE_LENGTH = 20"
definition BUFFER_LENGTH :: nat where "BUFFER_LENGTH = 128"
definition MIN_LENGTH :: nat where "MIN_LENGTH = 5"

record person =
  p_name :: string
  p_phone :: string

record contact =
  nnode :: nat
  count :: int

record store = env +
  mem :: "person heap"
  brk :: nat

record app = store +
  cts :: "contact option"

definition blank_person :: person where
  "blank_person = \<lparr>p_name = zeros NAME_LENGTH, p_phone = zeros PHONE_LENGTH\<rparr>"

section \<open>The list interface\<close>

definition person_insert :: "nat \<Rightarrow> nat \<Rightarrow> 'p heap \<Rightarrow> (int \<times> 'p heap \<times> nat) option" where
  "person_insert ppeople ps h =
     (if ps = 0 then Some (-1, h, ppeople)
      else do { (h, l) \<leftarrow> LIST_INSERT ps ppeople h; Some (0, h, l) })"

definition person_delete :: "nat \<Rightarrow> nat \<Rightarrow> 'p heap \<Rightarrow> (int \<times> 'p heap \<times> nat) option" where
  "person_delete ppeople ps h =
     (if ps = 0 then Some (-1, h, ppeople)
      else if ppeople = 0 then Some (-2, h, ppeople)
      else do { (h, l) \<leftarrow> LIST_REMOVE ps ppeople h; Some (0, h, l) })"

partial_function (option) person_search :: "person heap \<Rightarrow> nat \<Rightarrow> string \<Rightarrow> nat option" where
  "person_search h item nm =
     (if item = 0 then Some 0
      else do {
        n \<leftarrow> h item;
        s \<leftarrow> cstr (p_name (n_data n));
        if s = nm then Some item else person_search h (n_next n) nm })"

definition line_of :: "string \<Rightarrow> string \<Rightarrow> string" where
  "line_of nm ph = ''name: '' @ nm @ '',phone: '' @ ph @ [NL]"

partial_function (option) person_traversal :: "person heap \<Rightarrow> nat \<Rightarrow> event list \<Rightarrow> event list option" where
  "person_traversal h item evs =
     (if item = 0 then Some evs
      else do {
        n \<leftarrow> h item;
        nm \<leftarrow> cstr (p_name (n_data n));
        ph \<leftarrow> cstr (p_phone (n_data n));
        person_traversal h (n_next n) (evs @ [Line (line_of nm ph)]) })"

section \<open>Files\<close>

partial_function (option) save_lines :: "person heap \<Rightarrow> nat \<Rightarrow> string \<Rightarrow> string option" where
  "save_lines h people txt =
     (if people = 0 then Some txt
      else do {
        n \<leftarrow> h people;
        nm \<leftarrow> cstr (p_name (n_data n));
        ph \<leftarrow> cstr (p_phone (n_data n));
        save_lines h (n_next n) (txt @ line_of nm ph) })"

definition save_file :: "nat \<Rightarrow> string \<Rightarrow> app \<Rightarrow> (int \<times> app) option" where
  "save_file people filename s = (case syscall s of (fp, s) \<Rightarrow>
     if \<not> fp then Some (-1, s)
     else do {
       txt \<leftarrow> save_lines (mem s) people [];
       Some (0, s\<lparr>files := (files s)(filename \<mapsto> txt)\<rparr>) })"

fun name_loop :: "string \<Rightarrow> nat \<Rightarrow> nat \<Rightarrow> nat \<Rightarrow> string \<Rightarrow> (nat \<times> string) option" where
  "name_loop [] i status j nm = None"
| "name_loop (c # cs) i status j nm =
     (if c = CHR '','' then Some (i, nm)
      else if CHR '' '' = c then name_loop cs (Suc i) 1 j nm
      else if 1 = status then
        (if j < length nm then name_loop cs (Suc i) status (Suc j) (nm[j := c]) else None)
      else name_loop cs (Suc i) status j nm)"

fun phone_loop :: "string \<Rightarrow> nat \<Rightarrow> nat \<Rightarrow> string \<Rightarrow> string option" where
  "phone_loop [] status j ph = Some ph"
| "phone_loop (c # cs) status j ph =
     (if CHR '' '' = c then phone_loop cs 1 j ph
      else if 1 = status then
        (if j < length ph then phone_loop cs status (Suc j) (ph[j := c]) else None)
      else phone_loop cs status j ph)"

text \<open>The scan for the comma has no bound: it leaves the buffer when there is none.\<close>

definition paraser_token ::
  "string option \<Rightarrow> int \<Rightarrow> string \<Rightarrow> string \<Rightarrow> (int \<times> string \<times> string \<times> event list) option" where
  "paraser_token buffer len nm ph = (case buffer of
      None \<Rightarrow> Some (-1, nm, ph, [])
    | Some buf \<Rightarrow>
        if len < int MIN_LENGTH then Some (-2, nm, ph, [])
        else if nat len > length buf then None
        else do {
          (i, nm) \<leftarrow> name_loop buf 0 0 0 nm;
          ph \<leftarrow> phone_loop (drop i (take (nat len) buf)) 0 0 ph;
          a \<leftarrow> cstr nm;
          b \<leftarrow> cstr ph;
          Some (0, nm, ph, [Token_line (''file_token: '' @ line_of a b)]) })"

text \<open>The two allocations of a record and its person; the person's bytes are cleared.\<close>

definition new_node :: "'e store_scheme \<Rightarrow> (int + nat) \<times> 'e store_scheme" where
  "new_node s = (case syscall s of (ok, s) \<Rightarrow>
     if \<not> ok then (Inl (-2), s)
     else case syscall s of (ok, s) \<Rightarrow>
       if \<not> ok then (Inl (-3), s)
       else (Inr (brk s), s\<lparr>mem := (mem s)(brk s \<mapsto> \<lparr>n_data = blank_person, n_next = 0, n_prev = 0\<rparr>),
                           brk := Suc (brk s)\<rparr>))"

definition set_data :: "nat \<Rightarrow> person \<Rightarrow> person heap \<Rightarrow> person heap option" where
  "set_data p d h = (case h p of None \<Rightarrow> None | Some n \<Rightarrow> Some (h(p \<mapsto> n\<lparr>n_data := d\<rparr>)))"

definition free_node :: "nat \<Rightarrow> 'e store_scheme \<Rightarrow> 'e store_scheme" where
  "free_node p s = s\<lparr>mem := (mem s)(p := None)\<rparr>"

definition load_line :: "string \<Rightarrow> (int \<times> string \<times> string \<times> event list) option" where
  "load_line a = do {
     let buffer = a @ zeros (BUFFER_LENGTH - length a);
     str \<leftarrow> cstr buffer;
     paraser_token (Some buffer) (int (length str)) (zeros NAME_LENGTH) (zeros PHONE_LENGTH) }"

function load_loop :: "string \<Rightarrow> bool \<Rightarrow> nat \<Rightarrow> int \<Rightarrow> app \<Rightarrow> (int \<times> nat \<times> int \<times> app) option" where
  "load_loop fp feof people cnt s =
     (if feof then Some (0, people, cnt, s)
      else case fgets (BUFFER_LENGTH - 1) fp of (a, fp, feof) \<Rightarrow>
        do {
          (r, nm, ph, evs) \<leftarrow> load_line a;
          let s = s\<lparr>out := out s @ evs\<rparr>;
          if r = 0 then load_loop fp feof people cnt s
          else case new_node s of
            (Inl e, s) \<Rightarrow> Some (e, people, cnt, s)
          | (Inr p, s) \<Rightarrow>
              do {
                h \<leftarrow> set_data p \<lparr>p_name = nm, p_phone = ph\<rparr> (mem s);
                (_, h, people) \<leftarrow> person_insert people p h;
                load_loop fp feof people (cnt + 1) (s\<lparr>mem := h\<rparr>) } })"
  by pat_completeness auto
termination
  apply (relation "measure (\<lambda>(fp, feof, _). 2 * length fp + (if feof then 0 else 1))")
  apply (auto simp: BUFFER_LENGTH_def split: if_splits dest: fgets_rest)
  apply (drule fgets_progress; simp)+
  done

declare load_loop.simps [simp del]

definition load_file :: "nat \<Rightarrow> int \<Rightarrow> string \<Rightarrow> app \<Rightarrow> (int \<times> nat \<times> int \<times> app) option" where
  "load_file people cnt filename s = (case syscall s of (ok, s) \<Rightarrow>
     case (if ok then files s filename else None) of
       None \<Rightarrow> Some (-1, people, cnt, s)
     | Some txt \<Rightarrow> load_loop txt False people cnt s)"

section \<open>The entries of the menu\<close>

definition insert_entry :: "app \<Rightarrow> (int \<times> app) option" where
  "insert_entry s = (case cts s of
      None \<Rightarrow> Some (-1, s)
    | Some c \<Rightarrow> (case new_node s of
        (Inl e, s) \<Rightarrow> Some (e, s)
      | (Inr p, s) \<Rightarrow> do {
          (nm, s) \<leftarrow> read_word (zeros NAME_LENGTH) s;
          (ph, s) \<leftarrow> read_word (zeros PHONE_LENGTH) s;
          h \<leftarrow> set_data p \<lparr>p_name = nm, p_phone = ph\<rparr> (mem s);
          (r, h, l) \<leftarrow> person_insert (nnode c) p h;
          if r \<noteq> 0 then Some (-4, free_node p (s\<lparr>mem := h, cts := Some (c\<lparr>nnode := l\<rparr>)\<rparr>))
          else Some (0, print_out Inserted
                 (s\<lparr>mem := h, cts := Some (c\<lparr>nnode := l, count := count c + 1\<rparr>)\<rparr>)) }))"

definition print_entry :: "app \<Rightarrow> (int \<times> app) option" where
  "print_entry s = (case cts s of
      None \<Rightarrow> Some (-1, s)
    | Some c \<Rightarrow> do {
        evs \<leftarrow> person_traversal (mem s) (nnode c) (out s);
        Some (0, s\<lparr>out := evs\<rparr>) })"

definition delete_entry :: "app \<Rightarrow> (int \<times> app) option" where
  "delete_entry s = (case cts s of
      None \<Rightarrow> Some (-1, s)
    | Some c \<Rightarrow> do {
        (a, s) \<leftarrow> read_word (zeros NAME_LENGTH) s;
        nm \<leftarrow> cstr a;
        person \<leftarrow> person_search (mem s) (nnode c) nm;
        if person = 0 then Some (-2, print_out Not_found s)
        else do {
          (_, h, l) \<leftarrow> person_delete (nnode c) person (mem s);
          Some (0, free_node person (s\<lparr>mem := h, cts := Some (c\<lparr>nnode := l\<rparr>)\<rparr>)) } })"

definition search_entry :: "app \<Rightarrow> (int \<times> app) option" where
  "search_entry s = (case cts s of
      None \<Rightarrow> Some (-1, s)
    | Some c \<Rightarrow> do {
        (a, s) \<leftarrow> read_word (zeros NAME_LENGTH) s;
        nm \<leftarrow> cstr a;
        person \<leftarrow> person_search (mem s) (nnode c) nm;
        if person = 0 then Some (-2, print_out Not_found s)
        else do {
          n \<leftarrow> mem s person;
          x \<leftarrow> cstr (p_name (n_data n));
          y \<leftarrow> cstr (p_phone (n_data n));
          Some (0, print_out (Line (line_of x y)) s) } })"

definition save_entry :: "app \<Rightarrow> (int \<times> app) option" where
  "save_entry s = (case cts s of
      None \<Rightarrow> Some (-1, s)
    | Some c \<Rightarrow> do {
        (a, s) \<leftarrow> read_word (zeros NAME_LENGTH) s;
        filename \<leftarrow> cstr a;
        (_, s) \<leftarrow> save_file (nnode c) filename s;
        Some (0, s) })"

definition load_entry :: "app \<Rightarrow> (int \<times> app) option" where
  "load_entry s = (case cts s of
      None \<Rightarrow> Some (-1, s)
    | Some c \<Rightarrow> do {
        (a, s) \<leftarrow> read_word (zeros NAME_LENGTH) s;
        filename \<leftarrow> cstr a;
        (_, l, n, s) \<leftarrow> load_file (nnode c) (count c) filename s;
        Some (0, s\<lparr>cts := Some \<lparr>nnode = l, count = n\<rparr>\<rparr>) })"

text \<open>One round of \<open>main\<close>; \<open>False\<close> when the choice leaves the loop.\<close>

definition main_step :: "app \<Rightarrow> (bool \<times> app) option" where
  "main_step s = (case read_int 0 s of (select, s) \<Rightarrow>
     if select = 1 then map_option (\<lambda>(_, s). (True, s)) (insert_entry s)
     else if select = 2 then map_option (\<lambda>(_, s). (True, s)) (print_entry s)
     else if select = 3 then map_option (\<lambda>(_, s). (True, s)) (delete_entry s)
     else if select = 4 then map_option (\<lambda>(_, s). (True, s)) (search_entry s)
     else if select = 5 then map_option (\<lambda>(_, s). (True, s)) (save_entry s)
     else if select = 6 then map_option (\<lambda>(_, s). (True, s)) (load_entry s)
     else Some (False, s))"

text \<open>\<open>main\<close> with fuel: \<open>(False, s)\<close> is the end of the program, \<open>(True, s)\<close> that the fuel ran out.\<close>

fun main_loop :: "nat \<Rightarrow> app \<Rightarrow> (bool \<times> app) option" where
  "main_loop 0 s = Some (True, s)"
| "main_loop (Suc fuel) s = do {
     (go, s) \<leftarrow> main_step s;
     if go then main_loop fuel s else Some (False, s\<lparr>cts := None\<rparr>) }"

definition contact_main :: "nat \<Rightarrow> app \<Rightarrow> (int \<times> bool \<times> app) option" where
  "contact_main fuel s = (case syscall s of (ok, s) \<Rightarrow>
     if \<not> ok then Some (-1, False, s)
     else map_option (\<lambda>(more, s). (0, more, s)) (main_loop fuel (s\<lparr>cts := Some \<lparr>nnode = 0, count = 0\<rparr>\<rparr>)))"

end
