(* ===== verification/Contact_Refine.thy ===== *)
theory Contact_Refine
  imports Contact
begin

text \<open>
  The abstract address book and the refinement of it by \<open>contact.c\<close>: a list of name and phone
  strings beside the same environment.  \<open>book_rel\<close> relates the heap of the program to the list.
  The abstract book also fixes what is surprising in the code: a deletion does not lower the
  count, and loading a file adds only blank records.
\<close>

section \<open>The abstract book\<close>

record book = env +
  people :: "(string \<times> string) list"
  total :: int

definition view :: "person \<Rightarrow> (string \<times> string) option" where
  "view v = do { a \<leftarrow> cstr (p_name v); b \<leftarrow> cstr (p_phone v); Some (a, b) }"

definition read_text :: "nat \<Rightarrow> 'e env_scheme \<Rightarrow> (string \<times> 'e env_scheme) option" where
  "read_text n s = do { (a, s) \<leftarrow> read_word (zeros n) s; t \<leftarrow> cstr a; Some (t, s) }"

definition book_alloc :: "book \<Rightarrow> (int + unit) \<times> book" where
  "book_alloc b = (case syscall b of (ok, b) \<Rightarrow>
     if \<not> ok then (Inl (-2), b)
     else case syscall b of (ok, b) \<Rightarrow> if \<not> ok then (Inl (-3), b) else (Inr (), b))"

definition book_add :: "string \<times> string \<Rightarrow> book \<Rightarrow> book" where
  "book_add q b = b\<lparr>people := q # people b, total := total b + 1\<rparr>"

definition book_insert :: "book \<Rightarrow> (int \<times> book) option" where
  "book_insert b = (case book_alloc b of
      (Inl e, b) \<Rightarrow> Some (e, b)
    | (Inr _, b) \<Rightarrow> do {
        (nm, b) \<leftarrow> read_text NAME_LENGTH b;
        (ph, b) \<leftarrow> read_text PHONE_LENGTH b;
        Some (0, print_out Inserted (book_add (nm, ph) b)) })"

definition book_print :: "book \<Rightarrow> book" where
  "book_print b = b\<lparr>out := out b @ map (\<lambda>(n, q). Line (line_of n q)) (people b)\<rparr>"

fun drop_first :: "string \<Rightarrow> (string \<times> string) list \<Rightarrow> (string \<times> string) list" where
  "drop_first nm [] = []"
| "drop_first nm ((n, q) # ps) = (if n = nm then ps else (n, q) # drop_first nm ps)"

definition book_delete :: "book \<Rightarrow> (int \<times> book) option" where
  "book_delete b = do {
     (nm, b) \<leftarrow> read_text NAME_LENGTH b;
     if nm \<notin> fst ` set (people b) then Some (-2, print_out Not_found b)
     else Some (0, b\<lparr>people := drop_first nm (people b)\<rparr>) }"

definition book_search :: "book \<Rightarrow> (int \<times> book) option" where
  "book_search b = do {
     (nm, b) \<leftarrow> read_text NAME_LENGTH b;
     case find (\<lambda>(n, _). n = nm) (people b) of
       None \<Rightarrow> Some (-2, print_out Not_found b)
     | Some (n, q) \<Rightarrow> Some (0, print_out (Line (line_of n q)) b) }"

definition book_text :: "(string \<times> string) list \<Rightarrow> string" where
  "book_text ps = concat (map (\<lambda>(n, q). line_of n q) ps)"

definition book_save :: "book \<Rightarrow> (int \<times> book) option" where
  "book_save b = do {
     (f, b) \<leftarrow> read_text NAME_LENGTH b;
     case syscall b of (ok, b) \<Rightarrow>
       Some (0, if ok then b\<lparr>files := (files b)(f \<mapsto> book_text (people b))\<rparr> else b) }"

function book_load_loop :: "string \<Rightarrow> bool \<Rightarrow> book \<Rightarrow> book option" where
  "book_load_loop fp feof b =
     (if feof then Some b
      else case fgets (BUFFER_LENGTH - 1) fp of (a, fp, feof) \<Rightarrow>
        do {
          (r, _, _, evs) \<leftarrow> load_line a;
          let b = b\<lparr>out := out b @ evs\<rparr>;
          if r = 0 then book_load_loop fp feof b
          else case book_alloc b of
            (Inl e, b) \<Rightarrow> Some b
          | (Inr _, b) \<Rightarrow> book_load_loop fp feof (book_add ([], []) b) })"
  by pat_completeness auto
termination
  apply (relation "measure (\<lambda>(fp, feof, _). 2 * length fp + (if feof then 0 else 1))")
  apply (auto simp: BUFFER_LENGTH_def split: if_splits dest: fgets_rest)
  apply (drule fgets_progress; simp)+
  done

declare book_load_loop.simps [simp del]

definition book_load :: "book \<Rightarrow> (int \<times> book) option" where
  "book_load b = do {
     (f, b) \<leftarrow> read_text NAME_LENGTH b;
     case syscall b of (ok, b) \<Rightarrow>
       (case (if ok then files b f else None) of
          None \<Rightarrow> Some (0, b)
        | Some txt \<Rightarrow> map_option (Pair 0) (book_load_loop txt False b)) }"

definition book_step :: "book \<Rightarrow> (bool \<times> book) option" where
  "book_step b = (case read_int 0 b of (select, b) \<Rightarrow>
     if select = 1 then map_option (\<lambda>(_, b). (True, b)) (book_insert b)
     else if select = 2 then Some (True, book_print b)
     else if select = 3 then map_option (\<lambda>(_, b). (True, b)) (book_delete b)
     else if select = 4 then map_option (\<lambda>(_, b). (True, b)) (book_search b)
     else if select = 5 then map_option (\<lambda>(_, b). (True, b)) (book_save b)
     else if select = 6 then map_option (\<lambda>(_, b). (True, b)) (book_load b)
     else Some (False, b))"

definition same_env :: "'e env_scheme \<Rightarrow> 'f env_scheme \<Rightarrow> bool" where
  "same_env s b \<longleftrightarrow> input s = input b \<and> oks s = oks b \<and> files s = files b \<and> out s = out b"

definition fresh_mem :: "person heap \<Rightarrow> nat \<Rightarrow> bool" where
  "fresh_mem h k \<longleftrightarrow> 0 < k \<and> (\<forall>a\<ge>k. h a = None)"

definition book_at :: "contact \<Rightarrow> nat list \<Rightarrow> person list \<Rightarrow> app \<Rightarrow> book \<Rightarrow> bool" where
  "book_at c xs vs s b \<longleftrightarrow> same_env s b \<and> fresh_mem (mem s) (brk s) \<and> cts s = Some c \<and> count c = total b \<and>
     dl.holds (mem s) (nnode c) xs vs \<and> map view vs = map Some (people b)"

definition book_rel :: "app \<Rightarrow> book \<Rightarrow> bool" where
  "book_rel s b \<longleftrightarrow> (\<exists>c xs vs. book_at c xs vs s b)"

lemma book_relI: "book_at c xs vs s b \<Longrightarrow> book_rel s b"
  by (auto simp: book_rel_def)

section \<open>Walks\<close>

lemma search_walk:
  assumes "dseg h prv p xs 0 l" and "map (data_at h) xs = map Some vs" and "map view vs = map Some ps"
  shows "person_search h p nm = Some (case find (\<lambda>(x, (n, _)). n = nm) (zip xs ps) of None \<Rightarrow> 0 | Some (x, _) \<Rightarrow> x)"
  using assms
proof (induction xs arbitrary: prv p vs ps)
  case Nil
  then show ?case by (simp add: person_search.simps)
next
  case (Cons x xs)
  obtain n v ws where n: "vs = v # ws" "p = x" "x \<noteq> 0" "h x = Some n" "n_data n = v"
    "dseg h x (n_next n) xs 0 l" "map (data_at h) xs = map Some ws"
    using dseg_Cons_data [OF Cons.prems(1,2)] .
  obtain a b qs where q: "ps = (a, b) # qs" "view v = Some (a, b)" "map view ws = map Some qs"
    using Cons.prems(3) n(1) by (cases ps) auto
  have "cstr (p_name v) = Some a"
    using q(2) by (auto simp: view_def Option.bind_eq_Some_conv)
  then show ?case
    using Cons.IH [OF n(6,7) q(3)] n q by (simp add: person_search.simps [of h x])
qed

lemma traversal_walk:
  assumes "dseg h prv p xs 0 l" and "map (data_at h) xs = map Some vs" and "map view vs = map Some ps"
  shows "person_traversal h p evs = Some (evs @ map (\<lambda>(n, q). Line (line_of n q)) ps)"
    and "save_lines h p u = Some (u @ book_text ps)"
proof -
  show "person_traversal h p evs = Some (evs @ map (\<lambda>(n, q). Line (line_of n q)) ps)"
    using assms
  proof (induction xs arbitrary: prv p vs ps evs)
    case Nil
    then show ?case by (simp add: person_traversal.simps)
  next
    case (Cons x xs)
    obtain n v ws where n: "vs = v # ws" "p = x" "x \<noteq> 0" "h x = Some n" "n_data n = v"
      "dseg h x (n_next n) xs 0 l" "map (data_at h) xs = map Some ws"
      using dseg_Cons_data [OF Cons.prems(1,2)] .
    obtain a b qs where q: "ps = (a, b) # qs" "view v = Some (a, b)" "map view ws = map Some qs"
      using Cons.prems(3) n(1) by (cases ps) auto
    have "cstr (p_name v) = Some a" "cstr (p_phone v) = Some b"
      using q(2) by (auto simp: view_def Option.bind_eq_Some_conv)
    then show ?case
      using Cons.IH [OF n(6,7) q(3)] n q by (simp add: person_traversal.simps [of h x])
  qed
  show "save_lines h p u = Some (u @ book_text ps)"
    using assms
  proof (induction xs arbitrary: prv p vs ps u)
    case Nil
    then show ?case by (simp add: save_lines.simps book_text_def)
  next
    case (Cons x xs)
    obtain n v ws where n: "vs = v # ws" "p = x" "x \<noteq> 0" "h x = Some n" "n_data n = v"
      "dseg h x (n_next n) xs 0 l" "map (data_at h) xs = map Some ws"
      using dseg_Cons_data [OF Cons.prems(1,2)] .
    obtain a b qs where q: "ps = (a, b) # qs" "view v = Some (a, b)" "map view ws = map Some qs"
      using Cons.prems(3) n(1) by (cases ps) auto
    have "cstr (p_name v) = Some a" "cstr (p_phone v) = Some b"
      using q(2) by (auto simp: view_def Option.bind_eq_Some_conv)
    then show ?case
      using Cons.IH [OF n(6,7) q(3)] n q by (simp add: save_lines.simps [of h x] book_text_def)
  qed
qed

section \<open>The environment calls\<close>

lemma rel_option_bind:
  assumes "rel_option A m m'" and "\<And>x y. A x y \<Longrightarrow> rel_option B (f x) (g y)"
  shows "rel_option B (m \<bind> f) (m' \<bind> g)"
  using assms(1) by (cases rule: option.rel_cases) (auto intro: assms(2))

text \<open>
  Both address books keep their lists in a heap behind the same environment, so what a library call
  does to a related pair of states is proved once, for a relation that looks only at the lists.
\<close>

locale store_refine =
  fixes rel :: "'e store_scheme \<Rightarrow> book \<Rightarrow> bool"
  assumes rel_env: "rel s b \<Longrightarrow> same_env s b"
    and rel_fresh: "rel s b \<Longrightarrow> fresh_mem (mem s) (brk s)"
    and rel_upd: "rel s b \<Longrightarrow> same_env s' b' \<Longrightarrow> mem s' = mem s \<Longrightarrow> brk s' = brk s \<Longrightarrow>
      store.more s' = store.more s \<Longrightarrow> people b' = people b \<Longrightarrow> total b' = total b \<Longrightarrow> rel s' b'"
    and rel_alloc: "rel s b \<Longrightarrow> rel (s\<lparr>mem := (mem s)(brk s \<mapsto> n), brk := Suc (brk s)\<rparr>) b"
begin

lemma syscall_rel:
  assumes r: "rel s b" and s: "syscall s = (ok, s')" and b: "syscall b = (ok', b')"
  shows "ok' = ok" and "rel s' b'"
proof -
  have e: "same_env s b" and o: "oks s = oks b" using rel_env [OF r] by (auto simp: same_env_def)
  show "ok' = ok" using s b o by (auto simp: syscall_def split: list.splits)
  show "rel s' b'"
    by (rule rel_upd [OF r])
      (use e s b in \<open>auto simp: syscall_def same_env_def split: list.splits\<close>)
qed

lemma print_out_rel: "rel s b \<Longrightarrow> rel (print_out e s) (print_out e b)"
  by (rule rel_upd) (auto simp: print_out_def same_env_def dest: rel_env)

lemma read_word_rel:
  assumes r: "rel s b" and n: "0 < n"
  shows "rel_option (\<lambda>(a, s') (t, b'). length a = n \<and> cstr a = Some t \<and> rel s' b' \<and> mem s' = mem s)
    (read_word (zeros n) s) (read_text n b)"
proof -
  have e: "same_env s b" and i: "input s = input b" using rel_env [OF r] by (auto simp: same_env_def)
  have upd: "rel (s\<lparr>input := k\<rparr>) (b\<lparr>input := k\<rparr>)" for k
    by (rule rel_upd [OF r]) (use e in \<open>auto simp: same_env_def\<close>)
  show ?thesis
  proof (cases "scan_s (input b)")
    case (Pair t k)
    show ?thesis
    proof (cases t)
      case None
      then show ?thesis using Pair i n upd by (simp add: read_word_def read_text_def)
    next
      case (Some u)
      then show ?thesis
        using Pair i upd put_str_cstr [of u "zeros n"]
        by (cases "put_str u (zeros n)") (auto simp: read_word_def read_text_def)
    qed
  qed
qed

lemma read_bind:
  assumes "rel s b" and "0 < n"
    and "\<And>a t s' b'. length a = n \<Longrightarrow> cstr a = Some t \<Longrightarrow> rel s' b' \<Longrightarrow> mem s' = mem s \<Longrightarrow>
      rel_option B (f (a, s')) (g (t, b'))"
  shows "rel_option B (read_word (zeros n) s \<bind> f) (read_text n b \<bind> g)"
  by (rule rel_option_bind [OF read_word_rel [OF assms(1,2)]]) (auto intro: assms(3))

lemma read_int_rel:
  assumes r: "rel s b" and s: "read_int 0 s = (v, s')" and b: "read_int 0 b = (v', b')"
  shows "v' = v" and "rel s' b'"
proof -
  have e: "same_env s b" and i: "input s = input b" using rel_env [OF r] by (auto simp: same_env_def)
  show "v' = v" using s b i by (auto simp: read_int_def split: prod.splits option.splits)
  show "rel s' b'"
    by (rule rel_upd [OF r])
      (use s b e i in \<open>auto simp: read_int_def same_env_def split: prod.splits option.splits\<close>)
qed

lemma new_node_sim:
  assumes r: "rel s b" and s: "new_node s = (x, s')" and b: "book_alloc b = (y, b')"
  shows "rel s' b'"
    and "\<And>e. x = Inl e \<Longrightarrow> y = Inl e"
    and "\<And>p. x = Inr p \<Longrightarrow> y = Inr () \<and> p \<noteq> 0 \<and> mem s p = None \<and> (\<exists>n. mem s' p = Some n)"
proof -
  obtain ok1 s1 ok1' b1 where 1: "syscall s = (ok1, s1)" "syscall b = (ok1', b1)" by fastforce
  obtain ok2 s2 ok2' b2 where 2: "syscall s1 = (ok2, s2)" "syscall b1 = (ok2', b2)" by fastforce
  have r1: "ok1' = ok1" "rel s1 b1" using syscall_rel [OF r 1] by auto
  have r2: "ok2' = ok2" "rel s2 b2" using syscall_rel [OF r1(2) 2] by auto
  have m: "mem s2 = mem s" "brk s2 = brk s" using 1 2 by (auto simp: syscall_def split: list.splits)
  have new: "brk s \<noteq> 0" "mem s (brk s) = None" using rel_fresh [OF r] by (auto simp: fresh_mem_def)
  show "rel s' b'" "\<And>e. x = Inl e \<Longrightarrow> y = Inl e"
    "\<And>p. x = Inr p \<Longrightarrow> y = Inr () \<and> p \<noteq> 0 \<and> mem s p = None \<and> (\<exists>n. mem s' p = Some n)"
    using s b 1 2 r1 r2 new m rel_alloc [OF r2(2)]
    by (auto simp: new_node_def book_alloc_def split: if_splits)
qed

end

lemma app_more: "store.more s' = store.more s \<Longrightarrow> cts s' = cts s"
  by (cases s; cases s') simp

interpretation ba: store_refine "book_at c xs vs" for c xs vs
proof
  fix s b
  assume r: "book_at c xs vs s b"
  then show "same_env s b" "fresh_mem (mem s) (brk s)" by (auto simp: book_at_def)
  show "book_at c xs vs s' b'" if "same_env s' b'" "mem s' = mem s" "brk s' = brk s" "store.more s' = store.more s"
    "people b' = people b" "total b' = total b" for s' b'
    using r that by (simp add: book_at_def app_more [OF that(4)])
  show "book_at c xs vs (s\<lparr>mem := (mem s)(brk s \<mapsto> n), brk := Suc (brk s)\<rparr>) b" for n
    using r by (auto simp: book_at_def fresh_mem_def same_env_def intro: holds_alloc)
qed

lemma book_at_env:
  assumes "book_at c xs vs s b" and "same_env s' b'" and "cts s' = cts s" and "mem s' = mem s" and "brk s' = brk s"
    and "people b' = people b" and "total b' = total b"
  shows "book_at c xs vs s' b'"
  using assms by (simp add: book_at_def)

lemma new_node_rel:
  assumes r: "book_at c xs vs s b" and s: "new_node s = (x, s')" and b: "book_alloc b = (y, b')"
  shows "book_at c xs vs s' b'"
    and "\<And>e. x = Inl e \<Longrightarrow> y = Inl e"
    and "\<And>p. x = Inr p \<Longrightarrow> y = Inr () \<and> p \<noteq> 0 \<and> p \<notin> set xs \<and> (\<exists>n. mem s' p = Some n)"
  using ba.new_node_sim [OF r s b] holds_unalloc [of "mem s" "nnode c" xs vs] r
  by (auto simp: book_at_def)

text \<open>Filling a loose node and linking it puts its person at the front of the list.\<close>

lemma add_rel:
  assumes r: "book_at c xs vs s b" and p: "p \<noteq> 0" "p \<notin> set xs" "\<exists>n. mem s p = Some n"
    and v: "view d = Some q"
  shows "\<exists>h0 h. set_data p d (mem s) = Some h0 \<and> person_insert (nnode c) p h0 = Some (0, h, p) \<and>
    book_at \<lparr>nnode = p, count = count c + 1\<rparr> (p # xs) (d # vs)
      (s\<lparr>mem := h, cts := Some \<lparr>nnode = p, count = count c + 1\<rparr>\<rparr>) (book_add q b)"
proof -
  obtain n where n: "mem s p = Some n" using p(3) by blast
  let ?h0 = "(mem s)(p \<mapsto> n\<lparr>n_data := d\<rparr>)"
  have d: "set_data p d (mem s) = Some ?h0" using n by (simp add: set_data_def)
  have "dl.holds ?h0 (nnode c) xs vs"
    by (rule holds_frame [of "mem s"]) (use r p in \<open>auto simp: book_at_def\<close>)
  then obtain h where h: "LIST_INSERT p (nnode c) ?h0 = Some (h, p)" "dl.holds h p (p # xs) (d # vs)"
    "only_links (set (p # xs)) ?h0 h"
    using dl.holds_insert [of ?h0 "nnode c" xs vs p d] p by (auto simp: data_at_def)
  have "fresh_mem h (brk s)"
    unfolding fresh_mem_def
  proof (intro conjI allI impI)
    show "0 < brk s" using r by (simp add: book_at_def fresh_mem_def)
    fix a assume a: "brk s \<le> a"
    then have "mem s a = None" using r by (simp add: book_at_def fresh_mem_def)
    then have "a \<noteq> p" "a \<notin> set xs"
      using n holds_nodes [of "mem s" "nnode c" xs vs a] r by (auto simp: book_at_def)
    then show "h a = None" using h(3) \<open>mem s a = None\<close> by (simp add: only_links_def)
  qed
  then show ?thesis
    using r d h v p by (auto simp: person_insert_def book_at_def same_env_def book_add_def)
qed

section \<open>The entries refine the abstract operations\<close>

abbreviation step_rel :: "('r \<times> app) option \<Rightarrow> ('r \<times> book) option \<Rightarrow> bool" where
  "step_rel \<equiv> rel_option (rel_prod (=) book_rel)"

named_theorems book_refines \<open>one rule per entry of the menu\<close>

lemma length_pos [simp]: "0 < NAME_LENGTH" "0 < PHONE_LENGTH"
  by (simp_all add: NAME_LENGTH_def PHONE_LENGTH_def)

lemma insert_refines [book_refines]:
  assumes "book_at c xs vs s b"
  shows "step_rel (insert_entry s) (book_insert b)"
proof -
  obtain x s1 where s1: "new_node s = (x, s1)" by fastforce
  obtain y b1 where b1: "book_alloc b = (y, b1)" by fastforce
  note r = new_node_rel [OF assms s1 b1]
  have c: "cts s = Some c" using assms by (simp add: book_at_def)
  show ?thesis
  proof (cases x)
    case (Inl e)
    then show ?thesis using r s1 b1 c by (auto simp: insert_entry_def book_insert_def intro: book_relI)
  next
    case (Inr p)
    then have y: "y = Inr ()" and p: "p \<noteq> 0" "p \<notin> set xs" "\<exists>n. mem s1 p = Some n" using r(3) by auto
    show ?thesis
      unfolding insert_entry_def book_insert_def c s1 b1 y Inr option.case sum.case prod.case
      apply (rule ba.read_bind [OF r(1) length_pos(1)], unfold prod.case)
      apply (erule ba.read_bind [OF _ length_pos(2)], unfold prod.case)
      subgoal premises q for nm tn s2 b2 ph tp s3 b3
      proof -
        have v: "view \<lparr>p_name = nm, p_phone = ph\<rparr> = Some (tn, tp)" using q by (simp add: view_def)
        have e: "c\<lparr>nnode := p, count := count c + 1\<rparr> = \<lparr>nnode = p, count = count c + 1\<rparr>"
          by (cases c) simp
        have "\<exists>n. mem s3 p = Some n" using p(3) q by simp
        then show ?thesis
          using add_rel [OF q(6) p(1,2) _ v] by (auto simp: e intro!: book_relI ba.print_out_rel)
      qed
      done
  qed
qed

lemma print_refines [book_refines]:
  assumes "book_at c xs vs s b"
  shows "step_rel (print_entry s) (Some (0, book_print b))"
proof -
  obtain l where "dseg (mem s) 0 (nnode c) xs 0 l" "map (data_at (mem s)) xs = map Some vs"
    using holds_dseg [of "mem s" "nnode c" xs vs] assms by (auto simp: book_at_def)
  note w = traversal_walk(1) [OF this, of "people b" "out s"]
  have c: "cts s = Some c" "map view vs = map Some (people b)" using assms by (auto simp: book_at_def)
  have "book_at c xs vs (s\<lparr>out := k\<rparr>) (b\<lparr>out := k\<rparr>)" for k
    by (rule book_at_env [OF assms]) (use assms in \<open>auto simp: book_at_def same_env_def\<close>)
  moreover have "out s = out b" using assms by (simp add: book_at_def same_env_def)
  ultimately show ?thesis
    using c w by (auto simp: print_entry_def book_print_def intro!: book_relI)
qed


lemma search_at:
  assumes "book_at c xs vs s b"
  shows "person_search (mem s) (nnode c) nm =
    Some (case find (\<lambda>(x, (n, _)). n = nm) (zip xs (people b)) of None \<Rightarrow> 0 | Some (x, _) \<Rightarrow> x)"
proof -
  obtain l where "dseg (mem s) 0 (nnode c) xs 0 l" "map (data_at (mem s)) xs = map Some vs"
    using holds_dseg [of "mem s" "nnode c" xs vs] assms by (auto simp: book_at_def)
  then show ?thesis by (rule search_walk) (use assms in \<open>simp add: book_at_def\<close>)
qed

text \<open>The search either finds nothing or splits the list at the first record of the name.\<close>

lemma find_first:
  assumes "length xs = length ps"
  shows "(find (\<lambda>(x, (n, _)). n = nm) (zip xs ps) = None \<and> nm \<notin> fst ` set ps \<and> find (\<lambda>(n, _). n = nm) ps = None) \<or>
    (\<exists>as x bs us q ws. xs = as @ x # bs \<and> ps = us @ (nm, q) # ws \<and> length as = length us \<and> nm \<notin> fst ` set us \<and>
       find (\<lambda>(x, (n, _)). n = nm) (zip xs ps) = Some (x, (nm, q)) \<and>
       find (\<lambda>(n, _). n = nm) ps = Some (nm, q) \<and> drop_first nm ps = us @ ws)"
  using assms
proof (induction xs ps rule: list_induct2)
  case Nil
  then show ?case by simp
next
  case (Cons x xs p ps)
  obtain n q where p: "p = (n, q)" by (cases p)
  show ?case
  proof (cases "n = nm")
    case True
    then show ?thesis
      by (intro disjI2 exI [of _ "[]"] exI [of _ x] exI [of _ xs] exI [of _ q] exI [of _ ps]) (simp add: p)
  next
    case False
    from Cons.IH show ?thesis
    proof (elim disjE exE conjE)
      fix as y bs us r ws
      assume "xs = as @ y # bs" "ps = us @ (nm, r) # ws" "length as = length us" "nm \<notin> fst ` set us"
        "find (\<lambda>(x, (n, _)). n = nm) (zip xs ps) = Some (y, (nm, r))"
        "find (\<lambda>(n, _). n = nm) ps = Some (nm, r)" "drop_first nm ps = us @ ws"
      then show ?thesis
        by (intro disjI2 exI [of _ "x # as"] exI [of _ y] exI [of _ bs] exI [of _ "p # us"] exI [of _ r] exI [of _ ws])
          (use False in \<open>auto simp: p\<close>)
    qed (use False in \<open>auto simp: p\<close>)
  qed
qed

lemma fresh_mem_links:
  assumes "fresh_mem h k" and "only_links A h h'" and "\<forall>x\<in>A. \<exists>n. h x = Some n"
  shows "fresh_mem h' k"
  using assms unfolding fresh_mem_def only_links_def by (metis option.distinct(1))

lemma fresh_mem_free: "fresh_mem h k \<Longrightarrow> fresh_mem (h(p := None)) k"
  by (simp add: fresh_mem_def)

lemma map_Some_split:
  "map f vs = map Some (us @ y # ws) \<Longrightarrow> \<exists>us' v ws'. vs = us' @ v # ws' \<and> length us' = length us \<and>
     map f us' = map Some us \<and> f v = Some y \<and> map f ws' = map Some ws"
proof (induction us arbitrary: vs)
  case Nil
  then obtain v ws' where "vs = v # ws'" by (cases vs) auto
  with Nil show ?case by (intro exI [of _ "[]"]) auto
next
  case (Cons u us)
  then obtain v vs' where v: "vs = v # vs'" "f v = Some u" "map f vs' = map Some (us @ y # ws)" by (cases vs) auto
  then obtain us' w ws' where "vs' = us' @ w # ws'" "length us' = length us" "map f us' = map Some us"
    "f w = Some y" "map f ws' = map Some ws" using Cons.IH by blast
  with v show ?case by (intro exI [of _ "v # us'"]) auto
qed

lemma delete_refines [book_refines]:
  assumes "book_at c xs vs s b"
  shows "step_rel (delete_entry s) (book_delete b)"
proof -
  have c: "cts s = Some c" using assms by (simp add: book_at_def)
  show ?thesis
    unfolding delete_entry_def book_delete_def c option.case
    apply (rule ba.read_bind [OF assms length_pos(1)], unfold prod.case)
    subgoal premises q for a nm s1 b1
    proof -
      have len: "length xs = length (people b1)" "length vs = length (people b1)"
        using q(3) by (auto simp: book_at_def dl.holds_def dest!: arg_cong [where f = length])
      from find_first [OF len(1), of nm] show ?thesis
      proof (elim disjE exE conjE)
        assume "find (\<lambda>(x, (n, _)). n = nm) (zip xs (people b1)) = None" "nm \<notin> fst ` set (people b1)"
        then show ?thesis
          using q search_at [OF q(3), of nm] by (auto intro!: book_relI ba.print_out_rel)
      next
        fix as x bs us r ws
        assume f: "xs = as @ x # bs" "people b1 = us @ (nm, r) # ws" "length as = length us"
          "find (\<lambda>(x, (n, _)). n = nm) (zip xs (people b1)) = Some (x, (nm, r))"
          "drop_first nm (people b1) = us @ ws"
        obtain us' v ws' where vs: "vs = us' @ v # ws'" "length us' = length us"
          "map view us' = map Some us" "map view ws' = map Some ws"
          using map_Some_split [of view vs us "(nm, r)" ws] q(3) f(2) by (auto simp: book_at_def)
        have x: "x \<noteq> 0" "nnode c \<noteq> 0"
          using q(3) dl.nodes [of "mem s1" "nnode c" xs] dl.head_zero [of "mem s1" "nnode c" xs] f(1)
          by (auto simp: book_at_def dl.holds_def)
        obtain h p where h: "LIST_REMOVE x (nnode c) (mem s1) = Some (h, p)" "dl.holds h p (as @ bs) (us' @ ws')"
          "only_links (set xs) (mem s1) h"
          using dl.holds_remove [of "mem s1" "nnode c" as x bs us' v ws'] q(3) f(1,3) vs
          by (auto simp: book_at_def)
        let ?s = "free_node x (s1\<lparr>mem := h, cts := Some (c\<lparr>nnode := p\<rparr>)\<rparr>)"
        have "x \<notin> set (as @ bs)"
          using q(3) dl.nodes [of "mem s1" "nnode c" xs] f(1) by (auto simp: book_at_def dl.holds_def)
        then have "dl.holds (mem ?s) p (as @ bs) (us' @ ws')"
          by (intro holds_frame [OF h(2)]) (auto simp: free_node_def)
        moreover have "fresh_mem (mem ?s) (brk s1)"
          using q(3) fresh_mem_links [OF _ h(3)] holds_nodes [of "mem s1" "nnode c" xs vs]
          by (auto simp: book_at_def free_node_def fresh_mem_free)
        ultimately have "book_at (c\<lparr>nnode := p\<rparr>) (as @ bs) (us' @ ws') ?s (b1\<lparr>people := us @ ws\<rparr>)"
          using q(3) vs by (simp add: book_at_def same_env_def free_node_def)
        moreover have "nm \<in> fst ` set (people b1)" using f(2) by simp
        moreover have "person_delete (nnode c) x (mem s1) = Some (0, h, p)"
          using x h(1) by (simp add: person_delete_def)
        ultimately show ?thesis
          using f x q search_at [OF q(3), of nm] by (auto intro: book_relI)
      qed
    qed
    done
qed

lemma search_refines [book_refines]:
  assumes "book_at c xs vs s b"
  shows "step_rel (search_entry s) (book_search b)"
proof -
  have c: "cts s = Some c" using assms by (simp add: book_at_def)
  show ?thesis
    unfolding search_entry_def book_search_def c option.case
    apply (rule ba.read_bind [OF assms length_pos(1)], unfold prod.case)
    subgoal premises q for a nm s1 b1
    proof -
      have len: "length xs = length (people b1)"
        using q(3) by (auto simp: book_at_def dl.holds_def dest!: arg_cong [where f = length])
      from find_first [OF len, of nm] show ?thesis
      proof (elim disjE exE conjE)
        assume "find (\<lambda>(x, (n, _)). n = nm) (zip xs (people b1)) = None" "find (\<lambda>(n, _). n = nm) (people b1) = None"
        then show ?thesis
          using q search_at [OF q(3), of nm] by (auto intro!: book_relI ba.print_out_rel)
      next
        fix as x bs us r ws
        assume f: "xs = as @ x # bs" "people b1 = us @ (nm, r) # ws" "length as = length us"
          "find (\<lambda>(x, (n, _)). n = nm) (zip xs (people b1)) = Some (x, (nm, r))"
          "find (\<lambda>(n, _). n = nm) (people b1) = Some (nm, r)"
        obtain us' v ws' where vs: "vs = us' @ v # ws'" "length us' = length us" "view v = Some (nm, r)"
          using map_Some_split [of view vs us "(nm, r)" ws] q(3) f(2) by (auto simp: book_at_def)
        have "data_at (mem s1) x = Some v"
          using q(3) f(1,3) vs by (simp add: book_at_def dl.holds_def)
        then obtain n where n: "mem s1 x = Some n" "n_data n = v" by (auto simp: data_at_def)
        have "x \<noteq> 0"
          using q(3) dl.nodes [of "mem s1" "nnode c" xs] f(1) by (auto simp: book_at_def dl.holds_def)
        moreover have "cstr (p_name v) = Some nm" "cstr (p_phone v) = Some r"
          using vs(3) by (auto simp: view_def Option.bind_eq_Some_conv)
        ultimately show ?thesis
          using f q n search_at [OF q(3), of nm] by (auto intro!: book_relI ba.print_out_rel)
      qed
    qed
    done
qed

lemma save_refines [book_refines]:
  assumes "book_at c xs vs s b"
  shows "step_rel (save_entry s) (book_save b)"
proof -
  have c: "cts s = Some c" using assms by (simp add: book_at_def)
  show ?thesis
    unfolding save_entry_def book_save_def c option.case
    apply (rule ba.read_bind [OF assms length_pos(1)], unfold prod.case)
    subgoal premises q for a f s1 b1
    proof -
      obtain ok s2 ok' b2 where 2: "syscall s1 = (ok, s2)" "syscall b1 = (ok', b2)" by fastforce
      note r = ba.syscall_rel [OF q(3) 2]
      have m: "map view vs = map Some (people b2)" and e: "same_env s2 b2" using r(2) by (auto simp: book_at_def)
      obtain l where "dseg (mem s2) 0 (nnode c) xs 0 l" "map (data_at (mem s2)) xs = map Some vs"
        using holds_dseg [of "mem s2" "nnode c" xs vs] r(2) by (auto simp: book_at_def)
      note w = traversal_walk(2) [OF this m, of "[]"]
      have "book_at c xs vs (s2\<lparr>files := k\<rparr>) (b2\<lparr>files := k\<rparr>)" for k
        by (rule book_at_env [OF r(2)]) (use e in \<open>auto simp: same_env_def\<close>)
      moreover have "files s2 = files b2" using e by (simp add: same_env_def)
      ultimately show ?thesis
        using q 2 r w by (auto simp: save_file_def intro: book_relI)
    qed
    done
qed

lemma load_line_view:
  assumes "load_line a = Some (r, nm, ph, evs)" and "r \<noteq> 0"
  shows "view \<lparr>p_name = nm, p_phone = ph\<rparr> = Some ([], [])"
  using assms by (auto simp: load_line_def paraser_token_def view_def Let_def Option.bind_eq_Some_conv split: if_splits)

text \<open>The loop keeps its list head and count in local variables; the relation holds of the state
  with them written back.\<close>

definition with_head :: "nat \<Rightarrow> int \<Rightarrow> app \<Rightarrow> app" where
  "with_head l n s = s\<lparr>cts := Some \<lparr>nnode = l, count = n\<rparr>\<rparr>"

lemma with_head_env [simp]:
  "cts (with_head l n s) = Some \<lparr>nnode = l, count = n\<rparr>" "mem (with_head l n s) = mem s" "brk (with_head l n s) = brk s"
  "out (with_head l n s) = out s" "with_head l n (s\<lparr>out := k\<rparr>) = (with_head l n s)\<lparr>out := k\<rparr>"
  by (simp_all add: with_head_def)

lemma new_node_with_head:
  "new_node (with_head l n s) = map_prod id (with_head l n) (new_node s)"
  by (simp add: new_node_def syscall_def with_head_def split: list.splits)

lemma load_loop_refines:
  assumes "book_rel (with_head l n s) b"
  shows "rel_option (\<lambda>(_, l, n, s) b. book_rel (with_head l n s) b) (load_loop fp feof l n s) (book_load_loop fp feof b)"
  using assms
proof (induction fp feof b arbitrary: l n s rule: book_load_loop.induct)
  case (1 fp feof b)
  note unfold = load_loop.simps [of fp feof] book_load_loop.simps [of fp feof]
  show ?case
  proof (cases feof)
    case True
    then show ?thesis using "1.prems" by (simp add: load_loop.simps [of fp True] book_load_loop.simps [of fp True])
  next
    case False
    obtain a fp' e where g: "fgets (BUFFER_LENGTH - 1) fp = (a, fp', e)" by (cases "fgets (BUFFER_LENGTH - 1) fp") auto
    show ?thesis
    proof (cases "load_line a")
      case None
      then show ?thesis unfolding unfold using False g by simp
    next
      case (Some z)
      obtain r nm ph evs where z: "z = (r, nm, ph, evs)" by (cases z)
      let ?s = "s\<lparr>out := out s @ evs\<rparr>" and ?b = "b\<lparr>out := out b @ evs\<rparr>"
      obtain c xs vs where at: "book_at c xs vs (with_head l n s) b" using "1.prems" by (auto simp: book_rel_def)
      then have c: "c = \<lparr>nnode = l, count = n\<rparr>" "out s = out b" by (auto simp: book_at_def same_env_def)
      have at': "book_at c xs vs (with_head l n ?s) ?b"
        by (rule book_at_env [OF at]) (use at in \<open>auto simp: book_at_def same_env_def\<close>)
      show ?thesis
      proof (cases "r = 0")
        case True
        have "rel_option (\<lambda>(_, l, n, s) b. book_rel (with_head l n s) b)
            (load_loop fp' e l n ?s) (book_load_loop fp' e ?b)"
          by (rule "1.IH"(1) [OF False g [symmetric] refl Some z [symmetric] refl refl refl True book_relI [OF at']])
        then show ?thesis unfolding unfold using False g Some z True by simp
      next
        case r: False
        obtain x s1 where s1: "new_node ?s = (x, s1)" by fastforce
        obtain y b1 where b1: "book_alloc ?b = (y, b1)" by fastforce
        have "new_node (with_head l n ?s) = (x, with_head l n s1)"
          using new_node_with_head [of l n ?s] s1 by simp
        note rn = new_node_rel [OF at' this b1]
        show ?thesis
        proof (cases x)
          case (Inl err)
          then show ?thesis unfolding unfold using rn False g Some z r s1 b1 by (auto intro: book_relI)
        next
          case (Inr p)
          then have y: "y = Inr ()" and p: "p \<noteq> 0" "p \<notin> set xs" "\<exists>n. mem s1 p = Some n"
            using rn(3) by auto
          have v: "view \<lparr>p_name = nm, p_phone = ph\<rparr> = Some ([], [])"
            using load_line_view Some z r by blast
          have "\<exists>m. mem (with_head l n s1) p = Some m" using p(3) by simp
          then obtain h0 h where h: "set_data p \<lparr>p_name = nm, p_phone = ph\<rparr> (mem s1) = Some h0"
            "person_insert l p h0 = Some (0, h, p)"
            "book_rel (with_head p (n + 1) (s1\<lparr>mem := h\<rparr>)) (book_add ([], []) b1)"
            using add_rel [OF rn(1) p(1,2) _ v] c by (auto simp: with_head_def intro: book_relI)
          have "rel_option (\<lambda>(_, l, n, s) b. book_rel (with_head l n s) b)
            (load_loop fp' e p (n + 1) (s1\<lparr>mem := h\<rparr>)) (book_load_loop fp' e (book_add ([], []) b1))"
            by (rule "1.IH"(2) [OF False g [symmetric] refl Some z [symmetric] refl refl refl r b1 [symmetric] y h(3)])
          then show ?thesis unfolding unfold using False g Some z r s1 b1 Inr y h by simp
        qed
      qed
    qed
  qed
qed

lemma load_refines [book_refines]:
  assumes "book_at c xs vs s b"
  shows "step_rel (load_entry s) (book_load b)"
proof -
  have c: "cts s = Some c" using assms by (simp add: book_at_def)
  show ?thesis
    unfolding load_entry_def book_load_def c option.case
    apply (rule ba.read_bind [OF assms length_pos(1)], unfold prod.case)
    subgoal premises q for a f s1 b1
    proof -
      obtain ok s2 ok' b2 where 2: "syscall s1 = (ok, s2)" "syscall b1 = (ok', b2)" by fastforce
      note r = ba.syscall_rel [OF q(3) 2]
      have h: "with_head (nnode c) (count c) s2 = s2" and fl: "files s2 = files b2"
        using r(2) by (auto simp: book_at_def with_head_def same_env_def)
      show ?thesis
      proof (cases "if ok then files b2 f else None")
        case None
        then show ?thesis
          using q 2 r h fl by (auto simp: load_file_def with_head_def split: if_splits intro: book_relI)
      next
        case (Some u)
        have "rel_option (\<lambda>(_, l, n, s) b. book_rel (with_head l n s) b)
          (load_loop u False (nnode c) (count c) s2) (book_load_loop u False b2)"
          by (rule load_loop_refines) (use r(2) h in \<open>auto intro: book_relI\<close>)
        then show ?thesis
          using Some q 2 r fl
          by (auto simp: load_file_def with_head_def
              elim!: option.rel_cases split: if_splits)
      qed
    qed
    done
qed

lemma map_step_rel:
  "rel_option (rel_prod (=) R) x y \<Longrightarrow> rel_option (rel_prod (=) R) (map_option (\<lambda>(_, s). (t, s)) x) (map_option (\<lambda>(_, s). (t, s)) y)"
  by (auto elim!: option.rel_cases)

lemma main_step_refines:
  assumes "book_rel s b"
  shows "step_rel (main_step s) (book_step b)"
proof -
  obtain c xs vs where at: "book_at c xs vs s b" using assms by (auto simp: book_rel_def)
  obtain v s' v' b' where v: "read_int 0 s = (v, s')" "read_int 0 b = (v', b')" by fastforce
  note r = ba.read_int_rel [OF at v]
  have "step_rel (map_option (\<lambda>(_, s). (True, s)) (print_entry s')) (Some (True, book_print b'))"
    using map_step_rel [OF print_refines [OF r(2)], of True] by simp
  then show ?thesis
    using r(1) map_step_rel [OF insert_refines [OF r(2)], of True] map_step_rel [OF delete_refines [OF r(2)], of True]
      map_step_rel [OF search_refines [OF r(2)], of True] map_step_rel [OF save_refines [OF r(2)], of True]
      map_step_rel [OF load_refines [OF r(2)], of True] r(2)
    unfolding main_step_def book_step_def v prod.case
    by (auto intro: book_relI)
qed

section \<open>Sessions\<close>

fun book_loop :: "nat \<Rightarrow> book \<Rightarrow> (bool \<times> book) option" where
  "book_loop 0 b = Some (True, b)"
| "book_loop (Suc fuel) b = do {
     (go, b) \<leftarrow> book_step b;
     if go then book_loop fuel b else Some (False, b) }"

definition book_main :: "nat \<Rightarrow> book \<Rightarrow> (int \<times> bool \<times> book) option" where
  "book_main fuel b = (case syscall b of (ok, b) \<Rightarrow>
     if \<not> ok then Some (-1, False, b)
     else map_option (\<lambda>(more, b). (0, more, b)) (book_loop fuel b))"

definition start :: "string \<Rightarrow> bool list \<Rightarrow> (string \<Rightarrow> string option) \<Rightarrow> app" where
  "start i oks0 fs = \<lparr>input = i, oks = oks0, files = fs, out = [], mem = (\<lambda>_. None), brk = 1, cts = None\<rparr>"

definition book_start :: "string \<Rightarrow> bool list \<Rightarrow> (string \<Rightarrow> string option) \<Rightarrow> book" where
  "book_start i oks0 fs = \<lparr>input = i, oks = oks0, files = fs, out = [], people = [], total = 0\<rparr>"

lemma book_rel_env: "book_rel s b \<Longrightarrow> same_env s b"
  by (auto simp: book_rel_def book_at_def)

lemma same_env_cts [simp]: "same_env (s\<lparr>cts := c\<rparr>) b = same_env s b"
  by (simp add: same_env_def)

lemma main_loop_refines:
  "book_rel s b \<Longrightarrow> rel_option (\<lambda>(more, s) (more', b). more = more' \<and> same_env s b) (main_loop fuel s) (book_loop fuel b)"
proof (induction fuel arbitrary: s b)
  case 0
  then show ?case by (simp add: book_rel_env)
next
  case (Suc fuel)
  have "rel_option (\<lambda>(more, s) (more', b). more = more' \<and> same_env s b)
    (main_step s \<bind> (\<lambda>(go, s). if go then main_loop fuel s else Some (False, s\<lparr>cts := None\<rparr>)))
    (book_step b \<bind> (\<lambda>(go, b). if go then book_loop fuel b else Some (False, b)))"
    by (rule rel_option_bind [OF main_step_refines [OF Suc.prems]])
      (auto intro: Suc.IH simp: same_env_cts dest: book_rel_env)
  then show ?case by simp
qed

lemma contact_main_refines:
  "rel_option (\<lambda>(r, more, s) (r', more', b). r = r' \<and> more = more' \<and> same_env s b)
     (contact_main fuel (start i oks0 fs)) (book_main fuel (book_start i oks0 fs))"
proof -
  have "book_rel ((start i oks1 fs)\<lparr>cts := Some \<lparr>nnode = 0, count = 0\<rparr>\<rparr>) (book_start i oks1 fs)" for oks1
    by (auto simp: book_rel_def book_at_def start_def book_start_def same_env_def fresh_mem_def
        intro!: exI [of _ "[]"])
  note r = main_loop_refines [OF this, of fuel]
  have "syscall (start i oks0 fs) = (b, start i oks1 fs) \<and> syscall (book_start i oks0 fs) = (b, book_start i oks1 fs)"
    if "(b, oks1) = (case oks0 of [] \<Rightarrow> (True, []) | b # bs \<Rightarrow> (b, bs))" for b oks1
    using that by (auto simp: syscall_def start_def book_start_def split: list.splits)
  then obtain ok oks1 where s: "syscall (start i oks0 fs) = (ok, start i oks1 fs)"
    "syscall (book_start i oks0 fs) = (ok, book_start i oks1 fs)" by (metis surj_pair)
  show ?thesis
    using r [of oks1] unfolding contact_main_def book_main_def s
    by (auto elim!: option.rel_cases simp: start_def book_start_def same_env_def)
qed

lemma scan_d_less: "scan_d cs = (Some v, r) \<Longrightarrow> length r < length cs"
proof -
  assume s: "scan_d cs = (Some v, r)"
  let ?d = "dropWhile isspace cs"
  define ds where "ds = (if ?d \<noteq> [] \<and> hd ?d \<in> {CHR ''-'', CHR ''+''} then tl ?d else ?d)"
  have "ds \<noteq> []" "isdigit (hd ds)" "r = dropWhile isdigit ds"
    using s by (auto simp: scan_d_def Let_def ds_def split: if_splits)
  then have "length r < length ds" by (cases ds) (auto simp: less_Suc_eq_le length_dropWhile_le)
  moreover have "length ds \<le> length ?d" by (simp add: ds_def)
  moreover have "length ?d \<le> length cs" by (rule length_dropWhile_le)
  ultimately show ?thesis by simp
qed

lemma scan_s_le: "scan_s cs = (t, r) \<Longrightarrow> length r \<le> length cs"
  using length_dropWhile_le [of isspace cs] length_dropWhile_le [of "\<lambda>c. \<not> isspace c" "dropWhile isspace cs"]
  by (auto simp: scan_s_def Let_def split: if_splits)

lemma read_text_le: "read_text n b = Some (t, b') \<Longrightarrow> length (input b') \<le> length (input b)"
  by (auto simp: read_text_def read_word_def Option.bind_eq_Some_conv split: prod.splits option.splits dest: scan_s_le)

lemma syscall_input: "syscall b = (ok, b') \<Longrightarrow> input b' = input b"
  by (auto simp: syscall_def split: list.splits)

lemma book_alloc_input: "book_alloc b = (x, b') \<Longrightarrow> input b' = input b"
  by (auto simp: book_alloc_def split: prod.splits if_splits dest!: syscall_input)

lemma book_add_input [simp]: "input (book_add q b) = input b"
  by (simp add: book_add_def)

lemma print_out_input [simp]: "input (print_out e b) = input b"
  by (simp add: print_out_def)

lemma book_load_loop_input: "book_load_loop fp e b = Some b' \<Longrightarrow> input b' = input b"
proof (induction fp e b rule: book_load_loop.induct)
  case (1 fp feof b)
  show ?case
  proof (cases feof)
    case True
    then show ?thesis using "1.prems" by (simp add: book_load_loop.simps [of fp])
  next
    case False
    obtain a fp' e where g: "fgets (BUFFER_LENGTH - 1) fp = (a, fp', e)" by (cases "fgets (BUFFER_LENGTH - 1) fp") auto
    obtain r nm ph evs where l: "load_line a = Some (r, nm, ph, evs)"
      using "1.prems" False g by (cases "load_line a") (auto simp: book_load_loop.simps [of fp False])
    let ?b = "b\<lparr>out := out b @ evs\<rparr>"
    obtain y b1 where b1: "book_alloc ?b = (y, b1)" by fastforce
    then have i: "input b1 = input b" using book_alloc_input by fastforce
    show ?thesis
    proof (cases "r = 0")
      case True
      then have "book_load_loop fp' e ?b = Some b'"
        using "1.prems" False g l by (simp add: book_load_loop.simps [of fp False])
      then show ?thesis using "1.IH"(1) [OF False g [symmetric] refl l refl refl refl refl True] by simp
    next
      case r: False
      show ?thesis
      proof (cases y)
        case (Inl err)
        then show ?thesis using "1.prems" False g l r b1 i by (simp add: book_load_loop.simps [of fp False])
      next
        case (Inr u)
        then have "book_load_loop fp' e (book_add ([], []) b1) = Some b'"
          using "1.prems" False g l r b1 by (simp add: book_load_loop.simps [of fp False])
        then show ?thesis
          using "1.IH"(2) [OF False g [symmetric] refl l refl refl refl refl r b1 [symmetric] Inr] i by simp
      qed
    qed
  qed
qed

lemma book_entry_input:
  "book_insert b = Some (r, b') \<Longrightarrow> length (input b') \<le> length (input b)"
  "book_delete b = Some (r, b') \<Longrightarrow> length (input b') \<le> length (input b)"
  "book_search b = Some (r, b') \<Longrightarrow> length (input b') \<le> length (input b)"
  "book_save b = Some (r, b') \<Longrightarrow> length (input b') \<le> length (input b)"
  "book_load b = Some (r, b') \<Longrightarrow> length (input b') \<le> length (input b)"
proof -
  assume "book_insert b = Some (r, b')"
  then show "length (input b') \<le> length (input b)"
    by (auto simp: book_insert_def Option.bind_eq_Some_conv split: prod.split_asm sum.split_asm
        dest!: read_text_le book_alloc_input)
next
  assume "book_delete b = Some (r, b')"
  then show "length (input b') \<le> length (input b)"
    by (auto simp: book_delete_def Option.bind_eq_Some_conv split: if_split_asm dest!: read_text_le)
next
  assume "book_search b = Some (r, b')"
  then show "length (input b') \<le> length (input b)"
    by (auto simp: book_search_def Option.bind_eq_Some_conv split: option.split_asm dest!: read_text_le)
next
  assume l: "book_save b = Some (r, b')"
  then obtain f b1 where f: "read_text NAME_LENGTH b = Some (f, b1)"
    by (auto simp: book_save_def Option.bind_eq_Some_conv)
  obtain ok b2 where b2: "syscall b1 = (ok, b2)" by fastforce
  have "input b' = input b2" using l f b2 by (auto simp: book_save_def split: if_splits)
  then show "length (input b') \<le> length (input b)"
    using read_text_le [OF f] syscall_input [OF b2] by simp
next
  assume l: "book_load b = Some (r, b')"
  then obtain f b1 where f: "read_text NAME_LENGTH b = Some (f, b1)"
    by (auto simp: book_load_def Option.bind_eq_Some_conv)
  obtain ok b2 where b2: "syscall b1 = (ok, b2)" by fastforce
  have "input b' = input b2"
    using l f b2 by (auto simp: book_load_def split: if_splits option.splits dest: book_load_loop_input)
  then show "length (input b') \<le> length (input b)"
    using read_text_le [OF f] syscall_input [OF b2] by simp
qed

lemma book_step_less: "book_step b = Some (True, b') \<Longrightarrow> length (input b') < length (input b)"
proof -
  assume s: "book_step b = Some (True, b')"
  obtain v b1 where v: "read_int 0 b = (v, b1)" by fastforce
  have "v \<noteq> 0" using s v by (auto simp: book_step_def)
  then have less: "length (input b1) < length (input b)"
    using v by (auto simp: read_int_def split: prod.splits option.splits dest: scan_d_less)
  have "length (input b') \<le> length (input b1)"
    using s v by (auto simp: book_step_def book_print_def split: if_split_asm dest: book_entry_input)
  with less show ?thesis by simp
qed

lemma book_loop_ends: "length (input b) < fuel \<Longrightarrow> book_loop fuel b \<noteq> Some (True, b')"
proof (induction fuel arbitrary: b)
  case 0
  then show ?case by simp
next
  case (Suc fuel)
  show ?case
  proof (cases "book_step b")
    case None
    then show ?thesis by simp
  next
    case (Some z)
    then obtain go b1 where z: "book_step b = Some (go, b1)" by (cases z) auto
    then show ?thesis using book_step_less [of b b1] Suc by (cases go) auto
  qed
qed

section \<open>The line format\<close>

definition name_ok :: "string \<Rightarrow> bool" where
  "name_ok s \<longleftrightarrow> length s < NAME_LENGTH \<and> set s \<inter> {CHR '','', CHR '' '', NL, NUL} = {}"

definition phone_ok :: "string \<Rightarrow> bool" where
  "phone_ok s \<longleftrightarrow> length s < PHONE_LENGTH - 1 \<and> set s \<inter> {CHR '' '', NL, NUL} = {}"

lemma list_update_zeros: "xs @ c # zeros n = (xs @ zeros (Suc n))[length xs := c]"
  by (simp add: zeros_def list_update_append)

lemma name_loop_field:
  assumes "set s \<inter> {CHR '','', CHR '' ''} = {}"
  shows "name_loop (s @ CHR '','' # t) i 1 (length u) (u @ zeros (length s + k)) =
    Some (i + length s, u @ s @ zeros k)"
  using assms
proof (induction s arbitrary: i u)
  case Nil
  then show ?case by simp
next
  case (Cons c s)
  have "name_loop (s @ CHR '','' # t) (Suc i) 1 (length (u @ [c])) ((u @ [c]) @ zeros (length s + k)) =
      Some (Suc i + length s, (u @ [c]) @ s @ zeros k)"
    by (rule Cons.IH) (use Cons.prems in auto)
  moreover have "(u @ zeros (Suc (length s + k)))[length u := c] = u @ c # zeros (length s + k)"
    by (simp add: list_update_zeros)
  moreover have "c \<noteq> CHR '',''" "c \<noteq> CHR '' ''" using Cons.prems by auto
  ultimately show ?case by (simp add: zeros_def)
qed

lemma phone_loop_field:
  assumes "CHR '' '' \<notin> set s"
  shows "phone_loop s 1 (length u) (u @ zeros (length s + k)) = Some (u @ s @ zeros k)"
  using assms
proof (induction s arbitrary: u)
  case Nil
  then show ?case by simp
next
  case (Cons c s)
  have "phone_loop s 1 (length (u @ [c])) ((u @ [c]) @ zeros (length s + k)) = Some ((u @ [c]) @ s @ zeros k)"
    by (rule Cons.IH) (use Cons.prems in auto)
  moreover have "(u @ zeros (Suc (length s + k)))[length u := c] = u @ c # zeros (length s + k)"
    by (simp add: list_update_zeros)
  ultimately show ?case using Cons.prems by (simp add: zeros_def)
qed

lemma parse_line:
  assumes n: "name_ok nm" and p: "phone_ok ph"
  shows "paraser_token (Some (line_of nm ph @ zeros k)) (int (length (line_of nm ph))) (zeros NAME_LENGTH) (zeros PHONE_LENGTH) =
    Some (0, nm @ zeros (NAME_LENGTH - length nm), (ph @ [NL]) @ zeros (PHONE_LENGTH - length (ph @ [NL])),
      [Token_line (''file_token: '' @ line_of nm (ph @ [NL]))])"
proof -
  let ?n = "NAME_LENGTH - length nm" and ?p = "PHONE_LENGTH - length (ph @ [NL])"
  have z: "zeros NAME_LENGTH = zeros (length nm + ?n)" "zeros PHONE_LENGTH = zeros (length (ph @ [NL]) + ?p)"
    using n p by (simp_all add: name_ok_def phone_ok_def PHONE_LENGTH_def)
  have pos: "0 < ?n" "0 < ?p" using n p by (simp_all add: name_ok_def phone_ok_def PHONE_LENGTH_def)
  have "name_loop (nm @ CHR '','' # ''phone: '' @ ph @ NL # zeros k) 6 1 (length ([] :: string)) ([] @ zeros (length nm + ?n)) =
      Some (6 + length nm, [] @ nm @ zeros ?n)"
    by (rule name_loop_field) (use n in \<open>auto simp: name_ok_def\<close>)
  then have 1: "name_loop (line_of nm ph @ zeros k) 0 0 0 (zeros NAME_LENGTH) = Some (6 + length nm, nm @ zeros ?n)"
    unfolding z by (simp add: line_of_def eval_nat_numeral)
  have split: "line_of nm ph = (''name: '' @ nm) @ '',phone: '' @ ph @ [NL]" "6 + length nm = length (''name: '' @ nm)"
    by (simp_all add: line_of_def)
  have t: "take (length (line_of nm ph)) (line_of nm ph @ zeros k) = line_of nm ph" by simp
  have d: "drop (6 + length nm) (take (length (line_of nm ph)) (line_of nm ph @ zeros k)) = '',phone: '' @ ph @ [NL]"
    unfolding t unfolding split by (rule append_eq_conv_conj [THEN iffD1, THEN conjunct2, symmetric, OF refl])
  have "phone_loop (ph @ [NL]) 1 (length ([] :: string)) ([] @ zeros (length (ph @ [NL]) + ?p)) =
      Some ([] @ (ph @ [NL]) @ zeros ?p)"
    by (rule phone_loop_field) (use p in \<open>auto simp: phone_ok_def\<close>)
  then have 2: "phone_loop ('',phone: '' @ ph @ [NL]) 0 0 (zeros PHONE_LENGTH) = Some ((ph @ [NL]) @ zeros ?p)"
    unfolding z by simp
  have 3: "cstr (nm @ zeros ?n) = Some nm"
    using pos(1) n by (cases ?n) (auto simp: zeros_def cstr_pad name_ok_def)
  have "cstr ((ph @ [NL]) @ zeros ?p) = Some (ph @ [NL])"
    using pos(2) p by (cases ?p) (auto simp del: append_assoc simp: zeros_def cstr_pad phone_ok_def)
  moreover have "\<not> int (length (line_of nm ph)) < int MIN_LENGTH" by (simp add: line_of_def MIN_LENGTH_def)
  ultimately show ?thesis using 1 2 3 d by (simp add: paraser_token_def)
qed

lemma load_line_record:
  assumes n: "name_ok nm" and p: "phone_ok ph"
  shows "load_line (line_of nm ph) = Some (0, nm @ zeros (NAME_LENGTH - length nm),
    (ph @ [NL]) @ zeros (PHONE_LENGTH - length (ph @ [NL])), [Token_line (''file_token: '' @ line_of nm (ph @ [NL]))])"
proof -
  have len: "length (line_of nm ph) < BUFFER_LENGTH"
    using assms by (simp add: name_ok_def phone_ok_def line_of_def BUFFER_LENGTH_def NAME_LENGTH_def PHONE_LENGTH_def)
  have "NUL \<notin> set (line_of nm ph)" using assms by (auto simp: line_of_def name_ok_def phone_ok_def)
  then have "cstr (line_of nm ph @ zeros (BUFFER_LENGTH - length (line_of nm ph))) = Some (line_of nm ph)"
    using len by (cases "BUFFER_LENGTH - length (line_of nm ph)") (auto simp: zeros_def cstr_pad)
  then show ?thesis
    unfolding load_line_def Let_def by (simp add: parse_line [OF assms])
qed

lemma load_line_empty: "load_line [] = Some (-2, zeros NAME_LENGTH, zeros PHONE_LENGTH, [])"
  by (simp add: load_line_def paraser_token_def BUFFER_LENGTH_def MIN_LENGTH_def)

text \<open>Loading a saved book parses every line, keeps none of the records, and adds a blank one at
  the end of the file.\<close>

definition token_events :: "(string \<times> string) list \<Rightarrow> event list" where
  "token_events ps = map (\<lambda>(n, q). Token_line (''file_token: '' @ line_of n (q @ [NL]))) ps"

lemma book_load_saved:
  assumes "\<forall>(n, q) \<in> set ps. name_ok n \<and> phone_ok q"
  shows "book_load_loop (book_text ps) False b =
    (case book_alloc (b\<lparr>out := out b @ token_events ps\<rparr>) of
       (Inl e, b) \<Rightarrow> Some b | (Inr _, b) \<Rightarrow> Some (book_add ([], []) b))"
  using assms
proof (induction ps arbitrary: b)
  case Nil
  then show ?case
    by (simp add: book_load_loop.simps [of "[]" False] book_load_loop.simps [of "[]" True] book_text_def
        token_events_def load_line_empty BUFFER_LENGTH_def numeral_eq_Suc split: prod.splits sum.splits)
next
  case (Cons p ps)
  obtain n q where p: "p = (n, q)" by (cases p)
  have ok: "name_ok n" "phone_ok q" using Cons.prems p by auto
  let ?l = "''name: '' @ n @ '',phone: '' @ q"
  have "length ?l < BUFFER_LENGTH - 1" "NL \<notin> set ?l"
    using ok by (auto simp: name_ok_def phone_ok_def BUFFER_LENGTH_def NAME_LENGTH_def PHONE_LENGTH_def)
  then have "fgets (BUFFER_LENGTH - 1) (?l @ NL # book_text ps) = (?l @ [NL], book_text ps, False)"
    by (intro fgets_line) auto
  then have g: "fgets (BUFFER_LENGTH - 1) (book_text (p # ps)) = (line_of n q, book_text ps, False)"
    by (simp add: book_text_def line_of_def p)
  have "book_load_loop (book_text (p # ps)) False b = book_load_loop (book_text ps) False
      (b\<lparr>out := out b @ [Token_line (''file_token: '' @ line_of n (q @ [NL]))]\<rparr>)"
    unfolding book_load_loop.simps [of "book_text (p # ps)"] g by (simp add: load_line_record [OF ok])
  then show ?case using Cons by (simp add: token_events_def p)
qed


section \<open>Properties\<close>

text \<open>C19: The address book program behaves like the abstract book: on every standard input, every
  outcome of the allocations and file opens and every set of files, \<open>main\<close> run with any fuel
  returns, prints and writes exactly what the list of name and phone strings says, and is undefined
  exactly when the abstract book is (a word that does not fit its array, a file line without a comma).\<close>

theorem contact_refines:
  "map_option (\<lambda>(r, more, s). (r, more, out s, files s)) (contact_main fuel (start i oks0 fs)) =
   map_option (\<lambda>(r, more, b). (r, more, out b, files b)) (book_main fuel (book_start i oks0 fs))"
  using contact_main_refines [of fuel i oks0 fs] by (auto elim!: option.rel_cases simp: same_env_def)

text \<open>\<open>main\<close> of the address book ends on every input: each round of the menu reads at least one
  character, so fuel beyond the length of the input never runs out.\<close>

theorem contact_terminates:
  "contact_main (Suc (length i)) (start i oks0 fs) \<noteq> Some (r, True, s)"
proof
  assume "contact_main (Suc (length i)) (start i oks0 fs) = Some (r, True, s)"
  then obtain b where "book_main (Suc (length i)) (book_start i oks0 fs) = Some (r, True, b)"
    using contact_main_refines [of "Suc (length i)" i oks0 fs] by (auto elim!: option.rel_cases)
  moreover have "syscall (book_start i oks0 fs) = (ok, b) \<Longrightarrow> length (input b) < Suc (length i)" for ok b
    using syscall_input [of "book_start i oks0 fs" ok b] by (simp add: book_start_def)
  ultimately show False
    using book_loop_ends by (auto simp del: book_loop.simps simp: book_main_def split: prod.splits if_splits)
qed

text \<open>A line of the file is read back to the name that was written and the phone with the line's
  newline still at its end (\<open>fgets\<close> keeps it and the second loop of \<open>paraser_token\<close> copies it), for a
  name without comma or space and a phone with a byte to spare.\<close>

theorem line_roundtrip:
  assumes "name_ok nm" and "phone_ok ph"
  shows "\<exists>a b evs. paraser_token (Some (line_of nm ph @ zeros k)) (int (length (line_of nm ph)))
      (zeros NAME_LENGTH) (zeros PHONE_LENGTH) = Some (0, a, b, evs) \<and>
    cstr a = Some nm \<and> cstr b = Some (ph @ [NL]) \<and> length a = NAME_LENGTH \<and> length b = PHONE_LENGTH"
proof -
  have "load_line (line_of nm ph) = Some (0, nm @ zeros (NAME_LENGTH - length nm),
    (ph @ [NL]) @ zeros (PHONE_LENGTH - length (ph @ [NL])), [Token_line (''file_token: '' @ line_of nm (ph @ [NL]))])"
    by (rule load_line_record [OF assms])
  then have "view \<lparr>p_name = nm @ zeros (NAME_LENGTH - length nm),
      p_phone = (ph @ [NL]) @ zeros (PHONE_LENGTH - length (ph @ [NL]))\<rparr> = Some (nm, ph @ [NL])"
    using assms by (auto simp: name_ok_def phone_ok_def view_def cstr_def zeros_def takeWhile_append
        PHONE_LENGTH_def NAME_LENGTH_def takeWhile_eq_all_conv [THEN iffD2])
  then show ?thesis
    unfolding parse_line [OF assms]
    using assms by (auto simp: view_def Option.bind_eq_Some_conv name_ok_def phone_ok_def PHONE_LENGTH_def)
qed

theorem line_roundtrip_witness:
  "\<exists>a b evs. paraser_token (Some (line_of ''Ann'' ''12'' @ zeros 108)) 20 (zeros NAME_LENGTH) (zeros PHONE_LENGTH) =
      Some (0, a, b, evs) \<and> cstr a = Some ''Ann'' \<and> cstr b = Some (''12'' @ [NL]) \<and>
    length a = NAME_LENGTH \<and> length b = PHONE_LENGTH"
  using line_roundtrip [of "''Ann''" "''12''" 108]
  by (simp add: name_ok_def phone_ok_def NAME_LENGTH_def PHONE_LENGTH_def line_of_def)

text \<open>Loading a file that \<open>save_file\<close> wrote restores none of the records: every line is parsed and
  printed, but the test on \<open>paraser_token\<close> is inverted, so the parsed records are skipped and only
  the empty read at the end of the file is stored, as one blank record.\<close>

theorem load_keeps_only_a_blank:
  assumes "book_rel (with_head l n s) b" and "oks s = []"
    and "\<forall>(nm, q) \<in> set ps. name_ok nm \<and> phone_ok q"
  shows "\<exists>r l' s'. load_loop (book_text ps) False l n s = Some (r, l', n + 1, s') \<and>
    book_rel (with_head l' (n + 1) s') (book_add ([], []) (b\<lparr>out := out b @ token_events ps\<rparr>))"
proof -
  have "oks b = []" using assms(1,2) by (auto simp: book_rel_def book_at_def same_env_def with_head_def)
  then have "book_load_loop (book_text ps) False b = Some (book_add ([], []) (b\<lparr>out := out b @ token_events ps\<rparr>))"
    using book_load_saved [OF assms(3), of b] by (simp add: book_alloc_def syscall_def)
  moreover have "rel_option (\<lambda>(_, l, n, s) b. book_rel (with_head l n s) b)
      (load_loop (book_text ps) False l n s) (book_load_loop (book_text ps) False b)"
    by (rule load_loop_refines [OF assms(1)])
  ultimately obtain r l' n' s' where s': "load_loop (book_text ps) False l n s = Some (r, l', n', s')"
    "book_rel (with_head l' n' s') (book_add ([], []) (b\<lparr>out := out b @ token_events ps\<rparr>))"
    by (auto elim!: option.rel_cases)
  then have "n' = total b + 1" by (auto simp: book_rel_def book_at_def book_add_def with_head_def)
  moreover have "n = total b" using assms(1) by (auto simp: book_rel_def book_at_def with_head_def)
  ultimately show ?thesis using s' by auto
qed

lemma start_rel: "book_rel (with_head 0 0 (start i oks0 fs)) (book_start i oks0 fs)"
  by (auto simp: book_rel_def book_at_def start_def book_start_def same_env_def fresh_mem_def with_head_def
      intro!: exI [of _ "[]"])

theorem load_keeps_only_a_blank_witness:
  "\<exists>r l' s'. load_loop (book_text [(''Ann'', ''12'')]) False 0 0 (start [] [] Map.empty) = Some (r, l', 1, s') \<and>
    people (book_add ([], []) ((book_start [] [] Map.empty)\<lparr>out := [] @ token_events [(''Ann'', ''12'')]\<rparr>)) = [([], [])] \<and>
    book_rel (with_head l' 1 s') (book_add ([], []) ((book_start [] [] Map.empty)\<lparr>out := token_events [(''Ann'', ''12'')]\<rparr>))"
  using load_keeps_only_a_blank [OF start_rel, of "[]" "[]" Map.empty "[(''Ann'', ''12'')]"]
  by (simp add: name_ok_def phone_ok_def NAME_LENGTH_def PHONE_LENGTH_def start_def book_start_def book_add_def)

end
