(* ===== verification/Alpha_Contact.thy ===== *)
theory Alpha_Contact
  imports Contact_Refine
begin

text \<open>
  The address book of \<open>26Alpha_contact.c\<close>, with one list per first letter.  The list macros, the
  node type, the reading of words and the walk that writes a bucket to a file are those of
  \<open>contact.c\<close>, repeated there word for word, so they are used from \<open>Contact\<close>.  The abstract book is
  one list of records; bucket \<open>i\<close> holds the records whose name starts with letter \<open>i\<close>.
\<close>

section \<open>The program\<close>

definition ALPHA_COUNT :: nat where "ALPHA_COUNT = 26"

record alpha_contact =
  heads :: "nat list"
  a_count :: int

record alpha_app = store +
  acts :: "alpha_contact option"

definition get_index_by_name :: "string option \<Rightarrow> int" where
  "get_index_by_name nm = (case nm of
      None \<Rightarrow> -1
    | Some [] \<Rightarrow> -1
    | Some (ch # _) \<Rightarrow>
        (let c = int (of_char ch) in
         if 65 \<le> c \<and> c \<le> 90 then c - 65
         else if 97 \<le> c \<and> c \<le> 122 then c - 97
         else -1))"

definition alpha_person_insert :: "nat \<Rightarrow> nat \<Rightarrow> 'p heap \<Rightarrow> (int \<times> 'p heap \<times> nat) option" where
  "alpha_person_insert ppeople ps h =
     (if ps = 0 then Some (-1, h, ppeople)
      else do { (h, l) \<leftarrow> LIST_INSERT ps ppeople h; Some (0, h, l) })"

definition alpha_person_delete :: "nat \<Rightarrow> nat \<Rightarrow> 'p heap \<Rightarrow> (int \<times> 'p heap \<times> nat) option" where
  "alpha_person_delete ppeople ps h =
     (if ps = 0 \<or> ppeople = 0 then Some (-1, h, ppeople)
      else do { (h, l) \<leftarrow> LIST_REMOVE ps ppeople h; Some (0, h, l) })"

partial_function (option) alpha_person_search :: "person heap \<Rightarrow> nat \<Rightarrow> string \<Rightarrow> nat option" where
  "alpha_person_search h item nm =
     (if item = 0 then Some 0
      else do {
        n \<leftarrow> h item;
        s \<leftarrow> cstr (p_name (n_data n));
        if s = nm then Some item else alpha_person_search h (n_next n) nm })"

text \<open>The screen has a space after the comma, the file has none.\<close>

definition alpha_line :: "string \<Rightarrow> string \<Rightarrow> string" where
  "alpha_line nm ph = ''name: '' @ nm @ '', phone: '' @ ph @ [NL]"

partial_function (option) alpha_person_traversal :: "person heap \<Rightarrow> nat \<Rightarrow> event list \<Rightarrow> event list option" where
  "alpha_person_traversal h item evs =
     (if item = 0 then Some evs
      else do {
        n \<leftarrow> h item;
        nm \<leftarrow> cstr (p_name (n_data n));
        ph \<leftarrow> cstr (p_phone (n_data n));
        alpha_person_traversal h (n_next n) (evs @ [Line (alpha_line nm ph)]) })"

text \<open>The character is read before the index is compared with the length.\<close>

fun alpha_name_loop :: "string \<Rightarrow> nat \<Rightarrow> nat \<Rightarrow> nat \<Rightarrow> nat \<Rightarrow> string \<Rightarrow> (nat \<times> string) option" where
  "alpha_name_loop [] len i status j nm = None"
| "alpha_name_loop (c # cs) len i status j nm =
     (if \<not> (c \<noteq> CHR '','' \<and> i < len) then Some (i, nm)
      else if CHR '' '' = c then alpha_name_loop cs len (Suc i) 1 j nm
      else if 1 = status then
        (if j < length nm then alpha_name_loop cs len (Suc i) status (Suc j) (nm[j := c]) else None)
      else alpha_name_loop cs len (Suc i) status j nm)"

definition alpha_paraser_token ::
  "string option \<Rightarrow> int \<Rightarrow> string \<Rightarrow> string \<Rightarrow> (int \<times> string \<times> string \<times> event list) option" where
  "alpha_paraser_token buffer len nm ph = (case buffer of
      None \<Rightarrow> Some (-1, nm, ph, [])
    | Some buf \<Rightarrow>
        if len < int MIN_LENGTH then Some (-1, nm, ph, [])
        else if nat len > length buf then None
        else do {
          (i, nm) \<leftarrow> alpha_name_loop buf (nat len) 0 0 0 nm;
          ph \<leftarrow> phone_loop (drop i (take (nat len) buf)) 0 0 ph;
          a \<leftarrow> cstr nm;
          b \<leftarrow> cstr ph;
          Some (0, nm, ph, [Token_line (alpha_line a b)]) })"

definition alpha_insert_entry :: "alpha_app \<Rightarrow> (int \<times> alpha_app) option" where
  "alpha_insert_entry s = (case acts s of
      None \<Rightarrow> Some (-1, s)
    | Some c \<Rightarrow> (case new_node s of
        (Inl e, s) \<Rightarrow> Some (e, s)
      | (Inr p, s) \<Rightarrow> do {
          (nm, s) \<leftarrow> read_word (zeros NAME_LENGTH) s;
          (ph, s) \<leftarrow> read_word (zeros PHONE_LENGTH) s;
          h \<leftarrow> set_data p \<lparr>p_name = nm, p_phone = ph\<rparr> (mem s);
          a \<leftarrow> cstr nm;
          let index = get_index_by_name (Some a);
          if index = -1 then Some (-4, free_node p (print_out Illegal_name (s\<lparr>mem := h\<rparr>)))
          else do {
            (_, h, l) \<leftarrow> alpha_person_insert (heads c ! nat index) p h;
            Some (0, print_out Inserted
              (s\<lparr>mem := h, acts := Some (c\<lparr>heads := (heads c)[nat index := l], a_count := a_count c + 1\<rparr>)\<rparr>)) } }))"

fun alpha_print_heads :: "person heap \<Rightarrow> nat \<Rightarrow> nat list \<Rightarrow> event list \<Rightarrow> event list option" where
  "alpha_print_heads h i [] evs = Some evs"
| "alpha_print_heads h i (p # ps) evs =
     (if p \<noteq> 0 then do {
        evs \<leftarrow> alpha_person_traversal h p (evs @ [Letter (65 + i)]);
        alpha_print_heads h (Suc i) ps evs }
      else alpha_print_heads h (Suc i) ps evs)"

definition alpha_print_entry :: "alpha_app \<Rightarrow> (int \<times> alpha_app) option" where
  "alpha_print_entry s = (case acts s of
      None \<Rightarrow> Some (-1, s)
    | Some c \<Rightarrow> do {
        evs \<leftarrow> alpha_print_heads (mem s) 0 (take ALPHA_COUNT (heads c)) (out s);
        Some (0, s\<lparr>out := evs\<rparr>) })"

definition alpha_delete_entry :: "alpha_app \<Rightarrow> (int \<times> alpha_app) option" where
  "alpha_delete_entry s = (case acts s of
      None \<Rightarrow> Some (-1, s)
    | Some c \<Rightarrow> do {
        (a, s) \<leftarrow> read_word (zeros NAME_LENGTH) s;
        nm \<leftarrow> cstr a;
        let index = get_index_by_name (Some nm);
        if index = -1 then Some (-2, print_out Illegal_name s)
        else do {
          person \<leftarrow> alpha_person_search (mem s) (heads c ! nat index) nm;
          if person = 0 then Some (-3, print_out Not_found s)
          else do {
            (_, h, l) \<leftarrow> alpha_person_delete (heads c ! nat index) person (mem s);
            Some (0, free_node person
              (s\<lparr>mem := h, acts := Some (c\<lparr>heads := (heads c)[nat index := l]\<rparr>)\<rparr>)) } } })"

definition alpha_search_entry :: "alpha_app \<Rightarrow> (int \<times> alpha_app) option" where
  "alpha_search_entry s = (case acts s of
      None \<Rightarrow> Some (-1, s)
    | Some c \<Rightarrow> do {
        (a, s) \<leftarrow> read_word (zeros NAME_LENGTH) s;
        nm \<leftarrow> cstr a;
        let index = get_index_by_name (Some nm);
        if index = -1 then Some (-2, print_out Illegal_name s)
        else do {
          person \<leftarrow> alpha_person_search (mem s) (heads c ! nat index) nm;
          if person = 0 then Some (-3, print_out Not_found s)
          else do {
            n \<leftarrow> mem s person;
            x \<leftarrow> cstr (p_name (n_data n));
            y \<leftarrow> cstr (p_phone (n_data n));
            Some (0, print_out (Line (alpha_line x y)) s) } } })"

fun alpha_save_heads :: "person heap \<Rightarrow> nat list \<Rightarrow> string \<Rightarrow> string option" where
  "alpha_save_heads h [] t = Some t"
| "alpha_save_heads h (p # ps) t = do { t \<leftarrow> save_lines h p t; alpha_save_heads h ps t }"

definition alpha_save_entry :: "alpha_app \<Rightarrow> (int \<times> alpha_app) option" where
  "alpha_save_entry s = (case acts s of
      None \<Rightarrow> Some (-1, s)
    | Some c \<Rightarrow> do {
        (a, s) \<leftarrow> read_word (zeros NAME_LENGTH) s;
        filename \<leftarrow> cstr a;
        case syscall s of (fp, s) \<Rightarrow>
          if \<not> fp then Some (-2, s)
          else do {
            t \<leftarrow> alpha_save_heads (mem s) (take ALPHA_COUNT (heads c)) [];
            Some (0, s\<lparr>files := (files s)(filename \<mapsto> t)\<rparr>) } })"

definition alpha_load_line :: "string \<Rightarrow> (int \<times> string \<times> string \<times> event list) option" where
  "alpha_load_line a = do {
     let buffer = a @ zeros (BUFFER_LENGTH - length a);
     str \<leftarrow> cstr buffer;
     alpha_paraser_token (Some buffer) (int (length str)) (zeros NAME_LENGTH) (zeros PHONE_LENGTH) }"

function alpha_load_loop :: "string \<Rightarrow> bool \<Rightarrow> alpha_contact \<Rightarrow> alpha_app \<Rightarrow> (int \<times> alpha_contact \<times> alpha_app) option" where
  "alpha_load_loop fp feof c s =
     (if feof then Some (0, c, s)
      else case fgets (BUFFER_LENGTH - 1) fp of (a, fp, feof) \<Rightarrow>
        do {
          (r, nm, ph, evs) \<leftarrow> alpha_load_line a;
          let s = s\<lparr>out := out s @ evs\<rparr>;
          if r \<noteq> 0 then alpha_load_loop fp feof c s
          else do {
            x \<leftarrow> cstr nm;
            let index = get_index_by_name (Some x);
            if index = -1 then alpha_load_loop fp feof c s
            else case new_node s of
              (Inl e, s) \<Rightarrow> Some (e - 1, c, s)
            | (Inr p, s) \<Rightarrow>
                do {
                  h \<leftarrow> set_data p \<lparr>p_name = nm, p_phone = ph\<rparr> (mem s);
                  (_, h, l) \<leftarrow> alpha_person_insert (heads c ! nat index) p h;
                  alpha_load_loop fp feof (c\<lparr>heads := (heads c)[nat index := l], a_count := a_count c + 1\<rparr>)
                    (s\<lparr>mem := h\<rparr>) } } })"
  by pat_completeness auto
termination
  apply (relation "measure (\<lambda>(fp, feof, _). 2 * length fp + (if feof then 0 else 1))")
  apply (auto simp: BUFFER_LENGTH_def split: if_splits dest: fgets_rest)
  apply (drule fgets_progress; simp)+
  done

declare alpha_load_loop.simps [simp del]

definition alpha_load_entry :: "alpha_app \<Rightarrow> (int \<times> alpha_app) option" where
  "alpha_load_entry s = (case acts s of
      None \<Rightarrow> Some (-1, s)
    | Some c \<Rightarrow> do {
        (a, s) \<leftarrow> read_word (zeros NAME_LENGTH) s;
        filename \<leftarrow> cstr a;
        case syscall s of (ok, s) \<Rightarrow>
          (case (if ok then files s filename else None) of
             None \<Rightarrow> Some (-2, s)
           | Some t \<Rightarrow> do {
               (r, c, s) \<leftarrow> alpha_load_loop t False c s;
               Some (r, s\<lparr>acts := Some c\<rparr>) }) })"

definition alpha_step :: "alpha_app \<Rightarrow> (bool \<times> alpha_app) option" where
  "alpha_step s = (case read_int 0 s of (select, s) \<Rightarrow>
     if select = 1 then map_option (\<lambda>(_, s). (True, s)) (alpha_insert_entry s)
     else if select = 2 then map_option (\<lambda>(_, s). (True, s)) (alpha_print_entry s)
     else if select = 3 then map_option (\<lambda>(_, s). (True, s)) (alpha_delete_entry s)
     else if select = 4 then map_option (\<lambda>(_, s). (True, s)) (alpha_search_entry s)
     else if select = 5 then map_option (\<lambda>(_, s). (True, s)) (alpha_save_entry s)
     else if select = 6 then map_option (\<lambda>(_, s). (True, s)) (alpha_load_entry s)
     else Some (False, s))"

fun alpha_loop :: "nat \<Rightarrow> alpha_app \<Rightarrow> (bool \<times> alpha_app) option" where
  "alpha_loop 0 s = Some (True, s)"
| "alpha_loop (Suc fuel) s = do {
     (go, s) \<leftarrow> alpha_step s;
     if go then alpha_loop fuel s else Some (False, s\<lparr>acts := None\<rparr>) }"

definition alpha_main :: "nat \<Rightarrow> alpha_app \<Rightarrow> (int \<times> bool \<times> alpha_app) option" where
  "alpha_main fuel s = (case syscall s of (ok, s) \<Rightarrow>
     if \<not> ok then Some (-1, False, s)
     else map_option (\<lambda>(more, s). (0, more, s))
       (alpha_loop fuel (s\<lparr>acts := Some \<lparr>heads = replicate ALPHA_COUNT 0, a_count = 0\<rparr>\<rparr>)))"

end
