(* ===== verification/Alpha_Refine.thy ===== *)
theory Alpha_Refine
  imports Alpha_Contact
begin

text \<open>
  Refinement of the abstract book by \<open>26Alpha_contact.c\<close>: the abstract state is again one list of
  records, and the 26 buckets of the program are its restrictions to the first letters.
\<close>

section \<open>The abstract operations\<close>

abbreviation letter :: "string \<Rightarrow> int" where
  "letter nm \<equiv> get_index_by_name (Some nm)"

definition bucket :: "nat \<Rightarrow> (string \<times> string) list \<Rightarrow> (string \<times> string) list" where
  "bucket i ps = filter (\<lambda>(n, _). letter n = int i) ps"

definition abook_insert :: "book \<Rightarrow> (int \<times> book) option" where
  "abook_insert b = (case book_alloc b of
      (Inl e, b) \<Rightarrow> Some (e, b)
    | (Inr _, b) \<Rightarrow> do {
        (nm, b) \<leftarrow> read_text NAME_LENGTH b;
        (ph, b) \<leftarrow> read_text PHONE_LENGTH b;
        if letter nm = -1 then Some (-4, print_out Illegal_name b)
        else Some (0, print_out Inserted (book_add (nm, ph) b)) })"

definition abook_print :: "book \<Rightarrow> book" where
  "abook_print b = b\<lparr>out := out b @ concat (map (\<lambda>i. if bucket i (people b) = [] then []
      else Letter (65 + i) # map (\<lambda>(n, q). Line (alpha_line n q)) (bucket i (people b))) [0..<26])\<rparr>"

definition abook_delete :: "book \<Rightarrow> (int \<times> book) option" where
  "abook_delete b = do {
     (nm, b) \<leftarrow> read_text NAME_LENGTH b;
     if letter nm = -1 then Some (-2, print_out Illegal_name b)
     else if nm \<notin> fst ` set (people b) then Some (-3, print_out Not_found b)
     else Some (0, b\<lparr>people := drop_first nm (people b)\<rparr>) }"

definition abook_search :: "book \<Rightarrow> (int \<times> book) option" where
  "abook_search b = do {
     (nm, b) \<leftarrow> read_text NAME_LENGTH b;
     if letter nm = -1 then Some (-2, print_out Illegal_name b)
     else case find (\<lambda>(n, _). n = nm) (people b) of
       None \<Rightarrow> Some (-3, print_out Not_found b)
     | Some (n, q) \<Rightarrow> Some (0, print_out (Line (alpha_line n q)) b) }"

definition abook_text :: "(string \<times> string) list \<Rightarrow> string" where
  "abook_text ps = concat (map (\<lambda>i. book_text (bucket i ps)) [0..<26])"

definition abook_save :: "book \<Rightarrow> (int \<times> book) option" where
  "abook_save b = do {
     (f, b) \<leftarrow> read_text NAME_LENGTH b;
     case syscall b of (ok, b) \<Rightarrow>
       Some (if ok then (0, b\<lparr>files := (files b)(f \<mapsto> abook_text (people b))\<rparr>) else (-2, b)) }"

function abook_load_loop :: "string \<Rightarrow> bool \<Rightarrow> book \<Rightarrow> (int \<times> book) option" where
  "abook_load_loop fp feof b =
     (if feof then Some (0, b)
      else case fgets (BUFFER_LENGTH - 1) fp of (a, fp, feof) \<Rightarrow>
        do {
          (r, nm, ph, evs) \<leftarrow> alpha_load_line a;
          let b = b\<lparr>out := out b @ evs\<rparr>;
          if r \<noteq> 0 then abook_load_loop fp feof b
          else do {
            x \<leftarrow> cstr nm;
            y \<leftarrow> cstr ph;
            if letter x = -1 then abook_load_loop fp feof b
            else case book_alloc b of
              (Inl e, b) \<Rightarrow> Some (e - 1, b)
            | (Inr _, b) \<Rightarrow> abook_load_loop fp feof (book_add (x, y) b) } })"
  by pat_completeness auto
termination
  apply (relation "measure (\<lambda>(fp, feof, _). 2 * length fp + (if feof then 0 else 1))")
  apply (auto simp: BUFFER_LENGTH_def split: if_splits dest: fgets_rest)
  apply (drule fgets_progress; simp)+
  done

declare abook_load_loop.simps [simp del]

definition abook_load :: "book \<Rightarrow> (int \<times> book) option" where
  "abook_load b = do {
     (f, b) \<leftarrow> read_text NAME_LENGTH b;
     case syscall b of (ok, b) \<Rightarrow>
       (case (if ok then files b f else None) of
          None \<Rightarrow> Some (-2, b)
        | Some t \<Rightarrow> abook_load_loop t False b) }"

definition abook_step :: "book \<Rightarrow> (bool \<times> book) option" where
  "abook_step b = (case read_int 0 b of (select, b) \<Rightarrow>
     if select = 1 then map_option (\<lambda>(_, b). (True, b)) (abook_insert b)
     else if select = 2 then Some (True, abook_print b)
     else if select = 3 then map_option (\<lambda>(_, b). (True, b)) (abook_delete b)
     else if select = 4 then map_option (\<lambda>(_, b). (True, b)) (abook_search b)
     else if select = 5 then map_option (\<lambda>(_, b). (True, b)) (abook_save b)
     else if select = 6 then map_option (\<lambda>(_, b). (True, b)) (abook_load b)
     else Some (False, b))"

fun abook_loop :: "nat \<Rightarrow> book \<Rightarrow> (bool \<times> book) option" where
  "abook_loop 0 b = Some (True, b)"
| "abook_loop (Suc fuel) b = do {
     (go, b) \<leftarrow> abook_step b;
     if go then abook_loop fuel b else Some (False, b) }"

definition abook_main :: "nat \<Rightarrow> book \<Rightarrow> (int \<times> bool \<times> book) option" where
  "abook_main fuel b = (case syscall b of (ok, b) \<Rightarrow>
     if \<not> ok then Some (-1, False, b)
     else map_option (\<lambda>(more, b). (0, more, b)) (abook_loop fuel b))"

section \<open>The buckets\<close>

lemma letter_range: "letter nm \<noteq> -1 \<Longrightarrow> \<exists>k<26. letter nm = int k"
  by (auto simp: get_index_by_name_def Let_def split: list.splits if_splits
      intro!: exI [of _ "nat (letter nm)"])

lemma bucket_Cons [simp]:
  "bucket i ((n, q) # ps) = (if letter n = int i then (n, q) # bucket i ps else bucket i ps)"
  by (simp add: bucket_def)

lemma bucket_Nil [simp]: "bucket i [] = []"
  by (simp add: bucket_def)

lemma bucket_find: "letter nm = int i \<Longrightarrow> find (\<lambda>(n, _). n = nm) (bucket i ps) = find (\<lambda>(n, _). n = nm) ps"
  by (induction ps) auto

lemma bucket_mem: "letter nm = int i \<Longrightarrow> nm \<in> fst ` set (bucket i ps) \<longleftrightarrow> nm \<in> fst ` set ps"
  by (force simp: bucket_def)

lemma bucket_drop_first:
  "bucket i (drop_first nm ps) = (if letter nm = int i then drop_first nm (bucket i ps) else bucket i ps)"
  by (induction ps) auto

definition buckets :: "person heap \<Rightarrow> nat list \<Rightarrow> (nat \<Rightarrow> nat list) \<Rightarrow> (nat \<Rightarrow> person list) \<Rightarrow> (string \<times> string) list \<Rightarrow> bool" where
  "buckets h hs X V ps \<longleftrightarrow> length hs = 26 \<and>
     (\<forall>i<26. dl.holds h (hs ! i) (X i) (V i) \<and> map view (V i) = map Some (bucket i ps)) \<and>
     (\<forall>i<26. \<forall>j<26. i \<noteq> j \<longrightarrow> set (X i) \<inter> set (X j) = {})"

definition alpha_at :: "alpha_contact \<Rightarrow> (nat \<Rightarrow> nat list) \<Rightarrow> (nat \<Rightarrow> person list) \<Rightarrow> alpha_app \<Rightarrow> book \<Rightarrow> bool" where
  "alpha_at c X V s b \<longleftrightarrow> same_env s b \<and> fresh_mem (mem s) (brk s) \<and> acts s = Some c \<and> a_count c = total b \<and>
     buckets (mem s) (heads c) X V (people b)"

definition alpha_rel :: "alpha_app \<Rightarrow> book \<Rightarrow> bool" where
  "alpha_rel s b \<longleftrightarrow> (\<exists>c X V. alpha_at c X V s b)"

lemma alpha_relI: "alpha_at c X V s b \<Longrightarrow> alpha_rel s b"
  by (auto simp: alpha_rel_def)

lemma alpha_more: "store.more s' = store.more s \<Longrightarrow> acts s' = acts s"
  by (cases s; cases s') simp

lemma buckets_alloc: "buckets h hs X V ps \<Longrightarrow> h a = None \<Longrightarrow> buckets (h(a := v)) hs X V ps"
  by (auto simp: buckets_def intro: holds_alloc)

interpretation aa: store_refine "alpha_at c X V" for c X V
proof
  fix s b
  assume r: "alpha_at c X V s b"
  then show "same_env s b" "fresh_mem (mem s) (brk s)" by (auto simp: alpha_at_def)
  show "alpha_at c X V s' b'" if "same_env s' b'" "mem s' = mem s" "brk s' = brk s" "store.more s' = store.more s"
    "people b' = people b" "total b' = total b" for s' b'
    using r that by (simp add: alpha_at_def alpha_more [OF that(4)])
  show "alpha_at c X V (s\<lparr>mem := (mem s)(brk s \<mapsto> n), brk := Suc (brk s)\<rparr>) b" for n
    using r by (auto simp: alpha_at_def fresh_mem_def same_env_def intro: buckets_alloc)
qed

lemma buckets_change:
  assumes b: "buckets h hs X V ps" and k: "k < 26" and l: "only_links A h h'"
    and A: "\<forall>j<26. j \<noteq> k \<longrightarrow> A \<inter> set (X j) = {}" "set xs \<subseteq> A"
    and new: "dl.holds h' p xs vs" "map view vs = map Some (bucket k qs)"
    and rest: "\<forall>j<26. j \<noteq> k \<longrightarrow> bucket j qs = bucket j ps"
  shows "buckets h' (hs[k := p]) (X(k := xs)) (V(k := vs)) qs"
proof -
  have "dl.holds h' (hs ! j) (X j) (V j)" if "j < 26" "j \<noteq> k" for j
    by (rule dl.holds_other [OF _ l]) (use b A that in \<open>auto simp: buckets_def\<close>)
  moreover have "set (if i = k then xs else X i) \<inter> set (if j = k then xs else X j) = {}"
    if "i < 26" "j < 26" "i \<noteq> j" for i j
    using that A b unfolding buckets_def by (auto split: if_splits)
  ultimately show ?thesis
    using b k new rest by (auto simp: buckets_def nth_list_update)
qed

section \<open>The entries\<close>

lemma alpha_search_walk:
  assumes "dseg h prv p xs 0 l" and "map (data_at h) xs = map Some vs" and "map view vs = map Some ps"
  shows "alpha_person_search h p nm = Some (case find (\<lambda>(x, (n, _)). n = nm) (zip xs ps) of None \<Rightarrow> 0 | Some (x, _) \<Rightarrow> x)"
    and "alpha_person_traversal h p evs = Some (evs @ map (\<lambda>(n, q). Line (alpha_line n q)) ps)"
  using assms
proof (induction xs arbitrary: prv p vs ps evs)
  case Nil
  {
    case 1
    then show ?case by (simp add: alpha_person_search.simps)
  next
    case 2
    then show ?case by (simp add: alpha_person_traversal.simps)
  }
next
  case (Cons x xs)
  have w: "alpha_person_search h p nm = Some (case find (\<lambda>(x, (n, _)). n = nm) (zip (x # xs) ps) of None \<Rightarrow> 0 | Some (x, _) \<Rightarrow> x) \<and>
      alpha_person_traversal h p evs = Some (evs @ map (\<lambda>(n, q). Line (alpha_line n q)) ps)"
    if d: "dseg h prv p (x # xs) 0 l" and m: "map (data_at h) (x # xs) = map Some vs" and v: "map view vs = map Some ps" for prv p vs ps evs
  proof -
    obtain n v ws where n: "vs = v # ws" "p = x" "x \<noteq> 0" "h x = Some n" "n_data n = v"
      "dseg h x (n_next n) xs 0 l" "map (data_at h) xs = map Some ws"
      using dseg_Cons_data [OF d m] .
    obtain a b qs where q: "ps = (a, b) # qs" "view v = Some (a, b)" "map view ws = map Some qs"
      using v n(1) by (cases ps) auto
    have "cstr (p_name v) = Some a" "cstr (p_phone v) = Some b"
      using q(2) by (auto simp: view_def Option.bind_eq_Some_conv)
    then show ?thesis
      using Cons.IH(1) [OF n(6,7) q(3)] Cons.IH(2) [OF n(6,7) q(3)] n q
      by (simp add: alpha_person_search.simps [of h x] alpha_person_traversal.simps [of h x])
  qed
  {
    case 1
    then show ?case using w by blast
  next
    case 2
    then show ?case using w by blast
  }
qed

lemma bucket_walk:
  assumes "buckets h hs X V ps" and "k < 26"
  obtains l where "dseg h 0 (hs ! k) (X k) 0 l" "map (data_at h) (X k) = map Some (V k)"
    "map view (V k) = map Some (bucket k ps)" "length (X k) = length (bucket k ps)"
proof -
  have "dl.holds h (hs ! k) (X k) (V k)" and v: "map view (V k) = map Some (bucket k ps)"
    using assms by (auto simp: buckets_def)
  then obtain l where "dseg h 0 (hs ! k) (X k) 0 l" "map (data_at h) (X k) = map Some (V k)"
    using holds_dseg by blast
  moreover have "length (X k) = length (bucket k ps)"
    using arg_cong [where f = length, OF calculation(2)] arg_cong [where f = length, OF v] by simp
  ultimately show thesis using that v by blast
qed

lemma buckets_unalloc: "buckets h hs X V ps \<Longrightarrow> h a = None \<Longrightarrow> i < 26 \<Longrightarrow> a \<notin> set (X i)"
  using holds_unalloc unfolding buckets_def by blast

lemma alpha_upd:
  assumes "alpha_at c X V s b" and "\<forall>i<26. p \<notin> set (X i)" and "fresh_mem ((mem s)(p := v)) (brk s)"
  shows "alpha_at c X V (s\<lparr>mem := (mem s)(p := v)\<rparr>) b"
  using assms by (auto simp: alpha_at_def buckets_def same_env_def intro: holds_upd)

lemma alpha_add_rel:
  assumes r: "alpha_at c X V s b" and p: "p \<noteq> 0" "\<forall>i<26. p \<notin> set (X i)" "\<exists>n. mem s p = Some n"
    and v: "view d = Some (nm, q)" and k: "letter nm = int k" "k < 26"
  shows "\<exists>h0 h. set_data p d (mem s) = Some h0 \<and> alpha_person_insert (heads c ! k) p h0 = Some (0, h, p) \<and>
    alpha_at (c\<lparr>heads := (heads c)[k := p], a_count := a_count c + 1\<rparr>) (X(k := p # X k)) (V(k := d # V k))
      (s\<lparr>mem := h, acts := Some (c\<lparr>heads := (heads c)[k := p], a_count := a_count c + 1\<rparr>)\<rparr>) (book_add (nm, q) b)"
proof -
  obtain n where n: "mem s p = Some n" using p(3) by blast
  let ?h0 = "(mem s)(p \<mapsto> n\<lparr>n_data := d\<rparr>)"
  have d: "set_data p d (mem s) = Some ?h0" using n by (simp add: set_data_def)
  have b0: "buckets ?h0 (heads c) X V (people b)"
    using r p by (auto simp: alpha_at_def buckets_def intro: holds_upd)
  then have hk: "dl.holds ?h0 (heads c ! k) (X k) (V k)" using k by (simp add: buckets_def)
  then obtain h where h: "LIST_INSERT p (heads c ! k) ?h0 = Some (h, p)" "dl.holds h p (p # X k) (d # V k)"
    "only_links (set (p # X k)) ?h0 h"
    using dl.holds_insert [OF hk, of p d] p k by (auto simp: data_at_def)
  have "fresh_mem ?h0 (brk s)"
    using r n by (auto simp: alpha_at_def fresh_mem_def)
  then have "fresh_mem h (brk s)"
    by (rule fresh_mem_links [OF _ h(3)]) (use holds_nodes [OF hk] in auto)
  moreover have "buckets h ((heads c)[k := p]) (X(k := p # X k)) (V(k := d # V k)) ((nm, q) # people b)"
    by (rule buckets_change [OF b0 k(2) h(3) _ _ h(2)])
      (use b0 p k v in \<open>auto simp: buckets_def\<close>)
  moreover have "alpha_person_insert (heads c ! k) p ?h0 = Some (0, h, p)"
    using h(1) p by (simp add: alpha_person_insert_def)
  ultimately show ?thesis
    using r d by (auto simp: alpha_at_def same_env_def book_add_def)
qed

lemma alpha_insert_refines:
  assumes "alpha_at c X V s b"
  shows "rel_option (rel_prod (=) alpha_rel) (alpha_insert_entry s) (abook_insert b)"
proof -
  obtain x s1 where s1: "new_node s = (x, s1)" by fastforce
  obtain y b1 where b1: "book_alloc b = (y, b1)" by fastforce
  note r = aa.new_node_sim [OF assms s1 b1]
  have c: "acts s = Some c" using assms by (simp add: alpha_at_def)
  show ?thesis
  proof (cases x)
    case (Inl e)
    then show ?thesis using r s1 b1 c by (auto simp: alpha_insert_entry_def abook_insert_def intro: alpha_relI)
  next
    case (Inr p)
    then have y: "y = Inr ()" and p: "p \<noteq> 0" "\<exists>n. mem s1 p = Some n" and "mem s p = None" using r(3) by auto
    then have px: "\<forall>i<26. p \<notin> set (X i)"
      using assms buckets_unalloc by (auto simp: alpha_at_def)
    show ?thesis
      unfolding alpha_insert_entry_def abook_insert_def c s1 b1 y Inr option.case sum.case prod.case
      apply (rule aa.read_bind [OF r(1) length_pos(1)], unfold prod.case)
      apply (erule aa.read_bind [OF _ length_pos(2)], unfold prod.case)
      subgoal premises q for nm tn s2 b2 ph tp s3 b3
      proof -
        have v: "view \<lparr>p_name = nm, p_phone = ph\<rparr> = Some (tn, tp)" using q by (simp add: view_def)
        have l: "\<exists>n. mem s3 p = Some n" using p q by simp
        show ?thesis
        proof (cases "letter tn = -1")
          case True
          obtain n where n: "mem s3 p = Some n" using l by blast
          let ?h = "(mem s3)(p \<mapsto> n\<lparr>n_data := \<lparr>p_name = nm, p_phone = ph\<rparr>\<rparr>)"
          have "fresh_mem ?h (brk s3)" using q(6) n by (auto simp: alpha_at_def fresh_mem_def)
          from aa.print_out_rel [OF alpha_upd [OF q(6) px this], of Illegal_name]
          have "alpha_at c X V (free_node p (print_out Illegal_name (s3\<lparr>mem := ?h\<rparr>))) (print_out Illegal_name b3)"
            unfolding free_node_def using px
            by (rule alpha_upd) (use q(6) in \<open>auto simp: alpha_at_def print_out_def intro: fresh_mem_free\<close>)
          moreover have "set_data p \<lparr>p_name = nm, p_phone = ph\<rparr> (mem s3) = Some ?h" using n by (simp add: set_data_def)
          ultimately show ?thesis using True q by (auto intro: alpha_relI)
        next
          case False
          then obtain k where k: "k < 26" "letter tn = int k" using letter_range by blast
          show ?thesis
            using alpha_add_rel [OF q(6) p(1) px l v k(2,1)] k q
            by (auto intro!: alpha_relI aa.print_out_rel)
        qed
      qed
      done
  qed
qed

lemma print_heads_buckets:
  assumes b: "buckets h hs X V ps"
  shows "i \<le> 26 \<Longrightarrow> alpha_print_heads h i (drop i hs) evs =
    Some (evs @ concat (map (\<lambda>i. if bucket i ps = [] then []
      else Letter (65 + i) # map (\<lambda>(n, q). Line (alpha_line n q)) (bucket i ps)) [i..<26]))"
proof (induction "26 - i" arbitrary: i evs)
  case 0
  then have "i = 26" by simp
  moreover have "length hs = 26" using b by (simp add: buckets_def)
  ultimately show ?case by simp
next
  case (Suc k)
  then have i: "i < 26" and len: "i < length hs" using b by (auto simp: buckets_def)
  obtain l where w: "dseg h 0 (hs ! i) (X i) 0 l" "map (data_at h) (X i) = map Some (V i)"
    "map view (V i) = map Some (bucket i ps)" "length (X i) = length (bucket i ps)"
    using bucket_walk [OF b i] .
  have z: "hs ! i = 0 \<longleftrightarrow> bucket i ps = []"
    using b i dl.head_zero [of h "hs ! i" "X i"] w(4) by (auto simp: buckets_def dl.holds_def)
  have ih: "alpha_print_heads h (Suc i) (drop (Suc i) hs) e = Some (e @ concat (map (\<lambda>i. if bucket i ps = [] then []
      else Letter (65 + i) # map (\<lambda>(n, q). Line (alpha_line n q)) (bucket i ps)) [Suc i..<26]))" for e
    by (rule Suc.hyps(1)) (use Suc.hyps(2) i in auto)
  show ?case
    unfolding Cons_nth_drop_Suc [OF len, symmetric] upt_conv_Cons [OF i]
    using alpha_search_walk(2) [OF w(1-3)] z ih by simp
qed

lemma save_heads_buckets:
  assumes b: "buckets h hs X V ps"
  shows "i \<le> 26 \<Longrightarrow> alpha_save_heads h (drop i hs) t = Some (t @ concat (map (\<lambda>i. book_text (bucket i ps)) [i..<26]))"
proof (induction "26 - i" arbitrary: i t)
  case 0
  then have "i = 26" by simp
  moreover have "length hs = 26" using b by (simp add: buckets_def)
  ultimately show ?case by simp
next
  case (Suc k)
  then have i: "i < 26" and len: "i < length hs" using b by (auto simp: buckets_def)
  obtain l where w: "dseg h 0 (hs ! i) (X i) 0 l" "map (data_at h) (X i) = map Some (V i)"
    "map view (V i) = map Some (bucket i ps)" using bucket_walk [OF b i] .
  have ih: "alpha_save_heads h (drop (Suc i) hs) e = Some (e @ concat (map (\<lambda>i. book_text (bucket i ps)) [Suc i..<26]))" for e
    by (rule Suc.hyps(1)) (use Suc.hyps(2) i in auto)
  show ?case
    unfolding Cons_nth_drop_Suc [OF len, symmetric] upt_conv_Cons [OF i]
    using traversal_walk(2) [OF w] ih by simp
qed

lemma alpha_print_refines:
  assumes r: "alpha_at c X V s b"
  shows "rel_option (rel_prod (=) alpha_rel) (alpha_print_entry s) (Some (0, abook_print b))"
proof -
  have b: "buckets (mem s) (heads c) X V (people b)" and c: "acts s = Some c" and e: "same_env s b"
    using r by (auto simp: alpha_at_def)
  have "take ALPHA_COUNT (heads c) = drop 0 (heads c)" using b by (simp add: buckets_def ALPHA_COUNT_def)
  moreover have "alpha_at c X V (s\<lparr>out := k\<rparr>) (b\<lparr>out := k\<rparr>)" for k
    by (rule aa.rel_upd [OF r]) (use e in \<open>auto simp: same_env_def\<close>)
  moreover have "out s = out b" using e by (simp add: same_env_def)
  ultimately show ?thesis
    using print_heads_buckets [OF b, of 0 "out s"] c
    by (auto simp: alpha_print_entry_def abook_print_def intro!: alpha_relI)
qed

lemma alpha_search_at:
  assumes "buckets h hs X V ps" and "k < 26"
  shows "alpha_person_search h (hs ! k) nm =
    Some (case find (\<lambda>(x, (n, _)). n = nm) (zip (X k) (bucket k ps)) of None \<Rightarrow> 0 | Some (x, _) \<Rightarrow> x)"
  using assms alpha_search_walk(1) by (elim bucket_walk) blast

lemma alpha_search_refines:
  assumes "alpha_at c X V s b"
  shows "rel_option (rel_prod (=) alpha_rel) (alpha_search_entry s) (abook_search b)"
proof -
  have c: "acts s = Some c" using assms by (simp add: alpha_at_def)
  show ?thesis
    unfolding alpha_search_entry_def abook_search_def c option.case
    apply (rule aa.read_bind [OF assms length_pos(1)], unfold prod.case)
    subgoal premises q for a nm s1 b1
    proof (cases "letter nm = -1")
      case True
      then show ?thesis using q by (auto intro!: alpha_relI aa.print_out_rel)
    next
      case False
      then obtain k where k: "k < 26" "letter nm = int k" using letter_range by blast
      have b: "buckets (mem s1) (heads c) X V (people b1)" using q(3) by (simp add: alpha_at_def)
      obtain l where w: "dseg (mem s1) 0 (heads c ! k) (X k) 0 l" "map (data_at (mem s1)) (X k) = map Some (V k)"
        "map view (V k) = map Some (bucket k (people b1))" "length (X k) = length (bucket k (people b1))"
        using bucket_walk [OF b k(1)] .
      note f0 = alpha_search_at [OF b k(1), of nm] bucket_find [OF k(2), of "people b1"]
      from find_first [OF w(4), of nm] show ?thesis
      proof (elim disjE exE conjE)
        assume "find (\<lambda>(x, (n, _)). n = nm) (zip (X k) (bucket k (people b1))) = None"
          "find (\<lambda>(n, _). n = nm) (bucket k (people b1)) = None"
        then show ?thesis
          using q f0 k by (auto intro!: alpha_relI aa.print_out_rel)
      next
        fix as x bs us r ws
        assume f: "X k = as @ x # bs" "bucket k (people b1) = us @ (nm, r) # ws" "length as = length us"
          "find (\<lambda>(x, (n, _)). n = nm) (zip (X k) (bucket k (people b1))) = Some (x, (nm, r))"
          "find (\<lambda>(n, _). n = nm) (bucket k (people b1)) = Some (nm, r)"
        obtain us' v ws' where vs: "V k = us' @ v # ws'" "length us' = length us" "view v = Some (nm, r)"
          using map_Some_split [of view "V k" us "(nm, r)" ws] w(3) f(2) by auto
        have "data_at (mem s1) x = Some v" using w(2) f(1,3) vs by simp
        then obtain n where n: "mem s1 x = Some n" "n_data n = v" by (auto simp: data_at_def)
        have "x \<noteq> 0" using dseg_nonzero [OF w(1)] f(1) by auto
        moreover have "cstr (p_name v) = Some nm" "cstr (p_phone v) = Some r"
          using vs(3) by (auto simp: view_def Option.bind_eq_Some_conv)
        moreover have "find (\<lambda>(n, _). n = nm) (people b1) = Some (nm, r)" using f(5) f0(2) by (simp only:)
        ultimately show ?thesis
          using f(1-4) q n f0(1) k by (auto intro!: alpha_relI aa.print_out_rel)
      qed
    qed
    done
qed

lemma alpha_delete_refines:
  assumes "alpha_at c X V s b"
  shows "rel_option (rel_prod (=) alpha_rel) (alpha_delete_entry s) (abook_delete b)"
proof -
  have c: "acts s = Some c" using assms by (simp add: alpha_at_def)
  show ?thesis
    unfolding alpha_delete_entry_def abook_delete_def c option.case
    apply (rule aa.read_bind [OF assms length_pos(1)], unfold prod.case)
    subgoal premises q for a nm s1 b1
    proof (cases "letter nm = -1")
      case True
      then show ?thesis using q by (auto intro!: alpha_relI aa.print_out_rel)
    next
      case False
      then obtain k where k: "k < 26" "letter nm = int k" using letter_range by blast
      have b: "buckets (mem s1) (heads c) X V (people b1)" using q(3) by (simp add: alpha_at_def)
      obtain l where w: "dseg (mem s1) 0 (heads c ! k) (X k) 0 l" "map (data_at (mem s1)) (X k) = map Some (V k)"
        "map view (V k) = map Some (bucket k (people b1))" "length (X k) = length (bucket k (people b1))"
        using bucket_walk [OF b k(1)] .
      note f0 = alpha_search_at [OF b k(1), of nm] bucket_mem [OF k(2), of "people b1"]
      from find_first [OF w(4), of nm] show ?thesis
      proof (elim disjE exE conjE)
        assume "find (\<lambda>(x, (n, _)). n = nm) (zip (X k) (bucket k (people b1))) = None"
          "nm \<notin> fst ` set (bucket k (people b1))"
        then show ?thesis
          using q f0 k by (auto intro!: alpha_relI aa.print_out_rel)
      next
        fix as x bs us r ws
        assume f: "X k = as @ x # bs" "bucket k (people b1) = us @ (nm, r) # ws" "length as = length us"
          "find (\<lambda>(x, (n, _)). n = nm) (zip (X k) (bucket k (people b1))) = Some (x, (nm, r))"
          "drop_first nm (bucket k (people b1)) = us @ ws"
        obtain us' v ws' where vs: "V k = us' @ v # ws'" "length us' = length us"
          "map view us' = map Some us" "map view ws' = map Some ws"
          using map_Some_split [of view "V k" us "(nm, r)" ws] w(3) f(2) by auto
        have hk: "dl.holds (mem s1) (heads c ! k) (as @ x # bs) (us' @ v # ws')"
          using b k f(1) vs(1) by (auto simp: buckets_def)
        have x: "x \<noteq> 0" "heads c ! k \<noteq> 0"
          using dseg_nonzero [OF w(1)] dl.head_zero [of "mem s1" "heads c ! k" "X k"] hk f(1)
          by (auto simp: dl.holds_def)
        obtain h p where h: "LIST_REMOVE x (heads c ! k) (mem s1) = Some (h, p)" "dl.holds h p (as @ bs) (us' @ ws')"
          "only_links (set (X k)) (mem s1) h"
          using dl.holds_remove [OF hk] f(1,3) vs by auto
        have xas: "x \<notin> set (as @ bs)"
          using hk dl.nodes [of "mem s1" "heads c ! k" "as @ x # bs"] by (auto simp: dl.holds_def)
        let ?X = "X(k := as @ bs)" and ?V = "V(k := us' @ ws')" and ?c = "c\<lparr>heads := (heads c)[k := p]\<rparr>"
        have dis: "\<forall>j<26. j \<noteq> k \<longrightarrow> set (X k) \<inter> set (X j) = {}" using b k unfolding buckets_def by blast
        have b': "buckets h ((heads c)[k := p]) ?X ?V (drop_first nm (people b1))"
          by (rule buckets_change [OF b k(1) h(3) dis _ h(2)])
            (use k vs f(1,2,5) in \<open>auto simp: bucket_drop_first\<close>)
        have fm: "fresh_mem h (brk s1)"
          by (rule fresh_mem_links [OF _ h(3)])
            (use q(3) holds_nodes [OF hk] f(1) in \<open>auto simp: alpha_at_def\<close>)
        have "alpha_at ?c ?X ?V (s1\<lparr>mem := h, acts := Some ?c\<rparr>) (b1\<lparr>people := drop_first nm (people b1)\<rparr>)"
          using q(3) b' fm by (simp add: alpha_at_def same_env_def)
        then have "alpha_at ?c ?X ?V (free_node x (s1\<lparr>mem := h, acts := Some ?c\<rparr>)) (b1\<lparr>people := drop_first nm (people b1)\<rparr>)"
          unfolding free_node_def
          by (rule alpha_upd) (use xas b k f(1) fm in \<open>auto simp: buckets_def intro: fresh_mem_free\<close>)
        moreover have "nm \<in> fst ` set (people b1)" using f(2) f0 by force
        moreover have "alpha_person_delete (heads c ! k) x (mem s1) = Some (0, h, p)"
          using x h(1) by (simp add: alpha_person_delete_def)
        ultimately show ?thesis
          using f x q f0 k by (auto intro: alpha_relI)
      qed
    qed
    done
qed

lemma alpha_save_refines:
  assumes "alpha_at c X V s b"
  shows "rel_option (rel_prod (=) alpha_rel) (alpha_save_entry s) (abook_save b)"
proof -
  have c: "acts s = Some c" using assms by (simp add: alpha_at_def)
  show ?thesis
    unfolding alpha_save_entry_def abook_save_def c option.case
    apply (rule aa.read_bind [OF assms length_pos(1)], unfold prod.case)
    subgoal premises q for a f s1 b1
    proof -
      obtain ok s2 ok' b2 where 2: "syscall s1 = (ok, s2)" "syscall b1 = (ok', b2)" by fastforce
      note r = aa.syscall_rel [OF q(3) 2]
      have b: "buckets (mem s2) (heads c) X V (people b2)" and e: "same_env s2 b2" using r(2) by (auto simp: alpha_at_def)
      have "take ALPHA_COUNT (heads c) = drop 0 (heads c)" using b by (simp add: buckets_def ALPHA_COUNT_def)
      then have w: "alpha_save_heads (mem s2) (take ALPHA_COUNT (heads c)) [] = Some (abook_text (people b2))"
        using save_heads_buckets [OF b, of 0 "[]"] by (simp add: abook_text_def)
      have "alpha_at c X V (s2\<lparr>files := k\<rparr>) (b2\<lparr>files := k\<rparr>)" for k
        by (rule aa.rel_upd [OF r(2)]) (use e in \<open>auto simp: same_env_def\<close>)
      moreover have "files s2 = files b2" using e by (simp add: same_env_def)
      ultimately show ?thesis
        using q 2 r w by (auto intro: alpha_relI)
    qed
    done
qed

definition with_book :: "alpha_contact \<Rightarrow> alpha_app \<Rightarrow> alpha_app" where
  "with_book c s = s\<lparr>acts := Some c\<rparr>"

lemma with_book_env [simp]:
  "acts (with_book c s) = Some c" "mem (with_book c s) = mem s" "brk (with_book c s) = brk s"
  "out (with_book c s) = out s" "with_book c (s\<lparr>out := k\<rparr>) = (with_book c s)\<lparr>out := k\<rparr>"
  by (simp_all add: with_book_def)

lemma new_node_with_book: "new_node (with_book c s) = map_prod id (with_book c) (new_node s)"
  by (simp add: new_node_def syscall_def with_book_def split: list.splits)

lemma alpha_load_line_view:
  assumes "alpha_load_line a = Some (0, nm, ph, evs)"
  shows "\<exists>x y. cstr nm = Some x \<and> cstr ph = Some y"
  using assms by (auto simp: alpha_load_line_def alpha_paraser_token_def Let_def Option.bind_eq_Some_conv split: if_splits)

lemma alpha_load_loop_refines:
  assumes "alpha_rel (with_book c s) b"
  shows "rel_option (\<lambda>(r, c, s) (r', b). r = r' \<and> alpha_rel (with_book c s) b)
    (alpha_load_loop fp feof c s) (abook_load_loop fp feof b)"
  using assms
proof (induction fp feof b arbitrary: c s rule: abook_load_loop.induct)
  case (1 fp feof b)
  note unfold = alpha_load_loop.simps [of fp feof] abook_load_loop.simps [of fp feof]
  let ?R = "rel_option (\<lambda>(r, c, s) (r', b). r = r' \<and> alpha_rel (with_book c s) b)"
  show ?case
  proof (cases feof)
    case True
    then show ?thesis using "1.prems" by (simp add: alpha_load_loop.simps [of fp True] abook_load_loop.simps [of fp True])
  next
    case False
    obtain a fp' e where g: "fgets (BUFFER_LENGTH - 1) fp = (a, fp', e)" by (cases "fgets (BUFFER_LENGTH - 1) fp") auto
    show ?thesis
    proof (cases "alpha_load_line a")
      case None
      then show ?thesis unfolding unfold using False g by simp
    next
      case (Some z)
      obtain r nm ph evs where z: "z = (r, nm, ph, evs)" by (cases z)
      let ?s = "s\<lparr>out := out s @ evs\<rparr>" and ?b = "b\<lparr>out := out b @ evs\<rparr>"
      obtain c0 X V where at: "alpha_at c0 X V (with_book c s) b" using "1.prems" by (auto simp: alpha_rel_def)
      then have c: "c0 = c" "out s = out b" by (auto simp: alpha_at_def same_env_def)
      have at': "alpha_at c X V (with_book c ?s) ?b"
        using at c by (auto simp: alpha_at_def same_env_def with_book_def)
      show ?thesis
      proof (cases "r \<noteq> 0")
        case True
        have "?R (alpha_load_loop fp' e c ?s) (abook_load_loop fp' e ?b)"
          by (rule "1.IH"(1) [OF False g [symmetric] refl Some z [symmetric] refl refl refl True alpha_relI [OF at']])
        then show ?thesis unfolding unfold using False g Some z True by simp
      next
        case r: False
        then obtain x y where xy: "cstr nm = Some x" "cstr ph = Some y" using alpha_load_line_view Some z by blast
        show ?thesis
        proof (cases "letter x = -1")
          case True
          have "?R (alpha_load_loop fp' e c ?s) (abook_load_loop fp' e ?b)"
            by (rule "1.IH"(2) [OF False g [symmetric] refl Some z [symmetric] refl refl refl r xy True alpha_relI [OF at']])
          then show ?thesis unfolding unfold using False g Some z r xy True by simp
        next
          case l: False
          then obtain k where k: "k < 26" "letter x = int k" using letter_range by blast
          obtain w s1 where s1: "new_node ?s = (w, s1)" by fastforce
          obtain y' b1 where b1: "book_alloc ?b = (y', b1)" by fastforce
          have "new_node (with_book c ?s) = (w, with_book c s1)"
            using new_node_with_book [of c ?s] s1 by simp
          note rn = aa.new_node_sim [OF at' this b1]
          show ?thesis
          proof (cases w)
            case (Inl err)
            then show ?thesis unfolding unfold using rn False g Some z r xy k s1 b1 by (auto intro: alpha_relI)
          next
            case (Inr p)
            then have y': "y' = Inr ()" and p: "p \<noteq> 0" "mem s p = None" "\<exists>n. mem (with_book c s1) p = Some n"
              using rn(3) by auto
            have "buckets (mem s) (heads c) X V (people b)" using at c(1) by (simp add: alpha_at_def)
            then have px: "\<forall>i<26. p \<notin> set (X i)" using p(2) buckets_unalloc by blast
            have v: "view \<lparr>p_name = nm, p_phone = ph\<rparr> = Some (x, y)" using xy by (simp add: view_def)
            let ?c = "c\<lparr>heads := (heads c)[k := p], a_count := a_count c + 1\<rparr>"
            obtain h0 h where h: "set_data p \<lparr>p_name = nm, p_phone = ph\<rparr> (mem s1) = Some h0"
              "alpha_person_insert (heads c ! k) p h0 = Some (0, h, p)"
              "alpha_rel (with_book ?c (s1\<lparr>mem := h\<rparr>)) (book_add (x, y) b1)"
              using alpha_add_rel [OF rn(1) p(1) px p(3) v k(2,1)] by (auto simp: with_book_def intro: alpha_relI)
            have "?R (alpha_load_loop fp' e ?c (s1\<lparr>mem := h\<rparr>)) (abook_load_loop fp' e (book_add (x, y) b1))"
              by (rule "1.IH"(3) [OF False g [symmetric] refl Some z [symmetric] refl refl refl r xy l b1 [symmetric] y' h(3)])
            then show ?thesis unfolding unfold using False g Some z r xy k s1 b1 Inr y' h by simp
          qed
        qed
      qed
    qed
  qed
qed

lemma alpha_load_refines:
  assumes "alpha_at c X V s b"
  shows "rel_option (rel_prod (=) alpha_rel) (alpha_load_entry s) (abook_load b)"
proof -
  have c: "acts s = Some c" using assms by (simp add: alpha_at_def)
  show ?thesis
    unfolding alpha_load_entry_def abook_load_def c option.case
    apply (rule aa.read_bind [OF assms length_pos(1)], unfold prod.case)
    subgoal premises q for a f s1 b1
    proof -
      obtain ok s2 ok' b2 where 2: "syscall s1 = (ok, s2)" "syscall b1 = (ok', b2)" by fastforce
      note r = aa.syscall_rel [OF q(3) 2]
      have h: "with_book c s2 = s2" and fl: "files s2 = files b2"
        using r(2) by (auto simp: alpha_at_def with_book_def same_env_def)
      show ?thesis
      proof (cases "if ok then files b2 f else None")
        case None
        then show ?thesis
          using q 2 r h fl by (auto split: if_splits intro: alpha_relI)
      next
        case (Some u)
        have "rel_option (\<lambda>(r, c, s) (r', b). r = r' \<and> alpha_rel (with_book c s) b)
          (alpha_load_loop u False c s2) (abook_load_loop u False b2)"
          by (rule alpha_load_loop_refines) (use r(2) h in \<open>auto intro: alpha_relI\<close>)
        then show ?thesis
          using Some q 2 r fl
          by (auto simp: with_book_def elim!: option.rel_cases split: if_splits)
      qed
    qed
    done
qed

lemma alpha_step_refines:
  assumes "alpha_rel s b"
  shows "rel_option (rel_prod (=) alpha_rel) (alpha_step s) (abook_step b)"
proof -
  obtain c X V where at: "alpha_at c X V s b" using assms by (auto simp: alpha_rel_def)
  obtain v s' v' b' where v: "read_int 0 s = (v, s')" "read_int 0 b = (v', b')" by fastforce
  note r = aa.read_int_rel [OF at v]
  have "rel_option (rel_prod (=) alpha_rel) (map_option (\<lambda>(_, s). (True, s)) (alpha_print_entry s')) (Some (True, abook_print b'))"
    using map_step_rel [OF alpha_print_refines [OF r(2)], of True] by simp
  then show ?thesis
    using r(1) map_step_rel [OF alpha_insert_refines [OF r(2)], of True] map_step_rel [OF alpha_delete_refines [OF r(2)], of True]
      map_step_rel [OF alpha_search_refines [OF r(2)], of True] map_step_rel [OF alpha_save_refines [OF r(2)], of True]
      map_step_rel [OF alpha_load_refines [OF r(2)], of True] r(2)
    unfolding alpha_step_def abook_step_def v prod.case
    by (auto intro: alpha_relI)
qed

section \<open>Sessions\<close>

definition alpha_start :: "string \<Rightarrow> bool list \<Rightarrow> (string \<Rightarrow> string option) \<Rightarrow> alpha_app" where
  "alpha_start i oks0 fs = \<lparr>input = i, oks = oks0, files = fs, out = [], mem = (\<lambda>_. None), brk = 1, acts = None\<rparr>"

lemma alpha_rel_env: "alpha_rel s b \<Longrightarrow> same_env s b"
  by (auto simp: alpha_rel_def alpha_at_def)

lemma same_env_acts [simp]: "same_env (s\<lparr>acts := c\<rparr>) b = same_env s b"
  by (simp add: same_env_def)

lemma alpha_loop_refines:
  "alpha_rel s b \<Longrightarrow> rel_option (\<lambda>(more, s) (more', b). more = more' \<and> same_env s b) (alpha_loop fuel s) (abook_loop fuel b)"
proof (induction fuel arbitrary: s b)
  case 0
  then show ?case by (simp add: alpha_rel_env)
next
  case (Suc fuel)
  have "rel_option (\<lambda>(more, s) (more', b). more = more' \<and> same_env s b)
    (alpha_step s \<bind> (\<lambda>(go, s). if go then alpha_loop fuel s else Some (False, s\<lparr>acts := None\<rparr>)))
    (abook_step b \<bind> (\<lambda>(go, b). if go then abook_loop fuel b else Some (False, b)))"
    by (rule rel_option_bind [OF alpha_step_refines [OF Suc.prems]])
      (auto intro: Suc.IH dest: alpha_rel_env)
  then show ?case by simp
qed

lemma alpha_start_rel:
  "alpha_rel (with_book \<lparr>heads = replicate ALPHA_COUNT 0, a_count = 0\<rparr> (alpha_start i oks0 fs)) (book_start i oks0 fs)"
  by (auto simp: alpha_rel_def alpha_at_def alpha_start_def book_start_def same_env_def fresh_mem_def with_book_def
      buckets_def ALPHA_COUNT_def intro!: exI [of _ "\<lambda>_. []"])

lemma alpha_main_refines:
  "rel_option (\<lambda>(r, more, s) (r', more', b). r = r' \<and> more = more' \<and> same_env s b)
     (alpha_main fuel (alpha_start i oks0 fs)) (abook_main fuel (book_start i oks0 fs))"
proof -
  have "syscall (alpha_start i oks0 fs) = (b, alpha_start i oks1 fs) \<and> syscall (book_start i oks0 fs) = (b, book_start i oks1 fs)"
    if "(b, oks1) = (case oks0 of [] \<Rightarrow> (True, []) | b # bs \<Rightarrow> (b, bs))" for b oks1
    using that by (auto simp: syscall_def alpha_start_def book_start_def split: list.splits)
  then obtain ok oks1 where s: "syscall (alpha_start i oks0 fs) = (ok, alpha_start i oks1 fs)"
    "syscall (book_start i oks0 fs) = (ok, book_start i oks1 fs)" by (metis surj_pair)
  show ?thesis
    using alpha_loop_refines [OF alpha_start_rel, of fuel i oks1 fs]
    unfolding alpha_main_def abook_main_def s
    by (auto elim!: option.rel_cases simp: with_book_def alpha_start_def book_start_def same_env_def)
qed

section \<open>Loading a saved file\<close>

lemma name_loop_ge: "name_loop cs i st j nm = Some (i', nm') \<Longrightarrow> i \<le> i'"
  by (induction cs i st j nm rule: name_loop.induct) (auto split: if_splits)

lemma name_loop_lt:
  "name_loop (u @ v) k st j w = Some (i', w') \<Longrightarrow> CHR '','' \<in> set u \<Longrightarrow> i' < length u + k"
proof (induction u arbitrary: k st j w)
  case (Cons c u)
  show ?case
  proof (cases "c = CHR '',''")
    case False
    then have "CHR '','' \<in> set u" using Cons.prems(2) by simp
    moreover obtain st' j' w'' where "name_loop (u @ v) (Suc k) st' j' w'' = Some (i', w')"
      using Cons.prems(1) False by (auto split: if_splits)
    ultimately have "i' < length u + Suc k" by (intro Cons.IH)
    then show ?thesis by simp
  qed (use Cons.prems in simp)
qed simp

lemma alpha_name_loop_eq:
  "name_loop cs i st j nm = Some (i', nm') \<Longrightarrow> i' < len \<Longrightarrow> alpha_name_loop cs len i st j nm = Some (i', nm')"
proof (induction cs i st j nm rule: name_loop.induct)
  case (2 c cs i st j nm)
  then have "i < len" using name_loop_ge [OF "2.prems"(1)] by simp
  with 2 show ?case by (auto split: if_splits)
qed simp

lemma alpha_load_line_eq:
  assumes l: "load_line a = Some (0, nm, ph, evs)" and x: "cstr nm = Some x" "cstr ph = Some y"
    and comma: "CHR '','' \<in> set a" and nul: "NUL \<notin> set a" and len: "length a < BUFFER_LENGTH" "int MIN_LENGTH \<le> int (length a)"
  shows "alpha_load_line a = Some (0, nm, ph, [Token_line (alpha_line x y)])"
proof -
  let ?b = "a @ zeros (BUFFER_LENGTH - length a)"
  have c: "cstr ?b = Some a"
    using len(1) nul by (cases "BUFFER_LENGTH - length a") (auto simp: zeros_def cstr_pad)
  have p: "paraser_token (Some ?b) (int (length a)) (zeros NAME_LENGTH) (zeros PHONE_LENGTH) = Some (0, nm, ph, evs)"
    using l c by (simp add: load_line_def)
  then obtain i where i: "name_loop ?b 0 0 0 (zeros NAME_LENGTH) = Some (i, nm)"
    "phone_loop (drop i a) 0 0 (zeros PHONE_LENGTH) = Some ph"
    using len by (auto simp: paraser_token_def Option.bind_eq_Some_conv split: if_splits)
  have "i < length a" using name_loop_lt [OF i(1) comma] by simp
  then have "alpha_name_loop ?b (length a) 0 0 0 (zeros NAME_LENGTH) = Some (i, nm)"
    by (rule alpha_name_loop_eq [OF i(1)])
  then show ?thesis
    using i(2) c x len by (simp add: alpha_load_line_def alpha_paraser_token_def)
qed

lemma alpha_load_record:
  assumes n: "name_ok nm" and p: "phone_ok ph"
  shows "\<exists>a b. alpha_load_line (line_of nm ph) = Some (0, a, b, [Token_line (alpha_line nm (ph @ [NL]))]) \<and>
    cstr a = Some nm \<and> cstr b = Some (ph @ [NL])"
proof -
  let ?a = "nm @ zeros (NAME_LENGTH - length nm)" and ?b = "(ph @ [NL]) @ zeros (PHONE_LENGTH - length (ph @ [NL]))"
  have c: "cstr ?a = Some nm" "cstr ?b = Some (ph @ [NL])"
    using assms by (auto simp: name_ok_def phone_ok_def cstr_def zeros_def takeWhile_append
        PHONE_LENGTH_def NAME_LENGTH_def takeWhile_eq_all_conv [THEN iffD2])
  have "alpha_load_line (line_of nm ph) = Some (0, ?a, ?b, [Token_line (alpha_line nm (ph @ [NL]))])"
    by (rule alpha_load_line_eq [OF load_line_record [OF assms] c])
      (use assms in \<open>auto simp: line_of_def name_ok_def phone_ok_def BUFFER_LENGTH_def NAME_LENGTH_def PHONE_LENGTH_def
        MIN_LENGTH_def\<close>)
  then show ?thesis using c by blast
qed

definition alpha_events :: "(string \<times> string) list \<Rightarrow> event list" where
  "alpha_events ps = map (\<lambda>(n, q). Token_line (alpha_line n (q @ [NL]))) ps"

definition record_ok :: "string \<times> string \<Rightarrow> bool" where
  "record_ok r \<longleftrightarrow> (case r of (n, q) \<Rightarrow> name_ok n \<and> phone_ok q \<and> letter n \<noteq> -1)"

lemma fgets_record:
  assumes "name_ok n" and "phone_ok q"
  shows "fgets (BUFFER_LENGTH - 1) (book_text ((n, q) # ps)) = (line_of n q, book_text ps, False)"
proof -
  let ?l = "''name: '' @ n @ '',phone: '' @ q"
  have "length ?l < BUFFER_LENGTH - 1" "NL \<notin> set ?l"
    using assms by (auto simp: name_ok_def phone_ok_def BUFFER_LENGTH_def NAME_LENGTH_def PHONE_LENGTH_def)
  then have "fgets (BUFFER_LENGTH - 1) (?l @ NL # book_text ps) = (?l @ [NL], book_text ps, False)"
    by (intro fgets_line) auto
  then show ?thesis by (simp add: book_text_def line_of_def)
qed

lemma abook_load_saved:
  assumes "\<forall>r \<in> set ps. record_ok r" and "oks b = []"
  shows "\<exists>b'. abook_load_loop (book_text ps) False b = Some (0, b') \<and> oks b' = [] \<and>
    people b' = rev (map (\<lambda>(n, q). (n, q @ [NL])) ps) @ people b \<and> total b' = total b + int (length ps) \<and>
    out b' = out b @ alpha_events ps"
  using assms
proof (induction ps arbitrary: b)
  case Nil
  have "alpha_load_line [] = Some (-1, zeros NAME_LENGTH, zeros PHONE_LENGTH, [])"
    by (simp add: alpha_load_line_def alpha_paraser_token_def BUFFER_LENGTH_def MIN_LENGTH_def)
  then show ?case
    using Nil.prems by (simp add: abook_load_loop.simps [of "[]" False] abook_load_loop.simps [of "[]" True]
        book_text_def alpha_events_def BUFFER_LENGTH_def numeral_eq_Suc)
next
  case (Cons p ps)
  obtain n q where p: "p = (n, q)" by (cases p)
  have ok: "name_ok n" "phone_ok q" "letter n \<noteq> -1" using Cons.prems p by (auto simp: record_ok_def)
  obtain x y where l: "alpha_load_line (line_of n q) = Some (0, x, y, [Token_line (alpha_line n (q @ [NL]))])"
    "cstr x = Some n" "cstr y = Some (q @ [NL])" using alpha_load_record [OF ok(1,2)] by blast
  let ?b = "b\<lparr>out := out b @ [Token_line (alpha_line n (q @ [NL]))]\<rparr>"
  have a: "book_alloc ?b = (Inr (), ?b)" using Cons.prems(2) by (simp add: book_alloc_def syscall_def)
  have "abook_load_loop (book_text (p # ps)) False b = abook_load_loop (book_text ps) False (book_add (n, q @ [NL]) ?b)"
    unfolding p abook_load_loop.simps [of "book_text ((n, q) # ps)" False b] fgets_record [OF ok(1,2)]
    using l a ok(3) by simp
  moreover have "oks (book_add (n, q @ [NL]) ?b) = []" using Cons.prems(2) by (simp add: book_add_def)
  ultimately show ?case
    using Cons.IH [of "book_add (n, q @ [NL]) ?b"] Cons.prems(1) by (auto simp: book_add_def alpha_events_def p)
qed

section \<open>Properties\<close>

text \<open>C20: The alphabetical address book behaves like the abstract book on every input: searching and
  deleting in the bucket of the first letter is searching and deleting in the whole list of records,
  names that do not start with a letter are refused, and the screen and the files group the records
  by letter.\<close>

theorem alpha_refines:
  "map_option (\<lambda>(r, more, s). (r, more, out s, files s)) (alpha_main fuel (alpha_start i oks0 fs)) =
   map_option (\<lambda>(r, more, b). (r, more, out b, files b)) (abook_main fuel (book_start i oks0 fs))"
  using alpha_main_refines [of fuel i oks0 fs] by (auto elim!: option.rel_cases simp: same_env_def)

text \<open>In the alphabetical address book, loading a saved file brings every record back (newest
  first, and each phone longer by the newline of its line) and raises the count by their number.\<close>

theorem alpha_load_restores:
  assumes "alpha_rel (with_book c s) b" and "oks s = []" and "\<forall>r \<in> set ps. record_ok r"
  shows "\<exists>c' s' b'. alpha_load_loop (book_text ps) False c s = Some (0, c', s') \<and>
    alpha_rel (with_book c' s') b' \<and> a_count c' = a_count c + int (length ps) \<and>
    people b' = rev (map (\<lambda>(n, q). (n, q @ [NL])) ps) @ people b"
proof -
  have "oks b = []" using assms(1,2) by (auto simp: alpha_rel_def alpha_at_def same_env_def with_book_def)
  then obtain b' where b': "abook_load_loop (book_text ps) False b = Some (0, b')"
    "people b' = rev (map (\<lambda>(n, q). (n, q @ [NL])) ps) @ people b" "total b' = total b + int (length ps)"
    using abook_load_saved [OF assms(3)] by blast
  have "rel_option (\<lambda>(r, c, s) (r', b). r = r' \<and> alpha_rel (with_book c s) b)
      (alpha_load_loop (book_text ps) False c s) (abook_load_loop (book_text ps) False b)"
    by (rule alpha_load_loop_refines [OF assms(1)])
  then obtain c' s' where s': "alpha_load_loop (book_text ps) False c s = Some (0, c', s')"
    "alpha_rel (with_book c' s') b'"
    unfolding b'(1) by (auto elim!: option.rel_cases)
  have "a_count c' = total b'" "a_count c = total b"
    using s'(2) assms(1) by (auto simp: alpha_rel_def alpha_at_def)
  then show ?thesis using s' b' by auto
qed

theorem alpha_load_restores_witness:
  "\<exists>c' s' b'. alpha_load_loop (book_text [(''Ann'', ''12''), (''bob'', ''7'')]) False
      \<lparr>heads = replicate ALPHA_COUNT 0, a_count = 0\<rparr> (alpha_start [] [] Map.empty) = Some (0, c', s') \<and>
    alpha_rel (with_book c' s') b' \<and> a_count c' = 2 \<and>
    people b' = [(''bob'', ''7'' @ [NL]), (''Ann'', ''12'' @ [NL])]"
  using alpha_load_restores [OF alpha_start_rel, of "[]" "[]" Map.empty "[(''Ann'', ''12''), (''bob'', ''7'')]"]
  by (simp add: record_ok_def name_ok_def phone_ok_def NAME_LENGTH_def PHONE_LENGTH_def alpha_start_def
      book_start_def get_index_by_name_def Let_def)

end
