(* ===== verification/Thread_Pool.thy ===== *)
theory Thread_Pool
  imports Dlist_Heap "HOL-Library.Multiset"
begin

text \<open>
  The thread pool of \<open>threadpool.c\<close> (the two \<open>threadpool.h\<close> files repeat it word for word): a stack of
  tasks under one mutex and one condition variable.  Tasks and workers are nodes of intrusive lists
  in two heaps.  \<open>worker_step\<close> is the next step of one worker thread, from one synchronisation point to
  the next; \<open>push_task\<close> is the critical section of \<open>nThreadPoolPushTask\<close>; \<open>destroy_step\<close> runs
  \<open>nThreadPoolDestory\<close> statement by statement, because its loop writes \<open>terminate\<close> without the mutex.
  \<open>nThreadPoolCreate\<close> is one step: a worker whose \<open>terminate\<close> byte was set in the block that \<open>malloc\<close> returned could free its node
  before \<open>LIST_INSERT\<close> links it, which is left out; such workers leave after the creation.
  \<open>pool_step\<close> is the interleaving of all of them.  A thread that waits is \<open>Blocked\<close>; touching freed
  memory or a destroyed mutex is \<open>Undefined\<close>.
\<close>

section \<open>State\<close>

datatype 's outcome = Blocked | Undefined | Step 's

datatype pc = Locking | Holding | Waiting | Running nat | Gone

datatype main_pc = Serving | Marking nat | Advancing nat | Broadcasting | Clearing | Ended

text \<open>The payload of a worker node is its \<open>terminate\<close> flag.  \<open>pushed\<close> and \<open>ran\<close> record the history.\<close>

record 't tpool =
  t_mem :: "'t heap"
  tasks :: nat
  w_mem :: "bool heap"
  workers :: nat
  mutex :: "nat option"
  destroyed :: bool
  threads :: "nat list"
  pcs :: "nat \<Rightarrow> pc"
  main_pc :: main_pc
  pushed :: "'t list"
  ran :: "'t list"

section \<open>The operations\<close>

text \<open>One pass of the loop of \<open>nThreadPoolCallback\<close>: take the mutex; wait, leave, or take the first
  task; run it.  Waking from the wait means taking the mutex again and testing again.\<close>

definition worker_step :: "nat \<Rightarrow> 't tpool \<Rightarrow> 't tpool outcome" where
  "worker_step w s =
     (if w \<notin> set (threads s) then Blocked
      else case pcs s w of
        Locking \<Rightarrow>
          if destroyed s then Undefined
          else if mutex s = None then Step (s\<lparr>mutex := Some w, pcs := (pcs s)(w := Holding)\<rparr>)
          else Blocked
      | Holding \<Rightarrow>
          (case w_mem s w of
             None \<Rightarrow> Undefined
           | Some n \<Rightarrow>
               if tasks s = 0 \<and> \<not> n_data n then Step (s\<lparr>mutex := None, pcs := (pcs s)(w := Waiting)\<rparr>)
               else if n_data n then
                 Step (s\<lparr>mutex := None, w_mem := (w_mem s)(w := None), pcs := (pcs s)(w := Gone)\<rparr>)
               else (case LIST_REMOVE (tasks s) (tasks s) (t_mem s) of
                   None \<Rightarrow> Undefined
                 | Some (h, l) \<Rightarrow>
                     Step (s\<lparr>t_mem := h, tasks := l, mutex := None, pcs := (pcs s)(w := Running (tasks s))\<rparr>)))
      | Waiting \<Rightarrow> Blocked
      | Running t \<Rightarrow>
          (case t_mem s t of
             None \<Rightarrow> Undefined
           | Some n \<Rightarrow> Step (s\<lparr>t_mem := (t_mem s)(t := None), ran := ran s @ [n_data n], pcs := (pcs s)(w := Locking)\<rparr>))
      | Gone \<Rightarrow> Blocked)"

text \<open>\<open>pthread_cond_signal\<close> wakes one waiter, of the scheduler's choice, if there is one.\<close>

definition cond_signal :: "nat \<Rightarrow> 't tpool \<Rightarrow> 't tpool" where
  "cond_signal w s = (if w \<in> set (threads s) \<and> pcs s w = Waiting then s\<lparr>pcs := (pcs s)(w := Locking)\<rparr> else s)"

definition signal_ok :: "nat \<Rightarrow> 't tpool \<Rightarrow> bool" where
  "signal_ok w s \<longleftrightarrow> (w \<in> set (threads s) \<and> pcs s w = Waiting) \<or> (\<forall>v\<in>set (threads s). pcs s v \<noteq> Waiting)"

definition cond_broadcast :: "'t tpool \<Rightarrow> 't tpool" where
  "cond_broadcast s = s\<lparr>pcs := (\<lambda>w. if w \<in> set (threads s) \<and> pcs s w = Waiting then Locking else pcs s w)\<rparr>"

definition nThreadPoolPushTask :: "nat \<Rightarrow> nat \<Rightarrow> 't tpool \<Rightarrow> 't tpool outcome" where
  "nThreadPoolPushTask task k s =
     (if destroyed s then Undefined
      else if mutex s \<noteq> None then Blocked
      else case LIST_INSERT task (tasks s) (t_mem s) of
        None \<Rightarrow> Undefined
      | Some (h, l) \<Rightarrow> Step (cond_signal k (s\<lparr>t_mem := h, tasks := l\<rparr>)))"

text \<open>A round of the loop of \<open>main\<close>: allocate a task, fill it, push it.\<close>

definition push_new :: "nat \<Rightarrow> 't \<Rightarrow> nat \<Rightarrow> 't tpool \<Rightarrow> 't tpool outcome" where
  "push_new a v k s =
     nThreadPoolPushTask a k
       (s\<lparr>t_mem := (t_mem s)(a \<mapsto> \<lparr>n_data = v, n_next = 0, n_prev = 0\<rparr>), pushed := pushed s @ [v]\<rparr>)"

text \<open>
  \<open>nThreadPoolCreate\<close>.  Each element of \<open>cs\<close> is one round of its loop: the address \<open>malloc\<close> gives (0 when
  it fails), the byte of \<open>terminate\<close> that \<open>memset (worker, 0, sizeof (worker))\<close> leaves alone (it clears the 8 bytes
  of a pointer, that is, only \<open>threadid\<close>), and whether \<open>pthread_create\<close> succeeds.  The workers started
  meanwhile find no task, so the loop is one step.
\<close>

fun create_loop :: "(nat \<times> bool \<times> bool) list \<Rightarrow> 't tpool \<Rightarrow> (int \<times> 't tpool) option" where
  "create_loop [] s = Some (0, s)"
| "create_loop ((a, junk, ok) # cs) s =
     (if a = 0 then Some (-2, s)
      else if \<not> ok then Some (-3, s)
      else case LIST_INSERT a (workers s) ((w_mem s)(a \<mapsto> \<lparr>n_data = junk, n_next = 0, n_prev = 0\<rparr>)) of
        None \<Rightarrow> None
      | Some (h, l) \<Rightarrow>
          create_loop cs (s\<lparr>w_mem := h, workers := l, threads := a # threads s, pcs := (pcs s)(a := Locking)\<rparr>))"

definition pool_blank :: "'t tpool" where
  "pool_blank = \<lparr>t_mem = (\<lambda>_. None), tasks = 0, w_mem = (\<lambda>_. None), workers = 0, mutex = None, destroyed = False,
     threads = [], pcs = (\<lambda>_. Gone), main_pc = Serving, pushed = [], ran = []\<rparr>"

definition nThreadPoolCreate :: "int \<Rightarrow> (nat \<times> bool \<times> bool) list \<Rightarrow> (int \<times> 't tpool) option" where
  "nThreadPoolCreate numWorkers cs =
     (let n = (if numWorkers < 1 then 1 else nat numWorkers) in create_loop (take n cs) pool_blank)"

text \<open>\<open>nThreadPoolDestory\<close>, one statement at a time.\<close>

definition destroy_step :: "'t tpool \<Rightarrow> 't tpool outcome" where
  "destroy_step s = (case main_pc s of
      Serving \<Rightarrow> Step (s\<lparr>main_pc := (if workers s \<noteq> 0 then Marking (workers s) else Broadcasting)\<rparr>)
    | Marking w \<Rightarrow>
        (case w_mem s w of
           None \<Rightarrow> Undefined
         | Some n \<Rightarrow> Step (s\<lparr>w_mem := (w_mem s)(w \<mapsto> n\<lparr>n_data := True\<rparr>), main_pc := Advancing w\<rparr>))
    | Advancing w \<Rightarrow>
        (case w_mem s w of
           None \<Rightarrow> Undefined
         | Some n \<Rightarrow> Step (s\<lparr>main_pc := (if n_next n \<noteq> 0 then Marking (n_next n) else Broadcasting)\<rparr>))
    | Broadcasting \<Rightarrow>
        if mutex s \<noteq> None then Blocked else Step ((cond_broadcast s)\<lparr>main_pc := Clearing\<rparr>)
    | Clearing \<Rightarrow> Step (s\<lparr>workers := 0, tasks := 0, destroyed := True, main_pc := Ended\<rparr>)
    | Ended \<Rightarrow> Blocked)"

inductive pool_step :: "'t tpool \<Rightarrow> 't tpool \<Rightarrow> bool" where
  work: "worker_step w s = Step s' \<Longrightarrow> pool_step s s'"
| wakeup: "w \<in> set (threads s) \<Longrightarrow> pcs s w = Waiting \<Longrightarrow> pool_step s (s\<lparr>pcs := (pcs s)(w := Locking)\<rparr>)"
| push: "main_pc s = Serving \<Longrightarrow> a \<noteq> 0 \<Longrightarrow> t_mem s a = None \<Longrightarrow> signal_ok k s \<Longrightarrow> push_new a v k s = Step s' \<Longrightarrow> pool_step s s'"
| destroy: "destroy_step s = Step s' \<Longrightarrow> pool_step s s'"

inductive_cases pool_stepE: "pool_step s s'"

inductive pool_run :: "'t tpool \<Rightarrow> 't tpool \<Rightarrow> bool" for s0 where
  run_refl: "pool_run s0 s0"
| run_step: "pool_run s0 s \<Longrightarrow> pool_step s s' \<Longrightarrow> pool_run s0 s'"

section \<open>The invariant\<close>

definition run_of :: "pc \<Rightarrow> nat list" where
  "run_of p = (case p of Running t \<Rightarrow> [t] | _ \<Rightarrow> [])"

definition running :: "'t tpool \<Rightarrow> nat multiset" where
  "running s = mset (concat (map (run_of \<circ> pcs s) (threads s)))"

definition payload :: "'t heap \<Rightarrow> nat \<Rightarrow> 't" where
  "payload h t = the (data_at h t)"

text \<open>Every task pushed is pending, running, run, or lost to the destruction of the pool, once.\<close>

definition tasks_at :: "nat list \<Rightarrow> 't list \<Rightarrow> 't multiset \<Rightarrow> 't tpool \<Rightarrow> bool" where
  "tasks_at xs vs lost s \<longleftrightarrow> dl.holds (t_mem s) (tasks s) xs vs \<and>
     (\<forall>t. count (mset xs + running s) t \<le> 1) \<and> (\<forall>t\<in>#running s. t_mem s t \<noteq> None) \<and>
     mset (pushed s) = mset vs + image_mset (payload (t_mem s)) (running s) + mset (ran s) + lost \<and>
     (main_pc s \<noteq> Ended \<longrightarrow> lost = {#})"

definition pool_inv :: "'t tpool \<Rightarrow> bool" where
  "pool_inv s \<longleftrightarrow> distinct (threads s) \<and> (\<forall>w\<in>set (threads s). mutex s = Some w \<longleftrightarrow> pcs s w = Holding) \<and>
     (\<forall>w. mutex s = Some w \<longrightarrow> w \<in> set (threads s)) \<and> (\<exists>xs vs lost. tasks_at xs vs lost s)"

lemma pool_invI:
  "distinct (threads s) \<Longrightarrow> \<forall>w\<in>set (threads s). mutex s = Some w \<longleftrightarrow> pcs s w = Holding \<Longrightarrow>
   \<forall>w. mutex s = Some w \<longrightarrow> w \<in> set (threads s) \<Longrightarrow> tasks_at xs vs lost s \<Longrightarrow> pool_inv s"
  unfolding pool_inv_def by blast

lemma running_upd:
  assumes "distinct (threads s)" and "w \<in> set (threads s)"
  shows "mset (concat (map (run_of \<circ> (pcs s)(w := p)) (threads s))) + mset (run_of (pcs s w)) =
    running s + mset (run_of p)"
proof -
  have "mset (concat (map (run_of \<circ> (f)(w := p)) ts)) + mset (run_of (f w)) =
      mset (concat (map (run_of \<circ> f) ts)) + mset (run_of p)"
    if "distinct ts" "w \<in> set ts" for f ts
    using that
  proof (induction ts)
    case (Cons t ts)
    show ?case
    proof (cases "t = w")
      case True
      then have *: "map (run_of \<circ> f(w := p)) ts = map (run_of \<circ> f) ts" using Cons.prems by auto
      show ?thesis
        unfolding list.map concat.simps mset_append * by (simp add: True)
    next
      case False
      then show ?thesis using Cons by (simp add: add.assoc)
    qed
  qed simp
  then show ?thesis using assms by (simp add: running_def)
qed

lemma tasks_at_cong:
  assumes "tasks_at xs vs lost s" and "t_mem s' = t_mem s" and "tasks s' = tasks s" and "running s' = running s"
    and "pushed s' = pushed s" and "ran s' = ran s" and "main_pc s' = Ended \<Longrightarrow> main_pc s = Ended \<or> True"
    and "main_pc s' \<noteq> Ended \<Longrightarrow> main_pc s \<noteq> Ended"
  shows "tasks_at xs vs lost s'"
  using assms by (auto simp: tasks_at_def)

lemma running_pc:
  assumes "distinct (threads s)" and "w \<in> set (threads s)" and "run_of (pcs s w) = []" and "run_of p = []"
    and "threads s' = threads s" and "pcs s' = (pcs s)(w := p)"
  shows "running s' = running s"
  using running_upd [OF assms(1,2), of p] assms(3-6) by (simp add: running_def)

lemma holds_head:
  assumes "dl.holds h p xs vs" and "p \<noteq> 0"
  obtains ys v ws where "xs = p # ys" "vs = v # ws"
proof -
  have r: "is_list h p xs" and m: "map (data_at h) xs = map Some vs" using assms by (auto simp: dl.holds_def)
  then obtain x ys where x: "xs = x # ys" using assms(2) by (cases xs) (auto simp: is_list_def)
  have "p = x" using dl.head [OF r] x by simp
  moreover obtain v ws where "vs = v # ws" using m x by (cases vs) auto
  ultimately show thesis using that x by blast
qed

lemma pool_inv_worker:
  assumes i: "pool_inv s" and s: "worker_step w s = Step s'"
  shows "pool_inv s'"
proof -
  obtain xs vs lost where t: "tasks_at xs vs lost s" and d: "distinct (threads s)"
    and m: "\<forall>w\<in>set (threads s). mutex s = Some w \<longleftrightarrow> pcs s w = Holding" "\<forall>w. mutex s = Some w \<longrightarrow> w \<in> set (threads s)"
    using i by (auto simp: pool_inv_def)
  have w: "w \<in> set (threads s)" using s by (auto simp: worker_step_def split: if_splits)
  show ?thesis
  proof (cases "pcs s w")
    case Locking
    then have s': "s' = s\<lparr>mutex := Some w, pcs := (pcs s)(w := Holding)\<rparr>" and "mutex s = None"
      using s w by (auto simp: worker_step_def split: if_splits)
    have "tasks_at xs vs lost s'"
      by (rule tasks_at_cong [OF t]) (use running_pc [OF d w, of Holding s'] s' Locking in \<open>auto simp: run_of_def\<close>)
    then show ?thesis
      using m \<open>mutex s = None\<close> s' d w by (intro pool_invI [of s' xs vs lost]) auto
  next
    case Holding
    then have mw: "mutex s = Some w" using m w by blast
    obtain n where n: "w_mem s w = Some n"
      using s w Holding by (cases "w_mem s w") (auto simp: worker_step_def)
    consider (wait) "s' = s\<lparr>mutex := None, pcs := (pcs s)(w := Waiting)\<rparr>"
      | (leave) "s' = s\<lparr>mutex := None, w_mem := (w_mem s)(w := None), pcs := (pcs s)(w := Gone)\<rparr>"
      | (take) h l where "tasks s \<noteq> 0" "LIST_REMOVE (tasks s) (tasks s) (t_mem s) = Some (h, l)"
        "s' = s\<lparr>t_mem := h, tasks := l, mutex := None, pcs := (pcs s)(w := Running (tasks s))\<rparr>"
      using s w Holding n by (auto simp: worker_step_def split: if_splits option.splits prod.splits)
    then show ?thesis
    proof cases
      case wait
      have "tasks_at xs vs lost s'"
        by (rule tasks_at_cong [OF t]) (use running_pc [OF d w, of Waiting s'] wait Holding in \<open>auto simp: run_of_def\<close>)
      then show ?thesis using m mw wait d by (intro pool_invI [of s' xs vs lost]) auto
    next
      case leave
      have "tasks_at xs vs lost s'"
        by (rule tasks_at_cong [OF t]) (use running_pc [OF d w, of Gone s'] leave Holding in \<open>auto simp: run_of_def\<close>)
      then show ?thesis using m mw leave d by (intro pool_invI [of s' xs vs lost]) auto
    next
      case take
      have h: "dl.holds (t_mem s) (tasks s) xs vs" using t by (simp add: tasks_at_def)
      obtain ys v ws where x: "xs = tasks s # ys" "vs = v # ws" using holds_head [OF h take(1)] .
      have h': "dl.holds h l ys ws" "only_links (set xs) (t_mem s) h" "data_at (t_mem s) (tasks s) = Some v"
        using dl.holds_pop [of "t_mem s" "tasks s" xs v ws] h x take(2) by auto
      have r: "running s' = running s + {#tasks s#}"
        using running_upd [OF d w, of "Running (tasks s)"] take(3) Holding by (simp add: running_def run_of_def)
      have p: "payload h = payload (t_mem s)" using h'(2) by (auto simp: payload_def only_links_def)
      have a: "\<exists>n. h y = Some n" if "\<exists>n. t_mem s y = Some n" for y
      proof -
        have "data_at h y = data_at (t_mem s) y" using h'(2) by (simp add: only_links_def)
        then show ?thesis using that by (auto simp: data_at_def)
      qed
      have "tasks_at ys ws lost s'"
        unfolding tasks_at_def
      proof (intro conjI)
        show "dl.holds (t_mem s') (tasks s') ys ws" using h' take(3) by simp
        show "\<forall>t. count (mset ys + running s') t \<le> 1"
          using t x r by (auto simp: tasks_at_def)
        show "\<forall>t\<in>#running s'. t_mem s' t \<noteq> None"
          using t r take(3) a h'(3) by (auto simp: tasks_at_def data_at_def)
        show "mset (pushed s') = mset ws + image_mset (payload (t_mem s')) (running s') + mset (ran s') + lost"
          using t x r take(3) p h'(3) by (simp add: tasks_at_def payload_def)
        show "main_pc s' \<noteq> Ended \<longrightarrow> lost = {#}" using t take(3) by (simp add: tasks_at_def)
      qed
      then show ?thesis using m mw take(3) d by (intro pool_invI [of s' ys ws lost]) auto
    qed
  next
    case Waiting
    then show ?thesis using s w by (simp add: worker_step_def)
  next
    case (Running k)
    then obtain n where n: "t_mem s k = Some n"
      "s' = s\<lparr>t_mem := (t_mem s)(k := None), ran := ran s @ [n_data n], pcs := (pcs s)(w := Locking)\<rparr>"
      using s w by (auto simp: worker_step_def split: option.splits)
    have r: "running s = running s' + {#k#}"
      using running_upd [OF d w, of Locking] n(2) Running by (simp add: running_def run_of_def)
    have nk: "k \<notin> set xs" "k \<notin># running s'"
    proof -
      have "count (mset xs + running s) k \<le> 1" using t by (simp add: tasks_at_def)
      then show "k \<notin> set xs" "k \<notin># running s'"
        using r by (simp_all add: count_eq_zero_iff [symmetric])
    qed
    have im: "image_mset (payload (t_mem s')) (running s') = image_mset (payload (t_mem s)) (running s')"
      by (rule image_mset_cong) (use nk(2) n(2) in \<open>auto simp: payload_def data_at_def\<close>)
    have "tasks_at xs vs lost s'"
      unfolding tasks_at_def
    proof (intro conjI)
      show "dl.holds (t_mem s') (tasks s') xs vs"
        using t n(2) nk(1) by (auto simp: tasks_at_def intro: holds_upd)
      show "\<forall>t. count (mset xs + running s') t \<le> 1"
      proof
        fix u
        have "count (mset xs + running s) u \<le> 1" using t by (simp add: tasks_at_def)
        moreover have "count (running s') u \<le> count (running s) u" using r by simp
        ultimately show "count (mset xs + running s') u \<le> 1" by simp
      qed
      show "\<forall>t\<in>#running s'. t_mem s' t \<noteq> None"
        using t r n(2) nk(2) by (auto simp: tasks_at_def)
      show "mset (pushed s') = mset vs + image_mset (payload (t_mem s')) (running s') + mset (ran s') + lost"
        using t r im n by (simp add: tasks_at_def payload_def data_at_def)
      show "main_pc s' \<noteq> Ended \<longrightarrow> lost = {#}" using t n(2) by (simp add: tasks_at_def)
    qed
    moreover have "mutex s \<noteq> Some w" using m w Running by auto
    ultimately show ?thesis using m n(2) d by (intro pool_invI [of s' xs vs lost]) auto
  next
    case Gone
    then show ?thesis using s w by (simp add: worker_step_def)
  qed
qed

lemma pool_inv_wake:
  assumes i: "pool_inv s" and w: "w \<in> set (threads s)" "pcs s w = Waiting"
  shows "pool_inv (s\<lparr>pcs := (pcs s)(w := Locking)\<rparr>)"
proof -
  obtain xs vs lost where t: "tasks_at xs vs lost s" and d: "distinct (threads s)"
    and m: "\<forall>w\<in>set (threads s). mutex s = Some w \<longleftrightarrow> pcs s w = Holding" "\<forall>w. mutex s = Some w \<longrightarrow> w \<in> set (threads s)"
    using i by (auto simp: pool_inv_def)
  let ?s = "s\<lparr>pcs := (pcs s)(w := Locking)\<rparr>"
  have "tasks_at xs vs lost ?s"
    by (rule tasks_at_cong [OF t]) (use running_pc [OF d w(1), of Locking ?s] w in \<open>auto simp: run_of_def\<close>)
  then show ?thesis using m d w by (intro pool_invI [of ?s xs vs lost]) auto
qed

lemma pool_inv_signal: "pool_inv s \<Longrightarrow> pool_inv (cond_signal k s)"
  by (simp add: cond_signal_def pool_inv_wake)

lemma pool_inv_broadcast:
  assumes i: "pool_inv s"
  shows "pool_inv (cond_broadcast s)"
proof -
  obtain xs vs lost where t: "tasks_at xs vs lost s" and d: "distinct (threads s)"
    and m: "\<forall>w\<in>set (threads s). mutex s = Some w \<longleftrightarrow> pcs s w = Holding" "\<forall>w. mutex s = Some w \<longrightarrow> w \<in> set (threads s)"
    using i by (auto simp: pool_inv_def)
  have "run_of (pcs (cond_broadcast s) w) = run_of (pcs s w)" for w
    by (simp add: cond_broadcast_def run_of_def)
  then have "running (cond_broadcast s) = running s"
    by (simp add: running_def o_def) (simp add: cond_broadcast_def)
  then have "tasks_at xs vs lost (cond_broadcast s)"
    by (intro tasks_at_cong [OF t]) (auto simp: cond_broadcast_def)
  then show ?thesis
    using m d by (intro pool_invI [of "cond_broadcast s" xs vs lost]) (auto simp: cond_broadcast_def)
qed

lemma payload_alloc: "h a = None \<Longrightarrow> t \<noteq> a \<Longrightarrow> payload (h(a \<mapsto> n)) t = payload h t"
  by (simp add: payload_def data_at_def)

lemma pool_inv_push:
  assumes i: "pool_inv s" and a: "main_pc s = Serving" "a \<noteq> 0" "t_mem s a = None" and s: "push_new a v k s = Step s'"
  shows "pool_inv s' \<and> main_pc s' = Serving \<and> tasks s' = a"
proof -
  obtain xs vs lost where t: "tasks_at xs vs lost s" and d: "distinct (threads s)"
    and m: "\<forall>w\<in>set (threads s). mutex s = Some w \<longleftrightarrow> pcs s w = Holding" "\<forall>w. mutex s = Some w \<longrightarrow> w \<in> set (threads s)"
    using i by (auto simp: pool_inv_def)
  have l: "lost = {#}" and hs: "dl.holds (t_mem s) (tasks s) xs vs" using t a by (auto simp: tasks_at_def)
  let ?h0 = "(t_mem s)(a \<mapsto> \<lparr>n_data = v, n_next = 0, n_prev = 0\<rparr>)"
  have ax: "a \<notin> set xs" using holds_unalloc hs a(3) by blast
  have ar: "a \<notin># running s" using t a(3) by (auto simp: tasks_at_def)
  have "dl.holds ?h0 (tasks s) xs vs" using hs ax by (rule holds_upd)
  then obtain h where h: "LIST_INSERT a (tasks s) ?h0 = Some (h, a)" "dl.holds h a (a # xs) (v # vs)"
    "only_links (set (a # xs)) ?h0 h"
    using dl.holds_insert [of ?h0 "tasks s" xs vs a v] ax a(2) by (auto simp: data_at_def)
  let ?s = "s\<lparr>pushed := pushed s @ [v], t_mem := h, tasks := a\<rparr>"
  have s': "s' = cond_signal k ?s"
    using s h(1) by (auto simp: push_new_def nThreadPoolPushTask_def split: if_splits)
  have r: "running ?s = running s" by (simp add: running_def)
  have da: "data_at h t = data_at ?h0 t" for t using h(3) by (simp add: only_links_def)
  then have "payload h t = payload (t_mem s) t" if "t \<in># running s" for t
    using ar that a(3) by (metis payload_alloc payload_def)
  then have im: "image_mset (payload h) (running s) = image_mset (payload (t_mem s)) (running s)"
    by (intro image_mset_cong) auto
  have "tasks_at (a # xs) (v # vs) {#} ?s"
    unfolding tasks_at_def r
  proof (intro conjI)
    show "dl.holds (t_mem ?s) (tasks ?s) (a # xs) (v # vs)" using h(2) by simp
    show "\<forall>t. count (mset (a # xs) + running s) t \<le> 1"
    proof
      fix u
      have "count (mset xs + running s) u \<le> 1" using t by (simp add: tasks_at_def)
      moreover have "count (mset xs) a = 0" "count (running s) a = 0" using ax ar by (simp_all add: count_eq_zero_iff)
      ultimately show "count (mset (a # xs) + running s) u \<le> 1" by (cases "a = u") auto
    qed
    show "\<forall>t\<in>#running s. t_mem ?s t \<noteq> None"
    proof
      fix t' assume t': "t' \<in># running s"
      then have "t_mem s t' \<noteq> None" using t by (auto simp: tasks_at_def)
      then have "data_at ?h0 t' \<noteq> None" by (auto simp: data_at_def)
      then show "t_mem ?s t' \<noteq> None" using da [of t'] by (auto simp: data_at_def)
    qed
    show "mset (pushed ?s) = mset (v # vs) + image_mset (payload (t_mem ?s)) (running s) + mset (ran ?s) + {#}"
      using t l im by (simp add: tasks_at_def)
  qed simp
  then have "pool_inv ?s" using m d by (intro pool_invI [of ?s "a # xs" "v # vs" "{#}"]) auto
  then show ?thesis using s' a pool_inv_signal [of ?s k] by (auto simp: cond_signal_def)
qed

lemma pool_inv_destroy:
  assumes i: "pool_inv s" and s: "destroy_step s = Step s'"
  shows "pool_inv s' \<and> main_pc s' \<noteq> Serving"
proof (cases "main_pc s = Clearing")
  case True
  obtain xs vs lost where t: "tasks_at xs vs lost s" and d: "distinct (threads s)"
    and m: "\<forall>w\<in>set (threads s). mutex s = Some w \<longleftrightarrow> pcs s w = Holding" "\<forall>w. mutex s = Some w \<longrightarrow> w \<in> set (threads s)"
    using i by (auto simp: pool_inv_def)
  have s': "s' = s\<lparr>workers := 0, tasks := 0, destroyed := True, main_pc := Ended\<rparr>"
    using s True by (simp add: destroy_step_def)
  have r: "running s' = running s" by (simp add: s' running_def)
  have "tasks_at [] [] (lost + mset vs) s'"
    unfolding tasks_at_def r
  proof (intro conjI)
    show "\<forall>t. count (mset [] + running s) t \<le> 1"
    proof
      fix u
      have "count (mset xs + running s) u \<le> 1" using t by (simp add: tasks_at_def)
      then show "count (mset [] + running s) u \<le> 1" by simp
    qed
  qed (use t s' in \<open>auto simp: tasks_at_def\<close>)
  then have "pool_inv s'" by (rule pool_invI [rotated 3]) (use m d s' in auto)
  then show ?thesis using s' by simp
next
  case False
  have c: "pool_inv (s0\<lparr>main_pc := p\<rparr>)" if "pool_inv s0" "main_pc s0 \<noteq> Ended" "p \<noteq> Ended" for s0 :: "'a tpool" and p
    using that by (auto simp: pool_inv_def tasks_at_def running_def)
  have u: "pool_inv (s0\<lparr>w_mem := h\<rparr>)" if "pool_inv s0" for s0 :: "'a tpool" and h
    using that by (auto simp: pool_inv_def tasks_at_def running_def)
  have b: "main_pc (cond_broadcast s) = main_pc s" by (simp add: cond_broadcast_def)
  show ?thesis
    using s False i c [OF i] c [OF u [OF i]] c [OF pool_inv_broadcast [OF i]] b
    by (auto simp: destroy_step_def split: main_pc.splits option.splits if_splits)
qed

text \<open>While \<open>main\<close> serves, no worker is told to stop and no wakeup is lost.  The workers of \<open>J\<close> started with the byte of \<open>terminate\<close> set by chance: they never
  wait and never take a task, and leave as soon as they have the mutex.\<close>

definition worker_ok :: "nat set \<Rightarrow> 't tpool \<Rightarrow> nat \<Rightarrow> bool" where
  "worker_ok J s w \<longleftrightarrow>
     (if w \<in> J then pcs s w = Gone \<or> (pcs s w = Locking \<or> pcs s w = Holding) \<and> data_at (w_mem s) w = Some True
      else pcs s w \<noteq> Gone \<and> data_at (w_mem s) w = Some False)"

definition serving :: "nat set \<Rightarrow> 't tpool \<Rightarrow> bool" where
  "serving J s \<longleftrightarrow> main_pc s = Serving \<and> \<not> destroyed s \<and> threads s \<noteq> [] \<and> (\<forall>w\<in>set (threads s). worker_ok J s w) \<and>
     (tasks s \<noteq> 0 \<longrightarrow> \<not> set (threads s) \<subseteq> J \<longrightarrow> (\<exists>w\<in>set (threads s) - J. pcs s w \<noteq> Waiting))"

lemma data_at_some: "data_at h w = Some d \<longleftrightarrow> (\<exists>n. h w = Some n \<and> n_data n = d)"
  by (auto simp: data_at_def)

lemma serving_worker:
  assumes "serving J s" and s: "worker_step w s = Step s'"
  shows "serving J s'"
proof -
  have w: "w \<in> set (threads s)" using s by (auto simp: worker_step_def split: if_splits)
  then have ok: "worker_ok J s w" using assms by (simp add: serving_def)
  show ?thesis
  proof (cases "w \<in> J")
    case True
    then have "pcs s w = Locking \<or> pcs s w = Holding \<and> data_at (w_mem s) w = Some True"
      using ok s w by (auto simp: worker_ok_def worker_step_def split: if_splits)
    then show ?thesis
    proof
      assume l: "pcs s w = Locking"
      then have "s' = s\<lparr>mutex := Some w, pcs := (pcs s)(w := Holding)\<rparr>" using s w by (auto simp: worker_step_def split: if_splits)
      then show ?thesis using assms(1) True l by (auto simp: serving_def worker_ok_def)
    next
      assume h: "pcs s w = Holding \<and> data_at (w_mem s) w = Some True"
      then have "s' = s\<lparr>mutex := None, w_mem := (w_mem s)(w := None), pcs := (pcs s)(w := Gone)\<rparr>"
        using s w by (auto simp: worker_step_def data_at_some split: if_splits)
      then show ?thesis using assms(1) True by (auto simp: serving_def worker_ok_def data_at_def)
    qed
  next
    case False
    then obtain n where n: "w_mem s w = Some n" "\<not> n_data n" "pcs s w \<noteq> Gone" using ok by (auto simp: worker_ok_def data_at_some)
    show ?thesis
    proof (cases "pcs s w = Holding \<and> tasks s = 0")
      case True
      then have "s' = s\<lparr>mutex := None, pcs := (pcs s)(w := Waiting)\<rparr>" using s w n by (simp add: worker_step_def)
      then show ?thesis using assms(1) True False by (auto simp: serving_def worker_ok_def)
    next
      case go: False
      then have p: "main_pc s' = main_pc s" "destroyed s' = destroyed s" "threads s' = threads s" "w_mem s' = w_mem s"
        "\<exists>p. pcs s' = (pcs s)(w := p) \<and> p \<noteq> Gone \<and> p \<noteq> Waiting"
        using s w n by (auto simp: worker_step_def split: if_splits pc.splits option.splits)
      then obtain q where q: "pcs s' = (pcs s)(w := q)" "q \<noteq> Gone" "q \<noteq> Waiting" by blast
      have "\<forall>v\<in>set (threads s'). worker_ok J s' v" using assms(1) p(3,4) q False by (auto simp: serving_def worker_ok_def)
      moreover have "\<exists>v\<in>set (threads s') - J. pcs s' v \<noteq> Waiting" using w False p(3) q by (intro bexI [of _ w]) auto
      ultimately show ?thesis using assms(1) p(1-3) by (auto simp: serving_def)
    qed
  qed
qed

lemma serving_wake:
  assumes "serving J s" "w \<in> set (threads s)" "pcs s w = Waiting"
  shows "serving J (s\<lparr>pcs := (pcs s)(w := Locking)\<rparr>)" and "w \<notin> J"
proof -
  have "worker_ok J s w" using assms by (simp add: serving_def)
  then show "w \<notin> J" using assms(3) by (auto simp: worker_ok_def split: if_splits)
  then show "serving J (s\<lparr>pcs := (pcs s)(w := Locking)\<rparr>)" using assms by (auto simp: serving_def worker_ok_def)
qed

lemma serving_push:
  assumes i: "serving J s" and k: "signal_ok k s" and s: "push_new a v k s = Step s'"
  shows "serving J s'"
proof -
  obtain h l where s': "s' = cond_signal k (s\<lparr>pushed := pushed s @ [v], t_mem := h, tasks := l\<rparr>)"
    using s by (auto simp: push_new_def nThreadPoolPushTask_def split: if_splits option.splits)
  show ?thesis
  proof (cases "k \<in> set (threads s) \<and> pcs s k = Waiting")
    case True
    then have "k \<notin> J" using serving_wake(2) [OF i] by blast
    then show ?thesis using i s' True by (auto simp: serving_def worker_ok_def cond_signal_def)
  next
    case False
    then have w: "\<forall>v\<in>set (threads s). pcs s v \<noteq> Waiting" using k by (auto simp: signal_ok_def)
    then have "\<not> set (threads s) \<subseteq> J \<longrightarrow> (\<exists>w\<in>set (threads s) - J. pcs s w \<noteq> Waiting)" by blast
    then show ?thesis using i s' False by (auto simp: serving_def worker_ok_def cond_signal_def)
  qed
qed

definition pool_ok :: "nat set \<Rightarrow> 't tpool \<Rightarrow> bool" where
  "pool_ok J s \<longleftrightarrow> pool_inv s \<and> (main_pc s = Serving \<longrightarrow> serving J s)"

lemma pool_step_ok: "pool_step s s' \<Longrightarrow> pool_ok J s \<Longrightarrow> pool_ok J s'"
proof (induction rule: pool_step.induct)
  case (work w s s')
  have "main_pc s' = main_pc s"
    using work(1) by (auto simp: worker_step_def split: if_splits pc.splits option.splits)
  then show ?case using work pool_inv_worker serving_worker by (auto simp: pool_ok_def)
next
  case (wakeup w s)
  then show ?case using pool_inv_wake [of s w] serving_wake [of J s w] by (auto simp: pool_ok_def)
next
  case (push s a k v s')
  then show ?case using pool_inv_push [of s a v k s'] serving_push [of J s k a v s'] by (auto simp: pool_ok_def)
next
  case (destroy s s')
  then show ?case using pool_inv_destroy by (auto simp: pool_ok_def)
qed

lemma pool_run_ok: "pool_run s0 s \<Longrightarrow> pool_ok J s0 \<Longrightarrow> pool_ok J s"
  by (induction rule: pool_run.induct) (auto intro: pool_step_ok)

lemma pool_can_work:
  assumes "pool_ok J s" and "main_pc s = Serving" and "tasks s \<noteq> 0"
  shows "(\<exists>w s'. worker_step w s = Step s') \<or> (\<forall>w\<in>set (threads s). w \<in> J \<and> pcs s w = Gone)"
proof -
  have i: "pool_inv s" and v: "serving J s" using assms by (auto simp: pool_ok_def)
  obtain xs vs lost where t: "tasks_at xs vs lost s"
    and m: "\<forall>w\<in>set (threads s). mutex s = Some w \<longleftrightarrow> pcs s w = Holding" "\<forall>w. mutex s = Some w \<longrightarrow> w \<in> set (threads s)"
    using i by (auto simp: pool_inv_def)
  have wok: "worker_ok J s w" if "w \<in> set (threads s)" for w using v that by (simp add: serving_def)
  have hold: "\<exists>s'. worker_step w s = Step s'" if w: "w \<in> set (threads s)" "pcs s w = Holding" for w
  proof -
    have h: "dl.holds (t_mem s) (tasks s) xs vs" using t by (simp add: tasks_at_def)
    obtain ys v ws where x: "xs = tasks s # ys" "vs = v # ws" using holds_head [OF h assms(3)] .
    obtain h' l where r: "LIST_REMOVE (tasks s) (tasks s) (t_mem s) = Some (h', l)"
      using dl.holds_pop [of "t_mem s" "tasks s" xs v ws] h x by auto
    obtain n where "w_mem s w = Some n" using wok [OF w(1)] w(2) by (auto simp: worker_ok_def data_at_some split: if_splits)
    then show ?thesis using w r assms(3) by (simp add: worker_step_def)
  qed
  have able: "\<exists>u s'. worker_step u s = Step s'" if w: "w \<in> set (threads s)" "pcs s w \<noteq> Waiting" "pcs s w \<noteq> Gone" for w
  proof (cases "pcs s w")
    case Locking
    show ?thesis
    proof (cases "mutex s")
      case None
      then show ?thesis using Locking w v by (auto simp: worker_step_def serving_def intro!: exI [of _ w])
    next
      case (Some u)
      then show ?thesis using hold m by blast
    qed
  next
    case Holding
    then show ?thesis using hold w by blast
  next
    case (Running k)
    then have "k \<in># running s" using w by (force simp: running_def run_of_def)
    then obtain n where "t_mem s k = Some n" using t by (auto simp: tasks_at_def)
    then show ?thesis using Running w by (auto simp: worker_step_def intro!: exI [of _ w])
  qed (use w in auto)
  show ?thesis
  proof (cases "set (threads s) \<subseteq> J")
    case True
    then have "pcs s w \<noteq> Waiting" if "w \<in> set (threads s)" for w using wok [OF that] that by (auto simp: worker_ok_def split: if_splits)
    then show ?thesis using able True by blast
  next
    case False
    then obtain w where w: "w \<in> set (threads s)" "w \<notin> J" "pcs s w \<noteq> Waiting" using v assms(3) by (auto simp: serving_def)
    then have "pcs s w \<noteq> Gone" using wok [OF w(1)] by (simp add: worker_ok_def)
    then show ?thesis using able w by blast
  qed
qed

section \<open>Creation\<close>

definition created :: "bool list \<Rightarrow> 't tpool \<Rightarrow> bool" where
  "created js s \<longleftrightarrow> dl.holds (w_mem s) (workers s) (threads s) js \<and> tasks s = 0 \<and> mutex s = None \<and> \<not> destroyed s \<and>
     main_pc s = Serving \<and> (\<forall>w\<in>set (threads s). pcs s w = Locking) \<and> pushed s = [] \<and> ran s = []"

lemma created_blank: "created [] pool_blank"
  by (simp add: created_def pool_blank_def)

definition new_addresses :: "(nat \<times> bool \<times> bool) list \<Rightarrow> bool" where
  "new_addresses cs \<longleftrightarrow> distinct (filter (\<lambda>a. a \<noteq> 0) (map fst cs))"

lemma create_loop_created:
  assumes "created js s" and "distinct (filter (\<lambda>a. a \<noteq> 0) (map fst cs))"
    and "set (threads s) \<inter> set (map fst cs) \<subseteq> {0}"
  shows "\<exists>r s' js'. create_loop cs s = Some (r, s') \<and> created js' s' \<and>
    (r = 0 \<longrightarrow> length (threads s') = length (threads s) + length cs) \<and>
    set (zip (threads s') js') \<subseteq> set (zip (threads s) js) \<union> {(a, j). \<exists>ok. (a, j, ok) \<in> set cs}"
  using assms
proof (induction cs arbitrary: js s)
  case Nil
  then show ?case by auto
next
  case (Cons c cs)
  obtain a junk ok where c: "c = (a, junk, ok)" by (cases c)
  show ?case
  proof (cases "a = 0 \<or> \<not> ok")
    case True
    then show ?thesis using Cons.prems(1) c by auto
  next
    case False
    have w: "dl.holds (w_mem s) (workers s) (threads s) js" using Cons.prems(1) by (simp add: created_def)
    have a: "a \<noteq> 0" "a \<notin> set (threads s)" using False Cons.prems(3) c by auto
    let ?h0 = "(w_mem s)(a \<mapsto> \<lparr>n_data = junk, n_next = 0, n_prev = 0\<rparr>)"
    have "dl.holds ?h0 (workers s) (threads s) js" using w a(2) by (rule holds_upd)
    then obtain h where h: "LIST_INSERT a (workers s) ?h0 = Some (h, a)" "dl.holds h a (a # threads s) (junk # js)"
      using dl.holds_insert [of ?h0 "workers s" "threads s" js a junk] a by (auto simp: data_at_def)
    let ?s = "s\<lparr>w_mem := h, workers := a, threads := a # threads s, pcs := (pcs s)(a := Locking)\<rparr>"
    have "created (junk # js) ?s" using Cons.prems(1) h(2) by (simp add: created_def)
    moreover have "distinct (filter (\<lambda>a. a \<noteq> 0) (map fst cs))" using Cons.prems(2) c by (auto split: if_splits)
    moreover have "a \<notin> fst ` set cs" using Cons.prems(2) c a(1) by (auto split: if_splits)
    then have "set (threads ?s) \<inter> set (map fst cs) \<subseteq> {0}" using Cons.prems(3) c by auto
    ultimately obtain r s' js' where ih: "create_loop cs ?s = Some (r, s')" "created js' s'"
      "r = 0 \<longrightarrow> length (threads s') = length (threads ?s) + length cs"
      "set (zip (threads s') js') \<subseteq> set (zip (threads ?s) (junk # js)) \<union> {(a, j). \<exists>ok. (a, j, ok) \<in> set cs}"
      using Cons.IH by blast
    moreover have "create_loop (c # cs) s = create_loop cs ?s" using False c h(1) by simp
    ultimately show ?thesis using c by auto
  qed
qed

lemma created_inv: "created js s \<Longrightarrow> pool_inv s"
proof -
  assume c: "created js s"
  have "running s = mset (concat (map (\<lambda>w. []) (threads s)))"
    unfolding running_def by (rule arg_cong [where f = "\<lambda>x. mset (concat x)"])
      (use c in \<open>auto simp: created_def run_of_def\<close>)
  then have "running s = {#}" by simp
  then have "tasks_at [] [] {#} s" using c by (simp add: tasks_at_def created_def)
  moreover have "distinct (threads s)"
    using c dl.nodes [of "w_mem s" "workers s" "threads s"] by (auto simp: created_def dl.holds_def)
  ultimately show ?thesis using c by (intro pool_invI) (auto simp: created_def)
qed

lemma created_serving:
  assumes c: "created js s" and t: "threads s \<noteq> []"
  shows "pool_ok {w. data_at (w_mem s) w = Some True} s"
proof -
  have "\<exists>j. data_at (w_mem s) w = Some j" if "w \<in> set (threads s)" for w
  proof -
    have m: "map (data_at (w_mem s)) (threads s) = map Some js" using c by (auto simp: created_def dl.holds_def)
    have "data_at (w_mem s) w \<in> set (map (data_at (w_mem s)) (threads s))" using that by simp
    then show ?thesis unfolding m by auto
  qed
  then have "serving {w. data_at (w_mem s) w = Some True} s" using c t by (fastforce simp: serving_def worker_ok_def created_def)
  then show ?thesis using created_inv [OF c] by (simp add: pool_ok_def)
qed

text \<open>The byte that a worker starts with is the one it was created with.\<close>

lemma created_junk:
  assumes "created js s" "w \<in> set (threads s)" "data_at (w_mem s) w = Some j"
  shows "(w, j) \<in> set (zip (threads s) js)"
proof -
  have m: "map (data_at (w_mem s)) (threads s) = map Some js" using assms(1) by (auto simp: created_def dl.holds_def)
  obtain i where i: "i < length (threads s)" "threads s ! i = w" using assms(2) by (auto simp: in_set_conv_nth)
  have l: "length js = length (threads s)" using arg_cong [OF m, of length] by simp
  have "map (data_at (w_mem s)) (threads s) ! i = map Some js ! i" by (simp add: m)
  then have "js ! i = j" using i l assms(3) by simp
  then show ?thesis using i l by (auto simp: set_zip)
qed

lemma distinct_take_filter: "distinct (filter P (map f xs)) \<Longrightarrow> distinct (filter P (map f (take n xs)))"
  by (metis append_take_drop_id distinct_append filter_append map_append)

lemma create_created:
  fixes s0 :: "'a tpool"
  assumes "nThreadPoolCreate n cs = Some (r, s0)" and "new_addresses cs"
  shows "\<exists>js. created js s0 \<and> set (zip (threads s0) js) \<subseteq> {(a, j). \<exists>ok. (a, j, ok) \<in> set cs} \<and> (r = 0 \<longrightarrow> cs \<noteq> [] \<longrightarrow> threads s0 \<noteq> [])"
proof -
  let ?cs = "take (if n < 1 then 1 else nat n) cs"
  have "distinct (filter (\<lambda>a. a \<noteq> 0) (map fst ?cs))"
    using assms(2) by (simp add: new_addresses_def distinct_take_filter)
  moreover have "set (threads (pool_blank :: 'a tpool)) \<inter> set (map fst ?cs) \<subseteq> {0}" by (simp add: pool_blank_def)
  ultimately obtain r' s' js' where js0: "create_loop ?cs (pool_blank :: 'a tpool) = Some (r', s')" "created js' s'"
    "r' = 0 \<longrightarrow> length (threads s') = length (threads (pool_blank :: 'a tpool)) + length ?cs"
    "set (zip (threads s') js') \<subseteq> set (zip (threads (pool_blank :: 'a tpool)) []) \<union> {(a, j). \<exists>ok. (a, j, ok) \<in> set ?cs}"
    using create_loop_created [OF created_blank [where 'a = 'a], of ?cs] by blast
  moreover have "r' = r" "s' = s0" using js0(1) assms(1) by (simp_all add: nThreadPoolCreate_def Let_def)
  ultimately have js: "created js' s0" "r = 0 \<longrightarrow> length (threads s0) = length ?cs" "set (zip (threads s0) js') \<subseteq> {(a, j). \<exists>ok. (a, j, ok) \<in> set ?cs}"
    by (auto simp: pool_blank_def)
  have "set ?cs \<subseteq> set cs" by (rule set_take_subset)
  then have "set (zip (threads s0) js') \<subseteq> {(a, j). \<exists>ok. (a, j, ok) \<in> set cs}" using js(3) by blast
  moreover have "r = 0 \<Longrightarrow> cs \<noteq> [] \<Longrightarrow> threads s0 \<noteq> []"
    using js(2) by (cases "threads s0"; cases cs) (auto simp: min_def split: if_splits)
  ultimately show ?thesis using js(1) by blast
qed

lemma pool_step_inv: "pool_step s s' \<Longrightarrow> pool_inv s \<Longrightarrow> pool_inv s'"
proof (induction rule: pool_step.induct)
  case (push s a k v s')
  then show ?case using pool_inv_push [of s a v k s'] by auto
next
  case (destroy s s')
  then show ?case using pool_inv_destroy by blast
qed (use pool_inv_worker pool_inv_wake in auto)

lemma pool_step_threads: "pool_step s s' \<Longrightarrow> threads s' = threads s"
  by (induction rule: pool_step.induct)
    (auto simp: worker_step_def push_new_def nThreadPoolPushTask_def cond_signal_def destroy_step_def cond_broadcast_def
      split: if_splits pc.splits main_pc.splits option.splits)

lemma pool_run_threads: "pool_run s0 s \<Longrightarrow> threads s = threads s0"
  by (induction rule: pool_run.induct) (simp_all add: pool_step_threads)

lemma pool_run_inv: "pool_run s0 s \<Longrightarrow> pool_inv s0 \<Longrightarrow> pool_inv s"
  by (induction rule: pool_run.induct) (auto intro: pool_step_inv)

section \<open>Properties\<close>

text \<open>C21: Under every interleaving of workers, pushes, spurious wakeups and the destruction, each task
  given to the thread pool is in exactly one place: on the stack, with one worker, or run once; none
  is lost before the destruction clears the stack.\<close>

theorem pool_conserves:
  assumes "nThreadPoolCreate n cs = Some (r, s0)" and "new_addresses cs" and "pool_run s0 s"
  shows "\<exists>xs vs lost. dl.holds (t_mem s) (tasks s) xs vs \<and>
    mset (pushed s) = mset vs + image_mset (payload (t_mem s)) (running s) + mset (ran s) + lost \<and>
    (main_pc s \<noteq> Ended \<longrightarrow> lost = {#}) \<and> (\<forall>t. count (mset xs + running s) t \<le> 1)"
proof -
  have "pool_inv s0" using create_created [OF assms(1,2)] created_inv by blast
  then have "pool_inv s" using pool_run_inv [OF assms(3)] by blast
  then obtain xs vs lost where "tasks_at xs vs lost s" by (auto simp: pool_inv_def)
  then show ?thesis unfolding tasks_at_def by blast
qed

text \<open>C22: No wakeup is lost.  Once the pool is created, while \<open>main\<close> serves and tasks are on the stack, some worker can take a step, whatever the interleaving so
  far: \<open>pthread_cond_signal\<close> on each push is enough.  The one exception is a pool whose workers have all left, and a worker leaves only when \<open>malloc\<close> gave it a node in which the byte
  of \<open>terminate\<close> was set, which \<open>nThreadPoolCreate\<close> does not clear.\<close>

theorem pool_no_lost_wakeup:
  assumes "nThreadPoolCreate n cs = Some (0, s0)" and "new_addresses cs" and "cs \<noteq> []"
    and "pool_run s0 s" and "main_pc s = Serving" and "tasks s \<noteq> 0"
  shows "(\<exists>w s'. worker_step w s = Step s') \<or>
    (\<forall>w\<in>set (threads s). pcs s w = Gone \<and> (\<exists>ok. (w, True, ok) \<in> set cs))"
proof -
  obtain js where js: "created js s0" "set (zip (threads s0) js) \<subseteq> {(a, j). \<exists>ok. (a, j, ok) \<in> set cs}" "threads s0 \<noteq> []"
    using create_created [OF assms(1,2)] assms(3) by auto
  let ?J = "{w. data_at (w_mem s0) w = Some True}"
  have ok: "pool_ok ?J s" by (rule pool_run_ok [OF assms(4) created_serving [OF js(1,3)]])
  have th: "threads s = threads s0" using pool_run_threads [OF assms(4)] .
  have "\<exists>ok. (w, True, ok) \<in> set cs" if "w \<in> set (threads s)" "w \<in> ?J" for w
    using created_junk [OF js(1), of w True] js(2) that th by auto
  then show ?thesis using pool_can_work [OF ok assms(5,6)] by blast
qed

definition demo_pool :: "int tpool" where
  "demo_pool = (case nThreadPoolCreate 1 [(8, False, True)] of Some (_, s) \<Rightarrow> s | None \<Rightarrow> pool_blank)"

lemma demo_created: "nThreadPoolCreate 1 [(8, False, True)] = Some (0, demo_pool)"
  by (simp add: demo_pool_def nThreadPoolCreate_def pool_blank_def LIST_INSERT_def set_prev_def set_next_def)

lemma demo_push: "\<exists>s. pool_run demo_pool s \<and> tasks s = 4 \<and> main_pc s = Serving \<and> pushed s = [7]"
proof -
  obtain s where s: "push_new 4 7 8 demo_pool = Step s" "main_pc s = Serving" "tasks s = 4" "pushed s = [7]"
    by (simp add: demo_pool_def nThreadPoolCreate_def pool_blank_def push_new_def nThreadPoolPushTask_def LIST_INSERT_def
        set_prev_def set_next_def cond_signal_def)
  have "pool_step demo_pool s"
    by (rule pool_step.push [OF _ _ _ _ s(1)])
      (simp_all add: demo_pool_def nThreadPoolCreate_def pool_blank_def LIST_INSERT_def set_prev_def set_next_def signal_ok_def)
  then show ?thesis using s pool_run.intros by blast
qed

theorem pool_conserves_witness:
  "\<exists>s xs vs lost. pool_run demo_pool s \<and> pushed s = [7] \<and> dl.holds (t_mem s) (tasks s) xs vs \<and>
    mset (pushed s) = mset vs + image_mset (payload (t_mem s)) (running s) + mset (ran s) + lost"
proof -
  obtain s where s: "pool_run demo_pool s" "pushed s = [7]" using demo_push by blast
  have "new_addresses [(8, False, True)]" by (simp add: new_addresses_def)
  then show ?thesis using pool_conserves [OF demo_created _ s(1)] s by blast
qed

theorem pool_no_lost_wakeup_witness:
  "\<exists>s w s'. pool_run demo_pool s \<and> pushed s = [7] \<and> worker_step w s = Step s'"
proof -
  obtain s where s: "pool_run demo_pool s" "pushed s = [7]" "main_pc s = Serving" "tasks s \<noteq> 0" using demo_push by fastforce
  have a: "new_addresses [(8, False, True)]" by (simp add: new_addresses_def)
  have "threads s = [8]" using pool_run_threads [OF s(1)]
    by (simp add: demo_pool_def nThreadPoolCreate_def pool_blank_def LIST_INSERT_def set_prev_def set_next_def)
  then show ?thesis using pool_no_lost_wakeup [OF demo_created a _ s(1,3,4)] s(1,2) by auto
qed

text \<open>A schedule: \<open>Some w\<close> is a step of worker \<open>w\<close>, \<open>None\<close> one of the destruction.\<close>

fun play :: "nat option list \<Rightarrow> 't tpool \<Rightarrow> 't tpool outcome" where
  "play [] s = Step s"
| "play (c # cs) s =
     (case (case c of None \<Rightarrow> destroy_step s | Some w \<Rightarrow> worker_step w s) of
        Step s' \<Rightarrow> play cs s' | Blocked \<Rightarrow> Blocked | Undefined \<Rightarrow> Undefined)"

lemma play_run: "play cs s = Step s' \<Longrightarrow> pool_run s0 s \<Longrightarrow> pool_run s0 s'"
proof (induction cs arbitrary: s)
  case (Cons c cs)
  obtain s1 where s1: "(case c of None \<Rightarrow> destroy_step s | Some w \<Rightarrow> worker_step w s) = Step s1" "play cs s1 = Step s'"
    using Cons.prems(1) by (auto split: outcome.splits)
  have "pool_step s s1"
    using s1(1) by (cases c) (auto intro: pool_step.work pool_step.destroy)
  then have "pool_run s0 s1" by (rule pool_run.run_step [OF Cons.prems(2)])
  then show ?case by (rule Cons.IH [OF s1(2)])
qed simp

text \<open>C23: The destruction races with the workers: there is a schedule in which a worker that is not
  waiting sees the flag, leaves and frees its node before the loop reads its \<open>next\<close>, and one in which
  a worker woken by the broadcast takes the mutex after it was destroyed.  Both are undefined
  behaviour; the workers are never joined.\<close>

theorem destroy_races:
  "(\<exists>s. pool_run demo_pool s \<and> destroy_step s = Undefined) \<and>
   (\<exists>s w. pool_run demo_pool s \<and> worker_step w s = Undefined)"
proof -
  obtain s where s: "play [None, None, Some 8, Some 8] demo_pool = Step s" "destroy_step s = Undefined"
    by (simp add: demo_pool_def nThreadPoolCreate_def pool_blank_def LIST_INSERT_def set_prev_def set_next_def
        worker_step_def destroy_step_def)
  obtain t where t: "play [Some 8, Some 8, None, None, None, None, None] demo_pool = Step t" "worker_step 8 t = Undefined"
    by (simp add: demo_pool_def nThreadPoolCreate_def pool_blank_def LIST_INSERT_def set_prev_def set_next_def
        worker_step_def destroy_step_def cond_broadcast_def)
  show ?thesis
    using play_run [OF s(1)] play_run [OF t(1)] s(2) t(2) pool_run.run_refl by blast
qed

end
