(* ===== verification/Conn_Pool.thy ===== *)
theory Conn_Pool
  imports Thread_Pool
begin

text \<open>
  The MySQL connection pools \<open>connpool.h\<close> and \<open>mysql_conn_pool.c\<close>, and the image task that uses one
  of them from the thread pool.  Opening a connection is a parameter: for slot \<open>i\<close> the handle that
  \<open>mysql_init\<close> returned and whether \<open>mysql_real_connect\<close> succeeded.  The functions hold the pool's
  mutex from start to end, so each is one step.  The locale \<open>lending\<close> is what their clients rely on.
\<close>

section \<open>The two pools\<close>

definition CONNECTION_POOL_SIZE :: nat where "CONNECTION_POOL_SIZE = 10"

record conn_pool =
  conns :: "nat list"
  used :: "bool list"

fun init_loop :: "(nat \<Rightarrow> nat \<times> bool) \<Rightarrow> nat \<Rightarrow> nat \<Rightarrow> conn_pool \<Rightarrow> conn_pool" where
  "init_loop opn i 0 p = p"
| "init_loop opn i (Suc k) p =
     (case opn i of (h, ok) \<Rightarrow>
        init_loop opn (Suc i) k (p\<lparr>conns := (conns p)[i := (if ok then h else 0)], used := (used p)[i := False]\<rparr>))"

definition init_conn_pool :: "(nat \<Rightarrow> nat \<times> bool) \<Rightarrow> conn_pool \<Rightarrow> int \<times> conn_pool" where
  "init_conn_pool opn p = (0, init_loop opn 0 CONNECTION_POOL_SIZE p)"

fun get_loop :: "nat list \<Rightarrow> bool list \<Rightarrow> nat \<times> bool list" where
  "get_loop (c # cs) (u # us) =
     (if \<not> u then (c, True # us) else case get_loop cs us of (r, us) \<Rightarrow> (r, u # us))"
| "get_loop cs us = (0, us)"

definition get_conn :: "conn_pool \<Rightarrow> nat \<times> conn_pool" where
  "get_conn p = (case get_loop (conns p) (used p) of (c, us) \<Rightarrow> (c, p\<lparr>used := us\<rparr>))"

fun put_loop :: "nat \<Rightarrow> nat list \<Rightarrow> bool list \<Rightarrow> bool list" where
  "put_loop conn (c # cs) (u # us) = (if c = conn then False # us else u # put_loop conn cs us)"
| "put_loop conn cs us = us"

definition release_conn :: "nat \<Rightarrow> conn_pool \<Rightarrow> conn_pool" where
  "release_conn conn p = p\<lparr>used := put_loop conn (conns p) (used p)\<rparr>"

text \<open>\<open>mysql_conn_pool.c\<close> also asks that the slot has a connection.\<close>

fun mysql_get_loop :: "nat list \<Rightarrow> bool list \<Rightarrow> nat \<times> bool list" where
  "mysql_get_loop (c # cs) (u # us) =
     (if \<not> u \<and> c \<noteq> 0 then (c, True # us) else case mysql_get_loop cs us of (r, us) \<Rightarrow> (r, u # us))"
| "mysql_get_loop cs us = (0, us)"

definition mysql_pool_init :: "(nat \<Rightarrow> nat \<times> bool) \<Rightarrow> conn_pool \<Rightarrow> conn_pool" where
  "mysql_pool_init opn p = init_loop opn 0 CONNECTION_POOL_SIZE p"

definition mysql_pool_get :: "conn_pool \<Rightarrow> nat \<times> conn_pool" where
  "mysql_pool_get p = (case mysql_get_loop (conns p) (used p) of (c, us) \<Rightarrow> (c, p\<lparr>used := us\<rparr>))"

definition mysql_pool_release :: "nat \<Rightarrow> conn_pool \<Rightarrow> conn_pool" where
  "mysql_pool_release conn p = p\<lparr>used := put_loop conn (conns p) (used p)\<rparr>"

text \<open>The handles passed to \<open>mysql_close\<close>, and the pool left behind.\<close>

definition mysql_pool_destroy :: "conn_pool \<Rightarrow> nat list \<times> conn_pool" where
  "mysql_pool_destroy p = (filter (\<lambda>c. c \<noteq> 0) (conns p), p\<lparr>conns := map (\<lambda>_. 0) (conns p)\<rparr>)"

section \<open>The interface\<close>

text \<open>\<open>free\<close> are the connections that can be had, \<open>lent\<close> those handed out.\<close>

locale lending =
  fixes get :: "'s \<Rightarrow> nat \<times> 's"
    and put :: "nat \<Rightarrow> 's \<Rightarrow> 's"
    and wf :: "'s \<Rightarrow> bool"
    and free :: "'s \<Rightarrow> nat set"
    and lent :: "'s \<Rightarrow> nat set"
  assumes get_some: "wf s \<Longrightarrow> free s \<noteq> {} \<Longrightarrow>
      \<exists>c s'. get s = (c, s') \<and> c \<in> free s \<and> wf s' \<and> free s' = free s - {c} \<and> lent s' = insert c (lent s)"
    and get_none: "wf s \<Longrightarrow> free s = {} \<Longrightarrow> get s = (0, s)"
    and put_lent: "wf s \<Longrightarrow> c \<in> lent s \<Longrightarrow>
      wf (put c s) \<and> free (put c s) = insert c (free s) \<and> lent (put c s) = lent s - {c}"
    and apart: "wf s \<Longrightarrow> finite (free s) \<and> free s \<inter> lent s = {} \<and> 0 \<notin> free s \<union> lent s"
begin

lemma get_cases:
  assumes "wf s" and "get s = (c, s')"
  shows "wf s' \<and> (c = 0 \<longleftrightarrow> free s = {}) \<and> (c = 0 \<longrightarrow> s' = s) \<and>
    (c \<noteq> 0 \<longrightarrow> c \<in> free s \<and> free s' = free s - {c} \<and> lent s' = insert c (lent s))"
proof (cases "free s = {}")
  case True
  then show ?thesis using get_none [OF assms(1)] assms by simp
next
  case False
  then obtain d t where "get s = (d, t)" "d \<in> free s" "wf t" "free t = free s - {d}" "lent t = insert d (lent s)"
    using get_some [OF assms(1)] by blast
  moreover have "0 \<notin> free s" using apart [OF assms(1)] by simp
  ultimately show ?thesis using assms(2) False by auto
qed

text \<open>Whoever gets a connection holds one that no one else holds, and giving it back makes it free.\<close>

lemma get_put:
  assumes "wf s" and "get s = (c, s')" and "c \<noteq> 0"
  shows "wf (put c s') \<and> free (put c s') = free s \<and> lent (put c s') = lent s"
proof -
  have g: "wf s'" "c \<in> free s" "free s' = free s - {c}" "lent s' = insert c (lent s)"
    using get_cases [OF assms(1,2)] assms(3) by auto
  moreover have "c \<notin> lent s" using apart [OF assms(1)] g(2) by auto
  ultimately show ?thesis using put_lent [of s' c] by auto
qed

end

section \<open>Both pools lend\<close>

definition free_conns :: "conn_pool \<Rightarrow> nat set" where
  "free_conns p = {c. c \<noteq> 0 \<and> (c, False) \<in> set (zip (conns p) (used p))}"

definition lent_conns :: "conn_pool \<Rightarrow> nat set" where
  "lent_conns p = {c. c \<noteq> 0 \<and> (c, True) \<in> set (zip (conns p) (used p))}"

definition conns_ok :: "conn_pool \<Rightarrow> bool" where
  "conns_ok p \<longleftrightarrow> length (used p) = length (conns p) \<and> distinct (filter (\<lambda>c. c \<noteq> 0) (conns p))"

text \<open>\<open>get_conn\<close> marks a slot whose connection failed as used and returns \<open>NULL\<close> for it, so that pool lends
  as promised only when every connection was opened.\<close>

definition all_open :: "conn_pool \<Rightarrow> bool" where
  "all_open p \<longleftrightarrow> conns_ok p \<and> 0 \<notin> set (conns p)"

definition slots :: "nat list \<Rightarrow> bool list \<Rightarrow> bool \<Rightarrow> nat set" where
  "slots cs us u = {c. c \<noteq> 0 \<and> (c, u) \<in> set (zip cs us)}"

lemma slots_Cons: "slots (c # cs) (v # us) u = (if c \<noteq> 0 \<and> v = u then insert c (slots cs us u) else slots cs us u)"
  by (auto simp: slots_def)

lemma slots_Nil [simp]: "slots [] us u = {}" "slots cs [] u = {}"
  by (auto simp: slots_def)

lemma slots_mem: "c \<in> slots cs us u \<Longrightarrow> c \<in> set cs \<and> c \<noteq> 0"
  by (auto simp: slots_def dest: set_zip_leftD)

lemma free_slots: "free_conns p = slots (conns p) (used p) False" "lent_conns p = slots (conns p) (used p) True"
  by (auto simp: free_conns_def lent_conns_def slots_def)

lemma mysql_get_loop_spec:
  assumes "length cs = length us" and "distinct (filter (\<lambda>c. c \<noteq> 0) cs)" and "mysql_get_loop cs us = (r, us')"
  shows "length us' = length us \<and>
    (if slots cs us False = {} then r = 0 \<and> us' = us
     else r \<in> slots cs us False \<and> slots cs us' False = slots cs us False - {r} \<and> slots cs us' True = insert r (slots cs us True))"
  using assms
proof (induction cs us arbitrary: r us' rule: list_induct2)
  case (Cons c cs u us)
  show ?case
  proof (cases "\<not> u \<and> c \<noteq> 0")
    case True
    then have "c \<notin> set cs" using Cons.prems(1) by auto
    then have "c \<notin> slots cs us False" using slots_mem by blast
    moreover have "r = c" "us' = True # us" using Cons.prems(2) True by auto
    ultimately show ?thesis using True by (simp add: slots_Cons)
  next
    case False
    obtain r0 us0 where g: "mysql_get_loop cs us = (r0, us0)" by fastforce
    have d: "distinct (filter (\<lambda>c. c \<noteq> 0) cs)" using Cons.prems(1) by (auto split: if_splits)
    have r: "r = r0" "us' = u # us0" using False g Cons.prems(2) by auto
    have f: "slots (c # cs) (u # us) False = slots cs us False" "slots (c # cs) (u # us0) False = slots cs us0 False"
      using False by (auto simp: slots_Cons)
    have t: "slots (c # cs) (u # us0) True = insert r0 (slots (c # cs) (u # us) True)"
      if "slots cs us0 True = insert r0 (slots cs us True)"
      using that by (simp add: slots_Cons insert_commute)
    show ?thesis
    proof (cases "slots cs us False = {}")
      case True
      then have "r0 = 0" "us0 = us" using Cons.IH [OF d g] by simp_all
      then show ?thesis unfolding r f using True by simp
    next
      case nonempty: False
      then have ih: "length us0 = length us" "r0 \<in> slots cs us False" "slots cs us0 False = slots cs us False - {r0}"
        "slots cs us0 True = insert r0 (slots cs us True)" using Cons.IH [OF d g] by simp_all
      show ?thesis unfolding r f t [OF ih(4)] using nonempty ih(1-3) by simp
    qed
  qed
qed simp

lemma get_loop_mysql: "length cs = length us \<Longrightarrow> 0 \<notin> set cs \<Longrightarrow> get_loop cs us = mysql_get_loop cs us"
  by (induction cs us rule: list_induct2) auto

lemma put_loop_spec:
  assumes "length cs = length us" and "distinct (filter (\<lambda>c. c \<noteq> 0) cs)" and "c \<in> slots cs us True"
  shows "length (put_loop c cs us) = length us \<and> slots cs (put_loop c cs us) False = insert c (slots cs us False) \<and>
    slots cs (put_loop c cs us) True = slots cs us True - {c}"
  using assms
proof (induction cs us rule: list_induct2)
  case (Cons x cs u us)
  show ?case
  proof (cases "x = c")
    case True
    have "c \<noteq> 0" using Cons.prems(2) slots_mem by blast
    then have "c \<notin> set cs" using Cons.prems(1) True by auto
    then have "c \<notin> slots cs us True" "c \<notin> slots cs us False" using slots_mem by blast+
    then show ?thesis using True Cons.prems(2) by (auto simp: slots_Cons split: if_splits)
  next
    case False
    then have "c \<in> slots cs us True" using Cons.prems(2) by (auto simp: slots_Cons split: if_splits)
    moreover have "distinct (filter (\<lambda>c. c \<noteq> 0) cs)" using Cons.prems(1) by (auto split: if_splits)
    ultimately show ?thesis using Cons.IH False by (auto simp: slots_Cons split: if_splits)
  qed
qed simp

lemma slots_apart:
  assumes "length cs = length us" and "distinct (filter (\<lambda>c. c \<noteq> 0) cs)"
  shows "slots cs us False \<inter> slots cs us True = {}"
  using assms
proof (induction cs us rule: list_induct2)
  case (Cons x cs u us)
  have "slots cs us False \<inter> slots cs us True = {}" using Cons by (auto split: if_splits)
  moreover have "x \<noteq> 0 \<Longrightarrow> x \<notin> slots cs us False \<union> slots cs us True"
    using Cons.prems slots_mem by fastforce
  ultimately show ?case by (auto simp: slots_Cons split: if_splits)
qed simp

lemma slots_finite: "finite (slots cs us u)"
  by (rule finite_subset [of _ "set cs"]) (use slots_mem in auto)

interpretation mp: lending mysql_pool_get mysql_pool_release conns_ok free_conns lent_conns
proof
  fix p c
  assume w: "conns_ok p"
  note s = free_slots conns_ok_def mysql_pool_get_def mysql_pool_release_def
  obtain r us where g: "mysql_get_loop (conns p) (used p) = (r, us)" by fastforce
  have l: "length (conns p) = length (used p)" and d: "distinct (filter (\<lambda>c. c \<noteq> 0) (conns p))"
    using w by (auto simp: conns_ok_def)
  note spec = mysql_get_loop_spec [OF l d g]
  show "\<exists>c s'. mysql_pool_get p = (c, s') \<and> c \<in> free_conns p \<and> conns_ok s' \<and> free_conns s' = free_conns p - {c} \<and>
      lent_conns s' = insert c (lent_conns p)" if "free_conns p \<noteq> {}"
    using spec that w g by (auto simp: s)
  show "mysql_pool_get p = (0, p)" if "free_conns p = {}"
    using spec that g by (simp add: s)
  show "conns_ok (mysql_pool_release c p) \<and> free_conns (mysql_pool_release c p) = insert c (free_conns p) \<and>
      lent_conns (mysql_pool_release c p) = lent_conns p - {c}" if "c \<in> lent_conns p"
    using put_loop_spec [OF l d, of c] that w by (auto simp: s)
  show "finite (free_conns p) \<and> free_conns p \<inter> lent_conns p = {} \<and> 0 \<notin> free_conns p \<union> lent_conns p"
    using slots_apart [OF l d] slots_finite slots_mem [of 0] by (auto simp: s)
qed

interpretation cp: lending get_conn release_conn all_open free_conns lent_conns
proof
  fix p c
  assume w: "all_open p"
  then have ok: "conns_ok p" and z: "0 \<notin> set (conns p)" by (auto simp: all_open_def)
  have g: "get_conn p = mysql_pool_get p"
    using get_loop_mysql [of "conns p" "used p"] ok z by (simp add: get_conn_def mysql_pool_get_def conns_ok_def)
  have r: "release_conn c p = mysql_pool_release c p" by (simp add: release_conn_def mysql_pool_release_def)
  have k: "conns (snd (mysql_pool_get p)) = conns p" "conns (mysql_pool_release c p) = conns p"
    by (auto simp: mysql_pool_get_def mysql_pool_release_def split: prod.splits)
  show "\<exists>c s'. get_conn p = (c, s') \<and> c \<in> free_conns p \<and> all_open s' \<and> free_conns s' = free_conns p - {c} \<and>
      lent_conns s' = insert c (lent_conns p)" if "free_conns p \<noteq> {}"
    using mp.get_some [OF ok that] g k z by (auto simp: all_open_def)
  show "get_conn p = (0, p)" if "free_conns p = {}"
    using mp.get_none [OF ok that] g by simp
  show "all_open (release_conn c p) \<and> free_conns (release_conn c p) = insert c (free_conns p) \<and>
      lent_conns (release_conn c p) = lent_conns p - {c}" if "c \<in> lent_conns p"
    using mp.put_lent [OF ok that] r k z by (auto simp: all_open_def)
  show "finite (free_conns p) \<and> free_conns p \<inter> lent_conns p = {} \<and> 0 \<notin> free_conns p \<union> lent_conns p"
    using mp.apart [OF ok] .
qed

section \<open>Images in the database\<close>

text \<open>
  \<open>bufsz\<close> is the length of the caller's buffer; the bytes returned are the front of that buffer.  A file
  longer than the buffer overflows it (\<open>None\<close>), a missing file gives -1.  \<open>tab\<close> are the images in the table; \<open>rows\<close> are those the
  \<open>SELECT\<close> returns, all of the table in an order that nothing promises; \<open>accept\<close> says whether the server stores an image (no return value of the
  statement calls is looked at); a \<open>NULL\<close> handle or a negative length is undefined.
\<close>

definition read_image :: "nat \<Rightarrow> u8 list option \<Rightarrow> (int \<times> u8 list) option" where
  "read_image bufsz file = (case file of
      None \<Rightarrow> Some (-1, [])
    | Some bs \<Rightarrow> if length bs \<le> bufsz then Some (int (length bs), bs) else None)"

definition write_image :: "bool \<Rightarrow> u8 list \<Rightarrow> int \<Rightarrow> (int \<times> u8 list option) option" where
  "write_image opened buffer len =
     (if \<not> opened then Some (-1, None)
      else if len < 0 \<or> nat len > length buffer then None
      else Some (0, Some (take (nat len) buffer)))"

definition mysql_write_image ::
  "(u8 list \<Rightarrow> bool) \<Rightarrow> nat \<Rightarrow> u8 list \<Rightarrow> int \<Rightarrow> u8 list multiset \<Rightarrow> (int \<times> u8 list multiset) option" where
  "mysql_write_image accept conn buffer len tab =
     (if conn = 0 \<or> len < 0 then None
      else let img = take (nat len) buffer in Some (0, if accept img then add_mset img tab else tab))"

text \<open>The column is fetched one byte at a time; nothing compares its length with the buffer's.\<close>

function column_loop :: "nat \<Rightarrow> u8 list \<Rightarrow> u8 list \<Rightarrow> u8 list option" where
  "column_loop start row buffer =
     (if start < length row then
        if start < length buffer then column_loop (start + 1) row (buffer[start := row ! start]) else None
      else Some buffer)"
  by pat_completeness auto
termination
  by (relation "measure (\<lambda>(start, row, _). length row - start)") auto

declare column_loop.simps [simp del]

fun fetch_loop :: "u8 list list \<Rightarrow> nat \<Rightarrow> u8 list \<Rightarrow> (nat \<times> u8 list) option" where
  "fetch_loop [] tot buffer = Some (tot, buffer)"
| "fetch_loop (row # rows) tot buffer = do {
     buffer \<leftarrow> column_loop 0 row buffer;
     fetch_loop rows (length row) buffer }"

text \<open>\<open>rets\<close>: what prepare, bind, execute and store return.\<close>

definition mysql_read_image ::
  "int \<times> int \<times> int \<times> int \<Rightarrow> u8 list list \<Rightarrow> nat \<Rightarrow> u8 list option \<Rightarrow> int \<Rightarrow> (int \<times> u8 list option) option" where
  "mysql_read_image rets rows handle buffer len = (case buffer of
      None \<Rightarrow> Some (-1, None)
    | Some buf \<Rightarrow>
        if handle = 0 \<or> len \<le> 0 then Some (-1, Some buf)
        else (case rets of (prepare, bnd, execute, store) \<Rightarrow>
          if prepare \<noteq> 0 then Some (-2, Some buf)
          else if bnd \<noteq> 0 then Some (-3, Some buf)
          else if execute \<noteq> 0 then Some (-4, Some buf)
          else if store \<noteq> 0 then Some (-5, Some buf)
          else map_option (\<lambda>(tot, buf). (int tot, Some buf)) (fetch_loop rows 0 buf)))"

lemma column_loop_eq:
  assumes "length row \<le> length buffer" and "start \<le> length row"
  shows "column_loop start row (take start row @ drop start buffer) = Some (row @ drop (length row) buffer)"
  using assms(2)
proof (induction "length row - start" arbitrary: start)
  case 0
  then have "start = length row" by simp
  then show ?case by (simp add: column_loop.simps)
next
  case (Suc k)
  then have s: "start < length row" "start < length buffer" using assms(1) by auto
  have "drop start buffer = buffer ! start # drop (Suc start) buffer" using s(2) by (simp add: Cons_nth_drop_Suc)
  then have u: "(take start row @ drop start buffer)[start := row ! start] = take (Suc start) row @ drop (Suc start) buffer"
    using s by (simp add: list_update_append take_Suc_conv_app_nth)
  have "column_loop (Suc start) row (take (Suc start) row @ drop (Suc start) buffer) = Some (row @ drop (length row) buffer)"
    by (rule Suc.hyps(1)) (use Suc.hyps(2) s in auto)
  then show ?case
    using s u by (subst column_loop.simps) simp
qed

lemma column_loop_fits: "length row \<le> length buffer \<Longrightarrow> column_loop 0 row buffer = Some (row @ drop (length row) buffer)"
  using column_loop_eq [of row buffer 0] by simp

lemma fetch_loop_last:
  assumes "\<forall>row\<in>set rows. length row \<le> length buffer" and "rows \<noteq> []"
  shows "\<exists>rest. fetch_loop rows tot buffer = Some (length (last rows), last rows @ rest) \<and>
    length (last rows @ rest) = length buffer"
  using assms
proof (induction rows arbitrary: tot buffer)
  case (Cons row rows)
  have l: "length row \<le> length buffer" using Cons.prems by simp
  show ?case
  proof (cases "rows = []")
    case True
    then show ?thesis using column_loop_fits [OF l] l by auto
  next
    case False
    have "\<forall>r\<in>set rows. length r \<le> length (row @ drop (length row) buffer)" using Cons.prems l by auto
    from Cons.IH [OF this False, of "length row"] show ?thesis
      using column_loop_fits [OF l] False l by auto
  qed
qed simp

section \<open>The image tasks\<close>

definition FILE_IMAGE_LENGTH :: nat where "FILE_IMAGE_LENGTH = 256 * 1024"

datatype img_pc =
    Img_start
  | Img_loaded int "u8 list"
  | Img_conn nat int "u8 list"
  | Img_written nat
  | Img_done

record 's img_sys =
  i_pool :: 's
  i_pcs :: "nat \<Rightarrow> img_pc"
  i_rows :: "u8 list multiset"

text \<open>One step of \<open>task_entry\<close> for task \<open>j\<close>: read the file, ask for a connection, write, give it back.  A failed
  read or a missing connection is only reported; the task goes on.\<close>

definition img_step ::
  "('s \<Rightarrow> nat \<times> 's) \<Rightarrow> (nat \<Rightarrow> 's \<Rightarrow> 's) \<Rightarrow> (u8 list \<Rightarrow> bool) \<Rightarrow> (nat \<Rightarrow> u8 list option) \<Rightarrow> nat \<Rightarrow> 's img_sys \<Rightarrow> 's img_sys outcome" where
  "img_step get put accept files j s = (case i_pcs s j of
      Img_start \<Rightarrow>
        (case read_image FILE_IMAGE_LENGTH (files j) of
           None \<Rightarrow> Undefined
         | Some (n, b) \<Rightarrow> Step (s\<lparr>i_pcs := (i_pcs s)(j := Img_loaded n b)\<rparr>))
    | Img_loaded n b \<Rightarrow>
        (case get (i_pool s) of (c, p) \<Rightarrow> Step (s\<lparr>i_pool := p, i_pcs := (i_pcs s)(j := Img_conn c n b)\<rparr>))
    | Img_conn c n b \<Rightarrow>
        (case mysql_write_image accept c b n (i_rows s) of
           None \<Rightarrow> Undefined
         | Some (_, rows) \<Rightarrow> Step (s\<lparr>i_rows := rows, i_pcs := (i_pcs s)(j := Img_written c)\<rparr>))
    | Img_written c \<Rightarrow> Step (s\<lparr>i_pool := put c (i_pool s), i_pcs := (i_pcs s)(j := Img_done)\<rparr>)
    | Img_done \<Rightarrow> Blocked)"

inductive img_run ::
  "('s \<Rightarrow> nat \<times> 's) \<Rightarrow> (nat \<Rightarrow> 's \<Rightarrow> 's) \<Rightarrow> (u8 list \<Rightarrow> bool) \<Rightarrow> (nat \<Rightarrow> u8 list option) \<Rightarrow> nat \<Rightarrow> 's img_sys \<Rightarrow> 's img_sys \<Rightarrow> bool"
  for get put accept files N s0 where
  img_refl: "img_run get put accept files N s0 s0"
| img_next: "img_run get put accept files N s0 s \<Longrightarrow> j < N \<Longrightarrow> img_step get put accept files j s = Step s' \<Longrightarrow>
    img_run get put accept files N s0 s'"

definition img_start :: "'s \<Rightarrow> u8 list multiset \<Rightarrow> 's img_sys" where
  "img_start p tab = \<lparr>i_pool = p, i_pcs = (\<lambda>_. Img_start), i_rows = tab\<rparr>"

definition held :: "img_pc \<Rightarrow> nat" where
  "held p = (case p of Img_conn c _ _ \<Rightarrow> c | Img_written c \<Rightarrow> c | _ \<Rightarrow> 0)"

lemma held_simps [simp]:
  "held Img_start = 0" "held (Img_loaded n b) = 0" "held (Img_conn c n b) = c" "held (Img_written c) = c" "held Img_done = 0"
  by (simp_all add: held_def)

definition early :: "img_pc \<Rightarrow> bool" where
  "early p = (case p of Img_start \<Rightarrow> True | Img_loaded _ _ \<Rightarrow> True | _ \<Rightarrow> False)"

context lending
begin

definition apart_inv :: "nat \<Rightarrow> 's img_sys \<Rightarrow> bool" where
  "apart_inv N s \<longleftrightarrow> wf (i_pool s) \<and> (\<forall>j<N. held (i_pcs s j) \<noteq> 0 \<longrightarrow> held (i_pcs s j) \<in> lent (i_pool s)) \<and>
     (\<forall>i<N. \<forall>j<N. i \<noteq> j \<longrightarrow> held (i_pcs s i) \<noteq> 0 \<longrightarrow> held (i_pcs s i) \<noteq> held (i_pcs s j)) \<and>
     (\<forall>j<N. \<forall>c. i_pcs s j = Img_written c \<longrightarrow> c \<noteq> 0)"

lemma apart_inv_step:
  assumes i: "apart_inv N s" and j: "j < N" and s: "img_step get put accept files j s = Step s'"
  shows "apart_inv N s'"
proof (cases "i_pcs s j")
  case Img_start
  then show ?thesis
    using i j s by (auto simp: img_step_def apart_inv_def split: option.splits if_splits) metis
next
  case (Img_loaded n b)
  obtain c p where g: "get (i_pool s) = (c, p)" by fastforce
  have w: "wf (i_pool s)" using i by (simp add: apart_inv_def)
  have s': "s' = s\<lparr>i_pool := p, i_pcs := (i_pcs s)(j := Img_conn c n b)\<rparr>" using s g Img_loaded by (simp add: img_step_def)
  have "\<forall>k<N. held (i_pcs s k) \<noteq> 0 \<longrightarrow> held (i_pcs s k) \<noteq> c" if "c \<noteq> 0"
    using get_cases [OF w g] that apart [OF w] i by (auto simp: apart_inv_def)
  then show ?thesis
    using get_cases [OF w g] i j s' by (auto simp: apart_inv_def)
next
  case (Img_conn c n b)
  then obtain rows where "c \<noteq> 0" "s' = s\<lparr>i_rows := rows, i_pcs := (i_pcs s)(j := Img_written c)\<rparr>"
    using s by (auto simp: img_step_def mysql_write_image_def split: if_splits option.splits)
  moreover have "held (Img_written c) = held (i_pcs s j)" using Img_conn by (simp add: held_def)
  ultimately show ?thesis using i j by (auto simp: apart_inv_def)
next
  case (Img_written c)
  have w: "wf (i_pool s)" using i by (simp add: apart_inv_def)
  have hj: "held (i_pcs s j) = c" "c \<noteq> 0" using Img_written i j by (auto simp: held_def apart_inv_def)
  then have "c \<in> lent (i_pool s)" using i j by (auto simp: apart_inv_def)
  note p = put_lent [OF w this]
  have s': "s' = s\<lparr>i_pool := put c (i_pool s), i_pcs := (i_pcs s)(j := Img_done)\<rparr>" using s Img_written by (simp add: img_step_def)
  have "\<forall>k<N. k \<noteq> j \<longrightarrow> held (i_pcs s k) \<noteq> 0 \<longrightarrow> held (i_pcs s k) \<noteq> c" using i j hj by (auto simp: apart_inv_def)
  then show ?thesis using i s' p by (auto simp: apart_inv_def)
next
  case Img_done
  then show ?thesis using s by (simp add: img_step_def)
qed

lemma apart_run:
  "img_run get put accept files N s0 s \<Longrightarrow> apart_inv N s0 \<Longrightarrow> apart_inv N s"
  by (induction rule: img_run.induct) (auto intro: apart_inv_step)

lemma apart_start: "wf p \<Longrightarrow> apart_inv N (img_start p rows)"
  by (simp add: apart_inv_def img_start_def held_def)

text \<open>With a connection for every task none of them is refused one.\<close>

definition enough :: "nat \<Rightarrow> 's img_sys \<Rightarrow> bool" where
  "enough N s \<longleftrightarrow> card {j. j < N \<and> early (i_pcs s j)} \<le> card (free (i_pool s)) \<and>
     (\<forall>j<N. \<forall>c n b. i_pcs s j = Img_conn c n b \<longrightarrow> c \<noteq> 0)"

lemma early_insert:
  fixes j N :: nat
  assumes "j < N" and "early (f j)" and "\<not> early q"
  shows "Suc (card {i. i < N \<and> early ((f(j := q)) i)}) = card {i. i < N \<and> early (f i)}"
proof -
  have "{i. i < N \<and> early (f i)} = insert j {i. i < N \<and> early ((f(j := q)) i)}" using assms by auto
  moreover have "j \<notin> {i. i < N \<and> early ((f(j := q)) i)}" using assms(3) by simp
  moreover have "finite {i. i < N \<and> early ((f(j := q)) i)}" by (rule finite_subset [of _ "{..<N}"]) auto
  ultimately show ?thesis by (metis (no_types, lifting) card_insert_disjoint)
qed

lemma early_same: "early q = early (f j) \<Longrightarrow> {i. i < N \<and> early ((f(j := q)) i)} = {i. i < N \<and> early (f i)}"
  by auto

lemma enough_step:
  assumes e: "enough N s" and a: "apart_inv N s" and j: "j < N" and s: "img_step get put accept files j s = Step s'"
  shows "enough N s'"
proof (cases "i_pcs s j")
  case Img_start
  then obtain n b where s': "s' = s\<lparr>i_pcs := (i_pcs s)(j := Img_loaded n b)\<rparr>"
    using s by (auto simp: img_step_def split: option.splits prod.splits)
  have "early (Img_loaded n b) = early (i_pcs s j)" using Img_start by (simp add: early_def)
  then show ?thesis using e s' early_same [of "Img_loaded n b" "i_pcs s" j N] by (auto simp: enough_def)
next
  case (Img_loaded n b)
  obtain c p where g: "get (i_pool s) = (c, p)" by fastforce
  have w: "wf (i_pool s)" using a by (simp add: apart_inv_def)
  have s': "s' = s\<lparr>i_pool := p, i_pcs := (i_pcs s)(j := Img_conn c n b)\<rparr>" using s g Img_loaded by (simp add: img_step_def)
  have ej: "early (i_pcs s j)" "\<not> early (Img_conn c n b)" using Img_loaded by (auto simp: early_def)
  note k = early_insert [of j N "i_pcs s" "Img_conn c n b", OF j ej]
  then have "0 < card (free (i_pool s))" using e unfolding enough_def by linarith
  then have "free (i_pool s) \<noteq> {}" by auto
  then have "c \<noteq> 0" using get_cases [OF w g] by simp
  then have "c \<in> free (i_pool s)" "free p = free (i_pool s) - {c}" using get_cases [OF w g] by auto
  then have "Suc (card (free p)) = card (free (i_pool s))"
    using apart [OF w] by (metis card_Suc_Diff1)
  then show ?thesis using e s' k \<open>c \<noteq> 0\<close> by (auto simp: enough_def)
next
  case (Img_conn c n b)
  then obtain rows where s': "s' = s\<lparr>i_rows := rows, i_pcs := (i_pcs s)(j := Img_written c)\<rparr>"
    using s by (auto simp: img_step_def split: if_splits option.splits)
  have "early (Img_written c) = early (i_pcs s j)" using Img_conn by (simp add: early_def)
  then show ?thesis using e s' early_same [of "Img_written c" "i_pcs s" j N] by (auto simp: enough_def)
next
  case (Img_written c)
  have w: "wf (i_pool s)" using a by (simp add: apart_inv_def)
  have "held (i_pcs s j) = c" "c \<noteq> 0" using Img_written a j by (auto simp: held_def apart_inv_def)
  then have "c \<in> lent (i_pool s)" using a j by (auto simp: apart_inv_def)
  note p = put_lent [OF w this]
  have s': "s' = s\<lparr>i_pool := put c (i_pool s), i_pcs := (i_pcs s)(j := Img_done)\<rparr>" using s Img_written by (simp add: img_step_def)
  have "early Img_done = early (i_pcs s j)" using Img_written by (simp add: early_def)
  note k = early_same [of Img_done "i_pcs s" j N, OF this]
  have "card (free (i_pool s)) \<le> card (free (put c (i_pool s)))"
    using p apart [OF w] by (auto intro!: card_mono)
  then show ?thesis using e s' k by (auto simp: enough_def)
next
  case Img_done
  then show ?thesis using s by (simp add: img_step_def)
qed

lemma enough_run:
  "img_run get put accept files N s0 s \<Longrightarrow> apart_inv N s0 \<Longrightarrow> enough N s0 \<Longrightarrow> enough N s"
  by (induction rule: img_run.induct) (auto intro: enough_step apart_run)

text \<open>The lengths that a task carries come from its file.\<close>

definition lengths_ok :: "nat \<Rightarrow> 's img_sys \<Rightarrow> bool" where
  "lengths_ok N s \<longleftrightarrow> (\<forall>j<N. \<forall>n b. (i_pcs s j = Img_loaded n b \<or> (\<exists>c. i_pcs s j = Img_conn c n b)) \<longrightarrow> 0 \<le> n)"

lemma lengths_run:
  assumes "img_run get put accept files N (img_start p rows) s"
    and "\<forall>j<N. \<exists>b. files j = Some b \<and> length b \<le> FILE_IMAGE_LENGTH"
  shows "lengths_ok N s"
  using assms(1)
proof (induction rule: img_run.induct)
  case img_refl
  then show ?case by (simp add: lengths_ok_def img_start_def)
next
  case (img_next s j s')
  obtain b where b: "files j = Some b" "length b \<le> FILE_IMAGE_LENGTH" using assms(2) img_next by blast
  show ?case
    using img_next.IH img_next.hyps b
    by (auto simp: lengths_ok_def img_step_def read_image_def split: img_pc.splits option.splits prod.splits if_splits)
qed

lemma tasks_defined:
  assumes w: "wf p" and n: "N \<le> card (free p)" and f: "\<forall>j<N. \<exists>b. files j = Some b \<and> length b \<le> FILE_IMAGE_LENGTH"
    and r: "img_run get put accept files N (img_start p rows) s" and j: "j < N"
  shows "img_step get put accept files j s \<noteq> Undefined"
proof -
  have a: "apart_inv N (img_start p rows)" using w by (rule apart_start)
  have "{j. j < N \<and> early (i_pcs (img_start p rows) j)} = {..<N}"
    by (auto simp: img_start_def early_def)
  then have "enough N (img_start p rows)" using n by (simp add: enough_def img_start_def)
  then have e: "enough N s" by (rule enough_run [OF r a])
  have l: "lengths_ok N s" by (rule lengths_run [OF r f])
  obtain b where "files j = Some b" "length b \<le> FILE_IMAGE_LENGTH" using f j by blast
  then show ?thesis
    using e l j unfolding img_step_def enough_def lengths_ok_def
    by (cases "i_pcs s j") (auto simp: read_image_def mysql_write_image_def Let_def split: prod.splits)
qed

lemma tasks_apart:
  assumes w: "wf p" and r: "img_run get put accept files N (img_start p rows) s"
    and ij: "i < N" "j < N" "i \<noteq> j" "held (i_pcs s i) \<noteq> 0"
  shows "held (i_pcs s i) \<noteq> held (i_pcs s j) \<and> held (i_pcs s i) \<in> lent (i_pool s)"
  using apart_run [OF r apart_start [OF w]] ij by (simp add: apart_inv_def)

end

section \<open>Properties\<close>

text \<open>C24: However many image tasks run in the thread pool, no two of them hold the same database
  connection at the same time, and a held connection is marked as used, when every connection of the
  pool was opened.\<close>

theorem image_tasks_apart:
  assumes "all_open p" and "img_run get_conn release_conn accept files N (img_start p rows) s"
    and "i < N" "j < N" "i \<noteq> j" "held (i_pcs s i) \<noteq> 0"
  shows "held (i_pcs s i) \<noteq> held (i_pcs s j) \<and> held (i_pcs s i) \<in> lent_conns (i_pool s)"
  by (rule cp.tasks_apart [OF assms])

text \<open>With no more image tasks than connections, and every image file readable and no longer than the
  buffer, no interleaving of the tasks reaches a write through a \<open>NULL\<close> connection or any other
  undefined step (a task that gets no connection goes on to use it).\<close>

theorem image_tasks_defined:
  assumes "all_open p" and "N \<le> card (free_conns p)"
    and "\<forall>j<N. \<exists>b. files j = Some b \<and> length b \<le> FILE_IMAGE_LENGTH"
    and "img_run get_conn release_conn accept files N (img_start p rows) s" and "j < N"
  shows "img_step get_conn release_conn accept files j s \<noteq> Undefined"
  by (rule cp.tasks_defined [OF assms])

definition demo_conns :: conn_pool where
  "demo_conns = snd (init_conn_pool (\<lambda>i. (i + 100, True)) \<lparr>conns = replicate 10 0, used = replicate 10 True\<rparr>)"

lemma demo_conns_eq:
  "demo_conns = \<lparr>conns = [100, 101, 102, 103, 104, 105, 106, 107, 108, 109], used = replicate 10 False\<rparr>"
  by (simp add: demo_conns_def init_conn_pool_def CONNECTION_POOL_SIZE_def numeral_eq_Suc)

lemma demo_conns_open: "all_open demo_conns" "free_conns demo_conns = {100, 101, 102, 103, 104, 105, 106, 107, 108, 109}"
  by (auto simp: demo_conns_eq all_open_def conns_ok_def free_conns_def numeral_eq_Suc)

definition demo_files :: "nat \<Rightarrow> u8 list option" where
  "demo_files j = Some [of_nat j]"

lemma demo_img_run:
  "\<exists>s. img_run get_conn release_conn (\<lambda>_. True) demo_files 2 (img_start demo_conns {#}) s \<and>
     held (i_pcs s 0) = 100 \<and> held (i_pcs s 1) = 101"
proof -
  let ?st = "\<lambda>j s. img_step get_conn release_conn (\<lambda>_. True) demo_files j s"
  let ?s0 = "img_start demo_conns {#}"
  obtain s1 where 1: "?st 0 ?s0 = Step s1" "i_pcs s1 = (\<lambda>_. Img_start)(0 := Img_loaded 1 [0])" "i_pool s1 = demo_conns"
    by (auto simp: img_step_def img_start_def demo_files_def read_image_def FILE_IMAGE_LENGTH_def)
  obtain s2 where 2: "?st 0 s1 = Step s2" "i_pcs s2 = (\<lambda>_. Img_start)(0 := Img_conn 100 1 [0])"
    "i_pool s2 = demo_conns\<lparr>used := True # replicate 9 False\<rparr>"
    by (auto simp: 1 img_step_def get_conn_def demo_conns_eq numeral_eq_Suc)
  obtain s3 where 3: "?st 1 s2 = Step s3" "i_pcs s3 = (\<lambda>_. Img_start)(0 := Img_conn 100 1 [0], 1 := Img_loaded 1 [1])"
    "i_pool s3 = i_pool s2"
    by (auto simp: 2 img_step_def demo_files_def read_image_def FILE_IMAGE_LENGTH_def)
  obtain s4 where 4: "?st 1 s3 = Step s4" "i_pcs s4 = (\<lambda>_. Img_start)(0 := Img_conn 100 1 [0], 1 := Img_conn 101 1 [1])"
    by (auto simp: 3 2 img_step_def get_conn_def demo_conns_eq numeral_eq_Suc)
  have "img_run get_conn release_conn (\<lambda>_. True) demo_files 2 ?s0 s4"
    by (rule img_next [OF img_next [OF img_next [OF img_next [OF img_refl]]]]) (use 1(1) 2(1) 3(1) 4(1) in auto)
  then show ?thesis using 4(2) by (intro exI [of _ s4]) simp
qed

theorem image_tasks_apart_witness:
  "\<exists>s. img_run get_conn release_conn (\<lambda>_. True) demo_files 2 (img_start demo_conns {#}) s \<and>
     held (i_pcs s 0) = 100 \<and> held (i_pcs s 0) \<noteq> held (i_pcs s 1) \<and> held (i_pcs s 0) \<in> lent_conns (i_pool s)"
proof -
  obtain s where s: "img_run get_conn release_conn (\<lambda>_. True) demo_files 2 (img_start demo_conns {#}) s"
    "held (i_pcs s 0) = 100" using demo_img_run by blast
  then show ?thesis using image_tasks_apart [OF demo_conns_open(1) s(1), of 0 1] by auto
qed

theorem image_tasks_defined_witness:
  "\<exists>s. img_run get_conn release_conn (\<lambda>_. True) demo_files 2 (img_start demo_conns {#}) s \<and>
     held (i_pcs s 1) = 101 \<and> img_step get_conn release_conn (\<lambda>_. True) demo_files 1 s \<noteq> Undefined"
proof -
  obtain s where s: "img_run get_conn release_conn (\<lambda>_. True) demo_files 2 (img_start demo_conns {#}) s"
    "held (i_pcs s 1) = 101" using demo_img_run by blast
  then show ?thesis
    using image_tasks_defined [OF demo_conns_open(1) _ _ s(1), of 1] demo_conns_open(2)
    by (auto simp: demo_files_def FILE_IMAGE_LENGTH_def)
qed

text \<open>C25: When the calls of the library succeed and every image of the table fits the buffer (the function compares none of them with the length it is given),
  \<open>mysql_read_image\<close> puts one whole image of the table at the front of the buffer and returns its length: the one that was just written when the table was empty before,
  and otherwise the last that the \<open>SELECT\<close>, which has no \<open>ORDER BY\<close>, happens to return.\<close>

theorem image_roundtrip:
  assumes "mysql_write_image accept conn img n tab = Some (r, tab')" and "accept (take (nat n) img)" and "nat n \<le> length img"
    and "mset rows = tab'" and "handle \<noteq> 0" and "buffer \<noteq> []" and "\<forall>row\<in>set rows. length row \<le> length buffer"
  shows "\<exists>buf. mysql_read_image (0, 0, 0, 0) rows handle (Some buffer) (int (length buffer)) = Some (int (length (last rows)), Some buf) \<and>
    take (length (last rows)) buf = last rows \<and> last rows \<in># tab' \<and> length buf = length buffer \<and>
    (tab = {#} \<longrightarrow> last rows = take (nat n) img \<and> int (length (last rows)) = n)"
proof -
  have r: "mset rows = add_mset (take (nat n) img) tab" "0 \<le> n"
    using assms(1,2,4) by (auto simp: mysql_write_image_def Let_def split: if_splits)
  then have ne: "rows \<noteq> []" by auto
  obtain rest where "fetch_loop rows 0 buffer = Some (length (last rows), last rows @ rest)"
    "length (last rows @ rest) = length buffer" using fetch_loop_last [OF assms(7) ne] by blast
  then have read: "mysql_read_image (0, 0, 0, 0) rows handle (Some buffer) (int (length buffer)) = Some (int (length (last rows)), Some (last rows @ rest))"
    "length (last rows @ rest) = length buffer"
    using assms(5,6) by (auto simp: mysql_read_image_def)
  have "last rows \<in># tab'" using ne assms(4) last_in_set [OF ne] by (metis set_mset_mset)
  moreover have "last rows = take (nat n) img" if "tab = {#}"
  proof -
    have "mset rows = mset [take (nat n) img]" using r(1) that by simp
    then show ?thesis by simp
  qed
  ultimately show ?thesis using read assms(3) r(2) by (intro exI [of _ "last rows @ rest"]) auto
qed

theorem image_roundtrip_witness:
  "\<exists>buf. mysql_read_image (0, 0, 0, 0) [[1, 2]] 5 (Some [0, 0, 0]) 3 = Some (2, Some buf) \<and> take 2 buf = [1, 2]"
  using image_roundtrip [of "\<lambda>_. True" 5 "[1, 2]" 2 "{#}" 0 "{#[1, 2]#}" "[[1, 2]]" 5 "[0, 0, 0]"]
  by (auto simp: mysql_write_image_def Let_def numeral_2_eq_2)

text \<open>A slot whose connection failed: \<open>get_conn\<close> marks it as used and returns \<open>NULL\<close> while later slots are
  free, where \<open>mysql_pool_get\<close> goes on to the next.\<close>

lemma get_conn_null_slot:
  "get_conn \<lparr>conns = [0, 8], used = [False, False]\<rparr> = (0, \<lparr>conns = [0, 8], used = [True, False]\<rparr>)"
  "mysql_pool_get \<lparr>conns = [0, 8], used = [False, False]\<rparr> = (8, \<lparr>conns = [0, 8], used = [False, True]\<rparr>)"
  by (simp_all add: get_conn_def mysql_pool_get_def)

end
