(* ===== verification/Dns.thy ===== *)
theory Dns
  imports Prelude "HOL-Library.Monad_Syntax"
begin

text \<open>
  The DNS client \<open>dns.c\<close> (\<open>homework_dns_async/dns.h\<close> is the same code).  Messages and strings are byte
  lists, pointers into them are indices; reading or writing outside an array is \<open>None\<close>.  The
  recursion of \<open>dns_parse_name\<close> follows compression pointers wherever they lead, so it need not end:
  it is a \<open>partial_function\<close>, and not returning is \<open>None\<close> as well.
\<close>

section \<open>Arrays and C strings of bytes\<close>

definition get_be16 :: "u8 list \<Rightarrow> nat \<Rightarrow> nat option" where
  "get_be16 buf i = do { a \<leftarrow> get_byte buf i; b \<leftarrow> get_byte buf (i + 1); Some (unat a * 256 + unat b) }"

definition get_be32 :: "u8 list \<Rightarrow> nat \<Rightarrow> nat option" where
  "get_be32 buf i = do { a \<leftarrow> get_be16 buf i; b \<leftarrow> get_be16 buf (i + 2); Some (a * 65536 + b) }"

definition le16 :: "u16 \<Rightarrow> u8 list" where
  "le16 x = [ucast x, ucast (drop_bit 8 x)]"

definition htons :: "u16 \<Rightarrow> u16" where
  "htons x = push_bit 8 x OR drop_bit 8 x"

abbreviation dot :: u8 where "dot \<equiv> 46"

section \<open>The request\<close>

record dns_header =
  h_id :: u16
  flags :: u16
  questions :: u16
  answer :: u16
  authority :: u16
  additional :: u16

record dns_question =
  q_length :: nat
  qtype :: u16
  qclass :: u16
  q_name :: "u8 list"

text \<open>The random id is a parameter.\<close>

definition dns_create_header :: "u16 \<Rightarrow> dns_header option \<Rightarrow> int \<times> dns_header option" where
  "dns_create_header rnd header = (case header of
      None \<Rightarrow> (-1, None)
    | Some _ \<Rightarrow> (0, Some \<lparr>h_id = rnd, flags = htons 0x0100, questions = htons 1, answer = 0, authority = 0, additional = 0\<rparr>))"

definition strtok :: "u8 list \<Rightarrow> (u8 list \<times> u8 list) option" where
  "strtok s = (let s = dropWhile (\<lambda>c. c = dot) s in
     if s = [] then None
     else Some (takeWhile (\<lambda>c. c \<noteq> dot) s, drop 1 (dropWhile (\<lambda>c. c \<noteq> dot) s)))"

lemma strtok_less: "strtok s = Some (t, r) \<Longrightarrow> length r < length s"
proof -
  assume s: "strtok s = Some (t, r)"
  obtain x xs where d: "dropWhile (\<lambda>c. c = dot) s = x # xs"
    using s by (cases "dropWhile (\<lambda>c. c = dot) s") (simp_all add: strtok_def)
  have x: "x \<noteq> dot" using hd_dropWhile [of "\<lambda>c. c = dot" s] d by simp
  have r: "r = drop 1 (dropWhile (\<lambda>c. c \<noteq> dot) xs)" using s d x by (simp add: strtok_def)
  have "length r \<le> length xs" unfolding r using length_dropWhile_le [of "\<lambda>c. c \<noteq> dot" xs] by simp
  also have "length xs < length s" using length_dropWhile_le [of "\<lambda>c. c = dot" s] d by simp
  finally show ?thesis .
qed

function convert_loop :: "u8 list \<Rightarrow> nat \<Rightarrow> u8 list \<Rightarrow> u8 list option" where
  "convert_loop s pos arr = (case strtok s of
      None \<Rightarrow> put_bytes arr pos [0]
    | Some (token, rest) \<Rightarrow> do {
        let len = length token;
        arr \<leftarrow> put_bytes arr pos [of_nat len];
        arr \<leftarrow> put_bytes arr (pos + 1) token;
        convert_loop rest (pos + 1 + len) arr })"
  by pat_completeness auto
termination
  by (relation "measure (\<lambda>(s, _, _). length s)") (auto dest: strtok_less)

declare convert_loop.simps [simp del]

text \<open>\<open>Some None\<close> is the result \<open>NULL\<close>; \<open>oks\<close> are the outcomes of \<open>strdup\<close> and \<open>malloc\<close>.\<close>

definition convert_domain :: "bool \<times> bool \<Rightarrow> u8 list option \<Rightarrow> u8 list option option" where
  "convert_domain oks domain = (case domain of
      None \<Rightarrow> Some None
    | Some d \<Rightarrow>
        if \<not> fst oks \<or> \<not> snd oks then Some None
        else map_option Some (convert_loop d 0 (replicate (length d + 2) 0)))"

definition dns_create_question :: "bool \<times> bool \<Rightarrow> u8 list option \<Rightarrow> (int \<times> (nat \<times> u16 \<times> u16 \<times> u8 list option)) option" where
  "dns_create_question oks hostname = (case hostname of
      None \<Rightarrow> Some (-1, (0, 0, 0, None))
    | Some h \<Rightarrow> do {
        nm \<leftarrow> convert_domain oks (Some h);
        Some (0, (length h + 2, htons 1, htons 1, nm)) })"

definition header_bytes :: "dns_header \<Rightarrow> u8 list" where
  "header_bytes h = le16 (h_id h) @ le16 (flags h) @ le16 (questions h) @ le16 (answer h) @ le16 (authority h) @ le16 (additional h)"

definition dns_build_request :: "dns_header option \<Rightarrow> dns_question option \<Rightarrow> nat \<Rightarrow> (int \<times> u8 list) option" where
  "dns_build_request header question rlen = (case (header, question) of
      (Some h, Some q) \<Rightarrow> do {
        request \<leftarrow> put_bytes (replicate rlen 0) 0 (header_bytes h);
        let offset = 12;
        nm \<leftarrow> get_bytes (q_name q) 0 (q_length q);
        request \<leftarrow> put_bytes request offset nm;
        let offset = offset + q_length q;
        request \<leftarrow> put_bytes request offset (le16 (qtype q));
        let offset = offset + 2;
        request \<leftarrow> put_bytes request offset (le16 (qclass q));
        Some (int (offset + 2), request) }
    | _ \<Rightarrow> Some (-1, []))"

section \<open>Names in a message\<close>

definition is_pointer :: "nat \<Rightarrow> bool" where
  "is_pointer flag \<longleftrightarrow> (0xC0 AND flag) = 0xC0"

partial_function (option) dns_parse_name :: "u8 list \<Rightarrow> nat \<Rightarrow> nat \<Rightarrow> u8 list \<Rightarrow> nat \<Rightarrow> (u8 list \<times> nat) option" where
  "dns_parse_name chunk ptr pos buf len = do {
     b \<leftarrow> get_byte chunk ptr;
     let flag = unat b;
     if flag = 0 then Some (buf, len)
     else if is_pointer flag then do {
       c \<leftarrow> get_byte chunk (ptr + 1);
       let offset = (flag AND 0x3F) * 256 + unat c;
       dns_parse_name chunk offset len buf len }
     else do {
       bs \<leftarrow> get_bytes chunk (ptr + 1) flag;
       buf \<leftarrow> put_bytes buf pos bs;
       nxt \<leftarrow> get_byte chunk (ptr + 1 + flag);
       if nxt \<noteq> 0 then do {
         buf \<leftarrow> put_bytes buf (pos + flag) [dot];
         dns_parse_name chunk (ptr + 1 + flag) (pos + flag + 1) buf (len + flag + 1) }
       else dns_parse_name chunk (ptr + 1 + flag) (pos + flag) buf (len + flag) } }"

section \<open>The response\<close>

record dns_item =
  i_domain :: "u8 list"
  i_ip :: "u8 list"

function skip_name :: "u8 list \<Rightarrow> nat \<Rightarrow> nat option" where
  "skip_name buf ptr =
     (if ptr < length buf then
        (if buf ! ptr = 0 then Some (ptr + 1) else skip_name buf (ptr + unat (buf ! ptr) + 1))
      else None)"
  by pat_completeness auto
termination
  by (relation "measure (\<lambda>(buf, ptr). length buf - ptr)") auto

declare skip_name.simps [simp del]

fun skip_queries :: "u8 list \<Rightarrow> nat \<Rightarrow> nat \<Rightarrow> nat option" where
  "skip_queries buf 0 ptr = Some ptr"
| "skip_queries buf (Suc k) ptr = do { ptr \<leftarrow> skip_name buf ptr; skip_queries buf k (ptr + 4) }"

definition decimal :: "nat \<Rightarrow> u8 list" where
  "decimal n = (if n < 10 then [of_nat (48 + n)]
     else if n < 100 then [of_nat (48 + n div 10), of_nat (48 + n mod 10)]
     else [of_nat (48 + n div 100), of_nat (48 + n div 10 mod 10), of_nat (48 + n mod 10)])"

text \<open>\<open>inet_ntop\<close> of an IPv4 address.\<close>

definition inet_ntop4 :: "u8 list \<Rightarrow> u8 list" where
  "inet_ntop4 a = decimal (unat (a ! 0)) @ dot # decimal (unat (a ! 1)) @ dot # decimal (unat (a ! 2)) @ dot #
     decimal (unat (a ! 3))"

datatype dns_print = Address "u8 list" "u8 list" | Ttl int int

definition DNS_HOST :: nat where "DNS_HOST = 1"
definition DNS_CNAME :: nat where "DNS_CNAME = 5"

text \<open>The loop over the answers: \<open>k\<close> of them are left.\<close>

fun answer_loop :: "u8 list \<Rightarrow> nat \<Rightarrow> nat \<Rightarrow> dns_item list \<Rightarrow> dns_print list \<Rightarrow> (dns_item list \<times> dns_print list) option" where
  "answer_loop buffer 0 ptr items prints = Some (items, prints)"
| "answer_loop buffer (Suc k) ptr items prints = do {
     (aname, _) \<leftarrow> dns_parse_name buffer ptr 0 (replicate 128 0) 0;
     typ \<leftarrow> get_be16 buffer (ptr + 2);
     ttl \<leftarrow> get_be32 buffer (ptr + 6);
     datalen \<leftarrow> get_be16 buffer (ptr + 10);
     let ptr = ptr + 12;
     if DNS_CNAME = typ then do {
       _ \<leftarrow> dns_parse_name buffer ptr 0 (replicate 128 0) 0;
       answer_loop buffer k (ptr + datalen) items prints }
     else if DNS_HOST = typ then do {
       (items, prints) \<leftarrow>
         (if 4 = datalen then do {
            netip \<leftarrow> get_bytes buffer ptr 4;
            let ip = inet_ntop4 netip;
            s \<leftarrow> bstr aname;
            let t = wrap32 (int ttl);
            Some (items @ [\<lparr>i_domain = s, i_ip = ip\<rparr>], prints @ [Address s ip, Ttl (cdiv t 60) (t - 60 * cdiv t 60)]) }
          else Some (items, prints));
       answer_loop buffer k (ptr + datalen) items prints }
     else answer_loop buffer k ptr items prints }"

definition dns_parse_response :: "bool \<Rightarrow> u8 list \<Rightarrow> (int \<times> dns_item list \<times> dns_print list) option" where
  "dns_parse_response calloc_ok buffer = do {
     querys \<leftarrow> get_be16 buffer 4;
     answers \<leftarrow> get_be16 buffer 6;
     ptr \<leftarrow> skip_queries buffer querys 12;
     if \<not> calloc_ok then Some (-1, [], [])
     else do {
       (items, prints) \<leftarrow> answer_loop buffer answers ptr [] [];
       Some (int (length items), items, prints) } }"

text \<open>
  \<open>dns_client_commit\<close>: \<open>sock\<close> whether \<open>socket\<close> succeeds, \<open>rnd\<close> the random id, \<open>slen\<close> what \<open>sendto\<close> returns, \<open>n\<close> and
  \<open>reply\<close> what \<open>recvfrom\<close> returns and stores.  The result is the return value, the bytes sent and what was
  printed.  The response is parsed before \<open>n\<close> is looked at.
\<close>

definition dns_client_commit ::
  "bool \<Rightarrow> u16 \<Rightarrow> int \<Rightarrow> int \<times> u8 list \<Rightarrow> u8 list \<Rightarrow> (int \<times> u8 list \<times> dns_print list) option" where
  "dns_client_commit sock rnd slen reply domain =
     (if \<not> sock then Some (-1, [], [])
      else do {
        (_, q) \<leftarrow> dns_create_question (True, True) (Some domain);
        (case q of (ql, qt, qc, qn) \<Rightarrow> do {
          nm \<leftarrow> qn;
          (len, request) \<leftarrow> dns_build_request (snd (dns_create_header rnd (Some \<lparr>h_id = 0, flags = 0, questions = 0, answer = 0, authority = 0, additional = 0\<rparr>)))
            (Some \<lparr>q_length = ql, qtype = qt, qclass = qc, q_name = nm\<rparr>) 1024;
          let sent = take (nat len) request;
          if slen < 0 then Some (-1, sent, [])
          else do {
            response \<leftarrow> put_bytes (replicate 1024 0) 0 (snd reply);
            (_, _, prints) \<leftarrow> dns_parse_response True response;
            if fst reply < 0 then Some (-2, sent, prints) else Some (fst reply, sent, prints) } }) })"

section \<open>Encoding a host name\<close>

text \<open>The reference: split at every dot, drop the empty labels, put a length byte before each.\<close>

fun split_dots :: "u8 list \<Rightarrow> u8 list list" where
  "split_dots [] = [[]]"
| "split_dots (c # s) = (if c = dot then [] # split_dots s
     else (case split_dots s of l # ls \<Rightarrow> (c # l) # ls | [] \<Rightarrow> [[c]]))"

definition labels :: "u8 list \<Rightarrow> u8 list list" where
  "labels s = filter (\<lambda>l. l \<noteq> []) (split_dots s)"

definition enc_label :: "u8 list \<Rightarrow> u8 list" where
  "enc_label l = of_nat (length l) # l"

lemma split_dots_takeWhile:
  "split_dots s = takeWhile (\<lambda>c. c \<noteq> dot) s #
     (case dropWhile (\<lambda>c. c \<noteq> dot) s of [] \<Rightarrow> [] | _ # r \<Rightarrow> split_dots r)"
  by (induction s) (simp_all split: list.splits)

lemma labels_Nil [simp]: "labels [] = []"
  by (simp add: labels_def)

lemma labels_dropWhile: "labels (dropWhile (\<lambda>c. c = dot) s) = labels s"
  by (induction s) (simp_all add: labels_def)

lemma strtok_None: "strtok s = None \<Longrightarrow> labels s = []"
  using labels_dropWhile [of s] by (cases "dropWhile (\<lambda>c. c = dot) s") (simp_all add: strtok_def)

lemma strtok_Some:
  assumes s: "strtok s = Some (t, r)"
  shows "labels s = t # labels r" "t \<noteq> []" "s \<noteq> []"
    "length t + length r + 1 \<le> length s \<or> r = [] \<and> length t \<le> length s"
proof -
  obtain x xs where d: "dropWhile (\<lambda>c. c = dot) s = x # xs"
    using s by (cases "dropWhile (\<lambda>c. c = dot) s") (simp_all add: strtok_def)
  have x: "x \<noteq> dot" using hd_dropWhile [of "\<lambda>c. c = dot" s] d by simp
  have t: "t = takeWhile (\<lambda>c. c \<noteq> dot) (x # xs)" and r: "r = drop 1 (dropWhile (\<lambda>c. c \<noteq> dot) (x # xs))"
    using s d by (simp_all add: strtok_def)
  show "t \<noteq> []" using t x by simp
  then show "labels s = t # labels r"
    using labels_dropWhile [of s] x unfolding d labels_def split_dots_takeWhile [of "x # xs"] t r
    by (cases "dropWhile (\<lambda>c. c \<noteq> dot) xs") (simp_all del: dropWhile_eq_Nil_conv)
  show "s \<noteq> []" using d by auto
  have "length t + length (dropWhile (\<lambda>c. c \<noteq> dot) (x # xs)) = length (x # xs)"
    unfolding t by (metis length_append takeWhile_dropWhile_id)
  moreover have "length (x # xs) \<le> length s" using length_dropWhile_le [of "\<lambda>c. c = dot" s] d by simp
  ultimately show "length t + length r + 1 \<le> length s \<or> r = [] \<and> length t \<le> length s"
    unfolding r by (cases "dropWhile (\<lambda>c. c \<noteq> dot) (x # xs)") auto
qed

lemma convert_loop_encodes:
  "pos + (if s = [] then 1 else length s + 2) \<le> length arr \<Longrightarrow>
   convert_loop s pos arr = put_bytes arr pos (concat (map enc_label (labels s)) @ [0]) \<and>
   pos + length (concat (map enc_label (labels s))) + 1 \<le> length arr"
proof (induction s pos arr rule: convert_loop.induct)
  case (1 s pos arr)
  show ?case
  proof (cases "strtok s")
    case None
    then show ?thesis using 1(2) strtok_None [OF None] by (simp add: convert_loop.simps [of s] split: if_splits)
  next
    case (Some tr)
    obtain t r where tr: "tr = (t, r)" by (cases tr)
    note S = Some [unfolded tr]
    note T = strtok_Some [OF S]
    have room: "pos + length s + 2 \<le> length arr" using 1(2) T(3) by simp
    let ?e = "enc_label t"
    have e: "length ?e = length t + 1" by (simp add: enc_label_def)
    have fits: "pos + length ?e \<le> length arr" using room T(4) e by auto
    obtain a1 where a1: "put_bytes arr pos [of_nat (length t)] = Some a1"
      using fits by (simp add: put_bytes_def e)
    obtain a2 where a2: "put_bytes a1 (pos + 1) t = Some a2"
      using fits put_bytes_length [OF a1] by (simp add: put_bytes_def e)
    have a12: "put_bytes arr pos ?e = Some a2"
      using put_bytes_put_bytes [of pos "[of_nat (length t)]" t arr] fits a1 a2 by (simp add: enc_label_def)
    have len: "length a2 = length arr" using a12 by (rule put_bytes_length)
    have "pos + 1 + length t + (if r = [] then 1 else length r + 2) \<le> length a2"
      using T(4) room len by auto
    from 1(1) [OF S refl refl a1 a2 this]
    have ih: "convert_loop r (pos + 1 + length t) a2 = put_bytes a2 (pos + 1 + length t) (concat (map enc_label (labels r)) @ [0])"
      and ihl: "pos + 1 + length t + length (concat (map enc_label (labels r))) + 1 \<le> length a2" by simp_all
    have "convert_loop s pos arr = put_bytes a2 (pos + length ?e) (concat (map enc_label (labels r)) @ [0])"
      using S a1 a2 ih by (simp add: convert_loop.simps [of s] e)
    also have "\<dots> = put_bytes arr pos (?e @ concat (map enc_label (labels r)) @ [0])"
      using put_bytes_put_bytes [of pos ?e "concat (map enc_label (labels r)) @ [0]" arr] a12 ihl len by (simp add: e)
    finally show ?thesis using ihl len by (simp add: T(1) e)
  qed
qed

lemma convert_domain_encodes:
  "convert_domain (True, True) (Some d) =
     Some (Some (concat (map enc_label (labels d)) @ replicate (length d + 2 - length (concat (map enc_label (labels d)))) 0))
   \<and> length (concat (map enc_label (labels d))) < length d + 2"
proof -
  let ?e = "concat (map enc_label (labels d))" and ?z = "replicate (length d + 2) (0 :: u8)"
  have "0 + (if d = [] then 1 else length d + 2) \<le> length ?z" by simp
  from convert_loop_encodes [OF this]
  have c: "convert_loop d 0 ?z = put_bytes ?z 0 (?e @ [0])" and l: "length ?e < length d + 2" by simp_all
  have "put_bytes ?z 0 (?e @ [0]) = Some (?e @ 0 # replicate (length d + 2 - (length ?e + 1)) 0)"
    using l by (simp add: put_bytes_def del: replicate_Suc)
  also have "0 # replicate (length d + 2 - (length ?e + 1)) (0 :: u8) = replicate (length d + 2 - length ?e) 0"
  proof -
    have "length d + 2 - length ?e = Suc (length d + 2 - (length ?e + 1))" using l by linarith
    then show ?thesis by (simp only: replicate_Suc)
  qed
  finally show ?thesis using c l by (simp add: convert_domain_def)
qed

section \<open>Decoding a name\<close>

text \<open>
  \<open>name_at msg i ls\<close>: the bytes of \<open>msg\<close> at \<open>i\<close> stand for the labels \<open>ls\<close>, directly or over
  compression pointers; a pointer leads to a name of one label at least.
\<close>

inductive name_at :: "u8 list \<Rightarrow> nat \<Rightarrow> u8 list list \<Rightarrow> bool" for msg where
  stop: "\<lbrakk>i < length msg; msg ! i = 0\<rbrakk> \<Longrightarrow> name_at msg i []"
| label: "\<lbrakk>i + 1 + length l < length msg; 0 < length l; length l < 192; msg ! i = of_nat (length l);
      take (length l) (drop (i + 1) msg) = l; name_at msg (i + 1 + length l) ls\<rbrakk> \<Longrightarrow> name_at msg i (l # ls)"
| compressed: "\<lbrakk>i + 1 < length msg; is_pointer (unat (msg ! i));
      name_at msg ((unat (msg ! i) AND 0x3F) * 256 + unat (msg ! (i + 1))) (l # ls)\<rbrakk> \<Longrightarrow> name_at msg i (l # ls)"

inductive_cases name_at_NilE: "name_at msg i []"

fun join_dots :: "u8 list list \<Rightarrow> u8 list" where
  "join_dots [] = []"
| "join_dots [l] = l"
| "join_dots (l # m # ls) = l @ dot # join_dots (m # ls)"

lemma and_192: "192 AND n = 64 * (n div 64 mod (4 :: nat))"
proof -
  have "192 AND n = push_bit 6 (mask 2) AND n" by (simp add: mask_eq_exp_minus_1 push_bit_eq_mult)
  also have "\<dots> = push_bit 6 (take_bit 2 (drop_bit 6 n))"
    by (rule bit_eqI) (auto simp: bit_simps)
  finally show ?thesis by (simp add: push_bit_eq_mult take_bit_eq_mod drop_bit_eq_div)
qed

lemma is_pointer_iff: "n < 256 \<Longrightarrow> is_pointer n \<longleftrightarrow> 192 \<le> n"
proof -
  assume n: "n < 256"
  have "n div 64 mod 4 = n div 64" using n by (simp add: less_mult_imp_div_less)
  moreover have "n div 64 = 3 \<longleftrightarrow> 192 \<le> n" using n by (auto simp: div_nat_eqI dest: div_le_mono [of 192 n 64])
  ultimately show ?thesis by (simp add: is_pointer_def and_192)
qed

lemma is_pointer_0 [simp]: "\<not> is_pointer 0"
  by (simp add: is_pointer_def)

lemma name_at_first: "name_at msg i ls \<Longrightarrow> i < length msg \<and> (ls = [] \<longleftrightarrow> msg ! i = 0)"
proof (induction rule: name_at.induct)
  case (label i l ls)
  have "unat (of_nat (length l) :: u8) = length l" using label by (simp add: unat_of_nat)
  then have "msg ! i \<noteq> 0" using label by (metis unat_0 less_irrefl)
  then show ?case using label by simp
next
  case (compressed i l ls)
  then show ?case by (cases "msg ! i = 0") simp_all
qed simp

lemma parse_stop:
  assumes "i < length msg" "msg ! i = 0"
  shows "dns_parse_name msg i pos buf len = Some (buf, len)"
  using assms by (subst dns_parse_name.simps) simp

lemma parse_pointer:
  assumes "i + 1 < length msg" "is_pointer (unat (msg ! i))"
  shows "dns_parse_name msg i pos buf len =
    dns_parse_name msg ((unat (msg ! i) AND 0x3F) * 256 + unat (msg ! (i + 1))) len buf len"
proof -
  have "unat (msg ! i) \<noteq> 0" using assms(2) by (metis is_pointer_0)
  then show ?thesis using assms by (subst dns_parse_name.simps) simp
qed

lemma parse_label:
  assumes "i + 1 + length l < length msg" "0 < length l" "length l < 192" "msg ! i = of_nat (length l)"
    "take (length l) (drop (i + 1) msg) = l" "put_bytes buf pos (l @ (if msg ! (i + 1 + length l) = 0 then [] else [dot])) = Some buf'"
  shows "dns_parse_name msg i pos buf len =
    (let n = length l + (if msg ! (i + 1 + length l) = 0 then 0 else 1) in
     dns_parse_name msg (i + 1 + length l) (pos + n) buf' (len + n))"
proof -
  have u: "unat (of_nat (length l) :: u8) = length l" using assms by (simp add: unat_of_nat)
  have np: "\<not> is_pointer (length l)" using assms(3) is_pointer_iff [of "length l"] by simp
  have gb: "get_bytes msg (Suc i) (length l) = Some l" using assms(1,5) by (simp add: get_bytes_def)
  have fits: "pos + length l \<le> length buf" using assms(6) by (auto simp: put_bytes_def split: if_splits)
  then obtain b1 where b1: "put_bytes buf pos l = Some b1" by (simp add: put_bytes_def)
  show ?thesis
  proof (cases "msg ! (i + 1 + length l) = 0")
    case True
    then show ?thesis using assms u np gb b1 by (subst dns_parse_name.simps) simp
  next
    case False
    have "put_bytes b1 (pos + length l) [dot] = Some buf'"
      using False assms(6) put_bytes_put_bytes [of pos l "[dot]" buf] b1 put_bytes_fits [OF assms(6)] by simp
    then show ?thesis using False assms u np gb b1 by (subst dns_parse_name.simps) (simp add: Let_def)
  qed
qed

lemma parse_name_reads:
  "name_at msg i ls \<Longrightarrow> pos + length (join_dots ls) \<le> length buf \<Longrightarrow>
   dns_parse_name msg i pos buf pos = map_option (\<lambda>b. (b, pos + length (join_dots ls))) (put_bytes buf pos (join_dots ls))"
proof (induction arbitrary: pos buf rule: name_at.induct)
  case (stop i)
  then show ?case by (simp add: parse_stop put_bytes_def)
next
  case (compressed i l ls)
  then show ?case by (simp add: parse_pointer)
next
  case (label i l ls)
  note nx = name_at_first [OF label(6)]
  show ?case
  proof (cases ls)
    case Nil
    then have "put_bytes buf pos (l @ (if msg ! (i + 1 + length l) = 0 then [] else [dot])) = Some (take pos buf @ l @ drop (pos + length l) buf)"
      using nx label(8) by (simp add: put_bytes_def)
    from parse_label [OF label(1-5) this] show ?thesis using nx Nil label(8)
      by (simp add: parse_stop put_bytes_def)
  next
    case (Cons m ms)
    let ?b = "take pos buf @ (l @ [dot]) @ drop (pos + length (l @ [dot])) buf"
    have pb: "put_bytes buf pos (l @ [dot]) = Some ?b" using label(8) Cons by (intro put_bytes_Some) simp
    then have "put_bytes buf pos (l @ (if msg ! (i + 1 + length l) = 0 then [] else [dot])) = Some ?b"
      using nx Cons by simp
    from parse_label [OF label(1-5) this, of pos]
    have "dns_parse_name msg i pos buf pos = dns_parse_name msg (i + 1 + length l) (pos + length l + 1) ?b (pos + length l + 1)"
      using nx Cons by simp
    also have "\<dots> = map_option (\<lambda>b. (b, pos + length l + 1 + length (join_dots ls))) (put_bytes ?b (pos + length l + 1) (join_dots ls))"
      using label(8) Cons by (intro label(7)) simp
    also have "put_bytes ?b (pos + length l + 1) (join_dots ls) = put_bytes buf pos ((l @ [dot]) @ join_dots ls)"
      using put_bytes_put_bytes [of pos "l @ [dot]" "join_dots ls" buf] pb label(8) Cons by simp
    finally show ?thesis using Cons by (simp add: add.assoc)
  qed
qed

section \<open>The request carries the name\<close>

definition label_ok :: "u8 list \<Rightarrow> bool" where
  "label_ok l \<longleftrightarrow> l \<noteq> [] \<and> length l < 192 \<and> dot \<notin> set l \<and> 0 \<notin> set l"

abbreviation enc_labels :: "u8 list list \<Rightarrow> u8 list" where
  "enc_labels ls \<equiv> concat (map enc_label ls)"

lemma enc_label_length [simp]: "length (enc_label l) = length l + 1"
  by (simp add: enc_label_def)

lemma split_dots_append: "dot \<notin> set l \<Longrightarrow> split_dots (l @ dot # r) = l # split_dots r"
  by (induction l) simp_all

lemma split_dots_plain: "dot \<notin> set l \<Longrightarrow> split_dots l = [l]"
  by (induction l) simp_all

lemma labels_join: "\<forall>l \<in> set ls. label_ok l \<Longrightarrow> labels (join_dots ls) = ls"
  by (induction ls rule: join_dots.induct) (simp_all add: labels_def label_ok_def split_dots_append split_dots_plain)

lemma enc_labels_length: "ls \<noteq> [] \<Longrightarrow> length (enc_labels ls) = length (join_dots ls) + 1"
  by (induction ls rule: join_dots.induct) simp_all

lemma name_at_encoded:
  "\<forall>l \<in> set ls. label_ok l \<Longrightarrow> name_at (pre @ enc_labels ls @ 0 # post) (length pre) ls"
proof (induction ls arbitrary: pre)
  case Nil
  then show ?case by (simp add: name_at.stop nth_append)
next
  case (Cons l ls)
  have "name_at ((pre @ enc_label l) @ enc_labels ls @ 0 # post) (length (pre @ enc_label l)) ls"
    using Cons.prems by (intro Cons.IH) simp
  then show ?case using Cons.prems
    by (intro name_at.label) (simp_all add: label_ok_def enc_label_def [of l] nth_append)
qed

lemma question_bytes:
  assumes "\<forall>l \<in> set ls. label_ok l" "ls \<noteq> []"
  shows "dns_create_question (True, True) (Some (join_dots ls)) =
    Some (0, length (join_dots ls) + 2, htons 1, htons 1, Some (enc_labels ls @ [0]))"
  using assms convert_domain_encodes [of "join_dots ls"]
  by (simp add: dns_create_question_def labels_join enc_labels_length)

lemma header_bytes_length [simp]: "length (header_bytes h) = 12"
  by (simp add: header_bytes_def le16_def)

lemma put_bytes_fill:
  "put_bytes (xs @ replicate n 0) (length xs) bs = (if length bs \<le> n then Some (xs @ bs @ replicate (n - length bs) 0) else None)"
  by (simp add: put_bytes_def)

lemma build_request_bytes:
  assumes q: "length (q_name q) = q_length q" and room: "q_length q + 16 \<le> rlen"
  shows "dns_build_request (Some h) (Some q) rlen =
    Some (int (q_length q + 16), header_bytes h @ q_name q @ le16 (qtype q) @ le16 (qclass q) @ replicate (rlen - (q_length q + 16)) 0)"
proof -
  have l: "length (le16 x) = 2" for x by (simp add: le16_def)
  have gb: "get_bytes (q_name q) 0 (q_length q) = Some (q_name q)" using q by (simp add: get_bytes_def)
  have p0: "put_bytes (replicate rlen 0) 0 (header_bytes h) = Some (header_bytes h @ replicate (rlen - 12) 0)"
    using put_bytes_fill [of "[]" rlen "header_bytes h"] room by simp
  have p1: "put_bytes (header_bytes h @ replicate (rlen - 12) 0) 12 (q_name q) =
      Some ((header_bytes h @ q_name q) @ replicate (rlen - 12 - q_length q) 0)"
    using put_bytes_fill [of "header_bytes h" "rlen - 12" "q_name q"] room q by simp
  have p2: "put_bytes ((header_bytes h @ q_name q) @ replicate (rlen - 12 - q_length q) 0) (12 + q_length q) (le16 (qtype q)) =
      Some ((header_bytes h @ q_name q @ le16 (qtype q)) @ replicate (rlen - 12 - q_length q - 2) 0)"
    using put_bytes_fill [of "header_bytes h @ q_name q" "rlen - 12 - q_length q" "le16 (qtype q)"] room q by (simp add: l)
  have p3: "put_bytes ((header_bytes h @ q_name q @ le16 (qtype q)) @ replicate (rlen - 12 - q_length q - 2) 0) (12 + q_length q + 2) (le16 (qclass q)) =
      Some (header_bytes h @ q_name q @ le16 (qtype q) @ le16 (qclass q) @ replicate (rlen - 12 - q_length q - 2 - 2) 0)"
    using put_bytes_fill [of "header_bytes h @ q_name q @ le16 (qtype q)" "rlen - 12 - q_length q - 2" "le16 (qclass q)"] room q
    by (simp add: l)
  show ?thesis using room
    by (simp add: dns_build_request_def Let_def p0 gb p1 [simplified] p2 [simplified] p3 [simplified])
qed

text \<open>C26: The request that the client builds for a host name of at most 127 characters carries that name: for
  labels without dots and of at most 191 characters, the question section is the encoded name, and
  the program's own name decoder reads exactly the host name back out of it.\<close>

theorem request_roundtrip:
  assumes ok: "\<forall>l \<in> set ls. label_ok l" and ne: "ls \<noteq> []" and short: "length (join_dots ls) < 128"
  shows "\<exists>qn req. dns_create_question (True, True) (Some (join_dots ls)) = Some (0, length (join_dots ls) + 2, htons 1, htons 1, Some qn) \<and>
    dns_build_request (Some h) (Some \<lparr>q_length = length (join_dots ls) + 2, qtype = htons 1, qclass = htons 1, q_name = qn\<rparr>) 1024 =
      Some (int (length (join_dots ls)) + 18, req) \<and>
    take 12 req = header_bytes h \<and>
    dns_parse_name req 12 0 (replicate 128 0) 0 = Some (join_dots ls @ replicate (128 - length (join_dots ls)) 0, length (join_dots ls))"
proof (intro exI conjI)
  let ?d = "join_dots ls" and ?qn = "enc_labels ls @ [0]"
  let ?q = "\<lparr>q_length = length ?d + 2, qtype = htons 1, qclass = htons 1, q_name = ?qn\<rparr>"
  let ?tail = "le16 (htons 1) @ le16 (htons 1) @ replicate (1024 - (length ?d + 2 + 16)) 0"
  let ?req = "header_bytes h @ ?qn @ ?tail"
  show "dns_create_question (True, True) (Some ?d) = Some (0, length ?d + 2, htons 1, htons 1, Some ?qn)"
    by (rule question_bytes [OF ok ne])
  show "dns_build_request (Some h) (Some ?q) 1024 = Some (int (length ?d) + 18, ?req)"
    using build_request_bytes [of ?q 1024 h] short by (simp add: enc_labels_length [OF ne])
  show "take 12 ?req = header_bytes h" by simp
  have "name_at ?req 12 ls"
    using name_at_encoded [OF ok, of "header_bytes h" ?tail] by simp
  from parse_name_reads [OF this, of 0 "replicate 128 0"]
  show "dns_parse_name ?req 12 0 (replicate 128 0) 0 = Some (?d @ replicate (128 - length ?d) 0, length ?d)"
    using short by (simp add: put_bytes_def)
qed

theorem request_roundtrip_witness:
  "\<exists>qn req. dns_create_question (True, True) (Some [119, 119, 46, 97, 46, 99, 110]) = Some (0, 9, htons 1, htons 1, Some qn) \<and>
    dns_build_request (Some \<lparr>h_id = 7, flags = 1, questions = 256, answer = 0, authority = 0, additional = 0\<rparr>)
      (Some \<lparr>q_length = 9, qtype = htons 1, qclass = htons 1, q_name = qn\<rparr>) 1024 = Some (25, req) \<and>
    dns_parse_name req 12 0 (replicate 128 0) 0 = Some ([119, 119, 46, 97, 46, 99, 110] @ replicate 121 0, 7)"
proof -
  let ?ls = "[[119, 119], [97], [99, 110]] :: u8 list list"
  have h: "\<forall>l \<in> set ?ls. label_ok l" "?ls \<noteq> []" "length (join_dots ?ls) < 128" by (simp_all add: label_ok_def)
  obtain qn req where "dns_create_question (True, True) (Some (join_dots ?ls)) = Some (0, length (join_dots ?ls) + 2, htons 1, htons 1, Some qn)"
    "dns_build_request (Some \<lparr>h_id = 7, flags = 1, questions = 256, answer = 0, authority = 0, additional = 0\<rparr>)
      (Some \<lparr>q_length = length (join_dots ?ls) + 2, qtype = htons 1, qclass = htons 1, q_name = qn\<rparr>) 1024 = Some (int (length (join_dots ?ls)) + 18, req)"
    "dns_parse_name req 12 0 (replicate 128 0) 0 = Some (join_dots ?ls @ replicate (128 - length (join_dots ?ls)) 0, length (join_dots ?ls))"
    using request_roundtrip [OF h, of "\<lparr>h_id = 7, flags = 1, questions = 256, answer = 0, authority = 0, additional = 0\<rparr>"] by blast
  then show ?thesis by (simp add: numeral_eq_Suc)
qed

section \<open>Parsing a reply\<close>

definition rr_head :: "u8 list \<Rightarrow> nat \<Rightarrow> u8 list list \<Rightarrow> nat \<Rightarrow> nat \<Rightarrow> nat \<Rightarrow> bool" where
  "rr_head msg ptr owner typ ttl len \<longleftrightarrow>
     name_at msg ptr owner \<and> length (join_dots owner) < 128 \<and> 0 \<notin> set (join_dots owner) \<and>
     get_be16 msg (ptr + 2) = Some typ \<and> get_be32 msg (ptr + 6) = Some ttl \<and> get_be16 msg (ptr + 10) = Some len"

datatype rr = Host "u8 list list" nat "u8 list" | Alias "u8 list list" nat nat "u8 list list"

fun answers_at :: "u8 list \<Rightarrow> nat \<Rightarrow> rr list \<Rightarrow> bool" where
  "answers_at msg ptr [] \<longleftrightarrow> True"
| "answers_at msg ptr (Host owner ttl ip # rs) \<longleftrightarrow> rr_head msg ptr owner 1 ttl 4 \<and>
     get_bytes msg (ptr + 12) 4 = Some ip \<and> answers_at msg (ptr + 16) rs"
| "answers_at msg ptr (Alias owner ttl len target # rs) \<longleftrightarrow> rr_head msg ptr owner 5 ttl len \<and>
     name_at msg (ptr + 12) target \<and> length (join_dots target) < 128 \<and> answers_at msg (ptr + 12 + len) rs"

fun items_of :: "rr list \<Rightarrow> dns_item list" where
  "items_of [] = []"
| "items_of (Host owner ttl ip # rs) = \<lparr>i_domain = join_dots owner, i_ip = inet_ntop4 ip\<rparr> # items_of rs"
| "items_of (Alias owner ttl len target # rs) = items_of rs"

lemma parse_name_128:
  assumes "name_at msg ptr ls" "length (join_dots ls) < 128"
  shows "dns_parse_name msg ptr 0 (replicate 128 0) 0 =
    Some (join_dots ls @ replicate (128 - length (join_dots ls)) 0, length (join_dots ls))"
  using parse_name_reads [OF assms(1), of 0 "replicate 128 0"] assms(2) by (simp add: put_bytes_def)

lemma bstr_padded: "0 \<notin> set s \<Longrightarrow> 0 < n \<Longrightarrow> bstr (s @ replicate n 0) = Some s"
  by (cases n) (auto simp: bstr_def takeWhile_append)

fun prints_of :: "rr list \<Rightarrow> dns_print list" where
  "prints_of [] = []"
| "prints_of (Host owner ttl ip # rs) = (let t = wrap32 (int ttl) in
     Address (join_dots owner) (inet_ntop4 ip) # Ttl (cdiv t 60) (t - 60 * cdiv t 60) # prints_of rs)"
| "prints_of (Alias owner ttl len target # rs) = prints_of rs"

lemma answer_loop_reads:
  "answers_at msg ptr rs \<Longrightarrow>
   answer_loop msg (length rs) ptr items ps = Some (items @ items_of rs, ps @ prints_of rs)"
proof (induction rs arbitrary: ptr items ps)
  case (Cons r rs)
  show ?case
  proof (cases r)
    case (Host owner ttl ip)
    note h = Cons.prems [unfolded Host answers_at.simps rr_head_def]
    have "dns_parse_name msg ptr 0 (replicate 128 0) 0 =
        Some (join_dots owner @ replicate (128 - length (join_dots owner)) 0, length (join_dots owner))"
      using h by (intro parse_name_128) simp_all
    moreover have "bstr (join_dots owner @ replicate (128 - length (join_dots owner)) 0) = Some (join_dots owner)"
      using h by (intro bstr_padded) simp_all
    ultimately show ?thesis using h Cons.IH [of "ptr + 16"] Host
      by (simp add: DNS_HOST_def DNS_CNAME_def Let_def add.commute)
  next
    case (Alias owner ttl len target)
    note h = Cons.prems [unfolded Alias answers_at.simps rr_head_def]
    have "dns_parse_name msg ptr 0 (replicate 128 0) 0 =
        Some (join_dots owner @ replicate (128 - length (join_dots owner)) 0, length (join_dots owner))"
      using h by (intro parse_name_128) simp_all
    moreover have "dns_parse_name msg (ptr + 12) 0 (replicate 128 0) 0 =
        Some (join_dots target @ replicate (128 - length (join_dots target)) 0, length (join_dots target))"
      using h by (intro parse_name_128) simp_all
    ultimately show ?thesis using h Cons.IH [of "ptr + 12 + len"] Alias
      by (simp add: DNS_HOST_def DNS_CNAME_def Let_def add.commute)
  qed
qed simp

text \<open>The questions of the reply: encoded names, each followed by its type and class.\<close>

fun questions_at :: "u8 list \<Rightarrow> nat \<Rightarrow> u8 list list list \<Rightarrow> nat \<Rightarrow> bool" where
  "questions_at msg ptr [] p \<longleftrightarrow> p = ptr"
| "questions_at msg ptr (q # qs) p \<longleftrightarrow>
     get_bytes msg ptr (length (enc_labels q) + 1) = Some (enc_labels q @ [0]) \<and>
     (\<forall>l \<in> set q. label_ok l) \<and> questions_at msg (ptr + length (enc_labels q) + 5) qs p"

lemma skip_name_encoded:
  "get_bytes msg ptr (length (enc_labels q) + 1) = Some (enc_labels q @ [0]) \<Longrightarrow> \<forall>l \<in> set q. label_ok l \<Longrightarrow>
   skip_name msg ptr = Some (ptr + length (enc_labels q) + 1)"
proof (induction q arbitrary: ptr)
  case Nil
  then have "ptr < length msg" "msg ! ptr = 0"
    by (auto simp: get_bytes_Some take_Suc_conv_app_nth [of 0] hd_drop_conv_nth take_Suc)
  then show ?case by (simp add: skip_name.simps)
next
  case (Cons l q)
  let ?n = "length l + 1" and ?m = "length (enc_labels q) + 1"
  have fit: "ptr + (?n + ?m) \<le> length msg" and bs: "take (?n + ?m) (drop ptr msg) = enc_label l @ enc_labels q @ [0]"
    using Cons.prems(1) by (auto simp: get_bytes_Some add.assoc add.left_commute add.commute)
  have "take ?n (drop ptr msg) = take ?n (take (?n + ?m) (drop ptr msg))" by simp
  then have first: "take ?n (drop ptr msg) = enc_label l" unfolding bs by simp
  then have "(take ?n (drop ptr msg)) ! 0 = of_nat (length l)" by (simp add: enc_label_def)
  then have b: "msg ! ptr = of_nat (length l)" using fit by simp
  have "take ?m (drop (ptr + ?n) msg) = drop ?n (take (?n + ?m) (drop ptr msg))" by (simp add: drop_take add.commute)
  then have "get_bytes msg (ptr + ?n) ?m = Some (enc_labels q @ [0])" using bs fit by (simp add: get_bytes_Some)
  from Cons.IH [OF this] have ih: "skip_name msg (ptr + ?n) = Some (ptr + ?n + ?m)" using Cons.prems(2) by simp
  have u: "unat (of_nat (length l) :: u8) = length l" using Cons.prems(2) by (simp add: label_ok_def unat_of_nat)
  moreover have "0 < length l" using Cons.prems(2) by (simp add: label_ok_def)
  ultimately have "(of_nat (length l) :: u8) \<noteq> 0" by (metis unat_0 less_irrefl)
  then show ?case using fit b u ih by (subst skip_name.simps) (simp add: add.assoc)
qed

lemma skip_queries_reads: "questions_at msg ptr qs p \<Longrightarrow> skip_queries msg (length qs) ptr = Some p"
proof (induction qs arbitrary: ptr)
  case (Cons q qs)
  then show ?case using skip_name_encoded [of msg ptr q] by (simp add: ac_simps)
qed simp

text \<open>C27: On a reply of any number of questions and of A and CNAME answers, with owner names of at most 127
  characters reached by the two-byte pointer the code expects, the parser returns exactly the A
  records in order, each with its owner name and its dotted address, counts them, and prints the
  address and the time to live of each.\<close>

theorem parse_response_reads:
  assumes "get_be16 msg 4 = Some (length qs)" and "get_be16 msg 6 = Some (length rs)"
    and "questions_at msg 12 qs p" and "answers_at msg p rs"
  shows "dns_parse_response True msg = Some (int (length (items_of rs)), items_of rs, prints_of rs)"
  using assms(1,2) skip_queries_reads [OF assms(3)] answer_loop_reads [OF assms(4), of "[]" "[]"]
  by (simp add: dns_parse_response_def)

text \<open>A pointer that points to itself: the decoder never returns.\<close>

lemma pointer_loop:
  assumes "i + 1 < length msg" "is_pointer (unat (msg ! i))"
    "(unat (msg ! i) AND 0x3F) * 256 + unat (msg ! (i + 1)) = i"
  shows "dns_parse_name msg i pos buf len = None"
proof (rule ccontr)
  assume "\<not> ?thesis"
  then obtain r where r: "dns_parse_name msg i pos buf len = Some r" by blast
  have "\<not> (msg = msg \<and> i = i)"
  proof (rule dns_parse_name.raw_induct [where P = "\<lambda>m j p b l r. \<not> (m = msg \<and> j = i)", OF _ r])
    fix f m j p b l r
    assume ih: "\<And>m j p b l y. f m j p b l = Some y \<Longrightarrow> \<not> (m = msg \<and> j = i)"
      and step: "get_byte m j \<bind> (\<lambda>x. let flag = unat x in
          if flag = 0 then Some (b, l)
          else if is_pointer flag then get_byte m (j + 1) \<bind> (\<lambda>c. let offset = (flag AND 63) * 256 + unat c in f m offset l b l)
          else get_bytes m (j + 1) flag \<bind> (\<lambda>bs. put_bytes b p bs \<bind> (\<lambda>b. get_byte m (j + 1 + flag) \<bind> (\<lambda>nxt.
            if nxt \<noteq> 0 then put_bytes b (p + flag) [dot] \<bind> (\<lambda>b. f m (j + 1 + flag) (p + flag + 1) b (l + flag + 1))
            else f m (j + 1 + flag) (p + flag) b (l + flag))))) = Some r"
    show "\<not> (m = msg \<and> j = i)"
    proof
      assume e: "m = msg \<and> j = i"
      have "unat (msg ! i) \<noteq> 0" using assms(2) by (metis is_pointer_0)
      then have "f msg i l b l = Some r" using step e assms by simp
      then show False using ih by blast
    qed
  qed
  then show False by simp
qed

definition sample_reply :: "u8 list" where
  "sample_reply = [0, 1, 0x81, 0x80, 0, 1, 0, 2, 0, 0, 0, 0,
     1, 97, 0, 0, 1, 0, 1,
     0xC0, 12, 0, 5, 0, 1, 0, 0, 0, 60, 0, 2, 0xC0, 12,
     0xC0, 12, 0, 1, 0, 1, 0, 0, 0, 61, 0, 4, 1, 2, 3, 4]"

lemma sample_name: "name_at sample_reply 12 [[97]]"
proof -
  have "name_at sample_reply 14 []" by (rule name_at.stop) (simp_all add: sample_reply_def)
  then show ?thesis by (intro name_at.label) (simp_all add: sample_reply_def)
qed

lemma sample_pointer: "i = 19 \<or> i = 31 \<or> i = 33 \<Longrightarrow> name_at sample_reply i [[97]]"
proof -
  assume i: "i = 19 \<or> i = 31 \<or> i = 33"
  then have b: "sample_reply ! i = 0xC0" "sample_reply ! (i + 1) = 12" by (auto simp: sample_reply_def)
  have len: "length sample_reply = 49" by (simp add: sample_reply_def)
  show ?thesis
  proof (rule name_at.compressed)
    show "i + 1 < length sample_reply" using i len by auto
    show "is_pointer (unat (sample_reply ! i))" unfolding b by (simp add: is_pointer_def)
    show "name_at sample_reply ((unat (sample_reply ! i) AND 0x3F) * 256 + unat (sample_reply ! (i + 1))) [[97]]"
      unfolding b using sample_name by simp
  qed
qed

theorem parse_response_reads_witness:
  "dns_parse_response True sample_reply =
     Some (1, [\<lparr>i_domain = [97], i_ip = [49, 46, 50, 46, 51, 46, 52]\<rparr>], [Address [97] [49, 46, 50, 46, 51, 46, 52], Ttl 1 1])"
proof -
  let ?rs = "[Alias [[97]] 60 2 [[97]], Host [[97]] 61 [1, 2, 3, 4]]"
  have h: "rr_head sample_reply 19 [[97]] 5 60 2" "rr_head sample_reply 33 [[97]] 1 61 4"
    using sample_pointer [of 19] sample_pointer [of 33]
    by (simp_all add: rr_head_def get_be16_def get_be32_def get_byte_def sample_reply_def)
  have "answers_at sample_reply 19 ?rs"
    using h sample_pointer [of 31] by (simp add: get_bytes_def) (simp add: sample_reply_def)
  moreover have "questions_at sample_reply 12 [[[97]]] 19"
    by (simp add: get_bytes_def enc_label_def label_ok_def) (simp add: sample_reply_def)
  moreover have "get_be16 sample_reply 4 = Some (length [[[97 :: u8]]])" "get_be16 sample_reply 6 = Some (length ?rs)"
    by (simp_all add: get_be16_def get_byte_def sample_reply_def)
  ultimately show ?thesis
    using parse_response_reads [of sample_reply "[[[97]]]" ?rs 19]
    by (simp add: inet_ntop4_def decimal_def wrap32_def cdiv_def)
qed

end
