(* ===== verification/Dns_Async.thy ===== *)
theory Dns_Async
  imports Thread_Pool Dns
begin

text \<open>
  The asynchronous DNS client (\<open>homework_dns_async\<close>): \<open>main.c\<close> gives every name of the command line to the thread pool, whose tasks run \<open>dns_client_commit\<close>.
  The pool is \<open>Thread_Pool\<close>, the client is \<open>Dns\<close>; here the two run together.  The conversion of a name is split at its calls of \<open>strtok\<close>, because \<open>strtok\<close>
  keeps its position in one static variable, \<open>saved\<close>, that all workers share.  A copy of a name made by \<open>strdup\<close> has a number of its own, and \<open>live\<close> tells which
  of them are allocated; reading another one, or writing behind the result, is \<open>Undefined\<close>.
\<close>

section \<open>State\<close>

text \<open>What a worker holds between two calls of \<open>strtok\<close>: its copy of the name, the result, the position in it, and the last token with the copy it points into.\<close>

datatype conv_pc = Idle | Copy nat "u8 list" nat nat "u8 list" | Call nat "u8 list" nat | Ready "u8 list"

record dns_async =
  a_pool :: "u8 list tpool"
  a_todo :: "u8 list list"
  saved :: "(nat \<times> u8 list) option"
  live :: "nat list"
  next_copy :: nat
  conv :: "nat \<Rightarrow> conv_pc"
  a_log :: "(u8 list \<times> u8 list \<times> dns_print list) list"

text \<open>The outcomes of the system calls of a lookup: \<open>socket\<close>, \<open>rand\<close>, \<open>sendto\<close>, and \<open>recvfrom\<close> with what it stores.\<close>

record lookup_io =
  io_sock :: bool
  io_rnd :: u16
  io_slen :: int
  io_reply :: "int \<times> u8 list"

section \<open>A task\<close>

text \<open>\<open>dns_client_commit\<close> after the conversion of the name.\<close>

definition dns_finish :: "lookup_io \<Rightarrow> nat \<Rightarrow> u8 list \<Rightarrow> (int \<times> u8 list \<times> dns_print list) option" where
  "dns_finish io n nm = do {
     (len, request) \<leftarrow> dns_build_request
       (snd (dns_create_header (io_rnd io) (Some \<lparr>h_id = 0, flags = 0, questions = 0, answer = 0, authority = 0, additional = 0\<rparr>)))
       (Some \<lparr>q_length = n, qtype = htons 1, qclass = htons 1, q_name = nm\<rparr>) 1024;
     let sent = take (nat len) request;
     if io_slen io < 0 then Some (-1, sent, [])
     else do {
       response \<leftarrow> put_bytes (replicate 1024 0) 0 (snd (io_reply io));
       (_, _, prints) \<leftarrow> dns_parse_response True response;
       if fst (io_reply io) < 0 then Some (-2, sent, prints) else Some (fst (io_reply io), sent, prints) } }"

definition task_done :: "nat \<Rightarrow> u8 list \<times> u8 list \<times> dns_print list \<Rightarrow> dns_async \<Rightarrow> dns_async outcome" where
  "task_done w e s = (case worker_step w (a_pool s) of
      Step p \<Rightarrow> Step (s\<lparr>a_pool := p, conv := (conv s)(w := Idle), a_log := a_log s @ [e]\<rparr>)
    | Undefined \<Rightarrow> Undefined
    | Blocked \<Rightarrow> Blocked)"

text \<open>The rest of the conversion once \<open>strtok\<close> has returned \<open>NULL\<close>: the closing zero, and the copy is freed.\<close>

definition conv_end :: "nat \<Rightarrow> nat \<Rightarrow> u8 list \<Rightarrow> nat \<Rightarrow> dns_async \<Rightarrow> dns_async outcome" where
  "conv_end w a res pos s = (case put_bytes res pos [0] of
      None \<Rightarrow> Undefined
    | Some res \<Rightarrow> Step (s\<lparr>live := remove1 a (live s), conv := (conv s)(w := Ready res)\<rparr>))"

text \<open>\<open>convert_domain\<close>, from one call of \<open>strtok\<close> to the next.\<close>

definition convert_step :: "nat \<Rightarrow> u8 list \<Rightarrow> dns_async \<Rightarrow> dns_async outcome" where
  "convert_step w d s = (case conv s w of
      Idle \<Rightarrow>
        let a = next_copy s;
            s = s\<lparr>next_copy := Suc a, live := a # live s\<rparr>;
            res = replicate (length d + 2) 0
        in (case strtok d of
              None \<Rightarrow> conv_end w a res 0 (s\<lparr>saved := Some (a, [])\<rparr>)
            | Some (token, rest) \<Rightarrow> Step (s\<lparr>saved := Some (a, rest), conv := (conv s)(w := Copy a res 0 a token)\<rparr>))
    | Copy a res pos b token \<Rightarrow>
        if b \<notin> set (live s) then Undefined
        else (case do { res \<leftarrow> put_bytes res pos [of_nat (length token)]; put_bytes res (pos + 1) token } of
                None \<Rightarrow> Undefined
              | Some res \<Rightarrow> Step (s\<lparr>conv := (conv s)(w := Call a res (pos + 1 + length token))\<rparr>))
    | Call a res pos \<Rightarrow>
        (case saved s of
           None \<Rightarrow> Undefined
         | Some (b, txt) \<Rightarrow>
             if b \<notin> set (live s) then Undefined
             else (case strtok txt of
                     None \<Rightarrow> conv_end w a res pos (s\<lparr>saved := Some (b, [])\<rparr>)
                   | Some (token, rest) \<Rightarrow> Step (s\<lparr>saved := Some (b, rest), conv := (conv s)(w := Copy a res pos b token)\<rparr>)))
    | Ready res \<Rightarrow> Blocked)"

text \<open>The next step of a worker that runs the task of the name \<open>d\<close>: \<open>dns_client_commit\<close>, then the task is freed.\<close>

definition task_entry :: "nat \<Rightarrow> lookup_io \<Rightarrow> u8 list \<Rightarrow> dns_async \<Rightarrow> dns_async outcome" where
  "task_entry w io d s = (case conv s w of
      Idle \<Rightarrow> if \<not> io_sock io then task_done w (d, [], []) s else convert_step w d s
    | Ready res \<Rightarrow>
        (case dns_finish io (length d + 2) res of
           None \<Rightarrow> Undefined
         | Some (_, sent, prints) \<Rightarrow> task_done w (d, sent, prints) s)
    | _ \<Rightarrow> convert_step w d s)"

section \<open>The program\<close>

definition on_pool :: "u8 list tpool outcome \<Rightarrow> dns_async \<Rightarrow> dns_async outcome" where
  "on_pool r s = (case r of Step p \<Rightarrow> Step (s\<lparr>a_pool := p\<rparr>) | Undefined \<Rightarrow> Undefined | Blocked \<Rightarrow> Blocked)"

text \<open>A step of a worker: of the pool, or of the task it runs.\<close>

definition async_worker :: "nat \<Rightarrow> lookup_io \<Rightarrow> dns_async \<Rightarrow> dns_async outcome" where
  "async_worker w io s =
     (if w \<notin> set (threads (a_pool s)) then Blocked
      else case pcs (a_pool s) w of
        Running t \<Rightarrow> (case t_mem (a_pool s) t of None \<Rightarrow> Undefined | Some n \<Rightarrow> task_entry w io (n_data n) s)
      | _ \<Rightarrow> on_pool (worker_step w (a_pool s)) s)"

text \<open>A step of \<open>main\<close>: it gives the next name to the pool (with the address \<open>malloc\<close> returns and the waiter that the signal wakes), and after the last one, once
  \<open>getchar\<close> has returned, it destroys the pool.\<close>

definition async_main :: "nat \<Rightarrow> nat \<Rightarrow> dns_async \<Rightarrow> dns_async outcome" where
  "async_main addr k s = (case a_todo s of
      d # ds \<Rightarrow> on_pool (push_new addr d k (a_pool s)) (s\<lparr>a_todo := ds\<rparr>)
    | [] \<Rightarrow> on_pool (destroy_step (a_pool s)) s)"

definition THREADCOUNT :: int where "THREADCOUNT = 20"

text \<open>The start of \<open>main\<close>; the result of \<open>nThreadPoolCreate\<close> is not looked at.  \<open>Inl\<close> is the return for want of names.\<close>

definition dns_main :: "u8 list list \<Rightarrow> (nat \<times> bool \<times> bool) list \<Rightarrow> (int + dns_async) option" where
  "dns_main argv cs =
     (if length argv < 2 then Some (Inl (-1))
      else case nThreadPoolCreate THREADCOUNT cs of
        None \<Rightarrow> None
      | Some (_, p) \<Rightarrow> Some (Inr \<lparr>a_pool = p, a_todo = tl argv, saved = None, live = [], next_copy = 0, conv = (\<lambda>_. Idle), a_log = []\<rparr>))"

inductive async_step :: "dns_async \<Rightarrow> dns_async \<Rightarrow> bool" where
  worker: "async_worker w io s = Step s' \<Longrightarrow> async_step s s'"
| wakeup: "w \<in> set (threads (a_pool s)) \<Longrightarrow> pcs (a_pool s) w = Waiting \<Longrightarrow>
    async_step s (s\<lparr>a_pool := (a_pool s)\<lparr>pcs := (pcs (a_pool s))(w := Locking)\<rparr>\<rparr>)"
| main: "addr \<noteq> 0 \<Longrightarrow> t_mem (a_pool s) addr = None \<Longrightarrow> signal_ok k (a_pool s) \<Longrightarrow> async_main addr k s = Step s' \<Longrightarrow> async_step s s'"

inductive async_run :: "dns_async \<Rightarrow> dns_async \<Rightarrow> bool" for s0 where
  async_refl: "async_run s0 s0"
| async_next: "async_run s0 s \<Longrightarrow> async_step s s' \<Longrightarrow> async_run s0 s'"

section \<open>The pool under the client\<close>

lemma worker_frame:
  assumes "worker_step w s = Step s'"
  shows "main_pc s' = main_pc s \<and> pushed s' = pushed s \<and> threads s' = threads s"
    and "\<forall>t. pcs s w \<noteq> Running t \<Longrightarrow> ran s' = ran s"
    and "pcs s w = Running t \<Longrightarrow> t_mem s t = Some n \<Longrightarrow> ran s' = ran s @ [n_data n]"
  using assms by (auto simp: worker_step_def split: if_splits pc.splits option.splits prod.splits)

lemma push_frame: "push_new a v k s = Step s' \<Longrightarrow> pushed s' = pushed s @ [v] \<and> ran s' = ran s \<and> threads s' = threads s"
  by (auto simp: push_new_def nThreadPoolPushTask_def cond_signal_def split: if_splits option.splits prod.splits)

lemma destroy_frame: "destroy_step s = Step s' \<Longrightarrow> pushed s' = pushed s \<and> ran s' = ran s \<and> threads s' = threads s"
  by (auto simp: destroy_step_def cond_broadcast_def split: main_pc.splits if_splits option.splits)

lemma conv_end_Step: "conv_end w a res pos s = Step s' \<Longrightarrow>
    \<exists>arr. put_bytes res pos [0] = Some arr \<and> s' = s\<lparr>live := remove1 a (live s), conv := (conv s)(w := Ready arr)\<rparr>"
  by (auto simp: conv_end_def split: option.splits)

lemma task_done_Step: "task_done w e s = Step s' \<Longrightarrow>
    \<exists>p. worker_step w (a_pool s) = Step p \<and> s' = s\<lparr>a_pool := p, conv := (conv s)(w := Idle), a_log := a_log s @ [e]\<rparr>"
  by (auto simp: task_done_def split: outcome.splits)

text \<open>A step of a task converts, or ends the task and notes what it sent.\<close>

lemma task_entry_Step:
  assumes "task_entry w io d s = Step s'"
  shows "(\<exists>p r. worker_step w (a_pool s) = Step p \<and> s' = s\<lparr>a_pool := p, conv := (conv s)(w := Idle), a_log := a_log s @ [(d, r)]\<rparr>) \<or>
    (a_pool s' = a_pool s \<and> a_log s' = a_log s \<and> a_todo s' = a_todo s)"
  using assms
  by (cases "conv s w") (auto simp: task_entry_def convert_step_def Let_def split: if_splits option.splits prod.splits dest!: task_done_Step conv_end_Step)

lemma on_pool_Step: "on_pool r s = Step s' \<Longrightarrow> \<exists>p. r = Step p \<and> s' = s\<lparr>a_pool := p\<rparr>"
  by (auto simp: on_pool_def split: outcome.splits)

definition async_inv :: "u8 list list \<Rightarrow> dns_async \<Rightarrow> bool" where
  "async_inv names s \<longleftrightarrow> pool_inv (a_pool s) \<and> (a_todo s \<noteq> [] \<longrightarrow> main_pc (a_pool s) = Serving) \<and>
     pushed (a_pool s) @ a_todo s = names \<and> mset (ran (a_pool s)) = mset (map fst (a_log s))"

lemma async_worker_inv:
  assumes i: "async_inv names s" and s: "async_worker w io s = Step s'"
  shows "async_inv names s'"
proof (cases "\<exists>t. pcs (a_pool s) w = Running t")
  case True
  then obtain t n where t: "pcs (a_pool s) w = Running t" "t_mem (a_pool s) t = Some n" "task_entry w io (n_data n) s = Step s'"
    using s by (auto simp: async_worker_def split: if_splits option.splits)
  from task_entry_Step [OF t(3)] show ?thesis
  proof
    assume "\<exists>p r. worker_step w (a_pool s) = Step p \<and> s' = s\<lparr>a_pool := p, conv := (conv s)(w := Idle), a_log := a_log s @ [(n_data n, r)]\<rparr>"
    then obtain p r where p: "worker_step w (a_pool s) = Step p"
      "s' = s\<lparr>a_pool := p, conv := (conv s)(w := Idle), a_log := a_log s @ [(n_data n, r)]\<rparr>" by blast
    then show ?thesis using i pool_inv_worker [OF _ p(1)] worker_frame(1) [OF p(1)] worker_frame(3) [OF p(1) t(1,2)] by (simp add: async_inv_def)
  qed (use i in \<open>simp add: async_inv_def\<close>)
next
  case False
  then obtain p where p: "worker_step w (a_pool s) = Step p" "s' = s\<lparr>a_pool := p\<rparr>"
    using s by (auto simp: async_worker_def split: if_splits pc.splits dest!: on_pool_Step)
  then show ?thesis using i pool_inv_worker [OF _ p(1)] worker_frame(1,2) [OF p(1)] False by (simp add: async_inv_def)
qed

lemma async_main_inv:
  assumes i: "async_inv names s" and a: "addr \<noteq> 0" "t_mem (a_pool s) addr = None" and s: "async_main addr k s = Step s'"
  shows "async_inv names s'"
proof (cases "a_todo s")
  case Nil
  then obtain p where p: "destroy_step (a_pool s) = Step p" "s' = s\<lparr>a_pool := p\<rparr>"
    using s by (auto simp: async_main_def dest!: on_pool_Step)
  then show ?thesis using i Nil pool_inv_destroy [OF _ p(1)] destroy_frame [OF p(1)] by (simp add: async_inv_def)
next
  case (Cons d ds)
  then obtain p where p: "push_new addr d k (a_pool s) = Step p" "s' = s\<lparr>a_todo := ds, a_pool := p\<rparr>"
    using s by (auto simp: async_main_def dest!: on_pool_Step)
  have "pool_inv (a_pool s)" "main_pc (a_pool s) = Serving" using i Cons by (simp_all add: async_inv_def)
  then have "pool_inv p \<and> main_pc p = Serving" using pool_inv_push [OF _ _ a p(1)] by blast
  then show ?thesis using i Cons p(2) push_frame [OF p(1)] by (simp add: async_inv_def)
qed

lemma async_step_inv: "async_step s s' \<Longrightarrow> async_inv names s \<Longrightarrow> async_inv names s'"
proof (induction rule: async_step.induct)
  case (wakeup w s)
  then show ?case using pool_inv_wake [of "a_pool s" w] by (simp add: async_inv_def)
qed (use async_worker_inv async_main_inv in blast)+

lemma async_run_inv: "async_run s0 s \<Longrightarrow> async_inv names s0 \<Longrightarrow> async_inv names s"
  by (induction rule: async_run.induct) (auto intro: async_step_inv)

lemma dns_main_inv:
  assumes "dns_main argv cs = Some (Inr s0)" and "new_addresses cs"
  shows "async_inv (tl argv) s0"
proof -
  obtain r p where p: "nThreadPoolCreate THREADCOUNT cs = Some (r, p)"
    "s0 = \<lparr>a_pool = p, a_todo = tl argv, saved = None, live = [], next_copy = 0, conv = (\<lambda>_. Idle), a_log = []\<rparr>"
    using assms(1) by (auto simp: dns_main_def split: if_splits option.splits)
  obtain js where js: "created js p" using create_created [OF p(1) assms(2)] by blast
  then have "pool_inv p" by (rule created_inv)
  moreover have "main_pc p = Serving" "pushed p = []" "ran p = []" using js by (auto simp: created_def)
  ultimately show ?thesis using p(2) by (simp add: async_inv_def)
qed

section \<open>Conversions one at a time\<close>

text \<open>The task that a worker runs is not touched by another thread.\<close>

lemma running_mem: "w \<in> set (threads s) \<Longrightarrow> pcs s w = Running t \<Longrightarrow> t \<in># running s"
  by (force simp: running_def run_of_def)

lemma running_once:
  assumes "pool_inv s" "w \<in> set (threads s)" "v \<in> set (threads s)" "v \<noteq> w" "pcs s w = Running t" "pcs s v = Running u"
  shows "t \<noteq> u"
proof
  assume tu: "t = u"
  obtain xs vs lost where d: "distinct (threads s)" and c: "\<forall>t. count (mset xs + running s) t \<le> 1"
    using assms(1) by (auto simp: pool_inv_def tasks_at_def)
  have r: "running s = running (s\<lparr>pcs := (pcs s)(w := Locking)\<rparr>) + {#t#}"
    using running_upd [OF d assms(2), of Locking] assms(5) by (simp add: running_def run_of_def)
  have "t \<in># running (s\<lparr>pcs := (pcs s)(w := Locking)\<rparr>)"
    by (rule running_mem [of v]) (use assms tu in auto)
  then have "count (running s) t \<ge> 2" using r by (simp add: Suc_le_eq)
  moreover have "count (running s) t \<le> 1" using c by (metis add_leD2 count_union)
  ultimately show False by simp
qed

lemma worker_keeps_task:
  assumes i: "pool_inv s" and s: "worker_step v s = Step s'" and vw: "v \<noteq> w" and w: "w \<in> set (threads s)" "pcs s w = Running t"
  shows "pcs s' w = Running t \<and> data_at (t_mem s') t = data_at (t_mem s) t"
proof -
  have v: "v \<in> set (threads s)" using s by (auto simp: worker_step_def split: if_splits)
  have p: "pcs s' w = pcs s w"
    using s vw by (auto simp: worker_step_def split: if_splits pc.splits option.splits prod.splits)
  have "data_at (t_mem s') t = data_at (t_mem s) t"
  proof (cases "pcs s v")
    case Holding
    obtain xs vs where h: "dl.holds (t_mem s) (tasks s) xs vs" using i by (auto simp: pool_inv_def tasks_at_def)
    from s v Holding consider "t_mem s' = t_mem s" | h' l where "tasks s \<noteq> 0" "LIST_REMOVE (tasks s) (tasks s) (t_mem s) = Some (h', l)" "t_mem s' = h'"
      by (auto simp: worker_step_def split: if_splits option.splits prod.splits)
    then show ?thesis
    proof cases
      case 2
      obtain ys v' ws where x: "xs = tasks s # ys" "vs = v' # ws" using holds_head [OF h 2(1)] .
      have "only_links (set xs) (t_mem s) h'" using dl.holds_pop [of "t_mem s" "tasks s" xs v' ws] h x 2(2) by auto
      then show ?thesis using 2(3) by (simp add: only_links_def)
    qed simp
  next
    case (Running u)
    then have "t \<noteq> u" using running_once [OF i w(1) v vw w(2)] by blast
    then show ?thesis using s v Running by (auto simp: worker_step_def data_at_def split: option.splits)
  qed (use s v in \<open>auto simp: worker_step_def split: if_splits\<close>)
  then show ?thesis using p w(2) by simp
qed

lemma push_keeps_task:
  assumes i: "pool_inv s" and a: "main_pc s = Serving" "a \<noteq> 0" "t_mem s a = None" and s: "push_new a v k s = Step s'"
    and w: "w \<in> set (threads s)" "pcs s w = Running t"
  shows "pcs s' w = Running t \<and> data_at (t_mem s') t = data_at (t_mem s) t"
proof -
  obtain xs vs lost where t: "tasks_at xs vs lost s" using i by (auto simp: pool_inv_def)
  let ?h0 = "(t_mem s)(a \<mapsto> \<lparr>n_data = v, n_next = 0, n_prev = 0\<rparr>)"
  have hs: "dl.holds (t_mem s) (tasks s) xs vs" using t by (simp add: tasks_at_def)
  have ax: "a \<notin> set xs" using holds_unalloc hs a(3) by blast
  have "dl.holds ?h0 (tasks s) xs vs" using hs ax by (rule holds_upd)
  then obtain h where h: "LIST_INSERT a (tasks s) ?h0 = Some (h, a)" "only_links (set (a # xs)) ?h0 h"
    using dl.holds_insert [of ?h0 "tasks s" xs vs a v] ax a(2) by (auto simp: data_at_def)
  have "t \<noteq> a" using t a(3) running_mem [OF w] by (auto simp: tasks_at_def)
  then have "data_at h t = data_at (t_mem s) t" using h(2) by (simp add: only_links_def data_at_def)
  then show ?thesis using s h(1) w by (auto simp: push_new_def nThreadPoolPushTask_def cond_signal_def split: if_splits)
qed

lemma destroy_keeps_task: "destroy_step s = Step s' \<Longrightarrow> pcs s w = Running t \<Longrightarrow> pcs s' w = Running t \<and> t_mem s' = t_mem s"
  by (auto simp: destroy_step_def cond_broadcast_def split: main_pc.splits if_splits option.splits)

text \<open>What the conversion of a name gives when its calls of \<open>strtok\<close> follow each other.\<close>

definition to_name :: "u8 list \<Rightarrow> u8 list option" where
  "to_name d = convert_loop d 0 (replicate (length d + 2) 0)"

lemma to_name_total: "\<exists>nm. to_name d = Some nm"
  using convert_domain_encodes [of d] by (auto simp: convert_domain_def to_name_def)

lemma commit_split:
  "dns_client_commit (io_sock io) (io_rnd io) (io_slen io) (io_reply io) d =
     (if \<not> io_sock io then Some (-1, [], []) else Option.bind (to_name d) (dns_finish io (length d + 2)))"
  by (auto simp: dns_client_commit_def dns_create_question_def convert_domain_def to_name_def dns_finish_def Let_def
      split: option.splits Option.bind_splits)

definition converting :: "conv_pc \<Rightarrow> bool" where
  "converting p \<longleftrightarrow> (case p of Copy _ _ _ _ _ \<Rightarrow> True | Call _ _ _ \<Rightarrow> True | _ \<Rightarrow> False)"

text \<open>A step is calm when no worker begins a conversion while another one is at it.\<close>

definition calm :: "dns_async \<Rightarrow> dns_async \<Rightarrow> bool" where
  "calm s s' \<longleftrightarrow> (\<forall>v w. v \<noteq> w \<and> conv s w = Idle \<and> conv s' w \<noteq> Idle \<longrightarrow> \<not> converting (conv s v))"

inductive calm_run :: "dns_async \<Rightarrow> dns_async \<Rightarrow> bool" for s0 where
  calm_refl: "calm_run s0 s0"
| calm_next: "calm_run s0 s \<Longrightarrow> async_step s s' \<Longrightarrow> calm s s' \<Longrightarrow> calm_run s0 s'"

lemma calm_is_run: "calm_run s0 s \<Longrightarrow> async_run s0 s"
  by (induction rule: calm_run.induct) (auto intro: async_run.intros)

definition conv_ok :: "(nat \<times> u8 list) option \<Rightarrow> nat list \<Rightarrow> conv_pc \<Rightarrow> u8 list \<Rightarrow> bool" where
  "conv_ok sv lv p d \<longleftrightarrow> (case p of
      Idle \<Rightarrow> True
    | Copy a res pos b tok \<Rightarrow> b = a \<and> a \<in> set lv \<and> (\<exists>r. sv = Some (a, r) \<and>
        do { res \<leftarrow> put_bytes res pos [of_nat (length tok)]; res \<leftarrow> put_bytes res (pos + 1) tok; convert_loop r (pos + 1 + length tok) res } = to_name d)
    | Call a res pos \<Rightarrow> a \<in> set lv \<and> (\<exists>r. sv = Some (a, r) \<and> convert_loop r pos res = to_name d)
    | Ready res \<Rightarrow> to_name d = Some res)"

lemma conv_ok_other: "conv_ok sv lv p d \<Longrightarrow> \<not> converting p \<Longrightarrow> conv_ok sv' lv' p d"
  by (cases p) (simp_all add: conv_ok_def converting_def)

lemma to_name_step:
  "to_name d = (case strtok d of
      None \<Rightarrow> put_bytes (replicate (length d + 2) 0) 0 [0]
    | Some (tok, r) \<Rightarrow> do { res \<leftarrow> put_bytes (replicate (length d + 2) 0) 0 [of_nat (length tok)]; res \<leftarrow> put_bytes res 1 tok; convert_loop r (1 + length tok) res })"
  unfolding to_name_def by (subst convert_loop.simps) (simp add: Let_def split: option.splits prod.splits)

abbreviation sequential :: "lookup_io \<Rightarrow> u8 list \<Rightarrow> (int \<times> u8 list \<times> dns_print list) option" where
  "sequential io d \<equiv> dns_client_commit (io_sock io) (io_rnd io) (io_slen io) (io_reply io) d"

lemma task_done_sent:
  assumes "task_done w (d, sent, prints) s = Step s'" and "sequential io d = Some (r, sent, prints)"
  shows "\<exists>p sent prints io r. worker_step w (a_pool s) = Step p \<and>
      s' = s\<lparr>a_pool := p, conv := (conv s)(w := Idle), a_log := a_log s @ [(d, sent, prints)]\<rparr> \<and> sequential io d = Some (r, sent, prints)"
  using task_done_Step [OF assms(1)] assms(2) by blast

lemma finish_sock: "dns_finish (io\<lparr>io_sock := b\<rparr>) n nm = dns_finish io n nm"
proof -
  have "io_rnd (io\<lparr>io_sock := b\<rparr>) = io_rnd io" "io_slen (io\<lparr>io_sock := b\<rparr>) = io_slen io" "io_reply (io\<lparr>io_sock := b\<rparr>) = io_reply io" by simp_all
  then show ?thesis by (simp only: dns_finish_def)
qed

text \<open>A step of a task on its own goes on with the right conversion, or sends what the sequential client sends.\<close>

lemma task_calm:
  assumes s: "task_entry w io d s = Step s'" and c: "conv_ok (saved s) (live s) (conv s w) d"
  shows "(\<exists>p sent prints io r. worker_step w (a_pool s) = Step p \<and>
      s' = s\<lparr>a_pool := p, conv := (conv s)(w := Idle), a_log := a_log s @ [(d, sent, prints)]\<rparr> \<and>
      sequential io d = Some (r, sent, prints)) \<or>
    (a_pool s' = a_pool s \<and> a_log s' = a_log s \<and> (\<exists>q. q \<noteq> Idle \<and> conv s' = (conv s)(w := q) \<and> conv_ok (saved s') (live s') q d) \<and>
      (conv s w = Idle \<or> converting (conv s w)))"
proof (cases "conv s w")
  case Idle
  show ?thesis
  proof (cases "io_sock io")
    case False
    then have "task_done w (d, [], []) s = Step s'" using s Idle by (simp add: task_entry_def convert_step_def)
    moreover have "sequential io d = Some (-1, [], [])"
      using False by (subst commit_split) simp
    ultimately show ?thesis by (intro disjI1 task_done_sent)
  next
    case True
    then show ?thesis
      using s Idle to_name_step [of d]
      by (cases "strtok d") (auto simp: task_entry_def convert_step_def Let_def conv_ok_def dest!: conv_end_Step)
  qed
next
  case (Copy a res pos b tok)
  then show ?thesis using s c
    by (auto simp: task_entry_def convert_step_def conv_ok_def converting_def split: if_splits option.splits Option.bind_splits)
next
  case (Call a res pos)
  obtain r where r: "saved s = Some (a, r)" "convert_loop r pos res = to_name d" "a \<in> set (live s)"
    using c Call by (auto simp: conv_ok_def)
  have "converting (conv s w)" using Call by (simp add: converting_def)
  then show ?thesis using s Call r convert_loop.simps [of r pos res]
    by (cases "strtok r") (auto simp: task_entry_def convert_step_def conv_ok_def Let_def dest!: conv_end_Step)
next
  case (Ready res)
  obtain r sent prints where f: "dns_finish io (length d + 2) res = Some (r, sent, prints)" "task_done w (d, sent, prints) s = Step s'"
    using s Ready by (auto simp: task_entry_def convert_step_def split: option.splits prod.splits)
  have "to_name d = Some res" using c Ready by (simp add: conv_ok_def)
  then have "sequential (io\<lparr>io_sock := True\<rparr>) d = Some (r, sent, prints)"
    unfolding commit_split using f(1) by (simp add: finish_sock)
  then show ?thesis using f(2) by (intro disjI1 task_done_sent)
qed

lemma conv_safe:
  assumes "conv_ok (saved s) (live s) (conv s w) d" "converting (conv s w)"
  shows "task_entry w io d s \<noteq> Undefined"
proof -
  obtain nm where nm: "to_name d = Some nm" using to_name_total by blast
  show ?thesis
  proof (cases "conv s w")
    case (Copy a res pos b tok)
    then show ?thesis using assms(1) nm by (auto simp: task_entry_def convert_step_def conv_ok_def split: option.splits Option.bind_splits)
  next
    case (Call a res pos)
    then obtain r where "saved s = Some (a, r)" "convert_loop r pos res = Some nm" "a \<in> set (live s)"
      using assms(1) nm by (auto simp: conv_ok_def)
    moreover from this(2) have "strtok r = None \<Longrightarrow> put_bytes res pos [0] = Some nm" by (subst (asm) convert_loop.simps) simp
    ultimately show ?thesis using Call by (auto simp: task_entry_def convert_step_def conv_end_def split: option.splits)
  qed (use assms(2) in \<open>simp_all add: converting_def\<close>)
qed

definition task_of :: "u8 list tpool \<Rightarrow> nat \<Rightarrow> u8 list \<Rightarrow> bool" where
  "task_of p w d \<longleftrightarrow> (\<exists>t. pcs p w = Running t \<and> data_at (t_mem p) t = Some d)"

definition calm_inv :: "dns_async \<Rightarrow> bool" where
  "calm_inv s \<longleftrightarrow>
     (\<forall>w. conv s w \<noteq> Idle \<longrightarrow> w \<in> set (threads (a_pool s)) \<and> (\<exists>d. task_of (a_pool s) w d \<and> conv_ok (saved s) (live s) (conv s w) d)) \<and>
     (\<forall>v w. converting (conv s v) \<longrightarrow> converting (conv s w) \<longrightarrow> v = w) \<and>
     (\<forall>(d, sent, prints)\<in>set (a_log s). \<exists>io r. sequential io d = Some (r, sent, prints))"

text \<open>A step that leaves the tasks alone.\<close>

lemma calm_inv_pool:
  assumes i: "calm_inv s" and t: "threads p = threads (a_pool s)"
    and k: "\<And>w d. w \<in> set (threads (a_pool s)) \<Longrightarrow> conv s w \<noteq> Idle \<Longrightarrow> task_of (a_pool s) w d \<Longrightarrow> task_of p w d"
  shows "calm_inv (s\<lparr>a_pool := p, a_todo := ds\<rparr>)"
  using i t k unfolding calm_inv_def by simp blast

lemma calm_pool_worker:
  assumes i: "calm_inv s" and p: "pool_inv (a_pool s)" and s: "worker_step w (a_pool s) = Step q" and n: "conv s w = Idle"
  shows "calm_inv (s\<lparr>a_pool := q\<rparr>)"
proof -
  have "calm_inv (s\<lparr>a_pool := q, a_todo := a_todo s\<rparr>)"
  proof (rule calm_inv_pool [OF i])
    show "threads q = threads (a_pool s)" using worker_frame(1) [OF s] by simp
    fix v d assume v: "v \<in> set (threads (a_pool s))" "conv s v \<noteq> Idle" "task_of (a_pool s) v d"
    then have "w \<noteq> v" using n by auto
    then show "task_of q v d" using worker_keeps_task [OF p s _ v(1)] v(3) by (auto simp: task_of_def)
  qed
  then show ?thesis by simp
qed

lemma calm_idle: "calm_inv s \<Longrightarrow> \<forall>t. pcs (a_pool s) w \<noteq> Running t \<Longrightarrow> conv s w = Idle"
  by (auto simp: calm_inv_def task_of_def)

lemma calm_task:
  assumes i: "calm_inv s" and p: "pool_inv (a_pool s)" and w: "w \<in> set (threads (a_pool s))" and t: "task_of (a_pool s) w d"
    and s: "task_entry w io d s = Step s'" and c: "calm s s'"
  shows "calm_inv s'"
proof -
  have one: "conv_ok (saved s) (live s) (conv s w) d" 
    using i t by (cases "conv s w = Idle") (auto simp: calm_inv_def task_of_def conv_ok_def)
  consider (sent) q sent prints io r where "worker_step w (a_pool s) = Step q"
      "s' = s\<lparr>a_pool := q, conv := (conv s)(w := Idle), a_log := a_log s @ [(d, sent, prints)]\<rparr>" "sequential io d = Some (r, sent, prints)"
    | (conv) q where "a_pool s' = a_pool s" "a_log s' = a_log s" "q \<noteq> Idle" "conv s' = (conv s)(w := q)" "conv_ok (saved s') (live s') q d"
      "conv s w = Idle \<or> converting (conv s w)"
    using task_calm [OF s one] by blast
  then show ?thesis
  proof cases
    case sent
    let ?s = "s\<lparr>conv := (conv s)(w := Idle), a_log := a_log s @ [(d, sent, prints)]\<rparr>"
    have "calm_inv ?s" using i sent(3) by (auto simp: calm_inv_def converting_def)
    then have "calm_inv (?s\<lparr>a_pool := q\<rparr>)" using calm_pool_worker [of ?s w q] p sent(1) by simp
    moreover have "s' = ?s\<lparr>a_pool := q\<rparr>" using sent(2) by (cases s) simp
    ultimately show ?thesis by simp
  next
    case conv
    have other: "\<not> converting (conv s v)" if "v \<noteq> w" for v
    proof
      assume v: "converting (conv s v)"
      show False
      proof (cases "conv s w = Idle")
        case True
        then show False using c conv(3,4) that v unfolding calm_def by fastforce
      next
        case False
        then have "converting (conv s w)" using conv(6) by blast
        then show False using i v that unfolding calm_inv_def by blast
      qed
    qed
    have keep: "conv_ok (saved s') (live s') (conv s v) e" if "v \<noteq> w" "conv_ok (saved s) (live s) (conv s v) e" for v e
      using conv_ok_other [OF that(2) other [OF that(1)]] .
    have "v \<in> set (threads (a_pool s')) \<and> (\<exists>e. task_of (a_pool s') v e \<and> conv_ok (saved s') (live s') (conv s' v) e)"
      if nv: "conv s' v \<noteq> Idle" for v
    proof (cases "v = w")
      case True
      then show ?thesis using w t conv(1,4,5) by auto
    next
      case False
      then have v: "conv s' v = conv s v" using conv(4) by simp
      then obtain e where "v \<in> set (threads (a_pool s))" "task_of (a_pool s) v e" "conv_ok (saved s) (live s) (conv s v) e"
        using i nv unfolding calm_inv_def by metis
      then show ?thesis using keep [OF False] v conv(1) by auto
    qed
    moreover have "v = w" if "converting (conv s' v)" for v using that other conv(4) by (cases "v = w") auto
    moreover have "\<forall>(d, sent, prints)\<in>set (a_log s'). \<exists>io r. sequential io d = Some (r, sent, prints)"
      using i conv(2) by (simp add: calm_inv_def)
    ultimately show ?thesis unfolding calm_inv_def by blast
  qed
qed

lemma calm_step:
  assumes "async_step s s'" and "calm s s'" and "async_inv names s" and "calm_inv s"
  shows "calm_inv s'"
  using assms
proof (induction rule: async_step.induct)
  case (worker w io s s')
  have w: "w \<in> set (threads (a_pool s))" and p: "pool_inv (a_pool s)" using worker by (auto simp: async_worker_def async_inv_def split: if_splits)
  show ?case
  proof (cases "\<exists>t. pcs (a_pool s) w = Running t")
    case True
    then obtain t n where t: "pcs (a_pool s) w = Running t" "t_mem (a_pool s) t = Some n" "task_entry w io (n_data n) s = Step s'"
      using worker.hyps w by (auto simp: async_worker_def split: option.splits)
    then have "task_of (a_pool s) w (n_data n)" by (simp add: task_of_def data_at_def)
    then show ?thesis using calm_task [OF worker.prems(3) p w _ t(3) worker.prems(1)] by blast
  next
    case False
    then obtain q where "worker_step w (a_pool s) = Step q" "s' = s\<lparr>a_pool := q\<rparr>"
      using worker.hyps w by (auto simp: async_worker_def split: pc.splits dest!: on_pool_Step)
    then show ?thesis using calm_pool_worker [OF worker.prems(3) p] calm_idle [OF worker.prems(3)] False by blast
  qed
next
  case (wakeup w s)
  let ?p = "(a_pool s)\<lparr>pcs := (pcs (a_pool s))(w := Locking)\<rparr>"
  have "calm_inv (s\<lparr>a_pool := ?p, a_todo := a_todo s\<rparr>)"
    by (rule calm_inv_pool [OF wakeup.prems(3)]) (use wakeup.hyps in \<open>auto simp: task_of_def\<close>)
  then show ?case by simp
next
  case (main addr s k s')
  have p: "pool_inv (a_pool s)" using main.prems by (simp add: async_inv_def)
  show ?case
  proof (cases "a_todo s")
    case Nil
    then obtain q where q: "destroy_step (a_pool s) = Step q" "s' = s\<lparr>a_pool := q\<rparr>"
      using main.hyps by (auto simp: async_main_def dest!: on_pool_Step)
    have "calm_inv (s\<lparr>a_pool := q, a_todo := a_todo s\<rparr>)"
      by (rule calm_inv_pool [OF main.prems(3)]) (use destroy_frame [OF q(1)] destroy_keeps_task [OF q(1)] in \<open>auto simp: task_of_def\<close>)
    then show ?thesis using q(2) by simp
  next
    case (Cons d ds)
    then obtain q where q: "push_new addr d k (a_pool s) = Step q" "s' = s\<lparr>a_pool := q, a_todo := ds\<rparr>"
      using main.hyps by (auto simp: async_main_def dest!: on_pool_Step)
    have "main_pc (a_pool s) = Serving" using main.prems Cons by (simp add: async_inv_def)
    note keep = push_keeps_task [OF p this main.hyps(1,2) q(1)]
    have "calm_inv (s\<lparr>a_pool := q, a_todo := ds\<rparr>)"
      by (rule calm_inv_pool [OF main.prems(3)]) (use push_frame [OF q(1)] keep in \<open>auto simp: task_of_def\<close>)
    then show ?thesis using q(2) by simp
  qed
qed

lemma calm_run_inv: "calm_run s0 s \<Longrightarrow> async_inv names s0 \<Longrightarrow> calm_inv s0 \<Longrightarrow> calm_inv s"
proof (induction rule: calm_run.induct)
  case (calm_next s s')
  have "async_inv names s" using async_run_inv [OF calm_is_run [OF calm_next.hyps(1)] calm_next.prems(1)] .
  then show ?case using calm_step calm_next by blast
qed

lemma dns_main_calm: "dns_main argv cs = Some (Inr s0) \<Longrightarrow> calm_inv s0"
  by (auto simp: dns_main_def calm_inv_def converting_def split: if_splits option.splits)

section \<open>Schedules\<close>

datatype act = Worker nat lookup_io | Main nat nat

fun async_play :: "act list \<Rightarrow> dns_async \<Rightarrow> dns_async outcome" where
  "async_play [] s = Step s"
| "async_play (a # as) s =
     (case (case a of
              Worker w io \<Rightarrow> async_worker w io s
            | Main addr k \<Rightarrow> if addr \<noteq> 0 \<and> t_mem (a_pool s) addr = None \<and> signal_ok k (a_pool s) then async_main addr k s else Blocked) of
        Step s' \<Rightarrow> async_play as s' | Blocked \<Rightarrow> Blocked | Undefined \<Rightarrow> Undefined)"

lemma async_play_run: "async_play as s = Step s' \<Longrightarrow> async_run s0 s \<Longrightarrow> async_run s0 s'"
proof (induction as arbitrary: s)
  case (Cons a as)
  then obtain s1 where s1: "async_play as s1 = Step s'"
    "(case a of Worker w io \<Rightarrow> async_worker w io s
      | Main addr k \<Rightarrow> if addr \<noteq> 0 \<and> t_mem (a_pool s) addr = None \<and> signal_ok k (a_pool s) then async_main addr k s else Blocked) = Step s1"
    by (auto split: outcome.splits)
  have "async_step s s1" using s1(2) by (cases a) (auto intro: async_step.worker async_step.main split: if_splits)
  then show ?case using Cons.IH [OF s1(1)] async_run.async_next [OF Cons.prems(2)] by blast
qed simp

text \<open>Two names, \<open>c.d\<close> and \<open>a.bbbb\<close>, and twenty workers; worker 100 gets the second name and worker 101 the first one.\<close>

definition short_name :: "u8 list" where "short_name = [99, 46, 100]"
definition long_name :: "u8 list" where "long_name = [97, 46, 98, 98, 98, 98]"

definition twenty :: "(nat \<times> bool \<times> bool) list" where
  "twenty = map (\<lambda>i. (100 + i, False, True)) [0..<20]"

definition no_net :: lookup_io where "no_net = \<lparr>io_sock = True, io_rnd = 7, io_slen = -1, io_reply = (-1, [])\<rparr>"

definition workers_do :: "nat list \<Rightarrow> act list" where
  "workers_do ws = map (\<lambda>w. Worker w no_net) ws"

definition demo_play :: "act list \<Rightarrow> dns_async outcome" where
  "demo_play as = (case dns_main [[], short_name, long_name] twenty of
      Some (Inr s) \<Rightarrow> async_play ([Main 1 0, Main 2 0] @ as) s | _ \<Rightarrow> Blocked)"

lemma demo_play_run:
  assumes "demo_play as = Step s"
  shows "\<exists>s0. dns_main [[], short_name, long_name] twenty = Some (Inr s0) \<and> async_run s0 s"
  using assms by (auto simp: demo_play_def split: option.splits sum.splits intro: async_play_run async_refl simp del: async_play.simps)

definition faults :: "'s outcome \<Rightarrow> bool" where
  "faults r \<longleftrightarrow> (case r of Undefined \<Rightarrow> True | _ \<Rightarrow> False)"

lemma faults_iff: "faults r \<longleftrightarrow> r = Undefined"
  by (cases r) (simp_all add: faults_def)

text \<open>Worker 100 takes a token of the other name; worker 101 writes a token of the other name behind its result; worker 100 reads the copy that 101 has freed.\<close>

lemma wrong_name: "case demo_play (workers_do [100, 100, 101, 101, 100, 101, 100, 100, 100, 100, 100]) of
    Step s \<Rightarrow> (case a_log s of [(d, sent, _)] \<Rightarrow> d = long_name \<and> take 5 (drop 12 sent) = [1, 97, 1, 100, 0] | _ \<Rightarrow> False) | _ \<Rightarrow> False"
  by code_simp

lemma overflow: "case demo_play (workers_do [100, 100, 101, 101, 101, 100, 101, 101]) of
    Step s \<Rightarrow> (case conv s 101 of Copy a res pos b tok \<Rightarrow> b \<in> set (live s) \<and> length res < pos + 1 + length tok | _ \<Rightarrow> False) \<and>
      faults (async_worker 101 no_net s) | _ \<Rightarrow> False"
  by code_simp

lemma freed: "case demo_play (workers_do [100, 100, 101, 101, 100, 101, 101, 101, 101, 101, 100]) of
    Step s \<Rightarrow> (case saved s of Some (b, _) \<Rightarrow> b \<notin> set (live s) | None \<Rightarrow> False) \<and> (case conv s 100 of Call _ _ _ \<Rightarrow> True | _ \<Rightarrow> False) \<and>
      faults (async_worker 100 no_net s) | _ \<Rightarrow> False"
  by code_simp

text \<open>One worker alone is calm.\<close>

lemma worker_conv: "async_worker w io s = Step s' \<Longrightarrow> v \<noteq> w \<Longrightarrow> conv s' v = conv s v"
  by (auto simp: async_worker_def task_entry_def convert_step_def Let_def split: if_splits pc.splits option.splits conv_pc.splits prod.splits
      dest!: on_pool_Step task_done_Step conv_end_Step)

lemma main_conv: "async_main addr k s = Step s' \<Longrightarrow> conv s' = conv s"
  by (auto simp: async_main_def split: list.splits dest!: on_pool_Step)

lemma calm_alone:
  assumes "async_play as s = Step s'" and "\<forall>w io. Worker w io \<in> set as \<longrightarrow> w = x" and "\<forall>v. v \<noteq> x \<longrightarrow> conv s v = Idle" and "calm_run s0 s"
  shows "calm_run s0 s'"
  using assms
proof (induction as arbitrary: s)
  case (Cons a as)
  then obtain s1 where s1: "async_play as s1 = Step s'"
    "(case a of Worker w io \<Rightarrow> async_worker w io s
      | Main addr k \<Rightarrow> if addr \<noteq> 0 \<and> t_mem (a_pool s) addr = None \<and> signal_ok k (a_pool s) then async_main addr k s else Blocked) = Step s1"
    by (auto split: outcome.splits)
  have "async_step s s1" using s1(2) by (cases a) (auto intro: async_step.worker async_step.main split: if_splits)
  moreover have k: "\<forall>v. v \<noteq> x \<longrightarrow> conv s1 v = conv s v"
    using s1(2) Cons.prems(2) worker_conv main_conv by (cases a) (fastforce split: if_splits)+
  have "calm s s1"
    unfolding calm_def
  proof (intro allI impI)
    fix v w assume "v \<noteq> w \<and> conv s w = Idle \<and> conv s1 w \<noteq> Idle"
    then have "v \<noteq> x" using k by metis
    then show "\<not> converting (conv s v)" using Cons.prems(3) by (simp add: converting_def)
  qed
  ultimately have "calm_run s0 s1" using calm_run.calm_next [OF Cons.prems(4)] by blast
  then show ?case using Cons.IH [OF s1(1)] Cons.prems(2,3) k by auto
qed simp

lemma demo_calm:
  assumes "demo_play (workers_do (replicate n x)) = Step s"
  shows "\<exists>s0. dns_main [[], short_name, long_name] twenty = Some (Inr s0) \<and> calm_run s0 s"
proof -
  obtain s0 where s0: "dns_main [[], short_name, long_name] twenty = Some (Inr s0)" "async_play ([Main 1 0, Main 2 0] @ workers_do (replicate n x)) s0 = Step s"
    using assms unfolding demo_play_def by (auto split: option.splits sum.splits simp del: async_play.simps)
  have "\<forall>w io. Worker w io \<in> set ([Main 1 0, Main 2 0] @ workers_do (replicate n x)) \<longrightarrow> w = x" by (auto simp: workers_do_def)
  moreover have "\<forall>v. v \<noteq> x \<longrightarrow> conv s0 v = Idle" using s0(1) by (auto simp: dns_main_def split: if_splits option.splits)
  ultimately have "calm_run s0 s" using calm_alone [OF s0(2)] calm_run.calm_refl by blast
  then show ?thesis using s0(1) by blast
qed

section \<open>Properties\<close>

text \<open>C28: No name is looked up twice or forgotten.  Under every interleaving of \<open>main\<close>, the workers, spurious wakeups and the destruction of the pool, the names
  given to the program are those not pushed yet, on the stack, with a worker, and looked up, each in exactly one of these places, and what the destruction has dropped, which is
  nothing before it has ended; so no name is looked up more often than it was given.\<close>

theorem lookups_once:
  assumes "dns_main argv cs = Some (Inr s0)" and "new_addresses cs" and "async_run s0 s"
  shows "\<exists>xs vs lost. dl.holds (t_mem (a_pool s)) (tasks (a_pool s)) xs vs \<and>
    mset (tl argv) = mset (a_todo s) + mset vs + image_mset (payload (t_mem (a_pool s))) (running (a_pool s)) + mset (map fst (a_log s)) + lost \<and>
    (main_pc (a_pool s) \<noteq> Ended \<longrightarrow> lost = {#}) \<and> mset (map fst (a_log s)) \<subseteq># mset (tl argv)"
proof -
  have i: "async_inv (tl argv) s" using async_run_inv [OF assms(3) dns_main_inv [OF assms(1,2)]] .
  then obtain xs vs lost where t: "tasks_at xs vs lost (a_pool s)" by (auto simp: async_inv_def pool_inv_def)
  have "mset (tl argv) = mset (pushed (a_pool s)) + mset (a_todo s)" using i unfolding async_inv_def by (metis mset_append)
  then have "mset (tl argv) = mset (a_todo s) + mset vs + image_mset (payload (t_mem (a_pool s))) (running (a_pool s)) + mset (map fst (a_log s)) + lost"
    using i t by (simp add: async_inv_def tasks_at_def)
  moreover from this have "mset (map fst (a_log s)) \<subseteq># mset (tl argv)" by simp
  ultimately show ?thesis using t unfolding tasks_at_def by blast
qed

theorem lookups_once_witness:
  "\<exists>s0 s. dns_main [[], short_name, long_name] twenty = Some (Inr s0) \<and> async_run s0 s \<and> a_todo s = [] \<and> mset (map fst (a_log s)) \<subseteq># {#short_name, long_name#}"
proof -
  have "case demo_play [] of Step s \<Rightarrow> a_todo s = [] | _ \<Rightarrow> False" by code_simp
  then obtain s where s: "demo_play [] = Step s" "a_todo s = []" by (auto split: outcome.splits)
  obtain s0 where s0: "dns_main [[], short_name, long_name] twenty = Some (Inr s0)" "async_run s0 s" using demo_play_run [OF s(1)] by blast
  have "new_addresses twenty" by code_simp
  then show ?thesis using lookups_once [OF s0(1) _ s0(2)] s0 s(2) by auto
qed

text \<open>C29: The workers agree with the sequential client as long as no conversion of a name begins during another one: then every lookup sends and prints what
  \<open>dns_client_commit\<close> alone would for its name, with the same answers of the system calls, and no conversion touches memory it does not own.\<close>

theorem calm_lookups:
  assumes "dns_main argv cs = Some (Inr s0)" and "new_addresses cs" and "calm_run s0 s"
  shows "(\<forall>(d, sent, prints)\<in>set (a_log s). \<exists>(io :: lookup_io) r. dns_client_commit (io_sock io) (io_rnd io) (io_slen io) (io_reply io) d = Some (r, sent, prints)) \<and>
    (\<forall>w io. converting (conv s w) \<longrightarrow> async_worker w io s \<noteq> Undefined)"
proof -
  have i: "calm_inv s" using calm_run_inv [OF assms(3) dns_main_inv [OF assms(1,2)] dns_main_calm [OF assms(1)]] .
  have "async_worker w io s \<noteq> Undefined" if c: "converting (conv s w)" for w io
  proof -
    obtain t n where "w \<in> set (threads (a_pool s))" "pcs (a_pool s) w = Running t" "t_mem (a_pool s) t = Some n"
      "conv_ok (saved s) (live s) (conv s w) (n_data n)"
      using i c by (cases "conv s w = Idle") (auto simp: calm_inv_def task_of_def data_at_def converting_def)
    then show ?thesis using conv_safe [of s w "n_data n" io] c by (simp add: async_worker_def)
  qed
  then show ?thesis using i unfolding calm_inv_def by simp
qed

theorem calm_lookups_witness:
  "\<exists>s0 s sent prints (io :: lookup_io) r. dns_main [[], short_name, long_name] twenty = Some (Inr s0) \<and> calm_run s0 s \<and> a_log s = [(long_name, sent, prints)] \<and>
     dns_client_commit (io_sock io) (io_rnd io) (io_slen io) (io_reply io) long_name = Some (r, sent, prints)"
proof -
  have "case demo_play (workers_do (replicate 8 100)) of Step s \<Rightarrow> (case a_log s of [(d, _, _)] \<Rightarrow> d = long_name | _ \<Rightarrow> False) | _ \<Rightarrow> False" by code_simp
  then obtain s sent prints where s: "demo_play (workers_do (replicate 8 100)) = Step s" "a_log s = [(long_name, sent, prints)]"
    by (auto split: outcome.splits list.splits)
  obtain s0 where s0: "dns_main [[], short_name, long_name] twenty = Some (Inr s0)" "calm_run s0 s" using demo_calm [OF s(1)] by blast
  have "new_addresses twenty" by code_simp
  then obtain io :: lookup_io and r where "dns_client_commit (io_sock io) (io_rnd io) (io_slen io) (io_reply io) long_name = Some (r, sent, prints)"
    using calm_lookups [OF s0(1) _ s0(2)] s(2) by auto
  then show ?thesis using s0 s(2) by blast
qed

text \<open>C30: \<open>strtok\<close> keeps one position for all threads, so two workers that convert names at the same time disturb each other: with two names and twenty workers there is
  a schedule in which the request of \<open>a.bbbb\<close> asks for \<open>a.d\<close>, one in which a worker writes behind the end of its result, and one in which it reads a copy that another
  worker has freed.\<close>

theorem strtok_races:
  "\<exists>s0. dns_main [[], short_name, long_name] twenty = Some (Inr s0) \<and>
    (\<exists>s sent prints. async_run s0 s \<and> (long_name, sent, prints) \<in> set (a_log s) \<and> take 5 (drop 12 sent) = [1, 97, 1, 100, 0]) \<and>
    (\<exists>s w a res pos b tok. async_run s0 s \<and> conv s w = Copy a res pos b tok \<and> b \<in> set (live s) \<and> length res < pos + 1 + length tok \<and>
      async_worker w no_net s = Undefined) \<and>
    (\<exists>s w b r. async_run s0 s \<and> converting (conv s w) \<and> saved s = Some (b, r) \<and> b \<notin> set (live s) \<and> async_worker w no_net s = Undefined)"
proof -
  obtain s1 sent prints where 1: "demo_play (workers_do [100, 100, 101, 101, 100, 101, 100, 100, 100, 100, 100]) = Step s1" "a_log s1 = [(long_name, sent, prints)]"
    "take 5 (drop 12 sent) = [1, 97, 1, 100, 0]" using wrong_name by (auto split: outcome.splits list.splits)
  obtain s2 a res pos b tok where 2: "demo_play (workers_do [100, 100, 101, 101, 101, 100, 101, 101]) = Step s2" "conv s2 101 = Copy a res pos b tok" "b \<in> set (live s2)"
    "length res < pos + 1 + length tok" "async_worker 101 no_net s2 = Undefined"
    using overflow by (auto simp: faults_iff split: outcome.splits conv_pc.splits)
  obtain s3 b' r where 3: "demo_play (workers_do [100, 100, 101, 101, 100, 101, 101, 101, 101, 101, 100]) = Step s3" "saved s3 = Some (b', r)" "b' \<notin> set (live s3)"
    "converting (conv s3 100)" "async_worker 100 no_net s3 = Undefined"
    using freed by (auto simp: faults_iff converting_def split: outcome.splits conv_pc.splits option.splits)
  obtain s0 where s0: "dns_main [[], short_name, long_name] twenty = Some (Inr s0)" "async_run s0 s1" using demo_play_run [OF 1(1)] by blast
  moreover have "async_run s0 s2" "async_run s0 s3" using demo_play_run [OF 2(1)] demo_play_run [OF 3(1)] s0(1) by auto
  moreover have "(long_name, sent, prints) \<in> set (a_log s1)" using 1(2) by simp
  ultimately show ?thesis using 1(3) 2(2-5) 3(2-5) by blast
qed

end
