(* ===== verification/Reactor.thy ===== *)
theory Reactor
  imports Prelude "HOL-Library.Monad_Syntax"
begin

text \<open>
  The reactor that the servers share, and the echo servers \<open>2.1.3_reactor_02MillionConcurrent.c\<close> and
  \<open>2.1.3_reactor_01.c\<close>.  A function pointer of \<open>conn\<close> is a \<open>callback\<close>; each program gives the table from
  callbacks to functions.  The outcome of the system calls in one handler run is an \<open>io\<close> record; \<open>epoll\<close>
  is the interest set of the kernel.  \<open>got\<close> lists what each \<open>recv\<close> of a connection returned since it was
  accepted, \<open>sent\<close> the bytes sent.  Touching \<open>conn_list\<close> or a buffer outside its bounds is \<open>None\<close>, also by a print of a
  buffer without a zero byte.  What is printed and the clock behind it are left out.
\<close>

section \<open>State\<close>

datatype callback = No_callback | Accept_cb | Recv_cb | Send_cb

datatype event = EPOLLIN | EPOLLOUT

record conn =
  c_fd :: int
  rbuffer :: "u8 list"
  rlength :: int
  wbuffer :: "u8 list"
  wlength :: int
  send_callback :: callback
  recv_callback :: callback
  status :: int

record reactor =
  conn_list :: "int \<Rightarrow> conn"
  epoll :: "int \<rightharpoonup> event"
  got :: "int \<Rightarrow> u8 list list"
  sent :: "int \<Rightarrow> u8 list"

text \<open>\<open>received\<close> is \<open>None\<close> for an error and empty at the end of the stream; \<open>sent_count\<close> is what \<open>send\<close> returns.\<close>

record io =
  accepted :: int
  received :: "u8 list option"
  sent_count :: int

definition BUFFER_LENGTH :: nat where "BUFFER_LENGTH = 1024"
definition CONNECTION_SIZE :: int where "CONNECTION_SIZE = 1048576"
definition MAX_PORTS :: nat where "MAX_PORTS = 20"

definition fd_ok :: "int \<Rightarrow> bool" where
  "fd_ok fd \<longleftrightarrow> 0 \<le> fd \<and> fd < CONNECTION_SIZE"

definition zero_conn :: conn where
  "zero_conn = \<lparr>c_fd = 0, rbuffer = replicate BUFFER_LENGTH 0, rlength = 0, wbuffer = replicate BUFFER_LENGTH 0, wlength = 0,
     send_callback = No_callback, recv_callback = No_callback, status = 0\<rparr>"

definition zero_reactor :: reactor where
  "zero_reactor = \<lparr>conn_list = (\<lambda>_. zero_conn), epoll = (\<lambda>_. None), got = (\<lambda>_. []), sent = (\<lambda>_. [])\<rparr>"

section \<open>System calls\<close>

text \<open>\<open>epoll_ctl\<close> refuses to add what is there and to modify what is not; nobody looks at its result.\<close>

definition set_event :: "int \<Rightarrow> event \<Rightarrow> int \<Rightarrow> reactor \<Rightarrow> reactor" where
  "set_event fd ev flag s =
     (if flag \<noteq> 0 then (if 0 \<le> fd \<and> epoll s fd = None then s\<lparr>epoll := (epoll s)(fd \<mapsto> ev)\<rparr> else s)
      else if epoll s fd \<noteq> None then s\<lparr>epoll := (epoll s)(fd \<mapsto> ev)\<rparr> else s)"

text \<open>\<open>close\<close> takes the descriptor out of the interest set; the \<open>EPOLL_CTL_DEL\<close> that follows finds nothing.\<close>

definition close_conn :: "int \<Rightarrow> reactor \<Rightarrow> reactor" where
  "close_conn fd s = s\<lparr>epoll := (epoll s)(fd := None)\<rparr>"

definition put_conn :: "int \<Rightarrow> conn \<Rightarrow> reactor \<Rightarrow> reactor option" where
  "put_conn fd c s = (if fd_ok fd then Some (s\<lparr>conn_list := (conn_list s)(fd := c)\<rparr>) else None)"

definition sys_recv :: "'a io_scheme \<Rightarrow> int \<Rightarrow> conn \<Rightarrow> reactor \<Rightarrow> int \<times> conn \<times> reactor" where
  "sys_recv r fd c s = (case received r of
      None \<Rightarrow> (-1, c, s)
    | Some bs \<Rightarrow> (let bs = take BUFFER_LENGTH bs in
        (int (length bs), c\<lparr>rbuffer := bs @ drop (length bs) (rbuffer c)\<rparr>, s\<lparr>got := (got s)(fd := got s fd @ [bs])\<rparr>)))"

definition sys_send :: "'a io_scheme \<Rightarrow> int \<Rightarrow> u8 list \<Rightarrow> int \<Rightarrow> reactor \<Rightarrow> reactor option" where
  "sys_send r fd buf n s =
     (if 0 \<le> n \<and> nat n \<le> length buf then
        Some (s\<lparr>sent := (sent s)(fd := sent s fd @ take (nat (sent_count r)) (take (nat n) buf))\<rparr>)
      else None)"

section \<open>The echo server for many connections\<close>

definition blank_conn :: "int \<Rightarrow> conn \<Rightarrow> conn" where
  "blank_conn fd c = c\<lparr>c_fd := fd, rbuffer := replicate BUFFER_LENGTH 0, rlength := 0, wbuffer := replicate BUFFER_LENGTH 0,
     wlength := 0, send_callback := Send_cb, recv_callback := Recv_cb\<rparr>"

definition event_register :: "int \<Rightarrow> event \<Rightarrow> reactor \<Rightarrow> reactor option" where
  "event_register fd ev s =
     (if fd < 0 then Some s
      else do { s \<leftarrow> put_conn fd (blank_conn fd (conn_list s fd)) s; Some (set_event fd ev 1 s) })"

text \<open>\<open>accept\<close> makes the histories of the new connection empty.\<close>

definition accept_cb :: "'a io_scheme \<Rightarrow> int \<Rightarrow> reactor \<Rightarrow> reactor option" where
  "accept_cb r fd s =
     (let a = accepted r in
      if a < 0 then Some s
      else event_register a EPOLLIN (s\<lparr>got := (got s)(a := []), sent := (sent s)(a := [])\<rparr>))"

definition recv_cb :: "'a io_scheme \<Rightarrow> int \<Rightarrow> reactor \<Rightarrow> reactor option" where
  "recv_cb r fd s =
     (case sys_recv r fd (conn_list s fd) s of (count, c, s) \<Rightarrow>
        if count = 0 then Some (close_conn fd s)
        else if count < 0 then None
        else do {
          s \<leftarrow> put_conn fd (c\<lparr>wbuffer := take (nat count) (rbuffer c) @ drop (nat count) (wbuffer c), rlength := count, wlength := count\<rparr>) s;
          Some (set_event fd EPOLLOUT 0 s) })"

definition send_cb :: "'a io_scheme \<Rightarrow> int \<Rightarrow> reactor \<Rightarrow> reactor option" where
  "send_cb r fd s = do {
     let c = conn_list s fd;
     s \<leftarrow> sys_send r fd (wbuffer c) (wlength c) s;
     Some (set_event fd EPOLLIN 0 s) }"

text \<open>The three calls of \<open>init_server\<close> and their results.\<close>

definition init_server :: "int \<times> int \<times> int \<Rightarrow> int" where
  "init_server r = (case r of (listen_fd, bound, listening) \<Rightarrow>
     if listen_fd < 0 then -1 else if bound < 0 then -2 else if listening < 0 then -3 else listen_fd)"

fun listen_loop :: "(int \<times> int \<times> int) list \<Rightarrow> reactor \<Rightarrow> reactor option" where
  "listen_loop [] s = Some s"
| "listen_loop (r # rs) s = do {
     let listenfd = init_server r;
     s \<leftarrow> put_conn listenfd ((conn_list s listenfd)\<lparr>c_fd := listenfd, recv_callback := Accept_cb\<rparr>) s;
     listen_loop rs (set_event listenfd EPOLLIN 1 s) }"

type_synonym 'a table = "callback \<Rightarrow> 'a io_scheme \<Rightarrow> int \<Rightarrow> reactor \<Rightarrow> reactor option"

text \<open>The body of the loop over the events of \<open>epoll_wait\<close>: the descriptor, readable, writable.\<close>

definition handle_event :: "'a table \<Rightarrow> 'a io_scheme \<Rightarrow> int \<times> bool \<times> bool \<Rightarrow> reactor \<Rightarrow> reactor option" where
  "handle_event tab r e s = (case e of (connfd, readable, writable) \<Rightarrow>
     if \<not> fd_ok connfd then None
     else do {
       s \<leftarrow> (if readable then tab (recv_callback (conn_list s connfd)) r connfd s else Some s);
       (if writable then tab (send_callback (conn_list s connfd)) r connfd s else Some s) })"

fun echo_table :: "'a table" where
  "echo_table Accept_cb = accept_cb"
| "echo_table Recv_cb = recv_cb"
| "echo_table Send_cb = send_cb"
| "echo_table No_callback = (\<lambda>_ _ _. None)"

definition echo_start :: "(int \<times> int \<times> int) list \<Rightarrow> reactor option" where
  "echo_start rs = listen_loop (take MAX_PORTS rs) zero_reactor"

section \<open>Runs of the event loop\<close>

text \<open>
  What the kernel answers: \<open>accept\<close> returns a descriptor that is not in use and fits the table,
  \<open>recv\<close> at most what it was asked for.  \<open>epoll_wait\<close> reports a descriptor with the event it is registered
  for; events of one batch belong to different descriptors, so a batch is a sequence of turns.
\<close>

definition io_ok :: "reactor \<Rightarrow> 'a io_scheme \<Rightarrow> bool" where
  "io_ok s r \<longleftrightarrow> accepted r < CONNECTION_SIZE \<and> (0 \<le> accepted r \<longrightarrow> epoll s (accepted r) = None) \<and>
     (\<forall>bs. received r = Some bs \<longrightarrow> length bs \<le> BUFFER_LENGTH)"

inductive turn :: "'a table \<Rightarrow> ('a io_scheme \<Rightarrow> conn \<Rightarrow> bool) \<Rightarrow> reactor \<Rightarrow> reactor \<Rightarrow> bool" for tab fair where
  turnI: "\<lbrakk>epoll s fd = Some ev; io_ok s r; fair r (conn_list s fd);
     handle_event tab r (fd, ev = EPOLLIN, ev = EPOLLOUT) s = Some s'\<rbrakk> \<Longrightarrow> turn tab fair s s'"

inductive_cases turnE: "turn tab fair s s'"

type_synonym conn_inv = "event \<Rightarrow> conn \<Rightarrow> u8 list list \<Rightarrow> u8 list \<Rightarrow> bool"

definition live :: "conn_inv \<Rightarrow> event \<Rightarrow> int \<Rightarrow> reactor \<Rightarrow> bool" where
  "live J ev fd s \<longleftrightarrow> recv_callback (conn_list s fd) = Recv_cb \<and> send_callback (conn_list s fd) = Send_cb \<and>
     J ev (conn_list s fd) (got s fd) (sent s fd)"

definition loop_inv :: "conn_inv \<Rightarrow> reactor \<Rightarrow> bool" where
  "loop_inv J s \<longleftrightarrow> (\<forall>fd ev. epoll s fd = Some ev \<longrightarrow> fd_ok fd \<and>
     (ev = EPOLLIN \<and> recv_callback (conn_list s fd) = Accept_cb \<or> live J ev fd s))"

text \<open>A handler touches its own connection only.\<close>

definition same_but :: "int \<Rightarrow> reactor \<Rightarrow> reactor \<Rightarrow> bool" where
  "same_but fd s s' \<longleftrightarrow> (\<forall>x. x \<noteq> fd \<longrightarrow> conn_list s' x = conn_list s x \<and> epoll s' x = epoll s x \<and> got s' x = got s x \<and> sent s' x = sent s x)"

lemma loop_inv_other:
  assumes "loop_inv J s" "same_but fd s s'" "fd_ok fd" "\<And>ev. epoll s' fd = Some ev \<Longrightarrow> live J ev fd s'"
  shows "loop_inv J s'"
  unfolding loop_inv_def
proof (intro allI impI)
  fix x ev
  assume x: "epoll s' x = Some ev"
  show "fd_ok x \<and> (ev = EPOLLIN \<and> recv_callback (conn_list s' x) = Accept_cb \<or> live J ev x s')"
  proof (cases "x = fd")
    case True
    then show ?thesis using assms(3,4) x by simp
  next
    case False
    then have same: "conn_list s' x = conn_list s x" "epoll s x = Some ev" "got s' x = got s x" "sent s' x = sent s x"
      using assms(2) x by (auto simp: same_but_def)
    show ?thesis using assms(1) same(2) by (auto simp: loop_inv_def live_def same(1,3,4))
  qed
qed

lemma loop_invD: "loop_inv J s \<Longrightarrow> epoll s fd = Some ev \<Longrightarrow> recv_callback (conn_list s fd) = Recv_cb \<Longrightarrow> live J ev fd s"
  unfolding loop_inv_def by (metis callback.distinct(7))

text \<open>
  The contract of a server: each handler, called for a connection in the state the loop calls it in,
  returns, leaves the other connections alone and keeps the invariant \<open>J\<close> of its own.
\<close>

locale event_loop =
  fixes tab :: "'a table" and J :: conn_inv and fair :: "'a io_scheme \<Rightarrow> conn \<Rightarrow> bool"
  assumes refuse: "\<lbrakk>fd_ok fd; accepted r < 0\<rbrakk> \<Longrightarrow> tab Accept_cb r fd s = Some s"
    and admit: "\<lbrakk>fd_ok fd; fd_ok (accepted r); epoll s (accepted r) = None\<rbrakk> \<Longrightarrow>
      \<exists>s'. tab Accept_cb r fd s = Some s' \<and> same_but (accepted r) s s' \<and> epoll s' (accepted r) = Some EPOLLIN \<and> live J EPOLLIN (accepted r) s'"
    and on_recv: "\<lbrakk>fd_ok fd; epoll s fd = Some EPOLLIN; live J EPOLLIN fd s; fair r (conn_list s fd); io_ok s r\<rbrakk> \<Longrightarrow>
      \<exists>s'. tab Recv_cb r fd s = Some s' \<and> same_but fd s s' \<and> (\<forall>ev. epoll s' fd = Some ev \<longrightarrow> live J ev fd s')"
    and on_send: "\<lbrakk>fd_ok fd; epoll s fd = Some EPOLLOUT; live J EPOLLOUT fd s; fair r (conn_list s fd)\<rbrakk> \<Longrightarrow>
      \<exists>s'. tab Send_cb r fd s = Some s' \<and> same_but fd s s' \<and> (\<forall>ev. epoll s' fd = Some ev \<longrightarrow> live J ev fd s')"
begin

lemma event_defined:
  assumes inv: "loop_inv J s" and fd: "epoll s fd = Some ev" and r: "io_ok s r" "fair r (conn_list s fd)"
  shows "\<exists>s'. handle_event tab r (fd, ev = EPOLLIN, ev = EPOLLOUT) s = Some s' \<and> loop_inv J s'"
proof -
  have ok: "fd_ok fd" using inv fd by (simp add: loop_inv_def)
  consider (listen) "ev = EPOLLIN" "recv_callback (conn_list s fd) = Accept_cb"
    | (readable) "ev = EPOLLIN" "live J ev fd s" | (writable) "ev = EPOLLOUT" "live J ev fd s"
    using inv fd unfolding loop_inv_def by (metis event.exhaust)
  then show ?thesis
  proof cases
    case listen
    show ?thesis
    proof (cases "accepted r < 0")
      case True
      then show ?thesis using refuse [OF ok True] ok inv listen by (simp add: handle_event_def)
    next
      case False
      then have a: "fd_ok (accepted r)" "epoll s (accepted r) = None" using r(1) by (simp_all add: io_ok_def fd_ok_def)
      from admit [OF ok this] obtain s' where s': "tab Accept_cb r fd s = Some s'" "same_but (accepted r) s s'"
        "epoll s' (accepted r) = Some EPOLLIN" "live J EPOLLIN (accepted r) s'" by blast
      moreover have "loop_inv J s'" using loop_inv_other [OF inv s'(2) a(1)] s'(3,4) by simp
      ultimately show ?thesis using ok listen by (simp add: handle_event_def)
    qed
  next
    case readable
    from on_recv [OF ok _ _ r(2,1)] readable fd obtain s' where s': "tab Recv_cb r fd s = Some s'" "same_but fd s s'"
      "\<forall>ev. epoll s' fd = Some ev \<longrightarrow> live J ev fd s'" by blast
    then have "loop_inv J s'" using loop_inv_other [OF inv s'(2) ok] by simp
    moreover have "recv_callback (conn_list s fd) = Recv_cb" using readable by (simp add: live_def)
    ultimately show ?thesis using s'(1) ok readable(1) by (simp add: handle_event_def)
  next
    case writable
    from on_send [OF ok _ _ r(2)] writable fd obtain s' where s': "tab Send_cb r fd s = Some s'" "same_but fd s s'"
      "\<forall>ev. epoll s' fd = Some ev \<longrightarrow> live J ev fd s'" by blast
    then have "loop_inv J s'" using loop_inv_other [OF inv s'(2) ok] by simp
    moreover have "send_callback (conn_list s fd) = Send_cb" using writable by (simp add: live_def)
    ultimately show ?thesis using s'(1) ok writable(1) by (simp add: handle_event_def)
  qed
qed

lemma turn_inv: "turn tab fair s s' \<Longrightarrow> loop_inv J s \<Longrightarrow> loop_inv J s'"
proof -
  assume t: "turn tab fair s s'" and inv: "loop_inv J s"
  from t obtain fd ev r where fd: "epoll s fd = Some ev" "io_ok s r" "fair r (conn_list s fd)"
    and h: "handle_event tab r (fd, ev = EPOLLIN, ev = EPOLLOUT) s = Some s'" by (rule turnE)
  show "loop_inv J s'" using event_defined [OF inv fd] h by auto
qed

lemma run_inv: "(turn tab fair)\<^sup>*\<^sup>* s s' \<Longrightarrow> loop_inv J s \<Longrightarrow> loop_inv J s'"
proof (induction rule: rtranclp_induct)
  case (step y z)
  from step.hyps(2) step.IH [OF step.prems] show ?case by (rule turn_inv)
qed

end

definition only_listening :: "reactor \<Rightarrow> bool" where
  "only_listening s \<longleftrightarrow> (\<forall>fd ev. epoll s fd = Some ev \<longrightarrow> fd_ok fd \<and> ev = EPOLLIN \<and> recv_callback (conn_list s fd) = Accept_cb)"

lemma listen_one:
  assumes inv: "only_listening s" and put: "put_conn fd ((conn_list s fd)\<lparr>c_fd := fd, recv_callback := Accept_cb\<rparr>) s = Some s1"
  shows "only_listening (set_event fd EPOLLIN 1 s1)"
proof -
  have ok: "fd_ok fd" and s1: "s1 = s\<lparr>conn_list := (conn_list s)(fd := (conn_list s fd)\<lparr>c_fd := fd, recv_callback := Accept_cb\<rparr>)\<rparr>"
    using put by (simp_all add: put_conn_def split: if_splits)
  have e: "epoll (set_event fd EPOLLIN 1 s1) x = (if x = fd \<and> 0 \<le> fd \<and> epoll s fd = None then Some EPOLLIN else epoll s x)" for x
    by (simp add: s1 set_event_def)
  have c: "conn_list (set_event fd EPOLLIN 1 s1) = conn_list s1" by (simp add: set_event_def)
  show ?thesis
    unfolding only_listening_def c e
  proof (intro allI impI)
    fix x ev
    assume "(if x = fd \<and> 0 \<le> fd \<and> epoll s fd = None then Some EPOLLIN else epoll s x) = Some ev"
    then show "fd_ok x \<and> ev = EPOLLIN \<and> recv_callback (conn_list s1 x) = Accept_cb"
      using inv ok by (cases "x = fd") (auto simp: only_listening_def s1 split: if_splits)
  qed
qed

lemma listen_loop_inv: "listen_loop rs s = Some s' \<Longrightarrow> only_listening s \<Longrightarrow> only_listening s'"
proof (induction rs arbitrary: s)
  case (Cons r rs)
  let ?fd = "init_server r"
  obtain s1 where s1: "put_conn ?fd ((conn_list s ?fd)\<lparr>c_fd := ?fd, recv_callback := Accept_cb\<rparr>) s = Some s1"
    using Cons.prems(1) by (cases "put_conn ?fd ((conn_list s ?fd)\<lparr>c_fd := ?fd, recv_callback := Accept_cb\<rparr>) s") (simp_all add: Let_def)
  then have "listen_loop rs (set_event ?fd EPOLLIN 1 s1) = Some s'" using Cons.prems(1) by (simp add: Let_def)
  then show ?case using listen_one [OF Cons.prems(2) s1] by (rule Cons.IH)
qed simp

lemma start_inv: "listen_loop rs zero_reactor = Some s \<Longrightarrow> loop_inv J s"
  using listen_loop_inv [of rs zero_reactor s] by (simp add: only_listening_def loop_inv_def zero_reactor_def)

section \<open>The echo server returns what it receives\<close>

text \<open>\<open>fair\<close>: \<open>recv\<close> does not fail, as \<open>echo_recv_error\<close> shows what happens otherwise.  \<open>send\<close> may take any part of the
  buffer, or fail; with \<open>full\<close> it takes the whole buffer.\<close>

definition echo_fair :: "bool \<Rightarrow> 'a io_scheme \<Rightarrow> conn \<Rightarrow> bool" where
  "echo_fair full r c \<longleftrightarrow> received r \<noteq> None \<and> (full \<longrightarrow> sent_count r = wlength c)"

definition buffers_ok :: "conn \<Rightarrow> bool" where
  "buffers_ok c \<longleftrightarrow> length (rbuffer c) = BUFFER_LENGTH \<and> length (wbuffer c) = BUFFER_LENGTH"

definition pending :: "conn \<Rightarrow> u8 list" where
  "pending c = take (nat (wlength c)) (wbuffer c)"

definition echo_inv :: "bool \<Rightarrow> conn_inv" where
  "echo_inv full ev c g t \<longleftrightarrow> buffers_ok c \<and> (\<exists>parts. t = concat parts \<and>
     (if ev = EPOLLIN then list_all2 (cut full) parts g
      else 0 \<le> wlength c \<and> wlength c \<le> int BUFFER_LENGTH \<and> g \<noteq> [] \<and> list_all2 (cut full) parts (butlast g) \<and> pending c = last g))"

lemma buffers_blank [simp]: "buffers_ok (blank_conn fd c)"
  by (simp add: buffers_ok_def blank_conn_def)

lemma set_event_conn [simp]:
  "conn_list (set_event fd ev k s) = conn_list s" "got (set_event fd ev k s) = got s" "sent (set_event fd ev k s) = sent s"
  by (simp_all add: set_event_def)

lemma set_event_epoll:
  "epoll (set_event fd ev k s) = (if (if k \<noteq> 0 then 0 \<le> fd \<and> epoll s fd = None else epoll s fd \<noteq> None) then (epoll s)(fd \<mapsto> ev) else epoll s)"
  by (simp add: set_event_def)

text \<open>\<open>accept_cb\<close> is the same in every program up to \<open>event_register\<close>.\<close>

lemma accept_refuse: "accepted r < 0 \<Longrightarrow> accept_cb r fd s = Some s"
  by (simp add: accept_cb_def)

lemma accept_admit:
  assumes a: "fd_ok (accepted r)" "epoll s (accepted r) = None"
    and J: "J EPOLLIN (blank_conn (accepted r) (conn_list s (accepted r))) [] []"
  shows "\<exists>s'. accept_cb r fd s = Some s' \<and> same_but (accepted r) s s' \<and> epoll s' (accepted r) = Some EPOLLIN \<and> live J EPOLLIN (accepted r) s'"
  using a J by (simp add: accept_cb_def event_register_def Let_def put_conn_def fd_ok_def same_but_def set_event_epoll live_def blank_conn_def)

lemma sys_recv_ok:
  assumes "io_ok s r" "received r = Some bs"
  shows "sys_recv r fd c s = (int (length bs), c\<lparr>rbuffer := bs @ drop (length bs) (rbuffer c)\<rparr>, s\<lparr>got := (got s)(fd := got s fd @ [bs])\<rparr>)"
  using assms by (simp add: sys_recv_def io_ok_def Let_def)

lemma echo_step_recv:
  assumes "fd_ok fd" "epoll s fd = Some EPOLLIN" "live (echo_inv full) EPOLLIN fd s" "echo_fair full r (conn_list s fd)" "io_ok s r"
  shows "\<exists>s'. recv_cb r fd s = Some s' \<and> same_but fd s s' \<and> (\<forall>ev. epoll s' fd = Some ev \<longrightarrow> live (echo_inv full) ev fd s')"
proof -
  let ?c = "conn_list s fd"
  obtain bs where bs: "received r = Some bs" and len: "length bs \<le> BUFFER_LENGTH" using assms(4,5) by (auto simp: echo_fair_def io_ok_def)
  note rv = sys_recv_ok [OF assms(5) bs, of fd ?c]
  have l: "length (rbuffer ?c) = BUFFER_LENGTH" "length (wbuffer ?c) = BUFFER_LENGTH"
    "\<exists>parts. sent s fd = concat parts \<and> list_all2 (cut full) parts (got s fd)"
    using assms(3) by (simp_all add: live_def echo_inv_def buffers_ok_def)
  show ?thesis
  proof (cases "bs = []")
    case True
    then show ?thesis using rv by (simp add: recv_cb_def close_conn_def same_but_def)
  next
    case False
    then show ?thesis using rv l len assms(1-3)
      by (simp add: recv_cb_def put_conn_def same_but_def set_event_epoll live_def echo_inv_def buffers_ok_def pending_def)
  qed
qed

lemma echo_step_send:
  assumes "fd_ok fd" "epoll s fd = Some EPOLLOUT" "live (echo_inv full) EPOLLOUT fd s" "echo_fair full r (conn_list s fd)"
  shows "\<exists>s'. send_cb r fd s = Some s' \<and> same_but fd s s' \<and> (\<forall>ev. epoll s' fd = Some ev \<longrightarrow> live (echo_inv full) ev fd s')"
proof -
  let ?c = "conn_list s fd" and ?p = "take (nat (sent_count r)) (pending (conn_list s fd))"
  obtain parts where p: "sent s fd = concat parts" "got s fd \<noteq> []" "list_all2 (cut full) parts (butlast (got s fd))" "pending ?c = last (got s fd)"
    and w: "0 \<le> wlength ?c" "wlength ?c \<le> int BUFFER_LENGTH" "buffers_ok ?c"
    using assms(3) by (auto simp: live_def echo_inv_def)
  have "cut full ?p (last (got s fd))" unfolding p(4) [symmetric]
    using assms(4) w(1) by (intro cut_take) (simp add: echo_fair_def pending_def)
  then have "list_all2 (cut full) (parts @ [?p]) (butlast (got s fd) @ [last (got s fd)])" using p(3) by (simp add: list_all2_appendI)
  then have all: "list_all2 (cut full) (parts @ [?p]) (got s fd)" using p(2) by simp
  have "\<exists>ps. concat parts @ ?p = concat ps \<and> list_all2 (cut full) ps (got s fd)"
    using all by (intro exI [of _ "parts @ [?p]"]) simp
  then show ?thesis using assms(1-3) w p(1)
    by (simp add: send_cb_def sys_send_def same_but_def set_event_epoll live_def echo_inv_def buffers_ok_def pending_def Let_def nat_le_iff)
qed

interpretation echo: event_loop echo_table "echo_inv full" "echo_fair full" for full
proof (unfold_locales, goal_cases)
  case (1 fd r s)
  then show ?case by (simp add: accept_refuse)
next
  case (2 fd r s)
  then show ?case using accept_admit [of r s "echo_inv full" fd] by (simp add: echo_inv_def)
next
  case (3 fd s r)
  then show ?case using echo_step_recv [of fd s full r] by simp
next
  case (4 fd s r)
  then show ?case using echo_step_send [of fd s full r] by simp
qed

text \<open>C31: In every run of the echo server in which no \<open>recv\<close> fails, each connection has been sent, for each message received from
  it and in their order, the part of that message that its \<open>send\<close> took; a connection that waits to be writable has
  its last message in the buffer, and nothing else is pending.  When every \<open>send\<close> takes its whole buffer, the bytes sent, and
  after them those in the buffer, are exactly the bytes received.  The next event of any connection is handled without touching
  memory outside the connection table or a buffer, as long as its \<open>recv\<close> does not fail.\<close>

theorem echo_exact:
  assumes start: "echo_start rs = Some s0" and run: "(turn echo_table (echo_fair full))\<^sup>*\<^sup>* s0 s"
    and fd: "epoll s fd = Some ev"
  shows "(recv_callback (conn_list s fd) = Recv_cb \<longrightarrow>
      (\<exists>parts. sent s fd = concat parts \<and> list_all2 (cut full) parts (if ev = EPOLLOUT then butlast (got s fd) else got s fd)) \<and>
      (ev = EPOLLOUT \<longrightarrow> got s fd \<noteq> [] \<and> pending (conn_list s fd) = last (got s fd)) \<and>
      (full \<longrightarrow> concat (got s fd) = sent s fd @ (if ev = EPOLLOUT then pending (conn_list s fd) else []))) \<and>
    (io_ok s r \<longrightarrow> echo_fair full r (conn_list s fd) \<longrightarrow> handle_event echo_table r (fd, ev = EPOLLIN, ev = EPOLLOUT) s \<noteq> None)"
proof (intro conjI impI)
  have inv: "loop_inv (echo_inv full) s"
    using echo.run_inv [OF run] start_inv start by (simp add: echo_start_def)
  show "handle_event echo_table r (fd, ev = EPOLLIN, ev = EPOLLOUT) s \<noteq> None"
    if "io_ok s r" "echo_fair full r (conn_list s fd)"
    using echo.event_defined [OF inv fd that] by auto
  assume "recv_callback (conn_list s fd) = Recv_cb"
  then have i: "echo_inv full ev (conn_list s fd) (got s fd) (sent s fd)" using loop_invD [OF inv fd] by (simp add: live_def)
  then show "\<exists>parts. sent s fd = concat parts \<and> list_all2 (cut full) parts (if ev = EPOLLOUT then butlast (got s fd) else got s fd)"
    by (cases ev) (auto simp: echo_inv_def)
  show "got s fd \<noteq> []" "pending (conn_list s fd) = last (got s fd)" if "ev = EPOLLOUT"
    using i that by (auto simp: echo_inv_def)
  assume full: full
  show "concat (got s fd) = sent s fd @ (if ev = EPOLLOUT then pending (conn_list s fd) else [])"
  proof (cases ev)
    case EPOLLIN
    then show ?thesis using i full by (auto simp: echo_inv_def list_all2_eq [symmetric])
  next
    case EPOLLOUT
    then have "got s fd \<noteq> []" "sent s fd = concat (butlast (got s fd))" "pending (conn_list s fd) = last (got s fd)"
      using i full by (auto simp: echo_inv_def list_all2_eq [symmetric])
    then show ?thesis using EPOLLOUT concat_last [of "got s fd"] by simp
  qed
qed

theorem echo_exact_witness:
  "\<exists>s :: reactor. epoll s 5 = Some EPOLLOUT \<and> concat (got s 5) = sent s 5 @ pending (conn_list s 5) \<and> pending (conn_list s 5) = [104, 105] \<and>
     handle_event echo_table \<lparr>accepted = -1, received = Some [], sent_count = 2\<rparr> (5, False, True) s \<noteq> None"
proof -
  let ?a = "\<lparr>accepted = 5, received = Some [], sent_count = 0\<rparr>" and ?r = "\<lparr>accepted = -1, received = Some [104, 105], sent_count = 0\<rparr>"
  define s0 where "s0 = the (echo_start [(3, 0, 0)])"
  define s1 where "s1 = the (handle_event echo_table ?a (3, True, False) s0)"
  define s2 where "s2 = the (handle_event echo_table ?r (5, True, False) s1)"
  have s0: "echo_start [(3, 0, 0)] = Some s0" "epoll s0 3 = Some EPOLLIN" "epoll s0 5 = None" "recv_callback (conn_list s0 3) = Accept_cb"
    by (simp_all add: s0_def echo_start_def MAX_PORTS_def init_server_def put_conn_def fd_ok_def CONNECTION_SIZE_def set_event_def zero_reactor_def)
  have s1: "handle_event echo_table ?a (3, True, False) s0 = Some s1" "epoll s1 5 = Some EPOLLIN" "recv_callback (conn_list s1 5) = Recv_cb"
      "wlength (conn_list s1 5) = 0"
    using s0 by (simp_all add: s1_def handle_event_def fd_ok_def CONNECTION_SIZE_def accept_cb_def event_register_def put_conn_def set_event_def blank_conn_def)
  have s2: "handle_event echo_table ?r (5, True, False) s1 = Some s2" "epoll s2 5 = Some EPOLLOUT" "recv_callback (conn_list s2 5) = Recv_cb"
      "pending (conn_list s2 5) = [104, 105]" "wlength (conn_list s2 5) = 2"
    using s1 by (simp_all add: s2_def handle_event_def fd_ok_def CONNECTION_SIZE_def recv_cb_def sys_recv_def BUFFER_LENGTH_def put_conn_def set_event_def pending_def)
  have "turn (echo_table :: unit table) (echo_fair True) s0 s1"
    by (rule turnI [of _ 3 EPOLLIN ?a]) (use s0 s1 in \<open>simp_all add: io_ok_def echo_fair_def CONNECTION_SIZE_def s0_def echo_start_def MAX_PORTS_def init_server_def put_conn_def fd_ok_def set_event_def zero_reactor_def zero_conn_def\<close>)
  moreover have "turn (echo_table :: unit table) (echo_fair True) s1 s2"
    by (rule turnI [of _ 5 EPOLLIN ?r]) (use s1 s2 in \<open>simp_all add: io_ok_def echo_fair_def CONNECTION_SIZE_def BUFFER_LENGTH_def\<close>)
  ultimately have "(turn (echo_table :: unit table) (echo_fair True))\<^sup>*\<^sup>* s0 s2" by simp
  from echo_exact [OF s0(1) this s2(2), of "\<lparr>accepted = -1, received = Some [], sent_count = 2\<rparr>"] s2
  show ?thesis by (intro exI [of _ s2]) (simp add: io_ok_def echo_fair_def CONNECTION_SIZE_def)
qed

text \<open>A failed \<open>recv\<close> makes the copy of \<open>-1\<close> bytes; a short \<open>send\<close> loses the rest.\<close>

lemma echo_recv_error: "received r = None \<Longrightarrow> recv_cb r fd s = None"
  by (simp add: recv_cb_def sys_recv_def)

lemma echo_short_send:
  assumes "echo_inv True EPOLLOUT (conn_list s fd) (got s fd) (sent s fd)" "0 \<le> sent_count r" "sent_count r < wlength (conn_list s fd)"
    and "send_cb r fd s = Some s'"
  shows "length (sent s' fd) < length (concat (got s' fd))" "epoll s fd \<noteq> None \<Longrightarrow> epoll s' fd = Some EPOLLIN"
proof -
  let ?c = "conn_list s fd"
  have g: "got s fd \<noteq> []" "sent s fd = concat (butlast (got s fd))" "pending ?c = last (got s fd)"
    using assms(1) by (auto simp: echo_inv_def list_all2_eq [symmetric])
  have "concat (got s fd) = concat (butlast (got s fd)) @ last (got s fd)"
    using g(1) by (rule concat_last)
  then have "concat (got s fd) = sent s fd @ pending ?c" using g(2,3) by simp
  moreover have "buffers_ok ?c" "wlength ?c \<le> int BUFFER_LENGTH" using assms(1) by (auto simp: echo_inv_def)
  moreover have "sent s' fd = sent s fd @ take (nat (sent_count r)) (pending ?c)" "got s' fd = got s fd"
    using assms(4) by (auto simp: send_cb_def sys_send_def Let_def pending_def split: if_splits)
  ultimately show "length (sent s' fd) < length (concat (got s' fd))"
    using assms(2,3) by (simp add: pending_def buffers_ok_def)
  show "epoll s fd \<noteq> None \<Longrightarrow> epoll s' fd = Some EPOLLIN"
    using assms(4) by (auto simp: send_cb_def sys_send_def Let_def set_event_epoll split: if_splits)
qed

section \<open>The first version\<close>

text \<open>\<open>2.1.3_reactor_01.c\<close>: one port, and no check of what \<open>accept\<close> returns.\<close>

definition event_register_01 :: "int \<Rightarrow> event \<Rightarrow> reactor \<Rightarrow> reactor option" where
  "event_register_01 fd ev s = do { s \<leftarrow> put_conn fd (blank_conn fd (conn_list s fd)) s; Some (set_event fd ev 1 s) }"

definition accept_cb_01 :: "'a io_scheme \<Rightarrow> int \<Rightarrow> reactor \<Rightarrow> reactor option" where
  "accept_cb_01 r fd s =
     (let a = accepted r in event_register_01 a EPOLLIN (s\<lparr>got := (got s)(a := []), sent := (sent s)(a := [])\<rparr>))"

text \<open>This version prints what it received as a string, which leaves the buffer when that has no zero byte.\<close>

definition recv_cb_01 :: "'a io_scheme \<Rightarrow> int \<Rightarrow> reactor \<Rightarrow> reactor option" where
  "recv_cb_01 r fd s =
     (case sys_recv r fd (conn_list s fd) s of (count, c, s) \<Rightarrow>
        if count = 0 then Some (close_conn fd s)
        else do {
          _ \<leftarrow> bstr (rbuffer c);
          if count < 0 then None
          else do {
            s \<leftarrow> put_conn fd (c\<lparr>wbuffer := take (nat count) (rbuffer c) @ drop (nat count) (wbuffer c), rlength := count, wlength := count\<rparr>) s;
            Some (set_event fd EPOLLOUT 0 s) } })"

definition main_01 :: "int \<times> int \<times> int \<Rightarrow> reactor option" where
  "main_01 r = do {
     let listenfd = init_server r;
     let s = zero_reactor;
     s \<leftarrow> put_conn listenfd ((conn_list s listenfd)\<lparr>c_fd := listenfd, recv_callback := Accept_cb\<rparr>) s;
     Some (set_event listenfd EPOLLIN 1 s) }"

lemma accept_01_failure: "accepted r < 0 \<Longrightarrow> accept_cb_01 r fd s = None"
  by (simp add: accept_cb_01_def event_register_01_def Let_def put_conn_def fd_ok_def)

lemma recv_01_success: "recv_cb_01 r fd s = Some s' \<Longrightarrow> recv_cb r fd s = Some s'"
  by (auto simp: recv_cb_01_def recv_cb_def split: prod.splits if_splits bind_splits)

lemma recv_01_full:
  assumes "received r = Some bs" "length bs = BUFFER_LENGTH" "0 \<notin> set bs" "length (rbuffer (conn_list s fd)) = BUFFER_LENGTH"
  shows "recv_cb_01 r fd s = None"
proof -
  have "bs \<noteq> []" using assms(2) by (auto simp: BUFFER_LENGTH_def)
  then show ?thesis using assms by (simp add: recv_cb_01_def sys_recv_def Let_def bstr_def BUFFER_LENGTH_def)
qed

lemma accept_01_success: "0 \<le> accepted r \<Longrightarrow> accept_cb_01 r fd s = accept_cb r fd s"
  by (simp add: accept_cb_01_def accept_cb_def event_register_01_def event_register_def Let_def)

end
