(* ===== verification/Webserver.thy ===== *)
theory Webserver
  imports Reactor
begin

text \<open>
  The web servers on the reactor: the two versions without a status (\<open>webserver_00str.c\<close> and
  \<open>webserver_01file.c\<close> with the \<open>reactor.c\<close> beside them) and the ones with it (\<open>webserver_02status.c\<close> and
  \<open>webserver_03png.c\<close> with \<open>2.1.4_reactor_webserver/reactor.c\<close>).  The file to serve and the outcome of \<open>open\<close>, \<open>fstat\<close>,
  \<open>read\<close> and \<open>sendfile\<close> come with the \<open>io\<close> record of a handler run.
\<close>

section \<open>The file to serve\<close>

record web_io = io +
  open_ok :: bool
  stat_ok :: bool
  page :: "u8 list"
  sendfile_count :: int

section \<open>The reactor of the web servers\<close>

text \<open>Every server prints the message as a string, which leaves the buffer when no byte of it is zero, and has an
  \<open>http_request\<close>, which resets the buffer for the answer.\<close>

definition web_recv_cb :: "(conn \<Rightarrow> conn) \<Rightarrow> 'a io_scheme \<Rightarrow> int \<Rightarrow> reactor \<Rightarrow> reactor option" where
  "web_recv_cb http_request r fd s =
     (let c = (conn_list s fd)\<lparr>rbuffer := replicate BUFFER_LENGTH 0\<rparr> in
      case sys_recv r fd c s of (count, c, s) \<Rightarrow>
        if count = 0 \<or> count < 0 then do { s \<leftarrow> put_conn fd c s; Some (close_conn fd s) }
        else do {
          _ \<leftarrow> bstr (rbuffer c);
          s \<leftarrow> put_conn fd (http_request (c\<lparr>rlength := count\<rparr>)) s;
          Some (set_event fd EPOLLOUT 0 s) })"

definition web_start :: "(int \<times> int \<times> int) list \<Rightarrow> reactor option" where
  "web_start rs = listen_loop (take MAX_PORTS rs) zero_reactor"

subsection \<open>Without a status\<close>

definition http_request_00 :: "conn \<Rightarrow> conn" where
  "http_request_00 c = c\<lparr>wbuffer := replicate BUFFER_LENGTH 0, wlength := 0\<rparr>"

definition html_head :: "u8 list \<Rightarrow> u8 list" where
  "html_head len = bytes ''HTTP/1.1 200 OK'' @ crlf @ bytes ''Content-Type: text/html'' @ crlf @ bytes ''Accept-Ranges: bytes'' @ crlf @
     bytes ''Content-Length: '' @ len @ crlf @ bytes ''Date: Tue, 30 Apr 2024 13:16:46 GMT'' @ crlf @ crlf"

definition king_page :: "u8 list" where
  "king_page = bytes ''<html><head><title>0voice.king</title></head><body><h1>King</h1></body></html>'' @ crlf @ crlf"

definition http_response_00 :: "'a web_io_scheme \<Rightarrow> conn \<Rightarrow> conn option" where
  "http_response_00 r c = do {
     let t = html_head (bytes ''82'') @ king_page;
     b \<leftarrow> put_text (wbuffer c) t;
     Some (c\<lparr>wbuffer := b, wlength := int (length t)\<rparr>) }"

text \<open>Neither \<open>open\<close> nor \<open>fstat\<close> is checked: without the file the status buffer is indeterminate, which is \<open>None\<close>.\<close>

definition http_response_01 :: "'a web_io_scheme \<Rightarrow> conn \<Rightarrow> conn option" where
  "http_response_01 r c =
     (if \<not> open_ok r \<or> \<not> stat_ok r then None
      else do {
        let t = html_head (digits (length (page r)));
        b \<leftarrow> put_text (wbuffer c) t;
        let body = take (BUFFER_LENGTH - length t) (page r);
        Some (c\<lparr>wbuffer := take (length t) b @ body @ drop (length t + length body) b, wlength := int (length t) + int (length body)\<rparr>) })"

definition plain_send_cb :: "('a web_io_scheme \<Rightarrow> conn \<Rightarrow> conn option) \<Rightarrow> 'a web_io_scheme \<Rightarrow> int \<Rightarrow> reactor \<Rightarrow> reactor option" where
  "plain_send_cb http_response r fd s = do {
     c \<leftarrow> http_response r (conn_list s fd);
     s \<leftarrow> put_conn fd c s;
     s \<leftarrow> (if wlength c \<noteq> 0 then sys_send r fd (wbuffer c) (wlength c) s else Some s);
     Some (set_event fd EPOLLIN 0 s) }"

fun plain_table :: "('a web_io_scheme \<Rightarrow> conn \<Rightarrow> conn option) \<Rightarrow> ('a web_io_ext) table" where
  "plain_table resp Accept_cb = accept_cb"
| "plain_table resp Recv_cb = web_recv_cb http_request_00"
| "plain_table resp Send_cb = plain_send_cb resp"
| "plain_table resp No_callback = (\<lambda>_ _ _. None)"

subsection \<open>With a status\<close>

definition http_request :: "conn \<Rightarrow> conn" where
  "http_request c = c\<lparr>wbuffer := replicate BUFFER_LENGTH 0, wlength := 0, status := 0\<rparr>"

definition http_head :: "string \<Rightarrow> nat \<Rightarrow> u8 list" where
  "http_head ctype n = bytes ''HTTP/1.1 200 OK'' @ crlf @ bytes ''Content-Type: '' @ bytes ctype @ crlf @ bytes ''Accept-Ranges: bytes'' @ crlf @
     bytes ''Content-Length: '' @ digits n @ crlf @ bytes ''Date: Mon, 04 Aug 2025 17:48:00 GMT'' @ crlf @ crlf"

text \<open>The second component is what \<open>sendfile\<close> puts on the connection.\<close>

definition http_response :: "string \<Rightarrow> 'a web_io_scheme \<Rightarrow> conn \<Rightarrow> (conn \<times> u8 list) option" where
  "http_response ctype r c =
     (if \<not> open_ok r then Some (c, [])
      else if \<not> stat_ok r then Some (c, [])
      else if status c = 0 then do {
        let t = http_head ctype (length (page r));
        b \<leftarrow> put_text (wbuffer c) t;
        Some (c\<lparr>wbuffer := b, wlength := int (length t), status := 1\<rparr>, []) }
      else if status c = 1 then Some (c\<lparr>status := 2\<rparr>, take (nat (sendfile_count r)) (page r))
      else if status c = 2 then Some (c\<lparr>wbuffer := replicate BUFFER_LENGTH 0, wlength := 0, status := 0\<rparr>, [])
      else Some (c, []))"

definition web_send_cb :: "string \<Rightarrow> 'a web_io_scheme \<Rightarrow> int \<Rightarrow> reactor \<Rightarrow> reactor option" where
  "web_send_cb ctype r fd s = do {
     (c, body) \<leftarrow> http_response ctype r (conn_list s fd);
     s \<leftarrow> put_conn fd c s;
     let s = s\<lparr>sent := (sent s)(fd := sent s fd @ body)\<rparr>;
     if status c = 1 then do {
       s \<leftarrow> sys_send r fd (wbuffer c) (wlength c) s;
       Some (set_event fd EPOLLOUT 0 s) }
     else if status c = 2 then Some (set_event fd EPOLLOUT 0 s)
     else if status c = 0 then Some (set_event fd EPOLLIN 0 s)
     else Some s }"

fun web_table :: "string \<Rightarrow> ('a web_io_ext) table" where
  "web_table ctype Accept_cb = accept_cb"
| "web_table ctype Recv_cb = web_recv_cb http_request"
| "web_table ctype Send_cb = web_send_cb ctype"
| "web_table ctype No_callback = (\<lambda>_ _ _. None)"

abbreviation html_table :: "('a web_io_ext) table" where
  "html_table \<equiv> web_table ''text/html''"

abbreviation png_table :: "('a web_io_ext) table" where
  "png_table \<equiv> web_table ''image/png''"

section \<open>The responses\<close>

lemma http_head_length: "n < 2 ^ 63 \<Longrightarrow> length ctype \<le> 100 \<Longrightarrow> length (http_head ctype n) < BUFFER_LENGTH"
  using digits_length [of n 19] by (simp add: http_head_def bytes_def crlf_def BUFFER_LENGTH_def)

text \<open>A message that leaves a zero byte in the cleared buffer.\<close>

definition printable :: "'a io_scheme \<Rightarrow> bool" where
  "printable r \<longleftrightarrow> (\<forall>bs. received r = Some bs \<longrightarrow> length bs < BUFFER_LENGTH \<or> 0 \<in> set bs)"

lemma printable_string:
  assumes "printable r" "received r = Some bs"
  shows "\<exists>str. bstr (bs @ drop (length bs) (replicate BUFFER_LENGTH 0)) = Some str"
  using assms by (auto simp: printable_def bstr_def)

lemma web_recv_ok:
  assumes fd: "fd_ok fd" "epoll s fd = Some EPOLLIN" and r: "io_ok s r" "printable r" "received r = Some bs" "bs \<noteq> []"
    and req: "\<And>c. rbuffer (req c) = rbuffer c"
  defines "c' \<equiv> req ((conn_list s fd)\<lparr>rbuffer := bs @ drop (length bs) (replicate BUFFER_LENGTH 0), rlength := int (length bs)\<rparr>)"
  shows "web_recv_cb req r fd s = Some (s\<lparr>conn_list := (conn_list s)(fd := c'), got := (got s)(fd := got s fd @ [bs]), epoll := (epoll s)(fd \<mapsto> EPOLLOUT)\<rparr>)"
proof -
  obtain str where "bstr (bs @ drop (length bs) (replicate BUFFER_LENGTH 0)) = Some str" using printable_string [OF r(2,3)] by blast
  then show ?thesis using sys_recv_ok [OF r(1,3)] fd r(4)
    by (simp add: web_recv_cb_def put_conn_def set_event_def c'_def)
qed

lemma web_recv_close:
  assumes "fd_ok fd" "io_ok s r" "received r = None \<or> received r = Some []"
  shows "\<exists>s'. web_recv_cb req r fd s = Some s' \<and> same_but fd s s' \<and> epoll s' fd = None"
  using assms sys_recv_ok [OF assms(2)] by (auto simp: web_recv_cb_def sys_recv_def put_conn_def close_conn_def same_but_def)

text \<open>The file is \<open>F\<close>, of a size that fits \<open>off_t\<close>, whenever it can be opened.  \<open>open\<close>, \<open>fstat\<close>, \<open>send\<close> and \<open>sendfile\<close> may fail, and
  the last two may take a part only; with \<open>full\<close> they succeed and take everything.\<close>

definition web_fair :: "bool \<Rightarrow> string \<Rightarrow> u8 list \<Rightarrow> 'a web_io_scheme \<Rightarrow> conn \<Rightarrow> bool" where
  "web_fair full ctype F r c \<longleftrightarrow> length F < 2 ^ 63 \<and> length ctype \<le> 100 \<and> printable r \<and> page r = F \<and>
     (full \<longrightarrow> open_ok r \<and> stat_ok r \<and> sendfile_count r = int (length F) \<and> sent_count r = int (length (http_head ctype (length F))))"

definition web_page :: "string \<Rightarrow> u8 list \<Rightarrow> u8 list" where
  "web_page ctype F = http_head ctype (length F) @ F"

text \<open>What is sent for one message: the head, or what \<open>send\<close> took of it, again for each time the file could not be opened after it, and then
  the file, or what \<open>sendfile\<close> took of it.  Nothing at all when the file could not be opened at the start.\<close>

definition web_heads :: "bool \<Rightarrow> string \<Rightarrow> u8 list \<Rightarrow> u8 list \<Rightarrow> bool" where
  "web_heads full ctype F p \<longleftrightarrow> (\<exists>hs. p = concat hs \<and> (\<forall>h \<in> set hs. cut full h (http_head ctype (length F))) \<and> (full \<longrightarrow> length hs = 1))"

definition web_answer :: "bool \<Rightarrow> string \<Rightarrow> u8 list \<Rightarrow> u8 list \<Rightarrow> bool" where
  "web_answer full ctype F p \<longleftrightarrow> (\<exists>h f. p = h @ f \<and> web_heads full ctype F h \<and> cut full f F)"

text \<open>What a connection that waits to be writable has sent of its current response.\<close>

definition web_part :: "bool \<Rightarrow> string \<Rightarrow> u8 list \<Rightarrow> int \<Rightarrow> u8 list \<Rightarrow> bool" where
  "web_part full ctype F st q \<longleftrightarrow> (if st = 0 then q = [] else if st = 1 then web_heads full ctype F q else web_answer full ctype F q)"

text \<open>The steps of the status when the connection is writable, with what each sends.\<close>

definition web_moves :: "bool \<Rightarrow> string \<Rightarrow> u8 list \<Rightarrow> int \<Rightarrow> int \<Rightarrow> u8 list \<Rightarrow> bool" where
  "web_moves full ctype F st st' out \<longleftrightarrow>
     st = 0 \<and> st' = 1 \<and> cut full out (http_head ctype (length F)) \<or> st = 1 \<and> st' = 2 \<and> cut full out F \<or> st = 2 \<and> st' = 0 \<and> out = [] \<or>
     \<not> full \<and> (st = 0 \<and> st' = 0 \<and> out = [] \<or> st = 1 \<and> st' = 1 \<and> cut full out (http_head ctype (length F)) \<or> st = 2 \<and> st' = 2 \<and> out = [])"

lemma heads_one: "cut full h (http_head ctype (length F)) \<Longrightarrow> web_heads full ctype F h"
  unfolding web_heads_def by (intro exI [of _ "[h]"]) simp

lemma heads_more: "web_heads False ctype F p \<Longrightarrow> cut False h (http_head ctype (length F)) \<Longrightarrow> web_heads False ctype F (p @ h)"
  unfolding web_heads_def by (elim exE conjE) (rule exI [of _ "_ @ [h]"], simp)

lemma answer_nothing: "web_answer False ctype F []"
  unfolding web_answer_def web_heads_def by (intro exI [of _ "[]"] conjI) (auto simp: cut_def intro: exI [of _ 0])

lemma answer_file: "web_heads full ctype F h \<Longrightarrow> cut full f F \<Longrightarrow> web_answer full ctype F (h @ f)"
  unfolding web_answer_def by blast

lemma heads_full: "web_heads True ctype F p \<Longrightarrow> p = http_head ctype (length F)"
  by (auto simp: web_heads_def length_Suc_conv)

lemma answer_full: "web_answer True ctype F p \<Longrightarrow> p = web_page ctype F"
  by (auto simp: web_answer_def web_page_def dest: heads_full)

definition web_inv :: "bool \<Rightarrow> string \<Rightarrow> u8 list \<Rightarrow> conn_inv" where
  "web_inv full ctype F ev c g t \<longleftrightarrow> buffers_ok c \<and> (\<exists>parts q. t = concat parts @ q \<and> (\<forall>p \<in> set parts. web_answer full ctype F p) \<and>
     (if ev = EPOLLIN then length parts = length g \<and> q = []
      else status c \<in> {0, 1, 2} \<and> Suc (length parts) = length g \<and> web_part full ctype F (status c) q \<and>
        (status c = 1 \<longrightarrow> 0 \<le> wlength c \<and> wlength c \<le> int BUFFER_LENGTH \<and> pending c = http_head ctype (length F))))"

lemma web_step_recv:
  assumes "fd_ok fd" "epoll s fd = Some EPOLLIN" "live (web_inv full ctype F) EPOLLIN fd s" "io_ok s r" "printable r"
  shows "\<exists>s'. web_recv_cb http_request r fd s = Some s' \<and> same_but fd s s' \<and> (\<forall>ev. epoll s' fd = Some ev \<longrightarrow> live (web_inv full ctype F) ev fd s')"
proof (cases "received r = None \<or> received r = Some []")
  case True
  from web_recv_close [OF assms(1,4) this, of http_request] show ?thesis by auto
next
  case False
  then obtain bs where bs: "received r = Some bs" "bs \<noteq> []" by auto
  have l: "buffers_ok (conn_list s fd)" "\<exists>parts. sent s fd = concat parts \<and> (\<forall>p \<in> set parts. web_answer full ctype F p) \<and> length parts = length (got s fd)"
    using assms(3) by (auto simp: live_def web_inv_def)
  have len: "length bs \<le> BUFFER_LENGTH" using assms(4) bs by (simp add: io_ok_def)
  have rb: "rbuffer (http_request c) = rbuffer c" for c by (simp add: http_request_def)
  show ?thesis using web_recv_ok [OF assms(1,2,4,5) bs, of http_request, OF rb] l len assms(3)
    by (simp add: same_but_def live_def web_inv_def buffers_ok_def http_request_def web_part_def)
qed

lemma put_text_ok: "length t < length buf \<Longrightarrow> put_text buf t = Some (t @ 0 # drop (length t + 1) buf)"
  by (simp add: put_text_def)

text \<open>One writable event, by status.\<close>

lemma web_send_status:
  fixes s :: reactor and fd :: int
  defines "c \<equiv> conn_list s fd"
  assumes s: "fd_ok fd" "epoll s fd = Some EPOLLOUT" "buffers_ok c" "status c \<in> {0, 1, 2}" and fair: "web_fair full ctype F r c"
    and head: "status c = 1 \<Longrightarrow> 0 \<le> wlength c \<and> wlength c \<le> int BUFFER_LENGTH \<and> pending c = http_head ctype (length F)"
  shows "\<exists>s' out. web_send_cb ctype r fd s = Some s' \<and> same_but fd s s' \<and> got s' fd = got s fd \<and> buffers_ok (conn_list s' fd) \<and>
    recv_callback (conn_list s' fd) = recv_callback c \<and> send_callback (conn_list s' fd) = send_callback c \<and>
    epoll s' fd = Some (if status (conn_list s' fd) = 0 then EPOLLIN else EPOLLOUT) \<and> sent s' fd = sent s fd @ out \<and>
    web_moves full ctype F (status c) (status (conn_list s' fd)) out \<and>
    (status (conn_list s' fd) = 1 \<longrightarrow> 0 \<le> wlength (conn_list s' fd) \<and> wlength (conn_list s' fd) \<le> int BUFFER_LENGTH \<and>
      pending (conn_list s' fd) = http_head ctype (length F))"
proof -
  let ?h = "http_head ctype (length F)"
  have h: "length ?h < BUFFER_LENGTH" using fair by (simp add: web_fair_def http_head_length)
  have f: "page r = F" "full \<Longrightarrow> sendfile_count r = int (length F)" "full \<Longrightarrow> sent_count r = int (length ?h)"
    "full \<Longrightarrow> open_ok r \<and> stat_ok r" using fair by (simp_all add: web_fair_def)
  have hc: "cut full (take (nat (sent_count r)) ?h) ?h" and fc: "cut full (take (nat (sendfile_count r)) F) F"
    by (rule cut_take, simp add: f)+
  have pt: "put_text (wbuffer c) ?h = Some (?h @ 0 # drop (length ?h + 1) (wbuffer c))"
    using h s(3) by (intro put_text_ok) (simp add: buffers_ok_def)
  consider (missing) "\<not> (open_ok r \<and> stat_ok r)" | (zero) "open_ok r" "stat_ok r" "status c = 0"
    | (one) "open_ok r" "stat_ok r" "status c = 1" | (two) "open_ok r" "stat_ok r" "status c = 2" using s(4) by auto
  then show ?thesis
  proof cases
    case missing
    then have nf: "\<not> full" and resp: "http_response ctype r c = Some (c, [])" using f(4) by (auto simp: http_response_def)
    consider "status c = 0" | "status c = 1" | "status c = 2" using s(4) by auto
    then show ?thesis
    proof cases
      case 1
      then show ?thesis using s nf resp
        by (simp add: c_def web_send_cb_def Let_def put_conn_def same_but_def set_event_epoll web_moves_def)
    next
      case 2
      then show ?thesis using s nf resp head [OF 2] hc
        by (simp add: c_def web_send_cb_def Let_def put_conn_def sys_send_def same_but_def set_event_epoll web_moves_def buffers_ok_def pending_def nat_le_iff)
    next
      case 3
      then show ?thesis using s nf resp
        by (simp add: c_def web_send_cb_def Let_def put_conn_def same_but_def set_event_epoll web_moves_def)
    qed
  next
    case zero
    then show ?thesis using s f(1) pt h hc
      by (simp add: c_def web_send_cb_def http_response_def Let_def put_conn_def sys_send_def same_but_def set_event_epoll buffers_ok_def web_moves_def pending_def)
  next
    case one
    then show ?thesis using s f(1) fc
      by (simp add: c_def web_send_cb_def http_response_def Let_def put_conn_def same_but_def set_event_epoll buffers_ok_def web_moves_def)
  next
    case two
    then show ?thesis using s
      by (simp add: c_def web_send_cb_def http_response_def Let_def put_conn_def same_but_def set_event_epoll buffers_ok_def web_moves_def)
  qed
qed

lemma part_moves:
  assumes "web_moves full ctype F st st' out" "web_part full ctype F st q"
  shows "if st' = 0 then web_answer full ctype F (q @ out) else web_part full ctype F st' (q @ out)"
  using assms unfolding web_moves_def web_part_def
  by (auto intro: heads_one heads_more answer_nothing answer_file split: if_splits)

lemma web_step_send:
  assumes s: "fd_ok fd" "epoll s fd = Some EPOLLOUT" "live (web_inv full ctype F) EPOLLOUT fd s" "web_fair full ctype F r (conn_list s fd)"
  shows "\<exists>s'. web_send_cb ctype r fd s = Some s' \<and> same_but fd s s' \<and> (\<forall>ev. epoll s' fd = Some ev \<longrightarrow> live (web_inv full ctype F) ev fd s')"
proof -
  let ?c = "conn_list s fd"
  have inv: "buffers_ok ?c" "status ?c \<in> {0, 1, 2}" "recv_callback ?c = Recv_cb" "send_callback ?c = Send_cb"
    "status ?c = 1 \<Longrightarrow> 0 \<le> wlength ?c \<and> wlength ?c \<le> int BUFFER_LENGTH \<and> pending ?c = http_head ctype (length F)"
    using s(3) by (auto simp: live_def web_inv_def)
  obtain parts q where q: "sent s fd = concat parts @ q" "\<forall>p \<in> set parts. web_answer full ctype F p" "Suc (length parts) = length (got s fd)"
    "web_part full ctype F (status ?c) q" using s(3) by (auto simp: live_def web_inv_def)
  obtain s' out where s': "web_send_cb ctype r fd s = Some s'" "same_but fd s s'" "got s' fd = got s fd" "buffers_ok (conn_list s' fd)"
    "recv_callback (conn_list s' fd) = recv_callback ?c" "send_callback (conn_list s' fd) = send_callback ?c"
    "epoll s' fd = Some (if status (conn_list s' fd) = 0 then EPOLLIN else EPOLLOUT)" "sent s' fd = sent s fd @ out"
    "web_moves full ctype F (status ?c) (status (conn_list s' fd)) out"
    "status (conn_list s' fd) = 1 \<longrightarrow> 0 \<le> wlength (conn_list s' fd) \<and> wlength (conn_list s' fd) \<le> int BUFFER_LENGTH \<and>
      pending (conn_list s' fd) = http_head ctype (length F)"
    using web_send_status [OF s(1,2) inv(1,2) s(4) inv(5)] by blast
  note moved = part_moves [OF s'(9) q(4)]
  have st: "status (conn_list s' fd) \<in> {0, 1, 2}" using s'(9) by (auto simp: web_moves_def)
  have "web_inv full ctype F (if status (conn_list s' fd) = 0 then EPOLLIN else EPOLLOUT) (conn_list s' fd) (got s' fd) (sent s' fd)"
  proof (cases "status (conn_list s' fd) = 0")
    case True
    then have "sent s' fd = concat (parts @ [q @ out])" "\<forall>p \<in> set (parts @ [q @ out]). web_answer full ctype F p"
      "length (parts @ [q @ out]) = length (got s' fd)" using s'(3,8) q(1-3) moved by simp_all
    then have "\<exists>ps. sent s' fd = concat ps \<and> (\<forall>p \<in> set ps. web_answer full ctype F p) \<and> length ps = length (got s' fd)" by blast
    then show ?thesis using True s'(4) unfolding web_inv_def by auto
  next
    case False
    then have "sent s' fd = concat parts @ (q @ out)" "web_part full ctype F (status (conn_list s' fd)) (q @ out)" using s'(8) q(1) moved by simp_all
    then show ?thesis using False s'(3,4,10) st q(2,3) unfolding web_inv_def by auto
  qed
  then show ?thesis using s'(1,2,5-7) inv(3,4) by (auto simp: live_def)
qed

interpretation web: event_loop "web_table ctype" "web_inv full ctype F" "web_fair full ctype F" for full ctype F
proof (unfold_locales, goal_cases)
  case (1 fd r s)
  then show ?case by (simp add: accept_refuse)
next
  case (2 fd r s)
  then show ?case using accept_admit [of r s "web_inv full ctype F" fd] by (simp add: web_inv_def)
next
  case (3 fd s r)
  then show ?case using web_step_recv [of fd s full ctype F r] by (simp add: web_fair_def)
next
  case (4 fd s r)
  then show ?case using web_step_send [of fd s full ctype F r] by simp
qed

text \<open>C32: In every run of the web server with the status machine in which the file does not change and no message fills the
  buffer without a zero byte, whether \<open>open\<close>, \<open>fstat\<close>, \<open>recv\<close>, \<open>send\<close> and \<open>sendfile\<close> succeed, fail or take a part only, each connection has been sent exactly one
  answer per message: while it waits for input as many as the messages it sent, while it waits to be writable all but the last,
  and of the last the part that the status names.  An answer is the head, or what \<open>send\<close> took of it, once or again for each failure to open the
  file after it, and then the file, or what \<open>sendfile\<close> took of it, or nothing when the file could not be opened.  When these calls
  succeed and take everything, each answer is the head and the file, whole and once.  No event leads to an undefined step.\<close>

theorem web_serves:
  assumes start: "web_start rs = Some s0" and run: "(turn (web_table ctype) (web_fair full ctype F))\<^sup>*\<^sup>* s0 s"
    and fd: "epoll s fd = Some ev"
  shows "(recv_callback (conn_list s fd) = Recv_cb \<longrightarrow>
      (\<exists>parts q. sent s fd = concat parts @ q \<and> (\<forall>p \<in> set parts. web_answer full ctype F p) \<and>
        (if ev = EPOLLIN then length parts = length (got s fd) \<and> q = []
         else Suc (length parts) = length (got s fd) \<and> web_part full ctype F (status (conn_list s fd)) q)) \<and>
      (full \<longrightarrow> sent s fd = (if ev = EPOLLIN then concat (replicate (length (got s fd)) (web_page ctype F))
        else concat (replicate (length (got s fd) - 1) (web_page ctype F)) @
          (if status (conn_list s fd) = 0 then [] else if status (conn_list s fd) = 1 then http_head ctype (length F) else web_page ctype F)))) \<and>
    (io_ok s r \<longrightarrow> web_fair full ctype F r (conn_list s fd) \<longrightarrow> handle_event (web_table ctype) r (fd, ev = EPOLLIN, ev = EPOLLOUT) s \<noteq> None)"
proof (intro conjI impI)
  have inv: "loop_inv (web_inv full ctype F) s"
    using web.run_inv [OF run] start_inv start by (simp add: web_start_def)
  show "handle_event (web_table ctype) r (fd, ev = EPOLLIN, ev = EPOLLOUT) s \<noteq> None"
    if "io_ok s r" "web_fair full ctype F r (conn_list s fd)"
    using web.event_defined [OF inv fd that] by auto
  assume "recv_callback (conn_list s fd) = Recv_cb"
  then have i: "web_inv full ctype F ev (conn_list s fd) (got s fd) (sent s fd)" using loop_invD [OF inv fd] by (simp add: live_def)
  then obtain parts q where pq: "sent s fd = concat parts @ q" "\<forall>p \<in> set parts. web_answer full ctype F p"
    "if ev = EPOLLIN then length parts = length (got s fd) \<and> q = []
     else Suc (length parts) = length (got s fd) \<and> web_part full ctype F (status (conn_list s fd)) q"
    by (auto simp: web_inv_def split: if_splits)
  then show "\<exists>parts q. sent s fd = concat parts @ q \<and> (\<forall>p \<in> set parts. web_answer full ctype F p) \<and>
        (if ev = EPOLLIN then length parts = length (got s fd) \<and> q = []
         else Suc (length parts) = length (got s fd) \<and> web_part full ctype F (status (conn_list s fd)) q)" by blast
  assume full: full
  then have "parts = replicate (length parts) (web_page ctype F)" using pq(2) by (intro replicate_eqI [symmetric, THEN sym]) (auto dest: answer_full)
  then have "concat parts = concat (replicate (length parts) (web_page ctype F))" by simp
  moreover have "length parts = (if ev = EPOLLIN then length (got s fd) else length (got s fd) - 1)" using pq(3) by (auto split: if_splits)
  ultimately have cp: "concat parts = concat (replicate (if ev = EPOLLIN then length (got s fd) else length (got s fd) - 1) (web_page ctype F))" by simp
  show "sent s fd = (if ev = EPOLLIN then concat (replicate (length (got s fd)) (web_page ctype F))
        else concat (replicate (length (got s fd) - 1) (web_page ctype F)) @
          (if status (conn_list s fd) = 0 then [] else if status (conn_list s fd) = 1 then http_head ctype (length F) else web_page ctype F))"
    using pq(1,3) full unfolding cp by (auto simp: web_part_def dest!: heads_full answer_full split: if_splits)
qed

text \<open>When the file has disappeared after the head was sent, the next writable event sends the head again.\<close>

lemma web_head_again:
  assumes "fd_ok fd" "\<not> open_ok r" "status (conn_list s fd) = 1" "buffers_ok (conn_list s fd)"
    "0 \<le> wlength (conn_list s fd)" "wlength (conn_list s fd) \<le> int BUFFER_LENGTH" "sent_count r = wlength (conn_list s fd)"
  shows "\<exists>s'. web_send_cb ctype r fd s = Some s' \<and> sent s' fd = sent s fd @ pending (conn_list s fd) \<and> status (conn_list s' fd) = 1"
  using assms by (simp add: web_send_cb_def http_response_def put_conn_def sys_send_def pending_def buffers_ok_def)

section \<open>The servers without a status\<close>

definition plain_inv :: "u8 list \<Rightarrow> conn_inv" where
  "plain_inv R ev c g t \<longleftrightarrow> buffers_ok c \<and>
     (if ev = EPOLLIN then t = concat (replicate (length g) R) else g \<noteq> [] \<and> t = concat (replicate (length g - 1) R))"

text \<open>What such a server asks of its \<open>http_response\<close>: it puts the text \<open>R\<close> into the buffer.\<close>

locale plain_site =
  fixes resp :: "'a web_io_scheme \<Rightarrow> conn \<Rightarrow> conn option" and R :: "u8 list" and fair :: "'a web_io_scheme \<Rightarrow> conn \<Rightarrow> bool"
  assumes fills: "buffers_ok c \<Longrightarrow> fair r c \<Longrightarrow> sent_count r = int (length R) \<and>
    (\<exists>b. resp r c = Some (c\<lparr>wbuffer := b, wlength := int (length R)\<rparr>) \<and> length b = BUFFER_LENGTH \<and> take (length R) b = R)"
    and fits: "length R \<le> BUFFER_LENGTH" and prints: "fair r c \<Longrightarrow> printable r"

sublocale plain_site \<subseteq> event_loop "plain_table resp" "plain_inv R" fair
proof (unfold_locales, goal_cases)
  case (1 fd r s)
  then show ?case by (simp add: accept_refuse)
next
  case (2 fd r s)
  then show ?case using accept_admit [of r s "plain_inv R" fd] by (simp add: plain_inv_def)
next
  case (3 fd s r)
  have l: "buffers_ok (conn_list s fd)" "sent s fd = concat (replicate (length (got s fd)) R)"
    using 3(3) by (simp_all add: live_def plain_inv_def)
  have rb: "rbuffer (http_request_00 c) = rbuffer c" for c by (simp add: http_request_00_def)
  show ?case
  proof (cases "received r = None \<or> received r = Some []")
    case True
    from web_recv_close [OF 3(1,5) this, of http_request_00] show ?thesis by auto
  next
    case False
    then obtain bs where bs: "received r = Some bs" "bs \<noteq> []" by auto
    then have "length bs \<le> BUFFER_LENGTH" using 3(5) by (simp add: io_ok_def)
    then show ?thesis using web_recv_ok [OF 3(1,2,5) prints [OF 3(4)] bs, of http_request_00, OF rb] l 3(3)
      by (simp add: same_but_def live_def plain_inv_def buffers_ok_def http_request_00_def)
  qed
next
  case (4 fd s r)
  have l: "buffers_ok (conn_list s fd)" "got s fd \<noteq> []" "sent s fd = concat (replicate (length (got s fd) - 1) R)"
    using 4(3) by (simp_all add: live_def plain_inv_def)
  obtain k where k: "length (got s fd) = Suc k" using l(2) by (cases "got s fd") auto
  obtain b where b: "resp r (conn_list s fd) = Some ((conn_list s fd)\<lparr>wbuffer := b, wlength := int (length R)\<rparr>)" "length b = BUFFER_LENGTH"
    "take (length R) b = R" and n: "sent_count r = int (length R)" using fills [OF l(1) 4(4)] by blast
  have "sent s fd @ R = concat (replicate (length (got s fd)) R)"
    using l(3) k by (simp flip: replicate_append_same)
  then show ?case using b n l(1) 4(1-3) fits
    by (simp add: plain_send_cb_def put_conn_def sys_send_def same_but_def set_event_epoll live_def plain_inv_def buffers_ok_def)
qed

interpretation king: plain_site http_response_00 "html_head (bytes ''82'') @ king_page"
  "\<lambda>r c. printable r \<and> sent_count r = int (length (html_head (bytes ''82'') @ king_page))"
proof (unfold_locales, goal_cases)
  case (1 c r)
  have "length (html_head (bytes ''82'') @ king_page) < length (wbuffer c)"
    using 1(1) by (simp add: html_head_def king_page_def bytes_def crlf_def buffers_ok_def BUFFER_LENGTH_def)
  then show ?case using 1 put_text_ok by (fastforce simp: http_response_00_def Let_def buffers_ok_def)
next
  case 2
  show ?case by (simp add: html_head_def king_page_def bytes_def crlf_def BUFFER_LENGTH_def)
next
  case (3 r c)
  then show ?case by simp
qed

text \<open>The version that reads the file into the buffer sends what fits.\<close>

definition small_page :: "u8 list \<Rightarrow> u8 list" where
  "small_page F = take BUFFER_LENGTH (html_head (digits (length F)) @ F)"

definition file_fair :: "u8 list \<Rightarrow> 'a web_io_scheme \<Rightarrow> conn \<Rightarrow> bool" where
  "file_fair F r c \<longleftrightarrow> length F < 2 ^ 63 \<and> printable r \<and> open_ok r \<and> stat_ok r \<and> page r = F \<and> sent_count r = int (length (small_page F))"

lemma html_head_length: "n < 2 ^ 63 \<Longrightarrow> length (html_head (digits n)) < BUFFER_LENGTH"
  using digits_length [of n 19] by (simp add: html_head_def bytes_def crlf_def BUFFER_LENGTH_def)

interpretation small: plain_site http_response_01 "small_page F" "file_fair F" for F
proof (unfold_locales, goal_cases)
  case (1 c r)
  let ?t = "html_head (digits (length F))"
  have t: "length ?t < length (wbuffer c)" using 1 html_head_length by (simp add: file_fair_def buffers_ok_def)
  have n: "length (wbuffer c) = BUFFER_LENGTH" using 1(1) by (simp add: buffers_ok_def)
  have sp: "small_page F = ?t @ take (BUFFER_LENGTH - length ?t) F" using t n by (simp add: small_page_def)
  let ?body = "take (BUFFER_LENGTH - length ?t) F"
  let ?b = "?t @ ?body @ drop (length ?t + length ?body) (?t @ 0 # drop (length ?t + 1) (wbuffer c))"
  have "http_response_01 r c = Some (c\<lparr>wbuffer := ?b, wlength := int (length (small_page F))\<rparr>)"
    using 1(2) put_text_ok [OF t] by (simp add: http_response_01_def file_fair_def Let_def sp)
  moreover have "length ?b = BUFFER_LENGTH" using t n by simp
  moreover have "take (length (small_page F)) ?b = small_page F" unfolding sp append_assoc [symmetric] by (simp add: min_def)
  moreover have "sent_count r = int (length (small_page F))" using 1(2) by (simp add: file_fair_def)
  ultimately show ?case by (intro conjI exI [of _ ?b])
next
  case 2
  show ?case by (simp add: small_page_def)
next
  case (3 r c)
  then show ?case by (simp add: file_fair_def)
qed

text \<open>The server that reads the file into its buffer answers every message with one response; the response is the head,
  which announces the whole file, and as much of the file as fits into the 1024 bytes of the buffer, in every run in which
  the file can be read and \<open>send\<close> takes everything.\<close>

theorem small_serves:
  assumes start: "web_start rs = Some s0" and run: "(turn (plain_table http_response_01) (file_fair F))\<^sup>*\<^sup>* s0 s"
    and fd: "epoll s fd = Some ev" and client: "recv_callback (conn_list s fd) = Recv_cb"
  shows "sent s fd = concat (replicate (length (got s fd) - (if ev = EPOLLIN then 0 else 1)) (small_page F)) \<and>
    length (small_page F) = min BUFFER_LENGTH (length (html_head (digits (length F))) + length F)"
proof -
  have "loop_inv (plain_inv (small_page F)) s"
    using small.run_inv [OF run] start_inv start by (simp add: web_start_def)
  from loop_invD [OF this fd client] show ?thesis by (cases ev) (simp_all add: live_def plain_inv_def small_page_def)
qed

lemma web_recv_event:
  assumes "fd_ok fd" "epoll s fd = Some EPOLLIN" "recv_callback (conn_list s fd) = Recv_cb" "send_callback (conn_list s fd) = Send_cb"
    "buffers_ok (conn_list s fd)" "io_ok s r" "printable r" "received r = Some bs" "bs \<noteq> []"
  shows "\<exists>s'. handle_event (web_table ctype) r (fd, True, False) s = Some s' \<and> epoll s' fd = Some EPOLLOUT \<and> buffers_ok (conn_list s' fd) \<and>
    status (conn_list s' fd) = 0 \<and> recv_callback (conn_list s' fd) = Recv_cb \<and> send_callback (conn_list s' fd) = Send_cb \<and>
    sent s' fd = sent s fd \<and> got s' fd = got s fd @ [bs]"
proof -
  have len: "length bs \<le> BUFFER_LENGTH" using assms(6,8) by (simp add: io_ok_def)
  have rb: "rbuffer (http_request c) = rbuffer c" for c by (simp add: http_request_def)
  show ?thesis using web_recv_ok [OF assms(1,2,6-9), of http_request, OF rb] assms(1-5) len
    by (simp add: handle_event_def buffers_ok_def http_request_def)
qed

lemma web_send_event:
  assumes "fd_ok fd" "epoll s fd = Some EPOLLOUT" "recv_callback (conn_list s fd) = Recv_cb" "send_callback (conn_list s fd) = Send_cb"
    "buffers_ok (conn_list s fd)" "status (conn_list s fd) \<in> {0, 1, 2}" "web_fair True ctype F r (conn_list s fd)"
    "status (conn_list s fd) = 1 \<Longrightarrow> 0 \<le> wlength (conn_list s fd) \<and> wlength (conn_list s fd) \<le> int BUFFER_LENGTH \<and>
      pending (conn_list s fd) = http_head ctype (length F)"
  shows "\<exists>s'. handle_event (web_table ctype) r (fd, False, True) s = Some s' \<and> got s' fd = got s fd \<and> buffers_ok (conn_list s' fd) \<and>
    recv_callback (conn_list s' fd) = Recv_cb \<and> send_callback (conn_list s' fd) = Send_cb \<and>
    epoll s' fd = Some (if status (conn_list s fd) = 2 then EPOLLIN else EPOLLOUT) \<and>
    status (conn_list s' fd) = (if status (conn_list s fd) = 2 then 0 else status (conn_list s fd) + 1) \<and>
    sent s' fd = sent s fd @ (if status (conn_list s fd) = 0 then http_head ctype (length F) else if status (conn_list s fd) = 1 then F else []) \<and>
    (status (conn_list s' fd) = 1 \<longrightarrow> 0 \<le> wlength (conn_list s' fd) \<and> wlength (conn_list s' fd) \<le> int BUFFER_LENGTH \<and>
      pending (conn_list s' fd) = http_head ctype (length F))"
proof -
  obtain s' out where s': "web_send_cb ctype r fd s = Some s'" "got s' fd = got s fd" "buffers_ok (conn_list s' fd)"
    "recv_callback (conn_list s' fd) = recv_callback (conn_list s fd)" "send_callback (conn_list s' fd) = send_callback (conn_list s fd)"
    "epoll s' fd = Some (if status (conn_list s' fd) = 0 then EPOLLIN else EPOLLOUT)" "sent s' fd = sent s fd @ out"
    "web_moves True ctype F (status (conn_list s fd)) (status (conn_list s' fd)) out"
    "status (conn_list s' fd) = 1 \<longrightarrow> 0 \<le> wlength (conn_list s' fd) \<and> wlength (conn_list s' fd) \<le> int BUFFER_LENGTH \<and>
      pending (conn_list s' fd) = http_head ctype (length F)"
    using web_send_status [OF assms(1,2,5-8)] by blast
  have "handle_event (web_table ctype) r (fd, False, True) s = Some s'" using assms(1,4) s'(1) by (simp add: handle_event_def)
  then show ?thesis using s'(2-9) assms(3,4) by (intro exI [of _ s'] conjI) (auto simp: web_moves_def)
qed

text \<open>A message on a connection that waits for input is answered: whatever the message, three writable events after it
  the head and the file have been sent, once, and the connection waits for input again.\<close>

theorem web_answers:
  assumes "fd_ok fd" "epoll s fd = Some EPOLLIN" "recv_callback (conn_list s fd) = Recv_cb" "send_callback (conn_list s fd) = Send_cb"
    "buffers_ok (conn_list s fd)" and r: "io_ok s r" "printable r" "received r = Some bs" "bs \<noteq> []"
    and fair: "\<And>c. web_fair True ctype F r1 c" "\<And>c. web_fair True ctype F r2 c" "\<And>c. web_fair True ctype F r3 c"
  shows "\<exists>s1 s2 s3 s4. handle_event (web_table ctype) r (fd, True, False) s = Some s1 \<and>
    handle_event (web_table ctype) r1 (fd, False, True) s1 = Some s2 \<and> handle_event (web_table ctype) r2 (fd, False, True) s2 = Some s3 \<and>
    handle_event (web_table ctype) r3 (fd, False, True) s3 = Some s4 \<and>
    sent s4 fd = sent s fd @ web_page ctype F \<and> got s4 fd = got s fd @ [bs] \<and> epoll s4 fd = Some EPOLLIN"
proof -
  obtain s1 where s1: "handle_event (web_table ctype) r (fd, True, False) s = Some s1" "epoll s1 fd = Some EPOLLOUT" "buffers_ok (conn_list s1 fd)"
    "status (conn_list s1 fd) = 0" "recv_callback (conn_list s1 fd) = Recv_cb" "send_callback (conn_list s1 fd) = Send_cb"
    "sent s1 fd = sent s fd" "got s1 fd = got s fd @ [bs]"
    using web_recv_event [OF assms(1-5) r] by blast
  obtain s2 where s2: "handle_event (web_table ctype) r1 (fd, False, True) s1 = Some s2" "epoll s2 fd = Some EPOLLOUT" "buffers_ok (conn_list s2 fd)"
    "status (conn_list s2 fd) = 1" "recv_callback (conn_list s2 fd) = Recv_cb" "send_callback (conn_list s2 fd) = Send_cb"
    "sent s2 fd = sent s1 fd @ http_head ctype (length F)" "got s2 fd = got s1 fd"
    "0 \<le> wlength (conn_list s2 fd) \<and> wlength (conn_list s2 fd) \<le> int BUFFER_LENGTH \<and> pending (conn_list s2 fd) = http_head ctype (length F)"
    using web_send_event [OF assms(1) s1(2,5,6,3) _ fair(1)] s1(4) by fastforce
  obtain s3 where s3: "handle_event (web_table ctype) r2 (fd, False, True) s2 = Some s3" "epoll s3 fd = Some EPOLLOUT" "buffers_ok (conn_list s3 fd)"
    "status (conn_list s3 fd) = 2" "recv_callback (conn_list s3 fd) = Recv_cb" "send_callback (conn_list s3 fd) = Send_cb"
    "sent s3 fd = sent s2 fd @ F" "got s3 fd = got s2 fd"
    using web_send_event [OF assms(1) s2(2,5,6,3) _ fair(2)] s2(4,9) by fastforce
  obtain s4 where s4: "handle_event (web_table ctype) r3 (fd, False, True) s3 = Some s4" "epoll s4 fd = Some EPOLLIN"
    "sent s4 fd = sent s3 fd" "got s4 fd = got s3 fd"
    using web_send_event [OF assms(1) s3(2,5,6,3) _ fair(3)] s3(4) by fastforce
  show ?thesis using s1 s2 s3 s4
    by (intro exI [of _ s1] exI [of _ s2] exI [of _ s3] exI [of _ s4] conjI) (simp_all add: web_page_def)
qed

definition demo_io :: "string \<Rightarrow> u8 list \<Rightarrow> int \<Rightarrow> u8 list option \<Rightarrow> web_io" where
  "demo_io ctype F a bs = \<lparr>accepted = a, received = bs, sent_count = int (length (http_head ctype (length F))), open_ok = True, stat_ok = True,
     page = F, sendfile_count = int (length F)\<rparr>"

lemma demo_fair: "printable (demo_io ''text/html'' [72, 105] a bs) \<Longrightarrow> web_fair full ''text/html'' [72, 105] (demo_io ''text/html'' [72, 105] a bs) c"
  by (simp add: web_fair_def demo_io_def)

lemma demo_printable: "printable (demo_io ctype F a None)" "printable (demo_io ctype F a (Some [71]))"
  by (simp_all add: printable_def demo_io_def BUFFER_LENGTH_def)

text \<open>One server with one client, on descriptors 3 and 5.\<close>

definition demo_start :: reactor where
  "demo_start = zero_reactor\<lparr>conn_list := (\<lambda>_. zero_conn)(3 := zero_conn\<lparr>c_fd := 3, recv_callback := Accept_cb\<rparr>), epoll := [3 \<mapsto> EPOLLIN]\<rparr>"

definition demo_client :: reactor where
  "demo_client = demo_start\<lparr>conn_list := (conn_list demo_start)(5 := blank_conn 5 zero_conn), epoll := (epoll demo_start)(5 \<mapsto> EPOLLIN)\<rparr>"

lemma demo_start_ok: "web_start [(3, 0, 0)] = Some demo_start"
  by (simp add: web_start_def MAX_PORTS_def init_server_def put_conn_def fd_ok_def CONNECTION_SIZE_def set_event_def zero_reactor_def demo_start_def)

lemma demo_facts: "epoll demo_client 5 = Some EPOLLIN" "conn_list demo_client 5 = blank_conn 5 zero_conn" "sent demo_client 5 = []" "got demo_client 5 = []"
  by (simp_all add: demo_client_def demo_start_def zero_reactor_def)

lemma demo_accept: "accepted r = 5 \<Longrightarrow> accept_cb r 3 demo_start = Some demo_client"
  by (simp add: accept_cb_def event_register_def put_conn_def fd_ok_def CONNECTION_SIZE_def set_event_def demo_client_def demo_start_def zero_reactor_def)
    (simp add: fun_upd_def cong: if_cong)

theorem web_answers_witness:
  "\<exists>s1 s2 s3 s4. handle_event html_table (demo_io ''text/html'' [72, 105] (-1) (Some [71])) (5, True, False) demo_client = Some s1 \<and>
    handle_event html_table (demo_io ''text/html'' [72, 105] (-1) None) (5, False, True) s1 = Some s2 \<and>
    handle_event html_table (demo_io ''text/html'' [72, 105] (-1) None) (5, False, True) s2 = Some s3 \<and>
    handle_event html_table (demo_io ''text/html'' [72, 105] (-1) None) (5, False, True) s3 = Some s4 \<and>
    sent s4 5 = web_page ''text/html'' [72, 105] \<and> epoll s4 5 = Some EPOLLIN"
proof -
  let ?r = "demo_io ''text/html'' [72, 105] (-1) (Some [71])"
  have "fd_ok 5" "epoll demo_client 5 = Some EPOLLIN" "recv_callback (conn_list demo_client 5) = Recv_cb" "send_callback (conn_list demo_client 5) = Send_cb"
    "buffers_ok (conn_list demo_client 5)" "io_ok demo_client ?r" "printable ?r" "received ?r = Some [71]" "[71] \<noteq> ([] :: u8 list)"
    by (simp_all add: demo_facts fd_ok_def CONNECTION_SIZE_def) (simp_all add: blank_conn_def io_ok_def demo_io_def printable_def CONNECTION_SIZE_def BUFFER_LENGTH_def)
  from web_answers [OF this demo_fair [OF demo_printable(1)] demo_fair [OF demo_printable(1)] demo_fair [OF demo_printable(1)]] show ?thesis unfolding demo_facts(3,4) append_Nil by blast
qed

lemma demo_accept_turn:
  assumes "tab Accept_cb = accept_cb" "fair (demo_io ctype F 5 None) (conn_list demo_start 3)"
  shows "turn tab fair demo_start demo_client"
proof (rule turnI [of _ 3 EPOLLIN "demo_io ctype F 5 None"])
  show "epoll demo_start 3 = Some EPOLLIN" "io_ok demo_start (demo_io ctype F 5 None)"
    by (simp_all add: demo_start_def io_ok_def demo_io_def CONNECTION_SIZE_def)
  show "fair (demo_io ctype F 5 None) (conn_list demo_start 3)" by fact
  have "recv_callback (conn_list demo_start 3) = Accept_cb" by (simp add: demo_start_def)
  then show "handle_event tab (demo_io ctype F 5 None) (3, EPOLLIN = EPOLLIN, EPOLLIN = EPOLLOUT) demo_start = Some demo_client"
    using assms(1) demo_accept [of "demo_io ctype F 5 None"] by (simp add: handle_event_def fd_ok_def CONNECTION_SIZE_def) (simp add: demo_io_def)
qed

lemma demo_recv_ok: "io_ok demo_client (demo_io ctype F (-1) (Some [71]))"
  by (simp add: io_ok_def demo_io_def CONNECTION_SIZE_def BUFFER_LENGTH_def)

lemma demo_client_ok: "fd_ok 5" "recv_callback (conn_list demo_client 5) = Recv_cb" "send_callback (conn_list demo_client 5) = Send_cb"
    "buffers_ok (conn_list demo_client 5)"
  by (simp_all add: demo_facts fd_ok_def CONNECTION_SIZE_def) (simp_all add: blank_conn_def)

theorem web_serves_witness:
  "\<exists>s :: reactor. epoll s 5 = Some EPOLLOUT \<and> status (conn_list s 5) = 1 \<and> got s 5 = [[71]] \<and> sent s 5 = http_head ''text/html'' 2"
proof -
  let ?F = "[72, 105] :: u8 list" and ?t = "''text/html''"
  let ?r = "demo_io ?t ?F (-1) (Some [71])" and ?w = "demo_io ?t ?F (-1) None"
  have rr: "received ?r = Some [71]" by (simp add: demo_io_def)
  obtain s1 where s1: "handle_event (web_table ?t) ?r (5, True, False) demo_client = Some s1" "epoll s1 5 = Some EPOLLOUT" "buffers_ok (conn_list s1 5)"
    "status (conn_list s1 5) = 0" "recv_callback (conn_list s1 5) = Recv_cb" "send_callback (conn_list s1 5) = Send_cb"
    "sent s1 5 = []" "got s1 5 = [[71]]"
    using web_recv_event [OF demo_client_ok(1) demo_facts(1) demo_client_ok(2-4) demo_recv_ok demo_printable(2) rr, of ?t] by (auto simp: demo_facts)
  obtain s2 where s2: "handle_event (web_table ?t) ?w (5, False, True) s1 = Some s2" "epoll s2 5 = Some EPOLLOUT" "status (conn_list s2 5) = 1"
    "recv_callback (conn_list s2 5) = Recv_cb" "got s2 5 = [[71]]"
    using web_send_event [OF demo_client_ok(1) s1(2,5,6,3) _ demo_fair [OF demo_printable(1)]] s1(4,8) by fastforce
  have "turn (web_table ?t :: unit web_io_ext table) (web_fair True ?t ?F) demo_start demo_client" by (rule demo_accept_turn [of _ _ ?t ?F]) (simp_all add: demo_fair demo_printable)
  moreover have "turn (web_table ?t :: unit web_io_ext table) (web_fair True ?t ?F) demo_client s1"
    by (rule turnI [of _ 5 EPOLLIN ?r]) (use s1(1) demo_recv_ok in \<open>simp_all add: demo_facts demo_fair demo_printable\<close>)
  moreover have "turn (web_table ?t :: unit web_io_ext table) (web_fair True ?t ?F) s1 s2"
    by (rule turnI [of _ 5 EPOLLOUT ?w]) (use s1(2) s2(1) in \<open>simp_all add: web_fair_def printable_def io_ok_def demo_io_def CONNECTION_SIZE_def\<close>)
  ultimately have "(turn (web_table ?t :: unit web_io_ext table) (web_fair True ?t ?F))\<^sup>*\<^sup>* demo_start s2" by simp
  from web_serves [OF demo_start_ok this s2(2), of ?w] s2 have "sent s2 5 = http_head ?t 2" by (simp add: numeral_2_eq_2)
  then show ?thesis using s2 by blast
qed

lemma small_fair: "printable (demo_io ''x'' [72, 105] a bs) \<Longrightarrow> file_fair [72, 105] (demo_io ''x'' [72, 105] a bs\<lparr>sent_count := int (length (small_page [72, 105]))\<rparr>) c"
  by (simp add: file_fair_def demo_io_def printable_def BUFFER_LENGTH_def)

theorem small_serves_witness:
  "\<exists>s :: reactor. epoll s 5 = Some EPOLLIN \<and> got s 5 = [[71]] \<and> sent s 5 = small_page [72, 105]"
proof -
  let ?F = "[72, 105] :: u8 list" let ?n = "int (length (small_page ?F))"
  let ?r = "(demo_io ''x'' ?F (-1) (Some [71]))\<lparr>sent_count := ?n\<rparr>" and ?w = "(demo_io ''x'' ?F (-1) None)\<lparr>sent_count := ?n\<rparr>"
    and ?a = "(demo_io ''x'' ?F 5 None)\<lparr>sent_count := ?n\<rparr>"
  have t0: "turn (plain_table http_response_01 :: unit web_io_ext table) (file_fair ?F) demo_start demo_client"
  proof (rule turnI [of _ 3 EPOLLIN ?a])
    show "handle_event (plain_table http_response_01) ?a (3, EPOLLIN = EPOLLIN, EPOLLIN = EPOLLOUT) demo_start = Some demo_client"
      using demo_accept [of ?a] by (simp add: demo_io_def handle_event_def fd_ok_def CONNECTION_SIZE_def) (simp add: demo_start_def)
  qed (simp_all add: demo_start_def io_ok_def demo_io_def CONNECTION_SIZE_def file_fair_def printable_def)
  have rok: "io_ok demo_client ?r" by (simp add: io_ok_def demo_io_def CONNECTION_SIZE_def BUFFER_LENGTH_def)
  obtain s1 where s1: "handle_event (plain_table http_response_01) ?r (5, True, False) demo_client = Some s1" "epoll s1 5 = Some EPOLLOUT"
      "recv_callback (conn_list s1 5) = Recv_cb" "send_callback (conn_list s1 5) = Send_cb" "buffers_ok (conn_list s1 5)" "got s1 5 = [[71]]"
    using web_recv_ok [OF demo_client_ok(1) demo_facts(1) rok _ _ _, of "[71]" http_request_00] demo_client_ok
    by (simp add: demo_io_def printable_def handle_event_def buffers_ok_def http_request_00_def demo_facts BUFFER_LENGTH_def)
  have t1: "turn (plain_table http_response_01 :: unit web_io_ext table) (file_fair ?F) demo_client s1"
    by (rule turnI [of _ 5 EPOLLIN ?r]) (use s1(1) rok in \<open>simp_all add: demo_facts file_fair_def demo_io_def printable_def BUFFER_LENGTH_def\<close>)
  have "file_fair ?F ?w (conn_list s1 5)" by (simp add: file_fair_def demo_io_def printable_def BUFFER_LENGTH_def)
  from small.fills [OF s1(5) this] obtain b where b: "http_response_01 ?w (conn_list s1 5) = Some ((conn_list s1 5)\<lparr>wbuffer := b, wlength := ?n\<rparr>)"
    "length b = BUFFER_LENGTH" by blast
  have fits: "?n \<le> int BUFFER_LENGTH" by (simp add: small_page_def)
  have ne: "small_page ?F \<noteq> []" by (simp add: small_page_def html_head_def bytes_def BUFFER_LENGTH_def)
  obtain s2 where s2: "handle_event (plain_table http_response_01) ?w (5, False, True) s1 = Some s2" "epoll s2 5 = Some EPOLLIN"
      "recv_callback (conn_list s2 5) = Recv_cb" "got s2 5 = [[71]]"
    using s1 b demo_client_ok(1) fits ne
    by (simp add: handle_event_def plain_send_cb_def put_conn_def sys_send_def set_event_epoll)
  have t2: "turn (plain_table http_response_01 :: unit web_io_ext table) (file_fair ?F) s1 s2"
    by (rule turnI [of _ 5 EPOLLOUT ?w]) (use s1(2) s2(1) in \<open>simp_all add: io_ok_def demo_io_def CONNECTION_SIZE_def file_fair_def printable_def\<close>)
  have "(turn (plain_table http_response_01 :: unit web_io_ext table) (file_fair ?F))\<^sup>*\<^sup>* demo_start s2" using t0 t1 t2 by simp
  from small_serves [OF demo_start_ok this s2(2,3)] have "sent s2 5 = small_page ?F" by (simp add: s2(4))
  then show ?thesis using s2(2,4) by blast
qed

end
