(* ===== verification/Websocket.thy ===== *)
theory Websocket
  imports Webserver
begin

text \<open>
  The WebSocket echo server: \<open>websocket/server.c\<close> on the \<open>reactor.c\<close> beside it.  SHA1 and the memory BIO of OpenSSL
  are parameters: \<open>sha\<close> gives the digest of its argument, \<open>bio\<close> the content of the BIO after the flush.  The machine is
  little-endian and the bit fields of a byte are allocated from its low end.
\<close>

section \<open>Handshake\<close>

definition GUID :: "u8 list" where "GUID = bytes ''258EAFA5-E914-47DA-95CA-C5AB0DC85B11''"

definition WEBSOCK_KEY_LENGTH :: nat where "WEBSOCK_KEY_LENGTH = 19"

definition key_name :: "u8 list" where "key_name = bytes ''Sec-WebSocket-Key''"

definition base64_encode :: "(u8 list \<Rightarrow> u8 list) \<Rightarrow> u8 list \<Rightarrow> u8 list \<Rightarrow> (int \<times> u8 list) option" where
  "base64_encode bio in_str out_str = do {
     let mem = bio in_str;
     out_str \<leftarrow> put_bytes out_str 0 mem;
     out_str \<leftarrow> (if mem = [] then None else put_bytes out_str (length mem - 1) [0]);
     Some (int (length mem), out_str) }"

text \<open>\<open>n\<close> is \<open>strlen\<close> of the buffer; \<open>pos\<close> counts the bytes copied to \<open>linebuf\<close>.\<close>

function readline_loop :: "u8 list \<Rightarrow> nat \<Rightarrow> nat \<Rightarrow> nat \<Rightarrow> u8 list \<Rightarrow> (int \<times> u8 list) option" where
  "readline_loop buf n level pos linebuf =
     (if level < n then
        (if get_byte buf level = Some 13 \<and> get_byte buf (level + 1) = Some 10 then Some (int level + 2, linebuf)
         else do {
           linebuf \<leftarrow> put_bytes linebuf pos [buf ! level];
           readline_loop buf n (level + 1) (pos + 1) linebuf })
      else Some (-1, linebuf))"
  by pat_completeness auto
termination
  by (relation "measure (\<lambda>(_, n, level, _). n - level)") auto

declare readline_loop.simps [simp del]

definition readline :: "u8 list \<Rightarrow> nat \<Rightarrow> u8 list \<Rightarrow> (int \<times> u8 list) option" where
  "readline allbuf level linebuf = do {
     str \<leftarrow> bstr allbuf;
     readline_loop allbuf (length str) level 0 linebuf }"

fun strstr :: "u8 list \<Rightarrow> u8 list \<Rightarrow> bool" where
  "strstr needle hay = (take (length needle) hay = needle \<or> (case hay of [] \<Rightarrow> False | _ # t \<Rightarrow> strstr needle t))"

declare strstr.simps [simp del]

text \<open>The branch of the line with the key.\<close>

definition accept_response :: "u8 list \<Rightarrow> u8 list" where
  "accept_response sec_accept = bytes ''HTTP/1.1 101 Switching Protocols'' @ crlf @ bytes ''Upgrade: websocket'' @ crlf @
     bytes ''Connection: Upgrade'' @ crlf @ bytes ''Sec-WebSocket-Accept: '' @ sec_accept @ crlf @ crlf"

definition accept_key :: "(u8 list \<Rightarrow> u8 list) \<Rightarrow> (u8 list \<Rightarrow> u8 list) \<Rightarrow> u8 list \<Rightarrow> conn \<Rightarrow> conn option" where
  "accept_key sha bio linebuf c = do {
     line \<leftarrow> bstr linebuf;
     linebuf \<leftarrow> put_bytes linebuf (length line) (GUID @ [0]);
     key \<leftarrow> bstr (drop WEBSOCK_KEY_LENGTH linebuf);
     sec_data \<leftarrow> put_bytes (replicate 128 0) 0 (sha key);
     digest \<leftarrow> get_bytes sec_data 0 20;
     (_, out) \<leftarrow> base64_encode bio digest (replicate 32 0);
     sec_accept \<leftarrow> bstr out;
     let t = accept_response sec_accept;
     b \<leftarrow> put_text (replicate BUFFER_LENGTH 0) t;
     Some (c\<lparr>wbuffer := b, wlength := int (length t)\<rparr>) }"

text \<open>The loop over the lines.  After \<open>readline\<close> has returned \<open>-1\<close> the condition of the loop reads the byte before \<open>rbuffer\<close>, before it
  tests for \<open>-1\<close>: \<open>None\<close>.  A line has at least its two end bytes, so \<open>BUFFER_LENGTH\<close> rounds are enough (\<open>handshake_defined\<close>).\<close>

fun handshake_loop :: "nat \<Rightarrow> (u8 list \<Rightarrow> u8 list) \<Rightarrow> (u8 list \<Rightarrow> u8 list) \<Rightarrow> nat \<Rightarrow> conn \<Rightarrow> conn option" where
  "handshake_loop 0 sha bio idx c = None"
| "handshake_loop (Suc k) sha bio idx c = do {
     (i, linebuf) \<leftarrow> readline (rbuffer c) idx (replicate 1024 0);
     line \<leftarrow> bstr linebuf;
     if strstr key_name line then accept_key sha bio linebuf c
     else if i = -1 then None
     else do {
       b \<leftarrow> get_byte (rbuffer c) (nat i);
       more \<leftarrow> (if b \<noteq> 13 then Some True else do { d \<leftarrow> get_byte (rbuffer c) (nat i + 1); Some (d \<noteq> 10) });
       if more then handshake_loop k sha bio (nat i) c else Some c } }"

definition handshake :: "(u8 list \<Rightarrow> u8 list) \<Rightarrow> (u8 list \<Rightarrow> u8 list) \<Rightarrow> conn \<Rightarrow> conn option" where
  "handshake sha bio c = handshake_loop BUFFER_LENGTH sha bio 0 c"

section \<open>Frames\<close>

text \<open>The two bytes of \<open>nty_ophdr\<close>.\<close>

record nty_ophdr =
  opcode :: u8
  fin :: u8
  payload_length :: u8
  mask_bit :: u8

definition ophdr_of :: "u8 \<Rightarrow> u8 \<Rightarrow> nty_ophdr" where
  "ophdr_of a b = \<lparr>opcode = a AND 0x0F, fin = drop_bit 7 a, payload_length = b AND 0x7F, mask_bit = drop_bit 7 b\<rparr>"

definition ophdr_bytes :: "nty_ophdr \<Rightarrow> u8 list" where
  "ophdr_bytes h = [(opcode h AND 0x0F) OR push_bit 7 (fin h), (payload_length h AND 0x7F) OR push_bit 7 (mask_bit h)]"

fun le_bytes :: "nat \<Rightarrow> nat \<Rightarrow> u8 list" where
  "le_bytes 0 n = []"
| "le_bytes (Suc k) n = of_nat (n mod 256) # le_bytes k (n div 256)"

fun le_value :: "u8 list \<Rightarrow> nat" where
  "le_value [] = 0"
| "le_value (b # bs) = unat b + 256 * le_value bs"

fun demask_loop :: "nat \<Rightarrow> nat \<Rightarrow> nat \<Rightarrow> u8 list \<Rightarrow> u8 list \<Rightarrow> u8 list option" where
  "demask_loop 0 i start mk buf = Some buf"
| "demask_loop (Suc k) i start mk buf =
     (if start + i < length buf then
        demask_loop k (i + 1) start mk (buf[start + i := buf ! (start + i) XOR mk ! (i mod 4)])
      else None)"

definition demask :: "u8 list \<Rightarrow> nat \<Rightarrow> int \<Rightarrow> u8 list \<Rightarrow> u8 list option" where
  "demask buf start len mk = demask_loop (nat len) 0 start mk buf"

text \<open>The results: the buffer with the payload decoded, the mask, the size, the start of the payload.  The first two
  branches test the one-bit field \<open>mask\<close>, so neither is ever taken (\<open>decode_short\<close>).\<close>

definition decode_packet :: "u8 list \<Rightarrow> (u8 list \<times> u8 list \<times> int \<times> nat) option" where
  "decode_packet stream = do {
     a \<leftarrow> get_byte stream 0;
     b \<leftarrow> get_byte stream 1;
     let hdr = ophdr_of a b;
     (sz, mk, start) \<leftarrow>
       (if mask_bit hdr AND 0x7F = 126 then do {
          n \<leftarrow> get_bytes stream 2 2;
          m \<leftarrow> get_bytes stream 4 4;
          Some (int (le_value n), m, 8) }
        else if mask_bit hdr AND 0x7F = 127 then do {
          n \<leftarrow> get_bytes stream 2 8;
          m \<leftarrow> get_bytes stream 10 4;
          Some (wrap32 (int (le_value n)), m, 14) }
        else do {
          m \<leftarrow> get_bytes stream 2 4;
          Some (int (unat (payload_length hdr)), m, 6) });
     stream \<leftarrow> demask stream start sz mk;
     Some (stream, mk, sz, start) }"

definition encode_packet :: "u8 list \<Rightarrow> u8 list \<Rightarrow> u8 list \<Rightarrow> nat \<Rightarrow> (u8 list \<times> int) option" where
  "encode_packet buffer mk stream len = do {
     let head = \<lparr>opcode = 1, fin = 1, payload_length = 0, mask_bit = 0\<rparr>;
     (buffer, header_len) \<leftarrow>
       (if len < 126 then do {
          b \<leftarrow> put_bytes buffer 0 (ophdr_bytes (head\<lparr>payload_length := of_nat len\<rparr>));
          Some (b, 2) }
        else if len < 0xffff then do {
          b \<leftarrow> put_bytes buffer 0 (ophdr_bytes head);
          b \<leftarrow> put_bytes b 2 (le_bytes 2 len @ mk @ replicate 8 0);
          Some (b, 16) }
        else do {
          b \<leftarrow> put_bytes buffer 0 (ophdr_bytes head);
          b \<leftarrow> put_bytes b 2 (le_bytes 8 len @ mk @ replicate 8 0);
          Some (b, 22) });
     data \<leftarrow> get_bytes stream 0 len;
     b \<leftarrow> put_bytes buffer header_len data;
     Some (b, int (header_len + len)) }"

text \<open>The decoded data is printed as a string, which leaves the buffer when no byte from its start on is zero.\<close>

definition ws_request :: "(u8 list \<Rightarrow> u8 list) \<Rightarrow> (u8 list \<Rightarrow> u8 list) \<Rightarrow> conn \<Rightarrow> conn option" where
  "ws_request sha bio c =
     (if status c = 0 then do {
        c \<leftarrow> handshake sha bio c;
        Some (c\<lparr>status := 1\<rparr>) }
      else if status c = 1 then do {
        (stream, mk, ret, start) \<leftarrow> decode_packet (rbuffer c);
        _ \<leftarrow> bstr (drop start stream);
        (b, n) \<leftarrow> encode_packet (wbuffer c) mk (drop start stream) (nat ret);
        Some (c\<lparr>rbuffer := stream, wbuffer := b, wlength := n\<rparr>) }
      else Some c)"

definition ws_response :: "conn \<Rightarrow> conn" where
  "ws_response c = c"

section \<open>The reactor\<close>

definition ws_event_register :: "int \<Rightarrow> event \<Rightarrow> reactor \<Rightarrow> reactor option" where
  "ws_event_register fd ev s =
     (if fd < 0 then Some s
      else do { s \<leftarrow> put_conn fd ((blank_conn fd (conn_list s fd))\<lparr>status := 0\<rparr>) s; Some (set_event fd ev 1 s) })"

definition ws_accept_cb :: "'a io_scheme \<Rightarrow> int \<Rightarrow> reactor \<Rightarrow> reactor option" where
  "ws_accept_cb r fd s =
     (let a = accepted r in
      if a < 0 then Some s
      else ws_event_register a EPOLLIN (s\<lparr>got := (got s)(a := []), sent := (sent s)(a := [])\<rparr>))"

definition ws_recv_cb :: "(u8 list \<Rightarrow> u8 list) \<Rightarrow> (u8 list \<Rightarrow> u8 list) \<Rightarrow> 'a io_scheme \<Rightarrow> int \<Rightarrow> reactor \<Rightarrow> reactor option" where
  "ws_recv_cb sha bio r fd s =
     (let c = (conn_list s fd)\<lparr>rbuffer := replicate BUFFER_LENGTH 0\<rparr> in
      case sys_recv r fd c s of (count, c, s) \<Rightarrow>
        if count = 0 \<or> count < 0 then do { s \<leftarrow> put_conn fd c s; Some (close_conn fd s) }
        else do {
          c \<leftarrow> ws_request sha bio (c\<lparr>rlength := count\<rparr>);
          s \<leftarrow> put_conn fd c s;
          Some (set_event fd EPOLLOUT 0 s) })"

definition ws_send_cb :: "'a io_scheme \<Rightarrow> int \<Rightarrow> reactor \<Rightarrow> reactor option" where
  "ws_send_cb r fd s = do {
     let c = ws_response (conn_list s fd);
     s \<leftarrow> (if wlength c \<noteq> 0 then sys_send r fd (wbuffer c) (wlength c) s else Some s);
     Some (set_event fd EPOLLIN 0 s) }"

text \<open>The results of \<open>bind\<close> and \<open>listen\<close> are not looked at.\<close>

definition ws_init_server :: "int \<times> int \<times> int \<Rightarrow> int" where
  "ws_init_server r = fst r"

fun ws_listen_loop :: "(int \<times> int \<times> int) list \<Rightarrow> reactor \<Rightarrow> reactor option" where
  "ws_listen_loop [] s = Some s"
| "ws_listen_loop (r # rs) s = do {
     let sockfd = ws_init_server r;
     s \<leftarrow> put_conn sockfd ((conn_list s sockfd)\<lparr>c_fd := sockfd, recv_callback := Accept_cb\<rparr>) s;
     ws_listen_loop rs (set_event sockfd EPOLLIN 1 s) }"

definition ws_start :: "(int \<times> int \<times> int) list \<Rightarrow> reactor option" where
  "ws_start rs = ws_listen_loop (take MAX_PORTS rs) zero_reactor"

fun ws_table :: "(u8 list \<Rightarrow> u8 list) \<Rightarrow> (u8 list \<Rightarrow> u8 list) \<Rightarrow> 'a table" where
  "ws_table sha bio Accept_cb = ws_accept_cb"
| "ws_table sha bio Recv_cb = ws_recv_cb sha bio"
| "ws_table sha bio Send_cb = ws_send_cb"
| "ws_table sha bio No_callback = (\<lambda>_ _ _. None)"

section \<open>A frame is echoed without its mask\<close>

lemma demask_loop_nth:
  "start + i + k \<le> length buf \<Longrightarrow> \<exists>b. demask_loop k i start mk buf = Some b \<and> length b = length buf \<and>
     (\<forall>j < length buf. b ! j = (if start + i \<le> j \<and> j < start + i + k then buf ! j XOR mk ! ((j - start) mod 4) else buf ! j))"
proof (induction k arbitrary: i buf)
  case (Suc k)
  let ?b = "buf[start + i := buf ! (start + i) XOR mk ! (i mod 4)]"
  have "start + (i + 1) + k \<le> length ?b" using Suc.prems by simp
  from Suc.IH [OF this] obtain b where b: "demask_loop k (i + 1) start mk ?b = Some b" "length b = length buf"
    "\<forall>j < length buf. b ! j = (if start + (i + 1) \<le> j \<and> j < start + (i + 1) + k then ?b ! j XOR mk ! ((j - start) mod 4) else ?b ! j)"
    by auto
  show ?case
  proof (intro exI conjI allI impI)
    show "demask_loop (Suc k) i start mk buf = Some b" using b(1) Suc.prems by simp
    show "length b = length buf" by fact
    fix j
    assume j: "j < length buf"
    show "b ! j = (if start + i \<le> j \<and> j < start + i + Suc k then buf ! j XOR mk ! ((j - start) mod 4) else buf ! j)"
      using b(3) [rule_format, OF j] j by (cases "j = start + i") (auto simp: nth_list_update)
  qed
qed auto

definition mask_bytes :: "u8 list \<Rightarrow> u8 list \<Rightarrow> u8 list" where
  "mask_bytes mk p = map (\<lambda>j. p ! j XOR mk ! (j mod 4)) [0 ..< length p]"

lemma demask_frame:
  assumes "length pre = start"
  shows "demask (pre @ mask_bytes mk p @ rest) start (int (length p)) mk = Some (pre @ p @ rest)"
proof -
  have "length (mask_bytes mk p) = length p" by (simp add: mask_bytes_def)
  then have l: "start + 0 + length p \<le> length (pre @ mask_bytes mk p @ rest)" using assms by simp
  obtain b where b: "demask_loop (length p) 0 start mk (pre @ mask_bytes mk p @ rest) = Some b" "length b = length (pre @ mask_bytes mk p @ rest)"
    "\<forall>j < length (pre @ mask_bytes mk p @ rest). b ! j = (if start + 0 \<le> j \<and> j < start + 0 + length p
       then (pre @ mask_bytes mk p @ rest) ! j XOR mk ! ((j - start) mod 4) else (pre @ mask_bytes mk p @ rest) ! j)"
    using demask_loop_nth [OF l, of mk] by blast
  have "b = pre @ p @ rest"
  proof (rule nth_equalityI)
    show "length b = length (pre @ p @ rest)" using b(2) by (simp add: mask_bytes_def)
    fix j
    assume "j < length b"
    then show "b ! j = (pre @ p @ rest) ! j"
      using b(2,3) assms by (auto simp: nth_append mask_bytes_def xor.assoc)
  qed
  then show ?thesis using b(1) by (simp add: demask_def)
qed

lemma drop_bit_7: "drop_bit 7 (b :: u8) = 0 \<or> drop_bit 7 b = 1"
proof -
  have "unat (drop_bit 7 b) = drop_bit 7 (unat b)" by (rule unat_drop_bit_eq)
  also have "\<dots> = unat b div 128" by (simp add: drop_bit_eq_div)
  finally have "unat (drop_bit 7 b) = unat b div 128" .
  moreover have "unat b < 256" using unsigned_less [of b] by simp
  ultimately have "unat (drop_bit 7 b) < 2" by simp
  then have "unat (drop_bit 7 b) = 0 \<or> unat (drop_bit 7 b) = 1" by linarith
  then show ?thesis by (metis unat_0 unat_1 word_unat_eq_iff)
qed

text \<open>The extended lengths are never read: the code tests a field of one bit.\<close>

lemma decode_short:
  assumes "6 \<le> length stream"
  shows "decode_packet stream = (let sz = int (unat (stream ! 1 AND 0x7F)) in
     map_option (\<lambda>b. (b, take 4 (drop 2 stream), sz, 6)) (demask stream 6 sz (take 4 (drop 2 stream))))"
proof -
  have n: "mask_bit (ophdr_of a b) AND 0x7F \<noteq> 126" "mask_bit (ophdr_of a b) AND 0x7F \<noteq> 127" for a b
    using drop_bit_7 [of b] by (auto simp: ophdr_of_def)
  have g: "get_byte stream 0 = Some (stream ! 0)" using assms by (intro get_byte_nth) linarith
  show ?thesis using assms n g
    by (simp add: decode_packet_def get_bytes_def Let_def ophdr_of_def map_option_case bind_eq_None_conv split: option.splits)
qed

lemma and_7F: "n < 128 \<Longrightarrow> (of_nat n :: u8) AND 0x7F = of_nat n"
proof -
  assume n: "n < 128"
  have m: "(0x7F :: u8) = mask 7" by (simp add: mask_eq_exp_minus_1)
  have "of_nat n AND mask 7 = take_bit 7 (of_nat n :: u8)" by (simp add: take_bit_eq_mask)
  also have "\<dots> = of_nat n" using n by (simp add: take_bit_eq_mod word_unat_eq_iff unat_mod unat_of_nat)
  finally show ?thesis unfolding m .
qed

lemma payload_bits: "n < 128 \<Longrightarrow> (0x80 OR (of_nat n :: u8)) AND 0x7F = of_nat n"
  using and_7F [of n] by (simp add: bit.conj_disj_distrib2)

text \<open>A frame as a client sends it: final, masked, with a short payload.\<close>

definition client_frame :: "u8 \<Rightarrow> u8 list \<Rightarrow> u8 list \<Rightarrow> u8 list" where
  "client_frame op mk p = [0x80 OR op, 0x80 OR of_nat (length p)] @ mk @ mask_bytes mk p"

text \<open>A frame as a client receives it: final, text, not masked.\<close>

definition text_frame :: "u8 list \<Rightarrow> u8 list" where
  "text_frame p = [0x81, of_nat (length p)] @ p"

lemma encode_short:
  assumes "length p < 126" "length p + 2 \<le> length b"
  shows "encode_packet b mk (p @ rest) (length p) = Some (text_frame p @ drop (length p + 2) b, int (length p) + 2)"
proof -
  have "(of_nat (length p) :: u8) AND 0x7F = of_nat (length p)" using and_7F [of "length p"] assms(1) by simp
  then show ?thesis using assms
    by (simp add: encode_packet_def put_bytes_def get_bytes_def ophdr_bytes_def text_frame_def Let_def)
qed

text \<open>C34: After the handshake the server answers every masked frame of a payload of less than 126 bytes with one unmasked
  text frame of exactly that payload, whatever the mask, the opcode and the bytes behind the frame, as long as a zero byte
  ends the string that is printed.\<close>

theorem frame_echo:
  assumes frame: "rbuffer c = client_frame op mk p @ rest" and mk: "length mk = 4" and short: "length p < 126"
    and zero: "0 \<in> set (p @ rest)" and c: "status c = 1" "buffers_ok c"
  shows "\<exists>c'. ws_request sha bio c = Some c' \<and> pending c' = text_frame p \<and> wlength c' = int (length p) + 2 \<and> status c' = 1"
proof -
  let ?pre = "[0x80 OR op, 0x80 OR of_nat (length p)] @ mk"
  have r: "rbuffer c = ?pre @ mask_bytes mk p @ rest" using frame by (simp add: client_frame_def)
  have "unat (of_nat (length p) :: u8) = length p" using short by (simp add: unat_of_nat)
  then have sz: "int (unat (rbuffer c ! 1 AND 0x7F)) = int (length p)" using short payload_bits [of "length p"] by (simp add: r)
  have "demask (rbuffer c) 6 (int (length p)) mk = Some (?pre @ p @ rest)"
    using demask_frame [of ?pre 6 mk p rest] mk r by simp
  then have d: "decode_packet (rbuffer c) = Some (?pre @ p @ rest, mk, int (length p), 6)"
    using decode_short [of "rbuffer c"] sz mk by (simp add: r)
  have "length p + 2 \<le> length (wbuffer c)" using short c(2) by (simp add: buffers_ok_def BUFFER_LENGTH_def)
  note e = encode_short [OF short this, of mk rest]
  have n: "nat (int (length p) + 2) = Suc (Suc (length p))" by linarith
  have "bstr (p @ rest) = Some (takeWhile (\<lambda>c. c \<noteq> 0) (p @ rest))" using zero by (simp only: bstr_def if_True)
  from this e d c(1) mk show ?thesis
    by (simp add: n ws_request_def pending_def text_frame_def)
qed

theorem frame_echo_witness:
  "\<exists>c'. ws_request (\<lambda>x. x) (\<lambda>x. x) (zero_conn\<lparr>status := 1, rbuffer := client_frame 1 [7, 8, 9, 10] [104, 105] @ replicate 1016 0\<rparr>) = Some c' \<and>
     pending c' = [0x81, 2, 104, 105] \<and> wlength c' = 4"
proof -
  let ?c = "zero_conn\<lparr>status := 1, rbuffer := client_frame 1 [7, 8, 9, 10] [104, 105] @ replicate 1016 0\<rparr>"
  have "length (client_frame 1 [7, 8, 9, 10] [104, 105]) = 8" by (simp add: client_frame_def mask_bytes_def)
  then have "buffers_ok ?c" by (simp add: buffers_ok_def zero_conn_def BUFFER_LENGTH_def)
  from frame_echo [where c = ?c and op = 1 and mk = "[7, 8, 9, 10]" and p = "[104, 105]" and rest = "replicate 1016 0"
        and sha = "\<lambda>x. x" and bio = "\<lambda>x. x", OF _ _ _ _ _ this]
  obtain c' where "ws_request (\<lambda>x. x) (\<lambda>x. x) ?c = Some c'" "pending c' = text_frame [104, 105]" "wlength c' = int (length [104 :: u8, 105]) + 2"
    by auto
  then show ?thesis by (intro exI [of _ c']) (simp add: text_frame_def)
qed

section \<open>The handshake\<close>

lemma readline_loop_defined:
  "n < length buf \<Longrightarrow> buf ! n = 0 \<Longrightarrow> pos + (n - level) \<le> length linebuf \<Longrightarrow>
   \<exists>i l. readline_loop buf n level pos linebuf = Some (i, take pos linebuf @ l @ drop (pos + length l) linebuf) \<and> length l \<le> n - level \<and>
     (i = -1 \<or> int level + 2 \<le> i \<and> i \<le> int n)"
proof (induction buf n level pos linebuf rule: readline_loop.induct)
  case (1 buf n level pos linebuf)
  let ?stop = "get_byte buf level = Some 13 \<and> get_byte buf (level + 1) = Some 10"
  consider "\<not> level < n" | "level < n" "?stop" | "level < n" "\<not> ?stop" by blast
  then show ?case
  proof cases
    case 1
    then have "readline_loop buf n level pos linebuf = Some (-1, take pos linebuf @ [] @ drop (pos + length []) linebuf)"
      by (subst readline_loop.simps) simp
    then show ?thesis by (intro exI [of _ "-1"] exI [of _ "[]"]) simp
  next
    case 2
    then have "readline_loop buf n level pos linebuf = Some (int level + 2, take pos linebuf @ [] @ drop (pos + length []) linebuf)"
      by (subst readline_loop.simps) simp
    moreover have "level + 1 \<noteq> n" using 2(2) 1(2,3) by auto
    ultimately show ?thesis using 2(1) by (intro exI [of _ "int level + 2"] exI [of _ "[]"]) auto
  next
    case 3
    let ?lb = "take pos linebuf @ [buf ! level] @ drop (pos + 1) linebuf"
    have fit: "pos + 1 \<le> length linebuf" using 1(4) 3(1) by linarith
    then have put: "put_bytes linebuf pos [buf ! level] = Some ?lb" by (simp add: put_bytes_def)
    have "pos + 1 + (n - (level + 1)) \<le> length ?lb" using 1(4) 3(1) fit by simp
    from 1(1) [OF 3 put 1(2,3) this] obtain i l where
      r: "readline_loop buf n (level + 1) (pos + 1) ?lb = Some (i, take (pos + 1) ?lb @ l @ drop (pos + 1 + length l) ?lb)"
      and l: "length l \<le> n - (level + 1)" and i: "i = -1 \<or> int (level + 1) + 2 \<le> i \<and> i \<le> int n" by blast
    have "take (pos + 1) ?lb @ l @ drop (pos + 1 + length l) ?lb =
        take pos linebuf @ (buf ! level # l) @ drop (pos + length (buf ! level # l)) linebuf" using fit by (simp add: ac_simps)
    note r' = r [unfolded this]
    have "readline_loop buf n level pos linebuf =
        Some (i, take pos linebuf @ (buf ! level # l) @ drop (pos + length (buf ! level # l)) linebuf)"
      unfolding readline_loop.simps [of buf n level] if_P [OF 3(1)] if_not_P [OF 3(2)] put bind.bind_lunit by (rule r')
    then show ?thesis using l i 3(1) by (intro exI [of _ i] exI [of _ "buf ! level # l"]) auto
  qed
qed

lemma bstr_nth:
  assumes "bstr buf = Some str"
  shows "length str < length buf" "buf ! length str = 0" "str = take (length str) buf" "0 \<notin> set str"
proof -
  have z: "0 \<in> set buf" and s: "str = takeWhile (\<lambda>c. c \<noteq> 0) buf" using assms by (auto simp: bstr_def split: if_splits)
  obtain ys zs where b: "buf = ys @ 0 # zs" "0 \<notin> set ys" using split_list_first [OF z] by blast
  have "str = ys" unfolding s b(1) using b(2) by (metis (mono_tags, lifting) takeWhile_append2 takeWhile.simps(2) append_Nil2)
  then show "length str < length buf" "buf ! length str = 0" "str = take (length str) buf" "0 \<notin> set str" using b by simp_all
qed

text \<open>What the code relies on of OpenSSL: a digest of 20 bytes, and an encoding with a final line feed that fits
  the 32 bytes of \<open>sec_accept\<close>.\<close>

definition openssl_ok :: "(u8 list \<Rightarrow> u8 list) \<Rightarrow> (u8 list \<Rightarrow> u8 list) \<Rightarrow> bool" where
  "openssl_ok sha bio \<longleftrightarrow> (\<forall>x. length (sha x) = 20) \<and> (\<forall>d. length d = 20 \<longrightarrow> 1 \<le> length (bio d) \<and> length (bio d) \<le> 32)"

lemma bstr_0: "0 \<in> set b \<Longrightarrow> \<exists>s. bstr b = Some s \<and> length s < length b"
  using bstr_nth(1) [of b "takeWhile (\<lambda>c. c \<noteq> 0) b"] by (simp add: bstr_def)

lemma accept_key_defined:
  assumes ssl: "openssl_ok sha bio" and line: "bstr lb = Some line" "length lb = 1024" "length line \<le> 987" "17 \<le> length line"
    and c: "buffers_ok c"
  shows "\<exists>b n. accept_key sha bio lb c = Some (c\<lparr>wbuffer := b, wlength := n\<rparr>) \<and> length b = BUFFER_LENGTH \<and> 0 \<le> n \<and> n \<le> int BUFFER_LENGTH"
proof -
  have g: "length GUID = 36" by (simp add: GUID_def bytes_def)
  let ?lb = "take (length line) lb @ (GUID @ [0]) @ drop (length line + 37) lb"
  have put: "put_bytes lb (length line) (GUID @ [0]) = Some ?lb" using line g by (simp add: put_bytes_def)
  have "0 \<in> set (drop WEBSOCK_KEY_LENGTH ?lb)" using line g by (simp add: WEBSOCK_KEY_LENGTH_def)
  then obtain key where key: "bstr (drop WEBSOCK_KEY_LENGTH ?lb) = Some key" using bstr_0 by blast
  have sec: "put_bytes (replicate 128 0) 0 (sha key) = Some (sha key @ replicate 108 0)"
    using ssl by (simp add: put_bytes_def openssl_ok_def)
  have dig: "get_bytes (sha key @ replicate 108 0) 0 20 = Some (sha key)" using ssl by (simp add: get_bytes_def openssl_ok_def)
  let ?m = "bio (sha key)"
  have m: "1 \<le> length ?m" "length ?m \<le> 32" using ssl by (simp_all add: openssl_ok_def)
  have ne: "?m \<noteq> []" using m(1) by auto
  let ?o = "butlast ?m @ 0 # replicate (32 - length ?m) 0"
  have b64: "base64_encode bio (sha key) (replicate 32 0) = Some (int (length ?m), ?o)"
    using m ne by (simp add: base64_encode_def put_bytes_def Let_def butlast_conv_take)
  obtain acc where acc: "bstr ?o = Some acc" "length acc < length ?o" using bstr_0 [of ?o] by auto
  have small: "length (accept_response acc) < BUFFER_LENGTH"
    using acc(2) m by (simp add: accept_response_def bytes_def crlf_def BUFFER_LENGTH_def)
  then have "accept_key sha bio lb c = Some (c\<lparr>wbuffer := accept_response acc @ 0 # drop (length (accept_response acc) + 1) (replicate BUFFER_LENGTH 0),
      wlength := int (length (accept_response acc))\<rparr>)"
    using line(1) put key sec dig b64 acc(1) by (simp add: accept_key_def Let_def put_text_def)
  with small show ?thesis
    by (intro exI [of _ "accept_response acc @ 0 # drop (length (accept_response acc) + 1) (replicate BUFFER_LENGTH 0)"]
        exI [of _ "int (length (accept_response acc))"]) simp
qed

lemma bstr_padded_le: "0 < m \<Longrightarrow> \<exists>line. bstr (l @ replicate m 0) = Some line \<and> length line \<le> length l \<and> (0 \<notin> set l \<longrightarrow> line = l)"
proof -
  assume m: "0 < m"
  have "length (takeWhile (\<lambda>c. c \<noteq> 0) (l @ replicate m 0)) \<le> length l"
  proof (cases "0 \<in> set l")
    case True
    then show ?thesis by (simp add: takeWhile_append1 [of 0] length_takeWhile_le)
  next
    case False
    then have "\<And>x. x \<in> set l \<Longrightarrow> x \<noteq> 0" by auto
    then show ?thesis by (simp add: takeWhile_append2)
  qed
  moreover have "0 \<notin> set l \<Longrightarrow> takeWhile (\<lambda>c. c \<noteq> 0) (l @ replicate m 0) = l"
  proof -
    assume "0 \<notin> set l"
    then have ne: "\<And>x. x \<in> set l \<Longrightarrow> x \<noteq> 0" by auto
    show ?thesis using m takeWhile_append2 [of l "\<lambda>c. c \<noteq> 0" "replicate m 0", OF ne] by (cases m) simp_all
  qed
  ultimately show ?thesis using m by (simp add: bstr_def)
qed

lemma strstr_length: "strstr needle hay \<Longrightarrow> length needle \<le> length hay"
proof (induction hay)
  case Nil
  then show ?case by (subst (asm) strstr.simps) simp
next
  case (Cons x hay)
  from Cons.prems have "take (length needle) (x # hay) = needle \<or> strstr needle hay" by (subst (asm) strstr.simps) simp
  then show ?case
  proof
    assume "take (length needle) (x # hay) = needle"
    then show ?thesis by (metis length_take min.cobounded1)
  qed (use Cons.IH in simp)
qed

lemma readline_defined:
  assumes "bstr buf = Some str" "length str \<le> 987"
  shows "\<exists>i l. readline buf idx (replicate 1024 0) = Some (i, l @ replicate (1024 - length l) 0) \<and> length l \<le> 987 \<and>
     (i = -1 \<or> int idx + 2 \<le> i \<and> i \<le> int (length str))"
proof -
  have "0 + (length str - idx) \<le> length (replicate 1024 (0 :: u8))" using assms(2) by simp
  from readline_loop_defined [OF bstr_nth(1,2) [OF assms(1)] this] obtain i l where
    "readline_loop buf (length str) idx 0 (replicate 1024 0) = Some (i, take 0 (replicate 1024 0) @ l @ drop (0 + length l) (replicate 1024 0))"
    "length l \<le> length str - idx" "i = -1 \<or> int idx + 2 \<le> i \<and> i \<le> int (length str)" by blast
  then show ?thesis using assms by (intro exI [of _ i] exI [of _ l]) (simp add: readline_def)
qed

lemma strstr_at: "strstr needle hay \<Longrightarrow> \<exists>q. q + length needle \<le> length hay \<and> (\<forall>j < length needle. hay ! (q + j) = needle ! j)"
proof (induction hay)
  case Nil
  then have "needle = []" by (subst (asm) strstr.simps) simp
  then show ?case by simp
next
  case (Cons x hay)
  from Cons.prems have "take (length needle) (x # hay) = needle \<or> strstr needle hay" by (subst (asm) strstr.simps) simp
  then show ?case
  proof
    assume t: "take (length needle) (x # hay) = needle"
    have "length needle \<le> length (x # hay)" using strstr_length [OF Cons.prems] .
    moreover have "\<forall>j < length needle. (x # hay) ! (0 + j) = needle ! j" using t by (metis add_0 nth_take)
    ultimately show ?thesis by (intro exI [of _ 0]) simp
  next
    assume "strstr needle hay"
    then obtain q where "q + length needle \<le> length hay" "\<forall>j < length needle. hay ! (q + j) = needle ! j" using Cons.IH by blast
    then show ?thesis by (intro exI [of _ "Suc q"]) simp
  qed
qed

text \<open>A line end ahead is found, and the result lies behind a line end.\<close>

lemma readline_loop_finds:
  "level \<le> q \<Longrightarrow> q + 1 < n \<Longrightarrow> n < length buf \<Longrightarrow> buf ! q = 13 \<Longrightarrow> buf ! (q + 1) = 10 \<Longrightarrow> readline_loop buf n level pos lb = Some (i, l) \<Longrightarrow>
   \<exists>e. i = int e + 2 \<and> level \<le> e \<and> e \<le> q \<and> buf ! e = 13 \<and> buf ! (e + 1) = 10"
proof (induction buf n level pos lb rule: readline_loop.induct)
  case (1 buf n level pos lb)
  have lv: "level < n" using 1(2,3) by linarith
  have g: "get_byte buf level = Some (buf ! level)" "get_byte buf (level + 1) = Some (buf ! (level + 1))"
    using 1(2-4) by (auto intro!: get_byte_nth)
  show ?case
  proof (cases "buf ! level = 13 \<and> buf ! (level + 1) = 10")
    case True
    then have "i = int level + 2" using 1(7) lv g by (subst (asm) readline_loop.simps) simp
    then show ?thesis using True 1(2) by (intro exI [of _ level]) simp
  next
    case False
    then have ns: "\<not> (get_byte buf level = Some 13 \<and> get_byte buf (level + 1) = Some 10)" using g by simp
    from 1(7) lv ns obtain lb' where lb': "put_bytes lb pos [buf ! level] = Some lb'" "readline_loop buf n (level + 1) (pos + 1) lb' = Some (i, l)"
      by (subst (asm) readline_loop.simps) (auto split: bind_splits)
    have "level \<noteq> q" using False 1(5,6) by auto
    then have "level + 1 \<le> q" using 1(2) by simp
    from 1(1) [OF lv ns lb'(1) this 1(3-6) lb'(2)] show ?thesis by (elim exE conjE) (intro exI conjI; simp)
  qed
qed

lemma readline_finds:
  assumes "bstr buf = Some str" "idx \<le> q" "q + 1 < length str" "buf ! q = 13" "buf ! (q + 1) = 10" "readline buf idx lb = Some (i, l)"
  shows "\<exists>e. i = int e + 2 \<and> idx \<le> e \<and> e \<le> q \<and> buf ! e = 13 \<and> buf ! (e + 1) = 10"
  using readline_loop_finds [OF assms(2,3) bstr_nth(1) [OF assms(1)] assms(4,5)] assms(1,6) by (simp add: readline_def)

text \<open>A request with its blank line.\<close>

definition whole_header :: "u8 list \<Rightarrow> bool" where
  "whole_header str \<longleftrightarrow> strstr (crlf @ crlf) str"

lemma whole_header_at:
  assumes "bstr buf = Some str" "whole_header str"
  shows "\<exists>q. q + 4 \<le> length str \<and> buf ! q = 13 \<and> buf ! (q + 1) = 10 \<and> buf ! (q + 2) = 13 \<and> buf ! (q + 3) = 10"
proof -
  have b: "str ! j = buf ! j" if "j < length str" for j using bstr_nth(3) [OF assms(1)] that by (metis nth_take)
  have four: "length (crlf @ crlf) = 4" by (simp add: crlf_def)
  obtain q where q: "q + 4 \<le> length str" "\<forall>j < 4. str ! (q + j) = (crlf @ crlf) ! j"
    using strstr_at [OF assms(2) [unfolded whole_header_def]] unfolding four by blast
  have "str ! (q + 0) = 13" "str ! (q + 1) = 10" "str ! (q + 2) = 13" "str ! (q + 3) = 10"
    using q(2) [rule_format, of 0] q(2) [rule_format, of 1] q(2) [rule_format, of 2] q(2) [rule_format, of 3] by (simp_all add: crlf_def)
  then show ?thesis using q(1) b by (intro exI [of _ q]) simp
qed

lemma handshake_loop_defined:
  assumes ssl: "openssl_ok sha bio" and c: "buffers_ok c" "0 \<le> wlength c" "wlength c \<le> int BUFFER_LENGTH"
    and str: "bstr (rbuffer c) = Some str" "length str \<le> 987"
    and q: "q + 4 \<le> length str" "rbuffer c ! q = 13" "rbuffer c ! (q + 1) = 10" "rbuffer c ! (q + 2) = 13" "rbuffer c ! (q + 3) = 10"
  shows "idx \<le> q \<Longrightarrow> length str - idx < k \<Longrightarrow> \<exists>b n. handshake_loop k sha bio idx c = Some (c\<lparr>wbuffer := b, wlength := n\<rparr>) \<and>
    length b = BUFFER_LENGTH \<and> 0 \<le> n \<and> n \<le> int BUFFER_LENGTH"
proof (induction k arbitrary: idx)
  case (Suc k)
  obtain i l where rl: "readline (rbuffer c) idx (replicate 1024 0) = Some (i, l @ replicate (1024 - length l) 0)" and l: "length l \<le> 987"
    using readline_defined [OF str] by blast
  have "q + 1 < length str" using q(1) by simp
  from readline_finds [OF str(1) Suc.prems(1) this q(2,3) rl] obtain e where e: "i = int e + 2" "idx \<le> e" "e \<le> q"
    "rbuffer c ! e = 13" "rbuffer c ! (e + 1) = 10" by blast
  let ?lb = "l @ replicate (1024 - length l) 0"
  obtain line where line: "bstr ?lb = Some line" "length line \<le> length l"
    using bstr_padded_le [of "1024 - length l" l] l by auto
  have stay: "c\<lparr>wbuffer := wbuffer c, wlength := wlength c\<rparr> = c" by simp
  have w: "length (wbuffer c) = BUFFER_LENGTH" using c(1) by (simp add: buffers_ok_def)
  show ?case
  proof (cases "strstr key_name line")
    case True
    have "17 \<le> length line" using strstr_length [OF True] by (simp add: key_name_def bytes_def)
    then have "\<exists>b n. accept_key sha bio ?lb c = Some (c\<lparr>wbuffer := b, wlength := n\<rparr>) \<and> length b = BUFFER_LENGTH \<and> 0 \<le> n \<and> n \<le> int BUFFER_LENGTH"
      using accept_key_defined [OF ssl line(1)] line(2) l c(1) by simp
    then show ?thesis using rl line(1) True by simp
  next
    case no: False
    show ?thesis
    proof -
      have len: "e + 3 < length (rbuffer c)" using e(3) q(1) str(2) c(1) by (simp add: buffers_ok_def BUFFER_LENGTH_def)
      define more where "more \<longleftrightarrow> rbuffer c ! (e + 2) \<noteq> 13 \<or> rbuffer c ! (e + 3) \<noteq> 10"
      have n: "nat i = e + 2" "nat i + 1 = e + 3" "i \<noteq> -1" using e(1) by auto
      have g: "get_byte (rbuffer c) (nat i) = Some (rbuffer c ! (e + 2))" "get_byte (rbuffer c) (nat i + 1) = Some (rbuffer c ! (e + 3))"
        unfolding n using len by (auto simp: numeral_3_eq_3 intro!: get_byte_nth)
      have "handshake_loop (Suc k) sha bio idx c = (if more then handshake_loop k sha bio (nat i) c else Some c)"
        using rl line(1) no g n(3) by (simp add: more_def)
      note step = this [unfolded n(1)]
      show ?thesis
      proof (cases more)
        case True
        have "e \<noteq> q" using True q(4,5) by (auto simp: more_def)
        moreover have "e + 1 \<noteq> q" using e(5) q(2) by auto
        ultimately have "e + 2 \<le> q" using e(3) by linarith
        moreover have "length str - (e + 2) < k" using e(2) Suc.prems(2) q(1) \<open>e + 2 \<le> q\<close> by linarith
        ultimately show ?thesis unfolding step if_P [OF True] by (rule Suc.IH)
      next
        case False
        then have "handshake_loop (Suc k) sha bio idx c = Some c" using step by simp
        then show ?thesis using stay w c(2,3) by metis
      qed
    qed
  qed
qed simp

definition ws_inv :: conn_inv where
  "ws_inv ev c g t \<longleftrightarrow> buffers_ok c \<and> status c \<in> {0, 1} \<and> 0 \<le> wlength c \<and> wlength c \<le> int BUFFER_LENGTH"

text \<open>Messages shorter than the 1024 bytes of \<open>linebuf\<close> by the GUID and a NUL; and the first message of a connection has, before
  any zero byte, the blank line that ends a request.\<close>

definition ws_fair :: "(u8 list \<Rightarrow> u8 list) \<Rightarrow> (u8 list \<Rightarrow> u8 list) \<Rightarrow> 'a io_scheme \<Rightarrow> conn \<Rightarrow> bool" where
  "ws_fair sha bio r c \<longleftrightarrow> openssl_ok sha bio \<and> (\<forall>bs. received r = Some bs \<longrightarrow> length bs \<le> 987 \<and>
     (status c = 0 \<and> bs \<noteq> [] \<longrightarrow> whole_header (takeWhile (\<lambda>c. c \<noteq> 0) bs)))"

lemma decode_defined:
  assumes "length stream = 1024"
  shows "\<exists>b mk sz. decode_packet stream = Some (b, mk, sz, 6) \<and> length b = 1024 \<and> length mk = 4 \<and> 0 \<le> sz \<and> sz \<le> 127 \<and> b ! 1023 = stream ! 1023"
proof -
  let ?sz = "unat (stream ! 1 AND 0x7F)"
  have "stream ! 1 AND 0x7F \<le> 0x7F" by (rule word_and_le1)
  then have sz: "?sz \<le> 127" by (simp add: word_le_nat_alt)
  then have "int ?sz \<le> 127" by linarith
  moreover obtain b where "demask_loop ?sz 0 6 (take 4 (drop 2 stream)) stream = Some b" "length b = 1024" "b ! 1023 = stream ! 1023"
    using demask_loop_nth [of 6 0 ?sz stream "take 4 (drop 2 stream)"] assms sz by auto
  ultimately show ?thesis using decode_short [of stream] assms sz by (simp add: demask_def)
qed

lemma encode_defined:
  assumes "length b = BUFFER_LENGTH" "length mk = 4" "n \<le> 127" "n \<le> length p"
  shows "\<exists>b' k. encode_packet b mk p n = Some (b', k) \<and> length b' = BUFFER_LENGTH \<and> 0 \<le> k \<and> k \<le> int BUFFER_LENGTH"
proof -
  have le: "length (le_bytes j m) = j" for j m by (induction j arbitrary: m) simp_all
  have o: "length (ophdr_bytes h) = 2" for h by (simp add: ophdr_bytes_def)
  have g: "get_bytes p 0 n = Some (take n p)" "length (take n p) = n" using assms(4) by (simp_all add: get_bytes_def)
  show ?thesis
  proof (cases "n < 126")
    case True
    then show ?thesis using assms o g by (simp add: encode_packet_def put_bytes_def BUFFER_LENGTH_def Let_def)
  next
    case False
    then show ?thesis using assms o g le by (simp add: encode_packet_def put_bytes_def BUFFER_LENGTH_def Let_def)
  qed
qed

lemma ws_request_defined:
  assumes ssl: "openssl_ok sha bio" and c: "ws_inv ev c g t" and str: "bstr (rbuffer c) = Some str" "length str \<le> 987"
    and fair: "status c = 0 \<Longrightarrow> whole_header str" "rbuffer c ! 1023 = 0"
  shows "\<exists>c'. ws_request sha bio c = Some c' \<and> ws_inv ev' c' g' t' \<and> recv_callback c' = recv_callback c \<and> send_callback c' = send_callback c"
proof -
  have b: "length (rbuffer c) = BUFFER_LENGTH" "length (wbuffer c) = BUFFER_LENGTH" "0 \<le> wlength c" "wlength c \<le> int BUFFER_LENGTH"
    using c by (simp_all add: ws_inv_def buffers_ok_def)
  have bo: "buffers_ok c" using c by (simp add: ws_inv_def)
  consider "status c = 0" | "status c = 1" using c by (auto simp: ws_inv_def)
  then show ?thesis
  proof cases
    case 1
    have "length str - 0 < BUFFER_LENGTH" using str(2) by (simp add: BUFFER_LENGTH_def)
    moreover obtain q where q: "q + 4 \<le> length str" "rbuffer c ! q = 13" "rbuffer c ! (q + 1) = 10" "rbuffer c ! (q + 2) = 13" "rbuffer c ! (q + 3) = 10"
      using whole_header_at [OF str(1) fair(1) [OF 1]] by blast
    ultimately obtain w n where
      "handshake sha bio c = Some (c\<lparr>wbuffer := w, wlength := n\<rparr>)" "length w = BUFFER_LENGTH" "0 \<le> n" "n \<le> int BUFFER_LENGTH"
      using handshake_loop_defined [OF ssl bo b(3,4) str q, of 0 BUFFER_LENGTH] by (auto simp: handshake_def)
    then show ?thesis using 1 b by (simp add: ws_request_def ws_inv_def buffers_ok_def)
  next
    case 2
    have "length (rbuffer c) = 1024" using b(1) by (simp add: BUFFER_LENGTH_def)
    from decode_defined [OF this] obtain st mk sz where d: "decode_packet (rbuffer c) = Some (st, mk, sz, 6)" "length st = 1024" "length mk = 4"
      "0 \<le> sz" "sz \<le> 127" "st ! 1023 = 0" unfolding fair(2) by blast
    have "drop 6 st ! 1017 = 0" "1017 < length (drop 6 st)" using d(2,6) by simp_all
    then have "0 \<in> set (drop 6 st)" by (metis nth_mem)
    then obtain shown where pr: "bstr (drop 6 st) = Some shown" by (simp add: bstr_def)
    have "nat sz \<le> 127" "nat sz \<le> length (drop 6 st)" using d by simp_all
    from encode_defined [OF b(2) d(3) this] obtain w n where "encode_packet (wbuffer c) mk (drop 6 st) (nat sz) = Some (w, n)"
      "length w = BUFFER_LENGTH" "0 \<le> n" "n \<le> int BUFFER_LENGTH" by blast
    then show ?thesis using 2 d pr by (simp add: ws_request_def ws_inv_def buffers_ok_def BUFFER_LENGTH_def)
  qed
qed

lemma bstr_zero_tail: "length bs < n \<Longrightarrow> bstr (bs @ drop (length bs) (replicate n 0)) = Some (takeWhile (\<lambda>c. c \<noteq> 0) bs)"
  by (cases "0 \<in> set bs") (auto simp: bstr_def takeWhile_append takeWhile_eq_all_conv [THEN iffD2])

interpretation ws: event_loop "ws_table sha bio" ws_inv "ws_fair sha bio" for sha bio
proof (unfold_locales, goal_cases)
  case (1 fd r s)
  then show ?case by (simp add: ws_accept_cb_def)
next
  case (2 fd r s)
  then show ?case
    by (simp add: ws_accept_cb_def ws_event_register_def Let_def put_conn_def fd_ok_def same_but_def set_event_epoll live_def ws_inv_def
        blank_conn_def buffers_ok_def BUFFER_LENGTH_def)
next
  case (3 fd s r)
  let ?c = "(conn_list s fd)\<lparr>rbuffer := replicate BUFFER_LENGTH 0\<rparr>"
  have inv: "ws_inv EPOLLIN (conn_list s fd) (got s fd) (sent s fd)" and cb: "recv_callback (conn_list s fd) = Recv_cb" "send_callback (conn_list s fd) = Send_cb"
    using 3(3) by (simp_all add: live_def)
  show ?case
  proof (cases "received r")
    case None
    then show ?thesis using 3(1) by (simp add: ws_recv_cb_def sys_recv_def put_conn_def close_conn_def same_but_def)
  next
    case (Some bs)
    have len: "length bs \<le> 987" and ssl: "openssl_ok sha bio" using 3(4) Some by (simp_all add: ws_fair_def)
    note rv = sys_recv_ok [OF 3(5) Some, of fd ?c]
    let ?d = "?c\<lparr>rbuffer := bs @ drop (length bs) (replicate BUFFER_LENGTH 0), rlength := int (length bs)\<rparr>"
    have "length bs < BUFFER_LENGTH" using len by (simp add: BUFFER_LENGTH_def)
    from bstr_zero_tail [OF this] have str: "bstr (rbuffer ?d) = Some (takeWhile (\<lambda>c. c \<noteq> 0) bs)" by simp
    have short: "length (takeWhile (\<lambda>c. c \<noteq> 0) bs) \<le> 987" using len length_takeWhile_le [of _ bs] by (meson le_trans)
    have last: "rbuffer ?d ! 1023 = 0" using len by (simp add: nth_append BUFFER_LENGTH_def)
    have "ws_inv EPOLLIN ?d (got s fd) (sent s fd)" using inv \<open>length bs < BUFFER_LENGTH\<close> by (simp add: ws_inv_def buffers_ok_def)
    note rq = ws_request_defined [OF ssl this str short _ last, of EPOLLOUT "got s fd @ [bs]" "sent s fd"]
    show ?thesis
    proof (cases "bs = []")
      case True
      then show ?thesis using rv 3(1) by (simp add: ws_recv_cb_def put_conn_def close_conn_def same_but_def)
    next
      case False
      then have "status ?d = 0 \<Longrightarrow> whole_header (takeWhile (\<lambda>c. c \<noteq> 0) bs)" using 3(4) Some by (simp add: ws_fair_def)
      from rq [OF this] cb obtain c' where c': "ws_request sha bio ?d = Some c'"
        "ws_inv EPOLLOUT c' (got s fd @ [bs]) (sent s fd)" "recv_callback c' = Recv_cb" "send_callback c' = Send_cb" by auto
      then show ?thesis using rv 3(1,2) False by (simp add: ws_recv_cb_def put_conn_def same_but_def set_event_epoll live_def)
    qed
  qed
next
  case (4 fd s r)
  then show ?case
    by (simp add: ws_send_cb_def ws_response_def sys_send_def same_but_def set_event_epoll live_def ws_inv_def buffers_ok_def Let_def nat_le_iff)
qed

lemma ws_listen_loop_inv: "ws_listen_loop rs s = Some s' \<Longrightarrow> only_listening s \<Longrightarrow> only_listening s'"
proof (induction rs arbitrary: s)
  case (Cons r rs)
  let ?fd = "ws_init_server r"
  obtain s1 where s1: "put_conn ?fd ((conn_list s ?fd)\<lparr>c_fd := ?fd, recv_callback := Accept_cb\<rparr>) s = Some s1"
    using Cons.prems(1) by (cases "put_conn ?fd ((conn_list s ?fd)\<lparr>c_fd := ?fd, recv_callback := Accept_cb\<rparr>) s") (simp_all add: Let_def)
  then have "ws_listen_loop rs (set_event ?fd EPOLLIN 1 s1) = Some s'" using Cons.prems(1) by (simp add: Let_def)
  then show ?case using listen_one [OF Cons.prems(2) s1] by (rule Cons.IH)
qed simp

lemma ws_start_inv: "ws_start rs = Some s \<Longrightarrow> loop_inv J s"
  using ws_listen_loop_inv [of "take MAX_PORTS rs" zero_reactor s]
  by (simp add: ws_start_def only_listening_def loop_inv_def zero_reactor_def)

text \<open>C33: As long as messages are at most 987 bytes long, the first message of each connection contains the blank line of a
  complete request before any zero byte, and OpenSSL keeps its contract, no client of the WebSocket server, whatever
  bytes it sends otherwise, makes a handler touch memory outside its buffers or loop: every event of every run is handled,
  and the status and the length of the answer of each connection stay in their ranges.\<close>

theorem ws_safe:
  assumes start: "ws_start rs = Some s0" and run: "(turn (ws_table sha bio) (ws_fair sha bio))\<^sup>*\<^sup>* s0 s"
    and fd: "epoll s fd = Some ev" and r: "io_ok s r" "ws_fair sha bio r (conn_list s fd)"
  shows "handle_event (ws_table sha bio) r (fd, ev = EPOLLIN, ev = EPOLLOUT) s \<noteq> None \<and>
    (recv_callback (conn_list s fd) = Recv_cb \<longrightarrow>
      status (conn_list s fd) \<in> {0, 1} \<and> 0 \<le> wlength (conn_list s fd) \<and> wlength (conn_list s fd) \<le> int BUFFER_LENGTH)"
proof (intro conjI impI)
  have inv: "loop_inv ws_inv s" using ws.run_inv [OF run] ws_start_inv start by simp
  show "handle_event (ws_table sha bio) r (fd, ev = EPOLLIN, ev = EPOLLOUT) s \<noteq> None"
    using ws.event_defined [OF inv fd r] by auto
  assume c: "recv_callback (conn_list s fd) = Recv_cb"
  have "ws_inv ev (conn_list s fd) (got s fd) (sent s fd)" using loop_invD [OF inv fd c] by (simp add: live_def)
  then show "status (conn_list s fd) \<in> {0, 1}" "0 \<le> wlength (conn_list s fd)" "wlength (conn_list s fd) \<le> int BUFFER_LENGTH"
    by (simp_all add: ws_inv_def)
qed

text \<open>Stand-ins for OpenSSL that keep its contract.\<close>

definition demo_sha :: "u8 list \<Rightarrow> u8 list" where "demo_sha x = take 20 (x @ replicate 20 1)"
definition demo_bio :: "u8 list \<Rightarrow> u8 list" where "demo_bio d = map (\<lambda>b. 65) d @ [10]"

lemma demo_openssl: "openssl_ok demo_sha demo_bio"
  by (auto simp: openssl_ok_def demo_sha_def demo_bio_def min_def)

theorem ws_safe_witness:
  "handle_event (ws_table demo_sha demo_bio) \<lparr>accepted = -1, received = Some [71, 69, 84, 13, 10, 13, 10], sent_count = 0\<rparr> (5, True, False)
     (the (handle_event (ws_table demo_sha demo_bio) \<lparr>accepted = 5, received = None, sent_count = 0\<rparr> (3, True, False) (the (ws_start [(3, 0, 0)])))) \<noteq> None"
proof -
  let ?a = "\<lparr>accepted = 5, received = None, sent_count = 0\<rparr>" and ?r = "\<lparr>accepted = -1, received = Some [71, 69, 84, 13, 10, 13, 10], sent_count = 0\<rparr>"
  define s0 where "s0 = the (ws_start [(3, 0, 0)])"
  define s1 where "s1 = the (handle_event (ws_table demo_sha demo_bio) ?a (3, True, False) s0)"
  have s0: "ws_start [(3, 0, 0)] = Some s0" "epoll s0 3 = Some EPOLLIN" "epoll s0 5 = None" "recv_callback (conn_list s0 3) = Accept_cb"
    by (simp_all add: s0_def ws_start_def ws_init_server_def MAX_PORTS_def put_conn_def fd_ok_def CONNECTION_SIZE_def set_event_def zero_reactor_def)
  have s1: "handle_event (ws_table demo_sha demo_bio) ?a (3, True, False) s0 = Some s1" "epoll s1 5 = Some EPOLLIN"
    using s0 by (simp_all add: s1_def handle_event_def fd_ok_def CONNECTION_SIZE_def ws_accept_cb_def ws_event_register_def put_conn_def set_event_def)
  have "turn (ws_table demo_sha demo_bio :: unit table) (ws_fair demo_sha demo_bio) s0 s1"
    by (rule turnI [of _ 3 EPOLLIN ?a]) (use s0 s1 in \<open>simp_all add: io_ok_def ws_fair_def demo_openssl CONNECTION_SIZE_def\<close>)
  then have run: "(turn (ws_table demo_sha demo_bio :: unit table) (ws_fair demo_sha demo_bio))\<^sup>*\<^sup>* s0 s1" by simp
  have "whole_header [71, 69, 84, 13, 10, 13, 10]" by (simp add: whole_header_def crlf_def strstr.simps)
  with ws_safe [OF s0(1) run s1(2), of ?r]
  show ?thesis by (simp add: s0_def s1_def io_ok_def ws_fair_def demo_openssl CONNECTION_SIZE_def BUFFER_LENGTH_def)
qed

text \<open>A first message without a line end is enough to make the handshake read in front of the buffer.\<close>

lemma handshake_short: "bstr (rbuffer c) = Some [71] \<Longrightarrow> handshake sha bio c = None"
proof -
  assume str: "bstr (rbuffer c) = Some [71]"
  have b: "1 < length (rbuffer c)" "take 1 (rbuffer c) = [71]" using bstr_nth(1,3) [OF str] by simp_all
  have x: "rbuffer c ! 0 = 71" using b(2) nth_take [of 0 1 "rbuffer c"] by simp
  have g: "get_byte (rbuffer c) 0 = Some 71" using b(1) x by (auto simp: get_byte_def)
  have "readline (rbuffer c) 0 (replicate 1024 0) = Some (-1, [71] @ replicate 1023 0)"
    using str x g by (simp add: readline_def readline_loop.simps [of _ "Suc 0"] put_bytes_def)
  moreover have "\<not> strstr key_name [71]" using strstr_length [of key_name "[71]"] by (auto simp: key_name_def bytes_def)
  moreover have "bstr ([71] @ replicate 1023 0) = Some [71]" using bstr_padded_le [of 1023 "[71]"] by auto
  moreover obtain k where k: "BUFFER_LENGTH = Suc k" by (cases BUFFER_LENGTH) (auto simp: BUFFER_LENGTH_def)
  ultimately show ?thesis unfolding handshake_def k by simp
qed

section \<open>What the handshake answers\<close>

lemma readline_loop_reads:
  "buf = p @ l @ 13 # 10 # rest \<Longrightarrow> level = length p \<Longrightarrow> 13 \<notin> set l \<Longrightarrow> level + length l + 2 \<le> n \<Longrightarrow> pos + length l \<le> length lb \<Longrightarrow>
   readline_loop buf n level pos lb = Some (int (level + length l) + 2, take pos lb @ l @ drop (pos + length l) lb)"
proof (induction l arbitrary: p level pos lb)
  case Nil
  then show ?case by (subst readline_loop.simps) (simp add: nth_append get_byte_def)
next
  case (Cons x l)
  let ?lb = "take pos lb @ [x] @ drop (pos + 1) lb"
  have put: "put_bytes lb pos [x] = Some ?lb" using Cons.prems(5) by (simp add: put_bytes_def)
  have x: "buf ! level = x" "level < length buf" using Cons.prems(1,2) by (simp_all add: nth_append)
  have step: "readline_loop buf n level pos lb = readline_loop buf n (level + 1) (pos + 1) ?lb"
    using Cons.prems(3,4) x put by (subst readline_loop.simps) (auto simp: get_byte_def)
  have "readline_loop buf n (level + 1) (pos + 1) ?lb = Some (int (level + 1 + length l) + 2, take (pos + 1) ?lb @ l @ drop (pos + 1 + length l) ?lb)"
    by (rule Cons.IH [of "p @ [x]"]) (use Cons.prems in simp_all)
  also have "take (pos + 1) ?lb @ l @ drop (pos + 1 + length l) ?lb = take pos lb @ (x # l) @ drop (pos + length (x # l)) lb"
    using Cons.prems(5) by (simp add: ac_simps)
  finally show ?case using step by simp
qed

lemma bstr_prefix: "0 \<notin> set p \<Longrightarrow> 0 \<in> set q \<Longrightarrow> bstr (p @ q) = Some (p @ takeWhile (\<lambda>c. c \<noteq> 0) q)"
proof -
  assume p: "0 \<notin> set p" and q: "0 \<in> set q"
  have "\<And>x. x \<in> set p \<Longrightarrow> x \<noteq> 0" using p by auto
  from takeWhile_append2 [OF this] show ?thesis using q by (simp add: bstr_def)
qed

text \<open>One line.\<close>

lemma readline_reads:
  assumes "rbuffer c = p @ l @ crlf @ rest" "13 \<notin> set l" "0 \<notin> set p" "0 \<notin> set l" "0 \<in> set rest" "length l < 1024"
  shows "readline (rbuffer c) (length p) (replicate 1024 0) = Some (int (length p + length l) + 2, l @ replicate (1024 - length l) 0)"
proof -
  have b: "bstr (rbuffer c) = Some ((p @ l @ crlf) @ takeWhile (\<lambda>c. c \<noteq> 0) rest)"
    using bstr_prefix [of "p @ l @ crlf" rest] assms by (simp add: crlf_def)
  have "readline_loop (rbuffer c) (length ((p @ l @ crlf) @ takeWhile (\<lambda>c. c \<noteq> 0) rest)) (length p) 0 (replicate 1024 0) =
      Some (int (length p + length l) + 2, take 0 (replicate 1024 0) @ l @ drop (0 + length l) (replicate 1024 0))"
    by (rule readline_loop_reads [of _ p l rest]) (use assms in \<open>simp_all add: crlf_def\<close>)
  then show ?thesis using b by (simp add: readline_def)
qed

lemma line_string: "0 \<notin> set l \<Longrightarrow> length l < 1024 \<Longrightarrow> bstr (l @ replicate (1024 - length l) 0) = Some l"
  using bstr_padded_le [of "1024 - length l" l] by auto

abbreviation key_line :: "u8 list \<Rightarrow> u8 list" where
  "key_line k \<equiv> key_name @ bytes '': '' @ k"

lemma key_prefix: "length (key_name @ bytes '': '') = WEBSOCK_KEY_LENGTH" "0 \<notin> set (key_name @ bytes '': '')" "13 \<notin> set (key_name @ bytes '': '')"
  by (simp_all add: key_name_def bytes_def WEBSOCK_KEY_LENGTH_def)

lemma base64_value:
  assumes "openssl_ok sha bio"
  shows "base64_encode bio (sha x) (replicate 32 0) =
    Some (int (length (bio (sha x))), butlast (bio (sha x)) @ 0 # replicate (32 - length (bio (sha x))) 0)"
proof -
  have m: "1 \<le> length (bio (sha x))" "length (bio (sha x)) \<le> 32" using assms by (simp_all add: openssl_ok_def)
  then have "bio (sha x) \<noteq> []" by auto
  then show ?thesis using m by (simp add: base64_encode_def put_bytes_def Let_def butlast_conv_take)
qed

lemma accept_key_answers:
  assumes ssl: "openssl_ok sha bio" and nz: "0 \<notin> set (bio (sha (k @ GUID)))" and k: "0 \<notin> set k" "length k \<le> 968"
  shows "\<exists>c'. accept_key sha bio (key_line k @ replicate (1024 - length (key_line k)) 0) c = Some c' \<and>
    pending c' = accept_response (butlast (bio (sha (k @ GUID))))"
proof -
  let ?l = "key_line k" and ?m = "bio (sha (k @ GUID))"
  have g: "length GUID = 36" "0 \<notin> set GUID" by (simp_all add: GUID_def bytes_def)
  have l: "length ?l = 19 + length k" "0 \<notin> set ?l" "length ?l < 1024" using key_prefix(1,2) k by (auto simp: WEBSOCK_KEY_LENGTH_def)
  note line = line_string [OF l(2,3)]
  let ?tail = "replicate (1024 - length ?l - 37) 0"
  have put: "put_bytes (?l @ replicate (1024 - length ?l) 0) (length ?l) (GUID @ [0]) = Some (?l @ GUID @ 0 # ?tail)"
    using l(1) k g(1) by (simp add: put_bytes_def)
  have "drop WEBSOCK_KEY_LENGTH (?l @ GUID @ 0 # ?tail) = drop WEBSOCK_KEY_LENGTH ((key_name @ bytes '': '') @ k @ GUID @ 0 # ?tail)" by simp
  also have "\<dots> = k @ GUID @ 0 # ?tail" unfolding key_prefix(1) [symmetric] by simp
  finally have "bstr (drop WEBSOCK_KEY_LENGTH (?l @ GUID @ 0 # ?tail)) = Some (k @ GUID)"
    using bstr_prefix [of "k @ GUID" "0 # ?tail"] k g by simp
  note key = this
  have sec: "put_bytes (replicate 128 0) 0 (sha (k @ GUID)) = Some (sha (k @ GUID) @ replicate 108 0)"
    using ssl by (simp add: put_bytes_def openssl_ok_def)
  have dig: "get_bytes (sha (k @ GUID) @ replicate 108 0) 0 20 = Some (sha (k @ GUID))" using ssl by (simp add: get_bytes_def openssl_ok_def)
  have acc: "bstr (butlast ?m @ 0 # replicate (32 - length ?m) 0) = Some (butlast ?m)"
    using bstr_prefix [of "butlast ?m" "0 # replicate (32 - length ?m) 0"] nz by (auto dest: in_set_butlastD)
  have "length ?m \<le> 32" using ssl by (simp add: openssl_ok_def)
  then have small: "length (accept_response (butlast ?m)) < BUFFER_LENGTH" by (simp add: accept_response_def bytes_def crlf_def BUFFER_LENGTH_def)
  have "accept_key sha bio (?l @ replicate (1024 - length ?l) 0) c =
      Some (c\<lparr>wbuffer := accept_response (butlast ?m) @ 0 # drop (length (accept_response (butlast ?m)) + 1) (replicate BUFFER_LENGTH 0),
        wlength := int (length (accept_response (butlast ?m)))\<rparr>)"
    unfolding accept_key_def line put bind.bind_lunit key sec dig base64_value [OF ssl] acc case_prod_conv using small
    by (simp add: Let_def put_text_def)
  then show ?thesis by (simp add: pending_def)
qed

lemma strstr_prefix: "strstr needle (needle @ hay)"
  by (subst strstr.simps) simp

text \<open>The header lines before the key.\<close>

definition header_line :: "u8 list \<Rightarrow> bool" where
  "header_line l \<longleftrightarrow> l \<noteq> [] \<and> 13 \<notin> set l \<and> 0 \<notin> set l \<and> length l < 1024 \<and> \<not> strstr key_name l"

lemma handshake_loop_answers:
  assumes ssl: "openssl_ok sha bio" "0 \<notin> set (bio (sha (k @ GUID)))" and k: "0 \<notin> set k" "13 \<notin> set k" "length k \<le> 968" and rest: "0 \<in> set rest"
  shows "\<forall>l \<in> set pre. header_line l \<Longrightarrow> 0 \<notin> set p \<Longrightarrow> length pre < n \<Longrightarrow>
    rbuffer c = p @ concat (map (\<lambda>l. l @ crlf) pre) @ key_line k @ crlf @ rest \<Longrightarrow>
    \<exists>c'. handshake_loop n sha bio (length p) c = Some c' \<and> pending c' = accept_response (butlast (bio (sha (k @ GUID))))"
proof (induction pre arbitrary: p n)
  case Nil
  obtain m where n: "n = Suc m" using Nil.prems(3) by (cases n) auto
  have l: "13 \<notin> set (key_line k)" "0 \<notin> set (key_line k)" "length (key_line k) < 1024"
    using key_prefix k by (auto simp: WEBSOCK_KEY_LENGTH_def)
  have "rbuffer c = p @ key_line k @ crlf @ rest" using Nil.prems(4) by simp
  note rd = readline_reads [OF this l(1) Nil.prems(2) l(2) rest l(3)]
  have "strstr key_name (key_line k)" by (rule strstr_prefix)
  then show ?case using rd line_string [OF l(2,3)] accept_key_answers [OF ssl k(1,3), of c] by (simp add: n)
next
  case (Cons l pre)
  obtain m where n: "n = Suc m" using Cons.prems(3) by (cases n) auto
  have l: "l \<noteq> []" "13 \<notin> set l" "0 \<notin> set l" "length l < 1024" "\<not> strstr key_name l" using Cons.prems(1) by (simp_all add: header_line_def)
  let ?tail = "concat (map (\<lambda>l. l @ crlf) pre) @ key_line k @ crlf @ rest"
  have r: "rbuffer c = p @ l @ crlf @ ?tail" using Cons.prems(4) by simp
  have z: "0 \<in> set ?tail" using rest by simp
  note rd = readline_reads [OF r l(2) Cons.prems(2) l(3) z l(4)]
  have first: "\<exists>x t. ?tail = x # t \<and> x \<noteq> 13"
  proof (cases pre)
    case Nil
    then show ?thesis by (simp add: key_name_def bytes_def)
  next
    case (Cons l' ls)
    then have "header_line l'" using Cons.prems(1) by simp
    then show ?thesis using Cons by (cases l') (auto simp: header_line_def)
  qed
  have p': "rbuffer c = (p @ l @ crlf) @ ?tail" "0 \<notin> set (p @ l @ crlf)" using r Cons.prems(2) l(3) by (simp_all add: crlf_def)
  have len: "length (p @ l @ crlf) = nat (int (length p + length l) + 2)" by (simp add: crlf_def nat_add_distrib)
  obtain x t where x: "?tail = x # t" "x \<noteq> 13" using first by blast
  have next_byte: "get_byte (rbuffer c) (nat (int (length p + length l) + 2)) = Some x"
    unfolding len [symmetric] p'(1) x(1) by (simp add: get_byte_def nth_append)
  have "handshake_loop n sha bio (length p) c = handshake_loop m sha bio (length (p @ l @ crlf)) c"
    using rd line_string [OF l(3,4)] l(5) next_byte x(2) len by (simp add: n)
  moreover have "\<exists>c'. handshake_loop m sha bio (length (p @ l @ crlf)) c = Some c' \<and> pending c' = accept_response (butlast (bio (sha (k @ GUID))))"
    by (rule Cons.IH [OF _ p'(2) _ p'(1)]) (use Cons.prems(1,3) n in simp_all)
  ultimately show ?case by simp
qed

text \<open>A handshake request, header lines of any content and then a line with the key, is answered with the switch of protocols and
  the accept value for this key: the encoding, without its final line feed, of the digest of key and GUID; and
  the connection enters the frame phase.\<close>

theorem handshake_accepts:
  assumes ssl: "openssl_ok sha bio" "0 \<notin> set (bio (sha (k @ GUID)))"
    and request: "rbuffer c = concat (map (\<lambda>l. l @ crlf) pre) @ key_line k @ crlf @ rest" "\<forall>l \<in> set pre. header_line l" "0 \<in> set rest"
    and k: "0 \<notin> set k" "13 \<notin> set k" "length k \<le> 968" and c: "buffers_ok c" "status c = 0"
  shows "\<exists>c'. ws_request sha bio c = Some c' \<and> pending c' = accept_response (butlast (bio (sha (k @ GUID)))) \<and> status c' = 1"
proof -
  have "length pre \<le> length (concat (map (\<lambda>l. l @ crlf) pre))" for pre by (induction pre) (simp_all add: crlf_def)
  also have "length (concat (map (\<lambda>l. l @ crlf) pre)) < length (rbuffer c)" using request(1) by (simp add: crlf_def)
  finally have "length pre < BUFFER_LENGTH" using c(1) by (simp add: buffers_ok_def)
  from handshake_loop_answers [OF ssl k request(3,2) _ this, of "[]" c] request(1)
  show ?thesis using c(2) by (auto simp: ws_request_def handshake_def pending_def)
qed

theorem handshake_accepts_witness:
  "\<exists>c'. ws_request demo_sha demo_bio (zero_conn\<lparr>rbuffer := bytes ''GET /'' @ crlf @ key_line (bytes ''abc'') @ crlf @ replicate 993 0\<rparr>) = Some c' \<and>
     pending c' = accept_response (replicate 20 65) \<and> status c' = 1"
proof -
  let ?c = "zero_conn\<lparr>rbuffer := bytes ''GET /'' @ crlf @ key_line (bytes ''abc'') @ crlf @ replicate 993 0\<rparr>"
  have "\<not> strstr key_name (bytes ''GET /'')" using strstr_length [of key_name "bytes ''GET /''"] by (auto simp: key_name_def bytes_def)
  then have h: "header_line (bytes ''GET /'')" by (simp add: header_line_def bytes_def)
  have b: "buffers_ok ?c" by (simp add: buffers_ok_def zero_conn_def BUFFER_LENGTH_def key_name_def bytes_def crlf_def)
  have m: "butlast (demo_bio (demo_sha x)) = replicate 20 65" for x
    by (simp add: demo_bio_def demo_sha_def map_replicate_const min_def)
  have z: "0 \<notin> set (demo_bio x)" for x by (auto simp: demo_bio_def)
  have k: "0 \<notin> set (bytes ''abc'')" "13 \<notin> set (bytes ''abc'')" "length (bytes ''abc'') \<le> 968" by (simp_all add: bytes_def)
  have r: "rbuffer ?c = concat (map (\<lambda>l. l @ crlf) [bytes ''GET /'']) @ key_line (bytes ''abc'') @ crlf @ replicate 993 0" by simp
  have "\<forall>l \<in> set [bytes ''GET /'']. header_line l" "0 \<in> set (replicate 993 (0 :: u8))" "status ?c = 0" using h by (simp_all add: zero_conn_def)
  from handshake_accepts [OF demo_openssl z r this(1,2) k b this(3)] show ?thesis unfolding m .
qed

end
