(* ===== verification/P2p.thy ===== *)
theory P2p
  imports Prelude "HOL-Library.Monad_Syntax"
begin

text \<open>
  The peer-to-peer chat of \<open>2.2.1_tcp_p2p.c\<close>: an output buffer that grows (\<open>outbuf_t\<close>), and the two event loops of
  \<open>main\<close>, first for a connection by \<open>accept\<close> or \<open>connect\<close>, then for the chat.  The results of the system calls come with
  each event; \<open>sent\<close> is what the kernel has taken from the connection, \<open>typed\<close> what was read from the
  standard input.  Log output is left out.
\<close>

section \<open>The output buffer\<close>

text \<open>\<open>data\<close> is the allocated block; what is not sent yet lies between \<open>off\<close> and \<open>blen\<close>.\<close>

record outbuf =
  data :: "u8 list"
  blen :: nat
  off :: nat

definition outbuf_init :: outbuf where
  "outbuf_init = \<lparr>data = [], blen = 0, off = 0\<rparr>"

definition outbuf_free :: "outbuf \<Rightarrow> outbuf" where
  "outbuf_free b = b\<lparr>data := [], blen := 0, off := 0\<rparr>"

definition outbuf_empty :: "outbuf \<Rightarrow> bool" where
  "outbuf_empty b \<longleftrightarrow> off b \<ge> blen b"

definition outbuf_compact :: "outbuf \<Rightarrow> outbuf option" where
  "outbuf_compact b =
     (if off b = 0 then Some b
      else if off b \<ge> blen b then Some (b\<lparr>off := 0, blen := 0\<rparr>)
      else do {
        rest \<leftarrow> get_bytes (data b) (off b) (blen b - off b);
        d \<leftarrow> put_bytes (data b) 0 rest;
        Some (b\<lparr>data := d, blen := blen b - off b, off := 0\<rparr>) })"

text \<open>\<open>avail\<close> is an unsigned difference, so it is not below \<open>len\<close> when \<open>off\<close> is above.  \<open>realloc\<close> keeps the old bytes; the new ones are indeterminate until the copy (here zero).  The result
  \<open>(-1, b)\<close> is the lack of memory.\<close>

definition outbuf_append :: "bool \<Rightarrow> outbuf \<Rightarrow> u8 list \<Rightarrow> (int \<times> outbuf) option" where
  "outbuf_append mem b p =
     (if p = [] then Some (0, b)
      else do {
        b \<leftarrow> (if off b > 0 \<and> off b \<le> blen b \<and> blen b - off b < blen b then outbuf_compact b else Some b);
        let used = blen b;
        if \<not> mem then Some (-1, b)
        else do {
          let n = used + length p;
          let nd = take n (data b) @ replicate (n - length (data b)) 0;
          d \<leftarrow> put_bytes nd used p;
          Some (0, b\<lparr>data := d, blen := n\<rparr>) } })"

text \<open>What one \<open>send\<close> does: it takes some bytes, would block, is interrupted, or fails.\<close>

datatype send_result = Took nat | Again | Interrupted | Failed

text \<open>The loop ends when the answers given run out as well: \<open>None\<close> is both that and a read outside the buffer.  The result
  also holds the bytes that the kernel took.\<close>

fun outbuf_flush_fd :: "send_result list \<Rightarrow> outbuf \<Rightarrow> (int \<times> outbuf \<times> u8 list) option" where
  "outbuf_flush_fd rs b =
     (if \<not> off b < blen b then Some (0, b\<lparr>off := 0, blen := 0\<rparr>, [])
      else case rs of
        [] \<Rightarrow> None
      | Took m # rs \<Rightarrow>
          (if m = 0 then Some (-1, b, [])
           else do {
             bs \<leftarrow> get_bytes (data b) (off b) (blen b - off b);
             let m = min m (length bs);
             (r, b, taken) \<leftarrow> outbuf_flush_fd rs (b\<lparr>off := off b + m\<rparr>);
             Some (r, b, take m bs @ taken) })
      | Again # rs \<Rightarrow> Some (1, b, [])
      | Interrupted # rs \<Rightarrow> outbuf_flush_fd rs b
      | Failed # rs \<Rightarrow> Some (-1, b, []))"

declare outbuf_flush_fd.simps [simp del]

section \<open>Set-up\<close>

datatype flag = EPIN | EPOUT | EPERR | EPHUP | EPRDHUP

record p2p =
  lfd :: int
  cfd :: int
  conn_inflight :: bool
  established_fd :: int
  active_path :: int
  g_stop :: bool
  interest :: "int \<rightharpoonup> flag set"
  ob :: outbuf
  typed :: "u8 list"
  sent :: "u8 list"
  heard :: "u8 list"

definition ep_add :: "int \<Rightarrow> flag set \<Rightarrow> p2p \<Rightarrow> p2p" where
  "ep_add fd ev s = (if interest s fd = None then s\<lparr>interest := (interest s)(fd \<mapsto> ev)\<rparr> else s)"

definition ep_mod :: "int \<Rightarrow> flag set \<Rightarrow> p2p \<Rightarrow> p2p" where
  "ep_mod fd ev s = (if interest s fd \<noteq> None then s\<lparr>interest := (interest s)(fd \<mapsto> ev)\<rparr> else s)"

definition ep_del :: "int \<Rightarrow> p2p \<Rightarrow> p2p" where
  "ep_del fd s = s\<lparr>interest := (interest s)(fd := None)\<rparr>"

datatype connect_result = Connected | In_progress | Connect_failed

record setup_io =
  argc :: int
  lfd_made :: int
  local_ip_ok :: bool
  bound :: int
  listening :: int
  cfd_made :: int
  remote_ip_ok :: bool
  connect_res :: connect_result
  epfd_made :: int

definition STDIN_FILENO :: int where "STDIN_FILENO = 0"

text \<open>\<open>main\<close> up to the first loop: the exit code or the state.  The options of the sockets and the second \<open>bind\<close> are
  only logged when they fail.\<close>

definition p2p_setup :: "setup_io \<Rightarrow> int + p2p" where
  "p2p_setup r =
     (if argc r \<noteq> 5 then Inl 1
      else if lfd_made r < 0 then Inl 2
      else if \<not> local_ip_ok r then Inl 2
      else if bound r < 0 then Inl 2
      else if listening r < 0 then Inl 2
      else if cfd_made r < 0 then Inl 2
      else if \<not> remote_ip_ok r then Inl 2
      else if epfd_made r < 0 then Inl 2
      else (let inflight = (connect_res r = In_progress);
          s = \<lparr>lfd = lfd_made r, cfd = cfd_made r, conn_inflight = inflight, established_fd = -1, active_path = 0, g_stop = False,
            interest = (\<lambda>_. None), ob = outbuf_init, typed = [], sent = [], heard = []\<rparr>;
          s = ep_add (lfd s) {EPIN, EPRDHUP} s;
          s = (if inflight then ep_add (cfd s) {EPOUT, EPERR, EPHUP} s else s)
        in Inr (ep_add STDIN_FILENO {EPIN} s)))"

section \<open>The first loop\<close>

text \<open>An event: the descriptor, its flags, and what \<open>accept\<close> and \<open>getsockopt\<close> answer, \<open>None\<close> for the failure of the
  latter.\<close>

record event1 =
  fd1 :: int
  flags1 :: "flag set"
  afd :: int
  so_error :: "int option"

definition stage1_event :: "event1 \<Rightarrow> p2p \<Rightarrow> p2p" where
  "stage1_event e s =
     (let s = (if fd1 e = lfd s \<and> EPIN \<in> flags1 e \<and> afd e \<ge> 0 then s\<lparr>established_fd := afd e, active_path := 1\<rparr> else s) in
      if conn_inflight s \<and> fd1 e = cfd s \<and> flags1 e \<inter> {EPOUT, EPERR, EPHUP} \<noteq> {} then
        (case so_error e of
           None \<Rightarrow> ep_del (cfd s) (s\<lparr>conn_inflight := False\<rparr>)
         | Some err \<Rightarrow>
             if err = 0 then s\<lparr>established_fd := cfd s, cfd := -1, active_path := 2\<rparr>
             else ep_del (fd1 e) (s\<lparr>conn_inflight := False\<rparr>))
      else s)"

text \<open>What \<open>epoll_wait\<close> returns, and whether a signal has come before the loop tests \<open>g_stop\<close>.\<close>

datatype 'e wait = Wait_interrupted | Wait_failed | Ready "'e list"

fun stage1 :: "(bool \<times> event1 wait) list \<Rightarrow> p2p \<Rightarrow> p2p option" where
  "stage1 [] s = None"
| "stage1 ((signal, w) # rounds) s =
     (let s = s\<lparr>g_stop := g_stop s \<or> signal\<rparr> in
      if g_stop s \<or> established_fd s \<ge> 0 then Some s
      else case w of
        Wait_interrupted \<Rightarrow> stage1 rounds s
      | Wait_failed \<Rightarrow> Some s
      | Ready es \<Rightarrow>
          (let s = fold stage1_event es s in
           if established_fd s \<ge> 0 then Some s else stage1 rounds s))"

text \<open>After the loop: the exit code 3, or the state in which the chat starts.\<close>

definition enter_chat :: "p2p \<Rightarrow> int + p2p" where
  "enter_chat s =
     (let s = (if cfd s \<ge> 0 then ep_del (cfd s) s else s);
          s = (if lfd s \<ge> 0 then ep_del (lfd s) s else s)
      in if established_fd s < 0 then Inl 3
         else Inr ((ep_add (established_fd s) {EPIN, EPRDHUP} s)\<lparr>ob := outbuf_init\<rparr>))"

section \<open>The chat loop\<close>

datatype read_result = Bytes "u8 list" | Eof | Read_again | Read_failed

text \<open>An event of the chat: what \<open>read\<close>, \<open>recv\<close>, the calls of \<open>send\<close> and \<open>realloc\<close> answer.\<close>

record event2 =
  fd2 :: int
  flags2 :: "flag set"
  keyboard :: read_result
  peer :: read_result
  sends :: "send_result list"
  memory :: bool

text \<open>The three parts of the loop body; the flag says whether the part leaves the loop over the events.\<close>

definition on_stdin :: "event2 \<Rightarrow> p2p \<Rightarrow> (bool \<times> p2p) option" where
  "on_stdin e s =
     (if fd2 e = STDIN_FILENO \<and> EPIN \<in> flags2 e then
        (case keyboard e of
           Bytes bs \<Rightarrow> do {
             (r, b) \<leftarrow> outbuf_append (memory e) (ob s) bs;
             let s = s\<lparr>ob := b, typed := typed s @ bs\<rparr>;
             if r < 0 then Some (True, s\<lparr>g_stop := True\<rparr>)
             else Some (False, ep_mod (established_fd s)
               (if outbuf_empty (ob s) then {EPIN, EPRDHUP} else {EPIN, EPRDHUP, EPOUT}) s) }
         | Eof \<Rightarrow> Some (False, s)
         | Read_again \<Rightarrow> Some (False, s)
         | Read_failed \<Rightarrow> Some (True, s\<lparr>g_stop := True\<rparr>))
      else Some (False, s))"

definition on_peer :: "event2 \<Rightarrow> p2p \<Rightarrow> bool \<times> p2p" where
  "on_peer e s =
     (if fd2 e = established_fd s \<and> flags2 e \<inter> {EPIN, EPRDHUP, EPHUP, EPERR} \<noteq> {} then
        (if flags2 e \<inter> {EPRDHUP, EPHUP} \<noteq> {} then (True, s\<lparr>g_stop := True\<rparr>)
         else if EPIN \<in> flags2 e then
           (case peer e of
              Bytes bs \<Rightarrow> (False, s\<lparr>heard := heard s @ bs\<rparr>)
            | Eof \<Rightarrow> (True, s\<lparr>g_stop := True\<rparr>)
            | Read_again \<Rightarrow> (False, s)
            | Read_failed \<Rightarrow> (True, s\<lparr>g_stop := True\<rparr>))
         else (False, s))
      else (False, s))"

definition on_writable :: "event2 \<Rightarrow> p2p \<Rightarrow> (bool \<times> p2p) option" where
  "on_writable e s =
     (if fd2 e = established_fd s \<and> EPOUT \<in> flags2 e then do {
        (r, b, taken) \<leftarrow> outbuf_flush_fd (sends e) (ob s);
        let s = s\<lparr>ob := b, sent := sent s @ taken\<rparr>;
        if r < 0 then Some (True, s\<lparr>g_stop := True\<rparr>)
        else if r = 0 then Some (False, ep_mod (established_fd s) {EPIN, EPRDHUP} s)
        else Some (False, s) }
      else Some (False, s))"

definition stage2_event :: "event2 \<Rightarrow> p2p \<Rightarrow> (bool \<times> p2p) option" where
  "stage2_event e s = do {
     (brk, s) \<leftarrow> on_stdin e s;
     if brk then Some (True, s)
     else (case on_peer e s of (brk, s) \<Rightarrow> if brk then Some (True, s) else on_writable e s) }"

fun stage2_batch :: "event2 list \<Rightarrow> p2p \<Rightarrow> p2p option" where
  "stage2_batch [] s = Some s"
| "stage2_batch (e # es) s = do {
     (brk, s) \<leftarrow> stage2_event e s;
     if brk then Some s else stage2_batch es s }"

text \<open>One round of the loop; \<open>Inl\<close> when the loop ends.\<close>

definition stage2_round :: "bool \<times> event2 wait \<Rightarrow> p2p \<Rightarrow> (p2p + p2p) option" where
  "stage2_round r s = (case r of (signal, w) \<Rightarrow>
     (let s = s\<lparr>g_stop := g_stop s \<or> signal\<rparr> in
      if g_stop s then Some (Inl s)
      else case w of
        Wait_interrupted \<Rightarrow> Some (Inr s)
      | Wait_failed \<Rightarrow> Some (Inl s)
      | Ready es \<Rightarrow> map_option Inr (stage2_batch es s)))"

definition p2p_exit :: "p2p \<Rightarrow> p2p" where
  "p2p_exit s = ep_del STDIN_FILENO (ep_del (established_fd s) (s\<lparr>ob := outbuf_free (ob s)\<rparr>))"

inductive chat :: "p2p \<Rightarrow> p2p \<Rightarrow> bool" for s0 where
  chat_start: "chat s0 s0"
| chat_turn: "chat s0 s \<Longrightarrow> stage2_round r s = Some (Inr s') \<Longrightarrow> chat s0 s'"

section \<open>The buffer is a queue\<close>

definition wf_outbuf :: "outbuf \<Rightarrow> bool" where
  "wf_outbuf b \<longleftrightarrow> off b \<le> blen b \<and> blen b \<le> length (data b)"

definition unsent :: "outbuf \<Rightarrow> u8 list" where
  "unsent b = take (blen b - off b) (drop (off b) (data b))"

lemma unsent_length: "wf_outbuf b \<Longrightarrow> length (unsent b) = blen b - off b"
  by (auto simp: wf_outbuf_def unsent_def min_def)

lemma outbuf_empty_iff: "wf_outbuf b \<Longrightarrow> outbuf_empty b \<longleftrightarrow> unsent b = []"
  using unsent_length [of b] by (auto simp: outbuf_empty_def)

lemma init_wf [simp]: "wf_outbuf outbuf_init" "unsent outbuf_init = []"
  by (simp_all add: wf_outbuf_def outbuf_init_def unsent_def)

lemma compact_refines:
  assumes "wf_outbuf b"
  shows "\<exists>b'. outbuf_compact b = Some b' \<and> wf_outbuf b' \<and> off b' = 0 \<and> unsent b' = unsent b"
proof -
  consider "off b = 0" | "off b \<noteq> 0" "off b \<ge> blen b" | "off b \<noteq> 0" "off b < blen b" by linarith
  then show ?thesis
  proof cases
    case 3
    have "get_bytes (data b) (off b) (blen b - off b) = Some (unsent b)" using assms 3 by (simp add: get_bytes_def wf_outbuf_def unsent_def)
    moreover have "blen b - off b \<le> length (data b)" using assms unfolding wf_outbuf_def by linarith
    moreover from this have "put_bytes (data b) 0 (unsent b) = Some (unsent b @ drop (blen b - off b) (data b))"
      using unsent_length [OF assms] by (simp add: put_bytes_def)
    ultimately show ?thesis using 3 assms unsent_length [OF assms] by (simp add: outbuf_compact_def) (simp add: wf_outbuf_def unsent_def)
  qed (use assms in \<open>simp_all add: outbuf_compact_def wf_outbuf_def unsent_def\<close>)
qed

lemma append_refines:
  assumes "wf_outbuf b"
  shows "\<exists>r b'. outbuf_append mem b p = Some (r, b') \<and> wf_outbuf b' \<and>
    (if mem \<or> p = [] then r = 0 \<and> unsent b' = unsent b @ p else r = -1 \<and> unsent b' = unsent b)"
proof (cases "p = []")
  case True
  then show ?thesis using assms by (simp add: outbuf_append_def)
next
  case p: False
  obtain c where c: "(if off b > 0 \<and> off b \<le> blen b \<and> blen b - off b < blen b then outbuf_compact b else Some b) = Some c" "wf_outbuf c"
    "unsent c = unsent b"
    using compact_refines [OF assms] assms by (cases "off b > 0 \<and> off b \<le> blen b \<and> blen b - off b < blen b") auto
  show ?thesis
  proof (cases mem)
    case True
    let ?n = "blen c + length p"
    let ?nd = "take ?n (data c) @ replicate (?n - length (data c)) 0"
    have put: "put_bytes ?nd (blen c) p = Some (take (blen c) (data c) @ p)" using c(2) by (simp add: put_bytes_def wf_outbuf_def min_def)
    have "drop (off c) (take (blen c) (data c) @ p) = unsent c @ p" using c(2) by (simp add: unsent_def wf_outbuf_def drop_take)
    then have "unsent (c\<lparr>data := take (blen c) (data c) @ p, blen := ?n\<rparr>) = unsent c @ p"
      using c(2) unsent_length [OF c(2)] by (simp add: unsent_def [of "c\<lparr>data := _, blen := _\<rparr>"] wf_outbuf_def)
    moreover have "wf_outbuf (c\<lparr>data := take (blen c) (data c) @ p, blen := ?n\<rparr>)" using c(2) by (simp add: wf_outbuf_def)
    ultimately show ?thesis using p True c put by (simp add: outbuf_append_def Let_def)
  next
    case False
    then show ?thesis using p c by (simp add: outbuf_append_def Let_def)
  qed
qed

lemma flush_simps:
  "\<not> off b < blen b \<Longrightarrow> outbuf_flush_fd rs b = Some (0, b\<lparr>off := 0, blen := 0\<rparr>, [])"
  "off b < blen b \<Longrightarrow> outbuf_flush_fd [] b = None"
  "off b < blen b \<Longrightarrow> outbuf_flush_fd (Again # rs) b = Some (1, b, [])"
  "off b < blen b \<Longrightarrow> outbuf_flush_fd (Failed # rs) b = Some (-1, b, [])"
  "off b < blen b \<Longrightarrow> outbuf_flush_fd (Interrupted # rs) b = outbuf_flush_fd rs b"
  by (subst outbuf_flush_fd.simps, simp)+

lemma flush_took:
  assumes "wf_outbuf b" "off b < blen b"
  shows "outbuf_flush_fd (Took m # rs) b = (if m = 0 then Some (-1, b, [])
    else map_option (\<lambda>(r, b', t). (r, b', take m (unsent b) @ t)) (outbuf_flush_fd rs (b\<lparr>off := off b + min m (length (unsent b))\<rparr>)))"
proof -
  have g: "get_bytes (data b) (off b) (blen b - off b) = Some (unsent b)" using assms by (simp add: get_bytes_def wf_outbuf_def unsent_def)
  have t: "take (min m (length (unsent b))) (unsent b) = take m (unsent b)" by (simp add: min_def)
  show ?thesis using assms(2) g t
    by (cases "outbuf_flush_fd rs (b\<lparr>off := off b + min m (length (unsent b))\<rparr>)")
      (auto simp: outbuf_flush_fd.simps [of "Took m # rs"] Let_def)
qed

lemma took_wf:
  assumes "wf_outbuf b" "off b < blen b"
  shows "wf_outbuf (b\<lparr>off := off b + min m (length (unsent b))\<rparr>)" "unsent (b\<lparr>off := off b + min m (length (unsent b))\<rparr>) = drop m (unsent b)"
proof -
  have l: "length (unsent b) = blen b - off b" using assms(1) by (rule unsent_length)
  then show "wf_outbuf (b\<lparr>off := off b + min m (length (unsent b))\<rparr>)" using assms by (simp add: wf_outbuf_def)
  have "unsent (b\<lparr>off := off b + min m (length (unsent b))\<rparr>) = drop (min m (length (unsent b))) (unsent b)"
    using l by (simp add: unsent_def drop_take add.commute)
  then show "unsent (b\<lparr>off := off b + min m (length (unsent b))\<rparr>) = drop m (unsent b)" by (simp add: min_def)
qed

lemma flush_refines:
  "wf_outbuf b \<Longrightarrow> outbuf_flush_fd rs b = Some (r, b', taken) \<Longrightarrow>
     wf_outbuf b' \<and> taken @ unsent b' = unsent b \<and> (r = 0 \<longrightarrow> unsent b' = []) \<and> r \<in> {0, 1, -1}"
proof (induction rs arbitrary: b r b' taken)
  case Nil
  then show ?case by (cases "off b < blen b") (auto simp: flush_simps wf_outbuf_def unsent_def)
next
  case (Cons a rs)
  show ?case
  proof (cases "off b < blen b")
    case False
    then show ?thesis using Cons.prems by (auto simp: flush_simps wf_outbuf_def unsent_def)
  next
    case more: True
    show ?thesis
    proof (cases a)
      case (Took m)
      show ?thesis
      proof (cases "m = 0")
        case True
        then show ?thesis using Cons.prems Took more by (auto simp: flush_took)
      next
        case False
        obtain t where t: "outbuf_flush_fd rs (b\<lparr>off := off b + min m (length (unsent b))\<rparr>) = Some (r, b', t)" "taken = take m (unsent b) @ t"
          using Cons.prems Took more False by (auto simp: flush_took)
        from Cons.IH [OF took_wf(1) [OF Cons.prems(1) more] t(1)] took_wf(2) [OF Cons.prems(1) more, of m] t(2)
        show ?thesis by simp
      qed
    next
      case Interrupted
      then show ?thesis using Cons more by (simp add: flush_simps)
    qed (use Cons.prems more in \<open>auto simp: flush_simps\<close>)
  qed
qed

lemma flush_returns: "wf_outbuf b \<Longrightarrow> outbuf_flush_fd (rs @ [Again]) b \<noteq> None"
proof (induction rs arbitrary: b)
  case Nil
  then show ?case by (cases "off b < blen b") (simp_all add: flush_simps)
next
  case (Cons a rs)
  show ?case
  proof (cases "off b < blen b")
    case False
    then show ?thesis by (simp add: flush_simps)
  next
    case more: True
    show ?thesis using Cons.IH [OF took_wf(1) [OF Cons.prems more]] Cons.IH [OF Cons.prems] more Cons.prems
      by (cases a) (simp_all add: flush_simps flush_took)
  qed
qed

section \<open>The chat\<close>

definition flows :: "p2p \<Rightarrow> bool" where
  "flows s \<longleftrightarrow> wf_outbuf (ob s) \<and> typed s = sent s @ unsent (ob s) \<and>
     (\<exists>ev. interest s (established_fd s) = Some ev \<and> (unsent (ob s) \<noteq> [] \<longrightarrow> EPOUT \<in> ev))"

text \<open>What is left of it once the loop has been told to stop.\<close>

definition chat_inv :: "p2p \<Rightarrow> bool" where
  "chat_inv s \<longleftrightarrow> flows s \<or> g_stop s \<and> wf_outbuf (ob s) \<and> (\<exists>rest. typed s = sent s @ unsent (ob s) @ rest)"

lemma on_stdin_flows:
  assumes s: "flows s"
  shows "\<exists>brk s'. on_stdin e s = Some (brk, s') \<and> (if brk then chat_inv s' \<and> g_stop s' else flows s' \<and> established_fd s' = established_fd s)"
proof (cases "fd2 e = STDIN_FILENO \<and> EPIN \<in> flags2 e")
  case False
  then have "on_stdin e s = Some (False, s)" by (simp only: on_stdin_def if_False)
  then show ?thesis using s by (intro exI [of _ False] exI [of _ s]) simp
next
  case stdin: True
  have wf: "wf_outbuf (ob s)" and t: "typed s = sent s @ unsent (ob s)" using s by (simp_all add: flows_def)
  obtain ev where ev: "interest s (established_fd s) = Some ev" "unsent (ob s) \<noteq> [] \<longrightarrow> EPOUT \<in> ev" using s by (auto simp: flows_def)
  show ?thesis
  proof (cases "keyboard e")
    case (Bytes bs)
    obtain r b where b: "outbuf_append (memory e) (ob s) bs = Some (r, b)" "wf_outbuf b"
      and u: "if memory e \<or> bs = [] then r = 0 \<and> unsent b = unsent (ob s) @ bs else r = -1 \<and> unsent b = unsent (ob s)"
      using append_refines [OF wf, of "memory e" bs] by blast
    show ?thesis
    proof (cases "memory e \<or> bs = []")
      case True
      let ?ev = "if outbuf_empty b then {EPIN, EPRDHUP} else {EPIN, EPRDHUP, EPOUT}"
      let ?s = "ep_mod (established_fd s) ?ev (s\<lparr>ob := b, typed := typed s @ bs\<rparr>)"
      have "on_stdin e s = Some (False, ?s)" using stdin Bytes True b u by (simp add: on_stdin_def Let_def)
      moreover have "flows ?s" using True b(2) u t ev(1) by (simp add: ep_mod_def flows_def outbuf_empty_iff)
      moreover have "established_fd ?s = established_fd s" by (simp add: ep_mod_def)
      ultimately show ?thesis by (intro exI [of _ False] exI [of _ ?s]) simp
    next
      case False
      let ?s = "s\<lparr>ob := b, typed := typed s @ bs, g_stop := True\<rparr>"
      have "on_stdin e s = Some (True, ?s)" using stdin Bytes False b u by (simp add: on_stdin_def Let_def)
      moreover have "chat_inv ?s" using False b(2) u t by (simp add: chat_inv_def)
      ultimately show ?thesis by (intro exI [of _ True] exI [of _ ?s]) simp
    qed
  next
    case Read_failed
    have "on_stdin e s = Some (True, s\<lparr>g_stop := True\<rparr>)" using stdin Read_failed by (simp add: on_stdin_def)
    moreover have "chat_inv (s\<lparr>g_stop := True\<rparr>)" using wf t by (simp add: chat_inv_def)
    ultimately show ?thesis by (intro exI [of _ True] exI [of _ "s\<lparr>g_stop := True\<rparr>"]) simp
  next
    case Eof
    have "on_stdin e s = Some (False, s)" using stdin Eof by (simp add: on_stdin_def)
    then show ?thesis using s by (intro exI [of _ False] exI [of _ s]) simp
  next
    case Read_again
    have "on_stdin e s = Some (False, s)" using stdin Read_again by (simp add: on_stdin_def)
    then show ?thesis using s by (intro exI [of _ False] exI [of _ s]) simp
  qed
qed

lemma flows_cong:
  "flows s \<Longrightarrow> typed s' = typed s \<Longrightarrow> sent s' = sent s \<Longrightarrow> ob s' = ob s \<Longrightarrow> interest s' = interest s \<Longrightarrow> established_fd s' = established_fd s \<Longrightarrow> flows s'"
  by (simp add: flows_def)

lemma on_peer_flows:
  assumes "flows s" "on_peer e s = (brk, s')"
  shows "flows s' \<and> (brk \<longrightarrow> g_stop s') \<and> established_fd s' = established_fd s"
proof -
  have "typed s' = typed s" "sent s' = sent s" "ob s' = ob s" "interest s' = interest s" "established_fd s' = established_fd s" "brk \<longrightarrow> g_stop s'"
    using assms(2) by (auto simp: on_peer_def split: if_splits read_result.splits)
  then show ?thesis using flows_cong [OF assms(1)] by blast
qed

lemma on_writable_flows:
  assumes s: "flows s" and w: "on_writable e s = Some (brk, s')"
  shows "if brk then chat_inv s' \<and> g_stop s' else flows s' \<and> established_fd s' = established_fd s"
proof (cases "fd2 e = established_fd s \<and> EPOUT \<in> flags2 e")
  case False
  then have "on_writable e s = Some (False, s)" by (auto simp: on_writable_def)
  then show ?thesis using w s by simp
next
  case True
  have wf: "wf_outbuf (ob s)" and t: "typed s = sent s @ unsent (ob s)" using s by (simp_all add: flows_def)
  obtain ev where ev: "interest s (established_fd s) = Some ev" "unsent (ob s) \<noteq> [] \<longrightarrow> EPOUT \<in> ev" using s by (auto simp: flows_def)
  obtain r b tk where f: "outbuf_flush_fd (sends e) (ob s) = Some (r, b, tk)"
    using True w by (cases "outbuf_flush_fd (sends e) (ob s)") (auto simp: on_writable_def)
  have fr: "wf_outbuf b" "tk @ unsent b = unsent (ob s)" "r = 0 \<longrightarrow> unsent b = []" "r \<in> {0, 1, -1}" using flush_refines [OF wf f] by simp_all
  have t': "typed s = (sent s @ tk) @ unsent b" using t fr(2) by simp
  have u: "unsent b \<noteq> [] \<longrightarrow> EPOUT \<in> ev" using ev(2) fr(2) by auto
  consider "r = 0" | "r = 1" | "r = -1" using fr(4) by auto
  then show ?thesis
  proof cases
    case 1
    then have s': "s' = ep_mod (established_fd s) {EPIN, EPRDHUP} (s\<lparr>ob := b, sent := sent s @ tk\<rparr>)" "\<not> brk"
      using w True f by (simp_all add: on_writable_def Let_def)
    show ?thesis using s' fr(1,3) t' 1 ev by (simp add: flows_def ep_mod_def)
  next
    case 2
    then have s': "s' = s\<lparr>ob := b, sent := sent s @ tk\<rparr>" "\<not> brk" using w True f by (simp_all add: on_writable_def Let_def)
    show ?thesis using s' fr(1) t' u ev(1) by (simp add: flows_def)
  next
    case 3
    then have s': "s' = s\<lparr>ob := b, sent := sent s @ tk, g_stop := True\<rparr>" "brk" using w True f by (simp_all add: on_writable_def Let_def)
    show ?thesis using s' fr(1) t' by (simp add: chat_inv_def)
  qed
qed

lemma stage2_event_flows:
  assumes "flows s" "stage2_event e s = Some (brk, s')"
  shows "if brk then chat_inv s' \<and> g_stop s' else flows s' \<and> established_fd s' = established_fd s"
proof -
  obtain b1 s1 where 1: "on_stdin e s = Some (b1, s1)" "if b1 then chat_inv s1 \<and> g_stop s1 else flows s1 \<and> established_fd s1 = established_fd s"
    using on_stdin_flows [OF assms(1)] by blast
  show ?thesis
  proof (cases b1)
    case True
    then show ?thesis using 1 assms(2) by (simp add: stage2_event_def)
  next
    case False
    obtain b2 s2 where 2: "on_peer e s1 = (b2, s2)" by (cases "on_peer e s1")
    have s1: "flows s1" using 1 False by simp
    note p = on_peer_flows [OF s1 2]
    show ?thesis
    proof (cases b2)
      case True
      then show ?thesis using 1 2 p False assms(2) by (simp add: stage2_event_def chat_inv_def)
    next
      case False
      have fl: "flows s2" using p by simp
      have "on_writable e s2 = Some (brk, s')" using 1(1) 2 False \<open>\<not> b1\<close> assms(2) by (simp add: stage2_event_def)
      from on_writable_flows [OF fl this] show ?thesis using p 1(2) \<open>\<not> b1\<close> by simp
    qed
  qed
qed

lemma stage2_batch_inv: "flows s \<Longrightarrow> stage2_batch es s = Some s' \<Longrightarrow> chat_inv s'"
proof (induction es arbitrary: s)
  case Nil
  then show ?case by (simp add: chat_inv_def)
next
  case (Cons e es)
  obtain brk s1 where e: "stage2_event e s = Some (brk, s1)"
    using Cons.prems(2) by (cases "stage2_event e s") auto
  note f = stage2_event_flows [OF Cons.prems(1) e]
  show ?case
  proof (cases brk)
    case True
    then show ?thesis using f e Cons.prems(2) by simp
  next
    case False
    then show ?thesis using f e Cons.prems(2) Cons.IH [of s1] by simp
  qed
qed

lemma stage2_round_inv:
  assumes "chat_inv s" "stage2_round r s = Some (Inr s')"
  shows "chat_inv s'"
proof -
  obtain signal w where r: "r = (signal, w)" by (cases r)
  have run: "\<not> (g_stop s \<or> signal)" using assms(2) r by (auto simp: stage2_round_def Let_def)
  then have s: "flows s" using assms(1) by (simp add: chat_inv_def)
  have same: "s\<lparr>g_stop := g_stop s \<or> signal\<rparr> = s" and stop: "\<not> g_stop s" using run by simp_all
  note step = assms(2) [unfolded r stage2_round_def case_prod_conv Let_def same if_not_P [OF stop]]
  show ?thesis
  proof (cases w)
    case (Ready es)
    then have "stage2_batch es s = Some s'" using step by auto
    then show ?thesis by (rule stage2_batch_inv [OF s])
  qed (use step s in \<open>simp_all add: chat_inv_def\<close>)
qed

lemma chat_keeps: "chat s0 s \<Longrightarrow> chat_inv s0 \<Longrightarrow> chat_inv s"
proof (induction rule: chat.induct)
  case (chat_turn s r s')
  then show ?case using stage2_round_inv by blast
qed simp

lemma stage1_event_quiet: "typed (stage1_event e s) = typed s \<and> sent (stage1_event e s) = sent s"
  by (simp add: stage1_event_def Let_def ep_del_def split: option.split)

lemma stage1_fold_quiet: "typed (fold stage1_event es s) = typed s \<and> sent (fold stage1_event es s) = sent s"
  by (induction es arbitrary: s) (simp_all add: stage1_event_quiet)

lemma stage1_quiet: "stage1 rounds s = Some s' \<Longrightarrow> typed s' = typed s \<and> sent s' = sent s"
proof (induction rounds s rule: stage1.induct)
  case (2 signal w rounds s)
  let ?s = "s\<lparr>g_stop := g_stop s \<or> signal\<rparr>"
  show ?case
  proof (cases "g_stop ?s \<or> established_fd ?s \<ge> 0")
    case True
    then have "s' = ?s" using "2.prems" by (simp add: Let_def)
    then show ?thesis by simp
  next
    case run: False
    show ?thesis
    proof (cases w)
      case Wait_interrupted
      then show ?thesis using "2.IH"(1) [OF refl] "2.prems" run by simp
    next
      case Wait_failed
      then have "s' = ?s" using "2.prems" run by (simp add: Let_def)
      then show ?thesis by simp
    next
      case (Ready es)
      note q = stage1_fold_quiet [of es ?s]
      show ?thesis
      proof (cases "established_fd (fold stage1_event es ?s) \<ge> 0")
        case True
        then have "s' = fold stage1_event es ?s" using "2.prems" run Ready by (simp add: Let_def)
        then show ?thesis using q by simp
      next
        case False
        then have "stage1 rounds (fold stage1_event es ?s) = Some s'" using "2.prems" run Ready by (simp add: Let_def)
        then show ?thesis using "2.IH"(2) [OF refl _ Ready refl] run False q by simp
      qed
    qed
  qed
qed simp

lemma ep_add_quiet [simp]: "typed (ep_add fd ev s) = typed s" "sent (ep_add fd ev s) = sent s" "ob (ep_add fd ev s) = ob s"
    "established_fd (ep_add fd ev s) = established_fd s" "interest (ep_add fd ev s) fd \<noteq> None"
    "active_path (ep_add fd ev s) = active_path s" "cfd (ep_add fd ev s) = cfd s" "lfd (ep_add fd ev s) = lfd s"
    "conn_inflight (ep_add fd ev s) = conn_inflight s"
  by (simp_all add: ep_add_def)

lemma ep_del_quiet [simp]: "typed (ep_del fd s) = typed s" "sent (ep_del fd s) = sent s" "established_fd (ep_del fd s) = established_fd s"
    "active_path (ep_del fd s) = active_path s" "cfd (ep_del fd s) = cfd s" "lfd (ep_del fd s) = lfd s"
    "conn_inflight (ep_del fd s) = conn_inflight s"
  by (simp_all add: ep_del_def)

lemma setup_quiet:
  assumes "p2p_setup r = Inr p"
  shows "typed p = [] \<and> sent p = [] \<and> established_fd p = -1 \<and> active_path p = 0 \<and> lfd p = lfd_made r \<and> cfd p = cfd_made r \<and>
    conn_inflight p = (connect_res r = In_progress)"
  using assms by (cases "connect_res r = In_progress") (auto simp: p2p_setup_def Let_def split: if_splits)

lemma enter_flows:
  assumes "enter_chat s = Inr s0" "typed s = []" "sent s = []"
  shows "flows s0"
proof -
  have add: "flows ((ep_add fd {EPIN, EPRDHUP} x)\<lparr>ob := outbuf_init\<rparr>)" if "fd = established_fd x" "typed x = []" "sent x = []" for fd x
    using that by (cases "interest (ep_add fd {EPIN, EPRDHUP} x) fd") (simp_all add: flows_def)
  show ?thesis using assms
    by (cases "cfd s \<ge> 0"; cases "lfd s \<ge> 0") (auto simp: enter_chat_def Let_def add split: if_splits)
qed

section \<open>Properties\<close>

lemma fold_no_inflight: "\<not> conn_inflight s \<Longrightarrow> active_path s \<noteq> 2 \<Longrightarrow>
    \<not> conn_inflight (fold stage1_event es s) \<and> active_path (fold stage1_event es s) \<noteq> 2"
  by (induction es arbitrary: s) (simp_all add: stage1_event_def Let_def)

lemma stage1_no_inflight: "stage1 rounds s = Some s' \<Longrightarrow> \<not> conn_inflight s \<Longrightarrow> active_path s \<noteq> 2 \<Longrightarrow> active_path s' \<noteq> 2"
proof (induction rounds s rule: stage1.induct)
  case (2 signal w rounds s)
  let ?s = "s\<lparr>g_stop := g_stop s \<or> signal\<rparr>"
  show ?case
  proof (cases "g_stop ?s \<or> established_fd ?s \<ge> 0")
    case True
    then have "s' = ?s" using "2.prems" by (simp add: Let_def)
    then show ?thesis using "2.prems" by simp
  next
    case run: False
    show ?thesis
    proof (cases w)
      case Wait_interrupted
      then show ?thesis using "2.IH"(1) [OF refl] "2.prems" run by simp
    next
      case Wait_failed
      then have "s' = ?s" using "2.prems" run by (simp add: Let_def)
      then show ?thesis using "2.prems" by simp
    next
      case (Ready es)
      have q: "\<not> conn_inflight (fold stage1_event es ?s)" "active_path (fold stage1_event es ?s) \<noteq> 2"
        using fold_no_inflight [of ?s es] "2.prems" by simp_all
      show ?thesis
      proof (cases "established_fd (fold stage1_event es ?s) \<ge> 0")
        case True
        then have "s' = fold stage1_event es ?s" using "2.prems" run Ready by (simp add: Let_def)
        then show ?thesis using q by simp
      next
        case False
        then have "stage1 rounds (fold stage1_event es ?s) = Some s'" using "2.prems" run Ready by (simp add: Let_def)
        then show ?thesis using "2.IH"(2) [OF refl _ Ready refl] run False q by simp
      qed
    qed
  qed
qed simp

text \<open>C35: through the whole chat, what the keyboard gave is, in order and with nothing lost or twice, what the kernel took for the peer
  followed by what waits in the output buffer, and by more only when the program has been told to stop; while bytes wait and it has not been,
  the loop listens for the connection to become writable.\<close>

theorem chat_stream:
  assumes "p2p_setup r = Inr p" "stage1 rounds p = Some s1" "enter_chat s1 = Inr s0" "chat s0 s"
  shows "\<exists>rest. typed s = sent s @ unsent (ob s) @ rest \<and> (rest \<noteq> [] \<longrightarrow> g_stop s) \<and>
    (unsent (ob s) \<noteq> [] \<and> \<not> g_stop s \<longrightarrow> (\<exists>ev. interest s (established_fd s) = Some ev \<and> EPOUT \<in> ev))"
proof -
  have "typed s1 = [] \<and> sent s1 = []" using setup_quiet [OF assms(1)] stage1_quiet [OF assms(2)] by simp
  then have "flows s0" using enter_flows [OF assms(3)] by blast
  then have "chat_inv s" using chat_keeps [OF assms(4)] by (simp add: chat_inv_def)
  then show ?thesis
  proof (unfold chat_inv_def, elim disjE conjE exE)
    assume "flows s"
    then show ?thesis by (intro exI [of _ "[]"]) (auto simp: flows_def)
  next
    fix rest
    assume "g_stop s" "typed s = sent s @ unsent (ob s) @ rest"
    then show ?thesis by (intro exI [of _ rest]) simp
  qed
qed

definition demo_io :: setup_io where
  "demo_io = \<lparr>argc = 5, lfd_made = 3, local_ip_ok = True, bound = 0, listening = 0, cfd_made = 4, remote_ip_ok = True,
     connect_res = In_progress, epfd_made = 5\<rparr>"

definition demo_made :: p2p where
  "demo_made = projr (p2p_setup demo_io)"

definition demo_accept :: "(bool \<times> event1 wait) list" where
  "demo_accept = [(False, Wait_interrupted), (False, Ready [\<lparr>fd1 = 3, flags1 = {EPIN}, afd = 6, so_error = None\<rparr>])]"

definition demo_first :: p2p where
  "demo_first = the (stage1 demo_accept demo_made)"

definition demo_chat :: p2p where
  "demo_chat = projr (enter_chat demo_first)"

definition demo_key :: event2 where
  "demo_key = \<lparr>fd2 = 0, flags2 = {EPIN}, keyboard = Bytes [1, 2, 3], peer = Eof, sends = [], memory = True\<rparr>"

definition demo_out :: event2 where
  "demo_out = \<lparr>fd2 = 6, flags2 = {EPOUT}, keyboard = Eof, peer = Eof, sends = [Interrupted, Took 2, Again], memory = True\<rparr>"

definition demo_end :: p2p where
  "demo_end = projr (the (stage2_round (False, Ready [demo_key, demo_out]) demo_chat))"

lemma demo_runs: "p2p_setup demo_io = Inr demo_made" "stage1 demo_accept demo_made = Some demo_first"
    "enter_chat demo_first = Inr demo_chat" "stage2_round (False, Ready [demo_key, demo_out]) demo_chat = Some (Inr demo_end)"
    "sent demo_end = [1, 2]" "unsent (ob demo_end) = [3]" "g_stop demo_end = False"
proof -
  have 1: "\<not> isl (p2p_setup demo_io)" by code_simp
  then show "p2p_setup demo_io = Inr demo_made" unfolding demo_made_def by (simp add: sum.collapse)
  have 2: "\<not> Option.is_none (stage1 demo_accept demo_made)" by code_simp
  then show "stage1 demo_accept demo_made = Some demo_first" unfolding demo_first_def by (simp add: Option.is_none_def)
  have 3: "\<not> isl (enter_chat demo_first)" by code_simp
  then show "enter_chat demo_first = Inr demo_chat" unfolding demo_chat_def by (simp add: sum.collapse)
  have 4: "case stage2_round (False, Ready [demo_key, demo_out]) demo_chat of Some (Inr s) \<Rightarrow> True | _ \<Rightarrow> False" by code_simp
  then show "stage2_round (False, Ready [demo_key, demo_out]) demo_chat = Some (Inr demo_end)"
    unfolding demo_end_def by (simp split: option.splits sum.splits)
  show "sent demo_end = [1, 2]" by code_simp
  show "unsent (ob demo_end) = [3]" by code_simp
  show "g_stop demo_end = False" by code_simp
qed

theorem chat_stream_witness: "typed demo_end = sent demo_end @ unsent (ob demo_end)"
proof -
  have "chat demo_chat demo_end" using chat_turn [OF chat_start demo_runs(4)] .
  from chat_stream [OF demo_runs(1-3) this] obtain rest where
    "typed demo_end = sent demo_end @ unsent (ob demo_end) @ rest" "rest \<noteq> [] \<longrightarrow> g_stop demo_end" by blast
  then show ?thesis using demo_runs(7) by (cases rest) simp_all
qed

text \<open>a connection that \<open>connect\<close> completes at once is never used: whatever the first loop then waits for and gets, the
  connection that the chat runs on is not that one, and nothing is registered that would tell of it.\<close>

theorem connect_ignored:
  assumes "p2p_setup r = Inr p" "connect_res r = Connected" "stage1 rounds p = Some s"
  shows "active_path s \<noteq> 2 \<and> EPOUT \<notin> (case interest p (cfd_made r) of None \<Rightarrow> {} | Some ev \<Rightarrow> ev)"
proof -
  have "\<not> conn_inflight p" "active_path p \<noteq> 2" using setup_quiet [OF assms(1)] assms(2) by simp_all
  moreover have "EPOUT \<notin> (case interest p (cfd_made r) of None \<Rightarrow> {} | Some ev \<Rightarrow> ev)"
    using assms(1,2) by (auto simp: p2p_setup_def Let_def ep_add_def split: if_splits)
  ultimately show ?thesis using stage1_no_inflight [OF assms(3)] by blast
qed

definition lucky_io :: setup_io where
  "lucky_io = demo_io\<lparr>connect_res := Connected\<rparr>"

definition lucky_made :: p2p where
  "lucky_made = projr (p2p_setup lucky_io)"

definition lucky_first :: p2p where
  "lucky_first = the (stage1 demo_accept lucky_made)"

lemma lucky_runs: "p2p_setup lucky_io = Inr lucky_made" "stage1 demo_accept lucky_made = Some lucky_first" "connect_res lucky_io = Connected"
proof -
  have 1: "\<not> isl (p2p_setup lucky_io)" by code_simp
  then show "p2p_setup lucky_io = Inr lucky_made" unfolding lucky_made_def by (simp add: sum.collapse)
  have 2: "\<not> Option.is_none (stage1 demo_accept lucky_made)" by code_simp
  then show "stage1 demo_accept lucky_made = Some lucky_first" unfolding lucky_first_def by (simp add: Option.is_none_def)
  show "connect_res lucky_io = Connected" by (simp add: lucky_io_def)
qed

theorem connect_ignored_witness: "active_path lucky_first \<noteq> 2 \<and> connect_res lucky_io = Connected"
  using connect_ignored [OF lucky_runs(1,3,2)] lucky_runs(3) by blast

text \<open>the output buffer is a byte queue: appending puts the bytes at its end, or leaves it when there is no memory; a flush takes bytes from
  its front, answers 0 only when nothing is left, and returns whenever the kernel finally says that it would block; no access leaves the
  allocated block.\<close>

theorem outbuf_queue:
  assumes "wf_outbuf b"
  shows "(\<exists>r b'. outbuf_append mem b p = Some (r, b') \<and> wf_outbuf b' \<and>
      (if mem \<or> p = [] then r = 0 \<and> unsent b' = unsent b @ p else r = -1 \<and> unsent b' = unsent b)) \<and>
    (\<exists>r b' taken. outbuf_flush_fd (rs @ [Again]) b = Some (r, b', taken) \<and> wf_outbuf b' \<and> taken @ unsent b' = unsent b \<and>
      (r = 0 \<longrightarrow> unsent b' = []))"
proof
  obtain r b' taken where f: "outbuf_flush_fd (rs @ [Again]) b = Some (r, b', taken)"
    using flush_returns [OF assms, of rs] by auto
  then show "\<exists>r b' taken. outbuf_flush_fd (rs @ [Again]) b = Some (r, b', taken) \<and> wf_outbuf b' \<and> taken @ unsent b' = unsent b \<and>
      (r = 0 \<longrightarrow> unsent b' = [])" using flush_refines [OF assms f] by blast
qed (rule append_refines [OF assms])

theorem outbuf_queue_witness: "\<exists>r b'. outbuf_append True outbuf_init [7] = Some (r, b') \<and> unsent b' = [7]"
  using outbuf_queue [of outbuf_init True "[7]" "[]"] by auto

end
