(* ===== verification/Counters.thy ===== *)
theory Counters
  imports Prelude
begin

text \<open>
  The four counting programs \<open>MutexLock.c\<close>, \<open>SpinLock.c\<close>, \<open>Atomic.c\<close> and \<open>CAS.c\<close>: ten threads that add one to
  a shared \<open>int\<close>, under a mutex, under a spin lock, with \<open>lock xadd\<close> and with \<open>lock cmpxchg\<close>.  A step is one access to
  shared memory or one call of a lock, by any thread that has been created; \<open>main\<close> creates the threads one by one.
  The lock and unlock calls are atomic and the memory is sequentially consistent; the progress prints, \<open>usleep\<close> and the end of
  \<open>main\<close>, which ends all threads, are left out.
\<close>

section \<open>Counting: the contract\<close>

definition PTHREADCOUNT :: nat where "PTHREADCOUNT = 10"

lemma sum_upd:
  fixes f g :: "nat \<Rightarrow> nat"
  assumes "t < n" "f t = g t + d" "\<And>i. i \<noteq> t \<Longrightarrow> f i = g i"
  shows "(\<Sum>i<n. f i) = (\<Sum>i<n. g i) + d"
proof -
  have fin: "finite {..<n}" "t \<in> {..<n}" using assms(1) by simp_all
  have "(\<Sum>i<n. f i) = f t + (\<Sum>i\<in>{..<n} - {t}. f i)" by (rule sum.remove [OF fin])
  also have "(\<Sum>i\<in>{..<n} - {t}. f i) = (\<Sum>i\<in>{..<n} - {t}. g i)" using assms(3) by (intro sum.cong) auto
  also have "f t + \<dots> = d + (g t + \<dots>)" using assms(2) by simp
  also have "g t + (\<Sum>i\<in>{..<n} - {t}. g i) = (\<Sum>i<n. g i)" by (rule sum.remove [OF fin, symmetric])
  finally show ?thesis by simp
qed

text \<open>
  What each of the programs has to provide: a step changes the shared cell only by adding one on behalf of one thread that has
  additions left (\<open>made\<close> counts them).
\<close>

locale counting =
  fixes inv :: "'s \<Rightarrow> bool" and step :: "'s \<Rightarrow> 's \<Rightarrow> bool" and start :: 's and cell :: "'s \<Rightarrow> u32"
    and made :: "'s \<Rightarrow> nat \<Rightarrow> nat" and limit :: nat
  assumes start: "inv start" "cell start = 0" "made start t = 0"
    and inv_step: "inv s \<Longrightarrow> step s s' \<Longrightarrow> inv s'"
    and adds: "inv s \<Longrightarrow> step s s' \<Longrightarrow> cell s' = cell s \<and> made s' = made s \<or>
      (\<exists>t<PTHREADCOUNT. made s t < limit \<and> cell s' = cell s + 1 \<and> made s' = (made s)(t := made s t + 1))"
    and small: "PTHREADCOUNT * limit < 2 ^ 31"
begin

lemma counting_run: "step\<^sup>*\<^sup>* start s \<Longrightarrow> inv s"
  by (induction rule: rtranclp_induct) (auto intro: inv_step simp: start(1))

lemma cell_sum: "step\<^sup>*\<^sup>* start s \<Longrightarrow> cell s = of_nat (\<Sum>t<PTHREADCOUNT. made s t) \<and> (\<forall>t. made s t \<le> limit)"
proof (induction rule: rtranclp_induct)
  case base
  then show ?case by (simp add: start)
next
  case (step s s')
  from adds [OF counting_run [OF step.hyps(1)] step.hyps(2)] show ?case
  proof (elim disjE exE conjE)
    fix t
    assume t: "t < PTHREADCOUNT" "made s t < limit" "cell s' = cell s + 1" "made s' = (made s)(t := made s t + 1)"
    have "(\<Sum>i<PTHREADCOUNT. made s' i) = (\<Sum>i<PTHREADCOUNT. made s i) + 1"
      using sum_upd [OF t(1), of "made s'" "made s" 1] t(4) by simp
    then show ?thesis using step.IH t by simp
  qed (use step.IH in simp)
qed

lemma sum_small: "(\<forall>t. made s t \<le> limit) \<Longrightarrow> (\<Sum>t<PTHREADCOUNT. made s t) \<le> PTHREADCOUNT * limit"
  using sum_bounded_above [of "{..<PTHREADCOUNT}" "made s" limit] by simp

text \<open>The value of the cell, as the \<open>int\<close> that \<open>main\<close> prints, is the number of additions made.\<close>

lemma counted: "step\<^sup>*\<^sup>* start s \<Longrightarrow> i32 (cell s) = int (\<Sum>t<PTHREADCOUNT. made s t) \<and> i32 (cell s) \<le> int (PTHREADCOUNT * limit)"
proof -
  assume "step\<^sup>*\<^sup>* start s"
  note c = cell_sum [OF this]
  define n where "n = (\<Sum>t<PTHREADCOUNT. made s t)"
  have le: "n \<le> PTHREADCOUNT * limit" using c sum_small unfolding n_def by blast
  have "cell s = word_of_int (int n)" using c unfolding n_def by simp
  then have "i32 (cell s) = int n" using small le wrap32_nonneg [of "int n"] by (simp add: wrap32_def)
  then show ?thesis using of_nat_mono [OF le, where 'a = int] unfolding n_def [symmetric] by simp
qed

lemma all_counted:
  assumes "step\<^sup>*\<^sup>* start s" "\<And>t. t < PTHREADCOUNT \<Longrightarrow> made s t = limit"
  shows "i32 (cell s) = int (PTHREADCOUNT * limit)"
  using counted [OF assms(1)] assms(2) by simp

end

section \<open>The programs with a lock\<close>

record 'p counter =
  number :: u32
  owner :: "nat option"
  created :: nat
  pcs :: "nat \<Rightarrow> 'p"

text \<open>Where a thread stands: before the loop test with \<open>i\<close> rounds made, in the critical section, after it has read \<open>*pcount\<close>,
  after it has written it and counted \<open>i\<close>, at its end.\<close>

datatype lock_pc = At_loop nat | In_section nat | Loaded nat u32 | Leaving nat | Ended

definition LOCK_ROUNDS :: nat where "LOCK_ROUNDS = 100000"

text \<open>\<open>busy\<close> is what a thread does that finds the lock taken.\<close>

definition locked_thread :: "(lock_pc counter \<Rightarrow> lock_pc counter option) \<Rightarrow> nat \<Rightarrow> lock_pc counter \<Rightarrow> lock_pc counter option" where
  "locked_thread busy t s =
     (case pcs s t of
        At_loop i \<Rightarrow>
          if i < LOCK_ROUNDS then
            (if owner s = None then Some (s\<lparr>owner := Some t, pcs := (pcs s)(t := In_section i)\<rparr>) else busy s)
          else Some (s\<lparr>pcs := (pcs s)(t := Ended)\<rparr>)
      | In_section i \<Rightarrow> Some (s\<lparr>pcs := (pcs s)(t := Loaded i (number s))\<rparr>)
      | Loaded i v \<Rightarrow> Some (s\<lparr>number := v + 1, pcs := (pcs s)(t := Leaving (i + 1))\<rparr>)
      | Leaving i \<Rightarrow> Some (s\<lparr>owner := None, pcs := (pcs s)(t := At_loop i)\<rparr>)
      | Ended \<Rightarrow> None)"

text \<open>A thread that waits for a mutex takes no step; one that waits for a spin lock tries again.\<close>

definition mutex_thread :: "nat \<Rightarrow> lock_pc counter \<Rightarrow> lock_pc counter option" where
  "mutex_thread = locked_thread (\<lambda>s. None)"

definition spin_thread :: "nat \<Rightarrow> lock_pc counter \<Rightarrow> lock_pc counter option" where
  "spin_thread = locked_thread Some"

definition create_thread :: "'p counter \<Rightarrow> 'p counter option" where
  "create_thread s = (if created s < PTHREADCOUNT then Some (s\<lparr>created := created s + 1\<rparr>) else None)"

definition lock_start :: "lock_pc counter" where
  "lock_start = \<lparr>number = 0, owner = None, created = 0, pcs = (\<lambda>_. At_loop 0)\<rparr>"

inductive counter_step :: "(nat \<Rightarrow> 'p counter \<Rightarrow> 'p counter option) \<Rightarrow> 'p counter \<Rightarrow> 'p counter \<Rightarrow> bool" for thread where
  by_main: "create_thread s = Some s' \<Longrightarrow> counter_step thread s s'"
| by_thread: "t < created s \<Longrightarrow> thread t s = Some s' \<Longrightarrow> counter_step thread s s'"

fun lock_made :: "lock_pc \<Rightarrow> nat" where
  "lock_made (At_loop i) = i"
| "lock_made (In_section i) = i"
| "lock_made (Loaded i v) = i"
| "lock_made (Leaving i) = i"
| "lock_made Ended = LOCK_ROUNDS"

fun inside :: "lock_pc \<Rightarrow> bool" where
  "inside (At_loop i) = False"
| "inside (In_section i) = True"
| "inside (Loaded i v) = True"
| "inside (Leaving i) = True"
| "inside Ended = False"

fun pc_ok :: "u32 \<Rightarrow> lock_pc \<Rightarrow> bool" where
  "pc_ok n (At_loop i) = (i \<le> LOCK_ROUNDS)"
| "pc_ok n (In_section i) = (i < LOCK_ROUNDS)"
| "pc_ok n (Loaded i v) = (i < LOCK_ROUNDS \<and> v = n)"
| "pc_ok n (Leaving i) = (0 < i \<and> i \<le> LOCK_ROUNDS)"
| "pc_ok n Ended = True"

text \<open>The lock is held by the thread that is inside; there the value that has been read is the current one.\<close>

definition lock_inv :: "lock_pc counter \<Rightarrow> bool" where
  "lock_inv s \<longleftrightarrow> created s \<le> PTHREADCOUNT \<and> (\<forall>t. inside (pcs s t) \<longleftrightarrow> owner s = Some t) \<and> (\<forall>t. pc_ok (number s) (pcs s t)) \<and>
     (\<forall>t\<ge>created s. pcs s t = At_loop 0)"

lemma lock_invD:
  assumes "lock_inv s"
  shows "created s \<le> PTHREADCOUNT" "inside (pcs s t) \<longleftrightarrow> owner s = Some t" "pc_ok (number s) (pcs s t)" "created s \<le> t \<Longrightarrow> pcs s t = At_loop 0"
  using assms by (simp_all add: lock_inv_def)

lemma pc_ok_outside: "\<not> inside p \<Longrightarrow> pc_ok n p \<Longrightarrow> pc_ok m p"
  by (cases p) auto

text \<open>A step of a thread that is allowed to: what it leaves, and that it moves forward by one.\<close>

fun forward :: "lock_pc \<Rightarrow> nat" where
  "forward (At_loop i) = 4 * i"
| "forward (In_section i) = 4 * i + 1"
| "forward (Loaded i v) = 4 * i + 2"
| "forward (Leaving i) = 4 * i - 1"
| "forward Ended = 4 * LOCK_ROUNDS + 1"

lemma locked_thread_step:
  assumes s: "lock_inv s" and t: "t < created s" and step: "locked_thread busy t s = Some s'"
  shows "busy s = Some s' \<and> owner s \<noteq> None \<and> \<not> inside (pcs s t) \<or>
    lock_inv s' \<and> created s' = created s \<and> (\<forall>i. i \<noteq> t \<longrightarrow> pcs s' i = pcs s i) \<and> forward (pcs s' t) = forward (pcs s t) + 1 \<and>
    (number s' = number s \<and> lock_made (pcs s' t) = lock_made (pcs s t) \<or>
     number s' = number s + 1 \<and> lock_made (pcs s t) < LOCK_ROUNDS \<and> lock_made (pcs s' t) = lock_made (pcs s t) + 1)"
proof -
  note D = lock_invD [OF s]
  have others: "\<not> inside (pcs s i)" if "i \<noteq> t" "inside (pcs s t)" for i using D(2) [of i] D(2) [of t] that by simp
  show ?thesis
  proof (cases "pcs s t")
    case (At_loop i)
    show ?thesis
    proof (cases "i < LOCK_ROUNDS")
      case True
      show ?thesis
      proof (cases "owner s = None")
        case free: True
        then have s': "s' = s\<lparr>owner := Some t, pcs := (pcs s)(t := In_section i)\<rparr>" using step At_loop True by (simp add: locked_thread_def)
        have "lock_inv s'" using s t free True unfolding s' by (auto simp: lock_inv_def)
        then show ?thesis using At_loop True unfolding s' by simp
      qed (use step At_loop True in \<open>auto simp: locked_thread_def\<close>)
    next
      case False
      then have s': "s' = s\<lparr>pcs := (pcs s)(t := Ended)\<rparr>" "i = LOCK_ROUNDS" using step At_loop D(3) [of t] by (simp_all add: locked_thread_def)
      have "lock_inv s'" using s t At_loop D(2) [of t] unfolding s' by (auto simp: lock_inv_def)
      then show ?thesis using At_loop unfolding s' by simp
    qed
  next
    case (In_section i)
    then have s': "s' = s\<lparr>pcs := (pcs s)(t := Loaded i (number s))\<rparr>" using step by (simp add: locked_thread_def)
    have "lock_inv s'" using s t In_section D(2,3) [of t] unfolding s' by (auto simp: lock_inv_def)
    then show ?thesis using In_section unfolding s' by simp
  next
    case (Loaded i v)
    then have s': "s' = s\<lparr>number := v + 1, pcs := (pcs s)(t := Leaving (i + 1))\<rparr>" using step by (simp add: locked_thread_def)
    have i: "i < LOCK_ROUNDS" "v = number s" using D(3) [of t] Loaded by simp_all
    have "pc_ok (v + 1) (pcs s j)" if "j \<noteq> t" for j using pc_ok_outside [OF others [OF that]] D(3) [of j] Loaded by simp
    then have "lock_inv s'" using s t Loaded D(2) [of t] i unfolding s' by (auto simp: lock_inv_def)
    then show ?thesis using Loaded i unfolding s' by simp
  next
    case (Leaving i)
    then have s': "s' = s\<lparr>owner := None, pcs := (pcs s)(t := At_loop i)\<rparr>" using step by (simp add: locked_thread_def)
    have i: "0 < i" "i \<le> LOCK_ROUNDS" using D(3) [of t] Leaving by simp_all
    have "\<not> inside (pcs s j)" if "j \<noteq> t" for j using others [OF that] Leaving by simp
    then have "lock_inv s'" using s t i unfolding s' by (auto simp: lock_inv_def)
    then show ?thesis using Leaving i unfolding s' by simp
  next
    case Ended
    then show ?thesis using step by (simp add: locked_thread_def)
  qed
qed

definition lock_progress :: "lock_pc counter \<Rightarrow> nat" where
  "lock_progress s = created s + (\<Sum>t<PTHREADCOUNT. forward (pcs s t))"

lemma forward_le: "pc_ok n p \<Longrightarrow> forward p \<le> 4 * LOCK_ROUNDS + 1"
  by (cases p) auto

lemma progress_le: "lock_inv s \<Longrightarrow> lock_progress s \<le> PTHREADCOUNT * (4 * LOCK_ROUNDS + 2)"
  using sum_bounded_above [of "{..<PTHREADCOUNT}" "\<lambda>t. forward (pcs s t)" "4 * LOCK_ROUNDS + 1"] forward_le lock_invD(1,3) [of s]
  unfolding lock_progress_def by fastforce

lemma locked_step:
  assumes s: "lock_inv s" and step: "counter_step (locked_thread busy) s s'"
  shows "(\<exists>t. busy s = Some s' \<and> owner s = Some t \<and> t < PTHREADCOUNT) \<or>
    lock_inv s' \<and> lock_progress s' = lock_progress s + 1 \<and>
    (number s' = number s \<and> (\<lambda>t. lock_made (pcs s' t)) = (\<lambda>t. lock_made (pcs s t)) \<or>
     (\<exists>t<PTHREADCOUNT. lock_made (pcs s t) < LOCK_ROUNDS \<and> number s' = number s + 1 \<and>
       (\<lambda>i. lock_made (pcs s' i)) = (\<lambda>i. lock_made (pcs s i))(t := lock_made (pcs s t) + 1)))"
  using step
proof (cases rule: counter_step.cases)
  case by_main
  then have "created s < PTHREADCOUNT" "s' = s\<lparr>created := created s + 1\<rparr>" by (simp_all add: create_thread_def split: if_splits)
  moreover from this have "lock_inv s'" using s by (simp add: lock_inv_def)
  ultimately show ?thesis by (simp add: lock_progress_def)
next
  case (by_thread t)
  have t: "t < PTHREADCOUNT" using by_thread(1) lock_invD(1) [OF s] by simp
  from locked_thread_step [OF s by_thread] show ?thesis
  proof (elim disjE)
    assume a: "busy s = Some s' \<and> owner s \<noteq> None \<and> \<not> inside (pcs s t)"
    then obtain i where i: "owner s = Some i" by auto
    then have "inside (pcs s i)" using lock_invD(2) [OF s] by simp
    then have "i < created s" using lock_invD(4) [OF s, of i] by (cases "created s \<le> i") auto
    then show ?thesis using a i lock_invD(1) [OF s] by auto
  next
    assume a: "lock_inv s' \<and> created s' = created s \<and> (\<forall>i. i \<noteq> t \<longrightarrow> pcs s' i = pcs s i) \<and> forward (pcs s' t) = forward (pcs s t) + 1 \<and>
      (number s' = number s \<and> lock_made (pcs s' t) = lock_made (pcs s t) \<or>
       number s' = number s + 1 \<and> lock_made (pcs s t) < LOCK_ROUNDS \<and> lock_made (pcs s' t) = lock_made (pcs s t) + 1)"
    then have "lock_progress s' = lock_progress s + 1"
      using sum_upd [OF t, of "\<lambda>i. forward (pcs s' i)" "\<lambda>i. forward (pcs s i)" 1] by (simp add: lock_progress_def)
    moreover have "(\<lambda>i. lock_made (pcs s' i)) = (\<lambda>i. lock_made (pcs s i))(t := lock_made (pcs s' t))" using a by auto
    ultimately show ?thesis using a t by auto
  qed
qed

text \<open>Where no step of the mutex program is left, every thread has ended.\<close>

lemma mutex_stuck:
  assumes s: "lock_inv s" and stuck: "\<And>s'. \<not> counter_step mutex_thread s s'" and t: "t < PTHREADCOUNT"
  shows "pcs s t = Ended"
proof -
  have "create_thread s = None" using stuck counter_step.by_main [of s _ mutex_thread] by (cases "create_thread s") auto
  then have "created s = PTHREADCOUNT" using lock_invD(1) [OF s] by (simp add: create_thread_def split: if_splits)
  then have none: "locked_thread (\<lambda>s. None) i s = None" if "i < PTHREADCOUNT" for i
    using stuck counter_step.by_thread [of i s mutex_thread] that by (cases "locked_thread (\<lambda>s. None) i s") (auto simp: mutex_thread_def)
  have out: "\<not> inside (pcs s i)" if "i < PTHREADCOUNT" for i
    using none [OF that] by (cases "pcs s i") (simp_all add: locked_thread_def)
  have "owner s = None"
  proof (cases "owner s")
    case (Some i)
    then have i: "inside (pcs s i)" using lock_invD(2) [OF s] by simp
    then have "i < PTHREADCOUNT" using lock_invD(4) [OF s, of i] \<open>created s = PTHREADCOUNT\<close> by (cases "PTHREADCOUNT \<le> i") auto
    then show ?thesis using out i by blast
  qed
  then show ?thesis using none [OF t] by (cases "pcs s t") (auto simp: locked_thread_def split: if_splits)
qed

lemma lock_start_inv: "lock_inv lock_start"
  by (simp add: lock_inv_def lock_start_def PTHREADCOUNT_def)

abbreviation lock_additions :: "lock_pc counter \<Rightarrow> nat \<Rightarrow> nat" where
  "lock_additions s \<equiv> \<lambda>t. lock_made (pcs s t)"

interpretation mutex: counting lock_inv "counter_step mutex_thread" lock_start number lock_additions LOCK_ROUNDS
proof
  fix s s' :: "lock_pc counter"
  assume s: "lock_inv s" "counter_step mutex_thread s s'"
  from locked_step [OF s(1) s(2) [unfolded mutex_thread_def]] show "lock_inv s'"
    and "number s' = number s \<and> lock_additions s' = lock_additions s \<or>
      (\<exists>t<PTHREADCOUNT. lock_additions s t < LOCK_ROUNDS \<and> number s' = number s + 1 \<and>
        lock_additions s' = (lock_additions s)(t := lock_additions s t + 1))" by auto
qed (simp_all add: lock_start_inv, simp_all add: lock_start_def PTHREADCOUNT_def LOCK_ROUNDS_def)

interpretation spin: counting lock_inv "counter_step spin_thread" lock_start number lock_additions LOCK_ROUNDS
proof
  fix s s' :: "lock_pc counter"
  assume s: "lock_inv s" "counter_step spin_thread s s'"
  from locked_step [OF s(1) s(2) [unfolded spin_thread_def]] s(1) show "lock_inv s'"
    and "number s' = number s \<and> lock_additions s' = lock_additions s \<or>
      (\<exists>t<PTHREADCOUNT. lock_additions s t < LOCK_ROUNDS \<and> number s' = number s + 1 \<and>
        lock_additions s' = (lock_additions s)(t := lock_additions s t + 1))" by auto
qed (simp_all add: lock_start_inv, simp_all add: lock_start_def PTHREADCOUNT_def LOCK_ROUNDS_def)

lemma mutex_steps: "(counter_step mutex_thread ^^ n) lock_start s \<Longrightarrow> lock_inv s \<and> lock_progress s = n"
proof (induction n arbitrary: s)
  case 0
  then have "s = lock_start" by simp
  then show ?case by (simp add: lock_start_inv) (simp add: lock_progress_def lock_start_def)
next
  case (Suc n)
  then obtain s1 where 1: "lock_inv s1" "lock_progress s1 = n" "counter_step mutex_thread s1 s" by auto
  show ?case using locked_step [OF 1(1) 1(3) [unfolded mutex_thread_def]] 1(2) by auto
qed

text \<open>C37: the mutex program counts right and ends: under every interleaving a run has at most 4000020 steps, the number that \<open>main\<close> prints
  is at any time the number of additions made and at most a million, never two threads are in the critical section, and when no step is left (so
  no thread can be stuck waiting) it is a million.\<close>

theorem mutex_counts:
  assumes "(counter_step mutex_thread ^^ n) lock_start s"
  shows "n \<le> 4000020 \<and> i32 (number s) = int (\<Sum>t<PTHREADCOUNT. lock_made (pcs s t)) \<and> i32 (number s) \<le> 1000000 \<and>
    (\<forall>t u. inside (pcs s t) \<and> inside (pcs s u) \<longrightarrow> t = u) \<and>
    ((\<nexists>s'. counter_step mutex_thread s s') \<longrightarrow> i32 (number s) = 1000000)"
proof -
  note inv = mutex_steps [OF assms]
  have run: "(counter_step mutex_thread)\<^sup>*\<^sup>* lock_start s" using assms by (rule relpowp_imp_rtranclp)
  have n: "n \<le> 4000020" using inv progress_le [of s] by (simp add: PTHREADCOUNT_def LOCK_ROUNDS_def)
  have one: "\<forall>t u. inside (pcs s t) \<and> inside (pcs s u) \<longrightarrow> t = u" using inv lock_invD(2) [of s] by auto
  have le: "i32 (number s) \<le> 1000000" using mutex.counted [OF run] by (simp add: PTHREADCOUNT_def LOCK_ROUNDS_def)
  have "i32 (number s) = 1000000" if "\<nexists>s'. counter_step mutex_thread s s'"
  proof -
    have "pcs s t = Ended" if "t < PTHREADCOUNT" for t
      using mutex_stuck [OF conjunct1 [OF inv] _ that] \<open>\<nexists>s'. counter_step mutex_thread s s'\<close> by blast
    then show ?thesis using mutex.all_counted [OF run] by (simp add: PTHREADCOUNT_def LOCK_ROUNDS_def)
  qed
  then show ?thesis using n one le conjunct1 [OF mutex.counted [OF run]] by blast
qed

theorem mutex_counts_witness: "\<exists>s. (counter_step mutex_thread ^^ 4) lock_start s \<and> i32 (number s) \<le> 1000000"
proof -
  let ?s1 = "lock_start\<lparr>created := 1\<rparr>"
  let ?s2 = "?s1\<lparr>owner := Some 0, pcs := (pcs ?s1)(0 := In_section 0)\<rparr>"
  let ?s3 = "?s2\<lparr>pcs := (pcs ?s2)(0 := Loaded 0 0)\<rparr>"
  let ?s4 = "?s3\<lparr>number := 1, pcs := (pcs ?s3)(0 := Leaving 1)\<rparr>"
  have 1: "counter_step mutex_thread lock_start ?s1"
    by (rule by_main) (simp add: create_thread_def lock_start_def PTHREADCOUNT_def)
  have 2: "counter_step mutex_thread ?s1 ?s2"
    by (rule by_thread [where t = 0]) (simp_all add: mutex_thread_def locked_thread_def lock_start_def LOCK_ROUNDS_def)
  have 3: "counter_step mutex_thread ?s2 ?s3"
    by (rule by_thread [where t = 0]) (simp_all add: mutex_thread_def locked_thread_def lock_start_def)
  have 4: "counter_step mutex_thread ?s3 ?s4"
    by (rule by_thread [where t = 0]) (simp_all add: mutex_thread_def locked_thread_def lock_start_def)
  have "(counter_step mutex_thread ^^ Suc (Suc (Suc (Suc 0)))) lock_start ?s4"
    by (rule relpowp_Suc_I, rule relpowp_Suc_I, rule relpowp_Suc_I, rule relpowp_Suc_I, rule relpowp_0_I) (rule 1, rule 2, rule 3, rule 4)
  then have run: "(counter_step mutex_thread ^^ 4) lock_start ?s4" by (simp add: numeral_eq_Suc)
  show ?thesis using mutex_counts [OF run] run by blast
qed

text \<open>The spin lock protects the cell in the same way; only its waiting threads keep stepping, so its runs have no bound.\<close>

lemma spin_counts:
  assumes "(counter_step spin_thread)\<^sup>*\<^sup>* lock_start s"
  shows "i32 (number s) = int (\<Sum>t<PTHREADCOUNT. lock_made (pcs s t)) \<and> i32 (number s) \<le> 1000000 \<and>
    (\<forall>t u. inside (pcs s t) \<and> inside (pcs s u) \<longrightarrow> t = u)"
proof -
  have "i32 (number s) \<le> 1000000" using spin.counted [OF assms] by (simp add: PTHREADCOUNT_def LOCK_ROUNDS_def)
  moreover have "\<forall>t u. inside (pcs s t) \<and> inside (pcs s u) \<longrightarrow> t = u" using lock_invD(2) [OF spin.counting_run [OF assms]] by auto
  ultimately show ?thesis using conjunct1 [OF spin.counted [OF assms]] by blast
qed

section \<open>The program with the atomic addition\<close>

text \<open>\<open>lock xadd\<close>: the old value goes to the register, the sum to memory.\<close>

definition Inc :: "u32 \<Rightarrow> u32 \<Rightarrow> u32 \<times> u32" where
  "Inc value add = (value, value + add)"

definition ATOMIC_ROUNDS :: nat where "ATOMIC_ROUNDS = 1000000"

text \<open>The control point is the loop counter.\<close>

definition atomic_thread :: "nat \<Rightarrow> nat counter \<Rightarrow> nat counter option" where
  "atomic_thread t s =
     (let i = pcs s t in
      if i < ATOMIC_ROUNDS then Some (s\<lparr>number := snd (Inc (number s) 1), pcs := (pcs s)(t := i + 1)\<rparr>)
      else None)"

definition atomic_start :: "nat counter" where
  "atomic_start = \<lparr>number = 0, owner = None, created = 0, pcs = (\<lambda>_. 0)\<rparr>"

definition atomic_inv :: "nat counter \<Rightarrow> bool" where
  "atomic_inv s \<longleftrightarrow> created s \<le> PTHREADCOUNT \<and> (\<forall>t. pcs s t \<le> ATOMIC_ROUNDS)"

lemma atomic_step:
  assumes "atomic_inv s" "counter_step atomic_thread s s'"
  shows "atomic_inv s' \<and> (number s' = number s \<and> pcs s' = pcs s \<and> created s' = created s + 1 \<or>
    (\<exists>t<PTHREADCOUNT. pcs s t < ATOMIC_ROUNDS \<and> number s' = number s + 1 \<and> pcs s' = (pcs s)(t := pcs s t + 1) \<and> created s' = created s))"
  using assms(2)
proof (cases rule: counter_step.cases)
  case by_main
  then show ?thesis using assms(1) by (auto simp: create_thread_def atomic_inv_def split: if_splits)
next
  case (by_thread t)
  then have "s' = s\<lparr>number := number s + 1, pcs := (pcs s)(t := pcs s t + 1)\<rparr>" "pcs s t < ATOMIC_ROUNDS"
    by (simp_all add: atomic_thread_def Let_def Inc_def split: if_splits)
  moreover have "t < PTHREADCOUNT" using by_thread(1) assms(1) by (simp add: atomic_inv_def)
  ultimately show ?thesis using assms(1) by (auto simp: atomic_inv_def)
qed

interpretation atomic: counting atomic_inv "counter_step atomic_thread" atomic_start number pcs ATOMIC_ROUNDS
proof
  fix s s' :: "nat counter"
  assume s: "atomic_inv s" "counter_step atomic_thread s s'"
  show "atomic_inv s'" using atomic_step [OF s] by blast
  show "number s' = number s \<and> pcs s' = pcs s \<or>
    (\<exists>t<PTHREADCOUNT. pcs s t < ATOMIC_ROUNDS \<and> number s' = number s + 1 \<and> pcs s' = (pcs s)(t := pcs s t + 1))"
    using atomic_step [OF s] by blast
qed (simp_all add: atomic_inv_def atomic_start_def PTHREADCOUNT_def ATOMIC_ROUNDS_def)

text \<open>The threads of the atomic program add ten million, not the million of its comment.\<close>

lemma atomic_counts:
  assumes "(counter_step atomic_thread)\<^sup>*\<^sup>* atomic_start s" "\<nexists>s'. counter_step atomic_thread s s'"
  shows "i32 (number s) = 10000000"
proof -
  have inv: "atomic_inv s" by (rule atomic.counting_run [OF assms(1)])
  have "create_thread s = None" using assms(2) counter_step.by_main [of s _ atomic_thread] by (cases "create_thread s") auto
  then have "created s = PTHREADCOUNT" using inv by (simp add: create_thread_def atomic_inv_def split: if_splits)
  then have none: "atomic_thread t s = None" if "t < PTHREADCOUNT" for t
    using assms(2) counter_step.by_thread [of t s atomic_thread] that by (cases "atomic_thread t s") auto
  have "pcs s t = ATOMIC_ROUNDS" if "t < PTHREADCOUNT" for t
  proof -
    have "\<not> pcs s t < ATOMIC_ROUNDS" using none [OF that] by (auto simp: atomic_thread_def Let_def)
    moreover have "pcs s t \<le> ATOMIC_ROUNDS" using inv by (simp add: atomic_inv_def)
    ultimately show ?thesis by simp
  qed
  then show ?thesis using atomic.all_counted [OF assms(1)] by (simp add: PTHREADCOUNT_def ATOMIC_ROUNDS_def)
qed

section \<open>The program with compare-and-swap\<close>

text \<open>
  The operands of the \<open>asm\<close> statement are numbered outputs first: \<open>%0\<close> is \<open>success\<close>, \<open>%1\<close> is \<open>*addr\<close>, \<open>%2\<close> is
  \<open>expected_val\<close> in \<open>eax\<close> and \<open>%3\<close> is \<open>new_val\<close>.  The instruction is \<open>cmpxchgl %2, %1\<close>: if memory equals \<open>eax\<close>, it stores its source operand, which is \<open>%2\<close>.
\<close>

definition CAS :: "u32 \<Rightarrow> u32 \<Rightarrow> u32 \<Rightarrow> bool \<times> u32" where
  "CAS mem expected_val new_val =
     (let operand2 = expected_val; operand3 = new_val in
      if mem = operand2 then (True, operand2) else (False, mem))"

definition NUMBER :: nat where "NUMBER = 100000"

text \<open>Before \<open>old_value = *addr\<close> in round \<open>j\<close>; before the call of \<open>CAS\<close>; at the end.\<close>

datatype cas_pc = At_read nat | At_swap nat u32 | Cas_ended

definition cas_thread :: "nat \<Rightarrow> cas_pc counter \<Rightarrow> cas_pc counter option" where
  "cas_thread t s =
     (case pcs s t of
        At_read j \<Rightarrow>
          Some (s\<lparr>pcs := (pcs s)(t := if j < NUMBER then At_swap j (number s) else Cas_ended)\<rparr>)
      | At_swap j old_value \<Rightarrow>
          (case CAS (number s) old_value (old_value + 1) of (success, mem) \<Rightarrow>
             Some (s\<lparr>number := mem, pcs := (pcs s)(t := At_read (if success then j + 1 else j))\<rparr>))
      | Cas_ended \<Rightarrow> None)"

definition cas_start :: "cas_pc counter" where
  "cas_start = \<lparr>number = 0, owner = None, created = 0, pcs = (\<lambda>_. At_read 0)\<rparr>"

lemma CAS_keeps: "snd (CAS mem expected_val new_val) = mem"
  by (simp add: CAS_def)

text \<open>C38: the compare-and-swap program never counts: under every interleaving the number that \<open>main\<close> prints is 0, although the threads go through all their
  rounds, because the instruction stores the expected value and not the new one; in particular no swap ever fails.\<close>

theorem cas_never_adds:
  assumes "(counter_step cas_thread)\<^sup>*\<^sup>* cas_start s"
  shows "number s = 0 \<and> (\<forall>t j old_value. pcs s t = At_swap j old_value \<longrightarrow> fst (CAS (number s) old_value (old_value + 1)))"
proof -
  have "number s = 0 \<and> (\<forall>t j old_value. pcs s t = At_swap j old_value \<longrightarrow> old_value = 0)"
    using assms
  proof (induction rule: rtranclp_induct)
    case base
    then show ?case by (simp add: cas_start_def)
  next
    case (step s s')
    from step.hyps(2) show ?case
    proof (cases rule: counter_step.cases)
      case by_main
      then show ?thesis using step.IH by (auto simp: create_thread_def split: if_splits)
    next
      case (by_thread t)
      then show ?thesis using step.IH CAS_keeps
        by (cases "pcs s t") (auto simp: cas_thread_def CAS_def Let_def split: if_splits)
    qed
  qed
  then show ?thesis by (auto simp: CAS_def)
qed

theorem cas_never_adds_witness:
  "\<exists>s. (counter_step cas_thread)\<^sup>*\<^sup>* cas_start s \<and> pcs s 0 = At_read 1 \<and> number s = 0"
proof -
  let ?s1 = "cas_start\<lparr>created := 1\<rparr>"
  let ?s2 = "?s1\<lparr>pcs := (pcs ?s1)(0 := At_swap 0 0)\<rparr>"
  let ?s3 = "?s2\<lparr>pcs := (pcs ?s2)(0 := At_read 1)\<rparr>"
  have "counter_step cas_thread cas_start ?s1"
    by (rule by_main) (simp add: create_thread_def cas_start_def PTHREADCOUNT_def)
  moreover have "counter_step cas_thread ?s1 ?s2"
    by (rule by_thread [where t = 0]) (simp_all add: cas_thread_def cas_start_def NUMBER_def)
  moreover have "counter_step cas_thread ?s2 ?s3"
    by (rule by_thread [where t = 0]) (simp_all add: cas_thread_def CAS_def cas_start_def)
  ultimately have run: "(counter_step cas_thread)\<^sup>*\<^sup>* cas_start ?s3" by (meson rtranclp.rtrancl_into_rtrancl rtranclp.rtrancl_refl)
  show ?thesis using cas_never_adds [OF run] run by (intro exI [of _ ?s3]) simp
qed

end
