(* ===== verification/Uring.thy ===== *)
theory Uring
  imports Prelude "HOL-Library.Multiset" "HOL-Library.Monad_Syntax"
begin

text \<open>
  The echo server over \<open>io_uring\<close> of \<open>uring_tcp_server.c\<close>: the two queues shared with the kernel, the three functions that prepare a request, and the
  event loop of \<open>main\<close>.  The kernel completes submitted requests in any order and at any time; a \<open>recv\<close> writes the one buffer of the program
  when it completes and a \<open>send\<close> reads it when it completes.  \<open>heard\<close> and \<open>echoed\<close> are the bytes that the kernel took from and gave to a
  connection.  \<open>init_server\<close> has succeeded; log output is left out, with its read of the buffer as a
  string, which leaves the buffer when all of its 1024 bytes are not zero.
\<close>

section \<open>Queues and requests\<close>

definition ENTRIES_LENGTH :: nat where "ENTRIES_LENGTH = 1024"
definition BUFFER_LENGTH :: nat where "BUFFER_LENGTH = 1024"
definition EVENT_ACCEPT :: int where "EVENT_ACCEPT = 0"
definition EVENT_READ :: int where "EVENT_READ = 1"
definition EVENT_WRITE :: int where "EVENT_WRITE = 2"

record conn_info =
  fd :: int
  event :: int

datatype opcode = Accept | Recv | Send

text \<open>A request: the operation, its descriptor, the length of its buffer, and the data handed back on completion.\<close>

record sqe =
  op :: opcode
  on_fd :: int
  len :: nat
  user_data :: conn_info

text \<open>The loop is at the submission, at the wait, or at entry \<open>i\<close> of the \<open>n\<close> completions it has taken.\<close>

datatype at = Submitting | Waiting | Handling nat nat

record uring =
  sq :: "sqe list"
  flying :: "sqe list"
  cq :: "(sqe \<times> int) list"
  here :: at
  buffer :: "u8 list"
  up :: "int set"
  heard :: "int \<Rightarrow> u8 list"
  echoed :: "int \<Rightarrow> u8 list"

text \<open>\<open>io_uring_get_sqe\<close> returns \<open>NULL\<close> when the queue is full, and the next write goes through it: \<open>None\<close>.\<close>

definition get_sqe :: "sqe \<Rightarrow> uring \<Rightarrow> uring option" where
  "get_sqe e s = (if length (sq s) < ENTRIES_LENGTH then Some (s\<lparr>sq := sq s @ [e]\<rparr>) else None)"

definition set_event_accept :: "int \<Rightarrow> uring \<Rightarrow> uring option" where
  "set_event_accept sockfd = get_sqe \<lparr>op = Accept, on_fd = sockfd, len = 0, user_data = \<lparr>fd = sockfd, event = EVENT_ACCEPT\<rparr>\<rparr>"

definition set_event_recv :: "int \<Rightarrow> nat \<Rightarrow> uring \<Rightarrow> uring option" where
  "set_event_recv sockfd l = get_sqe \<lparr>op = Recv, on_fd = sockfd, len = l, user_data = \<lparr>fd = sockfd, event = EVENT_READ\<rparr>\<rparr>"

definition set_event_send :: "int \<Rightarrow> nat \<Rightarrow> uring \<Rightarrow> uring option" where
  "set_event_send sockfd l = get_sqe \<lparr>op = Send, on_fd = sockfd, len = l, user_data = \<lparr>fd = sockfd, event = EVENT_WRITE\<rparr>\<rparr>"

section \<open>The event loop\<close>

definition uring_start :: "int \<Rightarrow> uring option" where
  "uring_start socket = set_event_accept socket \<lparr>sq = [], flying = [], cq = [], here = Submitting, buffer = replicate BUFFER_LENGTH 0,
     up = {}, heard = (\<lambda>_. []), echoed = (\<lambda>_. [])\<rparr>"

definition handle_cqe :: "int \<Rightarrow> sqe \<times> int \<Rightarrow> uring \<Rightarrow> uring option" where
  "handle_cqe socket entries s =
     (let result = user_data (fst entries); ret = snd entries in
      if event result = EVENT_ACCEPT then do {
        s \<leftarrow> set_event_accept socket s;
        set_event_recv ret BUFFER_LENGTH s }
      else if event result = EVENT_READ then
        (if ret \<le> 0 then Some (s\<lparr>up := up s - {fd result}\<rparr>)
         else set_event_send (fd result) (nat ret) s)
      else if event result = EVENT_WRITE then set_event_recv (fd result) BUFFER_LENGTH s
      else Some s)"

definition loop_step :: "int \<Rightarrow> uring \<Rightarrow> uring option" where
  "loop_step socket s =
     (case here s of
        Submitting \<Rightarrow> Some (s\<lparr>flying := flying s @ sq s, sq := [], here := Waiting\<rparr>)
      | Waiting \<Rightarrow> Some (if cq s = [] then s else s\<lparr>here := Handling 0 (min (length (cq s)) (ENTRIES_LENGTH * 2))\<rparr>)
      | Handling i n \<Rightarrow>
          if i < n then map_option (\<lambda>s. s\<lparr>here := Handling (i + 1) n\<rparr>) (handle_cqe socket (cq s ! i) s)
          else Some (s\<lparr>cq := drop n (cq s), here := Submitting\<rparr>))"

section \<open>The kernel\<close>

text \<open>What a request completes with: a result code, or received bytes.\<close>

datatype outcome = Code int | Data "u8 list"

definition complete :: "sqe \<Rightarrow> outcome \<Rightarrow> uring \<Rightarrow> uring option" where
  "complete e r s =
     (case (op e, r) of
        (Accept, Code c) \<Rightarrow>
          if c < 0 then Some s
          else if c \<notin> up s then Some (s\<lparr>up := insert c (up s), heard := (heard s)(c := []), echoed := (echoed s)(c := [])\<rparr>)
          else None
      | (Recv, Code c) \<Rightarrow> if c \<le> 0 then Some s else None
      | (Recv, Data bs) \<Rightarrow>
          if on_fd e \<in> up s \<and> bs \<noteq> [] \<and> length bs \<le> len e then
            Some (s\<lparr>buffer := bs @ drop (length bs) (buffer s), heard := (heard s)(on_fd e := heard s (on_fd e) @ bs)\<rparr>)
          else None
      | (Send, Code c) \<Rightarrow>
          if c \<le> 0 then Some s
          else if on_fd e \<in> up s \<and> nat c \<le> len e then
            Some (s\<lparr>echoed := (echoed s)(on_fd e := echoed s (on_fd e) @ take (nat c) (buffer s))\<rparr>)
          else None
      | _ \<Rightarrow> None)"

definition result_code :: "outcome \<Rightarrow> int" where
  "result_code r = (case r of Code c \<Rightarrow> c | Data bs \<Rightarrow> int (length bs))"

definition kernel_step :: "nat \<Rightarrow> outcome \<Rightarrow> uring \<Rightarrow> uring option" where
  "kernel_step i r s =
     (if i < length (flying s) then
        map_option (\<lambda>s. s\<lparr>flying := take i (flying s) @ drop (Suc i) (flying s), cq := cq s @ [(flying s ! i, result_code r)]\<rparr>)
          (complete (flying s ! i) r s)
      else None)"

text \<open>Runs in which the kernel's completions satisfy \<open>ok\<close>.\<close>

inductive uring_run :: "(sqe \<Rightarrow> outcome \<Rightarrow> uring \<Rightarrow> bool) \<Rightarrow> int \<Rightarrow> uring \<Rightarrow> bool" for ok socket where
  uring_begin: "uring_start socket = Some s \<Longrightarrow> uring_run ok socket s"
| uring_loop: "uring_run ok socket s \<Longrightarrow> loop_step socket s = Some s' \<Longrightarrow> uring_run ok socket s'"
| uring_kernel: "uring_run ok socket s \<Longrightarrow> i < length (flying s) \<Longrightarrow> ok (flying s ! i) r s \<Longrightarrow> kernel_step i r s = Some s' \<Longrightarrow> uring_run ok socket s'"

section \<open>Requests as tokens\<close>

text \<open>A request is pending (prepared or submitted) or completed with a result and not handled yet.  Each step moves tokens.\<close>

fun unhandled :: "at \<Rightarrow> 'x list \<Rightarrow> 'x list" where
  "unhandled (Handling i n) xs = drop i xs"
| "unhandled _ xs = xs"

definition tokens :: "uring \<Rightarrow> (sqe + sqe \<times> int) multiset" where
  "tokens s = image_mset Inl (mset (sq s @ flying s)) + image_mset Inr (mset (unhandled (here s) (cq s)))"

fun place_ok :: "at \<Rightarrow> nat \<Rightarrow> bool" where
  "place_ok (Handling i n) l = (i \<le> n \<and> n \<le> l)"
| "place_ok _ l = True"

lemma sq_le_tokens: "length (sq s) \<le> size (tokens s)"
  by (simp add: tokens_def)

lemma kernel_tokens:
  assumes "kernel_step i r s = Some s'" "place_ok (here s) (length (cq s))"
  shows "\<exists>s1 T. complete (flying s ! i) r s = Some s1 \<and> i < length (flying s) \<and> tokens s = add_mset (Inl (flying s ! i)) T \<and>
    tokens s' = add_mset (Inr (flying s ! i, result_code r)) T \<and> place_ok (here s') (length (cq s')) \<and>
    buffer s' = buffer s1 \<and> up s' = up s1 \<and> heard s' = heard s1 \<and> echoed s' = echoed s1 \<and> sq s' = sq s"
proof -
  let ?e = "flying s ! i"
  obtain s1 where i: "i < length (flying s)" and s1: "complete ?e r s = Some s1"
    and s': "s' = s1\<lparr>flying := take i (flying s1) @ drop (Suc i) (flying s1), cq := cq s1 @ [(flying s1 ! i, result_code r)]\<rparr>"
    using assms(1) by (auto simp: kernel_step_def split: if_splits)
  have same: "sq s1 = sq s" "flying s1 = flying s" "cq s1 = cq s" "here s1 = here s"
    using s1 by (auto simp: complete_def split: opcode.splits outcome.splits if_splits)
  have "flying s = take i (flying s) @ ?e # drop (Suc i) (flying s)" using i by (rule id_take_nth_drop)
  then have "mset (flying s) = mset (take i (flying s) @ ?e # drop (Suc i) (flying s))" by simp
  then have f: "mset (flying s) = add_mset ?e (mset (take i (flying s) @ drop (Suc i) (flying s)))" by simp
  have u: "unhandled (here s) (cq s @ [x]) = unhandled (here s) (cq s) @ [x]" for x using assms(2) by (cases "here s") auto
  define T where "T = image_mset Inl (mset (sq s @ take i (flying s) @ drop (Suc i) (flying s))) + image_mset Inr (mset (unhandled (here s) (cq s)))"
  have "tokens s = add_mset (Inl ?e) T" unfolding tokens_def T_def by (simp add: f)
  moreover have "tokens s' = add_mset (Inr (?e, result_code r)) T" unfolding tokens_def T_def s' by (simp add: same u)
  moreover have "place_ok (here s') (length (cq s'))" using assms(2) unfolding s' by (cases "here s") (simp_all add: same)
  ultimately show ?thesis using s1 i unfolding s' by (intro exI [of _ s1] exI [of _ T]) (simp add: same)
qed

abbreviation accept_req :: "int \<Rightarrow> sqe" where
  "accept_req c \<equiv> \<lparr>op = Accept, on_fd = c, len = 0, user_data = \<lparr>fd = c, event = 0\<rparr>\<rparr>"

abbreviation recv_req :: "int \<Rightarrow> sqe" where
  "recv_req c \<equiv> \<lparr>op = Recv, on_fd = c, len = 1024, user_data = \<lparr>fd = c, event = 1\<rparr>\<rparr>"

abbreviation send_req :: "int \<Rightarrow> nat \<Rightarrow> sqe" where
  "send_req c n \<equiv> \<lparr>op = Send, on_fd = c, len = n, user_data = \<lparr>fd = c, event = 2\<rparr>\<rparr>"

text \<open>What the handling of a completion posts and closes.\<close>

definition posts :: "int \<Rightarrow> sqe \<times> int \<Rightarrow> sqe list" where
  "posts socket c = (let u = user_data (fst c); r = snd c in
     if event u = 0 then [accept_req socket, recv_req r]
     else if event u = 1 then (if r \<le> 0 then [] else [send_req (fd u) (nat r)])
     else if event u = 2 then [recv_req (fd u)] else [])"

definition closes :: "sqe \<times> int \<Rightarrow> int set" where
  "closes c = (if event (user_data (fst c)) = 1 \<and> snd c \<le> 0 then {fd (user_data (fst c))} else {})"

lemmas event_defs = EVENT_ACCEPT_def EVENT_READ_def EVENT_WRITE_def ENTRIES_LENGTH_def BUFFER_LENGTH_def
lemmas set_event_defs = set_event_accept_def set_event_recv_def set_event_send_def get_sqe_def

lemma handle_posts:
  "handle_cqe socket c s = (if length (sq s) + length (posts socket c) \<le> 1024 \<or> posts socket c = []
     then Some (s\<lparr>sq := sq s @ posts socket c, up := up s - closes c\<rparr>) else None)"
  by (auto simp: handle_cqe_def set_event_defs event_defs posts_def closes_def Let_def)

lemma loop_tokens:
  assumes "place_ok (here s) (length (cq s))"
  shows "\<exists>s'. loop_step socket s = Some s' \<and> place_ok (here s') (length (cq s')) \<and> tokens s' = tokens s \<and>
      buffer s' = buffer s \<and> up s' = up s \<and> heard s' = heard s \<and> echoed s' = echoed s \<or>
    (\<exists>c T. tokens s = add_mset (Inr c) T \<and>
      (if length (sq s) + length (posts socket c) \<le> 1024 \<or> posts socket c = [] then loop_step socket s = Some s' \<and> place_ok (here s') (length (cq s')) \<and>
         tokens s' = T + image_mset Inl (mset (posts socket c)) \<and>
         buffer s' = buffer s \<and> up s' = up s - closes c \<and> heard s' = heard s \<and> echoed s' = echoed s
       else loop_step socket s = None))"
proof (cases "here s")
  case Submitting
  then show ?thesis by (intro exI [of _ "s\<lparr>flying := flying s @ sq s, sq := [], here := Waiting\<rparr>"]) (simp add: loop_step_def tokens_def ac_simps)
next
  case Waiting
  show ?thesis
  proof (cases "cq s = []")
    case True
    then show ?thesis using Waiting assms by (intro exI [of _ s]) (simp add: loop_step_def)
  next
    case False
    then show ?thesis using Waiting
      by (intro exI [of _ "s\<lparr>here := Handling 0 (min (length (cq s)) (ENTRIES_LENGTH * 2))\<rparr>"]) (simp add: loop_step_def tokens_def)
  qed
next
  case (Handling i n)
  show ?thesis
  proof (cases "i < n")
    case True
    let ?c = "cq s ! i"
    let ?s = "s\<lparr>sq := sq s @ posts socket ?c, up := up s - closes ?c, here := Handling (i + 1) n\<rparr>"
    define T where "T = image_mset Inl (mset (sq s @ flying s)) + image_mset Inr (mset (drop (Suc i) (cq s)))"
    have d: "drop i (cq s) = ?c # drop (Suc i) (cq s)" using True assms Handling by (intro Cons_nth_drop_Suc [symmetric]) simp
    have t: "tokens s = add_mset (Inr ?c) T" unfolding tokens_def T_def by (simp add: Handling d)
    have t': "tokens ?s = T + image_mset Inl (mset (posts socket ?c))" unfolding tokens_def T_def by simp
    have l: "loop_step socket s = (if length (sq s) + length (posts socket ?c) \<le> 1024 \<or> posts socket ?c = [] then Some ?s else None)"
      using Handling True by (simp add: loop_step_def handle_posts)
    have p: "place_ok (here ?s) (length (cq ?s))" using True assms Handling by simp
    show ?thesis
      by (intro exI [of _ ?s] disjI2 exI [of _ ?c] exI [of _ T] conjI t) (use l p t' in auto)
  next
    case False
    then show ?thesis using Handling assms
      by (intro exI [of _ "s\<lparr>cq := drop n (cq s), here := Submitting\<rparr>"]) (simp add: loop_step_def tokens_def)
  qed
qed

lemma start_tokens: "uring_start socket = Some s \<Longrightarrow> tokens s = {#Inl (accept_req socket)#} \<and> place_ok (here s) (length (cq s)) \<and>
    buffer s = replicate 1024 0 \<and> up s = {} \<and> heard s = (\<lambda>_. []) \<and> echoed s = (\<lambda>_. [])"
  by (auto simp: uring_start_def set_event_defs event_defs tokens_def)

section \<open>No request is lost and no queue overflows\<close>

fun request :: "sqe + sqe \<times> int \<Rightarrow> bool" where
  "request (Inl e) = (\<exists>c. e = recv_req c \<or> (\<exists>n\<le>1024. e = send_req c n))"
| "request (Inr (e, r)) = (\<exists>c. e = recv_req c \<and> r \<le> 1024 \<or> (\<exists>n\<le>1024. e = send_req c n))"

definition sound :: "int \<Rightarrow> uring \<Rightarrow> bool" where
  "sound socket s \<longleftrightarrow> place_ok (here s) (length (cq s)) \<and> length (buffer s) = 1024 \<and>
     (\<exists>a T. tokens s = add_mset a T \<and> (\<forall>t\<in>#T. request t) \<and>
       (a = Inl (accept_req socket) \<and> size T \<le> 1023 \<or> (\<exists>r. a = Inr (accept_req socket, r) \<and> size T \<le> 1022)))"

text \<open>The kernel completes an \<open>accept\<close> only while fewer than 1024 requests are outstanding.\<close>

definition room :: "sqe \<Rightarrow> outcome \<Rightarrow> uring \<Rightarrow> bool" where
  "room e r s \<longleftrightarrow> op e = Accept \<longrightarrow> size (tokens s) < 1024"

lemma sound_loop:
  assumes "sound socket s"
  shows "\<exists>s'. loop_step socket s = Some s' \<and> sound socket s'"
proof -
  obtain a T where pl: "place_ok (here s) (length (cq s))" and b: "length (buffer s) = 1024" and t: "tokens s = add_mset a T"
    and rq: "\<forall>t\<in>#T. request t"
    and a: "a = Inl (accept_req socket) \<and> size T \<le> 1023 \<or> (\<exists>r. a = Inr (accept_req socket, r) \<and> size T \<le> 1022)"
    using assms by (auto simp: sound_def)
  obtain s' where l: "loop_step socket s = Some s' \<and> place_ok (here s') (length (cq s')) \<and> tokens s' = tokens s \<and>
      buffer s' = buffer s \<and> up s' = up s \<and> heard s' = heard s \<and> echoed s' = echoed s \<or>
    (\<exists>c T. tokens s = add_mset (Inr c) T \<and>
      (if length (sq s) + length (posts socket c) \<le> 1024 \<or> posts socket c = [] then loop_step socket s = Some s' \<and> place_ok (here s') (length (cq s')) \<and>
         tokens s' = T + image_mset Inl (mset (posts socket c)) \<and>
         buffer s' = buffer s \<and> up s' = up s - closes c \<and> heard s' = heard s \<and> echoed s' = echoed s
       else loop_step socket s = None))"
    using loop_tokens [OF pl, of socket] by blast
  then show ?thesis
  proof (elim disjE exE conjE)
    assume "loop_step socket s = Some s'" "place_ok (here s') (length (cq s'))" "tokens s' = tokens s" "buffer s' = buffer s"
    then show ?thesis using t rq a b unfolding sound_def by (intro exI [of _ s'] conjI exI [of _ a] exI [of _ T]) simp_all
  next
    fix c U
    assume u: "tokens s = add_mset (Inr c) U"
      and step: "if length (sq s) + length (posts socket c) \<le> 1024 \<or> posts socket c = [] then loop_step socket s = Some s' \<and> place_ok (here s') (length (cq s')) \<and>
         tokens s' = U + image_mset Inl (mset (posts socket c)) \<and>
         buffer s' = buffer s \<and> up s' = up s - closes c \<and> heard s' = heard s \<and> echoed s' = echoed s
       else loop_step socket s = None"
    have "length (sq s) \<le> size U"
    proof -
      have "length (sq s) \<le> size (filter_mset isl (tokens s))" by (simp add: tokens_def filter_mset_image_mset)
      also have "\<dots> \<le> size U" by (simp add: u size_filter_mset_lesseq)
      finally show ?thesis .
    qed
    show ?thesis
    proof (cases "a = Inr c")
      case True
      then obtain r where c: "c = (accept_req socket, r)" and T: "size T \<le> 1022" "U = T" using a t u by auto
      have p: "posts socket c = [accept_req socket, recv_req r]" by (simp add: c posts_def)
      then have s': "loop_step socket s = Some s'" "place_ok (here s') (length (cq s'))" "buffer s' = buffer s"
        "tokens s' = add_mset (Inl (accept_req socket)) (add_mset (Inl (recv_req r)) T)"
        using step \<open>length (sq s) \<le> size U\<close> T by simp_all
      have "sound socket s'" unfolding sound_def
        using s' T rq b by (intro conjI exI [of _ "Inl (accept_req socket)"] exI [of _ "add_mset (Inl (recv_req r)) T"]) auto
      then show ?thesis using s' by blast
    next
      case False
      then obtain V where V: "T = add_mset (Inr c) V" "U = add_mset a V" using t u by (auto simp: add_eq_conv_ex)
      have c: "request (Inr c)" using rq V by simp
      then have p: "length (posts socket c) \<le> 1" "\<forall>e\<in>set (posts socket c). request (Inl e)"
        by (cases c; auto simp: posts_def Let_def nat_le_iff)+
      have "size U \<le> 1023" using a V by auto
      then have s': "loop_step socket s = Some s'" "place_ok (here s') (length (cq s'))" "buffer s' = buffer s"
        "tokens s' = add_mset a (V + image_mset Inl (mset (posts socket c)))"
        using step \<open>length (sq s) \<le> size U\<close> p(1) V(2) by (auto split: if_splits)
      have "sound socket s'" unfolding sound_def
        using s' a rq b V p by (intro conjI exI [of _ a] exI [of _ "V + image_mset Inl (mset (posts socket c))"]) auto
      then show ?thesis using s' by blast
    qed
  qed
qed

lemma sound_kernel:
  assumes s: "sound socket s" and k: "kernel_step i r s = Some s'" and room: "room (flying s ! i) r s"
  shows "sound socket s'"
proof -
  obtain a T where pl: "place_ok (here s) (length (cq s))" and b: "length (buffer s) = 1024" and t: "tokens s = add_mset a T"
    and rq: "\<forall>t\<in>#T. request t"
    and a: "a = Inl (accept_req socket) \<and> size T \<le> 1023 \<or> (\<exists>r. a = Inr (accept_req socket, r) \<and> size T \<le> 1022)"
    using s by (auto simp: sound_def)
  let ?e = "flying s ! i"
  let ?x = "Inr (?e, result_code r) :: sqe + sqe \<times> int"
  obtain s1 U where s1: "complete ?e r s = Some s1" and u: "tokens s = add_mset (Inl ?e) U" "tokens s' = add_mset ?x U"
    and s': "place_ok (here s') (length (cq s'))" "buffer s' = buffer s1"
    using kernel_tokens [OF k pl] by blast
  show ?thesis
  proof (cases "a = Inl ?e")
    case True
    then have e: "?e = accept_req socket" "U = T" using a t u(1) by auto
    then have "size T \<le> 1022" using room u(1) by (simp add: room_def)
    moreover have "length (buffer s1) = 1024" using s1 b e by (auto simp: complete_def split: outcome.splits if_splits)
    ultimately show ?thesis using u(2) s' e rq unfolding sound_def by (intro conjI exI [of _ ?x] exI [of _ T]) auto
  next
    case False
    then obtain V where V: "T = add_mset (Inl ?e) V" "U = add_mset a V" using t u by (auto simp: add_eq_conv_ex)
    have e: "request (Inl ?e)" using rq V by simp
    have b1: "length (buffer s1) = 1024" "request ?x"
      using s1 b e by (auto simp: complete_def result_code_def split: outcome.splits if_splits)
    show ?thesis unfolding sound_def
      using s' u(2) V a rq b1 by (intro conjI exI [of _ a] exI [of _ "add_mset ?x V"]) auto
  qed
qed

lemma run_sound: "uring_run room socket s \<Longrightarrow> sound socket s"
proof (induction rule: uring_run.induct)
  case (uring_begin s)
  then show ?case using start_tokens [OF uring_begin]
    unfolding sound_def by (intro conjI exI [of _ "Inl (accept_req socket)"] exI [of _ "{#}"]) simp_all
next
  case (uring_loop s s')
  then show ?case using sound_loop [of socket s] by auto
next
  case (uring_kernel s i r s')
  then show ?case using sound_kernel by blast
qed

section \<open>One connection at a time\<close>

text \<open>The kernel accepts a connection only when none is open, and sends what it is given completely.\<close>

definition alone :: "sqe \<Rightarrow> outcome \<Rightarrow> uring \<Rightarrow> bool" where
  "alone e r s \<longleftrightarrow> (op e = Accept \<longrightarrow> up s = {} \<and> (\<exists>c\<ge>0. r = Code c)) \<and> (op e = Send \<longrightarrow> r = Code (int (len e)))"

datatype stage = Idle | Accepted int | Reading int | Read_end int int | Read_done int "u8 list" | Writing int "u8 list" | Written int "u8 list"

fun stage_tokens :: "int \<Rightarrow> stage \<Rightarrow> (sqe + sqe \<times> int) multiset" where
  "stage_tokens socket Idle = {#Inl (accept_req socket)#}"
| "stage_tokens socket (Accepted c) = {#Inr (accept_req socket, c)#}"
| "stage_tokens socket (Reading c) = {#Inl (accept_req socket), Inl (recv_req c)#}"
| "stage_tokens socket (Read_end c r) = {#Inl (accept_req socket), Inr (recv_req c, r)#}"
| "stage_tokens socket (Read_done c bs) = {#Inl (accept_req socket), Inr (recv_req c, int (length bs))#}"
| "stage_tokens socket (Writing c bs) = {#Inl (accept_req socket), Inl (send_req c (length bs))#}"
| "stage_tokens socket (Written c bs) = {#Inl (accept_req socket), Inr (send_req c (length bs), int (length bs))#}"

fun stage_holds :: "stage \<Rightarrow> uring \<Rightarrow> bool" where
  "stage_holds Idle s = (up s = {})"
| "stage_holds (Accepted c) s = (up s = {c} \<and> echoed s c = heard s c)"
| "stage_holds (Reading c) s = (up s = {c} \<and> echoed s c = heard s c)"
| "stage_holds (Read_end c r) s = (up s = {c} \<and> r \<le> 0 \<and> echoed s c = heard s c)"
| "stage_holds (Read_done c bs) s = (up s = {c} \<and> bs \<noteq> [] \<and> take (length bs) (buffer s) = bs \<and> heard s c = echoed s c @ bs)"
| "stage_holds (Writing c bs) s = (up s = {c} \<and> bs \<noteq> [] \<and> take (length bs) (buffer s) = bs \<and> heard s c = echoed s c @ bs)"
| "stage_holds (Written c bs) s = (up s = {c} \<and> bs \<noteq> [] \<and> echoed s c = heard s c)"

definition single :: "int \<Rightarrow> uring \<Rightarrow> bool" where
  "single socket s \<longleftrightarrow> place_ok (here s) (length (cq s)) \<and> (\<exists>g. tokens s = stage_tokens socket g \<and> stage_holds g s)"

lemma stage_holds_cong:
  "stage_holds g s \<Longrightarrow> up s' = up s \<Longrightarrow> buffer s' = buffer s \<Longrightarrow> heard s' = heard s \<Longrightarrow> echoed s' = echoed s \<Longrightarrow> stage_holds g s'"
  by (cases g) simp_all

text \<open>The two ways a stage goes on: the handling of its completion, and the completion of one of its requests.\<close>

lemma stage_handled:
  assumes "stage_tokens socket g = add_mset (Inr c) T" "stage_holds g s"
    "up s' = up s - closes c" "buffer s' = buffer s" "heard s' = heard s" "echoed s' = echoed s"
  shows "\<exists>g'. stage_tokens socket g' = T + image_mset Inl (mset (posts socket c)) \<and> stage_holds g' s'"
proof (cases g)
  case (Accepted d)
  then show ?thesis using assms by (intro exI [of _ "Reading d"]) (auto simp: posts_def closes_def)
next
  case (Read_end d r)
  then show ?thesis using assms by (intro exI [of _ Idle]) (auto simp: posts_def closes_def add_eq_conv_ex)
next
  case (Read_done d bs)
  then show ?thesis using assms by (intro exI [of _ "Writing d bs"]) (auto simp: posts_def closes_def add_eq_conv_ex)
next
  case (Written d bs)
  then show ?thesis using assms by (intro exI [of _ "Reading d"]) (auto simp: posts_def closes_def add_eq_conv_ex)
qed (use assms(1) in \<open>auto simp: add_eq_conv_ex\<close>)

lemma stage_completed:
  assumes g: "stage_tokens socket g = add_mset (Inl e) T" "stage_holds g s"
    and c: "complete e r s = Some s1" and ok: "alone e r s"
    and s': "up s' = up s1" "buffer s' = buffer s1" "heard s' = heard s1" "echoed s' = echoed s1"
  shows "\<exists>g'. stage_tokens socket g' = add_mset (Inr (e, result_code r)) T \<and> stage_holds g' s'"
proof (cases "op e")
  case Accept
  then obtain n where n: "n \<ge> 0" "r = Code n" and none: "up s = {}" using ok by (auto simp: alone_def)
  have g0: "g = Idle" using g(2) none by (cases g) auto
  have e: "e = accept_req socket" "T = {#}" using g(1) g0 by simp_all
  have s1: "s1 = s\<lparr>up := {n}, heard := (heard s)(n := []), echoed := (echoed s)(n := [])\<rparr>" using c e n none by (simp add: complete_def)
  show ?thesis using e n s' by (intro exI [of _ "Accepted n"]) (simp add: s1 result_code_def)
next
  case Recv
  then obtain d where d: "g = Reading d" "e = recv_req d" "T = {#Inl (accept_req socket)#}"
    using g(1) by (cases g) (auto simp: add_eq_conv_ex)
  have up: "up s = {d}" "echoed s d = heard s d" using g(2) d by simp_all
  show ?thesis
  proof (cases r)
    case (Code n)
    then have "n \<le> 0" "s1 = s" using c d by (auto simp: complete_def split: if_splits)
    then show ?thesis using d up Code s' by (intro exI [of _ "Read_end d n"]) (simp add: result_code_def add_mset_commute)
  next
    case (Data bs)
    then have "bs \<noteq> []" "s1 = s\<lparr>buffer := bs @ drop (length bs) (buffer s), heard := (heard s)(d := heard s d @ bs)\<rparr>"
      using c d by (auto simp: complete_def split: if_splits)
    then show ?thesis using d up Data s' by (intro exI [of _ "Read_done d bs"]) (simp add: result_code_def add_mset_commute)
  qed
next
  case Send
  then obtain d bs where d: "g = Writing d bs" "e = send_req d (length bs)" "T = {#Inl (accept_req socket)#}"
    using g(1) by (cases g) (auto simp: add_eq_conv_ex)
  have r: "r = Code (int (length bs))" using ok d by (simp add: alone_def)
  have up: "up s = {d}" "bs \<noteq> []" "take (length bs) (buffer s) = bs" "heard s d = echoed s d @ bs" using g(2) d by simp_all
  then have "s1 = s\<lparr>echoed := (echoed s)(d := echoed s d @ bs)\<rparr>" using c d r by (auto simp: complete_def)
  then show ?thesis using d up r s' by (intro exI [of _ "Written d bs"]) (simp add: result_code_def add_mset_commute)
qed

lemma run_single: "uring_run alone socket s \<Longrightarrow> single socket s"
proof (induction rule: uring_run.induct)
  case (uring_begin s)
  then show ?case using start_tokens [OF uring_begin] unfolding single_def by (intro conjI exI [of _ Idle]) simp_all
next
  case (uring_loop s s')
  then obtain g where pl: "place_ok (here s) (length (cq s))" and g: "tokens s = stage_tokens socket g" "stage_holds g s" by (auto simp: single_def)
  from loop_tokens [OF pl, of socket] show ?case
  proof (elim exE disjE conjE)
    fix t
    assume t: "loop_step socket s = Some t" "place_ok (here t) (length (cq t))" "tokens t = tokens s"
      "buffer t = buffer s" "up t = up s" "heard t = heard s" "echoed t = echoed s"
    then have "t = s'" using uring_loop.hyps(2) by simp
    then show ?thesis using t g stage_holds_cong [OF g(2) t(5,4,6,7)] by (auto simp: single_def)
  next
    fix t c T
    assume u: "tokens s = add_mset (Inr c) T"
      and step: "if length (sq s) + length (posts socket c) \<le> 1024 \<or> posts socket c = [] then loop_step socket s = Some t \<and> place_ok (here t) (length (cq t)) \<and>
         tokens t = T + image_mset Inl (mset (posts socket c)) \<and>
         buffer t = buffer s \<and> up t = up s - closes c \<and> heard t = heard s \<and> echoed t = echoed s
       else loop_step socket s = None"
    then have t: "t = s'" "place_ok (here t) (length (cq t))" "tokens t = T + image_mset Inl (mset (posts socket c))"
      "up t = up s - closes c" "buffer t = buffer s" "heard t = heard s" "echoed t = echoed s"
      using uring_loop.hyps(2) by (auto split: if_splits)
    have "stage_tokens socket g = add_mset (Inr c) T" using g(1) u by simp
    then obtain g' where g': "stage_tokens socket g' = T + image_mset Inl (mset (posts socket c))" "stage_holds g' t"
      using stage_handled [OF _ g(2) t(4-7)] by blast
    have "tokens t = stage_tokens socket g'" using t(3) g'(1) by simp
    then show ?thesis using t(1,2) g'(2) unfolding single_def by blast
  qed
next
  case (uring_kernel s i r s')
  then obtain g where pl: "place_ok (here s) (length (cq s))" and g: "tokens s = stage_tokens socket g" "stage_holds g s" by (auto simp: single_def)
  obtain s1 T where c: "complete (flying s ! i) r s = Some s1" and T: "tokens s = add_mset (Inl (flying s ! i)) T"
    "tokens s' = add_mset (Inr (flying s ! i, result_code r)) T" "place_ok (here s') (length (cq s'))"
    and same: "up s' = up s1" "buffer s' = buffer s1" "heard s' = heard s1" "echoed s' = echoed s1"
    using kernel_tokens [OF uring_kernel.hyps(4) pl] by blast
  have "stage_tokens socket g = add_mset (Inl (flying s ! i)) T" using g(1) T(1) by simp
  then obtain g' where g': "stage_tokens socket g' = add_mset (Inr (flying s ! i, result_code r)) T" "stage_holds g' s'"
    using stage_completed [OF _ g(2) c uring_kernel.hyps(3) same] by blast
  have "tokens s' = stage_tokens socket g'" using T(2) g'(1) by simp
  then show ?case using T(3) g'(2) unfolding single_def by blast
qed

section \<open>Properties\<close>

text \<open>whatever clients do and in whatever order the kernel completes requests, as long as an accept completes only with fewer than 1024 requests outstanding the event loop
  always goes on: the submission queue is never full when a request is prepared, no request to send goes beyond the buffer, and exactly one accept is outstanding or
  waits to be handled.\<close>

theorem uring_safe:
  assumes "uring_run room socket s"
  shows "loop_step socket s \<noteq> None \<and> length (buffer s) = 1024 \<and> (\<forall>e\<in>set (sq s @ flying s). op e = Send \<longrightarrow> len e \<le> 1024) \<and>
    (\<exists>a T. tokens s = add_mset a T \<and> (a = Inl (accept_req socket) \<or> (\<exists>r. a = Inr (accept_req socket, r))) \<and> (\<forall>t\<in>#T. request t))"
proof -
  have s: "sound socket s" by (rule run_sound [OF assms])
  then obtain a T where t: "tokens s = add_mset a T" "a = Inl (accept_req socket) \<or> (\<exists>r. a = Inr (accept_req socket, r))" "\<forall>t\<in>#T. request t"
    and b: "length (buffer s) = 1024" unfolding sound_def by blast
  have "len e \<le> 1024" if "e \<in> set (sq s @ flying s)" "op e = Send" for e
  proof -
    have "Inl e \<in># tokens s" using that(1) by (auto simp: tokens_def)
    then have "Inl e = a \<or> Inl e \<in># T" unfolding t(1) by simp
    then have "Inl e = a \<or> request (Inl e)" using t(3) by blast
    then show ?thesis using that(2) t(2) by auto
  qed
  moreover have "loop_step socket s \<noteq> None" using sound_loop [OF s] by auto
  ultimately show ?thesis using b t by blast
qed

text \<open>with one connection at a time and complete sends the server echoes exactly: in every state what was received is what was sent back followed by what lies at
  the start of the buffer and is still to be sent, and nothing is left when the next receive is outstanding.\<close>

theorem uring_echo:
  assumes "uring_run alone socket s" "c \<in> up s"
  shows "\<exists>rest. heard s c = echoed s c @ rest \<and> take (length rest) (buffer s) = rest \<and> (Inl (recv_req c) \<in># tokens s \<longrightarrow> rest = [])"
proof -
  obtain g where g: "tokens s = stage_tokens socket g" "stage_holds g s" using run_single [OF assms(1)] by (auto simp: single_def)
  show ?thesis using g assms(2) by (cases g) auto
qed

text \<open>Runs by a schedule: \<open>None\<close> is a step of the loop, \<open>Some (i, r)\<close> the completion of request \<open>i\<close>.\<close>

definition scheduled :: "int \<Rightarrow> (nat \<times> outcome) option \<Rightarrow> uring option \<Rightarrow> uring option" where
  "scheduled socket a x = do {
     s \<leftarrow> x;
     case a of
       None \<Rightarrow> loop_step socket s
     | Some (i, r) \<Rightarrow> if length (sq s) + length (flying s) + length (cq s) < 1024 then kernel_step i r s else None }"

definition by_schedule :: "int \<Rightarrow> (nat \<times> outcome) option list \<Rightarrow> uring option" where
  "by_schedule socket as = fold (scheduled socket) as (uring_start socket)"

lemma unhandled_le: "length (unhandled p xs) \<le> length xs"
  by (cases p) simp_all

lemma scheduled_run:
  assumes "scheduled socket a (Some s) = Some s'" "uring_run room socket s"
  shows "uring_run room socket s'"
proof (cases a)
  case None
  then show ?thesis using assms by (auto simp: scheduled_def intro: uring_loop)
next
  case (Some ir)
  obtain i r where ir: "ir = (i, r)" by (cases ir)
  have k: "kernel_step i r s = Some s'" and l: "length (sq s) + length (flying s) + length (cq s) < 1024"
    using assms(1) Some ir by (simp_all add: scheduled_def split: if_splits)
  have "room (flying s ! i) r s" using l unhandled_le [of "here s" "cq s"] by (simp add: room_def tokens_def)
  moreover have "i < length (flying s)" using k by (simp add: kernel_step_def split: if_splits)
  ultimately show ?thesis using uring_kernel [OF assms(2) _ _ k] by blast
qed

lemma fold_run: "fold (scheduled socket) as x = Some s \<Longrightarrow> (\<And>t. x = Some t \<Longrightarrow> uring_run room socket t) \<Longrightarrow> uring_run room socket s"
proof (induction as arbitrary: x)
  case (Cons a as)
  have "uring_run room socket t" if "scheduled socket a x = Some t" for t
    using that Cons.prems(2) scheduled_run by (cases x) (auto simp: scheduled_def)
  then show ?case using Cons by simp
qed simp

lemma by_schedule_run: "by_schedule socket as = Some s \<Longrightarrow> uring_run room socket s"
  unfolding by_schedule_def by (erule fold_run) (rule uring_begin)

definition two_clients :: "(nat \<times> outcome) option list" where
  "two_clients = [None, Some (0, Code 5), None, None, None, None, Some (0, Code 6), None, None, None, None,
     Some (0, Data [1]), Some (1, Data [2]), None, None, None, None, None, Some (1, Code 1)]"

definition mixed :: uring where
  "mixed = the (by_schedule 3 two_clients)"

lemma mixed_runs: "by_schedule 3 two_clients = Some mixed"
proof -
  have "\<not> Option.is_none (by_schedule 3 two_clients)" by code_simp
  then show ?thesis unfolding mixed_def by (simp add: Option.is_none_def)
qed

text \<open>with two connections the server can send the bytes of one client to the other: all requests share one buffer, and there is a run, with nothing going wrong in any call,
  in which client 5 has sent only the byte 1 and gets back the byte 2 of client 6.\<close>

theorem uring_mixes: "\<exists>s. uring_run room 3 s \<and> heard s 5 = [1] \<and> heard s 6 = [2] \<and> echoed s 5 = [2]"
proof -
  have "heard mixed 5 = [1] \<and> heard mixed 6 = [2] \<and> echoed mixed 5 = [2]" by code_simp
  then show ?thesis using by_schedule_run [OF mixed_runs] by blast
qed

theorem uring_safe_witness: "loop_step 3 mixed \<noteq> None"
  using uring_safe [OF by_schedule_run [OF mixed_runs]] by blast

theorem uring_echo_witness: "\<exists>s. uring_run alone 3 s \<and> heard s 5 = [1, 2] \<and> (\<exists>rest. [1, 2] = echoed s 5 @ rest)"
proof -
  define s0 where "s0 = the (uring_start 3)"
  define s1 where "s1 = the (loop_step 3 s0)"
  define s2 where "s2 = the (kernel_step 0 (Code 5) s1)"
  define s3 where "s3 = the (loop_step 3 s2)"
  define s4 where "s4 = the (loop_step 3 s3)"
  define s5 where "s5 = the (loop_step 3 s4)"
  define s6 where "s6 = the (loop_step 3 s5)"
  define s7 where "s7 = the (kernel_step 1 (Data [1, 2]) s6)"
  note defs = uring_start_def set_event_defs event_defs loop_step_def handle_cqe_def kernel_step_def complete_def result_code_def Let_def
  have 0: "uring_start 3 = Some s0" by (simp add: s0_def defs)
  have 1: "loop_step 3 s0 = Some s1" "flying s1 = [accept_req 3]" "up s1 = {}" by (simp_all add: s1_def s0_def defs)
  have 2: "kernel_step 0 (Code 5) s1 = Some s2" by (simp add: s2_def s1_def s0_def defs)
  have 3: "loop_step 3 s2 = Some s3" by (simp add: s3_def s2_def s1_def s0_def defs)
  have 4: "loop_step 3 s3 = Some s4" by (simp add: s4_def s3_def s2_def s1_def s0_def defs)
  have 5: "loop_step 3 s4 = Some s5" by (simp add: s5_def s4_def s3_def s2_def s1_def s0_def defs)
  have 6: "loop_step 3 s5 = Some s6" "flying s6 = [accept_req 3, recv_req 5]" by (simp_all add: s6_def s5_def s4_def s3_def s2_def s1_def s0_def defs)
  have 7: "kernel_step 1 (Data [1, 2]) s6 = Some s7" "heard s7 5 = [1, 2]" "5 \<in> up s7"
    by (simp_all add: s7_def s6_def s5_def s4_def s3_def s2_def s1_def s0_def defs)
  have "uring_run alone 3 s2"
    by (rule uring_kernel [OF uring_loop [OF uring_begin [OF 0] 1(1)] _ _ 2]) (simp_all add: 1 alone_def)
  then have "uring_run alone 3 s6" using 3 4 5 6(1) by (blast intro: uring_loop)
  then have "uring_run alone 3 s7" by (rule uring_kernel [OF _ _ _ 7(1)]) (simp_all add: 6 alone_def)
  then show ?thesis using uring_echo [of 3 s7 5] 7 by auto
qed

end
