(* ===== verification/Http_Client.thy ===== *)
theory Http_Client
  imports Prelude "HOL-Library.Monad_Syntax"
begin

text \<open>
  The HTTP client of \<open>http.c\<close>.  The name resolution, the socket calls and the allocations are in the record \<open>http_io\<close>; the answers of \<open>select\<close> and \<open>recv\<close>
  are a list, one entry per round of the loop.  A function returns \<open>None\<close> when the C code reads or writes outside an object, or when the loop has not
  ended after the rounds given; \<open>NULL\<close> is \<open>Some None\<close> inside.  Messages to the terminal are left out.
\<close>

definition BUFFER_SZIE :: nat where "BUFFER_SZIE = 4096"

text \<open>One round: whether \<open>select\<close> reports input, what \<open>recv\<close> returns (no bytes for an error or the end), and whether \<open>realloc\<close> succeeds.\<close>

record http_round =
  ready :: bool
  received :: "u8 list"
  memory :: bool

record http_io =
  resolved :: "u8 list option"
  text_of_ip :: bool
  sock :: int
  connected :: int
  nonblocking :: int
  sent_code :: int
  first_memory :: bool
  rounds :: "http_round list"

definition host_to_ip :: "http_io \<Rightarrow> u8 list option" where
  "host_to_ip io = (case resolved io of None \<Rightarrow> None | Some ip \<Rightarrow> if text_of_ip io then Some ip else None)"

definition http_create_socket :: "http_io \<Rightarrow> int" where
  "http_create_socket io =
     (if sock io = -1 then -1
      else if connected io = -1 then -2
      else if nonblocking io = -1 then -3
      else sock io)"

definition http_request_text :: "u8 list \<Rightarrow> u8 list \<Rightarrow> u8 list" where
  "http_request_text hostname resource =
     bytes ''GET '' @ resource @ bytes '' HTTP/1.1'' @ crlf @ bytes ''Host: '' @ hostname @ crlf @ bytes ''Connection: close'' @ crlf @ crlf"

text \<open>\<open>realloc\<close> to \<open>n\<close> bytes: the old ones up to \<open>n\<close>, then indeterminate ones.  \<open>strncat\<close> appends at most \<open>n\<close> bytes of a buffer, up to its first zero, and a zero.\<close>

definition c_realloc :: "u8 list \<Rightarrow> nat \<Rightarrow> u8 list" where
  "c_realloc b n = take n b @ replicate (n - length b) 0xAA"

definition strncat :: "u8 list \<Rightarrow> u8 list \<Rightarrow> nat \<Rightarrow> u8 list option" where
  "strncat dst src n = do {
     d \<leftarrow> bstr dst;
     put_bytes dst (length d) (takeWhile (\<lambda>c. c \<noteq> 0) (take n src) @ [0]) }"

fun recv_loop :: "http_round list \<Rightarrow> u8 list \<Rightarrow> u8 list option" where
  "recv_loop [] result = None"
| "recv_loop (r # rs) result =
     (if \<not> ready r then Some result
      else (let buffer = take BUFFER_SZIE (received r) @ replicate (BUFFER_SZIE - length (received r)) 0;
                bytes_received = length (take BUFFER_SZIE (received r)) in
        if bytes_received = 0 then Some result
        else do {
          d \<leftarrow> bstr result;
          if \<not> memory r then None
          else do {
            result \<leftarrow> strncat (c_realloc result (length d + bytes_received + 1)) buffer bytes_received;
            recv_loop rs result } }))"

text \<open>The result: the bytes sent, as many as \<open>send\<close> says, of which the code looks at the sign only, and the block returned.\<close>

definition http_send_request :: "http_io \<Rightarrow> u8 list \<Rightarrow> u8 list \<Rightarrow> (u8 list \<times> u8 list option) option" where
  "http_send_request io hostname resource =
     (case host_to_ip io of
        None \<Rightarrow> Some ([], None)
      | Some ip \<Rightarrow>
          if http_create_socket io < 0 then Some ([], None)
          else do {
            buffer \<leftarrow> put_text (replicate BUFFER_SZIE 0) (http_request_text hostname resource);
            t \<leftarrow> bstr buffer;
            if sent_code io < 0 then Some ([], None)
            else if \<not> first_memory io then None
            else do {
              result \<leftarrow> recv_loop (rounds io) (replicate 4 0);
              Some (take (nat (sent_code io)) t, Some result) } })"

text \<open>\<open>main\<close> prints the result as a string.\<close>

definition http_main :: "http_io \<Rightarrow> u8 list list \<Rightarrow> (int \<times> u8 list) option" where
  "http_main io argv =
     (if length argv < 3 then Some (-1, [])
      else do {
        (t, response) \<leftarrow> http_send_request io (argv ! 1) (argv ! 2);
        result \<leftarrow> response;
        d \<leftarrow> bstr result;
        Some (0, d) })"

section \<open>Collecting the answer\<close>

abbreviation zero_free :: "u8 list \<Rightarrow> u8 list" where
  "zero_free \<equiv> takeWhile (\<lambda>c. c \<noteq> 0)"

text \<open>The rounds before the last one bring chunks.\<close>

definition chunk_round :: "http_round \<Rightarrow> bool" where
  "chunk_round r \<longleftrightarrow> ready r \<and> memory r \<and> received r \<noteq> [] \<and> length (received r) \<le> BUFFER_SZIE"

definition last_round :: "http_round \<Rightarrow> bool" where
  "last_round r \<longleftrightarrow> \<not> ready r \<or> received r = []"

lemma bstr_end: "bstr (a @ 0 # b) = Some (zero_free a)"
  by (induction a) (auto simp: bstr_def)

lemma zero_free_id: "0 \<notin> set (zero_free a)"
  by (induction a) auto

lemma zero_free_all: "0 \<notin> set a \<Longrightarrow> zero_free a = a"
  by (induction a) auto

lemma bstr_Some:
  assumes "bstr r = Some d"
  shows "\<exists>t. r = d @ 0 # t \<and> 0 \<notin> set d"
proof -
  have z: "0 \<in> set r" and d: "d = zero_free r" using assms by (auto simp: bstr_def split: if_splits)
  have "dropWhile (\<lambda>c. c \<noteq> 0) r \<noteq> []" using z by simp
  then obtain x t where x: "dropWhile (\<lambda>c. c \<noteq> 0) r = x # t" by (cases "dropWhile (\<lambda>c. c \<noteq> 0) r") auto
  then have "x = 0" using hd_dropWhile [of "\<lambda>c. c \<noteq> 0" r] by auto
  moreover have "r = d @ dropWhile (\<lambda>c. c \<noteq> 0) r" by (simp add: d)
  ultimately show ?thesis using x zero_free_id [of r] d by auto
qed

lemma one_round:
  assumes "bstr result = Some d" "bs \<noteq> []"
  shows "\<exists>r. strncat (c_realloc result (length d + length bs + 1)) (bs @ pad) (length bs) = Some r \<and> bstr r = Some (d @ zero_free bs)"
proof -
  obtain t where t: "result = d @ 0 # t" "0 \<notin> set d" using bstr_Some [OF assms(1)] by blast
  let ?m = "c_realloc result (length d + length bs + 1)"
  obtain u where u: "?m = d @ 0 # u" "length u = length bs"
    using that [of "take (length bs) t @ replicate (length bs - length t) 0xAA"] by (simp add: c_realloc_def t(1) Suc_diff_le)
  have m: "bstr ?m = Some d" unfolding u(1) bstr_end using t(2) by (simp add: zero_free_all)
  have le: "length (zero_free bs) \<le> length bs" by (rule length_takeWhile_le)
  then have "put_bytes ?m (length d) (zero_free bs @ [0]) = Some (d @ zero_free bs @ 0 # drop (length (zero_free bs)) u)"
    unfolding u(1) using u(2) by (simp add: put_bytes_def)
  then have "strncat ?m (bs @ pad) (length bs) = Some ((d @ zero_free bs) @ 0 # drop (length (zero_free bs)) u)" using m by (simp add: strncat_def)
  moreover have "zero_free (d @ zero_free bs) = d @ zero_free bs" using t(2) zero_free_id [of bs] by (intro zero_free_all) simp
  ultimately show ?thesis using bstr_end [of "d @ zero_free bs"] by auto
qed

lemma recv_loop_collects:
  "bstr result = Some d \<Longrightarrow> \<forall>r\<in>set rs. chunk_round r \<Longrightarrow> last_round e \<Longrightarrow>
     \<exists>res. recv_loop (rs @ [e]) result = Some res \<and> bstr res = Some (d @ concat (map (\<lambda>r. zero_free (received r)) rs))"
proof (induction rs arbitrary: result d)
  case Nil
  then show ?case by (auto simp: last_round_def)
next
  case (Cons r rs)
  have c: "ready r" "memory r" "received r \<noteq> []" "length (received r) \<le> BUFFER_SZIE" using Cons.prems(2) by (simp_all add: chunk_round_def)
  obtain x where x: "strncat (c_realloc result (length d + length (received r) + 1))
      (received r @ replicate (BUFFER_SZIE - length (received r)) 0) (length (received r)) = Some x" "bstr x = Some (d @ zero_free (received r))"
    using one_round [OF Cons.prems(1) c(3)] by blast
  have "recv_loop ((r # rs) @ [e]) result = recv_loop (rs @ [e]) x"
    using c x(1) Cons.prems(1) by (simp add: Let_def)
  then show ?case using Cons.IH [OF x(2)] Cons.prems(2,3) by simp
qed

section \<open>Properties\<close>

text \<open>C39: when the request that the client builds is shorter than the buffer of 4096 bytes the client sends the part of it that one
  \<open>send\<close> takes, which is all of it when \<open>send\<close> says so, and otherwise writes outside its buffer; what it returns is the chunks it
  received one after the other, each only up to its first zero byte, and no access is outside the growing block.  This is for names
  that resolve, a socket that connects, a \<open>send\<close> that does not fail, and allocations that succeed.\<close>

theorem http_fetch:
  assumes "host_to_ip io = Some ip" "0 \<le> http_create_socket io" "0 \<le> sent_code io" "first_memory io"
    and "rounds io = rs @ [e]" "\<forall>r\<in>set rs. chunk_round r" "last_round e"
    and "0 \<notin> set hostname" "0 \<notin> set resource"
  shows "if length (http_request_text hostname resource) < 4096
     then \<exists>out res. http_send_request io hostname resource = Some (out, Some res) \<and>
       out = take (nat (sent_code io)) (http_request_text hostname resource) \<and>
       (sent_code io = int (length (http_request_text hostname resource)) \<longrightarrow> out = http_request_text hostname resource) \<and>
       bstr res = Some (concat (map (\<lambda>r. zero_free (received r)) rs))
     else http_send_request io hostname resource = None"
proof (cases "length (http_request_text hostname resource) < 4096")
  case True
  have z: "0 \<notin> set (http_request_text hostname resource)" using assms(8,9) by (auto simp: http_request_text_def bytes_def crlf_def)
  obtain res where res: "recv_loop (rounds io) (replicate 4 0) = Some res" "bstr res = Some (concat (map (\<lambda>r. zero_free (received r)) rs))"
    using recv_loop_collects [OF _ assms(6,7), of "replicate 4 0" "[]"] assms(5) by (auto simp: bstr_def numeral_eq_Suc)
  have "put_text (replicate BUFFER_SZIE 0) (http_request_text hostname resource) =
      Some (http_request_text hostname resource @ 0 # drop (length (http_request_text hostname resource) + 1) (replicate BUFFER_SZIE 0))"
    using True by (simp add: put_text_def BUFFER_SZIE_def)
  then have "http_send_request io hostname resource = Some (take (nat (sent_code io)) (http_request_text hostname resource), Some res)"
    using assms(1-4) res(1) z by (simp add: http_send_request_def bstr_end zero_free_all)
  then show ?thesis using True res(2) by simp
next
  case False
  then show ?thesis using assms(1,2) by (simp add: http_send_request_def put_text_def BUFFER_SZIE_def)
qed

definition demo_http :: http_io where
  "demo_http = \<lparr>resolved = Some [49], text_of_ip = True, sock = 3, connected = 0, nonblocking = 0, sent_code = int (length (http_request_text [104] [47])), first_memory = True,
     rounds = [\<lparr>ready = True, received = [72, 0, 73], memory = True\<rparr>, \<lparr>ready = True, received = [74], memory = True\<rparr>] @
       [\<lparr>ready = True, received = [], memory = True\<rparr>]\<rparr>"

theorem http_fetch_witness: "\<exists>res. http_send_request demo_http [104] [47] = Some (http_request_text [104] [47], Some res) \<and> bstr res = Some [72, 74]"
proof -
  have "length (http_request_text [104] [47]) < 4096" by (simp add: http_request_text_def bytes_def crlf_def)
  then show ?thesis
    using http_fetch [of demo_http "[49]" "[\<lparr>ready = True, received = [72, 0, 73], memory = True\<rparr>, \<lparr>ready = True, received = [74], memory = True\<rparr>]"
        "\<lparr>ready = True, received = [], memory = True\<rparr>" "[104]" "[47]"]
    by (simp add: demo_http_def host_to_ip_def http_create_socket_def chunk_round_def last_round_def BUFFER_SZIE_def)
qed

end
