(* ===== verification/Tcp_Servers.thy ===== *)
theory Tcp_Servers
  imports Prelude "HOL-Library.Monad_Syntax"
begin

text \<open>
  The four plain TCP servers: a thread per connection (\<open>tcp_onebyone.c\<close>), edge-triggered \<open>epoll\<close> on one port (\<open>tcp_epoll.c\<close>) and on a
  range of ports (\<open>tcp_Server.c\<close>), and \<open>poll\<close> (\<open>2.1.2_poll.c\<close>).  The answers of the system calls are arguments; a
  function is \<open>None\<close> when the C code leaves an array or when a loop has not ended after the answers given.  The first three servers
  only print what they receive, so \<open>printed\<close> is part of their state; other output is left out.
\<close>

definition BUFFER_SIZE :: nat where "BUFFER_SIZE = 1024"

text \<open>What one \<open>recv\<close> answers; \<open>Failed\<close> is any \<open>errno\<close> but \<open>EAGAIN\<close> and \<open>EINTR\<close>.\<close>

datatype recv_answer = Bytes "u8 list" | Eof | Again | Interrupted | Failed

text \<open>A buffer of zeros after a \<open>recv\<close>, and \<open>%s\<close> of it.\<close>

definition filled :: "u8 list \<Rightarrow> u8 list" where
  "filled bs = take BUFFER_SIZE bs @ replicate (BUFFER_SIZE - length bs) 0"

section \<open>A thread per connection\<close>

fun client_handler :: "recv_answer list \<Rightarrow> (u8 list \<times> int) list option" where
  "client_handler [] = None"
| "client_handler (r # rs) =
     (case r of
        Bytes bs \<Rightarrow> do {
          s \<leftarrow> bstr (filled bs);
          ps \<leftarrow> client_handler rs;
          Some ((s, int (length bs)) # ps) }
      | _ \<Rightarrow> Some [])"

text \<open>\<open>main\<close>: the exit code, or the connections that get a thread, in order.\<close>

fun accept_loop :: "int list \<Rightarrow> int list" where
  "accept_loop [] = []"
| "accept_loop (client_fd # accepts) = (if client_fd < 0 then accept_loop accepts else client_fd # accept_loop accepts)"

definition onebyone_main :: "int \<Rightarrow> int \<Rightarrow> int \<Rightarrow> int \<Rightarrow> int list \<Rightarrow> int + int list" where
  "onebyone_main argc server_fd bound listening accepts =
     (if argc < 2 then Inl (-1)
      else if server_fd < 0 then Inl (-2)
      else if bound < 0 then Inl (-3)
      else if listening < 0 then Inl (-4)
      else Inr (accept_loop accepts))"

section \<open>Edge-triggered servers\<close>

definition MAX_EVENTS :: nat where "MAX_EVENTS = 1024"
definition MAX_PORT :: nat where "MAX_PORT = 100"

record tcp =
  sockfds :: "int list"
  watched :: "int set"
  opened :: "int set"
  printed :: "(int \<times> u8 list \<times> int) list"

record tcp_event =
  on :: int
  accepted :: int
  recvs :: "recv_answer list"

text \<open>After an accept: registering a negative descriptor fails without effect.\<close>

definition add_client :: "int \<Rightarrow> tcp \<Rightarrow> tcp" where
  "add_client c s = (if c < 0 then s else s\<lparr>watched := insert c (watched s), opened := insert c (opened s)\<rparr>)"

definition drop_client :: "int \<Rightarrow> tcp \<Rightarrow> tcp" where
  "drop_client c s = s\<lparr>watched := watched s - {c}, opened := opened s - {c}\<rparr>"

subsection \<open>One port\<close>

fun epoll_drain :: "int \<Rightarrow> recv_answer list \<Rightarrow> tcp \<Rightarrow> tcp option" where
  "epoll_drain client_fd [] s = None"
| "epoll_drain client_fd (r # rs) s =
     (case r of
        Again \<Rightarrow> Some s
      | Eof \<Rightarrow> Some (drop_client client_fd s)
      | Bytes bs \<Rightarrow> do {
          t \<leftarrow> bstr (filled bs);
          epoll_drain client_fd rs (s\<lparr>printed := printed s @ [(client_fd, t, int (length bs))]\<rparr>) }
      | _ \<Rightarrow> epoll_drain client_fd rs (s\<lparr>printed := printed s @ [(client_fd, [], -1)]\<rparr>))"

definition epoll_setup :: "int \<Rightarrow> int \<Rightarrow> int \<Rightarrow> int \<Rightarrow> int + tcp" where
  "epoll_setup argc listen_fd bound listening =
     (if argc < 2 then Inl (-1)
      else if listen_fd < 0 then Inl (-2)
      else if bound < 0 then Inl (-2)
      else if listening < 0 then Inl (-3)
      else Inr \<lparr>sockfds = [listen_fd], watched = {listen_fd}, opened = {listen_fd}, printed = []\<rparr>)"

definition epoll_event :: "tcp_event \<Rightarrow> tcp \<Rightarrow> tcp option" where
  "epoll_event e s =
     (if on e = hd (sockfds s) then Some (add_client (accepted e) s)
      else epoll_drain (on e) (recvs e) s)"

subsection \<open>A range of ports\<close>

fun islisten_loop :: "int \<Rightarrow> int list \<Rightarrow> int" where
  "islisten_loop fd [] = 0"
| "islisten_loop fd (x # fds) = (if fd = x then fd else islisten_loop fd fds)"

definition islistenfd :: "int \<Rightarrow> int list \<Rightarrow> int" where
  "islistenfd fd fds = islisten_loop fd (take MAX_PORT fds)"

text \<open>The loop over the ports, with the results of \<open>socket\<close>, \<open>bind\<close> and \<open>listen\<close> for each; \<open>sockfds\<close> is an array of zeros before.\<close>

fun ports_loop :: "nat \<Rightarrow> (int \<times> int \<times> int) list \<Rightarrow> tcp \<Rightarrow> int + tcp" where
  "ports_loop i [] s = Inr s"
| "ports_loop i ((listen_fd, bound, listening) # rs) s =
     (if listen_fd < 0 then Inl (-2)
      else if bound < 0 then Inl (-2)
      else if listening < 0 then Inl (-3)
      else ports_loop (i + 1) rs
        (s\<lparr>sockfds := (sockfds s)[i := listen_fd], watched := insert listen_fd (watched s), opened := insert listen_fd (opened s)\<rparr>))"

definition server_setup :: "int \<Rightarrow> (int \<times> int \<times> int) list \<Rightarrow> int + tcp" where
  "server_setup argc rs =
     (if argc < 2 then Inl (-1)
      else ports_loop 0 (take MAX_EVENTS rs) \<lparr>sockfds = replicate MAX_EVENTS 0, watched = {}, opened = {}, printed = []\<rparr>)"

fun server_drain :: "int \<Rightarrow> recv_answer list \<Rightarrow> tcp \<Rightarrow> tcp option" where
  "server_drain client_fd [] s = None"
| "server_drain client_fd (r # rs) s =
     (case r of
        Again \<Rightarrow> Some s
      | Interrupted \<Rightarrow> server_drain client_fd rs s
      | Failed \<Rightarrow> Some (drop_client client_fd s)
      | Eof \<Rightarrow> Some (drop_client client_fd s)
      | Bytes bs \<Rightarrow> server_drain client_fd rs
          (s\<lparr>printed := printed s @ [(client_fd, takeWhile (\<lambda>c. c \<noteq> 0) bs, int (length bs))]\<rparr>))"

definition server_event :: "tcp_event \<Rightarrow> tcp \<Rightarrow> tcp option" where
  "server_event e s =
     (let sockfd = islistenfd (on e) (sockfds s) in
      if sockfd \<noteq> 0 then Some (add_client (accepted e) s)
      else server_drain (on e) (recvs e) s)"

section \<open>Draining a connection\<close>

abbreviation whole :: "u8 list \<Rightarrow> bool" where
  "whole bs \<equiv> bs \<noteq> [] \<and> length bs < BUFFER_SIZE \<and> 0 \<notin> set bs"

lemma bstr_filled: "whole bs \<Longrightarrow> bstr (filled bs) = Some bs"
proof -
  assume w: "whole bs"
  then have "filled bs = bs @ 0 # replicate (BUFFER_SIZE - length bs - 1) 0"
    by (simp add: filled_def replicate_Suc [symmetric] Suc_diff_Suc del: replicate_Suc)
  moreover have "takeWhile (\<lambda>c. c \<noteq> 0) (bs @ 0 # z) = bs" for z
  proof -
    have "\<forall>c\<in>set bs. c \<noteq> 0" using w by auto
    then show ?thesis by (simp add: takeWhile_append)
  qed
  ultimately show ?thesis by (simp add: bstr_def)
qed

lemma bstr_full: "length bs = BUFFER_SIZE \<Longrightarrow> 0 \<notin> set bs \<Longrightarrow> bstr (filled bs) = None"
  by (simp add: filled_def bstr_def)

definition lines_of :: "int \<Rightarrow> u8 list list \<Rightarrow> (int \<times> u8 list \<times> int) list" where
  "lines_of c bss = map (\<lambda>bs. (c, bs, int (length bs))) bss"

lemma handler_prints: "\<forall>bs\<in>set bss. whole bs \<Longrightarrow> client_handler (map Bytes bss @ [Eof]) = Some (map (\<lambda>bs. (bs, int (length bs))) bss)"
  by (induction bss) (simp_all add: bstr_filled)

lemma epoll_drain_prints:
  "\<forall>bs\<in>set bss. whole bs \<Longrightarrow> epoll_drain c (map Bytes bss @ [Again]) s = Some (s\<lparr>printed := printed s @ lines_of c bss\<rparr>)"
  by (induction bss arbitrary: s) (simp_all add: bstr_filled lines_of_def)

lemma server_drain_prints:
  "\<forall>bs\<in>set bss. whole bs \<Longrightarrow> server_drain c (map Bytes bss @ [Again]) s = Some (s\<lparr>printed := printed s @ lines_of c bss\<rparr>)"
proof (induction bss arbitrary: s)
  case (Cons bs bss)
  have "takeWhile (\<lambda>c. c \<noteq> 0) bs = bs" using Cons.prems by (intro takeWhile_eq_all_conv [THEN iffD2]) auto
  then show ?case using Cons by (simp add: lines_of_def)
qed (simp add: lines_of_def)

text \<open>\<open>tcp_epoll.c\<close> does not leave its loop on an error of \<open>recv\<close>: while the error lasts it prints and tries again.\<close>

lemma epoll_drain_spins: "epoll_drain c (replicate n Failed) s = None"
  by (induction n arbitrary: s) simp_all

lemma ports_loop_ok:
  "\<forall>(f, b, l)\<in>set rs. 0 < f \<and> 0 \<le> b \<and> 0 \<le> l \<Longrightarrow> i + length rs = length (sockfds s) \<Longrightarrow>
     ports_loop i rs s = Inr (s\<lparr>sockfds := take i (sockfds s) @ map fst rs, watched := set (map fst rs) \<union> watched s, opened := set (map fst rs) \<union> opened s\<rparr>)"
proof (induction rs arbitrary: i s)
  case Nil
  then show ?case by (cases s) simp
next
  case (Cons r rs)
  obtain f b l where r: "r = (f, b, l)" by (cases r) auto
  let ?s = "s\<lparr>sockfds := (sockfds s)[i := f], watched := insert f (watched s), opened := insert f (opened s)\<rparr>"
  have "ports_loop i (r # rs) s = ports_loop (i + 1) rs ?s" using Cons.prems by (simp add: r)
  also have "\<dots> = Inr (?s\<lparr>sockfds := take (i + 1) (sockfds ?s) @ map fst rs, watched := set (map fst rs) \<union> watched ?s, opened := set (map fst rs) \<union> opened ?s\<rparr>)"
    using Cons.prems by (intro Cons.IH) auto
  also have "take (i + 1) (sockfds ?s) = take i (sockfds s) @ [f]" using Cons.prems(2) by (simp add: take_Suc_conv_app_nth)
  finally show ?case by (simp add: r)
qed

lemma islisten_iff: "0 \<notin> set fds \<Longrightarrow> islisten_loop fd fds \<noteq> 0 \<longleftrightarrow> fd \<in> set fds"
  by (induction fds) auto

section \<open>The poll server\<close>

text \<open>An entry of the array: the descriptor, and whether \<open>POLLIN\<close> is asked for.\<close>

record poll_server =
  fds :: "(int \<times> bool) list"
  maxfd :: int
  heard :: "int \<Rightarrow> u8 list list"
  echoed :: "int \<Rightarrow> u8 list"

record poll_io =
  pollin :: "int set"
  accepts :: int
  answers :: "int \<Rightarrow> recv_answer"
  takes :: "int \<Rightarrow> nat"

definition poll_start :: "int \<Rightarrow> poll_server option" where
  "poll_start sockfd =
     (if 0 \<le> sockfd \<and> sockfd < 1024 then
        Some \<lparr>fds = (replicate 1024 (0, False))[nat sockfd := (sockfd, True)], maxfd = sockfd, heard = (\<lambda>_. []), echoed = (\<lambda>_. [])\<rparr>
      else None)"

definition poll_accept :: "int \<Rightarrow> poll_io \<Rightarrow> poll_server \<Rightarrow> poll_server option" where
  "poll_accept sockfd r s =
     (if sockfd \<in> pollin r then
        (let c = accepts r in
         if 0 \<le> c \<and> c < 1024 then
           Some (s\<lparr>fds := (fds s)[nat c := (c, True)], maxfd := (if c > maxfd s then c else maxfd s),
             heard := (heard s)(c := []), echoed := (echoed s)(c := [])\<rparr>)
         else None)
      else Some s)"

text \<open>The message is printed as a string, which leaves the buffer when it is full and has no zero byte.  After an error \<open>count\<close> is \<open>-1\<close>,
  which \<open>send\<close> takes for a length.  \<open>heard\<close> lists the messages, \<open>echoed\<close> the bytes that \<open>send\<close> took.\<close>

definition poll_client :: "poll_io \<Rightarrow> nat \<Rightarrow> poll_server \<Rightarrow> poll_server option" where
  "poll_client r i s =
     (if int i \<in> pollin r then
        (case answers r (int i) of
           Eof \<Rightarrow> Some (s\<lparr>fds := (fds s)[i := (-1, False)]\<rparr>)
         | Bytes bs \<Rightarrow> do {
             let bs = take BUFFER_SIZE bs;
             _ \<leftarrow> bstr (filled bs);
             Some (s\<lparr>heard := (heard s)(int i := heard s (int i) @ [bs]),
               echoed := (echoed s)(int i := echoed s (int i) @ take (takes r (int i)) bs)\<rparr>) }
         | _ \<Rightarrow> None)
      else Some s)"

fun poll_loop :: "poll_io \<Rightarrow> nat \<Rightarrow> nat \<Rightarrow> poll_server \<Rightarrow> poll_server option" where
  "poll_loop r i 0 s = Some s"
| "poll_loop r i (Suc k) s = do { s \<leftarrow> poll_client r i s; poll_loop r (i + 1) k s }"

definition poll_round :: "int \<Rightarrow> poll_io \<Rightarrow> poll_server \<Rightarrow> poll_server option" where
  "poll_round sockfd r s = do {
     s \<leftarrow> poll_accept sockfd r s;
     poll_loop r (nat (sockfd + 1)) (nat (maxfd s - sockfd)) s }"

text \<open>What the kernel reports and answers: input only for entries that ask for it, a fresh descriptor that fits the array, no error of
  \<open>recv\<close>, and messages that leave a zero byte in the buffer.  \<open>send\<close> may take any part; with \<open>full\<close> it takes everything.\<close>

definition poll_message :: "bool \<Rightarrow> poll_io \<Rightarrow> int \<Rightarrow> bool" where
  "poll_message full r i \<longleftrightarrow> (\<exists>bs. answers r i = Bytes bs \<and> bs \<noteq> [] \<and> (length bs < 1024 \<or> length bs = 1024 \<and> 0 \<in> set bs) \<and>
     (full \<longrightarrow> length bs \<le> takes r i))"

definition poll_fair :: "bool \<Rightarrow> int \<Rightarrow> poll_io \<Rightarrow> poll_server \<Rightarrow> bool" where
  "poll_fair full sockfd r s \<longleftrightarrow>
     (\<forall>i\<in>pollin r. 0 \<le> i \<and> i < 1024 \<and> fds s ! nat i = (i, True) \<and> (i \<noteq> sockfd \<longrightarrow> answers r i = Eof \<or> poll_message full r i)) \<and>
     (sockfd \<in> pollin r \<longrightarrow> sockfd < accepts r \<and> accepts r < 1024 \<and> fds s ! nat (accepts r) \<noteq> (accepts r, True))"

inductive poll_run :: "bool \<Rightarrow> int \<Rightarrow> poll_server \<Rightarrow> bool" for full sockfd where
  poll_first: "poll_start sockfd = Some s \<Longrightarrow> poll_run full sockfd s"
| poll_next: "poll_run full sockfd s \<Longrightarrow> poll_fair full sockfd r s \<Longrightarrow> poll_round sockfd r s = Some s' \<Longrightarrow> poll_run full sockfd s'"

definition echoes :: "bool \<Rightarrow> poll_server \<Rightarrow> int \<Rightarrow> bool" where
  "echoes full s c \<longleftrightarrow> (\<exists>parts. echoed s c = concat parts \<and> list_all2 (cut full) parts (heard s c))"

definition poll_inv :: "bool \<Rightarrow> int \<Rightarrow> poll_server \<Rightarrow> bool" where
  "poll_inv full sockfd s \<longleftrightarrow> 0 \<le> sockfd \<and> sockfd \<le> maxfd s \<and> maxfd s < 1024 \<and> length (fds s) = 1024 \<and> (\<forall>c. echoes full s c) \<and>
     fds s ! nat sockfd = (sockfd, True)"

lemma echoes_more:
  assumes "echoes full s c" "cut full p m"
  shows "\<exists>parts. echoed s c @ p = concat parts \<and> list_all2 (cut full) parts (heard s c @ [m])"
proof -
  obtain parts where "echoed s c = concat parts" "list_all2 (cut full) parts (heard s c)" using assms(1) by (auto simp: echoes_def)
  then show ?thesis using assms(2) by (intro exI [of _ "parts @ [p]"]) (simp add: list_all2_appendI)
qed

lemma poll_client_inv:
  assumes inv: "poll_inv full sockfd s" and ans: "int i \<in> pollin r \<Longrightarrow> answers r (int i) = Eof \<or> poll_message full r (int i)"
    and i: "sockfd < int i"
  shows "\<exists>t. poll_client r i s = Some t \<and> poll_inv full sockfd t \<and> maxfd t = maxfd s"
proof (cases "int i \<in> pollin r")
  case True
  have ne: "nat sockfd \<noteq> i" using inv i by (auto simp: poll_inv_def)
  consider "answers r (int i) = Eof" | "poll_message full r (int i)" using ans [OF True] by blast
  then show ?thesis
  proof cases
    case 1
    then show ?thesis using True inv ne by (simp add: poll_client_def poll_inv_def echoes_def)
  next
    case 2
    then obtain bs where bs: "answers r (int i) = Bytes bs" "length bs < 1024 \<or> length bs = 1024 \<and> 0 \<in> set bs" "full \<longrightarrow> length bs \<le> takes r (int i)"
      by (auto simp: poll_message_def)
    then have t: "take BUFFER_SIZE bs = bs" and "0 \<in> set (filled bs)" by (auto simp: filled_def BUFFER_SIZE_def)
    then obtain str where str: "bstr (filled bs) = Some str" by (simp add: bstr_def)
    have "cut full (take (takes r (int i)) bs) bs" using bs(3) by (intro cut_take) simp
    from echoes_more [OF _ this, of s "int i"] inv have
      "\<exists>parts. echoed s (int i) @ take (takes r (int i)) bs = concat parts \<and> list_all2 (cut full) parts (heard s (int i) @ [bs])"
      by (simp add: poll_inv_def)
    then show ?thesis using True inv ne bs(1) t str by (simp add: poll_client_def poll_inv_def echoes_def)
  qed
next
  case False
  then show ?thesis using inv by (simp add: poll_client_def)
qed

lemma poll_loop_inv:
  assumes "poll_inv full sockfd s" "\<And>j. int j \<in> pollin r \<Longrightarrow> i \<le> j \<Longrightarrow> answers r (int j) = Eof \<or> poll_message full r (int j)"
    and "sockfd < int i"
  shows "\<exists>s'. poll_loop r i k s = Some s' \<and> poll_inv full sockfd s' \<and> maxfd s' = maxfd s"
  using assms
proof (induction k arbitrary: i s)
  case (Suc k)
  obtain t where t: "poll_client r i s = Some t" "poll_inv full sockfd t" "maxfd t = maxfd s"
    using poll_client_inv [OF Suc.prems(1) _ Suc.prems(3)] Suc.prems(2) by blast
  have "\<exists>s'. poll_loop r (i + 1) k t = Some s' \<and> poll_inv full sockfd s' \<and> maxfd s' = maxfd t"
    using Suc.prems(2,3) t(2) by (intro Suc.IH) auto
  then show ?case using t by auto
qed simp

lemma poll_round_inv:
  assumes "poll_inv full sockfd s" "poll_fair full sockfd r s"
  shows "\<exists>s'. poll_round sockfd r s = Some s' \<and> poll_inv full sockfd s'"
proof -
  have ans: "answers r (int j) = Eof \<or> poll_message full r (int j)" if "int j \<in> pollin r" "nat (sockfd + 1) \<le> j" for j
  proof -
    have "int j \<noteq> sockfd" using that(2) assms(1) by (auto simp: poll_inv_def)
    then show ?thesis using assms(2) that(1) unfolding poll_fair_def by blast
  qed
  have "\<exists>t. poll_accept sockfd r s = Some t \<and> poll_inv full sockfd t"
  proof (cases "sockfd \<in> pollin r")
    case True
    then have a: "sockfd < accepts r" "accepts r < 1024" using assms(2) by (simp_all add: poll_fair_def)
    moreover from this have "nat (accepts r) \<noteq> nat sockfd" using assms(1) by (auto simp: poll_inv_def nat_eq_iff)
    ultimately show ?thesis using True assms(1) by (auto simp: poll_accept_def poll_inv_def echoes_def Let_def)
  next
    case False
    then show ?thesis using assms(1) by (simp add: poll_accept_def)
  qed
  then obtain t where t: "poll_accept sockfd r s = Some t" "poll_inv full sockfd t" by blast
  have "sockfd < int (nat (sockfd + 1))" using t(2) by (simp add: poll_inv_def)
  from poll_loop_inv [OF t(2) ans this] show ?thesis using t(1) by (auto simp: poll_round_def)
qed

lemma poll_run_inv: "poll_run full sockfd s \<Longrightarrow> poll_inv full sockfd s"
proof (induction rule: poll_run.induct)
  case (poll_first s)
  then show ?case by (auto simp: poll_start_def poll_inv_def echoes_def split: if_splits)
next
  case (poll_next s r s')
  then show ?case using poll_round_inv by fastforce
qed

section \<open>Properties\<close>

text \<open>of the 1024 ports of \<open>tcp_Server.c\<close> only the first 100 work: a connection to one of these is accepted and watched, while the first connection to any other
  makes the server call \<open>recv\<close> on the listening socket, which fails, and close it.\<close>

theorem server_ports:
  assumes "length rs = 1024" "distinct (map fst rs)" "\<forall>(f, b, l)\<in>set rs. 0 < f \<and> 0 \<le> b \<and> 0 \<le> l" "i < 1024" "0 < c"
  shows "\<exists>s. server_setup 2 rs = Inr s \<and> fst (rs ! i) \<in> opened s \<and> fst (rs ! i) \<in> watched s \<and>
    (if i < 100 then \<exists>s'. server_event \<lparr>on = fst (rs ! i), accepted = c, recvs = as\<rparr> s = Some s' \<and> c \<in> watched s' \<and> c \<in> opened s' \<and> fst (rs ! i) \<in> opened s'
     else \<exists>s'. server_event \<lparr>on = fst (rs ! i), accepted = c, recvs = Failed # as\<rparr> s = Some s' \<and> fst (rs ! i) \<notin> opened s' \<and> fst (rs ! i) \<notin> watched s')"
proof -
  let ?s = "\<lparr>sockfds = map fst rs, watched = set (map fst rs), opened = set (map fst rs), printed = []\<rparr> :: tcp"
  have set: "server_setup 2 rs = Inr ?s"
    using ports_loop_ok [OF assms(3), of 0 "\<lparr>sockfds = replicate MAX_EVENTS 0, watched = {}, opened = {}, printed = []\<rparr> :: tcp"] assms(1)
    by (simp add: server_setup_def MAX_EVENTS_def)
  have mem: "fst (rs ! i) \<in> set (map fst rs)" using assms(1,4) by simp
  have z: "0 \<notin> set (take 100 (map fst rs))"
  proof
    assume "0 \<in> set (take 100 (map fst rs))"
    then have "0 \<in> set (map fst rs)" by (rule in_set_takeD)
    then show False using assms(3) by force
  qed
  have "fst (rs ! i) \<in> set (take 100 (map fst rs)) \<longleftrightarrow> i < 100"
  proof
    assume "fst (rs ! i) \<in> set (take 100 (map fst rs))"
    then obtain j where "j < 100" "j < 1024" "map fst rs ! j = map fst rs ! i" using assms(1,4) by (auto simp: in_set_conv_nth)
    then have "j = i" using nth_eq_iff_index_eq [OF assms(2), of j i] assms(1,4) by simp
    then show "i < 100" using \<open>j < 100\<close> by simp
  next
    assume "i < 100"
    then show "fst (rs ! i) \<in> set (take 100 (map fst rs))" using assms(1) by (auto simp: in_set_conv_nth intro!: exI [of _ i])
  qed
  then have l: "islistenfd (fst (rs ! i)) (map fst rs) \<noteq> 0 \<longleftrightarrow> i < 100"
    using islisten_iff [OF z] by (simp add: islistenfd_def MAX_PORT_def)
  show ?thesis
  proof (intro exI [of _ ?s] conjI)
    show "if i < 100 then \<exists>s'. server_event \<lparr>on = fst (rs ! i), accepted = c, recvs = as\<rparr> ?s = Some s' \<and> c \<in> watched s' \<and> c \<in> opened s' \<and> fst (rs ! i) \<in> opened s'
     else \<exists>s'. server_event \<lparr>on = fst (rs ! i), accepted = c, recvs = Failed # as\<rparr> ?s = Some s' \<and> fst (rs ! i) \<notin> opened s' \<and> fst (rs ! i) \<notin> watched s'"
      using l mem assms(5) by (simp add: server_event_def Let_def add_client_def drop_client_def)
  qed (use set mem in simp_all)
qed

text \<open>C40: the \<open>poll\<close> server echoes: as long as the descriptors it is given fit its array, no \<open>accept\<close> or \<open>recv\<close> fails and every message
  leaves a zero byte in the buffer of 1024 bytes, every round is defined, and in every state each connection has been sent, for each message
  received from it and in their order, the part of it that \<open>send\<close> took; when every \<open>send\<close> takes everything, exactly the bytes received.\<close>

theorem poll_echoes:
  assumes "poll_run full sockfd s" "poll_fair full sockfd r s"
  shows "(\<exists>parts. echoed s c = concat parts \<and> list_all2 (cut full) parts (heard s c)) \<and> (full \<longrightarrow> echoed s c = concat (heard s c)) \<and>
    (\<exists>s'. poll_round sockfd r s = Some s' \<and> poll_run full sockfd s')"
proof -
  have inv: "poll_inv full sockfd s" using assms(1) by (rule poll_run_inv)
  then obtain parts where p: "echoed s c = concat parts" "list_all2 (cut full) parts (heard s c)" by (auto simp: poll_inv_def echoes_def)
  moreover have "echoed s c = concat (heard s c)" if full using p that by (simp add: list_all2_eq [symmetric])
  ultimately show ?thesis using poll_round_inv [OF inv assms(2)] poll_next [OF assms] by blast
qed

text \<open>A full message without a zero byte is printed from outside the buffer.\<close>

lemma poll_full: "int i \<in> pollin r \<Longrightarrow> answers r (int i) = Bytes bs \<Longrightarrow> length bs = BUFFER_SIZE \<Longrightarrow> 0 \<notin> set bs \<Longrightarrow> poll_client r i s = None"
  by (simp add: poll_client_def bstr_full)

theorem poll_echoes_witness:
  "\<exists>s s'. poll_run True 3 s \<and> heard s 4 = [[104, 105]] \<and> echoed s 4 = [104, 105] \<and>
     poll_round 3 \<lparr>pollin = {4}, accepts = -1, answers = (\<lambda>_. Eof), takes = (\<lambda>_. 0)\<rparr> s = Some s'"
proof -
  let ?r1 = "\<lparr>pollin = {3}, accepts = 4, answers = (\<lambda>_. Eof), takes = (\<lambda>_. 0)\<rparr>"
  let ?r2 = "\<lparr>pollin = {4}, accepts = -1, answers = (\<lambda>_. Bytes [104, 105]), takes = (\<lambda>_. 2)\<rparr>"
  let ?r3 = "\<lparr>pollin = {4}, accepts = -1, answers = (\<lambda>_. Eof), takes = (\<lambda>_. 0)\<rparr>"
  obtain s0 where s0: "poll_start 3 = Some s0" "length (fds s0) = 1024" "fds s0 ! 3 = (3, True)" "fds s0 ! 4 = (0, False)" "maxfd s0 = 3"
    by (auto simp: poll_start_def)
  define s1 where "s1 = s0\<lparr>fds := (fds s0)[4 := (4, True)], maxfd := 4, heard := (heard s0)(4 := []), echoed := (echoed s0)(4 := [])\<rparr>"
  define s2 where "s2 = s1\<lparr>heard := (heard s1)(4 := [[104, 105]]), echoed := (echoed s1)(4 := [104, 105])\<rparr>"
  have "bstr (filled [104, 105]) = Some [104, 105]" by (rule bstr_filled) (simp add: BUFFER_SIZE_def)
  then have f: "poll_round 3 ?r1 s0 = Some s1" "poll_round 3 ?r2 s1 = Some s2"
    using s0 by (simp_all add: poll_round_def poll_accept_def poll_client_def s1_def s2_def Let_def BUFFER_SIZE_def)
  have "poll_fair True 3 ?r1 s0" "poll_fair True 3 ?r2 s1" "poll_fair True 3 ?r3 s2" using s0
    by (simp_all add: poll_fair_def poll_message_def s1_def s2_def)
  then have run: "poll_run True 3 s2" and fair: "poll_fair True 3 ?r3 s2" using poll_next [OF poll_next [OF poll_first [OF s0(1)] _ f(1)] _ f(2)] by simp_all
  have "heard s2 4 = [[104, 105]]" by (simp add: s2_def)
  then show ?thesis using poll_echoes [OF run fair, of 4] run by auto
qed

theorem server_ports_witness:
  "\<exists>s s'. server_setup 2 (map (\<lambda>i. (int i + 3, 0, 0)) [0..<1024]) = Inr s \<and>
     server_event \<lparr>on = 503, accepted = 2000, recvs = [Failed]\<rparr> s = Some s' \<and> 503 \<notin> opened s'"
proof -
  let ?rs = "map (\<lambda>i. (int i + 3, 0, 0)) [0..<1024] :: (int \<times> int \<times> int) list"
  have "distinct (map fst ?rs)" by (simp add: distinct_map inj_on_def comp_def)
  then show ?thesis using server_ports [of ?rs 500 2000 "[]"] by auto
qed

end
