(* ===== verification/Load_Client.thy ===== *)
theory Load_Client
  imports Prelude "HOL-Library.Monad_Syntax"
begin

text \<open>
  The two clients that load the many-port servers, \<open>mul_port_client_epoll.c\<close> and \<open>2.1.3_mul_port_client_epoll_MillionConcurrent.c\<close>: each round opens a
  connection to the next port while there are fewer than 340000, and every thousand connections serves what \<open>epoll_wait\<close> reports.  The answers of
  the system calls are in the record of a round; a function is \<open>None\<close> when text leaves the buffer.  Time measurements, sleeping and diagnostics are left out,
  with their read of a full receive buffer as a string.
\<close>

section \<open>State\<close>

definition MAX_BUFFER :: nat where "MAX_BUFFER = 128"
definition MAX_EPOLLSIZE :: int where "MAX_EPOLLSIZE = 384 * 1024"
definition MAX_PORT_100 :: int where "MAX_PORT_100 = 100"
definition MAX_PORT_20 :: int where "MAX_PORT_20 = 20"

text \<open>\<open>asked\<close> are the ports of all calls of \<open>connect\<close>, \<open>written\<close> what was given to \<open>send\<close> and on which descriptor; \<open>opened\<close> and \<open>watched\<close> are the open
  descriptors and those registered with \<open>epoll\<close>.\<close>

record load =
  isContinue :: int
  index :: int
  connections :: int
  sockfd :: int
  text_buf :: "u8 list"
  opened :: "int set"
  watched :: "int set"
  asked :: "u16 list"
  written :: "(int \<times> u8 list) list"

datatype load_answer = Got "u8 list" | Closed | Errno int

record load_event =
  on :: int
  writable :: bool
  readable :: bool
  answer :: load_answer

record load_io =
  socket_fd :: int
  connected :: bool
  reported :: "load_event list"

definition EINTR :: int where "EINTR = 4"
definition EAGAIN :: int where "EAGAIN = 11"
definition ENOTSOCK :: int where "ENOTSOCK = 88"

text \<open>\<open>%\<close> of C.\<close>

definition crem :: "int \<Rightarrow> int \<Rightarrow> int" where
  "crem a b = a - cdiv a b * b"

definition decimal :: "int \<Rightarrow> u8 list" where
  "decimal i = (if i < 0 then 45 # digits (nat (- i)) else digits (nat i))"

text \<open>\<open>send(fd, buffer, strlen(buffer), 0)\<close>, and \<open>close\<close>, which also takes the descriptor out of the interest set.\<close>

definition send_text :: "int \<Rightarrow> load \<Rightarrow> load option" where
  "send_text fd s = do { t \<leftarrow> bstr (text_buf s); Some (s\<lparr>written := written s @ [(fd, t)]\<rparr>) }"

definition close_fd :: "int \<Rightarrow> load \<Rightarrow> load" where
  "close_fd fd s = s\<lparr>opened := opened s - {fd}, watched := watched s - {fd}\<rparr>"

definition say :: "u8 list \<Rightarrow> load \<Rightarrow> load option" where
  "say t s = do { b \<leftarrow> put_text (text_buf s) t; Some (s\<lparr>text_buf := b\<rparr>) }"

definition load_start :: load where
  "load_start = \<lparr>isContinue = 0, index = 0, connections = 0, sockfd = 0,
     text_buf = bytes '' Data From MulClient'' @ [10, 0] @ replicate (128 - 22) 0, opened = {}, watched = {}, asked = [], written = []\<rparr>"

section \<open>A connection\<close>

text \<open>\<open>hello\<close> writes the greeting into the buffer, where the program does; \<open>Inl\<close> is the jump to \<open>err\<close>.\<close>

definition next_index :: "int \<Rightarrow> load \<Rightarrow> load" where
  "next_index ports s = (let i = index s + 1 in s\<lparr>index := (if i \<ge> ports then 0 else i)\<rparr>)"

definition open_connection :: "(load \<Rightarrow> load option) \<Rightarrow> int \<Rightarrow> load_io \<Rightarrow> load \<Rightarrow> (load + load) option" where
  "open_connection hello port r s =
     (let fd = socket_fd r; s = s\<lparr>sockfd := fd\<rparr> in
      if fd = -1 then Some (Inl s)
      else
        (let s = s\<lparr>opened := insert fd (opened s), asked := asked s @ [word_of_int (port + index s)]\<rparr> in
         if \<not> connected r then Some (Inl s)
         else do {
           s \<leftarrow> hello s;
           s \<leftarrow> send_text fd s;
           Some (Inr (s\<lparr>watched := insert fd (watched s), connections := connections s + 1\<rparr>)) }))"

definition greet :: "load \<Rightarrow> load option" where
  "greet s = say (bytes ''Hello Server: client --> '' @ decimal (connections s) @ [10]) s"

section \<open>Events\<close>

definition is_quit :: "u8 list \<Rightarrow> bool" where
  "is_quit bs \<longleftrightarrow> takeWhile (\<lambda>b. b \<noteq> 0) bs = bytes ''quit''"

text \<open>What both programs do with the answer of \<open>recv\<close>; \<open>again\<close> are the error numbers after which they go on.\<close>

definition on_input :: "int set \<Rightarrow> int \<Rightarrow> load_answer \<Rightarrow> load \<Rightarrow> load" where
  "on_input again clientfd a s =
     (case a of
        Got bs \<Rightarrow> if is_quit (take MAX_BUFFER bs) then s\<lparr>isContinue := 0\<rparr> else s
      | Closed \<Rightarrow> close_fd clientfd (s\<lparr>connections := connections s - 1\<rparr>)
      | Errno e \<Rightarrow> if e \<in> again then s else close_fd clientfd s)"

definition event_100 :: "load_event \<Rightarrow> load \<Rightarrow> load option" where
  "event_100 e s =
     (let clientfd = on e in
      if writable e then do {
        s \<leftarrow> say (bytes ''data from '' @ decimal clientfd @ [10]) s;
        send_text clientfd s }
      else if readable e then Some (on_input {EINTR} clientfd (answer e) s)
      else Some (close_fd clientfd s))"

text \<open>The other program sends and receives on \<open>sockfd\<close>.\<close>

definition event_20 :: "load_event \<Rightarrow> load \<Rightarrow> load option" where
  "event_20 e s =
     (let clientfd = on e in
      if writable e then send_text (sockfd s) s
      else if readable e then Some (on_input {EINTR, EAGAIN, ENOTSOCK} clientfd (answer e) s)
      else Some (close_fd clientfd s))"

fun each :: "(load_event \<Rightarrow> load \<Rightarrow> load option) \<Rightarrow> load_event list \<Rightarrow> load \<Rightarrow> load option" where
  "each f [] s = Some s"
| "each f (e # es) s = do { s \<leftarrow> f e s; each f es s }"

section \<open>The loops\<close>

definition serve :: "(load_event \<Rightarrow> load \<Rightarrow> load option) \<Rightarrow> load_io \<Rightarrow> load \<Rightarrow> load option" where
  "serve f r s = (if crem (connections s) 1000 = 999 \<or> connections s \<ge> 340000 then each f (reported r) s else Some s)"

definition round_100 :: "int \<Rightarrow> load_io \<Rightarrow> load \<Rightarrow> (load + load) option" where
  "round_100 port r s = do {
     let s = (next_index MAX_PORT_100 s)\<lparr>sockfd := 0\<rparr>;
     x \<leftarrow> (if connections s < 340000 \<and> isContinue s = 0 then open_connection greet port r s else Some (Inr s));
     (case x of Inl s \<Rightarrow> Some (Inl s) | Inr s \<Rightarrow> map_option Inr (serve event_100 r s)) }"

definition round_20 :: "int \<Rightarrow> load_io \<Rightarrow> load \<Rightarrow> (load + load) option" where
  "round_20 port r s = do {
     let s = next_index MAX_PORT_20 s;
     x \<leftarrow> (if connections s < 340000 \<and> isContinue s = 0 then open_connection Some port r s else Some (Inr s));
     (case x of Inl s \<Rightarrow> Some (Inl s) | Inr s \<Rightarrow> map_option Inr (serve event_20 r s)) }"

section \<open>What every run keeps\<close>

definition text_ok :: "load \<Rightarrow> bool" where
  "text_ok s \<longleftrightarrow> length (text_buf s) = 128 \<and> 0 \<in> set (text_buf s)"

definition load_inv :: "int \<Rightarrow> int \<Rightarrow> load \<Rightarrow> bool" where
  "load_inv ports port s \<longleftrightarrow> isContinue s = 0 \<and> 0 \<le> index s \<and> index s < ports \<and> finite (watched s) \<and> int (card (watched s)) \<le> connections s \<and>
     connections s \<le> 340000 \<and> text_ok s \<and> (\<forall>p\<in>set (asked s). \<exists>i. 0 \<le> i \<and> i < ports \<and> p = word_of_int (port + i))"

text \<open>The kernel: a new descriptor is not one that is watched, and \<open>epoll_wait\<close> reports watched descriptors, each once.\<close>

definition load_fair :: "load_io \<Rightarrow> load \<Rightarrow> bool" where
  "load_fair r s \<longleftrightarrow> socket_fd r \<notin> watched s \<and> distinct (map on (reported r)) \<and>
     (\<forall>e\<in>set (reported r). int_range (on e) \<and> on e \<in> (if connections s < 340000 then insert (socket_fd r) (watched s) else watched s))"

inductive load_run :: "(load_io \<Rightarrow> load \<Rightarrow> (load + load) option) \<Rightarrow> load \<Rightarrow> bool" for step where
  load_first: "load_run step load_start"
| load_next: "load_run step s \<Longrightarrow> load_fair r s \<Longrightarrow> step r s = Some (Inr s') \<Longrightarrow> load_run step s'"

lemma load_inv_sockfd: "load_inv ports port (s\<lparr>sockfd := fd\<rparr>) = load_inv ports port s"
  by (simp add: load_inv_def text_ok_def)

lemma bstr_text: "text_ok s \<Longrightarrow> \<exists>t. bstr (text_buf s) = Some t"
  by (auto simp: text_ok_def bstr_def)

lemma send_text_ok: "text_ok s \<Longrightarrow> \<exists>w. send_text fd s = Some (s\<lparr>written := w\<rparr>)"
  using bstr_text [of s] by (auto simp: send_text_def)

lemma say_ok:
  assumes "text_ok s" "length t < 128"
  shows "\<exists>b. say t s = Some (s\<lparr>text_buf := b\<rparr>) \<and> text_ok (s\<lparr>text_buf := b\<rparr>)"
  using assms by (auto simp: say_def put_text_def text_ok_def)

lemma decimal_length: "int_range i \<Longrightarrow> length (decimal i) \<le> 11"
proof -
  assume "int_range i"
  then have "nat i < 10 ^ 10" "nat (- i) < 10 ^ 10" by (cases "0 \<le> i"; simp add: int_range_def nat_less_iff)+
  from this [THEN digits_length] show ?thesis by (simp add: decimal_def)
qed

text \<open>The contract of a program: how it greets, and what it does with one event.\<close>

locale load_program =
  fixes hello :: "load \<Rightarrow> load option" and event :: "load_event \<Rightarrow> load \<Rightarrow> load option" and ports :: int
  assumes ports: "0 < ports"
    and hello_ok: "text_ok s \<Longrightarrow> 0 \<le> connections s \<Longrightarrow> connections s < 340000 \<Longrightarrow>
      \<exists>b. hello s = Some (s\<lparr>text_buf := b\<rparr>) \<and> text_ok (s\<lparr>text_buf := b\<rparr>)"
    and event_ok: "load_inv ports port s \<Longrightarrow> on e \<in> watched s \<Longrightarrow> int_range (on e) \<Longrightarrow>
      \<exists>s'. event e s = Some s' \<and> load_inv ports port s' \<and> watched s - {on e} \<subseteq> watched s'"
begin

lemma index_ok: "load_inv ports port s \<Longrightarrow> load_inv ports port (next_index ports s)"
  using ports by (auto simp: load_inv_def next_index_def Let_def text_ok_def)

lemma open_ok:
  assumes "load_inv ports port s" "connections s < 340000" "socket_fd r \<notin> watched s"
  shows "\<exists>x. open_connection hello port r s = Some x \<and> (\<forall>s'. x = Inr s' \<longrightarrow> load_inv ports port s' \<and> watched s' = insert (socket_fd r) (watched s))"
proof (cases "socket_fd r = -1 \<or> \<not> connected r")
  case True
  then show ?thesis by (auto simp: open_connection_def Let_def)
next
  case False
  define t where "t = s\<lparr>sockfd := socket_fd r, opened := insert (socket_fd r) (opened s), asked := asked s @ [word_of_int (port + index s)]\<rparr>"
  have c: "0 \<le> connections s" using assms(1) by (auto simp: load_inv_def)
  have t: "text_ok t" "connections t = connections s" using assms(1) by (simp_all add: t_def load_inv_def text_ok_def)
  obtain b where b: "hello t = Some (t\<lparr>text_buf := b\<rparr>)" "text_ok (t\<lparr>text_buf := b\<rparr>)" using hello_ok [OF t(1)] t(2) c assms(2) by auto
  obtain w where w: "send_text (socket_fd r) (t\<lparr>text_buf := b\<rparr>) = Some (t\<lparr>text_buf := b, written := w\<rparr>)" using send_text_ok [OF b(2)] by auto
  let ?s = "t\<lparr>text_buf := b, written := w, watched := insert (socket_fd r) (watched t), connections := connections t + 1\<rparr>"
  have "open_connection hello port r s = Some (Inr ?s)"
    using False b(1) w by (simp add: open_connection_def Let_def t_def)
  moreover have "load_inv ports port ?s"
    using assms b(2) by (auto simp: load_inv_def t_def text_ok_def)
  moreover have "watched ?s = insert (socket_fd r) (watched s)" by (simp add: t_def)
  ultimately show ?thesis by blast
qed

lemma each_ok:
  "load_inv ports port s \<Longrightarrow> distinct (map on es) \<Longrightarrow> \<forall>e\<in>set es. int_range (on e) \<and> on e \<in> watched s \<Longrightarrow> \<exists>s'. each event es s = Some s' \<and> load_inv ports port s'"
proof (induction es arbitrary: s)
  case (Cons e es)
  obtain s1 where s1: "event e s = Some s1" "load_inv ports port s1" "watched s - {on e} \<subseteq> watched s1"
    using event_ok [OF Cons.prems(1)] Cons.prems(3) by fastforce
  have "int_range (on x) \<and> on x \<in> watched s1" if x: "x \<in> set es" for x
  proof -
    have "on x \<in> on ` set es" using x by (rule imageI)
    then have "on x \<noteq> on e" using Cons.prems(2) by (auto simp del: image_iff)
    moreover have "on x \<in> watched s" "int_range (on x)" using Cons.prems(3) x by auto
    ultimately show ?thesis using s1(3) by blast
  qed
  then show ?case using Cons.IH [OF s1(2)] Cons.prems(2) s1(1) by auto
qed simp

text \<open>A round as both programs have it; \<open>start\<close> is what it does with \<open>sockfd\<close> at its beginning.\<close>

lemma round_ok:
  assumes "load_inv ports port s" "load_fair r s" "load_inv ports port (start (next_index ports s))"
    and "\<And>t. watched (start t) = watched t \<and> connections (start t) = connections t \<and> isContinue (start t) = isContinue t"
  shows "\<exists>x. (do { let s = start (next_index ports s);
       x \<leftarrow> (if connections s < 340000 \<and> isContinue s = 0 then open_connection hello port r s else Some (Inr s));
       (case x of Inl s \<Rightarrow> Some (Inl s) | Inr s \<Rightarrow> map_option Inr (serve event r s)) }) = Some x \<and> (\<forall>s'. x = Inr s' \<longrightarrow> load_inv ports port s')"
proof -
  let ?s = "start (next_index ports s)"
  have same: "watched ?s = watched s" "connections ?s = connections s" "isContinue ?s = 0"
    using assms(1,4) by (simp_all add: next_index_def Let_def load_inv_def)
  have served: "\<exists>s2. serve event r t = Some s2 \<and> load_inv ports port s2"
    if "load_inv ports port t" "\<forall>e\<in>set (reported r). int_range (on e) \<and> on e \<in> watched t" for t
    using each_ok [OF that(1) _ that(2)] assms(2) that(1) by (auto simp: serve_def load_fair_def)
  show ?thesis
  proof (cases "connections s < 340000")
    case True
    obtain x where x: "open_connection hello port r ?s = Some x"
      "\<forall>s'. x = Inr s' \<longrightarrow> load_inv ports port s' \<and> watched s' = insert (socket_fd r) (watched ?s)"
      using open_ok [OF assms(3), of r] same True assms(2) by (auto simp: load_fair_def)
    show ?thesis
    proof (cases x)
      case (Inl t)
      then show ?thesis using x(1) same True by simp
    next
      case (Inr t)
      then have t: "load_inv ports port t" "watched t = insert (socket_fd r) (watched s)" using x(2) same by simp_all
      obtain s2 where "serve event r t = Some s2" "load_inv ports port s2"
        using served [OF t(1)] t(2) assms(2) True by (auto simp: load_fair_def)
      then show ?thesis using x(1) Inr same True by simp
    qed
  next
    case False
    obtain s2 where "serve event r ?s = Some s2" "load_inv ports port s2"
      using served [OF assms(3)] same assms(2) False by (auto simp: load_fair_def)
    then show ?thesis using same False by simp
  qed
qed

end

lemma close_ok:
  "load_inv ports port s \<Longrightarrow> load_inv ports port (close_fd fd s) \<and> watched s - {fd} \<subseteq> watched (close_fd fd s)"
  using card_mono [of "watched s" "watched s - {fd}"] by (auto simp: load_inv_def close_fd_def text_ok_def)

lemma on_input_ok:
  assumes "load_inv ports port s" "fd \<in> watched s"
  shows "load_inv ports port (on_input again fd a s) \<and> watched s - {fd} \<subseteq> watched (on_input again fd a s)"
proof -
  have "load_inv ports port (close_fd fd (s\<lparr>connections := connections s - 1\<rparr>))"
    using assms card_Diff_singleton [of fd "watched s"] card_gt_0_iff [of "watched s"] by (auto simp: load_inv_def close_fd_def text_ok_def)
  moreover have "s\<lparr>isContinue := 0\<rparr> = s" using assms(1) by (simp add: load_inv_def)
  ultimately show ?thesis using close_ok [OF assms(1), of fd] assms(1)
    by (auto simp: on_input_def close_fd_def split: load_answer.splits)
qed

lemma say_inv: "load_inv ports port s \<Longrightarrow> length t < 128 \<Longrightarrow> \<exists>b. say t s = Some (s\<lparr>text_buf := b\<rparr>) \<and> load_inv ports port (s\<lparr>text_buf := b\<rparr>)"
  using say_ok [of s t] by (auto simp: load_inv_def text_ok_def)

lemma send_inv: "load_inv ports port s \<Longrightarrow> \<exists>w. send_text fd s = Some (s\<lparr>written := w\<rparr>) \<and> load_inv ports port (s\<lparr>written := w\<rparr>)"
  using send_text_ok [of s fd] by (auto simp: load_inv_def text_ok_def)

interpretation p100: load_program greet event_100 MAX_PORT_100
proof
  show "0 < MAX_PORT_100" by (simp add: MAX_PORT_100_def)
next
  fix s :: load
  assume s: "text_ok s" "0 \<le> connections s" "connections s < 340000"
  then have "length (decimal (connections s)) \<le> 11" by (intro decimal_length) (simp add: int_range_def)
  then show "\<exists>b. greet s = Some (s\<lparr>text_buf := b\<rparr>) \<and> text_ok (s\<lparr>text_buf := b\<rparr>)"
    unfolding greet_def by (intro say_ok s(1)) (simp add: bytes_def)
next
  fix port and s :: load and e :: load_event
  assume s: "load_inv MAX_PORT_100 port s" "on e \<in> watched s" "int_range (on e)"
  have "length (bytes ''data from '' @ decimal (on e) @ [10]) < 128" using decimal_length [OF s(3)] by (simp add: bytes_def)
  from say_inv [OF s(1) this] obtain b where b: "say (bytes ''data from '' @ decimal (on e) @ [10]) s = Some (s\<lparr>text_buf := b\<rparr>)"
    "load_inv MAX_PORT_100 port (s\<lparr>text_buf := b\<rparr>)" by blast
  show "\<exists>s'. event_100 e s = Some s' \<and> load_inv MAX_PORT_100 port s' \<and> watched s - {on e} \<subseteq> watched s'"
    using b send_inv [OF b(2), of "on e"] on_input_ok [OF s(1,2)] close_ok [OF s(1)] by (auto simp: event_100_def Let_def)
qed

interpretation p20: load_program Some event_20 MAX_PORT_20
proof
  show "0 < MAX_PORT_20" by (simp add: MAX_PORT_20_def)
next
  fix s :: load
  assume "text_ok s"
  then show "\<exists>b. Some s = Some (s\<lparr>text_buf := b\<rparr>) \<and> text_ok (s\<lparr>text_buf := b\<rparr>)" by (intro exI [of _ "text_buf s"]) simp
next
  fix port and s :: load and e :: load_event
  assume s: "load_inv MAX_PORT_20 port s" "on e \<in> watched s"
  show "\<exists>s'. event_20 e s = Some s' \<and> load_inv MAX_PORT_20 port s' \<and> watched s - {on e} \<subseteq> watched s'"
    using send_inv [OF s(1), of "sockfd s"] on_input_ok [OF s] close_ok [OF s(1)] by (auto simp: event_20_def Let_def)
qed

lemma round_100_ok: "load_inv MAX_PORT_100 port s \<Longrightarrow> load_fair r s \<Longrightarrow> \<exists>x. round_100 port r s = Some x \<and> (\<forall>s'. x = Inr s' \<longrightarrow> load_inv MAX_PORT_100 port s')"
  unfolding round_100_def
  by (rule p100.round_ok [where start = "\<lambda>s. s\<lparr>sockfd := 0\<rparr>"]) (simp_all add: load_inv_sockfd p100.index_ok)

lemma round_20_ok: "load_inv MAX_PORT_20 port s \<Longrightarrow> load_fair r s \<Longrightarrow> \<exists>x. round_20 port r s = Some x \<and> (\<forall>s'. x = Inr s' \<longrightarrow> load_inv MAX_PORT_20 port s')"
  unfolding round_20_def
  by (rule p20.round_ok [where start = "\<lambda>s. s"]) (simp_all add: p20.index_ok)

lemma load_start_ok: "0 < ports \<Longrightarrow> load_inv ports port load_start"
  by (simp add: load_inv_def load_start_def text_ok_def bytes_def)

lemma load_run_inv:
  assumes "\<And>r s. load_inv ports port s \<Longrightarrow> load_fair r s \<Longrightarrow> \<exists>x. step r s = Some x \<and> (\<forall>s'. x = Inr s' \<longrightarrow> load_inv ports port s')" "0 < ports"
  shows "load_run step s \<Longrightarrow> load_inv ports port s"
proof (induction rule: load_run.induct)
  case load_first
  then show ?case using assms(2) by (rule load_start_ok)
next
  case (load_next s r s')
  then show ?case using assms(1) [OF load_next.IH load_next.hyps(2)] by auto
qed


section \<open>Properties\<close>

text \<open>In every run of either client, with any answers of the system calls that name the descriptors registered, the next round is defined (no text leaves the buffer),
  \<open>connections\<close> is never below the number of connections watched nor above 340000, so that \<open>epoll_wait\<close> never gets a count beyond its array, every
  connection goes to one of the ports of the range, and no message of a server, \<open>quit\<close> included, ever changes \<open>isContinue\<close>.\<close>

theorem load_bounds:
  assumes "(step, ports) \<in> {(round_100 port, MAX_PORT_100), (round_20 port, MAX_PORT_20)}" "load_run step s" "load_fair r s"
  shows "step r s \<noteq> None \<and> int (card (watched s)) \<le> connections s \<and> connections s \<le> 340000 \<and> connections s < MAX_EPOLLSIZE \<and>
    isContinue s = 0 \<and> (\<forall>p\<in>set (asked s). \<exists>i. 0 \<le> i \<and> i < ports \<and> p = word_of_int (port + i))"
proof -
  have ok: "\<exists>x. step r s = Some x \<and> (\<forall>s'. x = Inr s' \<longrightarrow> load_inv ports port s')" if "load_inv ports port s" "load_fair r s" for r s
    using assms(1) round_100_ok [of port s r] round_20_ok [of port s r] that by auto
  have "0 < ports" using assms(1) p100.ports p20.ports by auto
  from load_run_inv [OF ok this assms(2)] have "load_inv ports port s" .
  then show ?thesis using ok [OF _ assms(3)] by (auto simp: load_inv_def MAX_EPOLLSIZE_def)
qed

definition first_round :: load_io where
  "first_round = \<lparr>socket_fd = 5, connected = True, reported = []\<rparr>"

definition after_first :: load where
  "after_first = (case round_100 8888 first_round load_start of Some (Inr s) \<Rightarrow> s | _ \<Rightarrow> load_start)"

theorem load_bounds_witness:
  "\<exists>s. load_run (round_100 8888) s \<and> asked s = [8889] \<and> written s = [(5, bytes ''Hello Server: client --> 0'' @ [10])] \<and> connections s \<le> 340000"
proof -
  have e: "round_100 8888 first_round load_start = Some (Inr after_first)" "asked after_first = [8889]"
    "written after_first = [(5, bytes ''Hello Server: client --> 0'' @ [10])]" "connections after_first = 1" "watched after_first = {5}"
    by code_simp+
  have "load_fair first_round load_start" by (simp add: load_fair_def first_round_def load_start_def)
  then have run: "load_run (round_100 8888) after_first" using load_next [of "round_100 8888", OF load_first] e(1) by blast
  moreover have "load_fair (first_round\<lparr>socket_fd := 6\<rparr>) after_first" by (simp add: load_fair_def first_round_def e(5))
  ultimately show ?thesis using load_bounds [of "round_100 8888" MAX_PORT_100 8888 after_first] e(2,3) by (intro exI [of _ after_first]) simp
qed

end
