(* ===== verification/Spec2Isabelle.thy ===== *)
theory Spec2Isabelle
  imports Kcp_Test Kcp_Chat Iqueue Alpha_Refine Conn_Pool Dns_Async Websocket P2p Counters Uring Http_Client Tcp_Servers Load_Client
begin

text \<open>
  Verification of the programs under \<open>src/\<close>: a course repository on network programming in C.  Its programs are separate, so are the groups of theories here; they share
  a few pieces of text (list macros, a reactor, a thread pool), which are modelled once.  Each theory opens with the files that it models, and the definitions bear the
  names of the functions.

  \<^bold>\<open>How programs are modelled.\<close>  A C integer of fixed width is a \<open>word\<close>; an \<open>int\<close> is an \<open>int\<close> where its bounds are proved, and the casts between them are written out
  (\<open>u32\<close>, \<open>i32\<close>, \<open>iclock\<close>).  Structures are records, arrays and byte strings are lists, linked structures live in an explicit heap.  A function returns its new state; a
  result \<open>None\<close> is undefined behaviour or a loop that does not end, so every theorem that states a result \<open>Some\<close> states that neither occurs.  System calls, the clock, \<open>rand\<close>,
  allocation and the scheduler are arguments: a theorem holds for all their answers unless it names a hypothesis on them.  Where a program runs for ever, the list of the
  answers it gets is its fuel, so a theorem on all lists is one on every moment of the run.

  \<^bold>\<open>Shared base.\<close>  \<open>Prelude\<close>: machine types, casts, byte order, buffers, and the locale \<open>stream_codec\<close> (items that are written by appending and read from the front; the
  interpretation \<open>kcp_wire\<close> is the segment header of KCP).  \<open>Dlist_Heap\<close>: \<open>LIST_INSERT\<close> and \<open>LIST_REMOVE\<close>, the locale \<open>intrusive_list\<close> with the laws that the
  clients use, and its interpretation \<open>dl\<close>.  \<open>Console\<close>: \<open>scanf\<close>, \<open>fgets\<close>, files and the screen for the two address books.

  \<^bold>\<open>KCP\<close> (\<open>2.2.3-udp-kcp-quic\<close>: \<open>ikcp.c\<close>, \<open>ikcp.h\<close>), a reliable transport over datagrams:
  \<^item> \<open>Kcp_Wire\<close>: the encoders and decoders in both compiled versions, and the header of a segment.
  \<^item> \<open>Kcp_State\<close>: the control block, \<open>ikcp_init\<close>, \<open>ikcp_setmtu\<close>, \<open>ikcp_wndsize\<close>, \<open>ikcp_nodelay\<close> and the rest of the configuration.
  \<^item> \<open>Kcp_Recv\<close>: \<open>ikcp_parse_data\<close>, \<open>ikcp_peeksize\<close>, \<open>ikcp_recv\<close>; delivery in order for every order of arrival.
  \<^item> \<open>Iqueue\<close>: the circular lists of \<open>ikcp.h\<close> in a heap and \<open>ikcp_parse_data\<close> with pointers, which refines the version over lists.  The other functions take the four
    queues for lists.
  \<^item> \<open>Kcp_Ack\<close>: round-trip estimator, removal of acknowledged segments, the list of acknowledgements to send.
  \<^item> \<open>Kcp_Input\<close>: \<open>ikcp_input\<close> on any bytes.
  \<^item> \<open>Kcp_Send\<close>: \<open>ikcp_send\<close> with fragments and the stream mode.
  \<^item> \<open>Kcp_Flush\<close>: \<open>ikcp_flush\<close>, \<open>ikcp_update\<close>, \<open>ikcp_check\<close>; what a flush outputs, the windows, retransmission.  The datagrams given to the callback are returned.
  \<^item> \<open>Kcp_Session\<close>: all calls of an application in any order (\<open>reachable\<close>), the invariant \<open>session_inv\<close> of the reachable states, and two endpoints that accept each other.
  \<^item> \<open>Kcp_Link\<close>: two endpoints and a network that loses, repeats and reorders; what is received is a prefix of what was sent.
  \<^item> \<open>Kcp_Demo\<close>, \<open>Kcp_Echo\<close>: the programs \<open>server.c\<close>, \<open>client.c\<close>, \<open>delay.c\<close> over the engine, alone and together.  The test of the client has returned (\<open>Inr\<close>) or
    waits for more rounds (\<open>Inl\<close>).
  \<^item> \<open>Latency_Sim\<close>, \<open>Kcp_Test\<close>: the network simulator of \<open>test.h\<close> and the test \<open>test.cpp\<close> over it.
  \<^item> \<open>Kcp_Chat\<close>: the server of the chat room of \<open>kcp_session.cc\<close>, \<open>kcp_server.cc\<close>, \<open>chat_server.cc\<close>: sessions, the room, a datagram and a round of updates as the
    steps.  What a datagram queues for every user, when the server exits and who leaves the room are shown for every state of at most \<open>2 ^ 23\<close> steps.

  \<^bold>\<open>Servers and clients on sockets.\<close>
  \<^item> \<open>Reactor\<close>: the connection table, the interest set of \<open>epoll\<close> and the callbacks of \<open>2.1.3_reactor_01.c\<close> and \<open>2.1.3_reactor_02MillionConcurrent.c\<close>.  The locale
    \<open>event_loop\<close> takes handlers that keep an invariant and gives the invariant of every run; interpretations: \<open>echo\<close>, \<open>web\<close> and \<open>plain_site\<close> (with
    \<open>king\<close> and \<open>small\<close>) in \<open>Webserver\<close>, \<open>ws\<close> in \<open>Websocket\<close>.
  \<^item> \<open>Webserver\<close>: the web servers with and without a status; \<open>Websocket\<close>: handshake, frames with a payload of less than 126 bytes, reactor.
  \<^item> \<open>P2p\<close>: the chat of two peers with its output buffer; \<open>Uring\<close>: the echo server on \<open>io_uring\<close>; \<open>Tcp_Servers\<close>: thread per connection, \<open>epoll\<close>, many ports,
    \<open>poll\<close>; \<open>Http_Client\<close>: the client of \<open>http.c\<close>.
  \<^item> \<open>Load_Client\<close>: the two load generators; locale \<open>load_program\<close>, interpretations \<open>p100\<close> and \<open>p20\<close>.

  \<^bold>\<open>Linux programs.\<close>
  \<^item> \<open>Contact\<close>, \<open>Alpha_Contact\<close>: the two address books, menus, heap and files.  \<open>Contact_Refine\<close>, \<open>Alpha_Refine\<close>: both refine an abstract list of records; the locale
    \<open>store_refine\<close> has the steps they share, interpretations \<open>ba\<close> and \<open>aa\<close>.
  \<^item> \<open>Thread_Pool\<close>: workers, pushes and destruction as interleaved steps, after a creation that is one step.  \<open>Conn_Pool\<close>: the two connection pools (locale \<open>lending\<close>, interpretations \<open>mp\<close> and \<open>cp\<close>),
    images in MySQL, and image tasks that borrow a connection.
  \<^item> \<open>Dns\<close>: the client of \<open>dns.c\<close>.  \<open>Dns_Async\<close>: the same client run by the thread pool; the two meet in one static variable of \<open>strtok\<close>.
  \<^item> \<open>Counters\<close>: ten threads on one counter with a mutex, a spin lock, an atomic addition and a compare-and-swap; locale \<open>counting\<close>, interpretations \<open>mutex\<close>, \<open>spin\<close>,
    \<open>atomic\<close>.

  \<^bold>\<open>What the lemmas show.\<close>  For each component: one preservation lemma per operation for its invariant, the result of the operation on each branch, and a property over
  all runs made of them.  The properties are the theorems whose text begins with a number \<open>C\<close>; each with hypotheses is followed by a witness at a concrete input.

  \<^bold>\<open>Bounds.\<close>  The parsing loop of \<open>ikcp_input\<close> ends because each segment takes bytes; it has a result as long as fewer than \<open>2^31\<close> acknowledgements wait to be sent,
  beyond which the code itself loops.  The end-to-end theorem \<open>link_delivers\<close> runs until \<open>2^32\<close> segments have been made; those on the demo and the test bench until an
  endpoint has seen \<open>2^23\<close> rounds or datagrams, and the bench for \<open>2^26\<close> milliseconds, because sequence numbers and clocks wrap: each such bound is a hypothesis or an
  alternative of the theorem that has it.  WebSocket handshakes have at most 987 bytes, HTTP requests less than 4096, host names less than 128, as the buffers of the code
  require; the first message of a WebSocket connection must contain the blank line that ends a request, because the code reads in front of its buffer otherwise.

  \<^bold>\<open>System calls that fail or take a part.\<close>  The theorems on the echo servers hold for every count that \<open>send\<close> returns, and the one on the web server with a status
  also for failures of \<open>open\<close>, \<open>fstat\<close> and \<open>sendfile\<close>; their parameter \<open>full\<close> selects the runs in which these calls succeed in full, for which the bytes sent are
  exactly determined.  A \<open>recv\<close> that fails is undefined in the echo servers, and so is a print with \<open>%s\<close> of a full buffer without a zero byte: both are excluded by hypotheses and
  listed as findings.

  \<^bold>\<open>Not modelled.\<close>  Set-up of sockets, prompts, diagnostic prints and time measurement; the memory block of the KCP output buffer (its length is checked instead); logging
  and the allocator hooks of KCP; \<open>ikcp_release\<close> beyond the segments it frees.  Files that repeat modelled text (\<open>homework_dns_async/dns.h\<close>, the two \<open>threadpool.h\<close>,
  \<open>mysql_stmt.c\<close>, the reactor beside each web server, \<open>webserver_03png.c\<close>) are covered by the model of the first.  The terminal client of the
  chat room with the wrappers of UDP sockets, the single-statement MySQL programs and the two word counters are left out: they call libraries whose code is not here, or are a few lines long.
\<close>

end
